(* ===== verification/NK_Prelude.thy ===== *)
theory NK_Prelude
  imports Main "HOL-Library.Word" "HOL-Library.Multiset"
begin

text \<open>
  Shared vocabulary of the development: the machine types of the kernel sources, the
  outcome type in which every operation of the model returns, and generic lemmas on
  lists, maps and words.

  An operation of the kernel either returns (\<open>Done\<close>) or does not: an assertion of
  \<open>src/src/libc/include/nk_assert.h\<close> that fails spins for ever, a \<open>LockGuard\<close> on
  a lock its own core holds spins for ever, a dereference of a freed control block is
  undefined. Each way of not returning is a constructor of \<open>fault\<close>, so that no theorem
  about a returning operation is satisfied by one that hangs.
\<close>

unbundle bit_operations_syntax

type_synonym u8 = "8 word"
type_synonym u32 = "32 word"
type_synonym u64 = "64 word"
type_synonym size_t = "64 word"
type_synonym Pid = "64 word"

text \<open>The ways in which an operation of the kernel does not return normally.\<close>

datatype fault =
    AssertFailed string  \<comment> \<open>\<open>nk_assert_msg\<close>: prints, then \<open>while (true) Pause()\<close>\<close>
  | LockGuardHang        \<comment> \<open>\<open>LockGuard\<close> whose \<open>Lock()\<close> failed: \<open>while (true) Pause()\<close>\<close>
  | LockContended        \<comment> \<open>the lock is held by another core: \<open>Lock()\<close> keeps spinning\<close>
  | UseAfterFree         \<comment> \<open>dereference of a pointer to no live object\<close>
  | NullDeref            \<comment> \<open>dereference of a null pointer\<close>
  | LoopForever          \<comment> \<open>a loop of the source that makes no progress\<close>
  | IdleHalt             \<comment> \<open>\<open>schedule.cpp\<close>: no task and no idle task, \<open>while (true)\<close>\<close>
  | DivByZero
  | OutOfBounds          \<comment> \<open>an array index beyond the array\<close>
  | SignedOverflow       \<comment> \<open>a signed integer out of its range\<close>
  | BadVarArg            \<comment> \<open>a variable argument that is missing or of another type\<close>

datatype 'a outcome = Done 'a | Fault fault

primrec obind :: "'a outcome \<Rightarrow> ('a \<Rightarrow> 'b outcome) \<Rightarrow> 'b outcome" where
  "obind (Done a) f = f a"
| "obind (Fault e) f = Fault e"

definition nk_assert_msg :: "bool \<Rightarrow> string \<Rightarrow> 'a outcome \<Rightarrow> 'a outcome" where
  "nk_assert_msg b msg m = (if b then m else Fault (AssertFailed msg))"

named_theorems outcome_simps \<open>inversion of returning operations\<close>

lemma obind_Done_iff [outcome_simps]:
  "obind m f = Done b \<longleftrightarrow> (\<exists>a. m = Done a \<and> f a = Done b)"
  by (cases m) auto

lemma obind_assoc: "obind (obind m f) g = obind m (\<lambda>x. obind (f x) g)"
  by (cases m) auto

lemma nk_assert_msg_True [simp]: "nk_assert_msg True msg m = m"
  by (simp add: nk_assert_msg_def)

lemma nk_assert_msg_False [simp]: "nk_assert_msg False msg m = Fault (AssertFailed msg)"
  by (simp add: nk_assert_msg_def)

lemma nk_assert_msg_Done_iff [outcome_simps]:
  "nk_assert_msg b msg m = Done x \<longleftrightarrow> b \<and> m = Done x"
  by (simp add: nk_assert_msg_def)

text \<open>A store of objects addressed by pointers; \<open>None\<close> is freed or never allocated.\<close>

definition deref :: "('p \<rightharpoonup> 'o) \<Rightarrow> 'p \<Rightarrow> 'o outcome" where
  "deref h p = (case h p of None \<Rightarrow> Fault UseAfterFree | Some x \<Rightarrow> Done x)"

definition modify :: "('p \<rightharpoonup> 'o) \<Rightarrow> 'p \<Rightarrow> ('o \<Rightarrow> 'o) \<Rightarrow> ('p \<rightharpoonup> 'o) outcome" where
  "modify h p f = (case h p of None \<Rightarrow> Fault UseAfterFree | Some x \<Rightarrow> Done (h(p \<mapsto> f x)))"

lemma deref_Some [simp]: "h p = Some x \<Longrightarrow> deref h p = Done x"
  by (simp add: deref_def)

lemma deref_None [simp]: "h p = None \<Longrightarrow> deref h p = Fault UseAfterFree"
  by (simp add: deref_def)

lemma modify_Some [simp]: "h p = Some x \<Longrightarrow> modify h p f = Done (h(p \<mapsto> f x))"
  by (simp add: modify_def)

lemma modify_None [simp]: "h p = None \<Longrightarrow> modify h p f = Fault UseAfterFree"
  by (simp add: modify_def)

lemma deref_Done_iff [outcome_simps]: "deref h p = Done x \<longleftrightarrow> h p = Some x"
  by (simp add: deref_def split: option.splits)

lemma modify_Done_iff [outcome_simps]:
  "modify h p f = Done h' \<longleftrightarrow> (\<exists>x. h p = Some x \<and> h' = h(p \<mapsto> f x))"
  by (auto simp: modify_def split: option.splits)

text \<open>A loop as a \<open>partial_function\<close>: \<open>None\<close> is a loop that does not end.\<close>

definition run_loop :: "'a outcome option \<Rightarrow> 'a outcome" where
  "run_loop r = (case r of None \<Rightarrow> Fault LoopForever | Some m \<Rightarrow> m)"

text \<open>Generic list facts.\<close>

lemma distinct_remove1_notin: "distinct xs \<Longrightarrow> x \<notin> set (remove1 x xs)"
  by simp

lemma mset_swap_upd:
  assumes "i < length xs" "j < length xs"
  shows "mset (xs[i := xs ! j, j := xs ! i]) = mset xs"
  using mset_swap [OF assms(2,1)] .

end
