(* ===== verification/Resource_Id.thy ===== *)
theory Resource_Id
  imports NK_Prelude
begin

text \<open>
  Resource identifiers (\<open>src/src/task/include/resource_id.hpp\<close>): a 64-bit value whose
  top byte is the resource type and whose low 56 bits are its data. Blocked tasks are
  grouped by these values, so that two resources may only share an identifier when they
  share type and low data bits.
\<close>

datatype ResourceType =
    kNone | kMutex | kSemaphore | kCondVar | kChildExit | kIoComplete | kFutex | kSignal
  | kTimer | kInterrupt | kResourceTypeCount

fun resource_type_value :: "ResourceType \<Rightarrow> u8" where
  "resource_type_value kNone = 0x00"
| "resource_type_value kMutex = 0x01"
| "resource_type_value kSemaphore = 0x02"
| "resource_type_value kCondVar = 0x03"
| "resource_type_value kChildExit = 0x04"
| "resource_type_value kIoComplete = 0x05"
| "resource_type_value kFutex = 0x06"
| "resource_type_value kSignal = 0x07"
| "resource_type_value kTimer = 0x08"
| "resource_type_value kInterrupt = 0x09"
| "resource_type_value kResourceTypeCount = 0x0A"

text \<open>
  \<open>GetResourceTypeName\<close> switches on the type's byte; a byte that names no case, and
  \<open>kInterrupt\<close>, for which the switch has none, give \<open>Unknown\<close>.
\<close>

definition GetResourceTypeName :: "u8 \<Rightarrow> string" where
  "GetResourceTypeName t =
     (if t = resource_type_value kNone then ''None''
      else if t = resource_type_value kMutex then ''Mutex''
      else if t = resource_type_value kSemaphore then ''Semaphore''
      else if t = resource_type_value kCondVar then ''CondVar''
      else if t = resource_type_value kChildExit then ''ChildExit''
      else if t = resource_type_value kIoComplete then ''IoComplete''
      else if t = resource_type_value kFutex then ''Futex''
      else if t = resource_type_value kSignal then ''Signal''
      else if t = resource_type_value kTimer then ''Timer''
      else ''Unknown'')"

definition kTypeShift :: nat where "kTypeShift = 56"

definition kDataMask :: u64 where "kDataMask = 0x00FFFFFFFFFFFFFF"

type_synonym ResourceId = u64

text \<open>The constructor \<open>ResourceId(type, data)\<close> and the accessors.\<close>

definition mk_ResourceId :: "ResourceType \<Rightarrow> u64 \<Rightarrow> ResourceId" where
  "mk_ResourceId type data =
     push_bit kTypeShift (ucast (resource_type_value type)) OR (data AND kDataMask)"

definition ResourceId_GetType :: "ResourceId \<Rightarrow> u8" where
  "ResourceId_GetType r = ucast (drop_bit kTypeShift r AND 0xFF)"

definition ResourceId_GetData :: "ResourceId \<Rightarrow> u64" where
  "ResourceId_GetData r = r AND kDataMask"

definition ResourceId_GetTypeName :: "ResourceId \<Rightarrow> string" where
  "ResourceId_GetTypeName r = GetResourceTypeName (ResourceId_GetType r)"

definition ResourceId_bool :: "ResourceId \<Rightarrow> bool" where
  "ResourceId_bool r \<longleftrightarrow> ResourceId_GetType r \<noteq> resource_type_value kNone"

lemma resource_type_value_inj: "resource_type_value a = resource_type_value b \<Longrightarrow> a = b"
  by (cases a; cases b) simp_all

lemma kDataMask_mask: "kDataMask = mask 56"
  by (simp add: kDataMask_def mask_eq_exp_minus_1)

lemma byte_mask: "(0xFF :: u64) = mask 8"
  by (simp add: mask_eq_exp_minus_1)

lemma ResourceId_GetType_mk:
  "ResourceId_GetType (mk_ResourceId type data) = resource_type_value type"
proof -
  have "ucast (drop_bit 56 (push_bit 56 (ucast v :: u64) OR (data AND mask 56)) AND mask 8) = v"
    for v :: u8
    by (rule bit_word_eqI)
       (auto simp: bit_simps)
  then show ?thesis
    by (simp only: ResourceId_GetType_def mk_ResourceId_def kTypeShift_def kDataMask_mask byte_mask)
qed

lemma ResourceId_GetData_mk:
  "ResourceId_GetData (mk_ResourceId type data) = data AND kDataMask"
proof -
  have "(push_bit 56 (ucast v :: u64) OR (data AND mask 56)) AND mask 56 = data AND mask 56"
    for v :: u8
    by (rule bit_word_eqI) (auto simp: bit_simps)
  then show ?thesis
    by (simp only: ResourceId_GetData_def mk_ResourceId_def kTypeShift_def kDataMask_mask)
qed

text \<open>Every identifier is rebuilt from its type byte and its data.\<close>

lemma ResourceId_eqI:
  assumes "ResourceId_GetType r = ResourceId_GetType s"
    and "ResourceId_GetData r = ResourceId_GetData s"
  shows "r = s"
proof (rule bit_word_eqI)
  fix n assume n: "n < LENGTH(64)"
  show "bit r n \<longleftrightarrow> bit s n"
  proof (cases "n < 56")
    case True
    have "bit (r AND mask 56) n \<longleftrightarrow> bit (s AND mask 56) n"
      using assms(2) by (simp add: ResourceId_GetData_def kDataMask_mask)
    with True show ?thesis by (simp add: bit_simps)
  next
    case False
    with n have n': "n - 56 < 8" "n - 56 < 64" by simp_all
    have "bit (ucast (drop_bit 56 r AND mask 8) :: u8) (n - 56)
       \<longleftrightarrow> bit (ucast (drop_bit 56 s AND mask 8) :: u8) (n - 56)"
      using assms(1) by (simp only: ResourceId_GetType_def kTypeShift_def byte_mask)
    with False n' show ?thesis by (simp add: bit_simps)
  qed
qed

text \<open>
  Identifier round trip. The type and the low 56 data bits of a constructed
  identifier are read back unchanged, and two constructed identifiers are equal exactly
  when their types agree and their data agree in the low 56 bits: no two types share an
  identifier, whatever the data.
\<close>

theorem mk_ResourceId_roundtrip:
  "ResourceId_GetType (mk_ResourceId t d) = resource_type_value t \<and>
   ResourceId_GetData (mk_ResourceId t d) = d AND kDataMask \<and>
   (mk_ResourceId t d = mk_ResourceId t' d' \<longleftrightarrow>
      t = t' \<and> d AND kDataMask = d' AND kDataMask)"
proof -
  have "mk_ResourceId t d = mk_ResourceId t' d' \<longleftrightarrow>
      t = t' \<and> d AND kDataMask = d' AND kDataMask"
    (is "?l \<longleftrightarrow> ?r")
  proof
    assume l: ?l
    from arg_cong [OF l, of ResourceId_GetType]
    have "t = t'" by (simp only: ResourceId_GetType_mk resource_type_value_inj)
    moreover from arg_cong [OF l, of ResourceId_GetData]
    have "d AND kDataMask = d' AND kDataMask" by (simp only: ResourceId_GetData_mk)
    ultimately show ?r by simp
  next
    assume r: ?r
    show ?l
      by (rule ResourceId_eqI) (simp_all only: r ResourceId_GetType_mk ResourceId_GetData_mk)
  qed
  then show ?thesis
    by (simp only: ResourceId_GetType_mk ResourceId_GetData_mk simp_thms)
qed

end
