(* ===== verification/Task_Control_Block.thy ===== *)
theory Task_Control_Block
  imports Resource_Id
begin

text \<open>
  Task control blocks (\<open>src/src/task/include/task_control_block.hpp\<close> and
  \<open>task_control_block.cpp\<close>): the enumerations, the structure, its constructors, and the
  intrusive doubly linked list of a thread group, on a store of control blocks addressed by
  non-null pointers (\<open>tptr\<close>); a nullable pointer is a \<open>tptr option\<close>. Stack, page table
  and code addresses are 64-bit words, 0 the null pointer. C \<open>int\<close> fields are only copied
  and compared, so they are mathematical integers.
\<close>

subsection \<open>Enumerations\<close>

definition kCloneAll :: u64 where "kCloneAll = 0"
definition kCloneVm :: u64 where "kCloneVm = 0x00000100"
definition kCloneFs :: u64 where "kCloneFs = 0x00000200"
definition kCloneFiles :: u64 where "kCloneFiles = 0x00000400"
definition kCloneSighand :: u64 where "kCloneSighand = 0x00000800"
definition kCloneParent :: u64 where "kCloneParent = 0x00008000"
definition kCloneThread :: u64 where "kCloneThread = 0x00010000"

lemmas clone_flag_defs = kCloneAll_def kCloneVm_def kCloneFs_def kCloneFiles_def
  kCloneSighand_def kCloneParent_def kCloneThread_def

text \<open>\<open>flags & bit\<close> used as a condition.\<close>

definition has_flag :: "u64 \<Rightarrow> u64 \<Rightarrow> bool" where
  "has_flag flags b \<longleftrightarrow> flags AND b \<noteq> 0"

datatype TaskStatus = kUnInit | kReady | kRunning | kSleeping | kBlocked | kExited | kZombie

datatype SchedPolicy = kRealTime | kNormal | kIdle | kPolicyCount

primrec policy_value :: "SchedPolicy \<Rightarrow> nat" where
  "policy_value kRealTime = 0"
| "policy_value kNormal = 1"
| "policy_value kIdle = 2"
| "policy_value kPolicyCount = 3"

text \<open>The enumeration's integer order, which the source compares policies with.\<close>

instantiation SchedPolicy :: linorder
begin

definition less_eq_SchedPolicy :: "SchedPolicy \<Rightarrow> SchedPolicy \<Rightarrow> bool" where
  "less_eq_SchedPolicy p q \<longleftrightarrow> policy_value p \<le> policy_value q"

definition less_SchedPolicy :: "SchedPolicy \<Rightarrow> SchedPolicy \<Rightarrow> bool" where
  "less_SchedPolicy p q \<longleftrightarrow> policy_value p < policy_value q"

instance
proof
  fix p q r :: SchedPolicy
  show "p < q \<longleftrightarrow> p \<le> q \<and> \<not> q \<le> p" by (auto simp: less_eq_SchedPolicy_def less_SchedPolicy_def)
  show "p \<le> p" by (simp add: less_eq_SchedPolicy_def)
  show "p \<le> q \<Longrightarrow> q \<le> r \<Longrightarrow> p \<le> r" by (simp add: less_eq_SchedPolicy_def)
  show "p \<le> q \<Longrightarrow> q \<le> p \<Longrightarrow> p = q" by (cases p; cases q) (simp_all add: less_eq_SchedPolicy_def)
  show "p \<le> q \<or> q \<le> p" by (auto simp: less_eq_SchedPolicy_def)
qed

end

lemma policy_less_count: "p < kPolicyCount \<longleftrightarrow> p \<noteq> kPolicyCount"
  by (cases p) (simp_all add: less_SchedPolicy_def)

subsection \<open>The structure\<close>

type_synonym tptr = nat

record SchedInfo =
  si_priority :: int
  si_base_priority :: int
  si_inherited_priority :: int
  si_wake_tick :: u64
  si_time_slice_remaining :: u64
  si_time_slice_default :: u64
  si_total_runtime :: u64
  si_context_switches :: u64

definition default_SchedInfo :: SchedInfo where
  "default_SchedInfo = \<lparr>si_priority = 10, si_base_priority = 10, si_inherited_priority = 0,
     si_wake_tick = 0, si_time_slice_remaining = 10, si_time_slice_default = 10,
     si_total_runtime = 0, si_context_switches = 0\<rparr>"

text \<open>The \<open>cfs\<close> member of the union \<open>SchedData\<close>; no code uses the \<open>mlfq\<close> member.\<close>

record SchedData =
  cfs_vruntime :: u64
  cfs_weight :: u32

text \<open>\<open>cpu_io::CalleeSavedContext\<close> of x86-64.\<close>

record CalleeSavedContext =
  ctx_return_address :: u64
  ctx_stack_pointer :: u64
  ctx_entry_function :: u64
  ctx_entry_argument :: u64
  ctx_rbp :: u64
  ctx_r13 :: u64
  ctx_r14 :: u64
  ctx_r15 :: u64

definition zero_context :: CalleeSavedContext where
  "zero_context = \<lparr>ctx_return_address = 0, ctx_stack_pointer = 0, ctx_entry_function = 0,
     ctx_entry_argument = 0, ctx_rbp = 0, ctx_r13 = 0, ctx_r14 = 0, ctx_r15 = 0\<rparr>"

record TaskControlBlock =
  t_name :: string
  t_pid :: Pid
  t_parent_pid :: Pid
  t_pgid :: Pid
  t_sid :: Pid
  t_tgid :: Pid
  t_thread_group_next :: "tptr option"
  t_thread_group_prev :: "tptr option"
  t_status :: TaskStatus
  t_policy :: SchedPolicy
  t_exit_code :: int
  t_clone_flags :: u64
  t_sched_info :: SchedInfo
  t_sched_data :: SchedData
  t_kernel_stack :: u64
  t_trap_context_ptr :: u64
  t_task_context :: CalleeSavedContext
  t_page_table :: u64
  t_cpu_affinity :: u64
  t_blocked_on :: ResourceId
  t_is_interrupt_thread :: bool
  t_interrupt_number :: u64

definition default_TaskControlBlock :: TaskControlBlock where
  "default_TaskControlBlock = \<lparr>t_name = ''Unnamed Task'', t_pid = 0, t_parent_pid = 0, t_pgid = 0,
     t_sid = 0, t_tgid = 0, t_thread_group_next = None, t_thread_group_prev = None,
     t_status = kUnInit, t_policy = kNormal, t_exit_code = 0, t_clone_flags = kCloneAll,
     t_sched_info = default_SchedInfo, t_sched_data = \<lparr>cfs_vruntime = 0, cfs_weight = 0\<rparr>,
     t_kernel_stack = 0, t_trap_context_ptr = 0, t_task_context = zero_context,
     t_page_table = 0, t_cpu_affinity = - 1, t_blocked_on = 0,
     t_is_interrupt_thread = False, t_interrupt_number = 0\<rparr>"

definition kDefaultKernelStackSize :: u64 where "kDefaultKernelStackSize = 16 * 1024"

text \<open>
  \<open>InitTaskContext\<close> of a kernel thread (x86-64); \<open>kernel_thread_entry\<close> is the address
  of the assembly entry stub.
\<close>

definition InitTaskContext :: "u64 \<Rightarrow> u64 \<Rightarrow> u64 \<Rightarrow> u64 \<Rightarrow> CalleeSavedContext" where
  "InitTaskContext kernel_thread_entry entry arg stack_top =
     zero_context\<lparr>ctx_return_address := kernel_thread_entry, ctx_stack_pointer := stack_top,
       ctx_entry_function := entry, ctx_entry_argument := arg\<rparr>"

text \<open>
  The constructor of a kernel thread; \<open>stack\<close> is what \<open>aligned_alloc\<close> returned (0 on
  failure), \<open>tc_size\<close> is \<open>sizeof(TrapContext)\<close>.
\<close>

definition new_TaskControlBlock ::
    "u64 \<Rightarrow> u64 \<Rightarrow> u64 \<Rightarrow> string \<Rightarrow> int \<Rightarrow> u64 \<Rightarrow> u64 \<Rightarrow> TaskControlBlock" where
  "new_TaskControlBlock kte tc_size stack nm prio entry arg =
     (let t = default_TaskControlBlock\<lparr>t_name := nm,
                t_sched_info := default_SchedInfo\<lparr>si_priority := prio, si_base_priority := prio\<rparr>,
                t_kernel_stack := stack\<rparr>
      in if stack = 0 then t\<lparr>t_status := kExited\<rparr>
         else t\<lparr>t_trap_context_ptr := stack + kDefaultKernelStackSize - tc_size,
                t_task_context := InitTaskContext kte entry arg (stack + kDefaultKernelStackSize)\<rparr>)"

definition IsThreadGroupLeader :: "TaskControlBlock \<Rightarrow> bool" where
  "IsThreadGroupLeader t \<longleftrightarrow> t_pid t = t_tgid t"

definition InSameThreadGroup :: "TaskControlBlock \<Rightarrow> TaskControlBlock option \<Rightarrow> bool" where
  "InSameThreadGroup t other =
     (case other of None \<Rightarrow> False | Some u \<Rightarrow> t_tgid t = t_tgid u \<and> t_tgid t \<noteq> 0)"

text \<open>\<open>PriorityCompare\<close> and \<open>WakeTickCompare\<close> on the objects that the pointers refer to.\<close>

definition PriorityCompare :: "TaskControlBlock \<Rightarrow> TaskControlBlock \<Rightarrow> bool" where
  "PriorityCompare a b \<longleftrightarrow> si_priority (t_sched_info a) > si_priority (t_sched_info b)"

definition WakeTickCompare :: "TaskControlBlock \<Rightarrow> TaskControlBlock \<Rightarrow> bool" where
  "WakeTickCompare a b \<longleftrightarrow> si_wake_tick (t_sched_info a) > si_wake_tick (t_sched_info b)"

subsection \<open>Thread groups\<close>

type_synonym tcb_heap = "tptr \<rightharpoonup> TaskControlBlock"

definition JoinThreadGroup :: "tcb_heap \<Rightarrow> tptr \<Rightarrow> tptr option \<Rightarrow> tcb_heap outcome" where
  "JoinThreadGroup h this leader =
     (case leader of
        None \<Rightarrow> Done h
      | Some l \<Rightarrow>
          if l = this then Done h
          else obind (deref h l) (\<lambda>L.
               obind (modify h this (\<lambda>T. T\<lparr>t_tgid := t_tgid L\<rparr>)) (\<lambda>h.
               obind (case t_thread_group_next L of
                        None \<Rightarrow> Done h
                      | Some n \<Rightarrow>
                          obind (modify h this (\<lambda>T. T\<lparr>t_thread_group_next := Some n\<rparr>)) (\<lambda>h.
                          modify h n (\<lambda>N. N\<lparr>t_thread_group_prev := Some this\<rparr>))) (\<lambda>h.
               obind (modify h l (\<lambda>L. L\<lparr>t_thread_group_next := Some this\<rparr>)) (\<lambda>h.
               modify h this (\<lambda>T. T\<lparr>t_thread_group_prev := Some l\<rparr>))))))"

definition LeaveThreadGroup :: "tcb_heap \<Rightarrow> tptr \<Rightarrow> tcb_heap outcome" where
  "LeaveThreadGroup h this =
     obind (deref h this) (\<lambda>T.
     obind (case t_thread_group_prev T of
              None \<Rightarrow> Done h
            | Some p \<Rightarrow> modify h p (\<lambda>P. P\<lparr>t_thread_group_next := t_thread_group_next T\<rparr>)) (\<lambda>h.
     obind (deref h this) (\<lambda>T.
     obind (case t_thread_group_next T of
              None \<Rightarrow> Done h
            | Some n \<Rightarrow> modify h n (\<lambda>N. N\<lparr>t_thread_group_prev := t_thread_group_prev T\<rparr>)) (\<lambda>h.
     modify h this (\<lambda>T. T\<lparr>t_thread_group_next := None, t_thread_group_prev := None\<rparr>)))))"

text \<open>
  A loop \<open>while (curr) { count++; curr = curr->link; }\<close>. \<open>None\<close> is a loop that does not
  end; a broken link is a use of a freed block.
\<close>

partial_function (option) count_links ::
    "(TaskControlBlock \<Rightarrow> tptr option) \<Rightarrow> tcb_heap \<Rightarrow> tptr option \<Rightarrow> size_t \<Rightarrow> size_t outcome option" where
  "count_links link h cur n =
     (case cur of
        None \<Rightarrow> Some (Done n)
      | Some c \<Rightarrow> (case h c of
            None \<Rightarrow> Some (Fault UseAfterFree)
          | Some C \<Rightarrow> count_links link h (link C) (n + 1)))"

declare count_links.simps [code]

definition GetThreadGroupSize :: "tcb_heap \<Rightarrow> tptr \<Rightarrow> size_t outcome" where
  "GetThreadGroupSize h this =
     obind (deref h this) (\<lambda>T.
     if t_tgid T = 0 then Done 1
     else obind (run_loop (count_links t_thread_group_prev h (t_thread_group_prev T) 1)) (\<lambda>n.
          run_loop (count_links t_thread_group_next h (t_thread_group_next T) n)))"

subsection \<open>The list behind the links\<close>

definition first_or :: "'a list \<Rightarrow> 'a option \<Rightarrow> 'a option" where
  "first_or xs d = (case xs of [] \<Rightarrow> d | x # _ \<Rightarrow> Some x)"

definition last_or :: "'a list \<Rightarrow> 'a option \<Rightarrow> 'a option" where
  "last_or xs d = (if xs = [] then d else Some (last xs))"

lemma first_or_simps [simp]: "first_or [] d = d" "first_or (x # xs) d = Some x"
  by (simp_all add: first_or_def)

lemma last_or_simps [simp]: "last_or [] d = d" "last_or (xs @ [x]) d = Some x" "last_or [x] d = Some x"
  by (simp_all add: last_or_def)

lemma last_or_Cons: "last_or (x # xs) d = last_or xs (Some x)"
  by (simp add: last_or_def)

lemma first_or_append: "first_or (xs @ ys) d = first_or xs (first_or ys d)"
  by (cases xs) simp_all

text \<open>\<open>linked h p xs n\<close>: the blocks \<open>xs\<close> are chained both ways between \<open>p\<close> and \<open>n\<close>.\<close>

fun linked :: "tcb_heap \<Rightarrow> tptr option \<Rightarrow> tptr list \<Rightarrow> tptr option \<Rightarrow> bool" where
  "linked h p [] n = True"
| "linked h p (x # xs) n =
     (case h x of None \<Rightarrow> False
      | Some T \<Rightarrow> t_thread_group_prev T = p \<and> t_thread_group_next T = first_or xs n \<and>
                  linked h (Some x) xs n)"

definition thread_group :: "tcb_heap \<Rightarrow> tptr list \<Rightarrow> bool" where
  "thread_group h xs \<longleftrightarrow> distinct xs \<and> linked h None xs None"

lemma linked_append:
  "linked h p (xs @ ys) n \<longleftrightarrow> linked h p xs (first_or ys n) \<and> linked h (last_or xs p) ys n"
  by (induction xs arbitrary: p) (auto simp: first_or_append last_or_Cons split: option.splits)

text \<open>Only the links of the members matter.\<close>

definition same_links :: "TaskControlBlock option \<Rightarrow> TaskControlBlock option \<Rightarrow> bool" where
  "same_links a b \<longleftrightarrow>
     map_option (\<lambda>T. (t_thread_group_prev T, t_thread_group_next T)) a =
     map_option (\<lambda>T. (t_thread_group_prev T, t_thread_group_next T)) b"

lemma linked_cong:
  assumes "\<And>x. x \<in> set xs \<Longrightarrow> same_links (h x) (h' x)"
  shows "linked h p xs n \<longleftrightarrow> linked h' p xs n"
  using assms
proof (induction xs arbitrary: p)
  case (Cons x xs)
  then have "same_links (h x) (h' x)" "linked h (Some x) xs n = linked h' (Some x) xs n" by simp_all
  then show ?case by (cases "h x"; cases "h' x") (simp_all add: same_links_def)
qed simp

lemma linked_upd_other: "x \<notin> set xs \<Longrightarrow> linked (h(x := v)) p xs n \<longleftrightarrow> linked h p xs n"
  by (rule linked_cong) (auto simp: same_links_def)

lemma linked_member: "linked h p xs n \<Longrightarrow> x \<in> set xs \<Longrightarrow> \<exists>T. h x = Some T"
  by (induction xs arbitrary: p) (auto split: option.splits)

text \<open>Membership of a group in the middle of its list.\<close>

lemma thread_group_split:
  "thread_group h (xs @ x # ys) \<longleftrightarrow>
     distinct (xs @ x # ys) \<and> linked h None xs (Some x) \<and> linked h (Some x) ys None \<and>
     (\<exists>X. h x = Some X \<and> t_thread_group_prev X = last_or xs None \<and>
          t_thread_group_next X = first_or ys None)"
  by (auto simp: thread_group_def linked_append split: option.splits)

lemma linked_first:
  assumes "linked h p (x # xs) n"
  obtains X where "h x = Some X" "t_thread_group_prev X = p" "t_thread_group_next X = first_or xs n"
    "linked h (Some x) xs n"
  using assms by (auto split: option.splits)

lemma JoinThreadGroup_correct:
  assumes "thread_group h (xs @ l # ys)" "this \<notin> set (xs @ l # ys)"
    and "h this = Some T" "t_thread_group_next T = None" "h l = Some L"
  shows "\<exists>h'. JoinThreadGroup h this (Some l) = Done h' \<and> thread_group h' (xs @ l # this # ys) \<and>
           (\<exists>T'. h' this = Some T' \<and> t_tgid T' = t_tgid L)"
proof (cases ys)
  case Nil
  let ?h = "h(l \<mapsto> L\<lparr>t_thread_group_next := Some this\<rparr>,
              this \<mapsto> T\<lparr>t_tgid := t_tgid L, t_thread_group_prev := Some l\<rparr>)"
  have "JoinThreadGroup h this (Some l) = Done ?h"
    using assms Nil by (simp add: JoinThreadGroup_def thread_group_split fun_upd_twist)
  moreover have "thread_group ?h (xs @ l # [this])"
    using assms Nil by (simp add: thread_group_split linked_upd_other)
  ultimately show ?thesis using assms(2) Nil by auto
next
  case (Cons y zs)
  with assms(1) have "linked h (Some l) (y # zs) None" by (simp add: thread_group_split)
  then obtain Y where Y: "h y = Some Y" "t_thread_group_prev Y = Some l"
      "t_thread_group_next Y = first_or zs None" "linked h (Some y) zs None" by (rule linked_first)
  let ?h = "h(y \<mapsto> Y\<lparr>t_thread_group_prev := Some this\<rparr>, l \<mapsto> L\<lparr>t_thread_group_next := Some this\<rparr>,
              this \<mapsto> T\<lparr>t_tgid := t_tgid L, t_thread_group_next := Some y, t_thread_group_prev := Some l\<rparr>)"
  have "JoinThreadGroup h this (Some l) = Done ?h"
    using assms Cons Y by (auto simp: JoinThreadGroup_def thread_group_split fun_upd_twist)
  moreover have "thread_group ?h (xs @ l # this # y # zs)"
    using assms Cons Y by (auto simp: thread_group_split linked_upd_other)
  ultimately show ?thesis using assms(2) Cons by auto
qed

text \<open>Redirecting the last forward link and the first backward link of a chain.\<close>

lemma linked_relink_last:
  assumes "linked h p (xs @ [x]) n" "x \<notin> set xs" "h x = Some X"
  shows "linked (h(x \<mapsto> X\<lparr>t_thread_group_next := m\<rparr>)) p (xs @ [x]) m"
  using assms by (simp add: linked_append linked_upd_other)

lemma linked_relink_first:
  assumes "linked h p (x # xs) n" "x \<notin> set xs" "h x = Some X"
  shows "linked (h(x \<mapsto> X\<lparr>t_thread_group_prev := q\<rparr>)) q (x # xs) n"
  using assms by (simp add: linked_upd_other)

text \<open>The two halves of \<open>LeaveThreadGroup\<close>: the predecessor and the successor are relinked.\<close>

lemma leave_prev:
  assumes "linked h None xs (Some x)" "distinct xs" "x \<notin> set xs"
  obtains h' where "(case last_or xs None of None \<Rightarrow> Done h
        | Some p \<Rightarrow> modify h p (\<lambda>P. P\<lparr>t_thread_group_next := m\<rparr>)) = Done h'"
    "linked h' None xs m" "\<And>z. z \<notin> set xs \<Longrightarrow> h' z = h z"
proof (cases xs rule: rev_cases)
  case Nil
  then show thesis using that [of h] by simp
next
  case (snoc zs p)
  then obtain P where P: "h p = Some P" using linked_member [OF assms(1), of p] by auto
  have "linked (h(p \<mapsto> P\<lparr>t_thread_group_next := m\<rparr>)) None xs m"
    using linked_relink_last [of h None zs p "Some x" P m] assms snoc P by simp
  then show thesis using that [of "h(p \<mapsto> P\<lparr>t_thread_group_next := m\<rparr>)"] snoc P by simp
qed

lemma leave_next:
  assumes "linked h (Some x) ys None" "distinct ys"
  obtains h' where "(case first_or ys None of None \<Rightarrow> Done h
        | Some n \<Rightarrow> modify h n (\<lambda>N. N\<lparr>t_thread_group_prev := q\<rparr>)) = Done h'"
    "linked h' q ys None" "\<And>z. z \<notin> set ys \<Longrightarrow> h' z = h z"
proof (cases ys)
  case Nil
  then show thesis using that [of h] by simp
next
  case (Cons n zs)
  then obtain N where N: "h n = Some N" using linked_member [OF assms(1), of n] by auto
  have "linked (h(n \<mapsto> N\<lparr>t_thread_group_prev := q\<rparr>)) q ys None"
    using linked_relink_first [of h "Some x" n zs None N q] assms Cons N by simp
  then show thesis using that [of "h(n \<mapsto> N\<lparr>t_thread_group_prev := q\<rparr>)"] Cons N by simp
qed

lemma linked_frame:
  "linked h p xs n \<Longrightarrow> (\<And>x. x \<in> set xs \<Longrightarrow> h' x = h x) \<Longrightarrow> linked h' p xs n"
  using linked_cong [of xs h h' p n] by (simp add: same_links_def)

lemma LeaveThreadGroup_correct:
  assumes "thread_group h (xs @ x # ys)"
  shows "\<exists>h'. LeaveThreadGroup h x = Done h' \<and> thread_group h' (xs @ ys) \<and> thread_group h' [x]"
proof -
  obtain X where d: "distinct (xs @ x # ys)" and l: "linked h None xs (Some x)" "linked h (Some x) ys None"
    and X: "h x = Some X" "t_thread_group_prev X = last_or xs None" "t_thread_group_next X = first_or ys None"
    using assms by (auto simp: thread_group_split)
  have d': "distinct xs" "x \<notin> set xs" "distinct ys" using d by simp_all
  obtain h1 where h1: "(case last_or xs None of None \<Rightarrow> Done h
        | Some p \<Rightarrow> modify h p (\<lambda>P. P\<lparr>t_thread_group_next := first_or ys None\<rparr>)) = Done h1"
    "linked h1 None xs (first_or ys None)" "\<And>z. z \<notin> set xs \<Longrightarrow> h1 z = h z"
    using leave_prev [OF l(1) d'(1,2), of "first_or ys None"] by blast
  have x1: "h1 x = Some X" using h1(3) d X by simp
  have "linked h1 (Some x) ys None" using l(2) by (rule linked_frame) (use h1(3) d in auto)
  then obtain h2 where h2: "(case first_or ys None of None \<Rightarrow> Done h1
        | Some n \<Rightarrow> modify h1 n (\<lambda>N. N\<lparr>t_thread_group_prev := last_or xs None\<rparr>)) = Done h2"
    "linked h2 (last_or xs None) ys None" "\<And>z. z \<notin> set ys \<Longrightarrow> h2 z = h1 z"
    using leave_next [OF _ d'(3), of h1 x "last_or xs None"] by blast
  have x2: "h2 x = Some X" using h2(3) d x1 by simp
  have "linked h2 None xs (first_or ys None)" using h1(2) by (rule linked_frame) (use h2(3) d in auto)
  then have g: "linked h2 None (xs @ ys) None" using h2(2) by (simp add: linked_append)
  let ?h = "h2(x \<mapsto> X\<lparr>t_thread_group_next := None, t_thread_group_prev := None\<rparr>)"
  have "LeaveThreadGroup h x = Done ?h" 
    using X h1(1) x1 h2(1) x2 by (simp add: LeaveThreadGroup_def cong: option.case_cong)
  moreover have "thread_group ?h (xs @ ys)" using g d by (simp add: thread_group_def linked_upd_other)
  moreover have "thread_group ?h [x]" by (simp add: thread_group_def)
  ultimately show ?thesis by blast
qed

lemma count_forward:
  "linked h p xs None \<Longrightarrow>
   count_links t_thread_group_next h (first_or xs None) n = Some (Done (n + of_nat (length xs)))"
proof (induction xs arbitrary: p n)
  case Nil
  then show ?case by (simp add: count_links.simps)
next
  case (Cons x xs)
  then obtain X where "h x = Some X" "t_thread_group_next X = first_or xs None" "linked h (Some x) xs None"
    by (auto split: option.splits)
  with Cons.IH show ?case by (simp add: count_links.simps [of _ _ "Some x"] add.assoc)
qed

lemma count_backward:
  "linked h None xs m \<Longrightarrow>
   count_links t_thread_group_prev h (last_or xs None) n = Some (Done (n + of_nat (length xs)))"
proof (induction xs arbitrary: m n rule: rev_induct)
  case Nil
  then show ?case by (simp add: count_links.simps)
next
  case (snoc x xs)
  then obtain X where "h x = Some X" "t_thread_group_prev X = last_or xs None" "linked h None xs (Some x)"
    by (auto simp: linked_append split: option.splits)
  with snoc.IH show ?case by (simp add: count_links.simps [of _ _ "Some x"] add.assoc)
qed

lemma GetThreadGroupSize_correct:
  assumes "thread_group h (xs @ x # ys)" "h x = Some X" "t_tgid X \<noteq> 0"
  shows "GetThreadGroupSize h x = Done (of_nat (length (xs @ x # ys)))"
  using assms count_backward [of h xs "Some x" 1] count_forward [of h "Some x" ys]
  by (simp add: GetThreadGroupSize_def run_loop_def thread_group_split ac_simps)

text \<open>
  Thread groups are kept as well formed lists. A block that joins after a member \<open>l\<close>
  stands right behind it in the group's list and has the member's group id,
  \<open>GetThreadGroupSize\<close> then returns the number of members (its two loops end), and
  \<open>LeaveThreadGroup\<close> restores the group and isolates the block.
\<close>

theorem thread_group_join_leave:
  assumes "thread_group h (xs @ l # ys)" "this \<notin> set (xs @ l # ys)" "h this = Some T"
    and "t_thread_group_next T = None" "h l = Some L" "t_tgid L \<noteq> 0"
  shows "\<exists>h1. JoinThreadGroup h this (Some l) = Done h1 \<and> thread_group h1 (xs @ l # this # ys) \<and>
           (\<exists>T'. h1 this = Some T' \<and> t_tgid T' = t_tgid L) \<and>
           GetThreadGroupSize h1 this = Done (of_nat (length (xs @ l # this # ys))) \<and>
           (\<exists>h2. LeaveThreadGroup h1 this = Done h2 \<and> thread_group h2 (xs @ l # ys) \<and> thread_group h2 [this])"
proof -
  obtain h1 T' where j: "JoinThreadGroup h this (Some l) = Done h1" "thread_group h1 (xs @ l # this # ys)"
      "h1 this = Some T'" "t_tgid T' = t_tgid L"
    using JoinThreadGroup_correct [OF assms(1-5)] by blast
  have g: "thread_group h1 ((xs @ [l]) @ this # ys)" using j(2) by simp
  have "GetThreadGroupSize h1 this = Done (of_nat (length ((xs @ [l]) @ this # ys)))"
    by (rule GetThreadGroupSize_correct [OF g j(3)]) (simp add: j(4) assms(6))
  moreover have "\<exists>h2. LeaveThreadGroup h1 this = Done h2 \<and> thread_group h2 (xs @ l # ys) \<and> thread_group h2 [this]"
    using LeaveThreadGroup_correct [OF g] by simp
  ultimately show ?thesis using j by simp
qed

theorem thread_group_join_leave_witness:
  "\<exists>h1. JoinThreadGroup [7 \<mapsto> default_TaskControlBlock\<lparr>t_tgid := 3\<rparr>, 9 \<mapsto> default_TaskControlBlock] 9 (Some 7) = Done h1 \<and>
     thread_group h1 ([] @ 7 # 9 # []) \<and>
     (\<exists>T'. h1 9 = Some T' \<and> t_tgid T' = t_tgid (default_TaskControlBlock\<lparr>t_tgid := 3\<rparr>)) \<and>
     GetThreadGroupSize h1 9 = Done (of_nat (length ([] @ 7 # 9 # ([] :: tptr list)))) \<and>
     (\<exists>h2. LeaveThreadGroup h1 9 = Done h2 \<and> thread_group h2 ([] @ 7 # []) \<and> thread_group h2 [9])"
  by (rule thread_group_join_leave [where T = default_TaskControlBlock])
    (simp_all add: thread_group_def default_TaskControlBlock_def)

end
