(* ===== verification/Nk_Priority_Queue.thy ===== *)
theory Nk_Priority_Queue
  imports NK_Prelude
begin

text \<open>
  \<open>nk_std::priority_queue\<close> (\<open>src/src/libcxx/include/nk_priority_queue\<close>): a vector kept
  in heap order by \<open>std::push_heap\<close> and \<open>std::pop_heap\<close>, which are modelled after the
  algorithms of the compiler's standard library (a hole that moves up, and a hole that
  moves down to a leaf and then up). The comparator is an argument; the kernel's two
  comparators order by a key, smallest on top, which is the case the locale
  \<open>min_queue\<close> treats.
\<close>

definition parent :: "nat \<Rightarrow> nat" where
  "parent i = (i - 1) div 2"

text \<open>\<open>std::__push_heap\<close>: the hole moves up while the value belongs above its parent.\<close>

function sift_up :: "('a \<Rightarrow> 'a \<Rightarrow> bool) \<Rightarrow> 'a list \<Rightarrow> nat \<Rightarrow> 'a \<Rightarrow> 'a list" where
  "sift_up cmp xs hole v =
     (if 0 < hole \<and> cmp (xs ! parent hole) v
      then sift_up cmp (xs[hole := xs ! parent hole]) (parent hole) v
      else xs[hole := v])"
  by pat_completeness auto
termination
  by (relation "measure (\<lambda>(cmp, xs, hole, v). hole)") (auto simp: parent_def)

text \<open>
  \<open>std::__adjust_heap\<close>: the hole moves down to the child that belongs above the other
  one, and to an only child at the end; then the value is sifted up from there.
\<close>

definition pick_child :: "('a \<Rightarrow> 'a \<Rightarrow> bool) \<Rightarrow> 'a list \<Rightarrow> nat \<Rightarrow> nat" where
  "pick_child cmp xs hole =
     (let r = 2 * hole + 2 in if cmp (xs ! r) (xs ! (r - 1)) then r - 1 else r)"

lemma pick_child_cases: "pick_child cmp xs hole = 2 * hole + 1 \<or> pick_child cmp xs hole = 2 * hole + 2"
  by (simp add: pick_child_def Let_def)

function sift_down :: "('a \<Rightarrow> 'a \<Rightarrow> bool) \<Rightarrow> 'a list \<Rightarrow> nat \<Rightarrow> nat \<Rightarrow> 'a list \<times> nat" where
  "sift_down cmp xs len hole =
     (if 2 * hole + 2 < len then
        sift_down cmp (xs[hole := xs ! pick_child cmp xs hole]) len (pick_child cmp xs hole)
      else if 2 * hole + 2 = len then (xs[hole := xs ! (2 * hole + 1)], 2 * hole + 1)
      else (xs, hole))"
  by pat_completeness auto
termination
proof (relation "measure (\<lambda>(cmp, xs, len, hole). len - hole)")
  fix cmp :: "'a \<Rightarrow> 'a \<Rightarrow> bool" and xs :: "'a list" and len hole :: nat
  assume "2 * hole + 2 < len"
  with pick_child_cases [of cmp xs hole]
  show "((cmp, xs[hole := xs ! pick_child cmp xs hole], len, pick_child cmp xs hole), cmp, xs, len, hole)
    \<in> measure (\<lambda>(cmp, xs, len, hole). len - hole)" by auto
qed simp

declare sift_up.simps [simp del] sift_down.simps [simp del]

definition adjust_heap :: "('a \<Rightarrow> 'a \<Rightarrow> bool) \<Rightarrow> 'a list \<Rightarrow> nat \<Rightarrow> 'a \<Rightarrow> 'a list" where
  "adjust_heap cmp xs len v = (let (ys, hole) = sift_down cmp xs len 0 in sift_up cmp ys hole v)"

text \<open>The operations of \<open>priority_queue\<close>.\<close>

definition pq_empty :: "'a list \<Rightarrow> bool" where
  "pq_empty c \<longleftrightarrow> length c = 0"

definition pq_size :: "'a list \<Rightarrow> nat" where
  "pq_size c = length c"

definition pq_top :: "'a list \<Rightarrow> 'a" where
  "pq_top c = c ! 0"

definition pq_push :: "('a \<Rightarrow> 'a \<Rightarrow> bool) \<Rightarrow> 'a list \<Rightarrow> 'a \<Rightarrow> 'a list" where
  "pq_push cmp c v = (let c' = c @ [v] in sift_up cmp c' (length c' - 1) v)"

definition pq_pop :: "('a \<Rightarrow> 'a \<Rightarrow> bool) \<Rightarrow> 'a list \<Rightarrow> 'a list" where
  "pq_pop cmp c =
     (if length c > 1 then
        (let n = length c - 1; v = c ! n; c' = c[n := c ! 0]
         in butlast (adjust_heap cmp c' n v))
      else if length c > 0 then butlast c else c)"

subsection \<open>The elements\<close>

lemma parent_less: "0 < i \<Longrightarrow> parent i < i"
  by (simp add: parent_def)

lemma sift_up_stop: "\<not> (0 < hole \<and> cmp (xs ! parent hole) v) \<Longrightarrow> sift_up cmp xs hole v = xs[hole := v]"
  by (subst sift_up.simps) auto

lemma sift_up_move:
  "0 < hole \<Longrightarrow> cmp (xs ! parent hole) v \<Longrightarrow>
   sift_up cmp xs hole v = sift_up cmp (xs[hole := xs ! parent hole]) (parent hole) v"
  by (subst sift_up.simps) simp

lemma sift_down_two:
  "2 * hole + 2 < len \<Longrightarrow> sift_down cmp xs len hole =
     sift_down cmp (xs[hole := xs ! pick_child cmp xs hole]) len (pick_child cmp xs hole)"
  by (subst sift_down.simps) simp

lemma sift_down_one:
  "2 * hole + 2 = len \<Longrightarrow>
   sift_down cmp xs len hole = (xs[hole := xs ! (2 * hole + 1)], 2 * hole + 1)"
  by (subst sift_down.simps) simp

lemma sift_down_leaf: "len < 2 * hole + 2 \<Longrightarrow> sift_down cmp xs len hole = (xs, hole)"
  by (subst sift_down.simps) simp

text \<open>Induction over the moves of the two holes.\<close>

lemma sift_up_ind [case_names stop move]:
  assumes "\<And>xs hole. \<not> (0 < hole \<and> cmp (xs ! parent hole) v) \<Longrightarrow> P xs hole"
    and "\<And>xs hole. 0 < hole \<Longrightarrow> cmp (xs ! parent hole) v \<Longrightarrow>
           P (xs[hole := xs ! parent hole]) (parent hole) \<Longrightarrow> P xs hole"
  shows "P xs hole"
proof (induction hole arbitrary: xs rule: less_induct)
  case (less hole)
  show ?case
  proof (cases "0 < hole \<and> cmp (xs ! parent hole) v")
    case True
    then show ?thesis using less [OF parent_less] by - (rule assms(2), simp_all)
  next
    case False
    then show ?thesis by (rule assms(1))
  qed
qed

lemma sift_down_ind [case_names two one leaf]:
  fixes len :: nat
  assumes "\<And>xs hole. 2 * hole + 2 < len \<Longrightarrow>
      P (xs[hole := xs ! pick_child cmp xs hole]) (pick_child cmp xs hole) \<Longrightarrow> P xs hole"
    and "\<And>xs hole. 2 * hole + 2 = len \<Longrightarrow> P xs hole"
    and "\<And>xs hole. len < 2 * hole + 2 \<Longrightarrow> P xs hole"
  shows "P xs hole"
proof (induction "len - hole" arbitrary: xs hole rule: less_induct)
  case less
  consider (two) "2 * hole + 2 < len" | (one) "2 * hole + 2 = len" | (leaf) "len < 2 * hole + 2"
    by linarith
  then show ?case
  proof cases
    case two
    with pick_child_cases [of cmp xs hole] have "len - pick_child cmp xs hole < len - hole" by auto
    from less [OF this] show ?thesis by (rule assms(1) [OF two])
  next
    case one
    then show ?thesis by (rule assms(2))
  next
    case leaf
    then show ?thesis by (rule assms(3))
  qed
qed

lemma length_sift_up [simp]: "length (sift_up cmp xs hole v) = length xs"
proof (induction xs hole rule: sift_up_ind [where cmp = cmp and v = v])
  case (stop xs hole)
  then show ?case by (simp add: sift_up_stop)
next
  case (move xs hole)
  then show ?case by (simp add: sift_up_move)
qed

lemma length_sift_down [simp]: "length (fst (sift_down cmp xs len hole)) = length xs"
proof (induction xs hole rule: sift_down_ind [where cmp = cmp and len = len])
  case (two xs hole)
  then show ?case by (simp only: sift_down_two length_list_update)
qed (simp_all add: sift_down_one sift_down_leaf)

lemma mset_hole_move:
  assumes "h < length xs" "p < length xs" "h \<noteq> p"
  shows "mset (xs[h := xs ! p, p := v]) = mset (xs[h := v])"
proof -
  have "xs[h := xs ! p, p := v] = (xs[h := v])[h := xs[h := v] ! p, p := xs[h := v] ! h]"
    using assms by (auto intro!: nth_equalityI simp: nth_list_update)
  then show ?thesis using assms by (simp only: mset_swap_upd length_list_update)
qed

lemma mset_sift_up:
  "hole < length xs \<Longrightarrow> mset (sift_up cmp xs hole v) = mset (xs[hole := v])"
proof (induction xs hole rule: sift_up_ind [where cmp = cmp and v = v])
  case (stop xs hole)
  then show ?case by (simp add: sift_up_stop)
next
  case (move xs hole)
  then have p: "parent hole < hole" by (simp add: parent_less)
  with move have "mset (sift_up cmp xs hole v) = mset (xs[hole := xs ! parent hole, parent hole := v])"
    by (simp add: sift_up_move)
  also have "\<dots> = mset (xs[hole := v])"
    using p move by (intro mset_hole_move) auto
  finally show ?case .
qed

lemma sift_down_bound: "hole < len \<Longrightarrow> snd (sift_down cmp xs len hole) < len"
proof (induction xs hole rule: sift_down_ind [where cmp = cmp and len = len])
  case (two xs hole)
  with pick_child_cases [of cmp xs hole] show ?case by (auto simp: sift_down_two)
qed (simp_all add: sift_down_one sift_down_leaf)

lemma mset_sift_down:
  "hole < len \<Longrightarrow> len \<le> length xs \<Longrightarrow> sift_down cmp xs len hole = (ys, h) \<Longrightarrow>
   mset (ys[h := v]) = mset (xs[hole := v])"
proof (induction xs hole rule: sift_down_ind [where cmp = cmp and len = len])
  case (two xs hole)
  let ?c = "pick_child cmp xs hole"
  have c: "hole < ?c" "?c < len" using two(1) pick_child_cases [of cmp xs hole] by auto
  with two have "mset (ys[h := v]) = mset (xs[hole := xs ! ?c, ?c := v])"
    by (simp add: sift_down_two)
  also have "\<dots> = mset (xs[hole := v])"
    using c two by (intro mset_hole_move) auto
  finally show ?case .
next
  case (one xs hole)
  then have "ys = xs[hole := xs ! (2 * hole + 1)]" "h = 2 * hole + 1"
    by (auto simp: sift_down_one)
  with one show ?case by (simp add: mset_hole_move)
next
  case (leaf xs hole)
  then show ?case by (simp add: sift_down_leaf)
qed

lemma mset_pq_push: "mset (pq_push cmp c v) = add_mset v (mset c)"
  by (simp add: pq_push_def mset_sift_up)

subsection \<open>The heap order\<close>

text \<open>
  The first \<open>len\<close> elements are in heap order of a key; the same except at a hole, whose
  children already belong below its parent; the same for a hole that may take \<open>v\<close> as
  far as its children are concerned.
\<close>

definition heap_upto :: "('a \<Rightarrow> 'k::linorder) \<Rightarrow> 'a list \<Rightarrow> nat \<Rightarrow> bool" where
  "heap_upto key xs len \<longleftrightarrow> (\<forall>i<len. 0 < i \<longrightarrow> key (xs ! parent i) \<le> key (xs ! i))"

definition heap_hole :: "('a \<Rightarrow> 'k::linorder) \<Rightarrow> 'a list \<Rightarrow> nat \<Rightarrow> nat \<Rightarrow> bool" where
  "heap_hole key xs len hole \<longleftrightarrow>
     (\<forall>i<len. 0 < i \<longrightarrow> i \<noteq> hole \<longrightarrow> parent i \<noteq> hole \<longrightarrow> key (xs ! parent i) \<le> key (xs ! i)) \<and>
     (\<forall>i<len. 0 < i \<longrightarrow> parent i = hole \<longrightarrow> 0 < hole \<longrightarrow> key (xs ! parent hole) \<le> key (xs ! i))"

definition below_hole :: "('a \<Rightarrow> 'k::linorder) \<Rightarrow> 'a list \<Rightarrow> nat \<Rightarrow> nat \<Rightarrow> 'a \<Rightarrow> bool" where
  "below_hole key xs len hole v \<longleftrightarrow>
     (\<forall>i<len. 0 < i \<longrightarrow> parent i = hole \<longrightarrow> key v \<le> key (xs ! i))"

definition is_heap :: "('a \<Rightarrow> 'k::linorder) \<Rightarrow> 'a list \<Rightarrow> bool" where
  "is_heap key xs \<longleftrightarrow> heap_upto key xs (length xs)"

abbreviation key_cmp :: "('a \<Rightarrow> 'k::linorder) \<Rightarrow> 'a \<Rightarrow> 'a \<Rightarrow> bool" where
  "key_cmp key \<equiv> \<lambda>a b. key b < key a"

lemma parent_neq: "0 < i \<Longrightarrow> parent i \<noteq> i"
  using parent_less [of i] by simp

lemma parent_child: "parent (2 * h + 1) = h" "parent (2 * h + 2) = h"
  by (simp_all add: parent_def)

lemma parent_eq_iff: "0 < i \<Longrightarrow> parent i = h \<longleftrightarrow> i = 2 * h + 1 \<or> i = 2 * h + 2"
  by (auto simp: parent_def)

lemma heap_hole_up:
  assumes "heap_hole key xs len hole" "hole < len" "len \<le> length xs" "0 < hole"
  shows "heap_hole key (xs[hole := xs ! parent hole]) len (parent hole)"
proof -
  let ?p = "parent hole"
  have p: "?p < hole" using assms(4) by (rule parent_less)
  have D1: "\<And>i. i < len \<Longrightarrow> 0 < i \<Longrightarrow> i \<noteq> hole \<Longrightarrow> parent i \<noteq> hole \<Longrightarrow> key (xs ! parent i) \<le> key (xs ! i)"
    and D2: "\<And>i. i < len \<Longrightarrow> 0 < i \<Longrightarrow> parent i = hole \<Longrightarrow> key (xs ! ?p) \<le> key (xs ! i)"
    using assms(1,4) by (auto simp: heap_hole_def)
  have up: "key (xs ! parent ?p) \<le> key (xs ! ?p)" if "0 < ?p"
    using D1 [of ?p] p assms(2) that parent_less [OF that] by simp
  show ?thesis
    unfolding heap_hole_def
  proof (intro conjI allI impI)
    fix i assume i: "i < len" "0 < i" "i \<noteq> ?p" "parent i \<noteq> ?p"
    then have "i \<noteq> hole" by auto
    then show "key (xs[hole := xs ! ?p] ! parent i) \<le> key (xs[hole := xs ! ?p] ! i)"
      using i D1 [of i] D2 [of i] assms(2,3) by (cases "parent i = hole") auto
  next
    fix i assume i: "i < len" "0 < i" "parent i = ?p" "0 < ?p"
    have n: "parent ?p \<noteq> hole" using parent_less [OF i(4)] p by simp
    show "key (xs[hole := xs ! ?p] ! parent ?p) \<le> key (xs[hole := xs ! ?p] ! i)"
    proof (cases "i = hole")
      case True
      with up [OF i(4)] n assms(2,3) show ?thesis by simp
    next
      case False
      with i p D1 [of i] have "key (xs ! ?p) \<le> key (xs ! i)" by simp
      with up [OF i(4)] n False show ?thesis by simp
    qed
  qed
qed

lemma below_hole_up:
  assumes "heap_hole key xs len hole" "hole < len" "len \<le> length xs" "0 < hole"
    and "key v < key (xs ! parent hole)"
  shows "below_hole key (xs[hole := xs ! parent hole]) len (parent hole) v"
  unfolding below_hole_def
proof (intro allI impI)
  fix i assume i: "i < len" "0 < i" "parent i = parent hole"
  show "key v \<le> key (xs[hole := xs ! parent hole] ! i)"
  proof (cases "i = hole")
    case True
    with assms(2,3,5) show ?thesis by simp
  next
    case False
    with i assms(1) parent_neq [OF assms(4)] have "key (xs ! parent hole) \<le> key (xs ! i)"
      by (auto simp: heap_hole_def)
    with False assms(5) show ?thesis by simp
  qed
qed

lemma heap_hole_fill:
  assumes "heap_hole key xs len hole" "below_hole key xs len hole v" "hole < len" "len \<le> length xs"
    and "\<not> (0 < hole \<and> key v < key (xs ! parent hole))"
  shows "heap_upto key (xs[hole := v]) len"
  unfolding heap_upto_def
proof (intro allI impI)
  fix i assume i: "i < len" "0 < i"
  consider "i = hole" | "i \<noteq> hole" "parent i = hole" | "i \<noteq> hole" "parent i \<noteq> hole" by blast
  then show "key (xs[hole := v] ! parent i) \<le> key (xs[hole := v] ! i)"
  proof cases
    case 1
    with i assms(3,4,5) parent_neq [OF i(2)] show ?thesis by (simp add: not_less)
  next
    case 2
    with i assms(2,3,4) show ?thesis by (simp add: below_hole_def)
  next
    case 3
    with i assms(1) show ?thesis by (simp add: heap_hole_def)
  qed
qed

lemma heap_sift_up:
  "heap_hole key xs len hole \<Longrightarrow> below_hole key xs len hole v \<Longrightarrow> hole < len \<Longrightarrow> len \<le> length xs \<Longrightarrow>
   heap_upto key (sift_up (key_cmp key) xs hole v) len"
proof (induction xs hole rule: sift_up_ind [where cmp = "key_cmp key" and v = v])
  case (stop xs hole)
  then have "heap_upto key (xs[hole := v]) len" by (intro heap_hole_fill) simp_all
  with stop show ?case by (simp add: sift_up_stop)
next
  case (move xs hole)
  then have "parent hole < len" using parent_less [OF move(1)] by simp
  with move have "heap_upto key (sift_up (key_cmp key) (xs[hole := xs ! parent hole]) (parent hole) v) len"
    by (simp add: heap_hole_up below_hole_up)
  with move show ?case by (simp add: sift_up_move)
qed

lemma heap_hole_down:
  assumes "heap_hole key xs len hole" "c < len" "len \<le> length xs" "0 < c" "parent c = hole"
    and "\<And>i. i < len \<Longrightarrow> 0 < i \<Longrightarrow> parent i = hole \<Longrightarrow> key (xs ! c) \<le> key (xs ! i)"
  shows "heap_hole key (xs[hole := xs ! c]) len c"
proof -
  have hc: "hole < c" using parent_less [OF assms(4)] assms(5) by simp
  have D1: "\<And>i. i < len \<Longrightarrow> 0 < i \<Longrightarrow> i \<noteq> hole \<Longrightarrow> parent i \<noteq> hole \<Longrightarrow> key (xs ! parent i) \<le> key (xs ! i)"
    and D2: "\<And>i. i < len \<Longrightarrow> 0 < i \<Longrightarrow> parent i = hole \<Longrightarrow> 0 < hole \<Longrightarrow> key (xs ! parent hole) \<le> key (xs ! i)"
    using assms(1) by (auto simp: heap_hole_def)
  show ?thesis
    unfolding heap_hole_def
  proof (intro conjI allI impI)
    fix i assume i: "i < len" "0 < i" "i \<noteq> c" "parent i \<noteq> c"
    consider "i = hole" | "i \<noteq> hole" "parent i = hole" | "i \<noteq> hole" "parent i \<noteq> hole" by blast
    then show "key (xs[hole := xs ! c] ! parent i) \<le> key (xs[hole := xs ! c] ! i)"
    proof cases
      case 1
      with i D2 [of c] assms hc parent_neq [OF i(2)] show ?thesis by simp
    next
      case 2
      with i assms(3,6) hc assms(2) show ?thesis by simp
    next
      case 3
      with i D1 show ?thesis by simp
    qed
  next
    fix i assume i: "i < len" "0 < i" "parent i = c" "0 < c"
    then have "i \<noteq> hole" using hc parent_less [OF i(2)] by auto
    with i D1 [of i] hc assms(2,3,5) show "key (xs[hole := xs ! c] ! parent c) \<le> key (xs[hole := xs ! c] ! i)"
      by simp
  qed
qed

lemma pick_child_min:
  assumes "2 * hole + 2 < len" "i < len" "0 < i" "parent i = hole"
  shows "key (xs ! pick_child (key_cmp key) xs hole) \<le> key (xs ! i)"
  using assms by (auto simp: pick_child_def Let_def parent_eq_iff)

lemma heap_sift_down:
  "heap_hole key xs len hole \<Longrightarrow> hole < len \<Longrightarrow> len \<le> length xs \<Longrightarrow>
   sift_down (key_cmp key) xs len hole = (ys, h) \<Longrightarrow>
   heap_hole key ys len h \<and> below_hole key ys len h v"
proof (induction xs hole rule: sift_down_ind [where cmp = "key_cmp key" and len = len])
  case (two xs hole)
  let ?c = "pick_child (key_cmp key) xs hole"
  have c: "0 < ?c" "?c < len" "parent ?c = hole"
    using two(1) pick_child_cases [of "key_cmp key" xs hole] by (auto simp: parent_def)
  have "heap_hole key (xs[hole := xs ! ?c]) len ?c"
    using two c by (intro heap_hole_down) (simp_all add: pick_child_min)
  with two c show ?case by (simp add: sift_down_two)
next
  case (one xs hole)
  then have e: "ys = xs[hole := xs ! (2 * hole + 1)]" "h = 2 * hole + 1"
    by (auto simp: sift_down_one)
  have "heap_hole key ys len h"
    unfolding e using one parent_child [of hole]
    by (intro heap_hole_down) (auto simp: parent_eq_iff)
  moreover have "below_hole key ys len h v"
    unfolding e using one by (auto simp: below_hole_def parent_eq_iff)
  ultimately show ?case ..
next
  case (leaf xs hole)
  then have "below_hole key xs len hole v" by (auto simp: below_hole_def parent_eq_iff)
  with leaf show ?case by (simp add: sift_down_leaf)
qed

subsection \<open>The operations keep the heap order\<close>

lemma is_heap_Nil [simp]: "is_heap key []"
  by (simp add: is_heap_def heap_upto_def)

lemma is_heap_push:
  assumes "is_heap key c"
  shows "is_heap key (pq_push (key_cmp key) c v)"
proof -
  let ?c = "c @ [v]"
  have p: "parent i < length c" if "i < Suc (length c)" "0 < i" for i
    using parent_less [OF that(2)] that(1) by simp
  have "heap_hole key ?c (length ?c) (length c)"
    using assms p less_imp_neq [OF p] unfolding heap_hole_def is_heap_def heap_upto_def
    by (intro conjI allI impI) (simp_all add: nth_append less_Suc_eq parent_less)
  moreover have "below_hole key ?c (length ?c) (length c) v"
    using p by (fastforce simp: below_hole_def)
  ultimately have "heap_upto key (sift_up (key_cmp key) ?c (length c) v) (length ?c)"
    by (intro heap_sift_up) simp_all
  then show ?thesis by (simp add: pq_push_def is_heap_def)
qed

lemma adjust_heap_correct:
  assumes "heap_hole key xs len 0" "0 < len" "len \<le> length xs"
  shows "heap_upto key (adjust_heap (key_cmp key) xs len v) len"
    and "mset (adjust_heap (key_cmp key) xs len v) = mset (xs[0 := v])"
    and "length (adjust_heap (key_cmp key) xs len v) = length xs"
proof -
  obtain ys h where sd: "sift_down (key_cmp key) xs len 0 = (ys, h)" by fastforce
  have h: "h < len" using sift_down_bound [OF assms(2), of "key_cmp key" xs] sd by simp
  have l: "length ys = length xs" using length_sift_down [of "key_cmp key" xs len 0] sd by simp
  have "heap_hole key ys len h \<and> below_hole key ys len h v"
    using heap_sift_down [OF assms sd] .
  then show "heap_upto key (adjust_heap (key_cmp key) xs len v) len"
    using h l assms(3) by (simp add: adjust_heap_def sd heap_sift_up)
  show "mset (adjust_heap (key_cmp key) xs len v) = mset (xs[0 := v])"
    using h l assms mset_sift_down [OF assms(2,3) sd, of v]
    by (simp add: adjust_heap_def sd mset_sift_up)
  show "length (adjust_heap (key_cmp key) xs len v) = length xs"
    by (simp add: adjust_heap_def sd l)
qed

lemma nth_sift_up_above: "hole < k \<Longrightarrow> sift_up cmp xs hole v ! k = xs ! k"
proof (induction xs hole rule: sift_up_ind [where cmp = cmp and v = v])
  case (stop xs hole)
  then show ?case by (simp add: sift_up_stop)
next
  case (move xs hole)
  with parent_less [OF move(1)] show ?case by (simp add: sift_up_move)
qed

lemma nth_sift_down_above: "hole < len \<Longrightarrow> len \<le> k \<Longrightarrow> fst (sift_down cmp xs len hole) ! k = xs ! k"
proof (induction xs hole rule: sift_down_ind [where cmp = cmp and len = len])
  case (two xs hole)
  with pick_child_cases [of cmp xs hole] show ?case by (auto simp: sift_down_two)
qed (simp_all add: sift_down_one sift_down_leaf)

lemma nth_adjust_heap_above:
  assumes "0 < len" "len \<le> k"
  shows "adjust_heap cmp xs len v ! k = xs ! k"
proof -
  obtain ys h where sd: "sift_down cmp xs len 0 = (ys, h)" by fastforce
  have "h < len" using sift_down_bound [OF assms(1), of cmp xs] sd by simp
  with assms nth_sift_down_above [OF assms, of cmp xs] sd show ?thesis
    by (simp add: adjust_heap_def nth_sift_up_above)
qed

lemma pq_pop_last:
  assumes "length c \<le> 1"
  shows "pq_pop cmp c = []"
  using assms by (cases c) (auto simp: pq_pop_def)

lemma pq_pop_correct:
  assumes "is_heap key c" "c \<noteq> []"
  shows "is_heap key (pq_pop (key_cmp key) c)"
    and "mset (pq_pop (key_cmp key) c) = mset c - {# pq_top c #}"
proof -
  have "is_heap key (pq_pop (key_cmp key) c) \<and>
        mset (pq_pop (key_cmp key) c) = mset c - {# pq_top c #}"
  proof (cases "length c > 1")
    case False
    with assms(2) obtain x where "c = [x]" by (cases c) auto
    then show ?thesis by (simp add: pq_pop_last pq_top_def)
  next
    case True
    define n where "n = length c - 1"
    define ys where "ys = adjust_heap (key_cmp key) (c[n := c ! 0]) n (c ! n)"
    have n: "0 < n" "n < length c" "length c = Suc n" using True by (auto simp: n_def)
    have p: "parent i < n" if "i < n" "0 < i" for i using parent_less [OF that(2)] that(1) by simp
    have hh: "heap_hole key (c[n := c ! 0]) n 0"
      using assms(1) n less_imp_neq [OF p, symmetric]
      by (auto simp: heap_hole_def is_heap_def heap_upto_def)
    note adj = adjust_heap_correct [OF hh n(1), where v = "c ! n", folded ys_def]
    have pop: "pq_pop (key_cmp key) c = butlast ys"
      using True by (simp add: pq_pop_def n_def ys_def Let_def)
    have l: "length ys = Suc n" using adj(3) n by simp
    then have "ys \<noteq> []" by auto
    have "ys ! n = c ! 0"
      using n nth_adjust_heap_above [of n n "key_cmp key" "c[n := c ! 0]" "c ! n"]
      by (simp add: ys_def)
    then have "last ys = c ! 0" using l by (simp add: last_conv_nth [OF \<open>ys \<noteq> []\<close>])
    then have "ys = butlast ys @ [c ! 0]" using \<open>ys \<noteq> []\<close> append_butlast_last_id by metis
    moreover have "mset ys = mset c"
      using adj(2) n mset_swap_upd [of n c 0] by simp
    ultimately have "mset c = mset (butlast ys) + {# c ! 0 #}" by (metis mset_append mset_single_iff)
    then have m: "mset (butlast ys) = mset c - {# c ! 0 #}" by simp
    have "heap_upto key ys n" using adj(1) n by simp
    then have "is_heap key (butlast ys)"
      using l p by (auto simp: is_heap_def heap_upto_def nth_butlast)
    with m show ?thesis by (simp add: pop pq_top_def)
  qed
  then show "is_heap key (pq_pop (key_cmp key) c)"
    and "mset (pq_pop (key_cmp key) c) = mset c - {# pq_top c #}" by simp_all
qed

lemma is_heap_top_min:
  assumes "is_heap key c" "i < length c"
  shows "key (pq_top c) \<le> key (c ! i)"
  using assms(2)
proof (induction i rule: less_induct)
  case (less i)
  show ?case
  proof (cases "i = 0")
    case True
    then show ?thesis by (simp add: pq_top_def)
  next
    case False
    then have "parent i < i" by (simp add: parent_less)
    with less have "key (pq_top c) \<le> key (c ! parent i)" by simp
    also have "\<dots> \<le> key (c ! i)" using assms(1) less(2) False by (simp add: is_heap_def heap_upto_def)
    finally show ?thesis .
  qed
qed

text \<open>The heap order only looks at the keys of the elements.\<close>

lemma is_heap_cong:
  assumes "\<And>x. x \<in> set c \<Longrightarrow> key x = key' x"
  shows "is_heap key c = is_heap key' c"
proof -
  have "key (c ! i) = key' (c ! i)" if "i < length c" for i using assms that by simp
  moreover have "parent i < length c" if "i < length c" for i
    using that by (simp add: parent_def)
  ultimately show ?thesis by (simp add: is_heap_def heap_upto_def)
qed

subsection \<open>The contract of a minimum-first queue\<close>

text \<open>
  What a client of the queue relies on. The timer tick and the fair scheduler use it with
  two different keys.
\<close>

locale min_queue =
  fixes key :: "'a \<Rightarrow> 'k::linorder"
    and push :: "'q \<Rightarrow> 'a \<Rightarrow> 'q"
    and pop :: "'q \<Rightarrow> 'q"
    and top :: "'q \<Rightarrow> 'a"
    and is_empty :: "'q \<Rightarrow> bool"
    and elems :: "'q \<Rightarrow> 'a multiset"
    and invar :: "'q \<Rightarrow> bool"
  assumes elems_push: "elems (push q x) = add_mset x (elems q)"
    and elems_pop: "invar q \<Longrightarrow> \<not> is_empty q \<Longrightarrow> elems (pop q) = elems q - {# top q #}"
    and is_empty_iff: "is_empty q \<longleftrightarrow> elems q = {#}"
    and top_elem: "\<not> is_empty q \<Longrightarrow> top q \<in># elems q"
    and top_min: "invar q \<Longrightarrow> x \<in># elems q \<Longrightarrow> key (top q) \<le> key x"
    and invar_push: "invar q \<Longrightarrow> invar (push q x)"
    and invar_pop: "invar q \<Longrightarrow> \<not> is_empty q \<Longrightarrow> invar (pop q)"
begin

lemma elems_pop_add: "invar q \<Longrightarrow> \<not> is_empty q \<Longrightarrow> elems q = add_mset (top q) (elems (pop q))"
  by (simp add: elems_pop top_elem)

text \<open>When the top lies beyond a bound, so does every element.\<close>

lemma top_beyond: "invar q \<Longrightarrow> b < key (top q) \<Longrightarrow> x \<in># elems q \<Longrightarrow> b < key x"
  using top_min by fastforce

lemma size_pop: "invar q \<Longrightarrow> \<not> is_empty q \<Longrightarrow> size (elems (pop q)) < size (elems q)"
  by (metis elems_pop_add size_add_mset lessI)

end

interpretation keyed: min_queue key "pq_push (key_cmp key)" "pq_pop (key_cmp key)" pq_top pq_empty
    mset "is_heap key"
  for key :: "'a \<Rightarrow> 'k::linorder"
proof (unfold_locales, goal_cases)
  case (1 q x)
  show ?case by (rule mset_pq_push)
next
  case (2 q)
  then show ?case by (simp add: pq_pop_correct pq_empty_def)
next
  case (3 q)
  show ?case by (simp add: pq_empty_def)
next
  case (4 q)
  then show ?case by (simp add: pq_empty_def pq_top_def)
next
  case (5 q x)
  then show ?case using is_heap_top_min [OF 5(1)] by (auto simp: in_set_conv_nth)
next
  case (6 q x)
  then show ?case by (rule is_heap_push)
next
  case (7 q)
  then show ?case by (simp add: pq_pop_correct pq_empty_def)
qed

end
