(* ===== verification/Schedulers.thy ===== *)
theory Schedulers
  imports Task_Control_Block Nk_Priority_Queue
begin

text \<open>
  The schedulers (\<open>src/src/task/include/scheduler_base.hpp\<close> and the FIFO, round-robin,
  idle and fair schedulers). A scheduler object is a value of the datatype \<open>Scheduler\<close>, one
  constructor per class; a virtual call is a case distinction on it. Operations that write to
  the task take the store of control blocks and return it. Tasks are passed as non-null
  pointers, which is what every caller does, so the null checks of the source do not appear.
  \<open>nk_std::list\<close> queues are lists, front first.
\<close>

record Stats =
  st_total_enqueues :: size_t
  st_total_dequeues :: size_t
  st_total_picks :: size_t
  st_total_preemptions :: size_t

definition zero_Stats :: Stats where
  "zero_Stats = \<lparr>st_total_enqueues = 0, st_total_dequeues = 0, st_total_picks = 0, st_total_preemptions = 0\<rparr>"

definition count_enqueue :: "Stats \<Rightarrow> Stats" where
  "count_enqueue st = st\<lparr>st_total_enqueues := st_total_enqueues st + 1\<rparr>"

definition count_dequeue :: "Stats \<Rightarrow> Stats" where
  "count_dequeue st = st\<lparr>st_total_dequeues := st_total_dequeues st + 1\<rparr>"

definition count_pick :: "Stats \<Rightarrow> Stats" where
  "count_pick st = st\<lparr>st_total_picks := st_total_picks st + 1\<rparr>"

definition count_preemption :: "Stats \<Rightarrow> Stats" where
  "count_preemption st = st\<lparr>st_total_preemptions := st_total_preemptions st + 1\<rparr>"

datatype Scheduler =
    FifoScheduler Stats "tptr list"
  | RoundRobinScheduler Stats "tptr list"
  | IdleScheduler Stats "tptr option"
  | CfsScheduler Stats "tptr list" u64  \<comment> \<open>the heap's vector, \<open>min_vruntime_\<close>\<close>

definition new_FifoScheduler :: Scheduler where "new_FifoScheduler = FifoScheduler zero_Stats []"
definition new_RoundRobinScheduler :: Scheduler where "new_RoundRobinScheduler = RoundRobinScheduler zero_Stats []"
definition new_IdleScheduler :: Scheduler where "new_IdleScheduler = IdleScheduler zero_Stats None"
definition new_CfsScheduler :: Scheduler where "new_CfsScheduler = CfsScheduler zero_Stats [] 0"

definition kDefaultWeight :: u32 where "kDefaultWeight = 1024"
definition kMinGranularity :: u64 where "kMinGranularity = 10"

text \<open>The time slice starts anew.\<close>

definition refill_slice :: "TaskControlBlock \<Rightarrow> TaskControlBlock" where
  "refill_slice T = T\<lparr>t_sched_info := (t_sched_info T)
     \<lparr>si_time_slice_remaining := si_time_slice_default (t_sched_info T)\<rparr>\<rparr>"

text \<open>
  The key that \<open>VruntimeCompare\<close> compares: the virtual run time of the task. The queue
  holds pointers to live tasks.
\<close>

definition vruntime :: "tcb_heap \<Rightarrow> tptr \<Rightarrow> u64" where
  "vruntime h t = (case h t of None \<Rightarrow> 0 | Some T \<Rightarrow> cfs_vruntime (t_sched_data T))"

definition VruntimeCompare :: "tcb_heap \<Rightarrow> tptr \<Rightarrow> tptr \<Rightarrow> bool" where
  "VruntimeCompare h a b \<longleftrightarrow> vruntime h a > vruntime h b"

lemma VruntimeCompare_key: "VruntimeCompare h = key_cmp (vruntime h)"
  by (intro ext) (simp add: VruntimeCompare_def)

subsection \<open>Queue operations\<close>

definition Fifo_Enqueue :: "Stats \<Rightarrow> tptr list \<Rightarrow> tptr \<Rightarrow> Scheduler" where
  "Fifo_Enqueue st q t = FifoScheduler (count_enqueue st) (q @ [t])"

definition RR_Enqueue :: "tcb_heap \<Rightarrow> Stats \<Rightarrow> tptr list \<Rightarrow> tptr \<Rightarrow> (tcb_heap \<times> Scheduler) outcome" where
  "RR_Enqueue h st q t =
     obind (modify h t refill_slice) (\<lambda>h. Done (h, RoundRobinScheduler (count_enqueue st) (q @ [t])))"

definition Cfs_Enqueue :: "tcb_heap \<Rightarrow> Stats \<Rightarrow> tptr list \<Rightarrow> u64 \<Rightarrow> tptr \<Rightarrow> (tcb_heap \<times> Scheduler) outcome" where
  "Cfs_Enqueue h st q mv t =
     obind (modify h t (\<lambda>T. T\<lparr>t_sched_data := (t_sched_data T)
              \<lparr>cfs_vruntime := (if cfs_vruntime (t_sched_data T) = 0 then mv else cfs_vruntime (t_sched_data T)),
               cfs_weight := (if cfs_weight (t_sched_data T) = 0 then kDefaultWeight else cfs_weight (t_sched_data T))\<rparr>\<rparr>))
       (\<lambda>h. Done (h, CfsScheduler (count_enqueue st) (pq_push (VruntimeCompare h) q t) mv))"

definition Idle_Enqueue :: "Stats \<Rightarrow> tptr option \<Rightarrow> tptr \<Rightarrow> Scheduler" where
  "Idle_Enqueue st i t = IdleScheduler (count_enqueue st) (Some t)"

definition Enqueue :: "tcb_heap \<Rightarrow> Scheduler \<Rightarrow> tptr \<Rightarrow> (tcb_heap \<times> Scheduler) outcome" where
  "Enqueue h s t = (case s of
       FifoScheduler st q \<Rightarrow> Done (h, Fifo_Enqueue st q t)
     | RoundRobinScheduler st q \<Rightarrow> RR_Enqueue h st q t
     | IdleScheduler st i \<Rightarrow> Done (h, Idle_Enqueue st i t)
     | CfsScheduler st q mv \<Rightarrow> Cfs_Enqueue h st q mv t)"

text \<open>
  The fair scheduler's \<open>Dequeue\<close> empties the heap into a vector without the task and pushes
  the rest back. The first loop runs once per element.
\<close>

fun cfs_drain :: "(tptr \<Rightarrow> tptr \<Rightarrow> bool) \<Rightarrow> nat \<Rightarrow> tptr list \<Rightarrow> tptr \<Rightarrow> tptr list \<Rightarrow> bool \<Rightarrow> tptr list \<times> bool" where
  "cfs_drain cmp 0 q t temp found = (temp, found)"
| "cfs_drain cmp (Suc n) q t temp found =
     (if pq_empty q then (temp, found)
      else if pq_top q = t then cfs_drain cmp n (pq_pop cmp q) t temp True
      else cfs_drain cmp n (pq_pop cmp q) t (temp @ [pq_top q]) found)"

definition Cfs_Dequeue :: "tcb_heap \<Rightarrow> Stats \<Rightarrow> tptr list \<Rightarrow> u64 \<Rightarrow> tptr \<Rightarrow> Scheduler" where
  "Cfs_Dequeue h st q mv t =
     (let (temp, found) = cfs_drain (VruntimeCompare h) (pq_size q) q t [] False
      in CfsScheduler (if found then count_dequeue st else st)
           (foldl (pq_push (VruntimeCompare h)) [] temp) mv)"

text \<open>
  \<open>nk_std::list::remove\<close> removes every occurrence; the round-robin loop stops after the first.
\<close>

definition Fifo_Dequeue :: "Stats \<Rightarrow> tptr list \<Rightarrow> tptr \<Rightarrow> Scheduler" where
  "Fifo_Dequeue st q t = FifoScheduler (count_dequeue st) (removeAll t q)"

definition RR_Dequeue :: "Stats \<Rightarrow> tptr list \<Rightarrow> tptr \<Rightarrow> Scheduler" where
  "RR_Dequeue st q t =
     (if t \<in> set q then RoundRobinScheduler (count_dequeue st) (remove1 t q) else RoundRobinScheduler st q)"

definition Idle_Dequeue :: "Stats \<Rightarrow> tptr option \<Rightarrow> tptr \<Rightarrow> Scheduler" where
  "Idle_Dequeue st i t =
     (if i = Some t then IdleScheduler (count_dequeue st) None else IdleScheduler st i)"

definition Dequeue :: "tcb_heap \<Rightarrow> Scheduler \<Rightarrow> tptr \<Rightarrow> Scheduler" where
  "Dequeue h s t = (case s of
       FifoScheduler st q \<Rightarrow> Fifo_Dequeue st q t
     | RoundRobinScheduler st q \<Rightarrow> RR_Dequeue st q t
     | IdleScheduler st i \<Rightarrow> Idle_Dequeue st i t
     | CfsScheduler st q mv \<Rightarrow> Cfs_Dequeue h st q mv t)"

definition Fifo_IsEmpty :: "tptr list \<Rightarrow> bool" where "Fifo_IsEmpty q \<longleftrightarrow> q = []"
definition RR_IsEmpty :: "tptr list \<Rightarrow> bool" where "RR_IsEmpty q \<longleftrightarrow> q = []"
definition Idle_IsEmpty :: "tptr option \<Rightarrow> bool" where "Idle_IsEmpty i \<longleftrightarrow> i = None"
definition Cfs_IsEmpty :: "tptr list \<Rightarrow> bool" where "Cfs_IsEmpty q \<longleftrightarrow> pq_empty q"

definition IsEmpty :: "Scheduler \<Rightarrow> bool" where
  "IsEmpty s = (case s of
       FifoScheduler st q \<Rightarrow> Fifo_IsEmpty q
     | RoundRobinScheduler st q \<Rightarrow> RR_IsEmpty q
     | IdleScheduler st i \<Rightarrow> Idle_IsEmpty i
     | CfsScheduler st q mv \<Rightarrow> Cfs_IsEmpty q)"

definition Fifo_GetQueueSize :: "tptr list \<Rightarrow> size_t" where "Fifo_GetQueueSize q = of_nat (length q)"
definition RR_GetQueueSize :: "tptr list \<Rightarrow> size_t" where "RR_GetQueueSize q = of_nat (length q)"
definition Idle_GetQueueSize :: "tptr option \<Rightarrow> size_t" where "Idle_GetQueueSize i = (if i \<noteq> None then 1 else 0)"
definition Cfs_GetQueueSize :: "tptr list \<Rightarrow> size_t" where "Cfs_GetQueueSize q = of_nat (pq_size q)"

definition GetQueueSize :: "Scheduler \<Rightarrow> size_t" where
  "GetQueueSize s = (case s of
       FifoScheduler st q \<Rightarrow> Fifo_GetQueueSize q
     | RoundRobinScheduler st q \<Rightarrow> RR_GetQueueSize q
     | IdleScheduler st i \<Rightarrow> Idle_GetQueueSize i
     | CfsScheduler st q mv \<Rightarrow> Cfs_GetQueueSize q)"

definition Fifo_PickNext :: "Stats \<Rightarrow> tptr list \<Rightarrow> tptr option \<times> Scheduler" where
  "Fifo_PickNext st q = (case q of
       [] \<Rightarrow> (None, FifoScheduler st q) | t # q' \<Rightarrow> (Some t, FifoScheduler (count_pick st) q'))"

definition RR_PickNext :: "Stats \<Rightarrow> tptr list \<Rightarrow> tptr option \<times> Scheduler" where
  "RR_PickNext st q = (case q of
       [] \<Rightarrow> (None, RoundRobinScheduler st q) | t # q' \<Rightarrow> (Some t, RoundRobinScheduler (count_pick st) q'))"

definition Idle_PickNext :: "Stats \<Rightarrow> tptr option \<Rightarrow> tptr option \<times> Scheduler" where
  "Idle_PickNext st i = (i, IdleScheduler (if i \<noteq> None then count_pick st else st) i)"

definition Cfs_PickNext :: "tcb_heap \<Rightarrow> Stats \<Rightarrow> tptr list \<Rightarrow> u64 \<Rightarrow> tptr option \<times> Scheduler" where
  "Cfs_PickNext h st q mv =
     (if pq_empty q then (None, CfsScheduler st q mv)
      else let next = pq_top q; q' = pq_pop (VruntimeCompare h) q
           in (Some next, CfsScheduler (count_pick st) q'
                (if pq_empty q' then vruntime h next else vruntime h (pq_top q'))))"

definition PickNext :: "tcb_heap \<Rightarrow> Scheduler \<Rightarrow> tptr option \<times> Scheduler" where
  "PickNext h s = (case s of
       FifoScheduler st q \<Rightarrow> Fifo_PickNext st q
     | RoundRobinScheduler st q \<Rightarrow> RR_PickNext st q
     | IdleScheduler st i \<Rightarrow> Idle_PickNext st i
     | CfsScheduler st q mv \<Rightarrow> Cfs_PickNext h st q mv)"

definition Cfs_GetMinVruntime :: "Scheduler \<Rightarrow> u64 option" where
  "Cfs_GetMinVruntime s = (case s of CfsScheduler st q mv \<Rightarrow> Some mv | _ \<Rightarrow> None)"

text \<open>A call through the base class and what it dispatches to.\<close>

lemmas Enqueue_defs = Enqueue_def Idle_Enqueue_def
lemmas Dequeue_defs = Dequeue_def Fifo_Dequeue_def RR_Dequeue_def Idle_Dequeue_def
lemmas IsEmpty_defs = IsEmpty_def Fifo_IsEmpty_def RR_IsEmpty_def Idle_IsEmpty_def Cfs_IsEmpty_def
lemmas GetQueueSize_defs = GetQueueSize_def Fifo_GetQueueSize_def RR_GetQueueSize_def Idle_GetQueueSize_def Cfs_GetQueueSize_def
lemmas PickNext_defs = PickNext_def Fifo_PickNext_def RR_PickNext_def Idle_PickNext_def Cfs_PickNext_def

subsection \<open>Hooks\<close>

definition Cfs_OnTick :: "tcb_heap \<Rightarrow> Stats \<Rightarrow> tptr list \<Rightarrow> u64 \<Rightarrow> tptr \<Rightarrow> (tcb_heap \<times> Scheduler \<times> bool) outcome" where
  "Cfs_OnTick h st q mv t =
     obind (deref h t) (\<lambda>T.
     let w = cfs_weight (t_sched_data T)
     in if w = 0 then Fault DivByZero
        else let delta = (ucast ((kDefaultWeight * 1000) div w) :: u64)
             in obind (modify h t (\<lambda>T. T\<lparr>t_sched_data := (t_sched_data T)
                  \<lparr>cfs_vruntime := cfs_vruntime (t_sched_data T) + delta\<rparr>\<rparr>)) (\<lambda>h.
                if \<not> pq_empty q \<and> vruntime h (pq_top q) + kMinGranularity < vruntime h t
                then Done (h, CfsScheduler (count_preemption st) q mv, True)
                else Done (h, CfsScheduler st q mv, False)))"

definition Idle_OnTick :: bool where "Idle_OnTick = False"

definition OnTick :: "tcb_heap \<Rightarrow> Scheduler \<Rightarrow> tptr \<Rightarrow> (tcb_heap \<times> Scheduler \<times> bool) outcome" where
  "OnTick h s t = (case s of
       CfsScheduler st q mv \<Rightarrow> Cfs_OnTick h st q mv t
     | IdleScheduler st i \<Rightarrow> Done (h, s, Idle_OnTick)
     | _ \<Rightarrow> Done (h, s, False))"

definition RR_OnTimeSliceExpired :: "tcb_heap \<Rightarrow> tptr \<Rightarrow> (tcb_heap \<times> bool) outcome" where
  "RR_OnTimeSliceExpired h t = obind (modify h t refill_slice) (\<lambda>h. Done (h, True))"

definition Idle_OnTimeSliceExpired :: bool where "Idle_OnTimeSliceExpired = False"

definition OnTimeSliceExpired :: "tcb_heap \<Rightarrow> Scheduler \<Rightarrow> tptr \<Rightarrow> (tcb_heap \<times> bool) outcome" where
  "OnTimeSliceExpired h s t = (case s of
       RoundRobinScheduler st q \<Rightarrow> RR_OnTimeSliceExpired h t
     | IdleScheduler st i \<Rightarrow> Done (h, Idle_OnTimeSliceExpired)
     | _ \<Rightarrow> Done (h, True))"

definition Fifo_OnPreempted :: "Stats \<Rightarrow> Stats" where "Fifo_OnPreempted st = count_preemption st"
definition RR_OnPreempted :: "Stats \<Rightarrow> Stats" where "RR_OnPreempted st = count_preemption st"
definition Idle_OnPreempted :: "Stats \<Rightarrow> Stats" where "Idle_OnPreempted st = count_preemption st"
definition Cfs_OnPreempted :: "Stats \<Rightarrow> Stats" where "Cfs_OnPreempted st = count_preemption st"

definition OnPreempted :: "Scheduler \<Rightarrow> Scheduler" where
  "OnPreempted s = (case s of
       FifoScheduler st q \<Rightarrow> FifoScheduler (Fifo_OnPreempted st) q
     | RoundRobinScheduler st q \<Rightarrow> RoundRobinScheduler (RR_OnPreempted st) q
     | IdleScheduler st i \<Rightarrow> IdleScheduler (Idle_OnPreempted st) i
     | CfsScheduler st q mv \<Rightarrow> CfsScheduler (Cfs_OnPreempted st) q mv)"

lemmas OnTick_defs = OnTick_def Idle_OnTick_def
lemmas OnTimeSliceExpired_defs = OnTimeSliceExpired_def RR_OnTimeSliceExpired_def Idle_OnTimeSliceExpired_def
lemmas OnPreempted_defs = OnPreempted_def Fifo_OnPreempted_def RR_OnPreempted_def Idle_OnPreempted_def Cfs_OnPreempted_def

text \<open>No scheduler of the kernel acts in \<open>OnScheduled\<close>.\<close>

definition OnScheduled :: "Scheduler \<Rightarrow> Scheduler" where
  "OnScheduled s = s"

definition GetStats :: "Scheduler \<Rightarrow> Stats" where
  "GetStats s = (case s of
       FifoScheduler st q \<Rightarrow> st | RoundRobinScheduler st q \<Rightarrow> st
     | IdleScheduler st i \<Rightarrow> st | CfsScheduler st q mv \<Rightarrow> st)"

definition ResetStats :: "Scheduler \<Rightarrow> Scheduler" where
  "ResetStats s = (case s of
       FifoScheduler st q \<Rightarrow> FifoScheduler zero_Stats q
     | RoundRobinScheduler st q \<Rightarrow> RoundRobinScheduler zero_Stats q
     | IdleScheduler st i \<Rightarrow> IdleScheduler zero_Stats i
     | CfsScheduler st q mv \<Rightarrow> CfsScheduler zero_Stats q mv)"

subsection \<open>The contract of a ready queue\<close>

text \<open>
  The tasks a scheduler holds. The idle scheduler is not a queue: it never gives up its task.
\<close>

definition ready :: "Scheduler \<Rightarrow> tptr list" where
  "ready s = (case s of
       FifoScheduler st q \<Rightarrow> q
     | RoundRobinScheduler st q \<Rightarrow> q
     | IdleScheduler st i \<Rightarrow> (case i of None \<Rightarrow> [] | Some t \<Rightarrow> [t])
     | CfsScheduler st q mv \<Rightarrow> q)"

lemma ready_simps [simp]:
  "ready (FifoScheduler st q) = q" "ready (RoundRobinScheduler st q) = q"
  "ready (IdleScheduler st None) = []" "ready (IdleScheduler st (Some t)) = [t]"
  "ready (CfsScheduler st q mv) = q"
  by (simp_all add: ready_def)

lemma IsEmpty_ready: "IsEmpty s \<longleftrightarrow> ready s = []"
  by (cases s) (auto simp: IsEmpty_defs ready_def pq_empty_def split: option.splits)

text \<open>The tasks that \<open>n\<close> picks in a row return.\<close>

fun pick_all :: "tcb_heap \<Rightarrow> nat \<Rightarrow> Scheduler \<Rightarrow> tptr list" where
  "pick_all h 0 s = []"
| "pick_all h (Suc n) s = (case PickNext h s of (None, s') \<Rightarrow> [] | (Some t, s') \<Rightarrow> t # pick_all h n s')"

locale ready_queue =
  fixes invar :: "tcb_heap \<Rightarrow> Scheduler \<Rightarrow> bool"
  assumes enqueue_law: "invar h s \<Longrightarrow> h t = Some T \<Longrightarrow> t \<notin> set (ready s) \<Longrightarrow>
      \<exists>h' s'. Enqueue h s t = Done (h', s') \<and> invar h' s' \<and>
              mset (ready s') = add_mset t (mset (ready s))"
    and pick_law: "invar h s \<Longrightarrow> ready s \<noteq> [] \<Longrightarrow>
      \<exists>t s'. PickNext h s = (Some t, s') \<and> invar h s' \<and>
              mset (ready s) = add_mset t (mset (ready s'))"
    and pick_empty_law: "invar h s \<Longrightarrow> ready s = [] \<Longrightarrow> PickNext h s = (None, s)"
    and dequeue_law: "invar h s \<Longrightarrow> distinct (ready s) \<Longrightarrow>
      invar h (Dequeue h s t) \<and> mset (ready (Dequeue h s t)) = filter_mset (\<lambda>x. x \<noteq> t) (mset (ready s))"
begin

text \<open>A task that is in the queue once and is dequeued can no longer be picked.\<close>

lemma dequeued_not_picked:
  assumes "invar h s" "distinct (ready s)" "PickNext h (Dequeue h s t) = (Some x, s')"
  shows "x \<noteq> t \<and> x \<in> set (ready s)"
proof -
  note d = dequeue_law [OF assms(1,2), of t]
  have "ready (Dequeue h s t) \<noteq> []"
    using pick_empty_law [of h "Dequeue h s t"] d assms(3) by auto
  then obtain y s2 where p: "PickNext h (Dequeue h s t) = (Some y, s2)"
      "mset (ready (Dequeue h s t)) = add_mset y (mset (ready s2))"
    using pick_law d by blast
  then have "x \<in># filter_mset (\<lambda>z. z \<noteq> t) (mset (ready s))" using assms(3) d by simp
  then show ?thesis by simp
qed

text \<open>An enqueued task is found again: picking as often as there are tasks returns it.\<close>

lemma pick_all_mset: "invar h s \<Longrightarrow> mset (pick_all h (length (ready s)) s) = mset (ready s)"
proof (induction "length (ready s)" arbitrary: s)
  case 0
  then show ?case by (metis length_0_conv pick_all.simps(1))
next
  case (Suc n)
  then have "ready s \<noteq> []" by auto
  then obtain t s' where p: "PickNext h s = (Some t, s')" "invar h s'"
      "mset (ready s) = add_mset t (mset (ready s'))"
    using pick_law Suc.prems by blast
  have "n = length (ready s')" using p(3) Suc.hyps(2) by (metis add_mset_eq_singleton_iff diff_Suc_1 size_add_mset size_mset)
  with Suc.hyps(1) [of s'] p have "mset (pick_all h n s') = mset (ready s')" by simp
  then show ?case unfolding Suc.hyps(2) [symmetric] by (simp add: p)
qed

end

definition is_fifo :: "tcb_heap \<Rightarrow> Scheduler \<Rightarrow> bool" where
  "is_fifo h s \<longleftrightarrow> (case s of FifoScheduler st q \<Rightarrow> True | _ \<Rightarrow> False)"

definition is_rr :: "tcb_heap \<Rightarrow> Scheduler \<Rightarrow> bool" where
  "is_rr h s \<longleftrightarrow> (case s of RoundRobinScheduler st q \<Rightarrow> True | _ \<Rightarrow> False)"

definition is_cfs :: "tcb_heap \<Rightarrow> Scheduler \<Rightarrow> bool" where
  "is_cfs h s \<longleftrightarrow> (case s of CfsScheduler st q mv \<Rightarrow> is_heap (vruntime h) q | _ \<Rightarrow> False)"

lemma mset_removeAll: "mset (removeAll t q) = filter_mset (\<lambda>x. x \<noteq> t) (mset q)"
  by (induction q) auto

lemma mset_remove1_distinct: "distinct q \<Longrightarrow> mset q - {#t#} = filter_mset (\<lambda>x. x \<noteq> t) (mset q)"
  using mset_removeAll [of t q] distinct_remove1_removeAll [of q t] by (metis mset_remove1)

lemma ready_RR_Dequeue: "ready (Dequeue h (RoundRobinScheduler st q) t) = remove1 t q"
  by (simp add: Dequeue_defs remove1_idem)

interpretation fifo: ready_queue is_fifo
proof (unfold_locales, goal_cases)
  case (1 h s t T)
  then show ?case by (auto simp: is_fifo_def Enqueue_defs Fifo_Enqueue_def split: Scheduler.splits)
next
  case (2 h s)
  then show ?case by (auto simp: is_fifo_def PickNext_defs neq_Nil_conv split: Scheduler.splits)
next
  case (3 h s)
  then show ?case by (auto simp: is_fifo_def PickNext_defs split: Scheduler.splits)
next
  case (4 h s t)
  then show ?case by (auto simp: is_fifo_def Dequeue_defs mset_removeAll split: Scheduler.splits)
qed

interpretation rr: ready_queue is_rr
proof (unfold_locales, goal_cases)
  case (1 h s t T)
  then show ?case by (auto simp: is_rr_def Enqueue_defs RR_Enqueue_def split: Scheduler.splits)
next
  case (2 h s)
  then show ?case by (auto simp: is_rr_def PickNext_defs neq_Nil_conv split: Scheduler.splits)
next
  case (3 h s)
  then show ?case by (auto simp: is_rr_def PickNext_defs split: Scheduler.splits)
next
  case (4 h s t)
  then show ?case
    by (cases s) (simp_all add: is_rr_def ready_RR_Dequeue mset_remove1_distinct, simp add: Dequeue_defs)
qed

subsection \<open>The fair scheduler\<close>

lemma vruntime_upd_other: "x \<noteq> t \<Longrightarrow> vruntime (h(t := v)) x = vruntime h x"
  by (simp add: vruntime_def)

lemma is_heap_upd_other: "t \<notin> set q \<Longrightarrow> is_heap (vruntime (h(t := v))) q = is_heap (vruntime h) q"
  by (rule is_heap_cong) (metis vruntime_upd_other)

lemma cfs_drain_correct:
  assumes "is_heap (vruntime h) q" "length q \<le> n"
  shows "mset (fst (cfs_drain (VruntimeCompare h) n q t temp found)) =
           mset temp + filter_mset (\<lambda>x. x \<noteq> t) (mset q) \<and>
         snd (cfs_drain (VruntimeCompare h) n q t temp found) = (found \<or> t \<in> set q)"
  using assms
proof (induction n arbitrary: q temp found)
  case (Suc n)
  show ?case
  proof (cases "pq_empty q")
    case True
    then show ?thesis by (simp add: pq_empty_def)
  next
    case False
    let ?q = "pq_pop (VruntimeCompare h) q"
    have q: "mset q = add_mset (pq_top q) (mset ?q)" and h: "is_heap (vruntime h) ?q"
      using keyed.elems_pop_add [OF Suc.prems(1) False] keyed.invar_pop [OF Suc.prems(1) False]
      by (simp_all add: VruntimeCompare_key)
    have "length q = Suc (length ?q)" using arg_cong [OF q, of size] by simp
    with Suc.prems have "length ?q \<le> n" by simp
    note IH = Suc.IH [OF h this]
    have "t \<in> set q \<longleftrightarrow> t = pq_top q \<or> t \<in> set ?q" using arg_cong [OF q, of set_mset] by simp
    with False IH show ?thesis by (simp add: q)
  qed
qed simp

lemma foldl_push_correct:
  "is_heap (vruntime h) q \<Longrightarrow>
   is_heap (vruntime h) (foldl (pq_push (VruntimeCompare h)) q xs) \<and>
   mset (foldl (pq_push (VruntimeCompare h)) q xs) = mset q + mset xs"
proof (induction xs arbitrary: q)
  case (Cons x xs)
  then show ?case
    using keyed.invar_push [of "vruntime h" q x] keyed.elems_push [of "vruntime h" q x]
    by (simp add: VruntimeCompare_key)
qed simp

lemma Cfs_Dequeue_correct:
  assumes "is_heap (vruntime h) q"
  shows "\<exists>st' q'. Cfs_Dequeue h st q mv t = CfsScheduler st' q' mv \<and> is_heap (vruntime h) q' \<and>
           mset q' = filter_mset (\<lambda>x. x \<noteq> t) (mset q)"
proof -
  obtain temp found where d: "cfs_drain (VruntimeCompare h) (pq_size q) q t [] False = (temp, found)"
    by fastforce
  have "mset temp = filter_mset (\<lambda>x. x \<noteq> t) (mset q)"
    using cfs_drain_correct [OF assms, of "pq_size q" t "[]" False] d by (simp add: pq_size_def)
  with foldl_push_correct [of h "[]" temp] show ?thesis by (simp add: Cfs_Dequeue_def d)
qed

lemma Cfs_Enqueue_correct:
  assumes "is_heap (vruntime h) q" "h t = Some T" "t \<notin> set q"
  shows "\<exists>h' st' q'. Cfs_Enqueue h st q mv t = Done (h', CfsScheduler st' q' mv) \<and>
           is_heap (vruntime h') q' \<and> mset q' = add_mset t (mset q)"
proof -
  have "is_heap (vruntime (h(t \<mapsto> T'))) (pq_push (VruntimeCompare (h(t \<mapsto> T'))) q t) \<and>
        mset (pq_push (VruntimeCompare (h(t \<mapsto> T'))) q t) = add_mset t (mset q)" for T'
    using keyed.invar_push [of "vruntime (h(t \<mapsto> T'))" q t] keyed.elems_push [of "vruntime (h(t \<mapsto> T'))" q t]
      assms(1) is_heap_upd_other [OF assms(3)] by (simp add: VruntimeCompare_key)
  then show ?thesis using assms(2) by (simp add: Cfs_Enqueue_def)
qed

lemma Cfs_PickNext_correct:
  assumes "is_heap (vruntime h) q" "q \<noteq> []"
  shows "\<exists>t st' q' mv'. PickNext h (CfsScheduler st q mv) = (Some t, CfsScheduler st' q' mv') \<and>
           is_heap (vruntime h) q' \<and> mset q = add_mset t (mset q') \<and>
           (\<forall>x\<in>set q. vruntime h t \<le> vruntime h x)"
proof -
  have ne: "\<not> pq_empty q" using assms(2) by (simp add: pq_empty_def)
  have "\<forall>x\<in>set q. vruntime h (pq_top q) \<le> vruntime h x" using keyed.top_min [OF assms(1)] by simp
  then show ?thesis
    using keyed.elems_pop_add [OF assms(1) ne] keyed.invar_pop [OF assms(1) ne] ne
    by (simp add: PickNext_defs VruntimeCompare_key Let_def)
qed

interpretation cfs: ready_queue is_cfs
proof (unfold_locales, goal_cases)
  case (1 h s t T)
  then obtain st q mv where s: "s = CfsScheduler st q mv" "is_heap (vruntime h) q"
    by (auto simp: is_cfs_def split: Scheduler.splits)
  show ?case
    using Cfs_Enqueue_correct [OF s(2) 1(2)] 1(3) by (fastforce simp: s Enqueue_defs is_cfs_def)
next
  case (2 h s)
  then obtain st q mv where s: "s = CfsScheduler st q mv" "is_heap (vruntime h) q"
    by (auto simp: is_cfs_def split: Scheduler.splits)
  show ?case using Cfs_PickNext_correct [OF s(2)] 2(2) by (fastforce simp: s is_cfs_def)
next
  case (3 h s)
  then show ?case by (cases s) (auto simp: is_cfs_def PickNext_defs pq_empty_def)
next
  case (4 h s t)
  then obtain st q mv where s: "s = CfsScheduler st q mv" "is_heap (vruntime h) q"
    by (auto simp: is_cfs_def split: Scheduler.splits)
  show ?case using Cfs_Dequeue_correct [OF s(2), of st mv t] by (auto simp: s Dequeue_defs is_cfs_def)
qed

subsection \<open>Fairness of the round-robin queue\<close>

text \<open>
  One turn of a task: it is picked, runs, and is put back when its slice is used up, the way
  \<open>Schedule\<close> calls the scheduler.
\<close>

definition rr_turn :: "tcb_heap \<Rightarrow> Scheduler \<Rightarrow> (tptr option \<times> tcb_heap \<times> Scheduler) outcome" where
  "rr_turn h s =
     (case PickNext h s of
        (None, s') \<Rightarrow> Done (None, h, s')
      | (Some t, s') \<Rightarrow>
          obind (OnTimeSliceExpired h (OnPreempted s') t) (\<lambda>(h, again).
            if again then obind (Enqueue h (OnPreempted s') t) (\<lambda>(h, s'). Done (Some t, h, s'))
            else Done (Some t, h, OnPreempted s')))"

fun rr_turns :: "nat \<Rightarrow> tcb_heap \<Rightarrow> Scheduler \<Rightarrow> (tptr list \<times> tcb_heap \<times> Scheduler) outcome" where
  "rr_turns 0 h s = Done ([], h, s)"
| "rr_turns (Suc n) h s =
     obind (rr_turn h s) (\<lambda>(t, h, s).
     obind (rr_turns n h s) (\<lambda>(ts, h, s). Done (case t of None \<Rightarrow> ts | Some t \<Rightarrow> t # ts, h, s)))"

lemma rr_turn_Cons:
  assumes "h t = Some T"
  shows "\<exists>st'. rr_turn h (RoundRobinScheduler st (t # q)) =
           Done (Some t, h(t \<mapsto> refill_slice T), RoundRobinScheduler st' (q @ [t]))"
  using assms
  by (simp add: rr_turn_def PickNext_defs OnPreempted_defs OnTimeSliceExpired_defs Enqueue_defs RR_Enqueue_def
      refill_slice_def)

lemma rr_turns_prefix:
  assumes "\<forall>t\<in>set (q @ r). h t \<noteq> None"
  shows "\<exists>h' st'. rr_turns (length q) h (RoundRobinScheduler st (q @ r)) =
           Done (q, h', RoundRobinScheduler st' (r @ q))"
  using assms
proof (induction q arbitrary: h st r)
  case (Cons t q)
  then obtain T where T: "h t = Some T" by auto
  obtain st1 where 1: "rr_turn h (RoundRobinScheduler st (t # q @ r)) =
      Done (Some t, h(t \<mapsto> refill_slice T), RoundRobinScheduler st1 (q @ r @ [t]))"
    using rr_turn_Cons [of h t T st "q @ r"] T by auto
  define h1 where "h1 = h(t \<mapsto> refill_slice T)"
  have "\<forall>x\<in>set (q @ r @ [t]). h1 x \<noteq> None" using Cons.prems by (simp add: h1_def)
  then obtain h' st' where "rr_turns (length q) h1 (RoundRobinScheduler st1 (q @ r @ [t])) =
      Done (q, h', RoundRobinScheduler st' ((r @ [t]) @ q))" using Cons.IH [of "r @ [t]" h1 st1] by blast
  with 1 show ?case by (simp add: h1_def)
qed simp

text \<open>
  Round robin is fair. With \<open>n\<close> live tasks in the round-robin queue, \<open>n\<close> turns of
  pick, preempt and re-enqueue run every task exactly once, in queue order, and leave the
  queue as it was.
\<close>

theorem rr_full_cycle:
  assumes "\<forall>t\<in>set q. h t \<noteq> None"
  shows "\<exists>h' st'. rr_turns (length q) h (RoundRobinScheduler st q) = Done (q, h', RoundRobinScheduler st' q)"
  using rr_turns_prefix [of q "[]" h st] assms by auto

theorem rr_full_cycle_witness:
  "\<exists>h' st'. rr_turns (length [4, 5 :: tptr])
      [4 \<mapsto> default_TaskControlBlock, 5 \<mapsto> default_TaskControlBlock]
      (RoundRobinScheduler zero_Stats [4, 5]) = Done ([4, 5], h', RoundRobinScheduler st' [4, 5])"
  by (rule rr_full_cycle) simp

text \<open>
  C25. The fair scheduler picks a task of least virtual run time, takes exactly that task out,
  and keeps its heap in order, so that the next pick is again a least one; a dequeued task is
  gone from the heap and the other tasks stay.
\<close>

theorem cfs_pick_least:
  assumes "is_cfs h (CfsScheduler st q mv)" "q \<noteq> []"
  shows "\<exists>t s'. PickNext h (CfsScheduler st q mv) = (Some t, s') \<and> is_cfs h s' \<and>
           mset q = add_mset t (mset (ready s')) \<and> (\<forall>x\<in>set q. vruntime h t \<le> vruntime h x) \<and>
           (\<forall>u. is_cfs h (Dequeue h s' u) \<and>
                mset (ready (Dequeue h s' u)) = filter_mset (\<lambda>x. x \<noteq> u) (mset (ready s')))"
proof -
  have "is_heap (vruntime h) q" using assms(1) by (simp add: is_cfs_def)
  from Cfs_PickNext_correct [OF this assms(2), of st mv] obtain t st' q' mv' where
    p: "PickNext h (CfsScheduler st q mv) = (Some t, CfsScheduler st' q' mv')" "is_heap (vruntime h) q'"
      "mset q = add_mset t (mset q')" "\<forall>x\<in>set q. vruntime h t \<le> vruntime h x" by blast
  have "is_cfs h (Dequeue h (CfsScheduler st' q' mv') u) \<and>
        mset (ready (Dequeue h (CfsScheduler st' q' mv') u)) = filter_mset (\<lambda>x. x \<noteq> u) (mset q')" for u
    using Cfs_Dequeue_correct [OF p(2), of st' mv' u] by (auto simp: Dequeue_defs is_cfs_def)
  with p show ?thesis by (auto simp: is_cfs_def)
qed

theorem cfs_pick_least_witness:
  "let h = [4 \<mapsto> default_TaskControlBlock\<lparr>t_sched_data := \<lparr>cfs_vruntime = 9, cfs_weight = 1\<rparr>\<rparr>,
            5 \<mapsto> default_TaskControlBlock\<lparr>t_sched_data := \<lparr>cfs_vruntime = 3, cfs_weight = 1\<rparr>\<rparr>]
   in \<exists>t s'. PickNext h (CfsScheduler zero_Stats [5, 4] 0) = (Some t, s') \<and> is_cfs h s' \<and>
           mset [5, 4] = add_mset t (mset (ready s')) \<and> (\<forall>x\<in>set [5, 4]. vruntime h t \<le> vruntime h x) \<and>
           (\<forall>u. is_cfs h (Dequeue h s' u) \<and>
                mset (ready (Dequeue h s' u)) = filter_mset (\<lambda>x. x \<noteq> u) (mset (ready s')))"
  unfolding Let_def
  by (rule cfs_pick_least)
    (simp_all add: is_cfs_def is_heap_def heap_upto_def vruntime_def parent_def less_Suc_eq)

end
