(* ===== verification/Kernel_Error.thy ===== *)
theory Kernel_Error
  imports NK_Prelude
begin

text \<open>
  The kernel's error codes and their messages (\<open>src/src/include/expected.hpp\<close>).
  \<open>Expected<T>\<close> is the sum type \<open>ErrorCode + 'a\<close> with \<open>Inl\<close> the error.
\<close>

datatype ErrorCode =
    kSuccess
  | kElfInvalidAddress | kElfInvalidMagic | kElfUnsupported32Bit | kElfInvalidClass
  | kElfSymtabNotFound | kElfStrtabNotFound
  | kFdtInvalidAddress | kFdtInvalidHeader | kFdtNodeNotFound | kFdtPropertyNotFound
  | kFdtParseFailed | kFdtInvalidPropertySize
  | kSpinLockRecursiveLock | kSpinLockNotOwned
  | kVmAllocationFailed | kVmMapFailed | kVmUnmapFailed | kVmInvalidPageTable
  | kVmPageNotMapped
  | kIpiTargetOutOfRange | kIpiSendFailed
  | kApicInitFailed | kApicInvalidIrq | kApicInvalidParameter | kApicCodeCopyFailed
  | kApicAddressNotAligned | kApicAddressOutOfRange | kApicIpiTimeout
  | kTaskNoCurrentTask | kTaskPidAllocationFailed | kTaskAllocationFailed
  | kTaskInvalidCloneFlags | kTaskPageTableCloneFailed | kTaskKernelStackAllocationFailed
  | kTaskNoChildFound | kTaskInvalidPid
  | kInvalidArgument | kOutOfMemory

type_synonym 'a Expected = "ErrorCode + 'a"

text \<open>The underlying \<open>uint64_t\<close> value of each enumerator.\<close>

fun error_value :: "ErrorCode \<Rightarrow> u64" where
  "error_value kSuccess = 0"
| "error_value kElfInvalidAddress = 0x100"
| "error_value kElfInvalidMagic = 0x101"
| "error_value kElfUnsupported32Bit = 0x102"
| "error_value kElfInvalidClass = 0x103"
| "error_value kElfSymtabNotFound = 0x104"
| "error_value kElfStrtabNotFound = 0x105"
| "error_value kFdtInvalidAddress = 0x200"
| "error_value kFdtInvalidHeader = 0x201"
| "error_value kFdtNodeNotFound = 0x202"
| "error_value kFdtPropertyNotFound = 0x203"
| "error_value kFdtParseFailed = 0x204"
| "error_value kFdtInvalidPropertySize = 0x205"
| "error_value kSpinLockRecursiveLock = 0x300"
| "error_value kSpinLockNotOwned = 0x301"
| "error_value kVmAllocationFailed = 0x400"
| "error_value kVmMapFailed = 0x401"
| "error_value kVmUnmapFailed = 0x402"
| "error_value kVmInvalidPageTable = 0x403"
| "error_value kVmPageNotMapped = 0x404"
| "error_value kIpiTargetOutOfRange = 0x500"
| "error_value kIpiSendFailed = 0x501"
| "error_value kApicInitFailed = 0x600"
| "error_value kApicInvalidIrq = 0x601"
| "error_value kApicInvalidParameter = 0x602"
| "error_value kApicCodeCopyFailed = 0x603"
| "error_value kApicAddressNotAligned = 0x604"
| "error_value kApicAddressOutOfRange = 0x605"
| "error_value kApicIpiTimeout = 0x606"
| "error_value kTaskNoCurrentTask = 0x700"
| "error_value kTaskPidAllocationFailed = 0x701"
| "error_value kTaskAllocationFailed = 0x702"
| "error_value kTaskInvalidCloneFlags = 0x703"
| "error_value kTaskPageTableCloneFailed = 0x704"
| "error_value kTaskKernelStackAllocationFailed = 0x705"
| "error_value kTaskNoChildFound = 0x706"
| "error_value kTaskInvalidPid = 0x707"
| "error_value kInvalidArgument = 0xF00"
| "error_value kOutOfMemory = 0xF01"

fun GetErrorMessage :: "ErrorCode \<Rightarrow> string" where
  "GetErrorMessage kSuccess = ''Success''"
| "GetErrorMessage kElfInvalidAddress = ''Invalid ELF address''"
| "GetErrorMessage kElfInvalidMagic = ''Invalid ELF magic number''"
| "GetErrorMessage kElfUnsupported32Bit = ''32-bit ELF not supported''"
| "GetErrorMessage kElfInvalidClass = ''Invalid ELF class''"
| "GetErrorMessage kElfSymtabNotFound = ''.symtab section not found''"
| "GetErrorMessage kElfStrtabNotFound = ''.strtab section not found''"
| "GetErrorMessage kFdtInvalidAddress = ''Invalid FDT address''"
| "GetErrorMessage kFdtInvalidHeader = ''Invalid FDT header''"
| "GetErrorMessage kFdtNodeNotFound = ''FDT node not found''"
| "GetErrorMessage kFdtPropertyNotFound = ''FDT property not found''"
| "GetErrorMessage kFdtParseFailed = ''FDT parse failed''"
| "GetErrorMessage kFdtInvalidPropertySize = ''Invalid FDT property size''"
| "GetErrorMessage kSpinLockRecursiveLock = ''Recursive spinlock detected''"
| "GetErrorMessage kSpinLockNotOwned = ''Spinlock not owned by current core''"
| "GetErrorMessage kVmAllocationFailed = ''Virtual memory allocation failed''"
| "GetErrorMessage kVmMapFailed = ''Virtual memory mapping failed''"
| "GetErrorMessage kVmUnmapFailed = ''Virtual memory unmapping failed''"
| "GetErrorMessage kVmInvalidPageTable = ''Invalid page table''"
| "GetErrorMessage kVmPageNotMapped = ''Page not mapped''"
| "GetErrorMessage kIpiTargetOutOfRange = ''IPI target CPU mask out of range''"
| "GetErrorMessage kIpiSendFailed = ''IPI send failed''"
| "GetErrorMessage kApicInitFailed = ''APIC initialization failed''"
| "GetErrorMessage kApicInvalidIrq = ''Invalid IRQ number''"
| "GetErrorMessage kApicInvalidParameter = ''Invalid APIC parameter''"
| "GetErrorMessage kApicCodeCopyFailed = ''AP code copy verification failed''"
| "GetErrorMessage kApicAddressNotAligned = ''Address not aligned to required boundary''"
| "GetErrorMessage kApicAddressOutOfRange = ''Address out of valid range''"
| "GetErrorMessage kApicIpiTimeout = ''IPI delivery timeout''"
| "GetErrorMessage kTaskNoCurrentTask = ''No current task''"
| "GetErrorMessage kTaskPidAllocationFailed = ''PID allocation failed''"
| "GetErrorMessage kTaskAllocationFailed = ''Task allocation failed''"
| "GetErrorMessage kTaskInvalidCloneFlags = ''Invalid clone flags''"
| "GetErrorMessage kTaskPageTableCloneFailed = ''Page table clone failed''"
| "GetErrorMessage kTaskKernelStackAllocationFailed = ''Kernel stack allocation failed''"
| "GetErrorMessage kTaskNoChildFound = ''No child process found''"
| "GetErrorMessage kTaskInvalidPid = ''Invalid PID''"
| "GetErrorMessage kInvalidArgument = ''Invalid argument''"
| "GetErrorMessage kOutOfMemory = ''Out of memory''"

lemma error_value_inj: "error_value a = error_value b \<Longrightarrow> a = b"
  by (cases a; cases b) simp_all

lemma GetErrorMessage_inj: "GetErrorMessage a = GetErrorMessage b \<Longrightarrow> a = b"
  by (cases a; cases b) simp_all

end
