(* ===== verification/Spin_Lock.thy ===== *)
theory Spin_Lock
  imports Kernel_Error
begin

text \<open>
  Spin locks (\<open>src/src/include/spinlock.hpp\<close>). Two views of the same code:

  \<^item> the sequential operations \<open>Lock\<close> and \<open>UnLock\<close> of one core, with the core's
    interrupt flag passed along, on which the task manager is built;
  \<^item> the interleaving of any number of cores, one step per atomic access of the source,
    with its reachable states and their invariant.

  \<open>core_id_\<close> holds \<open>numeric_limits<size_t>::max()\<close> while no core owns the lock.
\<close>

record SpinLock =
  sl_name :: string
  sl_locked :: bool
  sl_core_id :: size_t
  sl_saved_intr_enable :: bool

definition no_core :: size_t where "no_core = - 1"

definition new_SpinLock :: "string \<Rightarrow> SpinLock" where
  "new_SpinLock nm = \<lparr>sl_name = nm, sl_locked = False, sl_core_id = no_core, sl_saved_intr_enable = False\<rparr>"

text \<open>
  \<open>Lock\<close> run to its end with no other core moving: the result, the core's interrupt flag
  afterwards, the lock. A lock held by another core is spun on: no return.
\<close>

definition SpinLock_Lock ::
    "size_t \<Rightarrow> bool \<Rightarrow> SpinLock \<Rightarrow> (unit Expected \<times> bool \<times> SpinLock) outcome" where
  "SpinLock_Lock core intr l =
     (if \<not> sl_locked l then
        Done (Inr (), False, l\<lparr>sl_locked := True, sl_core_id := core, sl_saved_intr_enable := intr\<rparr>)
      else if sl_core_id l = core then Done (Inl kSpinLockRecursiveLock, intr, l)
      else Fault LockContended)"

definition IsLockedByCurrentCore :: "size_t \<Rightarrow> SpinLock \<Rightarrow> bool" where
  "IsLockedByCurrentCore core l \<longleftrightarrow> sl_locked l \<and> sl_core_id l = core"

definition SpinLock_UnLock ::
    "size_t \<Rightarrow> bool \<Rightarrow> SpinLock \<Rightarrow> unit Expected \<times> bool \<times> SpinLock" where
  "SpinLock_UnLock core intr l =
     (if \<not> IsLockedByCurrentCore core l then (Inl kSpinLockNotOwned, intr, l)
      else (Inr (), (if sl_saved_intr_enable l then True else intr),
            l\<lparr>sl_core_id := no_core, sl_locked := False\<rparr>))"

text \<open>
  \<open>LockGuard\<close>: the constructor spins for ever when \<open>Lock\<close> fails, the destructor
  ignores the result of \<open>UnLock\<close>.
\<close>

definition LockGuard_ctor :: "size_t \<Rightarrow> bool \<Rightarrow> SpinLock \<Rightarrow> (bool \<times> SpinLock) outcome" where
  "LockGuard_ctor core intr l =
     obind (SpinLock_Lock core intr l)
       (\<lambda>(r, intr', l'). case r of Inl e \<Rightarrow> Fault LockGuardHang | Inr _ \<Rightarrow> Done (intr', l'))"

definition LockGuard_dtor :: "size_t \<Rightarrow> bool \<Rightarrow> SpinLock \<Rightarrow> bool \<times> SpinLock" where
  "LockGuard_dtor core intr l = snd (SpinLock_UnLock core intr l)"

subsection \<open>Interleaved cores\<close>

text \<open>
  Where a core is in \<open>Lock\<close> or \<open>UnLock\<close>. A constructor carries the local
  \<open>intr_enable\<close>, and in \<open>Lock\<close> whether the call was made by a core that already owns
  the lock (\<open>nested\<close>, with the interrupt state that its outer \<open>Lock\<close> had read). From
  \<open>Crit\<close> on, the constructor remembers the interrupt state that \<open>Lock\<close> had read, which
  the lock promises to restore; \<open>Ret\<close> is the return of \<open>UnLock\<close>.
\<close>

datatype nesting = Plain | Nested bool

datatype lock_pc =
    Out                      \<comment> \<open>not in the lock's code\<close>
  | LDisable nesting bool    \<comment> \<open>\<open>DisableInterrupt()\<close> is next\<close>
  | LTas nesting bool        \<comment> \<open>\<open>locked_.test_and_set()\<close> is next\<close>
  | LCheck nesting bool      \<comment> \<open>the comparison of \<open>core_id_\<close> is next\<close>
  | LSetId bool              \<comment> \<open>acquired; the store to \<open>core_id_\<close> is next\<close>
  | LSetSaved bool           \<comment> \<open>the store to \<open>saved_intr_enable_\<close> is next\<close>
  | Crit bool                \<comment> \<open>\<open>Lock\<close> has returned successfully\<close>
  | UResetId bool            \<comment> \<open>ownership checked; the reset of \<open>core_id_\<close> is next\<close>
  | UClear bool              \<comment> \<open>\<open>locked_.clear()\<close> is next\<close>
  | UReadSaved bool          \<comment> \<open>the read of \<open>saved_intr_enable_\<close> is next\<close>
  | Ret bool                 \<comment> \<open>\<open>UnLock\<close> has returned\<close>

record lock_sys =
  s_locked :: bool
  s_core_id :: size_t
  s_saved :: bool
  s_pc :: "size_t \<Rightarrow> lock_pc"
  s_intr :: "size_t \<Rightarrow> bool"

definition lock_sys_init :: "(size_t \<Rightarrow> bool) \<Rightarrow> lock_sys" where
  "lock_sys_init ie =
     \<lparr>s_locked = False, s_core_id = no_core, s_saved = False, s_pc = (\<lambda>_. Out), s_intr = ie\<rparr>"

definition goto :: "lock_sys \<Rightarrow> size_t \<Rightarrow> lock_pc \<Rightarrow> lock_sys" where
  "goto s c p = s\<lparr>s_pc := (s_pc s)(c := p)\<rparr>"

definition set_intr :: "lock_sys \<Rightarrow> size_t \<Rightarrow> bool \<Rightarrow> lock_sys" where
  "set_intr s c b = s\<lparr>s_intr := (s_intr s)(c := b)\<rparr>"

inductive lock_step :: "lock_sys \<Rightarrow> lock_sys \<Rightarrow> bool" where
  call_lock: "s_pc s c = Out \<Longrightarrow> c \<noteq> no_core \<Longrightarrow>
     lock_step s (goto s c (LDisable Plain (s_intr s c)))"
| call_lock_again: "s_pc s c = Ret e \<Longrightarrow>
     lock_step s (goto s c Out)"
| call_lock_nested: "s_pc s c = Crit e \<Longrightarrow>
     lock_step s (goto s c (LDisable (Nested e) (s_intr s c)))"
| lock_disable: "s_pc s c = LDisable n i \<Longrightarrow>
     lock_step s (goto (set_intr s c False) c (LTas n i))"
| lock_tas_free: "s_pc s c = LTas n i \<Longrightarrow> \<not> s_locked s \<Longrightarrow>
     lock_step s (goto (s\<lparr>s_locked := True\<rparr>) c (LSetId i))"
| lock_tas_held: "s_pc s c = LTas n i \<Longrightarrow> s_locked s \<Longrightarrow>
     lock_step s (goto s c (LCheck n i))"
| lock_check_other: "s_pc s c = LCheck n i \<Longrightarrow> s_core_id s \<noteq> c \<Longrightarrow>
     lock_step s (goto s c (LTas n i))"
| lock_check_own_nested: "s_pc s c = LCheck (Nested e) i \<Longrightarrow> s_core_id s = c \<Longrightarrow>
     lock_step s (goto (if i then set_intr s c True else s) c (Crit e))"
| lock_check_own_plain: "s_pc s c = LCheck Plain i \<Longrightarrow> s_core_id s = c \<Longrightarrow>
     lock_step s (goto (if i then set_intr s c True else s) c Out)"
| lock_set_id: "s_pc s c = LSetId i \<Longrightarrow>
     lock_step s (goto (s\<lparr>s_core_id := c\<rparr>) c (LSetSaved i))"
| lock_set_saved: "s_pc s c = LSetSaved i \<Longrightarrow>
     lock_step s (goto (s\<lparr>s_saved := i\<rparr>) c (Crit i))"
| unlock_check: "s_pc s c = Crit e \<Longrightarrow> s_locked s \<Longrightarrow> s_core_id s = c \<Longrightarrow>
     lock_step s (goto s c (UResetId e))"
| unlock_not_owned: "s_pc s c = Out \<Longrightarrow> \<not> (s_locked s \<and> s_core_id s = c) \<Longrightarrow>
     lock_step s s"
| unlock_reset_id: "s_pc s c = UResetId e \<Longrightarrow>
     lock_step s (goto (s\<lparr>s_core_id := no_core\<rparr>) c (UClear e))"
| unlock_clear: "s_pc s c = UClear e \<Longrightarrow>
     lock_step s (goto (s\<lparr>s_locked := False\<rparr>) c (UReadSaved e))"
| unlock_restore: "s_pc s c = UReadSaved e \<Longrightarrow>
     lock_step s (goto (if s_saved s then set_intr s c True else s) c (Ret e))"

inductive lock_reachable :: "(size_t \<Rightarrow> bool) \<Rightarrow> lock_sys \<Rightarrow> bool" for ie where
  lock_start: "lock_reachable ie (lock_sys_init ie)"
| lock_next: "lock_reachable ie s \<Longrightarrow> lock_step s t \<Longrightarrow> lock_reachable ie t"

text \<open>A core owns the lock from its successful \<open>test_and_set\<close> to its \<open>clear\<close>.\<close>

fun owns :: "lock_pc \<Rightarrow> bool" where
  "owns (LDisable n i) \<longleftrightarrow> n \<noteq> Plain"
| "owns (LTas n i) \<longleftrightarrow> n \<noteq> Plain"
| "owns (LCheck n i) \<longleftrightarrow> n \<noteq> Plain"
| "owns (LSetId i) \<longleftrightarrow> True"
| "owns (LSetSaved i) \<longleftrightarrow> True"
| "owns (Crit e) \<longleftrightarrow> True"
| "owns (UResetId e) \<longleftrightarrow> True"
| "owns (UClear e) \<longleftrightarrow> True"
| "owns p \<longleftrightarrow> False"

text \<open>The owner whose identity \<open>core_id_\<close> shows.\<close>

fun published :: "lock_pc \<Rightarrow> bool" where
  "published (LSetId i) \<longleftrightarrow> False"
| "published (UClear e) \<longleftrightarrow> False"
| "published p \<longleftrightarrow> owns p"

text \<open>
  The invariant, for the core that owns the lock (if any): exactly that core is between
  its acquisition and its \<open>clear\<close>, and \<open>core_id_\<close> shows it, except in the two windows
  in which it is not yet, or no longer, published.
\<close>

definition lock_inv :: "size_t option \<Rightarrow> lock_sys \<Rightarrow> bool" where
  "lock_inv ow s \<longleftrightarrow>
     s_locked s = (ow \<noteq> None) \<and>
     (\<forall>c. owns (s_pc s c) = (ow = Some c)) \<and>
     s_core_id s = (case ow of None \<Rightarrow> no_core
                    | Some c \<Rightarrow> if published (s_pc s c) then c else no_core) \<and>
     (\<forall>c. s_pc s c \<noteq> Out \<longrightarrow> c \<noteq> no_core)"

inductive_cases lock_step_elim: "lock_step s t"

lemma goto_simps [simp]:
  "s_pc (goto s c p) = (s_pc s)(c := p)"
  "s_locked (goto s c p) = s_locked s" "s_core_id (goto s c p) = s_core_id s"
  "s_saved (goto s c p) = s_saved s" "s_intr (goto s c p) = s_intr s"
  by (simp_all add: goto_def)

lemma set_intr_simps [simp]:
  "s_pc (set_intr s c b) = s_pc s" "s_locked (set_intr s c b) = s_locked s"
  "s_core_id (set_intr s c b) = s_core_id s" "s_saved (set_intr s c b) = s_saved s"
  "s_intr (set_intr s c b) = (s_intr s)(c := b)"
  by (simp_all add: set_intr_def)

lemma published_owns: "published p \<Longrightarrow> owns p"
  by (cases p) auto

lemma lock_inv_init: "lock_inv None (lock_sys_init ie)"
  by (simp add: lock_inv_def lock_sys_init_def)

lemma lock_inv_set_intr [simp]: "lock_inv ow (set_intr s c b) = lock_inv ow s"
  by (simp add: lock_inv_def cong: option.case_cong)

lemma lock_invD:
  assumes "lock_inv ow s"
  shows "owns (s_pc s c) = (ow = Some c)" and "s_locked s = (ow \<noteq> None)"
    and "s_pc s c \<noteq> Out \<Longrightarrow> c \<noteq> no_core"
    and "ow = Some c \<Longrightarrow> s_core_id s = (if published (s_pc s c) then c else no_core)"
    and "ow = None \<Longrightarrow> s_core_id s = no_core"
  using assms by (auto simp: lock_inv_def)

text \<open>A step that moves one core without acquiring, releasing, publishing or hiding.\<close>

lemma lock_inv_goto:
  assumes "lock_inv ow s" and "owns p = owns (s_pc s c)"
    and "published p = published (s_pc s c)" and "c \<noteq> no_core"
  shows "lock_inv ow (goto s c p)"
  using assms by (auto simp: lock_inv_def split: option.splits)

lemma lock_inv_acquire:
  assumes "lock_inv ow s" and "\<not> s_locked s" and "c \<noteq> no_core"
  shows "lock_inv (Some c) (goto (s\<lparr>s_locked := True\<rparr>) c (LSetId i))"
  using assms by (auto simp: lock_inv_def)

lemma lock_inv_publish:
  assumes "lock_inv (Some c) s" and "c \<noteq> no_core"
  shows "lock_inv (Some c) (goto (s\<lparr>s_core_id := c\<rparr>) c (LSetSaved i))"
  using assms by (auto simp: lock_inv_def)

lemma lock_inv_hide:
  assumes "lock_inv (Some c) s" and "c \<noteq> no_core"
  shows "lock_inv (Some c) (goto (s\<lparr>s_core_id := no_core\<rparr>) c (UClear e))"
  using assms by (auto simp: lock_inv_def)

lemma lock_inv_release:
  assumes "lock_inv (Some c) s" and "s_pc s c = UClear e"
  shows "lock_inv None (goto (s\<lparr>s_locked := False\<rparr>) c (UReadSaved e))"
  using assms by (auto simp: lock_inv_def)

lemma lock_inv_set_saved: "lock_inv ow (s\<lparr>s_saved := b\<rparr>) = lock_inv ow s"
  by (simp add: lock_inv_def cong: option.case_cong)

text \<open>A core at \<open>LCheck\<close> sees its own number exactly when it already owns the lock.\<close>

lemma lock_inv_check:
  assumes "lock_inv ow s" and "s_pc s c = LCheck n i"
  shows "s_core_id s = c \<longleftrightarrow> n \<noteq> Plain"
proof -
  have c: "c \<noteq> no_core" and o: "(n \<noteq> Plain) = (ow = Some c)"
    using lock_invD(1,3) [OF assms(1), of c] assms(2) by simp_all
  show ?thesis
  proof (cases ow)
    case None
    with c o show ?thesis using lock_invD(5) [OF assms(1)] by simp
  next
    case (Some d)
    with c o show ?thesis
      using lock_invD(4) [OF assms(1), of d] assms(2) by (auto split: if_splits)
  qed
qed

lemma lock_step_inv:
  assumes "lock_step s t" and inv: "lock_inv ow s"
  shows "\<exists>ow'. lock_inv ow' t"
  using assms(1)
proof cases
  case (lock_tas_free c n i)
  then show ?thesis using lock_inv_acquire [OF inv, of c] lock_invD(3) [OF inv, of c] by auto
next
  case (lock_set_id c i)
  with lock_invD(1) [OF inv, of c] have "ow = Some c" by simp
  with lock_set_id inv lock_invD(3) [OF inv, of c] show ?thesis
    by (auto intro: lock_inv_publish)
next
  case (unlock_reset_id c e)
  with lock_invD(1) [OF inv, of c] have "ow = Some c" by simp
  with unlock_reset_id inv lock_invD(3) [OF inv, of c] show ?thesis
    by (auto intro: lock_inv_hide)
next
  case (unlock_clear c e)
  with lock_invD(1) [OF inv, of c] have "ow = Some c" by simp
  with unlock_clear inv show ?thesis by (auto intro: lock_inv_release)
next
  case (lock_check_own_plain c i)
  with lock_inv_check [OF inv, of c] show ?thesis by simp
next
  case (lock_set_saved c i)
  then have "lock_inv ow (goto (s\<lparr>s_saved := i\<rparr>) c (Crit i))"
    using inv lock_invD(3) [OF inv, of c]
    by (intro lock_inv_goto) (simp_all add: lock_inv_set_saved)
  with lock_set_saved show ?thesis by blast
next
  case (call_lock_again c e)
  then show ?thesis
    using inv lock_invD(3) [OF inv, of c] lock_inv_goto [OF inv, of Out c] by auto
next
  case (unlock_not_owned c)
  with inv show ?thesis by auto
qed (use inv lock_invD(3) [OF inv, of no_core] in
     \<open>auto intro!: exI [of _ ow] lock_inv_goto\<close>)

lemma lock_reachable_inv: "lock_reachable ie s \<Longrightarrow> \<exists>ow. lock_inv ow s"
  by (induction rule: lock_reachable.induct) (auto intro: lock_inv_init dest: lock_step_inv)

text \<open>Runs of one core, used to exhibit reachable states.\<close>

lemma lock_run_acquire:
  assumes "lock_reachable ie s" and "s_pc s c = Out" and "\<not> s_locked s" and "c \<noteq> no_core"
  shows "lock_reachable ie (s\<lparr>s_intr := (s_intr s)(c := False), s_locked := True, s_core_id := c,
           s_saved := s_intr s c, s_pc := (s_pc s)(c := Crit (s_intr s c))\<rparr>)"
proof -
  let ?i = "s_intr s c"
  let ?s1 = "goto s c (LDisable Plain ?i)"
  let ?s2 = "goto (set_intr ?s1 c False) c (LTas Plain ?i)"
  let ?s3 = "goto (?s2\<lparr>s_locked := True\<rparr>) c (LSetId ?i)"
  let ?s4 = "goto (?s3\<lparr>s_core_id := c\<rparr>) c (LSetSaved ?i)"
  let ?s5 = "goto (?s4\<lparr>s_saved := ?i\<rparr>) c (Crit ?i)"
  have "lock_step s ?s1" using assms by (intro lock_step.call_lock)
  moreover have "lock_step ?s1 ?s2" by (rule lock_step.lock_disable) simp
  moreover have "lock_step ?s2 ?s3" by (rule lock_step.lock_tas_free) (simp_all add: assms(3))
  moreover have "lock_step ?s3 ?s4" by (rule lock_step.lock_set_id) simp
  moreover have "lock_step ?s4 ?s5" by (rule lock_step.lock_set_saved) simp
  ultimately have "lock_reachable ie ?s5"
    by (elim lock_reachable.lock_next [rotated]) (rule assms(1))
  then show ?thesis by (simp add: goto_def set_intr_def)
qed

lemma lock_run_release:
  assumes "lock_reachable ie s" and "s_pc s c = Crit e" and "s_locked s" and "s_core_id s = c"
  shows "lock_reachable ie (s\<lparr>s_core_id := no_core, s_locked := False,
           s_pc := (s_pc s)(c := UReadSaved e)\<rparr>)"
proof -
  let ?s1 = "goto s c (UResetId e)"
  let ?s2 = "goto (?s1\<lparr>s_core_id := no_core\<rparr>) c (UClear e)"
  let ?s3 = "goto (?s2\<lparr>s_locked := False\<rparr>) c (UReadSaved e)"
  have "lock_step s ?s1" using assms by (intro lock_step.unlock_check)
  moreover have "lock_step ?s1 ?s2" by (rule lock_step.unlock_reset_id) simp
  moreover have "lock_step ?s2 ?s3" by (rule lock_step.unlock_clear) simp
  ultimately have "lock_reachable ie ?s3"
    by (elim lock_reachable.lock_next [rotated]) (rule assms(1))
  then show ?thesis by (simp add: goto_def set_intr_def)
qed

text \<open>Core 0 has acquired the lock, with its interrupts enabled before.\<close>

definition held_by_0 :: lock_sys where
  "held_by_0 = \<lparr>s_locked = True, s_core_id = 0, s_saved = True,
     s_pc = (\<lambda>_. Out)(0 := Crit True), s_intr = (\<lambda>c. c = 0)(0 := False)\<rparr>"

lemma held_by_0_reachable: "lock_reachable (\<lambda>c. c = 0) held_by_0"
  using lock_run_acquire [OF lock_reachable.lock_start, of "\<lambda>c. c = 0" 0]
  by (simp add: held_by_0_def lock_sys_init_def no_core_def)



text \<open>
  Recursion is detected exactly. Whenever a core reaches the comparison of
  \<open>core_id_\<close> with its own number after a failed \<open>test_and_set\<close>, the comparison
  succeeds if and only if this core already owns the lock: a core that owns it never spins
  on itself, and a core that does not is never turned away with
  \<open>kSpinLockRecursiveLock\<close>.
\<close>

theorem spinlock_recursion_exact:
  assumes "lock_reachable ie s" and "s_pc s c = LCheck n i"
  shows "s_core_id s = c \<longleftrightarrow> n \<noteq> Plain"
  using lock_reachable_inv [OF assms(1)] lock_inv_check [OF _ assms(2)] by blast

definition recursing_0 :: lock_sys where
  "recursing_0 = held_by_0\<lparr>s_pc := (\<lambda>_. Out)(0 := LCheck (Nested True) False)\<rparr>"

lemma recursing_0_reachable: "lock_reachable (\<lambda>c. c = 0) recursing_0"
proof -
  let ?s1 = "goto held_by_0 0 (LDisable (Nested True) (s_intr held_by_0 0))"
  let ?s2 = "goto (set_intr ?s1 0 False) 0 (LTas (Nested True) (s_intr held_by_0 0))"
  let ?s3 = "goto ?s2 0 (LCheck (Nested True) (s_intr held_by_0 0))"
  have "lock_step held_by_0 ?s1" by (rule lock_step.call_lock_nested) (simp add: held_by_0_def)
  moreover have "lock_step ?s1 ?s2" by (rule lock_step.lock_disable) simp
  moreover have "lock_step ?s2 ?s3"
    by (rule lock_step.lock_tas_held) (simp_all add: held_by_0_def)
  ultimately have "lock_reachable (\<lambda>c. c = 0) ?s3"
    by (elim lock_reachable.lock_next [rotated]) (rule held_by_0_reachable)
  moreover have "?s3 = recursing_0"
    by (simp add: goto_def set_intr_def held_by_0_def recursing_0_def fun_eq_iff)
  ultimately show ?thesis by simp
qed

theorem spinlock_recursion_exact_witness:
  "lock_reachable (\<lambda>c. c = 0) recursing_0 \<and> s_core_id recursing_0 = 0"
proof -
  have p: "s_pc recursing_0 0 = LCheck (Nested True) False" by (simp add: recursing_0_def)
  show ?thesis
    using recursing_0_reachable spinlock_recursion_exact [OF recursing_0_reachable p] by simp
qed

text \<open>
  \<open>UnLock\<close> may fail to restore the interrupt state. It reads \<open>saved_intr_enable_\<close>
  after \<open>locked_.clear()\<close>, when another core may already have acquired the lock and
  overwritten the field: a state is reachable in which core 0 has returned from
  \<open>UnLock\<close>, had interrupts enabled when it called \<open>Lock\<close>, and has them disabled.
\<close>

theorem spinlock_unlock_loses_interrupts:
  "\<exists>s. lock_reachable (\<lambda>c. c = 0) s \<and> s_pc s 0 = Ret True \<and> \<not> s_intr s 0"
proof -
  let ?s1 = "held_by_0\<lparr>s_core_id := no_core, s_locked := False,
               s_pc := (s_pc held_by_0)(0 := UReadSaved True)\<rparr>"
  let ?s2 = "?s1\<lparr>s_intr := (s_intr ?s1)(1 := False), s_locked := True, s_core_id := 1,
               s_saved := s_intr ?s1 1, s_pc := (s_pc ?s1)(1 := Crit (s_intr ?s1 1))\<rparr>"
  let ?s3 = "goto (if s_saved ?s2 then set_intr ?s2 0 True else ?s2) 0 (Ret True)"
  have "lock_reachable (\<lambda>c. c = 0) ?s1"
    by (rule lock_run_release [OF held_by_0_reachable]) (simp_all add: held_by_0_def)
  then have "lock_reachable (\<lambda>c. c = 0) ?s2"
    by (rule lock_run_acquire) (simp_all add: held_by_0_def no_core_def)
  moreover have "lock_step ?s2 ?s3"
    by (rule lock_step.unlock_restore) (simp add: held_by_0_def)
  ultimately have "lock_reachable (\<lambda>c. c = 0) ?s3" by (rule lock_reachable.lock_next)
  moreover have "s_pc ?s3 0 = Ret True \<and> \<not> s_intr ?s3 0" by (simp add: held_by_0_def)
  ultimately show ?thesis by blast
qed

lemma LockGuard_ctor_Done_iff [outcome_simps]:
  "LockGuard_ctor core intr l = Done (intr', l') \<longleftrightarrow>
     \<not> sl_locked l \<and> \<not> intr' \<and>
     l' = l\<lparr>sl_locked := True, sl_core_id := core, sl_saved_intr_enable := intr\<rparr>"
  by (auto simp: LockGuard_ctor_def SpinLock_Lock_def)

lemma LockGuard_ctor_free [simp]:
  "\<not> sl_locked l \<Longrightarrow> LockGuard_ctor core intr l =
     Done (False, l\<lparr>sl_locked := True, sl_core_id := core, sl_saved_intr_enable := intr\<rparr>)"
  by (simp add: LockGuard_ctor_def SpinLock_Lock_def)

lemma LockGuard_ctor_own [simp]:
  "sl_locked l \<Longrightarrow> sl_core_id l = core \<Longrightarrow> LockGuard_ctor core intr l = Fault LockGuardHang"
  by (simp add: LockGuard_ctor_def SpinLock_Lock_def)

lemma LockGuard_dtor_held [simp]:
  "sl_locked l \<Longrightarrow> sl_core_id l = core \<Longrightarrow> LockGuard_dtor core intr l =
     (if sl_saved_intr_enable l then True else intr,
      l\<lparr>sl_core_id := no_core, sl_locked := False\<rparr>)"
  by (simp add: LockGuard_dtor_def SpinLock_UnLock_def IsLockedByCurrentCore_def)

end
