(* ===== verification/Nk_Unordered_Map.thy ===== *)
theory Nk_Unordered_Map
  imports NK_Prelude
begin

text \<open>
  \<open>nk_std::unordered_map\<close> (\<open>src/src/libcxx/include/nk_unordered_map\<close>): an array of
  singly linked chains. A chain is the list of its nodes' pairs; a new node goes to the head
  of its chain; the table doubles when it holds more nodes than buckets. The hash function is
  an argument (\<open>std::hash\<close> of the key type). Allocation of nodes is taken to succeed, as
  the source dereferences the result without a check.

  The locale \<open>table\<close> is the contract the task manager relies on; it is interpreted on the
  chained table at the end.
\<close>

record ('k, 'v) umap =
  um_buckets :: "('k \<times> 'v) list list"
  um_size :: nat

definition kDefaultBucketCount :: nat where "kDefaultBucketCount = 16"

definition kMaxLoadFactor :: nat where "kMaxLoadFactor = 1"

definition um_bucket_count :: "('k, 'v) umap \<Rightarrow> nat" where
  "um_bucket_count m = length (um_buckets m)"

definition bucket_index :: "('k \<Rightarrow> nat) \<Rightarrow> ('k, 'v) umap \<Rightarrow> 'k \<Rightarrow> nat" where
  "bucket_index h m k = h k mod um_bucket_count m"

text \<open>The inner step of \<open>rehash\<close>: a node moves to the head of its new chain.\<close>

definition relink :: "('k \<Rightarrow> nat) \<Rightarrow> nat \<Rightarrow> ('k \<times> 'v) list list \<Rightarrow> 'k \<times> 'v \<Rightarrow> ('k \<times> 'v) list list" where
  "relink h cnt bs node =
     (let new_idx = h (fst node) mod cnt in bs[new_idx := node # bs ! new_idx])"

definition um_rehash :: "('k \<Rightarrow> nat) \<Rightarrow> nat \<Rightarrow> ('k, 'v) umap \<Rightarrow> ('k, 'v) umap" where
  "um_rehash h cnt m =
     (let cnt = (if cnt = 0 then kDefaultBucketCount else cnt)
      in m\<lparr>um_buckets := foldl (relink h cnt) (replicate cnt []) (concat (um_buckets m))\<rparr>)"

definition um_new :: "('k \<Rightarrow> nat) \<Rightarrow> ('k, 'v) umap" where
  "um_new h = um_rehash h kDefaultBucketCount \<lparr>um_buckets = [], um_size = 0\<rparr>"

definition um_find :: "('k \<Rightarrow> nat) \<Rightarrow> ('k, 'v) umap \<Rightarrow> 'k \<Rightarrow> 'v option" where
  "um_find h m k = map_of (um_buckets m ! bucket_index h m k) k"

definition um_empty :: "('k, 'v) umap \<Rightarrow> bool" where
  "um_empty m \<longleftrightarrow> um_size m = 0"

definition um_clear :: "('k, 'v) umap \<Rightarrow> ('k, 'v) umap" where
  "um_clear m = m\<lparr>um_buckets := replicate (um_bucket_count m) [], um_size := 0\<rparr>"

definition um_insert :: "('k \<Rightarrow> nat) \<Rightarrow> ('k, 'v) umap \<Rightarrow> 'k \<Rightarrow> 'v \<Rightarrow> ('k, 'v) umap" where
  "um_insert h m k v =
     (let i = bucket_index h m k in
      if um_find h m k \<noteq> None then m
      else let m' = m\<lparr>um_buckets := (um_buckets m)[i := (k, v) # um_buckets m ! i],
                      um_size := um_size m + 1\<rparr>
           in if um_size m' > um_bucket_count m' * kMaxLoadFactor
              then um_rehash h (um_bucket_count m' * 2) m' else m')"

fun erase_first :: "'k \<Rightarrow> ('k \<times> 'v) list \<Rightarrow> ('k \<times> 'v) list" where
  "erase_first k [] = []"
| "erase_first k (n # ns) = (if fst n = k then ns else n # erase_first k ns)"

text \<open>\<open>erase\<close> returns the number of removed nodes.\<close>

definition um_erase :: "('k \<Rightarrow> nat) \<Rightarrow> ('k, 'v) umap \<Rightarrow> 'k \<Rightarrow> ('k, 'v) umap \<times> nat" where
  "um_erase h m k =
     (let i = bucket_index h m k in
      if um_find h m k \<noteq> None
      then (m\<lparr>um_buckets := (um_buckets m)[i := erase_first k (um_buckets m ! i)],
             um_size := um_size m - 1\<rparr>, 1)
      else (m, 0))"

fun update_first :: "'k \<Rightarrow> ('v \<Rightarrow> 'v) \<Rightarrow> ('k \<times> 'v) list \<Rightarrow> ('k \<times> 'v) list" where
  "update_first k f [] = []"
| "update_first k f (n # ns) = (if fst n = k then (k, f (snd n)) # ns else n # update_first k f ns)"

text \<open>A write through the reference \<open>it->second\<close> of the node that \<open>find\<close> returns.\<close>

definition um_write :: "('k \<Rightarrow> nat) \<Rightarrow> ('k, 'v) umap \<Rightarrow> 'k \<Rightarrow> ('v \<Rightarrow> 'v) \<Rightarrow> ('k, 'v) umap" where
  "um_write h m k f =
     (let i = bucket_index h m k
      in m\<lparr>um_buckets := (um_buckets m)[i := update_first k f (um_buckets m ! i)]\<rparr>)"

text \<open>
  \<open>operator[]\<close> followed by an update \<open>f\<close> of the reference it returns; \<open>d\<close> is the
  default value \<open>Value()\<close> that a missing key gets.
\<close>

definition um_index :: "('k \<Rightarrow> nat) \<Rightarrow> 'v \<Rightarrow> ('k, 'v) umap \<Rightarrow> 'k \<Rightarrow> ('v \<Rightarrow> 'v) \<Rightarrow> ('k, 'v) umap" where
  "um_index h d m k f =
     um_write h (if um_find h m k \<noteq> None then m else um_insert h m k d) k f"

text \<open>The order in which \<open>begin\<close> and \<open>operator++\<close> visit the nodes.\<close>

definition um_entries :: "('k, 'v) umap \<Rightarrow> ('k \<times> 'v) list" where
  "um_entries m = concat (um_buckets m)"

subsection \<open>Chains\<close>

definition um_placed :: "('k \<Rightarrow> nat) \<Rightarrow> ('k \<times> 'v) list list \<Rightarrow> bool" where
  "um_placed h bs \<longleftrightarrow> (\<forall>i<length bs. \<forall>n\<in>set (bs ! i). h (fst n) mod length bs = i)"

definition um_inv :: "('k \<Rightarrow> nat) \<Rightarrow> ('k, 'v) umap \<Rightarrow> bool" where
  "um_inv h m \<longleftrightarrow>
     um_buckets m \<noteq> [] \<and> um_placed h (um_buckets m) \<and>
     distinct (map fst (um_entries m)) \<and> um_size m = length (um_entries m)"

lemma um_invI:
  assumes "um_buckets m \<noteq> []" "um_placed h (um_buckets m)"
    and "distinct (map fst (um_entries m))" "um_size m = length (um_entries m)"
  shows "um_inv h m"
  using assms by (simp add: um_inv_def)

lemma um_invD:
  assumes "um_inv h m"
  shows "um_buckets m \<noteq> []" "um_placed h (um_buckets m)" "distinct (map fst (um_entries m))"
    and "um_size m = length (um_entries m)"
  using assms by (simp_all add: um_inv_def)

lemma mset_concat_update:
  assumes "i < length bs"
  shows "mset (concat (bs[i := ys])) + mset (bs ! i) = mset (concat bs) + mset ys"
  using assms
proof (induction bs arbitrary: i)
  case (Cons b bs)
  then show ?case by (cases i) (simp_all add: ac_simps)
qed simp

lemma mset_relink:
  assumes "length bs = cnt" "0 < cnt"
  shows "mset (concat (relink h cnt bs n)) = add_mset n (mset (concat bs))"
  using mset_concat_update [of "h (fst n) mod cnt" bs "n # bs ! (h (fst n) mod cnt)"] assms
  by (simp add: relink_def Let_def)

lemma length_relink [simp]: "length (relink h cnt bs n) = length bs"
  by (simp add: relink_def Let_def)

lemma um_placed_update:
  assumes "um_placed h bs" "\<And>n. n \<in> set ys \<Longrightarrow> h (fst n) mod length bs = i" "i < length bs"
  shows "um_placed h (bs[i := ys])"
  unfolding um_placed_def
proof (intro allI impI ballI)
  fix j n
  assume j: "j < length (bs[i := ys])" and n: "n \<in> set (bs[i := ys] ! j)"
  show "h (fst n) mod length (bs[i := ys]) = j"
  proof (cases "j = i")
    case True
    with n assms(2) [of n] assms(3) show ?thesis by simp
  next
    case False
    with n j assms(1) show ?thesis by (simp add: um_placed_def)
  qed
qed

lemma placed_relink:
  assumes "um_placed h bs" "length bs = cnt" "0 < cnt"
  shows "um_placed h (relink h cnt bs n)"
proof -
  have "h (fst n) mod cnt < length bs" using assms by simp
  moreover have "h (fst x) mod length bs = h (fst n) mod cnt"
    if "x \<in> set (n # bs ! (h (fst n) mod cnt))" for x
    using that assms(1,2) calculation unfolding um_placed_def by (cases "x = n") simp_all
  ultimately show ?thesis
    unfolding relink_def Let_def using assms(1) by (intro um_placed_update)
qed

lemma foldl_relink:
  assumes "um_placed h bs" "length bs = cnt" "0 < cnt"
  shows "um_placed h (foldl (relink h cnt) bs ns) \<and>
         length (foldl (relink h cnt) bs ns) = cnt \<and>
         mset (concat (foldl (relink h cnt) bs ns)) = mset (concat bs) + mset ns"
  using assms
proof (induction ns arbitrary: bs)
  case (Cons n ns)
  then show ?case by (simp add: placed_relink mset_relink)
qed simp

lemma um_placed_replicate [simp]: "um_placed h (replicate n [])"
  by (simp add: um_placed_def)

lemma concat_replicate_Nil [simp]: "concat (replicate n []) = []"
  by (induction n) simp_all

lemma um_rehash_mset: "mset (um_entries (um_rehash h cnt m)) = mset (um_entries m)"
  using foldl_relink [of h "replicate (if cnt = 0 then kDefaultBucketCount else cnt) []" _
      "concat (um_buckets m)"]
  by (simp add: um_rehash_def um_entries_def Let_def kDefaultBucketCount_def)

lemma um_rehash_placed: "um_placed h (um_buckets (um_rehash h cnt m))"
  using foldl_relink [of h "replicate (if cnt = 0 then kDefaultBucketCount else cnt) []" _
      "concat (um_buckets m)"]
  by (simp add: um_rehash_def um_entries_def Let_def kDefaultBucketCount_def)

lemma um_rehash_count:
  "um_bucket_count (um_rehash h cnt m) = (if cnt = 0 then kDefaultBucketCount else cnt)"
  using foldl_relink [of h "replicate (if cnt = 0 then kDefaultBucketCount else cnt) []" _
      "concat (um_buckets m)"]
  by (simp add: um_rehash_def um_bucket_count_def Let_def kDefaultBucketCount_def)

lemma um_inv_mset:
  assumes "um_buckets m' \<noteq> []" "um_placed h (um_buckets m')"
    and "mset (um_entries m') = mset ns" "distinct (map fst ns)" "um_size m' = length ns"
  shows "um_inv h m'"
proof (rule um_invI)
  have "mset (map fst (um_entries m')) = mset (map fst ns)" using assms(3) by simp
  then show "distinct (map fst (um_entries m'))" using assms(4) mset_eq_imp_distinct_iff by blast
  show "um_size m' = length (um_entries m')" using mset_eq_length [OF assms(3)] assms(5) by simp
qed (rule assms(1,2))+

lemma um_size_rehash [simp]: "um_size (um_rehash h cnt m) = um_size m"
  by (simp add: um_rehash_def Let_def)

lemma um_inv_rehash:
  assumes "distinct (map fst (um_entries m))" "um_size m = length (um_entries m)"
  shows "um_inv h (um_rehash h cnt m)"
proof (rule um_inv_mset)
  have "um_bucket_count (um_rehash h cnt m) \<noteq> 0"
    unfolding um_rehash_count kDefaultBucketCount_def by simp
  then show "um_buckets (um_rehash h cnt m) \<noteq> []" unfolding um_bucket_count_def by simp
  show "um_placed h (um_buckets (um_rehash h cnt m))" by (rule um_rehash_placed)
  show "mset (um_entries (um_rehash h cnt m)) = mset (um_entries m)" by (rule um_rehash_mset)
  show "distinct (map fst (um_entries m))" by (rule assms(1))
  show "um_size (um_rehash h cnt m) = length (um_entries m)" using assms(2) by simp
qed

subsection \<open>Lookup and the entries\<close>

lemma um_inv_index:
  assumes "um_inv h m"
  shows "bucket_index h m k < length (um_buckets m)"
  using assms by (simp add: um_inv_def bucket_index_def um_bucket_count_def)

lemma um_inv_chain:
  assumes "um_inv h m" "i < length (um_buckets m)"
  shows "distinct (map fst (um_buckets m ! i))"
proof -
  have "distinct (concat (map (map fst) (um_buckets m)))"
    using assms(1) by (simp add: um_inv_def um_entries_def map_concat)
  moreover have "map fst (um_buckets m ! i) \<in> set (map (map fst) (um_buckets m))"
    using assms(2) by simp
  ultimately show ?thesis by (simp add: distinct_concat_iff)
qed

lemma um_entries_chain:
  assumes "um_inv h m"
  shows "(k, v) \<in> set (um_entries m) \<longleftrightarrow> (k, v) \<in> set (um_buckets m ! bucket_index h m k)"
proof
  assume "(k, v) \<in> set (um_entries m)"
  then obtain i where i: "i < length (um_buckets m)" "(k, v) \<in> set (um_buckets m ! i)"
    by (auto simp: um_entries_def in_set_conv_nth [of _ "um_buckets m"])
  with um_invD(2) [OF assms] have "h (fst (k, v)) mod length (um_buckets m) = i"
    unfolding um_placed_def by blast
  with i show "(k, v) \<in> set (um_buckets m ! bucket_index h m k)"
    by (simp add: bucket_index_def um_bucket_count_def)
next
  assume "(k, v) \<in> set (um_buckets m ! bucket_index h m k)"
  then show "(k, v) \<in> set (um_entries m)"
    using nth_mem [OF um_inv_index [OF assms, of k]] by (auto simp: um_entries_def)
qed

lemma um_find_Some_iff:
  assumes "um_inv h m"
  shows "um_find h m k = Some v \<longleftrightarrow> (k, v) \<in> set (um_entries m)"
  using um_inv_chain [OF assms um_inv_index [OF assms]] by (simp add: um_find_def um_entries_chain [OF assms])

lemma um_find_None_iff:
  assumes "um_inv h m"
  shows "um_find h m k = None \<longleftrightarrow> k \<notin> fst ` set (um_entries m)"
proof (cases "um_find h m k")
  case None
  then have "(k, v) \<notin> set (um_entries m)" for v using um_find_Some_iff [OF assms, of k v] by simp
  with None show ?thesis by auto
next
  case (Some v)
  then have "(k, v) \<in> set (um_entries m)" using um_find_Some_iff [OF assms] by simp
  from imageI [OF this, of fst] Some show ?thesis by simp
qed

lemma um_find_eqI:
  assumes "um_inv h m" "\<And>v. (k, v) \<in> set (um_entries m) \<longleftrightarrow> r = Some v"
  shows "um_find h m k = r"
proof (cases "um_find h m k")
  case None
  then have "r \<noteq> Some v" for v using um_find_Some_iff [OF assms(1), of k v] assms(2) [of v] by simp
  then have "r = None" by (cases r) blast+
  with None show ?thesis by simp
next
  case (Some v)
  then show ?thesis using um_find_Some_iff [OF assms(1), of k v] assms(2) [of v] by simp
qed

text \<open>Replacing the chain of a key: what becomes of the table when the new chain has \<open>ns\<close> instead.\<close>

lemma um_chain_update:
  assumes inv: "um_inv h m" and i: "i = bucket_index h m k"
    and ys: "mset ys + X = mset (um_buckets m ! i) + Y"
    and pl: "\<And>n. n \<in># mset ys \<Longrightarrow> n \<in> set (um_buckets m ! i) \<or> fst n = k"
    and m': "um_buckets m' = (um_buckets m)[i := ys]"
  shows "mset (um_entries m') + X = mset (um_entries m) + Y"
    and "um_placed h (um_buckets m')" and "um_buckets m' \<noteq> []"
proof -
  have il: "i < length (um_buckets m)" using um_inv_index [OF inv] i by simp
  have "mset (um_entries m') + mset (um_buckets m ! i) = mset (um_entries m) + mset ys"
    using mset_concat_update [OF il, of ys] by (simp add: um_entries_def m')
  then have "mset (um_entries m') + X + mset (um_buckets m ! i) = mset (um_entries m) + (mset ys + X)"
    by (metis union_assoc union_commute)
  also have "\<dots> = mset (um_entries m) + Y + mset (um_buckets m ! i)"
    unfolding ys by (metis union_assoc union_commute)
  finally show "mset (um_entries m') + X = mset (um_entries m) + Y" by simp
  have "um_placed h (um_buckets m)" using inv by (simp add: um_inv_def)
  moreover have "h (fst n) mod length (um_buckets m) = i" if "n \<in> set ys" for n
    using pl [of n] that calculation il i
    by (auto simp: um_placed_def bucket_index_def um_bucket_count_def)
  ultimately show "um_placed h (um_buckets m')" unfolding m' using il by (intro um_placed_update)
  show "um_buckets m' \<noteq> []" using inv by (simp add: m' um_inv_def)
qed

subsection \<open>The operations\<close>

lemma um_new_correct: "um_inv h (um_new h)" "um_entries (um_new h) = []"
proof -
  show "um_inv h (um_new h)" unfolding um_new_def by (rule um_inv_rehash) (simp_all add: um_entries_def)
  have "mset (um_entries (um_new h)) = {#}"
    unfolding um_new_def um_rehash_mset by (simp add: um_entries_def)
  then show "um_entries (um_new h) = []" by simp
qed

lemma um_insert_mset:
  assumes "um_inv h m" "um_find h m k = None"
  shows "um_inv h (um_insert h m k v)"
    and "mset (um_entries (um_insert h m k v)) = add_mset (k, v) (mset (um_entries m))"
proof -
  define i where "i = bucket_index h m k"
  define b where "b = um_buckets m ! i"
  define m' where "m' = m\<lparr>um_buckets := (um_buckets m)[i := (k, v) # b], um_size := um_size m + 1\<rparr>"
  have "mset ((k, v) # b) + {#} = mset b + {# (k, v) #}" by simp
  note c = um_chain_update [OF assms(1) i_def, folded b_def, OF this, of m']
  have m': "um_buckets m' = (um_buckets m)[i := (k, v) # b]" "um_size m' = um_size m + 1"
    by (simp_all add: m'_def)
  have n: "n \<in> set b \<or> fst n = k" if "n \<in># mset ((k, v) # b)" for n using that by auto
  have u: "mset (um_entries m') = mset ((k, v) # um_entries m)"
    using c(1) [OF n m'(1)] by simp
  have "distinct (map fst ((k, v) # um_entries m))" "um_size m' = length ((k, v) # um_entries m)"
    using um_invD(3,4) [OF assms(1)] um_find_None_iff [OF assms(1), of k] assms(2)
    by (simp_all add: m'(2))
  with c(3) [OF n m'(1)] c(2) [OF n m'(1)] u have inv: "um_inv h m'" by (intro um_inv_mset)
  have r: "um_insert h m k v = (if um_size m' > um_bucket_count m' * kMaxLoadFactor
      then um_rehash h (um_bucket_count m' * 2) m' else m')"
    using assms(2) by (simp add: um_insert_def Let_def m'_def i_def b_def)
  have "um_inv h (um_rehash h (um_bucket_count m' * 2) m')"
    by (intro um_inv_rehash um_invD(3,4) [OF inv])
  with inv show "um_inv h (um_insert h m k v)" by (simp add: r)
  show "mset (um_entries (um_insert h m k v)) = add_mset (k, v) (mset (um_entries m))"
    unfolding r using u by (simp add: um_rehash_mset)
qed

lemma mset_erase_first:
  "map_of ns k = Some v \<Longrightarrow> mset (erase_first k ns) + {# (k, v) #} = mset ns"
  by (induction ns) (auto split: if_splits)

lemma set_erase_first: "n \<in> set (erase_first k ns) \<Longrightarrow> n \<in> set ns"
  by (induction ns) (auto split: if_splits)

lemma um_erase_mset:
  assumes "um_inv h m" "um_find h m k = Some v"
  shows "um_inv h (fst (um_erase h m k))"
    and "add_mset (k, v) (mset (um_entries (fst (um_erase h m k)))) = mset (um_entries m)"
proof -
  define i where "i = bucket_index h m k"
  define b where "b = um_buckets m ! i"
  define m' where "m' = m\<lparr>um_buckets := (um_buckets m)[i := erase_first k b], um_size := um_size m - 1\<rparr>"
  have r: "fst (um_erase h m k) = m'"
    using assms(2) by (simp add: um_erase_def Let_def m'_def i_def b_def)
  have "mset (erase_first k b) + {# (k, v) #} = mset b + {#}"
    using assms(2) mset_erase_first [of b k v] by (simp add: um_find_def b_def i_def)
  note c = um_chain_update [OF assms(1) i_def, folded b_def, OF this, of m']
  have m': "um_buckets m' = (um_buckets m)[i := erase_first k b]" "um_size m' = um_size m - 1"
    by (simp_all add: m'_def)
  have n: "n \<in> set b \<or> fst n = k" if "n \<in># mset (erase_first k b)" for n
    using that set_erase_first [of n k b] by simp
  have u: "mset ((k, v) # um_entries m') = mset (um_entries m)" using c(1) [OF n m'(1)] by simp
  have "mset (map fst ((k, v) # um_entries m')) = mset (map fst (um_entries m))" using u
    by (simp only: mset_map)
  then have d: "distinct (map fst ((k, v) # um_entries m'))"
    using um_invD(3) [OF assms(1)] mset_eq_imp_distinct_iff by blast
  have "length ((k, v) # um_entries m') = length (um_entries m)" using u mset_eq_length by blast
  then have "um_size m' = length (um_entries m')" using um_invD(4) [OF assms(1)] m'(2) by simp
  with d have "um_inv h m'"
    using c(3) [OF n m'(1)] c(2) [OF n m'(1)] by (intro um_invI) simp_all
  then show "um_inv h (fst (um_erase h m k))" by (simp add: r)
  show "add_mset (k, v) (mset (um_entries (fst (um_erase h m k)))) = mset (um_entries m)"
    using u by (simp add: r)
qed

lemma mset_update_first:
  "map_of ns k = Some v \<Longrightarrow> mset (update_first k f ns) + {# (k, v) #} = mset ns + {# (k, f v) #}"
  by (induction ns) (auto split: if_splits)

lemma set_update_first: "n \<in> set (update_first k f ns) \<Longrightarrow> n \<in> set ns \<or> fst n = k"
  by (induction ns) (auto split: if_splits)

lemma um_write_mset:
  assumes "um_inv h m" "um_find h m k = Some v"
  shows "um_inv h (um_write h m k f)"
    and "add_mset (k, v) (mset (um_entries (um_write h m k f))) = add_mset (k, f v) (mset (um_entries m))"
proof -
  define i where "i = bucket_index h m k"
  define b where "b = um_buckets m ! i"
  define m' where "m' = um_write h m k f"
  have "mset (update_first k f b) + {# (k, v) #} = mset b + {# (k, f v) #}"
    using assms(2) mset_update_first [of b k v f] by (simp add: um_find_def b_def i_def)
  note c = um_chain_update [OF assms(1) i_def, folded b_def, OF this, of m']
  have m': "um_buckets m' = (um_buckets m)[i := update_first k f b]" "um_size m' = um_size m"
    by (simp_all add: m'_def um_write_def Let_def i_def b_def)
  have n: "n \<in> set b \<or> fst n = k" if "n \<in># mset (update_first k f b)" for n
    using that set_update_first [of n k f b] by simp
  have u: "mset ((k, v) # um_entries m') = mset ((k, f v) # um_entries m)"
    using c(1) [OF n m'(1)] by simp
  then have "mset (map fst ((k, v) # um_entries m')) = mset (map fst ((k, f v) # um_entries m))"
    by (simp only: mset_map)
  then have "mset (map fst (um_entries m')) = mset (map fst (um_entries m))" by simp
  then have d: "distinct (map fst (um_entries m'))"
    using um_invD(3) [OF assms(1)] mset_eq_imp_distinct_iff by blast
  have "length ((k, v) # um_entries m') = length ((k, f v) # um_entries m)" using u mset_eq_length by blast
  then have "um_size m' = length (um_entries m')" using um_invD(4) [OF assms(1)] m'(2) by simp
  with d have "um_inv h m'"
    using c(3) [OF n m'(1)] c(2) [OF n m'(1)] by (intro um_invI) simp_all
  then show "um_inv h (um_write h m k f)" by (simp add: m'_def)
  show "add_mset (k, v) (mset (um_entries (um_write h m k f))) = add_mset (k, f v) (mset (um_entries m))"
    using u by (simp add: m'_def)
qed

lemma um_find_mset:
  assumes "um_inv h m" "um_inv h m'"
    and "add_mset (k, v) (mset (um_entries m')) = add_mset (k, v') (mset (um_entries m))"
    and "um_find h m k = Some v"
  shows "um_find h m' j = (if j = k then Some v' else um_find h m j)"
proof (rule um_find_eqI [OF assms(2)])
  fix u
  have set_eq: "insert (k, v) (set (um_entries m')) = insert (k, v') (set (um_entries m))"
    using arg_cong [OF assms(3), of set_mset] by simp
  have "(k, v') \<in># mset (um_entries m') \<or> v' = v"
    using arg_cong [OF assms(3), of "\<lambda>M. (k, v') \<in># M"] by auto
  moreover have "(k, v) \<in> set (um_entries m)" using assms(4) um_find_Some_iff [OF assms(1)] by simp
  ultimately have in': "(k, v') \<in> set (um_entries m')"
    using assms(3) by (cases "v' = v") (auto dest: mset_eq_setD)
  have key: "um_find h m' k = Some v'" using in' um_find_Some_iff [OF assms(2)] by simp
  show "(j, u) \<in> set (um_entries m') \<longleftrightarrow> (if j = k then Some v' else um_find h m j) = Some u"
  proof (cases "j = k")
    case True
    then show ?thesis using key um_find_Some_iff [OF assms(2), of k u] by simp
  next
    case False
    then show ?thesis using set_eq um_find_Some_iff [OF assms(1), of j u] by auto
  qed
qed

lemma um_find_insert:
  assumes "um_inv h m" "um_find h m k = None"
  shows "um_find h (um_insert h m k v) j = (if j = k then Some v else um_find h m j)"
proof (rule um_find_eqI [OF um_insert_mset(1) [OF assms]])
  fix u
  have "set (um_entries (um_insert h m k v)) = insert (k, v) (set (um_entries m))"
    using arg_cong [OF um_insert_mset(2) [OF assms, of v], of set_mset] by simp
  then show "(j, u) \<in> set (um_entries (um_insert h m k v)) \<longleftrightarrow>
      (if j = k then Some v else um_find h m j) = Some u"
    using um_find_Some_iff [OF assms(1), of j u] assms(2) by auto
qed

lemma um_insert_present: "um_find h m k \<noteq> None \<Longrightarrow> um_insert h m k v = m"
  by (simp add: um_insert_def Let_def)

lemma um_erase_absent: "um_find h m k = None \<Longrightarrow> um_erase h m k = (m, 0)"
  by (simp add: um_erase_def Let_def)

lemma um_find_erase:
  assumes "um_inv h m"
  shows "um_find h (fst (um_erase h m k)) j = (if j = k then None else um_find h m j)"
proof (cases "um_find h m k")
  case None
  then show ?thesis by (simp add: um_erase_absent)
next
  case (Some v)
  note e = um_erase_mset [OF assms Some]
  show ?thesis
  proof (rule um_find_eqI [OF e(1)])
    fix u
    have d: "distinct (map fst (um_entries m))" by (rule um_invD(3) [OF assms])
    have "mset (map fst (um_entries m)) = add_mset k (mset (map fst (um_entries (fst (um_erase h m k)))))"
      using arg_cong [OF e(2), of "image_mset fst"] by simp
    then have "k \<notin> set (map fst (um_entries (fst (um_erase h m k))))"
      using d mset_eq_imp_distinct_iff [of "map fst (um_entries m)"
          "k # map fst (um_entries (fst (um_erase h m k)))"] by simp
    then have k: "(k, u) \<notin> set (um_entries (fst (um_erase h m k)))" by force
    have "insert (k, v) (set (um_entries (fst (um_erase h m k)))) = set (um_entries m)"
      using arg_cong [OF e(2), of set_mset] by simp
    with k show "(j, u) \<in> set (um_entries (fst (um_erase h m k))) \<longleftrightarrow>
        (if j = k then None else um_find h m j) = Some u"
      using um_find_Some_iff [OF assms, of j u] by auto
  qed
qed

lemma um_find_write:
  assumes "um_inv h m" "um_find h m k = Some v"
  shows "um_find h (um_write h m k f) j = (if j = k then Some (f v) else um_find h m j)"
  by (rule um_find_mset [OF assms(1) um_write_mset(1) [OF assms] um_write_mset(2) [OF assms] assms(2)])

lemma um_inv_erase: "um_inv h m \<Longrightarrow> um_inv h (fst (um_erase h m k))"
  by (cases "um_find h m k") (simp_all add: um_erase_absent um_erase_mset(1))

lemma um_index_correct:
  assumes "um_inv h m"
  shows "um_inv h (um_index h d m k f)"
    and "um_find h (um_index h d m k f) j =
           (if j = k then Some (f (case um_find h m k of None \<Rightarrow> d | Some v \<Rightarrow> v)) else um_find h m j)"
proof -
  define m1 where "m1 = (if um_find h m k \<noteq> None then m else um_insert h m k d)"
  define v where "v = (case um_find h m k of None \<Rightarrow> d | Some v \<Rightarrow> v)"
  have i1: "um_inv h m1" unfolding m1_def using assms um_insert_mset(1) [OF assms] by simp
  have f1: "um_find h m1 j = (if j = k then Some v else um_find h m j)" for j
    unfolding m1_def v_def using um_find_insert [OF assms] by auto
  have r: "um_index h d m k f = um_write h m1 k f" by (simp add: um_index_def m1_def)
  have k1: "um_find h m1 k = Some v" by (simp add: f1)
  show "um_inv h (um_index h d m k f)" unfolding r by (rule um_write_mset(1) [OF i1 k1])
  show "um_find h (um_index h d m k f) j =
      (if j = k then Some (f (case um_find h m k of None \<Rightarrow> d | Some v \<Rightarrow> v)) else um_find h m j)"
    unfolding r um_find_mset [OF i1 um_write_mset(1) [OF i1 k1] um_write_mset(2) [OF i1 k1] k1]
    by (simp add: f1 v_def)
qed

subsection \<open>The contract of a table\<close>

locale table =
  fixes lookup :: "'t \<Rightarrow> 'k \<Rightarrow> 'v option"
    and default :: 'v
    and index :: "'t \<Rightarrow> 'k \<Rightarrow> ('v \<Rightarrow> 'v) \<Rightarrow> 't"
    and erase :: "'t \<Rightarrow> 'k \<Rightarrow> 't"
    and entries :: "'t \<Rightarrow> ('k \<times> 'v) list"
    and invar :: "'t \<Rightarrow> bool"
  assumes lookup_index: "invar t \<Longrightarrow> lookup (index t k f) j =
      (if j = k then Some (f (case lookup t k of None \<Rightarrow> default | Some v \<Rightarrow> v)) else lookup t j)"
    and lookup_erase: "invar t \<Longrightarrow> lookup (erase t k) j = (if j = k then None else lookup t j)"
    and entries_lookup: "invar t \<Longrightarrow> (k, v) \<in> set (entries t) \<longleftrightarrow> lookup t k = Some v"
    and entries_keys: "invar t \<Longrightarrow> distinct (map fst (entries t))"
    and invar_index: "invar t \<Longrightarrow> invar (index t k f)"
    and invar_erase: "invar t \<Longrightarrow> invar (erase t k)"
begin

lemma lookup_store: "invar t \<Longrightarrow> lookup (index t k (\<lambda>_. v)) = (lookup t)(k \<mapsto> v)"
  by (rule ext) (simp add: lookup_index)

lemma lookup_erase_map: "invar t \<Longrightarrow> lookup (erase t k) = (lookup t)(k := None)"
  by (rule ext) (simp add: lookup_erase)

lemma map_of_entries: "invar t \<Longrightarrow> map_of (entries t) = lookup t"
proof
  fix k
  assume i: "invar t"
  show "map_of (entries t) k = lookup t k"
  proof (cases "lookup t k")
    case None
    then have "(k, v) \<notin> set (entries t)" for v by (simp add: entries_lookup [OF i])
    then have "k \<notin> fst ` set (entries t)" by auto
    with None show ?thesis by (simp add: map_of_eq_None_iff)
  next
    case (Some v)
    with entries_lookup [OF i] entries_keys [OF i] show ?thesis by simp
  qed
qed

text \<open>Iterating over the table visits every value once.\<close>

lemma entries_values: "invar t \<Longrightarrow> v \<in> snd ` set (entries t) \<longleftrightarrow> (\<exists>k. lookup t k = Some v)"
  using entries_lookup by (force simp: image_iff)

end

interpretation chained: table "um_find h" d "um_index h d" "\<lambda>m k. fst (um_erase h m k)"
    um_entries "um_inv h"
  for h :: "'k \<Rightarrow> nat" and d :: 'v
  by unfold_locales
    (rule um_index_correct um_find_erase um_find_Some_iff [symmetric] um_invD um_inv_erase; assumption)+

lemmas um_contract =
  chained.lookup_index chained.lookup_erase chained.entries_lookup chained.invar_index
  chained.invar_erase chained.lookup_store chained.lookup_erase_map

text \<open>\<open>std::hash\<close> of an integer is the integer.\<close>

definition hash_u64 :: "u64 \<Rightarrow> nat" where
  "hash_u64 w = unat w"

end
