(* ===== verification/Task_Manager.thy ===== *)
theory Task_Manager
  imports Schedulers Spin_Lock Nk_Unordered_Map
begin

text \<open>
  The state of the task manager (\<open>src/src/task/include/task_manager.hpp\<close>,
  \<open>src/src/include/per_cpu.hpp\<close>) and the operations of
  \<open>src/src/task/task_manager.cpp\<close>.

  An operation is run by a core \<open>me\<close> on the whole kernel state and gives the state after
  it, or the fault in which it ends. The state holds what the singletons hold: the store of
  control blocks, the per-core scheduling data and \<open>PerCpu\<close> entries (arrays of
  \<open>NAILONG_KERNEL_MAX_CORE_COUNT\<close> elements, functions of the core id here), the task table
  with its lock, the pid counter, the interrupt flag of each core, the \<open>static\<close>
  \<open>boot_done\<close> of \<open>Schedule\<close>, and a trace of the effects outside this state: context
  switches and releases of memory. Log output is not modelled; the arguments of a log call
  are, where evaluating them reads freed memory.
\<close>

definition MAX_CORE_COUNT :: nat where "MAX_CORE_COUNT = 4"

record CpuSchedData =
  cs_lock :: SpinLock
  cs_schedulers :: "SchedPolicy \<Rightarrow> Scheduler option"
  cs_sleeping_tasks :: "tptr list"
  cs_blocked_tasks :: "(ResourceId, tptr list) umap"
  cs_local_tick :: u64
  cs_idle_time :: u64
  cs_total_schedules :: u64

record PerCpu =
  pc_core_id :: size_t
  pc_running_task :: "tptr option"
  pc_idle_task :: "tptr option"
  pc_sched_data :: "size_t option"

datatype event =
    SwitchTo size_t "tptr option" tptr  \<comment> \<open>core, where the context is saved (\<open>None\<close>: \<open>boot_context\<close>), next task\<close>
  | FreeStack u64
  | DestroyPageDirectory_call u64 bool

record kernel =
  k_tcbs :: tcb_heap
  k_cpu :: "size_t \<Rightarrow> CpuSchedData"
  k_percpu :: "size_t \<Rightarrow> PerCpu"
  k_task_table_lock :: SpinLock
  k_task_table :: "(Pid, tptr option) umap"
  k_pid_allocator :: size_t
  k_intr :: "size_t \<Rightarrow> bool"
  k_boot_done :: bool
  k_trace :: "event list"

definition new_CpuSchedData :: CpuSchedData where
  "new_CpuSchedData = \<lparr>cs_lock = new_SpinLock ''sched_lock'', cs_schedulers = (\<lambda>_. None),
     cs_sleeping_tasks = [], cs_blocked_tasks = um_new hash_u64, cs_local_tick = 0,
     cs_idle_time = 0, cs_total_schedules = 0\<rparr>"

definition new_PerCpu :: "size_t \<Rightarrow> PerCpu" where
  "new_PerCpu core = \<lparr>pc_core_id = core, pc_running_task = None, pc_idle_task = None, pc_sched_data = None\<rparr>"

text \<open>The state before any core is initialised.\<close>

definition kernel_init :: "(size_t \<Rightarrow> bool) \<Rightarrow> kernel" where
  "kernel_init intr = \<lparr>k_tcbs = Map.empty, k_cpu = (\<lambda>_. new_CpuSchedData), k_percpu = new_PerCpu,
     k_task_table_lock = new_SpinLock ''task_table_lock'', k_task_table = um_new hash_u64,
     k_pid_allocator = 1, k_intr = intr, k_boot_done = False, k_trace = []\<rparr>"

subsection \<open>Accesses\<close>

definition get_tcb :: "kernel \<Rightarrow> tptr \<Rightarrow> TaskControlBlock outcome" where
  "get_tcb k t = deref (k_tcbs k) t"

definition upd_tcb :: "kernel \<Rightarrow> tptr \<Rightarrow> (TaskControlBlock \<Rightarrow> TaskControlBlock) \<Rightarrow> kernel outcome" where
  "upd_tcb k t f = obind (modify (k_tcbs k) t f) (\<lambda>h. Done (k\<lparr>k_tcbs := h\<rparr>))"

definition upd_cpu :: "kernel \<Rightarrow> size_t \<Rightarrow> (CpuSchedData \<Rightarrow> CpuSchedData) \<Rightarrow> kernel" where
  "upd_cpu k core f = k\<lparr>k_cpu := (k_cpu k)(core := f (k_cpu k core))\<rparr>"

definition upd_percpu :: "kernel \<Rightarrow> size_t \<Rightarrow> (PerCpu \<Rightarrow> PerCpu) \<Rightarrow> kernel" where
  "upd_percpu k core f = k\<lparr>k_percpu := (k_percpu k)(core := f (k_percpu k core))\<rparr>"

definition set_intr_flag :: "kernel \<Rightarrow> size_t \<Rightarrow> bool \<Rightarrow> kernel" where
  "set_intr_flag k core b = k\<lparr>k_intr := (k_intr k)(core := b)\<rparr>"

definition emit :: "kernel \<Rightarrow> event \<Rightarrow> kernel" where
  "emit k e = k\<lparr>k_trace := k_trace k @ [e]\<rparr>"

definition set_status :: "TaskStatus \<Rightarrow> TaskControlBlock \<Rightarrow> TaskControlBlock" where
  "set_status s T = T\<lparr>t_status := s\<rparr>"

definition GetCurrentTask :: "size_t \<Rightarrow> kernel \<Rightarrow> tptr option" where
  "GetCurrentTask me k = pc_running_task (k_percpu k me)"

text \<open>\<open>cpu_sched.schedulers[policy]\<close>; the array has \<open>kPolicyCount\<close> elements.\<close>

definition scheduler_at :: "kernel \<Rightarrow> size_t \<Rightarrow> SchedPolicy \<Rightarrow> Scheduler option outcome" where
  "scheduler_at k core p =
     (if p < kPolicyCount then Done (cs_schedulers (k_cpu k core) p) else Fault OutOfBounds)"

definition set_scheduler :: "kernel \<Rightarrow> size_t \<Rightarrow> SchedPolicy \<Rightarrow> Scheduler \<Rightarrow> kernel" where
  "set_scheduler k core p s =
     upd_cpu k core (\<lambda>c. c\<lparr>cs_schedulers := (cs_schedulers c)(p \<mapsto> s)\<rparr>)"

text \<open>\<open>scheduler = schedulers[policy]; if (scheduler) scheduler->Enqueue(task);\<close>\<close>

definition enqueue_if :: "kernel \<Rightarrow> size_t \<Rightarrow> SchedPolicy \<Rightarrow> tptr \<Rightarrow> kernel outcome" where
  "enqueue_if k core p t =
     obind (scheduler_at k core p) (\<lambda>so. case so of
        None \<Rightarrow> Done k
      | Some s \<Rightarrow> obind (Enqueue (k_tcbs k) s t) (\<lambda>(h, s'). Done (set_scheduler (k\<lparr>k_tcbs := h\<rparr>) core p s')))"

text \<open>
  The scheduler lock of a core, taken through a guard or directly (\<open>Schedule\<close> and
  \<open>AddTask\<close> call \<open>Lock\<close> and \<open>UnLock\<close> and ignore their results), and the lock of the
  task table.
\<close>

definition set_cpu_lock :: "kernel \<Rightarrow> size_t \<Rightarrow> size_t \<Rightarrow> bool \<times> SpinLock \<Rightarrow> kernel" where
  "set_cpu_lock k me core il = set_intr_flag (upd_cpu k core (\<lambda>c. c\<lparr>cs_lock := snd il\<rparr>)) me (fst il)"

definition guard_cpu :: "size_t \<Rightarrow> kernel \<Rightarrow> kernel outcome" where
  "guard_cpu me k =
     obind (LockGuard_ctor me (k_intr k me) (cs_lock (k_cpu k me))) (\<lambda>il. Done (set_cpu_lock k me me il))"

definition unguard_cpu :: "size_t \<Rightarrow> kernel \<Rightarrow> kernel" where
  "unguard_cpu me k = set_cpu_lock k me me (LockGuard_dtor me (k_intr k me) (cs_lock (k_cpu k me)))"

definition lock_cpu :: "size_t \<Rightarrow> size_t \<Rightarrow> kernel \<Rightarrow> kernel outcome" where
  "lock_cpu me core k =
     obind (SpinLock_Lock me (k_intr k me) (cs_lock (k_cpu k core))) (\<lambda>(r, il). Done (set_cpu_lock k me core il))"

definition unlock_cpu :: "size_t \<Rightarrow> size_t \<Rightarrow> kernel \<Rightarrow> kernel" where
  "unlock_cpu me core k =
     set_cpu_lock k me core (snd (SpinLock_UnLock me (k_intr k me) (cs_lock (k_cpu k core))))"

definition set_table_lock :: "kernel \<Rightarrow> size_t \<Rightarrow> bool \<times> SpinLock \<Rightarrow> kernel" where
  "set_table_lock k me il = set_intr_flag (k\<lparr>k_task_table_lock := snd il\<rparr>) me (fst il)"

definition guard_table :: "size_t \<Rightarrow> kernel \<Rightarrow> kernel outcome" where
  "guard_table me k =
     obind (LockGuard_ctor me (k_intr k me) (k_task_table_lock k)) (\<lambda>il. Done (set_table_lock k me il))"

definition unguard_table :: "size_t \<Rightarrow> kernel \<Rightarrow> kernel" where
  "unguard_table me k = set_table_lock k me (LockGuard_dtor me (k_intr k me) (k_task_table_lock k))"

subsection \<open>Operations\<close>

text \<open>
  \<open>InitCurrentCore\<close>: \<open>t\<close> is the block that \<open>new\<close> returned for the idle thread,
  \<open>stack\<close> what its constructor's \<open>aligned_alloc\<close> returned.
\<close>

definition INT_MAX :: int where "INT_MAX = 2147483647"

definition InitCurrentCore :: "u64 \<Rightarrow> u64 \<Rightarrow> u64 \<Rightarrow> tptr \<Rightarrow> u64 \<Rightarrow> size_t \<Rightarrow> kernel \<Rightarrow> kernel outcome" where
  "InitCurrentCore kte tc_size idle_thread t stack me k =
     obind (guard_cpu me k) (\<lambda>k.
     let k = (if cs_schedulers (k_cpu k me) kNormal = None
              then set_scheduler (set_scheduler (set_scheduler k me kRealTime new_FifoScheduler)
                     me kNormal new_RoundRobinScheduler) me kIdle new_IdleScheduler
              else k);
         k = upd_percpu k me (\<lambda>p. p\<lparr>pc_sched_data := Some me\<rparr>);
         T = (new_TaskControlBlock kte tc_size stack ''Idle'' INT_MAX idle_thread 0)
               \<lparr>t_status := kReady, t_policy := kIdle\<rparr>;
         k = k\<lparr>k_tcbs := (k_tcbs k)(t \<mapsto> T)\<rparr>
     in obind (enqueue_if k me kIdle t) (\<lambda>k.
        Done (unguard_cpu me (upd_percpu k me (\<lambda>p. p\<lparr>pc_idle_task := Some t, pc_running_task := Some t\<rparr>)))))"

definition AllocatePid :: "kernel \<Rightarrow> size_t \<times> kernel" where
  "AllocatePid k = (k_pid_allocator k, k\<lparr>k_pid_allocator := k_pid_allocator k + 1\<rparr>)"

text \<open>The first core whose bit is set in the affinity mask, else the current core.\<close>

fun first_allowed :: "u64 \<Rightarrow> nat list \<Rightarrow> size_t \<Rightarrow> size_t" where
  "first_allowed affinity [] d = d"
| "first_allowed affinity (c # cs) d =
     (if affinity AND push_bit c 1 \<noteq> 0 then of_nat c else first_allowed affinity cs d)"

definition target_core :: "u64 \<Rightarrow> size_t \<Rightarrow> size_t" where
  "target_core affinity me =
     (if affinity \<noteq> - 1 then first_allowed affinity [0..<MAX_CORE_COUNT] me else me)"

definition store_task :: "kernel \<Rightarrow> Pid \<Rightarrow> tptr \<Rightarrow> kernel" where
  "store_task k p t = k\<lparr>k_task_table := um_index hash_u64 None (k_task_table k) p (\<lambda>_. Some t)\<rparr>"

definition AddTask :: "size_t \<Rightarrow> tptr option \<Rightarrow> kernel \<Rightarrow> kernel outcome" where
  "AddTask me task k = (case task of
     None \<Rightarrow> Fault (AssertFailed ''AddTask: task must not be null'')
   | Some t \<Rightarrow>
       obind (get_tcb k t) (\<lambda>T.
       nk_assert_msg (t_status T = kUnInit) ''AddTask: task status must be kUnInit'' (
       let (p, k) = (if t_pid T = 0 then AllocatePid k else (t_pid T, k));
           g = (if t_tgid T = 0 then p else t_tgid T)
       in obind (upd_tcb k t (\<lambda>T. T\<lparr>t_pid := p, t_tgid := g\<rparr>)) (\<lambda>k.
          obind (guard_table me k) (\<lambda>k.
          let k = unguard_table me (store_task k p t)
          in obind (upd_tcb k t (set_status kReady)) (\<lambda>k.
             let core = target_core (t_cpu_affinity T) me
             in obind (lock_cpu me core k) (\<lambda>k.
                obind (if t_policy T < kPolicyCount then enqueue_if k core (t_policy T) t else Done k) (\<lambda>k.
                Done (unlock_cpu me core k)))))))))"

definition FindTask :: "size_t \<Rightarrow> Pid \<Rightarrow> kernel \<Rightarrow> (tptr option \<times> kernel) outcome" where
  "FindTask me p k =
     obind (guard_table me k) (\<lambda>k.
     Done (case um_find hash_u64 (k_task_table k) p of None \<Rightarrow> None | Some t \<Rightarrow> t, unguard_table me k))"

text \<open>\<open>~TaskControlBlock\<close> and the release of the block itself.\<close>

definition delete_TaskControlBlock :: "tptr \<Rightarrow> kernel \<Rightarrow> kernel outcome" where
  "delete_TaskControlBlock t k =
     obind (LeaveThreadGroup (k_tcbs k) t) (\<lambda>h.
     let k = k\<lparr>k_tcbs := h\<rparr>
     in obind (get_tcb k t) (\<lambda>T.
        let k = (if t_kernel_stack T \<noteq> 0 then emit k (FreeStack (t_kernel_stack T)) else k);
            k = (if t_page_table T \<noteq> 0
                 then emit k (DestroyPageDirectory_call (t_page_table T) (\<not> has_flag (t_clone_flags T) kCloneVm))
                 else k)
        in Done (k\<lparr>k_tcbs := (k_tcbs k)(t := None)\<rparr>)))"

text \<open>The last statement, a log call, reads \<open>task->pid\<close>.\<close>

definition ReapTask :: "size_t \<Rightarrow> tptr option \<Rightarrow> kernel \<Rightarrow> kernel outcome" where
  "ReapTask me task k = (case task of
     None \<Rightarrow> Done k
   | Some t \<Rightarrow>
       obind (get_tcb k t) (\<lambda>T.
       if t_status T \<noteq> kZombie \<and> t_status T \<noteq> kExited then Done k
       else obind (guard_table me k) (\<lambda>k.
            let k = unguard_table me
                  (k\<lparr>k_task_table := fst (um_erase hash_u64 (k_task_table k) (t_pid T))\<rparr>)
            in obind (delete_TaskControlBlock t k) (\<lambda>k.
               obind (get_tcb k t) (\<lambda>_. Done k)))))"

definition kInitPid :: Pid where "kInitPid = 1"

text \<open>The loop of \<open>ReparentChildren\<close> over the entries of the table.\<close>

fun reparent_entries :: "(Pid \<times> tptr option) list \<Rightarrow> tptr \<Rightarrow> kernel \<Rightarrow> kernel outcome" where
  "reparent_entries [] par k = Done k"
| "reparent_entries ((p, None) # es) par k = reparent_entries es par k"
| "reparent_entries ((p, Some t) # es) par k =
     obind (get_tcb k t) (\<lambda>T.
     obind (get_tcb k par) (\<lambda>P.
     if t_parent_pid T = t_pid P
     then obind (upd_tcb k t (\<lambda>T. T\<lparr>t_parent_pid := kInitPid\<rparr>)) (reparent_entries es par)
     else reparent_entries es par k))"

definition ReparentChildren :: "size_t \<Rightarrow> tptr option \<Rightarrow> kernel \<Rightarrow> kernel outcome" where
  "ReparentChildren me par k = (case par of
     None \<Rightarrow> Done k
   | Some p \<Rightarrow>
       obind (guard_table me k) (\<lambda>k.
       obind (reparent_entries (um_entries (k_task_table k)) p k) (\<lambda>k. Done (unguard_table me k))))"

fun group_entries :: "(Pid \<times> tptr option) list \<Rightarrow> Pid \<Rightarrow> kernel \<Rightarrow> tptr list outcome" where
  "group_entries [] g k = Done []"
| "group_entries ((p, None) # es) g k = group_entries es g k"
| "group_entries ((p, Some t) # es) g k =
     obind (get_tcb k t) (\<lambda>T.
     obind (group_entries es g k) (\<lambda>ts. Done (if t_tgid T = g then t # ts else ts)))"

definition GetThreadGroup :: "size_t \<Rightarrow> Pid \<Rightarrow> kernel \<Rightarrow> (tptr list \<times> kernel) outcome" where
  "GetThreadGroup me g k =
     obind (guard_table me k) (\<lambda>k.
     obind (group_entries (um_entries (k_task_table k)) g k) (\<lambda>ts. Done (ts, unguard_table me k)))"

text \<open>\<open>~TaskManager\<close> releases the schedulers of every core.\<close>

definition delete_TaskManager :: "kernel \<Rightarrow> kernel" where
  "delete_TaskManager k = k\<lparr>k_cpu := (\<lambda>core. (k_cpu k core)\<lparr>cs_schedulers := (\<lambda>_. None)\<rparr>)\<rparr>"

end
