(* ===== verification/Scheduling.thy ===== *)
theory Scheduling
  imports Task_Manager
begin

text \<open>
  The scheduling operations: \<open>Schedule\<close> (\<open>src/src/task/schedule.cpp\<close>),
  \<open>TickUpdate\<close> (\<open>tick_update.cpp\<close>), \<open>Sleep\<close> (\<open>sleep.cpp\<close>), \<open>Block\<close>
  (\<open>block.cpp\<close>) and \<open>Wakeup\<close> (\<open>wakeup.cpp\<close>).

  \<open>Schedule\<close> ends in the context of the task it switched to. That task leaves its own
  earlier call of \<open>Schedule\<close>, or starts in \<open>kernel_thread_entry\<close>; both enable
  interrupts, which is the last effect of the model. An operation that calls \<open>Schedule\<close> last
  (\<open>Block\<close>, \<open>Sleep\<close>, \<open>TickUpdate\<close>) gives the state at that point.
\<close>

subsection \<open>Schedule\<close>

text \<open>\<open>current\<close> is running: it becomes ready and goes back to its scheduler.\<close>

definition Schedule_requeue :: "size_t \<Rightarrow> tptr \<Rightarrow> kernel \<Rightarrow> kernel outcome" where
  "Schedule_requeue me cur_t k =
     obind (get_tcb k cur_t) (\<lambda>C.
     if t_status C = kRunning then
       obind (upd_tcb k cur_t (set_status kReady)) (\<lambda>k.
       obind (scheduler_at k me (t_policy C)) (\<lambda>so. case so of
          None \<Rightarrow> Done k
        | Some s \<Rightarrow>
            let s = OnPreempted s; k = set_scheduler k me (t_policy C) s
            in obind (OnTimeSliceExpired (k_tcbs k) s cur_t) (\<lambda>(h, again).
               let k = k\<lparr>k_tcbs := h\<rparr>
               in if again then enqueue_if k me (t_policy C) cur_t else Done k)))
     else Done k)"

text \<open>
  The inner loop: pick until a ready task comes. \<open>None\<close> is a loop that does not end; the
  idle scheduler keeps its task, so it is the case of an idle task that is not ready.
\<close>

partial_function (option) pick_ready :: "tcb_heap \<Rightarrow> Scheduler \<Rightarrow> (tptr option \<times> Scheduler) outcome option" where
  "pick_ready h s =
     (if IsEmpty s then Some (Done (None, s))
      else case PickNext h s of
          (None, s') \<Rightarrow> Some (Done (None, s'))
        | (Some c, s') \<Rightarrow>
            (case h c of
               None \<Rightarrow> Some (Fault UseAfterFree)
             | Some C \<Rightarrow> if t_status C = kReady then Some (Done (Some c, s')) else pick_ready h s'))"

declare pick_ready.simps [code]

text \<open>The loop over the schedulers in the order of the array.\<close>

fun Schedule_pick :: "SchedPolicy list \<Rightarrow> size_t \<Rightarrow> kernel \<Rightarrow> (tptr option \<times> kernel) outcome" where
  "Schedule_pick [] me k = Done (None, k)"
| "Schedule_pick (p # ps) me k =
     (case cs_schedulers (k_cpu k me) p of
        None \<Rightarrow> Schedule_pick ps me k
      | Some s \<Rightarrow>
          obind (run_loop (pick_ready (k_tcbs k) s)) (\<lambda>(c, s').
          let k = set_scheduler k me p s'
          in case c of None \<Rightarrow> Schedule_pick ps me k | Some t \<Rightarrow> Done (Some t, k)))"

definition all_policies :: "SchedPolicy list" where
  "all_policies = [kRealTime, kNormal, kIdle]"

text \<open>No ready task: keep the current one if it can run, else the idle task, else halt.\<close>

definition Schedule_fallback :: "size_t \<Rightarrow> tptr \<Rightarrow> tptr option \<Rightarrow> kernel \<Rightarrow> (tptr \<times> kernel) outcome" where
  "Schedule_fallback me cur_t nxt k = (case nxt of
     Some t \<Rightarrow> Done (t, k)
   | None \<Rightarrow>
       obind (get_tcb k cur_t) (\<lambda>C.
       if t_status C = kReady then Done (cur_t, k)
       else case pc_idle_task (k_percpu k me) of
              Some i \<Rightarrow> obind (upd_tcb k i (set_status kReady)) (\<lambda>k. Done (i, k))
            | None \<Rightarrow> Fault IdleHalt))"

text \<open>The current task cannot run and was chosen nevertheless: take the idle task.\<close>

definition Schedule_leave :: "size_t \<Rightarrow> tptr \<Rightarrow> tptr \<Rightarrow> kernel \<Rightarrow> (tptr \<times> kernel) outcome" where
  "Schedule_leave me cur_t nxt k =
     obind (get_tcb k cur_t) (\<lambda>C.
     if cur_t = nxt \<and> t_status C \<noteq> kReady then
       (case pc_idle_task (k_percpu k me) of
          None \<Rightarrow> Fault (AssertFailed ''Schedule: need idle while current is not runnable'')
        | Some i \<Rightarrow>
            nk_assert_msg (i \<noteq> cur_t) ''Schedule: need idle while current is not runnable''
              (obind (upd_tcb k i (set_status kReady)) (\<lambda>k. Done (i, k))))
     else Done (nxt, k))"

text \<open>\<open>next\<close> becomes the running task.\<close>

definition start_running :: "TaskControlBlock \<Rightarrow> TaskControlBlock" where
  "start_running T = T\<lparr>t_status := kRunning, t_sched_info := (t_sched_info T)
     \<lparr>si_time_slice_remaining := si_time_slice_default (t_sched_info T),
      si_context_switches := si_context_switches (t_sched_info T) + 1\<rparr>\<rparr>"

definition Schedule_commit :: "size_t \<Rightarrow> tptr \<Rightarrow> tptr \<Rightarrow> bool \<Rightarrow> kernel \<Rightarrow> kernel outcome" where
  "Schedule_commit me cur_t nxt must_leave k =
     obind (get_tcb k nxt) (\<lambda>N.
     nk_assert_msg (t_status N = kReady) ''Schedule: next task must be kReady'' (
     nk_assert_msg (\<not> must_leave \<or> cur_t \<noteq> nxt) ''Schedule: must switch away from non-ready current'' (
     obind (upd_tcb k nxt start_running) (\<lambda>k.
     let k = upd_cpu k me (\<lambda>c. c\<lparr>cs_total_schedules := cs_total_schedules c + 1\<rparr>)
     in obind (scheduler_at k me (t_policy N)) (\<lambda>so.
        let k = (case so of None \<Rightarrow> k | Some s \<Rightarrow> set_scheduler k me (t_policy N) (OnScheduled s))
        in Done (upd_percpu k me (\<lambda>p. p\<lparr>pc_running_task := Some nxt\<rparr>)))))))"

text \<open>
  After the lock is released: the first call ever saves into \<open>boot_context\<close> and switches in
  any case; later calls save into the current task and switch when the task changes.
\<close>

definition Schedule_switch :: "size_t \<Rightarrow> tptr \<Rightarrow> tptr \<Rightarrow> bool \<Rightarrow> kernel \<Rightarrow> kernel outcome" where
  "Schedule_switch me cur_t nxt must_leave k =
     (let force = \<not> k_boot_done k;
          k = set_intr_flag (k\<lparr>k_boot_done := True\<rparr>) me False
      in if force \<or> cur_t \<noteq> nxt
         then Done (set_intr_flag (emit k (SwitchTo me (if force then None else Some cur_t) nxt)) me True)
         else nk_assert_msg (\<not> must_leave) ''Schedule: refused no-op while current was not runnable''
                (Done (set_intr_flag k me True)))"

definition Schedule :: "size_t \<Rightarrow> kernel \<Rightarrow> kernel outcome" where
  "Schedule me k =
     obind (lock_cpu me me k) (\<lambda>k.
     case GetCurrentTask me k of
       None \<Rightarrow> Fault (AssertFailed ''Schedule: No current task to schedule'')
     | Some cur_t \<Rightarrow>
         obind (Schedule_requeue me cur_t k) (\<lambda>k.
         obind (Schedule_pick all_policies me k) (\<lambda>(nxt, k).
         obind (Schedule_fallback me cur_t nxt k) (\<lambda>(nxt, k).
         obind (Schedule_leave me cur_t nxt k) (\<lambda>(nxt, k).
         obind (get_tcb k cur_t) (\<lambda>C.
         let must_leave = (t_status C \<noteq> kReady)
         in obind (Schedule_commit me cur_t nxt must_leave k) (\<lambda>k.
            Schedule_switch me cur_t nxt must_leave (unlock_cpu me me k))))))))"

subsection \<open>TickUpdate\<close>

text \<open>The key that \<open>WakeTickCompare\<close> compares.\<close>

definition wake_tick :: "tcb_heap \<Rightarrow> tptr \<Rightarrow> u64" where
  "wake_tick h t = (case h t of None \<Rightarrow> 0 | Some T \<Rightarrow> si_wake_tick (t_sched_info T))"

abbreviation wake_cmp :: "tcb_heap \<Rightarrow> tptr \<Rightarrow> tptr \<Rightarrow> bool" where
  "wake_cmp h \<equiv> key_cmp (wake_tick h)"

definition set_sleeping :: "kernel \<Rightarrow> size_t \<Rightarrow> tptr list \<Rightarrow> kernel" where
  "set_sleeping k core q = upd_cpu k core (\<lambda>c. c\<lparr>cs_sleeping_tasks := q\<rparr>)"

text \<open>
  The loop that wakes due sleepers. Every turn removes one element, so it is given the number
  of elements; the flag says whether a task was woken.
\<close>

fun wake_due :: "nat \<Rightarrow> size_t \<Rightarrow> tptr option \<Rightarrow> kernel \<Rightarrow> bool \<Rightarrow> (kernel \<times> bool) outcome" where
  "wake_due 0 me cur_t k need = Done (k, need)"
| "wake_due (Suc n) me cur_t k need =
     (let q = cs_sleeping_tasks (k_cpu k me)
      in if pq_empty q then Done (k, need)
         else let t = pq_top q
              in obind (get_tcb k t) (\<lambda>T.
                 if si_wake_tick (t_sched_info T) > cs_local_tick (k_cpu k me) then Done (k, need)
                 else let k = set_sleeping k me (pq_pop (wake_cmp (k_tcbs k)) q)
                      in obind (upd_tcb k t (set_status kReady)) (\<lambda>k.
                         obind (if Some t \<noteq> cur_t then enqueue_if k me (t_policy T) t else Done k) (\<lambda>k.
                         wake_due n me cur_t k True))))"

definition account_tick :: "TaskControlBlock \<Rightarrow> TaskControlBlock" where
  "account_tick T = T\<lparr>t_sched_info := (t_sched_info T)
     \<lparr>si_time_slice_remaining := (if si_time_slice_remaining (t_sched_info T) > 0
                                  then si_time_slice_remaining (t_sched_info T) - 1
                                  else si_time_slice_remaining (t_sched_info T)),
      si_total_runtime := si_total_runtime (t_sched_info T) + 1\<rparr>\<rparr>"

text \<open>
  The statistics of the current task; \<open>need_preempt || scheduler->OnTick(current)\<close> does not
  call \<open>OnTick\<close> when a task was woken.
\<close>

definition TickUpdate_account :: "size_t \<Rightarrow> tptr option \<Rightarrow> kernel \<Rightarrow> bool \<Rightarrow> (kernel \<times> bool) outcome" where
  "TickUpdate_account me cur_t k need = (case cur_t of
     None \<Rightarrow> Done (k, need)
   | Some c \<Rightarrow>
       obind (get_tcb k c) (\<lambda>C.
       if t_status C \<noteq> kRunning then Done (k, need)
       else obind (upd_tcb k c account_tick) (\<lambda>k.
            obind (scheduler_at k me (t_policy C)) (\<lambda>so.
            obind (case so of
                     None \<Rightarrow> Done (k, need)
                   | Some s \<Rightarrow>
                       if need then Done (k, True)
                       else obind (OnTick (k_tcbs k) s c) (\<lambda>(h, s', b).
                            Done (set_scheduler (k\<lparr>k_tcbs := h\<rparr>) me (t_policy C) s', b))) (\<lambda>(k, need).
            obind (get_tcb k c) (\<lambda>C.
            Done (k, need \<or> si_time_slice_remaining (t_sched_info C) = 0)))))))"

definition TickUpdate :: "size_t \<Rightarrow> kernel \<Rightarrow> kernel outcome" where
  "TickUpdate me k =
     obind (guard_cpu me k) (\<lambda>k.
     let k = upd_cpu k me (\<lambda>c. c\<lparr>cs_local_tick := cs_local_tick c + 1\<rparr>);
         cur_t = GetCurrentTask me k
     in obind (wake_due (pq_size (cs_sleeping_tasks (k_cpu k me))) me cur_t k False) (\<lambda>(k, need).
        obind (TickUpdate_account me cur_t k need) (\<lambda>(k, need).
        let k = unguard_cpu me k
        in if need then Schedule me k else Done k)))"

subsection \<open>Sleep\<close>

definition TICK :: u64 where "TICK = 1000"

definition kMillisecondsPerSecond :: u64 where "kMillisecondsPerSecond = 1000"

definition sleep_ticks :: "u64 \<Rightarrow> u64" where
  "sleep_ticks ms =
     (let n = (ms * TICK + kMillisecondsPerSecond - 1) div kMillisecondsPerSecond
      in if n = 0 then 1 else n)"

definition set_wake_tick :: "u64 \<Rightarrow> TaskControlBlock \<Rightarrow> TaskControlBlock" where
  "set_wake_tick w T = T\<lparr>t_sched_info := (t_sched_info T)\<lparr>si_wake_tick := w\<rparr>\<rparr>"

text \<open>The guarded block of \<open>Sleep\<close>.\<close>

definition Sleep_register :: "size_t \<Rightarrow> tptr \<Rightarrow> u64 \<Rightarrow> kernel \<Rightarrow> kernel outcome" where
  "Sleep_register me c ms k =
     obind (upd_tcb k c (set_wake_tick (cs_local_tick (k_cpu k me) + sleep_ticks ms))) (\<lambda>k.
     obind (get_tcb k c) (\<lambda>C.
     obind (scheduler_at k me (t_policy C)) (\<lambda>so.
     let k = (case so of None \<Rightarrow> k
              | Some s \<Rightarrow> set_scheduler k me (t_policy C) (Dequeue (k_tcbs k) s c))
     in obind (upd_tcb k c (set_status kSleeping)) (\<lambda>k.
        Done (set_sleeping k me (pq_push (wake_cmp (k_tcbs k)) (cs_sleeping_tasks (k_cpu k me)) c))))))"

definition Sleep :: "size_t \<Rightarrow> u64 \<Rightarrow> kernel \<Rightarrow> kernel outcome" where
  "Sleep me ms k = (case GetCurrentTask me k of
     None \<Rightarrow> Fault (AssertFailed ''Sleep: No current task to sleep'')
   | Some c \<Rightarrow>
       obind (get_tcb k c) (\<lambda>C.
       nk_assert_msg (t_status C = kRunning) ''Sleep: current task status must be kRunning'' (
       if ms = 0 then Schedule me k
       else obind (guard_cpu me (set_intr_flag k me False)) (\<lambda>k.
            obind (Sleep_register me c ms k) (\<lambda>k.
            Schedule me (unguard_cpu me k))))))"

subsection \<open>Block and Wakeup\<close>

definition push_blocked :: "kernel \<Rightarrow> size_t \<Rightarrow> ResourceId \<Rightarrow> tptr \<Rightarrow> kernel" where
  "push_blocked k core r t =
     upd_cpu k core (\<lambda>c. c\<lparr>cs_blocked_tasks := um_index hash_u64 [] (cs_blocked_tasks c) r (\<lambda>l. l @ [t])\<rparr>)"

definition Block :: "size_t \<Rightarrow> ResourceId \<Rightarrow> kernel \<Rightarrow> kernel outcome" where
  "Block me r k = (case GetCurrentTask me k of
     None \<Rightarrow> Fault (AssertFailed ''Block: No current task to block'')
   | Some c \<Rightarrow>
       obind (get_tcb k c) (\<lambda>C.
       nk_assert_msg (t_status C = kRunning) ''Block: current task status must be kRunning'' (
       obind (guard_cpu me k) (\<lambda>k.
       obind (upd_tcb k c (\<lambda>T. T\<lparr>t_status := kBlocked, t_blocked_on := r\<rparr>)) (\<lambda>k.
       Schedule me (unguard_cpu me (push_blocked k me r c)))))))"

text \<open>\<open>waiting_tasks.pop_front()\<close> through the reference into the table.\<close>

definition pop_blocked :: "kernel \<Rightarrow> size_t \<Rightarrow> ResourceId \<Rightarrow> kernel" where
  "pop_blocked k core r =
     upd_cpu k core (\<lambda>c. c\<lparr>cs_blocked_tasks := um_write hash_u64 (cs_blocked_tasks c) r tl\<rparr>)"

text \<open>The loop of \<open>Wakeup\<close> over the waiting tasks, front first.\<close>

fun wake_waiting :: "size_t \<Rightarrow> ResourceId \<Rightarrow> tptr list \<Rightarrow> kernel \<Rightarrow> kernel outcome" where
  "wake_waiting me r [] k = Done k"
| "wake_waiting me r (t # ts) k =
     (let k = pop_blocked k me r
      in obind (get_tcb k t) (\<lambda>T.
         nk_assert_msg (t_status T = kBlocked) ''Wakeup: task status must be kBlocked'' (
         nk_assert_msg (t_blocked_on T = r) ''Wakeup: task blocked_on must match resource_id'' (
         obind (upd_tcb k t (\<lambda>T. T\<lparr>t_status := kReady, t_blocked_on := 0\<rparr>)) (\<lambda>k.
         obind (scheduler_at k me (t_policy T)) (\<lambda>so.
         nk_assert_msg (so \<noteq> None) ''Wakeup: scheduler must not be null'' (
         obind (enqueue_if k me (t_policy T) t) (wake_waiting me r ts))))))))"

definition erase_blocked :: "kernel \<Rightarrow> size_t \<Rightarrow> ResourceId \<Rightarrow> kernel" where
  "erase_blocked k core r =
     upd_cpu k core (\<lambda>c. c\<lparr>cs_blocked_tasks := fst (um_erase hash_u64 (cs_blocked_tasks c) r)\<rparr>)"

definition Wakeup :: "size_t \<Rightarrow> ResourceId \<Rightarrow> kernel \<Rightarrow> kernel outcome" where
  "Wakeup me r k =
     obind (guard_cpu me k) (\<lambda>k.
     case um_find hash_u64 (cs_blocked_tasks (k_cpu k me)) r of
       None \<Rightarrow> Done (unguard_cpu me k)
     | Some ts \<Rightarrow>
         obind (wake_waiting me r ts k) (\<lambda>k. Done (unguard_cpu me (erase_blocked k me r))))"

end
