(* ===== verification/Core_Refinement.thy ===== *)
theory Core_Refinement
  imports Scheduling
begin

text \<open>
  What scheduling promises. An abstract core has a running task, an idle task, two ready
  queues, a multiset of sleepers and the waiting tasks of every resource; where a task stands
  decides its status. \<open>core_rel\<close> relates the concrete data of a core to it, and the lemmas
  show that \<open>Schedule\<close>, \<open>TickUpdate\<close>, \<open>Sleep\<close>, \<open>Block\<close> and
  \<open>Wakeup\<close> return and carry out the abstract operations, each touching only the tasks and
  the data of its own core.
\<close>

subsection \<open>The abstract core\<close>

record acore =
  a_run :: "tptr option"  \<comment> \<open>\<open>None\<close>: the running task has been put somewhere else, none is chosen yet\<close>
  a_idle :: tptr
  a_rt :: "tptr list"
  a_norm :: "tptr list"
  a_slp :: "tptr multiset"
  a_blk :: "ResourceId \<Rightarrow> tptr list"

definition owned :: "acore \<Rightarrow> tptr set" where
  "owned a = insert (a_idle a) (set (a_rt a) \<union> set (a_norm a) \<union> set_mset (a_slp a) \<union>
     (\<Union>r. set (a_blk a r)) \<union> set_option (a_run a))"

text \<open>A task that becomes ready goes to the end of the queue of its policy.\<close>

definition a_enqueue :: "(tptr \<Rightarrow> SchedPolicy) \<Rightarrow> tptr \<Rightarrow> acore \<Rightarrow> acore" where
  "a_enqueue pol t a =
     (if pol t = kRealTime then a\<lparr>a_rt := a_rt a @ [t]\<rparr> else a\<lparr>a_norm := a_norm a @ [t]\<rparr>)"

definition a_requeue :: "(tptr \<Rightarrow> SchedPolicy) \<Rightarrow> acore \<Rightarrow> acore" where
  "a_requeue pol a = (case a_run a of
     None \<Rightarrow> a
   | Some r \<Rightarrow> if r = a_idle a then a\<lparr>a_run := None\<rparr> else a_enqueue pol r (a\<lparr>a_run := None\<rparr>))"

text \<open>Real-time tasks first, then normal tasks, then the idle task; each queue in order.\<close>

definition a_next :: "acore \<Rightarrow> tptr" where
  "a_next a = (case a_rt a of t # _ \<Rightarrow> t | [] \<Rightarrow> (case a_norm a of t # _ \<Rightarrow> t | [] \<Rightarrow> a_idle a))"

definition a_rest :: "acore \<Rightarrow> acore" where
  "a_rest a = (case a_rt a of
     t # ts \<Rightarrow> a\<lparr>a_rt := ts\<rparr>
   | [] \<Rightarrow> (case a_norm a of t # ts \<Rightarrow> a\<lparr>a_norm := ts\<rparr> | [] \<Rightarrow> a))"

definition a_pick :: "acore \<Rightarrow> acore" where
  "a_pick a = (a_rest a)\<lparr>a_run := Some (a_next a)\<rparr>"

definition a_schedule :: "(tptr \<Rightarrow> SchedPolicy) \<Rightarrow> acore \<Rightarrow> acore" where
  "a_schedule pol a = a_pick (a_requeue pol a)"

text \<open>The running task goes to sleep or waits; sleepers and waiting tasks become ready.\<close>

definition a_sleep :: "tptr \<Rightarrow> acore \<Rightarrow> acore" where
  "a_sleep r a = a\<lparr>a_slp := add_mset r (a_slp a), a_run := None\<rparr>"

definition a_block :: "tptr \<Rightarrow> ResourceId \<Rightarrow> acore \<Rightarrow> acore" where
  "a_block r rid a = a\<lparr>a_blk := (a_blk a)(rid := a_blk a rid @ [r]), a_run := None\<rparr>"

definition a_wake :: "(tptr \<Rightarrow> SchedPolicy) \<Rightarrow> tptr list \<Rightarrow> acore \<Rightarrow> acore" where
  "a_wake pol ts a = foldl (\<lambda>a t. a_enqueue pol t (a\<lparr>a_slp := a_slp a - {#t#}\<rparr>)) a ts"

definition a_wakeup :: "(tptr \<Rightarrow> SchedPolicy) \<Rightarrow> ResourceId \<Rightarrow> acore \<Rightarrow> acore" where
  "a_wakeup pol rid a = foldl (\<lambda>a t. a_enqueue pol t a) (a\<lparr>a_blk := (a_blk a)(rid := [])\<rparr>) (a_blk a rid)"

subsection \<open>The relation\<close>

definition task_is :: "tcb_heap \<Rightarrow> tptr \<Rightarrow> TaskStatus set \<Rightarrow> SchedPolicy set \<Rightarrow> bool" where
  "task_is h t ss ps \<longleftrightarrow> (case h t of None \<Rightarrow> False | Some T \<Rightarrow> t_status T \<in> ss \<and> t_policy T \<in> ps)"

abbreviation user_policies :: "SchedPolicy set" where
  "user_policies \<equiv> {kRealTime, kNormal}"

definition pol_of :: "tcb_heap \<Rightarrow> tptr \<Rightarrow> SchedPolicy" where
  "pol_of h t = (case h t of None \<Rightarrow> kIdle | Some T \<Rightarrow> t_policy T)"

definition queues_rel :: "CpuSchedData \<Rightarrow> acore \<Rightarrow> bool" where
  "queues_rel cs a \<longleftrightarrow>
     (\<exists>st. cs_schedulers cs kRealTime = Some (FifoScheduler st (a_rt a))) \<and>
     (\<exists>st. cs_schedulers cs kNormal = Some (RoundRobinScheduler st (a_norm a))) \<and>
     (\<exists>st. cs_schedulers cs kIdle = Some (IdleScheduler st (Some (a_idle a)))) \<and>
     mset (cs_sleeping_tasks cs) = a_slp a \<and>
     um_inv hash_u64 (cs_blocked_tasks cs) \<and>
     (\<forall>r. a_blk a r = (case um_find hash_u64 (cs_blocked_tasks cs) r of None \<Rightarrow> [] | Some l \<Rightarrow> l))"

definition tasks_rel :: "tcb_heap \<Rightarrow> acore \<Rightarrow> bool" where
  "tasks_rel h a \<longleftrightarrow>
     distinct (a_rt a) \<and> distinct (a_norm a) \<and> (\<forall>r. distinct (a_blk a r)) \<and>
     (\<forall>t. count (a_slp a) t \<le> 1) \<and>
     (\<forall>t\<in>set (a_rt a). task_is h t {kReady} {kRealTime}) \<and>
     (\<forall>t\<in>set (a_norm a). task_is h t {kReady} {kNormal}) \<and>
     (\<forall>t\<in>#a_slp a. task_is h t {kSleeping} user_policies) \<and>
     (\<forall>r. \<forall>t\<in>set (a_blk a r). task_is h t {kBlocked} user_policies \<and> map_option t_blocked_on (h t) = Some r)"

definition run_rel :: "tcb_heap \<Rightarrow> PerCpu \<Rightarrow> acore \<Rightarrow> bool" where
  "run_rel h pc a \<longleftrightarrow>
     pc_idle_task pc = Some (a_idle a) \<and>
     (case a_run a of
        None \<Rightarrow> (\<exists>c T. pc_running_task pc = Some c \<and> h c = Some T) \<and> task_is h (a_idle a) {kReady} {kIdle}
      | Some r \<Rightarrow> pc_running_task pc = Some r \<and>
          (if r = a_idle a then task_is h r {kReady, kRunning} {kIdle}
           else task_is h r {kRunning} user_policies \<and> task_is h (a_idle a) {kReady} {kIdle}))"

definition core_rel :: "kernel \<Rightarrow> size_t \<Rightarrow> acore \<Rightarrow> bool" where
  "core_rel k c a \<longleftrightarrow>
     queues_rel (k_cpu k c) a \<and> tasks_rel (k_tcbs k) a \<and> run_rel (k_tcbs k) (k_percpu k c) a \<and>
     is_heap (wake_tick (k_tcbs k)) (cs_sleeping_tasks (k_cpu k c))"

definition unlocked :: "kernel \<Rightarrow> size_t \<Rightarrow> bool" where
  "unlocked k c \<longleftrightarrow> \<not> sl_locked (cs_lock (k_cpu k c))"

text \<open>
  Only the data of one core and the blocks of \<open>S\<close> differ; policies stay as they are, and
  for \<open>touch\<close> also the wake-up times and the core's tick.
\<close>

definition local_step :: "size_t \<Rightarrow> tptr set \<Rightarrow> kernel \<Rightarrow> kernel \<Rightarrow> bool" where
  "local_step me S k k' \<longleftrightarrow>
     (\<forall>c. c \<noteq> me \<longrightarrow> k_cpu k' c = k_cpu k c \<and> k_percpu k' c = k_percpu k c \<and> k_intr k' c = k_intr k c) \<and>
     k_task_table k' = k_task_table k \<and> k_task_table_lock k' = k_task_table_lock k \<and>
     k_pid_allocator k' = k_pid_allocator k \<and>
     (\<forall>t. t \<notin> S \<longrightarrow> k_tcbs k' t = k_tcbs k t) \<and> dom (k_tcbs k') = dom (k_tcbs k) \<and>
     pol_of (k_tcbs k') = pol_of (k_tcbs k)"

definition touch :: "size_t \<Rightarrow> tptr set \<Rightarrow> kernel \<Rightarrow> kernel \<Rightarrow> bool" where
  "touch me S k k' \<longleftrightarrow> local_step me S k k' \<and> wake_tick (k_tcbs k') = wake_tick (k_tcbs k) \<and>
     cs_local_tick (k_cpu k' me) = cs_local_tick (k_cpu k me)"

lemma touch_local: "touch me S k k' \<Longrightarrow> local_step me S k k'"
  by (simp add: touch_def)

lemma local_step_trans: "local_step me S k k1 \<Longrightarrow> local_step me S k1 k2 \<Longrightarrow> local_step me S k k2"
  by (simp add: local_step_def)

named_theorems touch_intros \<open>steps that stay within a core\<close>

lemma touch_refl [touch_intros]: "touch me S k k"
  by (simp add: touch_def local_step_def)

lemma touch_trans: "touch me S k k1 \<Longrightarrow> touch me S k1 k2 \<Longrightarrow> touch me S k k2"
  by (simp add: touch_def local_step_def)

lemma touch_mono: "touch me S k k' \<Longrightarrow> S \<subseteq> S' \<Longrightarrow> touch me S' k k'"
  unfolding touch_def local_step_def by blast

lemma touch_upd_cpu [touch_intros]:
  "touch me S k k' \<Longrightarrow> (\<And>c. cs_local_tick (f c) = cs_local_tick c) \<Longrightarrow> touch me S k (upd_cpu k' me f)"
  by (simp add: touch_def local_step_def upd_cpu_def)

lemma touch_upd_percpu [touch_intros]: "touch me S k k' \<Longrightarrow> touch me S k (upd_percpu k' me f)"
  by (simp add: touch_def local_step_def upd_percpu_def)

lemma touch_set_intr_flag [touch_intros]: "touch me S k k' \<Longrightarrow> touch me S k (set_intr_flag k' me b)"
  by (simp add: touch_def local_step_def set_intr_flag_def)

lemma touch_emit [touch_intros]: "touch me S k k' \<Longrightarrow> touch me S k (emit k' e)"
  by (simp add: touch_def local_step_def emit_def)

lemma touch_boot_done [touch_intros]: "touch me S k k' \<Longrightarrow> touch me S k (k'\<lparr>k_boot_done := b\<rparr>)"
  by (simp add: touch_def local_step_def)

lemma touch_set_scheduler [touch_intros]: "touch me S k k' \<Longrightarrow> touch me S k (set_scheduler k' me p s)"
  by (simp add: set_scheduler_def touch_intros)

lemma touch_set_cpu_lock [touch_intros]: "touch me S k k' \<Longrightarrow> touch me S k (set_cpu_lock k' me me il)"
  by (simp add: set_cpu_lock_def touch_intros)

lemma touch_set_sleeping [touch_intros]: "touch me S k k' \<Longrightarrow> touch me S k (set_sleeping k' me q)"
  by (simp add: set_sleeping_def touch_intros)

lemma pol_of_upd: "h t = Some T \<Longrightarrow> t_policy T' = t_policy T \<Longrightarrow> pol_of (h(t \<mapsto> T')) = pol_of h"
  by (rule ext) (simp add: pol_of_def)

lemma dom_upd: "h t = Some T \<Longrightarrow> dom (h(t \<mapsto> T')) = dom h"
  by auto

lemma local_step_tcb:
  assumes "local_step me S k k'" "k_tcbs k' t = Some T" "t \<in> S" "t_policy T' = t_policy T"
  shows "local_step me S k (k'\<lparr>k_tcbs := (k_tcbs k')(t \<mapsto> T')\<rparr>)"
  using assms pol_of_upd [of "k_tcbs k'" t T T'] dom_upd [of "k_tcbs k'" t T T'] unfolding local_step_def by auto

lemma wake_tick_upd_same:
  "h t = Some T \<Longrightarrow> si_wake_tick (t_sched_info T') = si_wake_tick (t_sched_info T) \<Longrightarrow>
   wake_tick (h(t \<mapsto> T')) = wake_tick h"
  by (rule ext) (simp add: wake_tick_def)

lemma touch_tcb:
  assumes "touch me S k k'" "k_tcbs k' t = Some T" "t \<in> S" "t_policy T' = t_policy T"
    and "si_wake_tick (t_sched_info T') = si_wake_tick (t_sched_info T)"
  shows "touch me S k (k'\<lparr>k_tcbs := (k_tcbs k')(t \<mapsto> T')\<rparr>)"
  using assms local_step_tcb [of me S k k' t T T'] wake_tick_upd_same [of "k_tcbs k'" t T T'] unfolding touch_def by simp

subsection \<open>Symbolic execution\<close>

named_theorems exec_simps \<open>reading back after a write\<close>

lemma get_tcb_Some [exec_simps]: "k_tcbs k t = Some T \<Longrightarrow> get_tcb k t = Done T"
  by (simp add: get_tcb_def)

lemma upd_tcb_Some [exec_simps]:
  "k_tcbs k t = Some T \<Longrightarrow> upd_tcb k t f = Done (k\<lparr>k_tcbs := (k_tcbs k)(t \<mapsto> f T)\<rparr>)"
  by (simp add: upd_tcb_def)

lemma k_tcbs_frames [exec_simps]:
  "k_tcbs (upd_cpu k c f) = k_tcbs k" "k_tcbs (upd_percpu k c g) = k_tcbs k"
  "k_tcbs (set_intr_flag k c b) = k_tcbs k" "k_tcbs (emit k e) = k_tcbs k"
  "k_tcbs (set_scheduler k c p s) = k_tcbs k" "k_tcbs (set_cpu_lock k c d il) = k_tcbs k"
  "k_tcbs (set_sleeping k c q) = k_tcbs k"
  by (simp_all add: upd_cpu_def upd_percpu_def set_intr_flag_def emit_def set_scheduler_def
      set_cpu_lock_def set_sleeping_def)

lemma k_cpu_frames [exec_simps]:
  "k_cpu (upd_cpu k c f) = (k_cpu k)(c := f (k_cpu k c))" "k_cpu (upd_percpu k c g) = k_cpu k"
  "k_cpu (set_intr_flag k c b) = k_cpu k" "k_cpu (emit k e) = k_cpu k"
  "k_cpu (set_scheduler k c p s) =
     (k_cpu k)(c := (k_cpu k c)\<lparr>cs_schedulers := (cs_schedulers (k_cpu k c))(p \<mapsto> s)\<rparr>)"
  "k_cpu (set_cpu_lock k c d il) = (k_cpu k)(d := (k_cpu k d)\<lparr>cs_lock := snd il\<rparr>)"
  "k_cpu (set_sleeping k c q) = (k_cpu k)(c := (k_cpu k c)\<lparr>cs_sleeping_tasks := q\<rparr>)"
  by (simp_all add: upd_cpu_def upd_percpu_def set_intr_flag_def emit_def set_scheduler_def
      set_cpu_lock_def set_sleeping_def)

lemma k_percpu_frames [exec_simps]:
  "k_percpu (upd_cpu k c f) = k_percpu k" "k_percpu (upd_percpu k c g) = (k_percpu k)(c := g (k_percpu k c))"
  "k_percpu (set_intr_flag k c b) = k_percpu k" "k_percpu (emit k e) = k_percpu k"
  "k_percpu (set_scheduler k c p s) = k_percpu k" "k_percpu (set_cpu_lock k c d il) = k_percpu k"
  "k_percpu (set_sleeping k c q) = k_percpu k"
  by (simp_all add: upd_cpu_def upd_percpu_def set_intr_flag_def emit_def set_scheduler_def
      set_cpu_lock_def set_sleeping_def)

lemma k_boot_done_frames [exec_simps]:
  "k_boot_done (upd_cpu k c f) = k_boot_done k" "k_boot_done (upd_percpu k c g) = k_boot_done k"
  "k_boot_done (set_intr_flag k c b) = k_boot_done k" "k_boot_done (set_scheduler k c p s) = k_boot_done k"
  "k_boot_done (set_cpu_lock k c d il) = k_boot_done k" "k_boot_done (set_sleeping k c q) = k_boot_done k"
  by (simp_all add: upd_cpu_def upd_percpu_def set_intr_flag_def set_scheduler_def
      set_cpu_lock_def set_sleeping_def)

lemma scheduler_at_user [exec_simps]: "p \<noteq> kPolicyCount \<Longrightarrow> scheduler_at k c p = Done (cs_schedulers (k_cpu k c) p)"
  by (simp add: scheduler_at_def policy_less_count)

text \<open>Fields that the relation does not look at.\<close>

lemma queues_rel_lock [simp]: "queues_rel (cs\<lparr>cs_lock := l\<rparr>) a = queues_rel cs a"
  by (simp add: queues_rel_def)

lemma queues_rel_counters [simp]:
  "queues_rel (cs\<lparr>cs_total_schedules := n\<rparr>) a = queues_rel cs a"
  "queues_rel (cs\<lparr>cs_local_tick := n\<rparr>) a = queues_rel cs a"
  by (simp_all add: queues_rel_def)

lemma core_rel_lock [simp]: "core_rel (set_cpu_lock k c me il) me a = core_rel k me a"
  by (simp add: core_rel_def exec_simps)

lemma core_rel_intr [simp]:
  "core_rel (set_intr_flag k c b) d a = core_rel k d a" "core_rel (emit k e) d a = core_rel k d a"
  "core_rel (k\<lparr>k_boot_done := b\<rparr>) d a = core_rel k d a"
  by (simp_all add: core_rel_def exec_simps)

lemma core_rel_upd_other: "core_rel (k\<lparr>k_intr := i, k_trace := tr, k_boot_done := b\<rparr>) d a = core_rel k d a"
  by (simp add: core_rel_def)

text \<open>Taking and releasing the core's own lock.\<close>

lemma lock_cpu_free:
  "unlocked k me \<Longrightarrow> \<exists>l. lock_cpu me me k = Done (set_cpu_lock k me me (False, l)) \<and> sl_locked l \<and> sl_core_id l = me"
  by (rule exI [of _ "(cs_lock (k_cpu k me))\<lparr>sl_locked := True, sl_core_id := me, sl_saved_intr_enable := k_intr k me\<rparr>"])
    (simp add: unlocked_def lock_cpu_def SpinLock_Lock_def)

lemma guard_cpu_free:
  "unlocked k me \<Longrightarrow> \<exists>l. guard_cpu me k = Done (set_cpu_lock k me me (False, l)) \<and> sl_locked l \<and> sl_core_id l = me"
  by (rule exI [of _ "(cs_lock (k_cpu k me))\<lparr>sl_locked := True, sl_core_id := me, sl_saved_intr_enable := k_intr k me\<rparr>"])
    (simp add: unlocked_def guard_cpu_def)

definition held :: "kernel \<Rightarrow> size_t \<Rightarrow> bool" where
  "held k c \<longleftrightarrow> IsLockedByCurrentCore c (cs_lock (k_cpu k c))"

lemma unlock_cpu_held:
  "held k me \<Longrightarrow> \<exists>il. unlock_cpu me me k = set_cpu_lock k me me il \<and> \<not> sl_locked (snd il)"
  by (rule exI [of _ "snd (SpinLock_UnLock me (k_intr k me) (cs_lock (k_cpu k me)))"])
    (simp add: held_def unlock_cpu_def SpinLock_UnLock_def)

lemma unguard_cpu_held:
  "held k me \<Longrightarrow> \<exists>il. unguard_cpu me k = set_cpu_lock k me me il \<and> \<not> sl_locked (snd il)"
  by (rule exI [of _ "snd (SpinLock_UnLock me (k_intr k me) (cs_lock (k_cpu k me)))"])
    (simp add: held_def unguard_cpu_def LockGuard_dtor_def SpinLock_UnLock_def)

lemma held_frames [exec_simps]:
  "held (upd_percpu k c g) me = held k me" "held (set_intr_flag k c b) me = held k me"
  "held (set_scheduler k c p s) me = held k me" "held (set_sleeping k c q) me = held k me"
  "held (k\<lparr>k_tcbs := h\<rparr>) me = held k me"
  by (simp_all add: held_def exec_simps)

lemma unlocked_frames [exec_simps]:
  "unlocked (set_intr_flag k c b) me = unlocked k me" "unlocked (emit k e) me = unlocked k me"
  "unlocked (k\<lparr>k_boot_done := b'\<rparr>) me = unlocked k me"
  "unlocked (set_cpu_lock k c me il) me = (\<not> sl_locked (snd il))"
  by (simp_all add: unlocked_def exec_simps)

subsection \<open>Moving one task\<close>

lemma task_is_upd [simp]:
  "task_is (h(t \<mapsto> T')) u ss ps =
     (if u = t then t_status T' \<in> ss \<and> t_policy T' \<in> ps else task_is h u ss ps)"
  by (simp add: task_is_def)

lemma task_isE:
  assumes "task_is h t ss ps"
  obtains T where "h t = Some T" "t_status T \<in> ss" "t_policy T \<in> ps"
  using assms by (auto simp: task_is_def split: option.splits)

lemma task_is_Some: "h t = Some T \<Longrightarrow> task_is h t ss ps \<longleftrightarrow> t_status T \<in> ss \<and> t_policy T \<in> ps"
  by (simp add: task_is_def)

lemma tasks_relD:
  assumes "tasks_rel h a"
  shows "t \<in> set (a_rt a) \<Longrightarrow> task_is h t {kReady} {kRealTime}"
    and "t \<in> set (a_norm a) \<Longrightarrow> task_is h t {kReady} {kNormal}"
    and "t \<in># a_slp a \<Longrightarrow> task_is h t {kSleeping} user_policies"
    and "t \<in> set (a_blk a r) \<Longrightarrow> task_is h t {kBlocked} user_policies"
    and "t \<in> set (a_blk a r) \<Longrightarrow> map_option t_blocked_on (h t) = Some r"
    and "distinct (a_rt a)" "distinct (a_norm a)" "distinct (a_blk a r)" "count (a_slp a) t \<le> 1"
  using assms unfolding tasks_rel_def by blast+

lemma tasks_relI:
  assumes "distinct (a_rt a)" "distinct (a_norm a)" "\<And>r. distinct (a_blk a r)" "\<And>t. count (a_slp a) t \<le> 1"
    and "\<And>t. t \<in> set (a_rt a) \<Longrightarrow> task_is h t {kReady} {kRealTime}"
    and "\<And>t. t \<in> set (a_norm a) \<Longrightarrow> task_is h t {kReady} {kNormal}"
    and "\<And>t. t \<in># a_slp a \<Longrightarrow> task_is h t {kSleeping} user_policies"
    and "\<And>t r. t \<in> set (a_blk a r) \<Longrightarrow> task_is h t {kBlocked} user_policies"
    and "\<And>t r. t \<in> set (a_blk a r) \<Longrightarrow> map_option t_blocked_on (h t) = Some r"
  shows "tasks_rel h a"
  using assms unfolding tasks_rel_def by blast

definition nowhere :: "acore \<Rightarrow> tptr \<Rightarrow> bool" where
  "nowhere a t \<longleftrightarrow> t \<notin> set (a_rt a) \<and> t \<notin> set (a_norm a) \<and> t \<notin># a_slp a \<and> (\<forall>r. t \<notin> set (a_blk a r))"

lemma nowhereD:
  assumes "nowhere a t"
  shows "t \<notin> set (a_rt a)" "t \<notin> set (a_norm a)" "t \<notin># a_slp a" "t \<notin> set (a_blk a r)"
  using assms unfolding nowhere_def by blast+

text \<open>Status and policy of a task tell where it can stand.\<close>

lemma tasks_rel_place:
  assumes "tasks_rel h a" "h t = Some T"
  shows "t_status T \<noteq> kReady \<or> t_policy T \<noteq> kRealTime \<Longrightarrow> t \<notin> set (a_rt a)"
    and "t_status T \<noteq> kReady \<or> t_policy T \<noteq> kNormal \<Longrightarrow> t \<notin> set (a_norm a)"
    and "t_status T \<noteq> kSleeping \<or> t_policy T = kIdle \<Longrightarrow> t \<notin># a_slp a"
    and "t_status T \<noteq> kBlocked \<or> t_policy T = kIdle \<or> t_blocked_on T \<noteq> r \<Longrightarrow> t \<notin> set (a_blk a r)"
  using tasks_relD(1-5) [OF assms(1), of t] assms(2) by (auto simp: task_is_Some)

lemma nowhere_running:
  assumes "tasks_rel h a" "h t = Some T" "t_status T = kRunning \<or> t_policy T = kIdle"
  shows "nowhere a t"
  using assms(3) tasks_rel_place [OF assms(1,2)] unfolding nowhere_def by auto

lemma nowhere_run [simp]: "nowhere (a\<lparr>a_run := r\<rparr>) t = nowhere a t"
  by (simp add: nowhere_def)

lemma tasks_rel_run [simp]: "tasks_rel h (a\<lparr>a_run := r\<rparr>) = tasks_rel h a"
  by (simp add: tasks_rel_def)

lemma queues_rel_run [simp]: "queues_rel cs (a\<lparr>a_run := r\<rparr>) = queues_rel cs a"
  by (simp add: queues_rel_def)

lemma tasks_frame:
  assumes "tasks_rel h a" "nowhere a t"
  shows "tasks_rel (h(t := v)) a"
proof -
  have *: "task_is (h(t := v)) u ss ps = task_is h u ss ps" "(h(t := v)) u = h u" if "u \<noteq> t" for u ss ps
    using that by (simp_all add: task_is_def)
  show ?thesis
  proof (rule tasks_relI)
    fix u
    show "u \<in> set (a_rt a) \<Longrightarrow> task_is (h(t := v)) u {kReady} {kRealTime}"
      using tasks_relD(1) [OF assms(1)] nowhereD(1) [OF assms(2)] by (metis *(1))
    show "u \<in> set (a_norm a) \<Longrightarrow> task_is (h(t := v)) u {kReady} {kNormal}"
      using tasks_relD(2) [OF assms(1)] nowhereD(2) [OF assms(2)] by (metis *(1))
    show "u \<in># a_slp a \<Longrightarrow> task_is (h(t := v)) u {kSleeping} user_policies"
      using tasks_relD(3) [OF assms(1)] nowhereD(3) [OF assms(2)] by (metis *(1))
    show "count (a_slp a) u \<le> 1" by (rule tasks_relD(9) [OF assms(1)])
    fix r
    show "u \<in> set (a_blk a r) \<Longrightarrow> task_is (h(t := v)) u {kBlocked} user_policies"
      using tasks_relD(4) [OF assms(1)] nowhereD(4) [OF assms(2)] by (metis *(1))
    show "u \<in> set (a_blk a r) \<Longrightarrow> map_option t_blocked_on ((h(t := v)) u) = Some r"
      using tasks_relD(5) [OF assms(1)] nowhereD(4) [OF assms(2)] by (metis *(2))
    show "distinct (a_blk a r)" by (rule tasks_relD(8) [OF assms(1)])
  qed (use tasks_relD(6,7) [OF assms(1)] in simp_all)
qed

lemma tasks_enqueue:
  assumes "tasks_rel h a" "nowhere a t" "h t = Some T" "t_status T = kReady" "t_policy T \<in> user_policies"
    and "pol t = t_policy T"
  shows "tasks_rel h (a_enqueue pol t a)"
  using tasks_relD [OF assms(1)] nowhereD [OF assms(2)] assms(3-6)
  by (intro tasks_relI) (auto simp: a_enqueue_def task_is_Some split: if_splits)

lemma tasks_add_sleeper:
  assumes "tasks_rel h a" "nowhere a t" "h t = Some T" "t_status T = kSleeping" "t_policy T \<in> user_policies"
  shows "tasks_rel h (a\<lparr>a_slp := add_mset t (a_slp a)\<rparr>)"
  using tasks_relD [OF assms(1)] nowhereD [OF assms(2)] assms(3-5)
  by (intro tasks_relI) (auto simp: task_is_Some not_in_iff)

lemma tasks_remove_sleeper:
  assumes "tasks_rel h a" "t \<in># a_slp a"
  shows "tasks_rel h (a\<lparr>a_slp := a_slp a - {#t#}\<rparr>)" "nowhere (a\<lparr>a_slp := a_slp a - {#t#}\<rparr>) t"
proof -
  have c: "count (a_slp a) u \<le> 1" for u by (rule tasks_relD(9) [OF assms(1)])
  have "count (a_slp a - {#t#}) t = 0" using c [of t] by simp
  then have s: "t \<notin># a_slp a - {#t#}" by (simp add: not_in_iff)
  obtain T where T: "h t = Some T" "t_status T = kSleeping" "t_policy T \<in> user_policies"
    using tasks_relD(3) [OF assms] by (auto elim: task_isE)
  show "nowhere (a\<lparr>a_slp := a_slp a - {#t#}\<rparr>) t"
    using tasks_rel_place [OF assms(1) T(1)] T(2) s unfolding nowhere_def by simp
  have c': "count (a_slp a - {#t#}) u \<le> 1" for u using c [of u] by simp
  show "tasks_rel h (a\<lparr>a_slp := a_slp a - {#t#}\<rparr>)"
    using tasks_relD [OF assms(1)] c' by (intro tasks_relI) (simp_all add: in_diffD)
qed

lemma tasks_add_blocked:
  assumes "tasks_rel h a" "nowhere a t" "h t = Some T" "t_status T = kBlocked" "t_policy T \<in> user_policies"
    and "t_blocked_on T = r"
  shows "tasks_rel h (a\<lparr>a_blk := (a_blk a)(r := a_blk a r @ [t])\<rparr>)"
  using tasks_relD [OF assms(1)] nowhereD [OF assms(2)] assms(3-6)
  by (intro tasks_relI) (auto simp: task_is_Some split: if_splits)

text \<open>The heap order of the sleeping queue under writes to a block.\<close>

lemma wake_tick_upd: "wake_tick (h(t \<mapsto> T)) u = (if u = t then si_wake_tick (t_sched_info T) else wake_tick h u)"
  by (simp add: wake_tick_def)

lemma is_heap_wake_other: "t \<notin> set q \<Longrightarrow> is_heap (wake_tick (h(t \<mapsto> T))) q = is_heap (wake_tick h) q"
  by (rule is_heap_cong) (metis wake_tick_upd)

lemma is_heap_wake_same:
  "h t = Some T \<Longrightarrow> si_wake_tick (t_sched_info T') = si_wake_tick (t_sched_info T) \<Longrightarrow>
   is_heap (wake_tick (h(t \<mapsto> T'))) q = is_heap (wake_tick h) q"
  by (rule is_heap_cong) (simp add: wake_tick_def)

lemma refill_slice_view [simp]:
  "t_status (refill_slice T) = t_status T" "t_policy (refill_slice T) = t_policy T"
  "t_blocked_on (refill_slice T) = t_blocked_on T"
  "si_wake_tick (t_sched_info (refill_slice T)) = si_wake_tick (t_sched_info T)"
  by (simp_all add: refill_slice_def)

lemma set_status_view [simp]:
  "t_status (set_status s T) = s" "t_policy (set_status s T) = t_policy T"
  "t_blocked_on (set_status s T) = t_blocked_on T" "t_sched_info (set_status s T) = t_sched_info T"
  by (simp_all add: set_status_def)

lemma start_running_view [simp]:
  "t_status (start_running T) = kRunning" "t_policy (start_running T) = t_policy T"
  "si_wake_tick (t_sched_info (start_running T)) = si_wake_tick (t_sched_info T)"
  by (simp_all add: start_running_def)

lemma enqueue_user:
  assumes "queues_rel (k_cpu k me) a" "k_tcbs k t = Some T" "t_policy T \<in> user_policies"
  shows "\<exists>s T'. enqueue_if k me (t_policy T) t =
           Done (set_scheduler (k\<lparr>k_tcbs := (k_tcbs k)(t \<mapsto> T')\<rparr>) me (t_policy T) s) \<and>
           (T' = T \<or> T' = refill_slice T) \<and>
           queues_rel ((k_cpu k me)\<lparr>cs_schedulers := (cs_schedulers (k_cpu k me))(t_policy T \<mapsto> s)\<rparr>)
             (a_enqueue (\<lambda>_. t_policy T) t a)"
proof (cases "t_policy T")
  case kRealTime
  then obtain st where "cs_schedulers (k_cpu k me) kRealTime = Some (FifoScheduler st (a_rt a))"
    using assms(1) by (auto simp: queues_rel_def)
  then have e: "enqueue_if k me kRealTime t =
      Done (set_scheduler (k\<lparr>k_tcbs := (k_tcbs k)(t \<mapsto> T)\<rparr>) me kRealTime (FifoScheduler (count_enqueue st) (a_rt a @ [t])))"
    using assms(2) by (simp add: enqueue_if_def exec_simps Enqueue_defs Fifo_Enqueue_def fun_upd_idem)
  show ?thesis
    by (rule exI [of _ "FifoScheduler (count_enqueue st) (a_rt a @ [t])"], rule exI [of _ T])
      (use assms(1) e kRealTime in \<open>simp add: queues_rel_def a_enqueue_def\<close>)
next
  case kNormal
  then obtain st where "cs_schedulers (k_cpu k me) kNormal = Some (RoundRobinScheduler st (a_norm a))"
    using assms(1) by (auto simp: queues_rel_def)
  then have e: "enqueue_if k me kNormal t =
      Done (set_scheduler (k\<lparr>k_tcbs := (k_tcbs k)(t \<mapsto> refill_slice T)\<rparr>) me kNormal
              (RoundRobinScheduler (count_enqueue st) (a_norm a @ [t])))"
    using assms(2) by (simp add: enqueue_if_def exec_simps Enqueue_defs RR_Enqueue_def)
  show ?thesis
    by (rule exI [of _ "RoundRobinScheduler (count_enqueue st) (a_norm a @ [t])"], rule exI [of _ "refill_slice T"])
      (use assms(1) e kNormal in \<open>simp add: queues_rel_def a_enqueue_def\<close>)
qed (use assms(3) in simp_all)

subsection \<open>Requeueing the running task\<close>

lemma k_tcbs_idem [simp]: "k\<lparr>k_tcbs := k_tcbs k\<rparr> = k"
  by simp

lemma a_enqueue_cong: "pol t = pol' t \<Longrightarrow> a_enqueue pol t a = a_enqueue pol' t a"
  by (simp add: a_enqueue_def)

lemma a_run_enqueue [simp]:
  "a_run (a_enqueue pol t a) = a_run a" "a_idle (a_enqueue pol t a) = a_idle a"
  "a_slp (a_enqueue pol t a) = a_slp a" "a_blk (a_enqueue pol t a) = a_blk a"
  by (simp_all add: a_enqueue_def)

lemma pol_of_Some: "h t = Some T \<Longrightarrow> pol_of h t = t_policy T"
  by (simp add: pol_of_def)

text \<open>Data of the core after a write to one of its schedulers and to one block.\<close>

lemma core_rel_sched_tcb:
  "core_rel (set_scheduler (k\<lparr>k_tcbs := h\<rparr>) me p s) me a \<longleftrightarrow>
     queues_rel ((k_cpu k me)\<lparr>cs_schedulers := (cs_schedulers (k_cpu k me))(p \<mapsto> s)\<rparr>) a \<and>
     tasks_rel h a \<and> run_rel h (k_percpu k me) a \<and> is_heap (wake_tick h) (cs_sleeping_tasks (k_cpu k me))"
  by (simp add: core_rel_def exec_simps)

lemma preempt_user:
  assumes "queues_rel cs a" "h t = Some T" "t_policy T \<in> user_policies"
  shows "\<exists>s T'. cs_schedulers cs (t_policy T) = Some s \<and>
           OnTimeSliceExpired h (OnPreempted s) t = Done (h(t \<mapsto> T'), True) \<and>
           (T' = T \<or> T' = refill_slice T) \<and>
           queues_rel (cs\<lparr>cs_schedulers := (cs_schedulers cs)(t_policy T \<mapsto> OnPreempted s)\<rparr>) a"
proof (cases "t_policy T")
  case kRealTime
  then obtain st where s: "cs_schedulers cs kRealTime = Some (FifoScheduler st (a_rt a))"
    using assms(1) by (auto simp: queues_rel_def)
  have "OnTimeSliceExpired h (OnPreempted (FifoScheduler st (a_rt a))) t = Done (h(t \<mapsto> T), True)"
    using assms(2) by (simp add: OnTimeSliceExpired_defs OnPreempted_defs fun_upd_idem)
  with s assms(1) kRealTime show ?thesis
    by (intro exI [of _ "FifoScheduler st (a_rt a)"] exI [of _ T]) (simp add: queues_rel_def OnPreempted_defs)
next
  case kNormal
  then obtain st where s: "cs_schedulers cs kNormal = Some (RoundRobinScheduler st (a_norm a))"
    using assms(1) by (auto simp: queues_rel_def)
  have "OnTimeSliceExpired h (OnPreempted (RoundRobinScheduler st (a_norm a))) t = Done (h(t \<mapsto> refill_slice T), True)"
    using assms(2) by (simp add: OnTimeSliceExpired_defs OnPreempted_defs)
  with s assms(1) kNormal show ?thesis
    by (intro exI [of _ "RoundRobinScheduler st (a_norm a)"] exI [of _ "refill_slice T"])
      (simp add: queues_rel_def OnPreempted_defs)
qed (use assms(3) in simp_all)

lemma enqueue_if_percpu: "enqueue_if k c p t = Done k' \<Longrightarrow> k_percpu k' = k_percpu k"
  by (auto simp: enqueue_if_def outcome_simps exec_simps split: option.splits)

lemma requeue_percpu: "Schedule_requeue me r k = Done k' \<Longrightarrow> k_percpu k' = k_percpu k"
  by (auto simp: Schedule_requeue_def outcome_simps exec_simps Let_def upd_tcb_def dest!: enqueue_if_percpu
      split: option.splits if_splits)

lemma requeue_idle:
  assumes "core_rel k me a" "a_run a = Some (a_idle a)" "held k me"
  shows "\<exists>k'. Schedule_requeue me (a_idle a) k = Done k' \<and> core_rel k' me (a\<lparr>a_run := None\<rparr>) \<and>
           touch me (owned a) k k' \<and> held k' me"
proof -
  let ?i = "a_idle a"
  have rel: "queues_rel (k_cpu k me) a" "tasks_rel (k_tcbs k) a" "run_rel (k_tcbs k) (k_percpu k me) a"
      "is_heap (wake_tick (k_tcbs k)) (cs_sleeping_tasks (k_cpu k me))"
    using assms(1) by (simp_all add: core_rel_def)
  obtain T where T: "k_tcbs k ?i = Some T" "t_status T \<in> {kReady, kRunning}" "t_policy T = kIdle"
    using rel(3) assms(2) by (auto simp: run_rel_def elim: task_isE)
  obtain st where s: "cs_schedulers (k_cpu k me) kIdle = Some (IdleScheduler st (Some ?i))"
    using rel(1) by (auto simp: queues_rel_def)
  have run: "pc_running_task (k_percpu k me) = Some ?i" "pc_idle_task (k_percpu k me) = Some ?i"
    using rel(3) assms(2) by (simp_all add: run_rel_def)
  show ?thesis
  proof (cases "t_status T = kRunning")
    case False
    then have "Schedule_requeue me ?i k = Done k" "t_status T = kReady"
      using T by (simp_all add: Schedule_requeue_def exec_simps)
    with T rel run assms(3) show ?thesis
      by (intro exI [of _ k]) (simp add: core_rel_def run_rel_def task_is_Some touch_refl)
  next
    case True
    let ?T = "set_status kReady T"
    let ?k = "set_scheduler (k\<lparr>k_tcbs := (k_tcbs k)(?i \<mapsto> ?T)\<rparr>) me kIdle (IdleScheduler (count_preemption st) (Some ?i))"
    have "Schedule_requeue me ?i k = Done ?k"
      using True T s by (simp add: Schedule_requeue_def exec_simps OnPreempted_defs OnTimeSliceExpired_defs Let_def)
    moreover have "nowhere a ?i" by (rule nowhere_running [OF rel(2) T(1)]) (simp add: T(3))
    then have "core_rel ?k me (a\<lparr>a_run := None\<rparr>)"
      using rel(1,4) run T tasks_frame [OF rel(2)] is_heap_wake_same [of "k_tcbs k" ?i T ?T]
      by (simp add: core_rel_sched_tcb queues_rel_def run_rel_def)
    moreover have "touch me (owned a) k ?k"
      by (intro touch_intros touch_tcb [OF touch_refl T(1)]) (simp_all add: owned_def)
    ultimately show ?thesis using assms(3) by (simp add: exec_simps)
  qed
qed

lemma requeue_user:
  assumes "core_rel k me a" "a_run a = Some r" "r \<noteq> a_idle a" "held k me"
  shows "\<exists>k'. Schedule_requeue me r k = Done k' \<and>
           core_rel k' me (a_enqueue (pol_of (k_tcbs k)) r (a\<lparr>a_run := None\<rparr>)) \<and>
           touch me (owned a) k k' \<and> held k' me"
proof -
  let ?h = "k_tcbs k" and ?a = "a\<lparr>a_run := None\<rparr>"
  have rel: "queues_rel (k_cpu k me) a" "tasks_rel ?h a" "run_rel ?h (k_percpu k me) a"
      "is_heap (wake_tick ?h) (cs_sleeping_tasks (k_cpu k me))"
    using assms(1) by (simp_all add: core_rel_def)
  obtain T where T: "?h r = Some T" "t_status T = kRunning" "t_policy T \<in> user_policies"
    using rel(3) assms(2,3) by (auto simp: run_rel_def elim: task_isE)
  let ?p = "t_policy T"
  have np: "?p \<noteq> kPolicyCount" using T(3) by auto
  define T1 where "T1 = set_status kReady T"
  have T1: "t_status T1 = kReady" "t_policy T1 = ?p" by (simp_all add: T1_def)
  let ?k1 = "k\<lparr>k_tcbs := ?h(r \<mapsto> T1)\<rparr>"
  have q1: "queues_rel (k_cpu ?k1 me) ?a" "(?h(r \<mapsto> T1)) r = Some T1" "t_policy T1 \<in> user_policies"
    using rel(1) T(3) T1 by simp_all
  obtain s T2 where s: "cs_schedulers (k_cpu k me) ?p = Some s"
      "OnTimeSliceExpired (?h(r \<mapsto> T1)) (OnPreempted s) r = Done (?h(r \<mapsto> T2), True)"
      "T2 = T1 \<or> T2 = refill_slice T1"
      "queues_rel ((k_cpu k me)\<lparr>cs_schedulers := (cs_schedulers (k_cpu k me))(?p \<mapsto> OnPreempted s)\<rparr>) ?a"
    using preempt_user [where cs = "k_cpu ?k1 me" and h = "?h(r \<mapsto> T1)" and t = r and T = T1, OF q1] T1(2) by auto
  let ?k2 = "(set_scheduler ?k1 me ?p (OnPreempted s))\<lparr>k_tcbs := ?h(r \<mapsto> T2)\<rparr>"
  have T2: "t_status T2 = kReady" "t_policy T2 = ?p" using s(3) T1 by auto
  have q2: "queues_rel (k_cpu ?k2 me) ?a" using s(4) by (simp add: exec_simps)
  obtain s' T3 where e: "enqueue_if ?k2 me ?p r =
        Done (set_scheduler (?k2\<lparr>k_tcbs := ?h(r \<mapsto> T3)\<rparr>) me ?p s')" "T3 = T2 \<or> T3 = refill_slice T2"
      "queues_rel ((k_cpu ?k2 me)\<lparr>cs_schedulers := (cs_schedulers (k_cpu ?k2 me))(?p \<mapsto> s')\<rparr>)
         (a_enqueue (\<lambda>_. ?p) r ?a)"
    using enqueue_user [OF q2, of r T2] T2 T(3) by auto
  let ?k3 = "set_scheduler (?k2\<lparr>k_tcbs := ?h(r \<mapsto> T3)\<rparr>) me ?p s'"
  have T3: "t_status T3 = kReady" "t_policy T3 = ?p" using e(2) T2 by auto
  have "Schedule_requeue me r k = Done ?k3"
    using T s np e(1) by (simp add: Schedule_requeue_def exec_simps Let_def T1_def [symmetric])
  moreover have "core_rel ?k3 me (a_enqueue (pol_of ?h) r ?a)"
  proof -
    have nw: "nowhere a r" by (rule nowhere_running [OF rel(2) T(1)]) (simp add: T(2))
    have "tasks_rel (?h(r \<mapsto> T3)) (a_enqueue (\<lambda>_. ?p) r ?a)"
      by (rule tasks_enqueue [where T = T3]) (use tasks_frame [OF rel(2) nw] nw T3 T(3) in simp_all)
    moreover have "run_rel (?h(r \<mapsto> T3)) (k_percpu k me) (a_enqueue (\<lambda>_. ?p) r ?a)"
      using rel(3) assms(2,3) by (simp add: run_rel_def)
    moreover have "r \<notin> set (cs_sleeping_tasks (k_cpu k me))"
      using nowhereD(3) [OF nw] rel(1) by (simp add: queues_rel_def flip: set_mset_mset)
    moreover have "a_enqueue (pol_of ?h) r ?a = a_enqueue (\<lambda>_. ?p) r ?a"
      by (rule a_enqueue_cong) (simp add: pol_of_Some [of ?h r T] T(1))
    ultimately show ?thesis using e(3) rel(4) by (simp add: core_rel_sched_tcb exec_simps is_heap_wake_other)
  qed
  moreover have "touch me (owned a) k ?k3"
  proof -
    have o: "r \<in> owned a" using assms(2) by (simp add: owned_def)
    have "touch me (owned a) k ?k1" by (rule touch_tcb [OF touch_refl T(1) o]) (simp_all add: T1_def)
    then have "touch me (owned a) k (set_scheduler ?k1 me ?p (OnPreempted s))" by (rule touch_intros)
    from touch_tcb [OF this _ o, of T1 T3] T1 T3 e(2) s(3)
    have "touch me (owned a) k (?k2\<lparr>k_tcbs := ?h(r \<mapsto> T3)\<rparr>)" by (auto simp: exec_simps)
    then show ?thesis by (rule touch_intros)
  qed
  moreover have "held ?k3 me" using assms(4) by (simp add: exec_simps)
  ultimately show ?thesis by blast
qed

subsection \<open>Choosing and starting the next task\<close>

lemma pick_ready_empty: "IsEmpty s \<Longrightarrow> pick_ready h s = Some (Done (None, s))"
  by (simp add: pick_ready.simps)

lemma pick_ready_Fifo:
  "h t = Some T \<Longrightarrow> t_status T = kReady \<Longrightarrow>
   pick_ready h (FifoScheduler st (t # ts)) = Some (Done (Some t, FifoScheduler (count_pick st) ts))"
  by (simp add: pick_ready.simps [of h "FifoScheduler st (t # ts)"] IsEmpty_defs PickNext_defs)

lemma pick_ready_RR:
  "h t = Some T \<Longrightarrow> t_status T = kReady \<Longrightarrow>
   pick_ready h (RoundRobinScheduler st (t # ts)) = Some (Done (Some t, RoundRobinScheduler (count_pick st) ts))"
  by (simp add: pick_ready.simps [of h "RoundRobinScheduler st (t # ts)"] IsEmpty_defs PickNext_defs)

lemma pick_ready_Idle:
  "h t = Some T \<Longrightarrow> t_status T = kReady \<Longrightarrow>
   pick_ready h (IdleScheduler st (Some t)) = Some (Done (Some t, IdleScheduler (count_pick st) (Some t)))"
  by (simp add: pick_ready.simps [of h "IdleScheduler st (Some t)"] IsEmpty_defs PickNext_defs)

lemmas pick_ready_steps = pick_ready_Fifo pick_ready_RR pick_ready_Idle

lemma a_rest_fields [simp]:
  "a_run (a_rest a) = a_run a" "a_idle (a_rest a) = a_idle a" "a_slp (a_rest a) = a_slp a"
  "a_blk (a_rest a) = a_blk a"
  by (simp_all add: a_rest_def split: list.splits)

lemma next_task:
  assumes "tasks_rel h a" "task_is h (a_idle a) {kReady} {kIdle}"
  shows "\<exists>N. h (a_next a) = Some N \<and> t_status N = kReady \<and> tasks_rel h (a_rest a) \<and>
           nowhere (a_rest a) (a_next a) \<and>
           (if a_next a = a_idle a then t_policy N = kIdle else t_policy N \<in> user_policies)"
proof -
  obtain I where I: "h (a_idle a) = Some I" "t_status I = kReady" "t_policy I = kIdle"
    using assms(2) by (auto elim: task_isE)
  have id: "nowhere a (a_idle a)" by (rule nowhere_running [OF assms(1) I(1)]) (simp add: I(3))
  show ?thesis
  proof (cases "a_rt a")
    case (Cons t ts)
    then obtain N where N: "h t = Some N" "t_status N = kReady" "t_policy N = kRealTime"
      using tasks_relD(1) [OF assms(1), of t] by (auto elim: task_isE)
    moreover have "t \<noteq> a_idle a" using N(1,3) I(1,3) by auto
    moreover have "tasks_rel h (a\<lparr>a_rt := ts\<rparr>)"
      using tasks_relD [OF assms(1)] Cons by (intro tasks_relI) simp_all
    moreover have "nowhere (a\<lparr>a_rt := ts\<rparr>) t"
      using tasks_rel_place [OF assms(1) N(1)] tasks_relD(6) [OF assms(1)] N Cons by (simp add: nowhere_def)
    ultimately show ?thesis using Cons by (simp add: a_next_def a_rest_def)
  next
    case Nil
    show ?thesis
    proof (cases "a_norm a")
      case (Cons t ts)
      then obtain N where N: "h t = Some N" "t_status N = kReady" "t_policy N = kNormal"
        using tasks_relD(2) [OF assms(1), of t] by (auto elim: task_isE)
      moreover have "t \<noteq> a_idle a" using N(1,3) I(1,3) by auto
      moreover have "tasks_rel h (a\<lparr>a_norm := ts\<rparr>)"
        using tasks_relD [OF assms(1)] Cons by (intro tasks_relI) simp_all
      moreover have "nowhere (a\<lparr>a_norm := ts\<rparr>) t"
        using tasks_rel_place [OF assms(1) N(1)] tasks_relD(7) [OF assms(1)] N Cons by (simp add: nowhere_def)
      ultimately show ?thesis using Cons Nil by (simp add: a_next_def a_rest_def)
    next
      case Nil': Nil
      with Nil I id assms(1) show ?thesis by (simp add: a_next_def a_rest_def)
    qed
  qed
qed

text \<open>The loop over the schedulers stops at the first ready task, and changes the queues only.\<close>

lemma pick_queues:
  assumes "queues_rel (k_cpu k me) a" "tasks_rel (k_tcbs k) a" "task_is (k_tcbs k) (a_idle a) {kReady} {kIdle}"
  shows "\<exists>f. Schedule_pick all_policies me k = Done (Some (a_next a), upd_cpu k me (\<lambda>c. c\<lparr>cs_schedulers := f\<rparr>)) \<and>
           queues_rel ((k_cpu k me)\<lparr>cs_schedulers := f\<rparr>) (a_rest a)"
proof -
  let ?f = "cs_schedulers (k_cpu k me)"
  have upd: "set_scheduler k me p s = upd_cpu k me (\<lambda>c. c\<lparr>cs_schedulers := ?f(p \<mapsto> s)\<rparr>)" for p s
    by (simp add: set_scheduler_def upd_cpu_def)
  have upd2: "set_scheduler (upd_cpu k me (\<lambda>c. c\<lparr>cs_schedulers := g\<rparr>)) me p s = upd_cpu k me (\<lambda>c. c\<lparr>cs_schedulers := g(p \<mapsto> s)\<rparr>)" for p s g
    by (simp add: set_scheduler_def upd_cpu_def)
  obtain N where N: "k_tcbs k (a_next a) = Some N" "t_status N = kReady"
    using next_task [OF assms(2,3)] by blast
  obtain st1 st2 st3 where q: "?f kRealTime = Some (FifoScheduler st1 (a_rt a))"
      "?f kNormal = Some (RoundRobinScheduler st2 (a_norm a))" "?f kIdle = Some (IdleScheduler st3 (Some (a_idle a)))"
    using assms(1) by (auto simp: queues_rel_def)
  show ?thesis
  proof (cases "a_rt a")
    case (Cons t ts)
    with q N show ?thesis
      by (intro exI [of _ "?f(kRealTime \<mapsto> FifoScheduler (count_pick st1) ts)"])
        (use assms(1) in \<open>simp add: all_policies_def a_next_def a_rest_def upd run_loop_def pick_ready_steps queues_rel_def\<close>)
  next
    case Nil
    then have e: "pick_ready (k_tcbs k) (FifoScheduler st1 []) = Some (Done (None, FifoScheduler st1 []))"
      by (simp add: pick_ready_empty IsEmpty_defs)
    show ?thesis
    proof (cases "a_norm a")
      case (Cons t ts)
      with q N Nil e show ?thesis
        by (intro exI [of _ "?f(kRealTime \<mapsto> FifoScheduler st1 [], kNormal \<mapsto> RoundRobinScheduler (count_pick st2) ts)"])
          (use assms(1) in \<open>simp add: all_policies_def a_next_def a_rest_def upd upd2 exec_simps run_loop_def pick_ready_steps queues_rel_def\<close>)
    next
      case Nil': Nil
      then have "pick_ready (k_tcbs k) (RoundRobinScheduler st2 []) = Some (Done (None, RoundRobinScheduler st2 []))"
        by (simp add: pick_ready_empty IsEmpty_defs)
      with q N Nil Nil' e show ?thesis
        by (intro exI [of _ "?f(kRealTime \<mapsto> FifoScheduler st1 [], kNormal \<mapsto> RoundRobinScheduler st2 [],
                kIdle \<mapsto> IdleScheduler (count_pick st3) (Some (a_idle a)))"])
          (use assms(1) in \<open>simp add: all_policies_def a_next_def a_rest_def upd upd2 exec_simps run_loop_def pick_ready_steps queues_rel_def\<close>)
    qed
  qed
qed

lemma scheduler_present:
  assumes "queues_rel cs a" "p \<noteq> kPolicyCount"
  obtains s where "cs_schedulers cs p = Some s"
  using assms by (cases p) (auto simp: queues_rel_def)

lemma commit_ok:
  assumes "queues_rel (k_cpu k me) a" "tasks_rel (k_tcbs k) a" "run_rel (k_tcbs k) (k_percpu k me) a"
    and "is_heap (wake_tick (k_tcbs k)) (cs_sleeping_tasks (k_cpu k me))" "a_run a = None"
    and "k_tcbs k nxt = Some N" "t_status N = kReady" "nowhere a nxt"
    and "if nxt = a_idle a then t_policy N = kIdle else t_policy N \<in> user_policies"
    and "\<not> must_leave \<or> cur_t \<noteq> nxt"
  shows "\<exists>k'. Schedule_commit me cur_t nxt must_leave k = Done k' \<and> core_rel k' me (a\<lparr>a_run := Some nxt\<rparr>) \<and>
           (nxt \<in> S \<longrightarrow> touch me S k k') \<and> held k' me = held k me \<and> k_boot_done k' = k_boot_done k"
proof -
  let ?p = "t_policy N" and ?h = "(k_tcbs k)(nxt \<mapsto> start_running N)"
  have np: "?p \<noteq> kPolicyCount" using assms(9) by (auto split: if_splits)
  obtain s where s: "cs_schedulers (k_cpu k me) ?p = Some s" by (rule scheduler_present [OF assms(1) np])
  let ?k1 = "upd_cpu (k\<lparr>k_tcbs := ?h\<rparr>) me (\<lambda>c. c\<lparr>cs_total_schedules := cs_total_schedules c + 1\<rparr>)"
  let ?k = "upd_percpu (set_scheduler ?k1 me ?p s) me (\<lambda>p. p\<lparr>pc_running_task := Some nxt\<rparr>)"
  have "Schedule_commit me cur_t nxt must_leave k = Done ?k"
    using assms(6,7,10) np s by (simp add: Schedule_commit_def exec_simps Let_def OnScheduled_def)
  moreover have "core_rel ?k me (a\<lparr>a_run := Some nxt\<rparr>)"
  proof -
    have "(cs_schedulers (k_cpu k me))(?p \<mapsto> s) = cs_schedulers (k_cpu k me)" using s by (simp add: fun_upd_idem)
    then have "queues_rel (k_cpu ?k me) a" using assms(1) by (simp add: exec_simps queues_rel_def)
    moreover have "tasks_rel ?h a" by (rule tasks_frame [OF assms(2,8)])
    moreover have "run_rel ?h (k_percpu ?k me) (a\<lparr>a_run := Some nxt\<rparr>)"
      using assms(3,5,9) by (auto simp: run_rel_def exec_simps split: if_splits)
    moreover have "is_heap (wake_tick ?h) (cs_sleeping_tasks (k_cpu k me))"
      using assms(4) is_heap_wake_same [of "k_tcbs k" nxt N "start_running N"] assms(6) by simp
    ultimately show ?thesis by (simp add: core_rel_def exec_simps)
  qed
  moreover have "touch me S k ?k" if "nxt \<in> S"
    by (intro touch_intros touch_tcb [OF touch_refl assms(6) that]) simp_all
  moreover have "held ?k me = held k me" by (simp add: held_def exec_simps)
  moreover have "k_boot_done ?k = k_boot_done k" by (simp add: exec_simps)
  ultimately show ?thesis by blast
qed

lemma switch_ok:
  assumes "\<not> must_leave \<or> cur_t \<noteq> nxt"
  shows "\<exists>k'. Schedule_switch me cur_t nxt must_leave k = Done k' \<and> core_rel k' me a = core_rel k me a \<and>
           unlocked k' me = unlocked k me \<and> touch me S k k' \<and> k_intr k' me \<and> k_boot_done k'"
  using assms
  by (auto simp: Schedule_switch_def Let_def exec_simps intro!: touch_intros)
    (simp_all add: set_intr_flag_def emit_def)

text \<open>\<open>Schedule\<close> in a state where the current task has already been put away.\<close>

lemma Schedule_tail:
  assumes "core_rel k me a" "a_run a = None" "held k me" "pc_running_task (k_percpu k me) = Some cur_t"
    and "owned a \<subseteq> S"
  shows "\<exists>k'. obind (Schedule_pick all_policies me k) (\<lambda>(nxt, k).
         obind (Schedule_fallback me cur_t nxt k) (\<lambda>(nxt, k).
         obind (Schedule_leave me cur_t nxt k) (\<lambda>(nxt, k).
         obind (get_tcb k cur_t) (\<lambda>C.
         let must_leave = (t_status C \<noteq> kReady)
         in obind (Schedule_commit me cur_t nxt must_leave k) (\<lambda>k.
            Schedule_switch me cur_t nxt must_leave (unlock_cpu me me k)))))) = Done k' \<and>
         core_rel k' me (a_pick a) \<and> unlocked k' me \<and> touch me S k k' \<and> k_intr k' me \<and> k_boot_done k'"
proof -
  have rel: "queues_rel (k_cpu k me) a" "tasks_rel (k_tcbs k) a" "run_rel (k_tcbs k) (k_percpu k me) a"
      "is_heap (wake_tick (k_tcbs k)) (cs_sleeping_tasks (k_cpu k me))"
    using assms(1) by (simp_all add: core_rel_def)
  have idle: "task_is (k_tcbs k) (a_idle a) {kReady} {kIdle}" using rel(3) assms(2) by (simp add: run_rel_def)
  obtain C where C: "k_tcbs k cur_t = Some C" using rel(3) assms(2,4) by (auto simp: run_rel_def)
  let ?n = "a_next a"
  obtain N where N: "k_tcbs k ?n = Some N" "t_status N = kReady" "tasks_rel (k_tcbs k) (a_rest a)"
      "nowhere (a_rest a) ?n" "if ?n = a_idle a then t_policy N = kIdle else t_policy N \<in> user_policies"
    using next_task [OF rel(2) idle] by blast
  obtain f where f: "Schedule_pick all_policies me k = Done (Some ?n, upd_cpu k me (\<lambda>c. c\<lparr>cs_schedulers := f\<rparr>))"
      "queues_rel ((k_cpu k me)\<lparr>cs_schedulers := f\<rparr>) (a_rest a)"
    using pick_queues [OF rel(1,2) idle] by blast
  define k1 where "k1 = upd_cpu k me (\<lambda>c. c\<lparr>cs_schedulers := f\<rparr>)"
  define ml where "ml = (t_status C \<noteq> kReady)"
  have ml: "\<not> ml \<or> cur_t \<noteq> ?n" using N(1,2) C by (auto simp: ml_def)
  have k1: "k_tcbs k1 = k_tcbs k" "k_percpu k1 = k_percpu k" "held k1 me" "k_cpu k1 me = (k_cpu k me)\<lparr>cs_schedulers := f\<rparr>"
    using assms(3) by (simp_all add: k1_def exec_simps held_def)
  have "run_rel (k_tcbs k1) (k_percpu k1 me) (a_rest a)" using rel(3) assms(2) k1 by (simp add: run_rel_def)
  then obtain k2 where k2: "Schedule_commit me cur_t ?n ml k1 = Done k2"
      "core_rel k2 me ((a_rest a)\<lparr>a_run := Some ?n\<rparr>)" "?n \<in> S \<longrightarrow> touch me S k1 k2" "held k2 me"
    using commit_ok [of k1 me "a_rest a" ?n N ml cur_t S] f(2) N rel(4) k1 assms(2) ml by auto
  have nS: "?n \<in> S" using assms(5) by (auto simp: owned_def a_next_def split: list.splits)
  obtain il where il: "unlock_cpu me me k2 = set_cpu_lock k2 me me il" "\<not> sl_locked (snd il)"
    using unlock_cpu_held [OF k2(4)] by blast
  define k3 where "k3 = set_cpu_lock k2 me me il"
  have k3: "core_rel k3 me (a_pick a)" "unlocked k3 me" using k2(2) il(2) by (simp_all add: k3_def exec_simps a_pick_def)
  have "touch me S k k1" unfolding k1_def by (intro touch_intros) simp
  moreover have "touch me S k1 k3" unfolding k3_def using k2(3) nS by (intro touch_intros) simp
  ultimately have t3: "touch me S k k3" by (rule touch_trans)
  obtain k4 where k4: "Schedule_switch me cur_t ?n ml k3 = Done k4" "core_rel k4 me (a_pick a) = core_rel k3 me (a_pick a)"
      "unlocked k4 me = unlocked k3 me" "touch me S k3 k4" "k_intr k4 me" "k_boot_done k4"
    using switch_ok [OF ml, of me k3 "a_pick a" S] by blast
  have "get_tcb k1 cur_t = Done C" using C k1 by (simp add: exec_simps)
  moreover have "Schedule_leave me cur_t ?n k1 = Done (?n, k1)"
    using C N k1 ml by (auto simp: Schedule_leave_def exec_simps ml_def)
  ultimately show ?thesis
    using f(1) k2(1) il(1) k4 k3 touch_trans [OF t3 k4(4)]
    by (intro exI [of _ k4]) (simp add: Schedule_fallback_def k1_def [symmetric] ml_def [symmetric] k3_def [symmetric])
qed

lemma Schedule_running:
  assumes "core_rel k me a" "unlocked k me" "a_run a = Some r"
  shows "\<exists>k'. Schedule me k = Done k' \<and> core_rel k' me (a_schedule (pol_of (k_tcbs k)) a) \<and>
           unlocked k' me \<and> touch me (owned a) k k' \<and> k_intr k' me \<and> k_boot_done k'"
proof -
  obtain l where l: "lock_cpu me me k = Done (set_cpu_lock k me me (False, l))" "sl_locked l" "sl_core_id l = me"
    using lock_cpu_free [OF assms(2)] by blast
  define k1 where "k1 = set_cpu_lock k me me (False, l)"
  have k1: "core_rel k1 me a" "held k1 me" "k_tcbs k1 = k_tcbs k" "touch me (owned a) k k1"
    using assms(1) l(2,3) unfolding k1_def
    by (simp_all add: held_def exec_simps IsLockedByCurrentCore_def touch_intros)
  have r: "pc_running_task (k_percpu k1 me) = Some r" using k1(1) assms(3) by (simp add: core_rel_def run_rel_def)
  define b where "b = a_requeue (pol_of (k_tcbs k)) a"
  have b: "a_run b = None" "owned b \<subseteq> owned a"
    using assms(3) by (auto simp: b_def a_requeue_def owned_def a_enqueue_def)
  obtain k2 where k2: "Schedule_requeue me r k1 = Done k2" "core_rel k2 me b" "touch me (owned a) k1 k2" "held k2 me"
  proof (cases "r = a_idle a")
    case True
    then show thesis
      using requeue_idle [OF k1(1) _ k1(2)] assms(3) that by (auto simp: b_def a_requeue_def)
  next
    case False
    then show thesis
      using requeue_user [OF k1(1) assms(3) False k1(2)] assms(3) that k1(3) by (auto simp: b_def a_requeue_def)
  qed
  have r2: "pc_running_task (k_percpu k2 me) = Some r"
    using requeue_percpu [OF k2(1)] r by simp
  obtain k3 where k3: "obind (Schedule_pick all_policies me k2) (\<lambda>(nxt, k).
         obind (Schedule_fallback me r nxt k) (\<lambda>(nxt, k).
         obind (Schedule_leave me r nxt k) (\<lambda>(nxt, k).
         obind (get_tcb k r) (\<lambda>C.
         let must_leave = (t_status C \<noteq> kReady)
         in obind (Schedule_commit me r nxt must_leave k) (\<lambda>k.
            Schedule_switch me r nxt must_leave (unlock_cpu me me k)))))) = Done k3"
      "core_rel k3 me (a_pick b)" "unlocked k3 me" "touch me (owned a) k2 k3" "k_intr k3 me" "k_boot_done k3"
    using Schedule_tail [OF k2(2) b(1) k2(4) r2 b(2)] by blast
  have "Schedule me k = Done k3"
    using l(1) r k2(1) k3(1) by (simp add: Schedule_def GetCurrentTask_def k1_def [symmetric])
  then show ?thesis
    using k3 touch_trans [OF touch_trans [OF k1(4) k2(3)] k3(4)] by (simp add: a_schedule_def b_def)
qed

lemma Schedule_away:
  assumes "core_rel k me a" "unlocked k me" "a_run a = None"
    and "pc_running_task (k_percpu k me) = Some c" "k_tcbs k c = Some C" "t_status C \<noteq> kRunning"
  shows "\<exists>k'. Schedule me k = Done k' \<and> core_rel k' me (a_pick a) \<and>
           unlocked k' me \<and> touch me (owned a) k k' \<and> k_intr k' me \<and> k_boot_done k'"
proof -
  obtain l where l: "lock_cpu me me k = Done (set_cpu_lock k me me (False, l))" "sl_locked l" "sl_core_id l = me"
    using lock_cpu_free [OF assms(2)] by blast
  define k1 where "k1 = set_cpu_lock k me me (False, l)"
  have k1: "core_rel k1 me a" "held k1 me" "k_tcbs k1 = k_tcbs k" "touch me (owned a) k k1"
      "pc_running_task (k_percpu k1 me) = Some c"
    using assms(1,4) l(2,3) unfolding k1_def
    by (simp_all add: held_def exec_simps IsLockedByCurrentCore_def touch_intros)
  have "Schedule_requeue me c k1 = Done k1"
    using assms(5,6) k1(3) by (simp add: Schedule_requeue_def exec_simps)
  with Schedule_tail [OF k1(1) assms(3) k1(2,5) order_refl] obtain k' where
    "Schedule me k = Done k'" "core_rel k' me (a_pick a)" "unlocked k' me" "touch me (owned a) k1 k'" "k_intr k' me" "k_boot_done k'"
    using l(1) k1(5) by (auto simp: Schedule_def GetCurrentTask_def k1_def [symmetric])
  then show ?thesis using touch_trans [OF k1(4)] by blast
qed

end
