(* ===== verification/Core_Operations.thy ===== *)
theory Core_Operations
  imports Core_Refinement
begin

text \<open>
  \<open>Sleep\<close>, \<open>Block\<close>, \<open>Wakeup\<close> and \<open>TickUpdate\<close> carry out the abstract
  operations of \<open>Core_Refinement\<close>. Each lemma says that the operation returns (no assertion
  fails, no lock is waited for, no loop runs on), which abstract state it reaches, and that it
  stays within its core.
\<close>

subsection \<open>Sleep\<close>

lemma sleeping_set:
  assumes "queues_rel cs a" "t \<notin># a_slp a"
  shows "t \<notin> set (cs_sleeping_tasks cs)"
  using assms by (simp add: queues_rel_def flip: set_mset_mset)

text \<open>Removing a task that is in no queue changes at most a counter.\<close>

lemma dequeue_absent:
  assumes "queues_rel cs a" "nowhere a r" "p \<in> user_policies"
  shows "\<exists>s. cs_schedulers cs p = Some s \<and>
           queues_rel (cs\<lparr>cs_schedulers := (cs_schedulers cs)(p \<mapsto> Dequeue h s r)\<rparr>) a"
proof (cases p)
  case kRealTime
  then obtain st where "cs_schedulers cs kRealTime = Some (FifoScheduler st (a_rt a))"
    using assms(1) by (auto simp: queues_rel_def)
  with kRealTime assms(1) nowhereD(1) [OF assms(2)] show ?thesis
    by (simp add: queues_rel_def Dequeue_defs)
next
  case kNormal
  then obtain st where "cs_schedulers cs kNormal = Some (RoundRobinScheduler st (a_norm a))"
    using assms(1) by (auto simp: queues_rel_def)
  with kNormal assms(1) nowhereD(2) [OF assms(2)] show ?thesis
    by (simp add: queues_rel_def Dequeue_defs)
qed (use assms(3) in simp_all)

lemma set_wake_tick_view [simp]:
  "t_status (set_wake_tick w T) = t_status T" "t_policy (set_wake_tick w T) = t_policy T"
  "si_wake_tick (t_sched_info (set_wake_tick w T)) = w"
  by (simp_all add: set_wake_tick_def)

lemma core_rel_parts:
  assumes "core_rel k me a"
  shows "queues_rel (k_cpu k me) a" "tasks_rel (k_tcbs k) a" "run_rel (k_tcbs k) (k_percpu k me) a"
    "is_heap (wake_tick (k_tcbs k)) (cs_sleeping_tasks (k_cpu k me))"
  using assms by (simp_all add: core_rel_def)

lemma running_user:
  assumes "core_rel k me a" "a_run a = Some r" "r \<noteq> a_idle a"
  obtains T where "k_tcbs k r = Some T" "t_status T = kRunning" "t_policy T \<in> user_policies"
    "pc_running_task (k_percpu k me) = Some r" "task_is (k_tcbs k) (a_idle a) {kReady} {kIdle}" "nowhere a r"
    "r \<in> owned a"
proof -
  note rel = core_rel_parts [OF assms(1)]
  obtain T where T: "k_tcbs k r = Some T" "t_status T = kRunning" "t_policy T \<in> user_policies"
    using rel(3) assms(2,3) by (auto simp: run_rel_def elim: task_isE)
  moreover have "nowhere a r" by (rule nowhere_running [OF rel(2) T(1)]) (simp add: T(2))
  ultimately show thesis using that rel(3) assms(2,3) by (auto simp: run_rel_def owned_def)
qed

lemma owned_sleep: "a_run a = Some r \<Longrightarrow> owned (a_sleep r a) = owned a"
  by (auto simp: owned_def a_sleep_def)

text \<open>A guarded block: the lock is taken, the block keeps it, and it is released.\<close>

lemma guard_enter:
  assumes "core_rel k me a" "unlocked k me"
  obtains k1 where "guard_cpu me k = Done k1" "core_rel k1 me a" "held k1 me" "k_tcbs k1 = k_tcbs k"
    "k_percpu k1 = k_percpu k" "cs_local_tick (k_cpu k1 me) = cs_local_tick (k_cpu k me)" "touch me S k k1"
    "cs_sleeping_tasks (k_cpu k1 me) = cs_sleeping_tasks (k_cpu k me)"
    "cs_blocked_tasks (k_cpu k1 me) = cs_blocked_tasks (k_cpu k me)"
proof -
  obtain l where l: "guard_cpu me k = Done (set_cpu_lock k me me (False, l))" "sl_locked l" "sl_core_id l = me"
    using guard_cpu_free [OF assms(2)] by blast
  show thesis
    by (rule that [OF l(1)])
      (use assms(1) l(2,3) in \<open>simp_all add: held_def exec_simps IsLockedByCurrentCore_def touch_intros\<close>)
qed

lemma guard_leave:
  assumes "core_rel k me a" "held k me"
  obtains k1 where "unguard_cpu me k = k1" "core_rel k1 me a" "unlocked k1 me" "k_tcbs k1 = k_tcbs k"
    "k_percpu k1 = k_percpu k" "cs_local_tick (k_cpu k1 me) = cs_local_tick (k_cpu k me)" "touch me S k k1"
proof -
  obtain il where il: "unguard_cpu me k = set_cpu_lock k me me il" "\<not> sl_locked (snd il)"
    using unguard_cpu_held [OF assms(2)] by blast
  show thesis
    by (rule that [OF il(1)]) (use assms(1) il(2) in \<open>simp_all add: exec_simps touch_intros\<close>)
qed

lemma Sleep_register_ok:
  assumes "core_rel k me a" "held k me" "a_run a = Some r" "r \<noteq> a_idle a"
  shows "\<exists>k' T. Sleep_register me r ms k = Done k' \<and> core_rel k' me (a_sleep r a) \<and> held k' me \<and>
           local_step me (owned a) k k' \<and> k_percpu k' = k_percpu k \<and>
           cs_local_tick (k_cpu k' me) = cs_local_tick (k_cpu k me) \<and>
           k_tcbs k' = (k_tcbs k)(r \<mapsto> T) \<and> t_status T = kSleeping \<and>
           si_wake_tick (t_sched_info T) = cs_local_tick (k_cpu k me) + sleep_ticks ms"
proof -
  note rel = core_rel_parts [OF assms(1)]
  obtain T where T: "k_tcbs k r = Some T" "t_status T = kRunning" "t_policy T \<in> user_policies"
      "pc_running_task (k_percpu k me) = Some r" "task_is (k_tcbs k) (a_idle a) {kReady} {kIdle}" "nowhere a r"
      "r \<in> owned a"
    by (rule running_user [OF assms(1,3,4)])
  let ?h = "k_tcbs k" and ?w = "cs_local_tick (k_cpu k me) + sleep_ticks ms" and ?p = "t_policy T"
  have np: "?p \<noteq> kPolicyCount" using T(3) by auto
  define T2 where "T2 = set_wake_tick ?w T"
  define T3 where "T3 = set_status kSleeping T2"
  have T3: "t_status T3 = kSleeping" "t_policy T3 = ?p" "si_wake_tick (t_sched_info T3) = ?w" "t_policy T2 = ?p"
    by (simp_all add: T3_def T2_def)
  obtain s where s: "cs_schedulers (k_cpu k me) ?p = Some s"
      "queues_rel ((k_cpu k me)\<lparr>cs_schedulers := (cs_schedulers (k_cpu k me))(?p \<mapsto> Dequeue (?h(r \<mapsto> T2)) s r)\<rparr>) a"
    using dequeue_absent [OF rel(1) T(6,3), of "?h(r \<mapsto> T2)"] by blast
  let ?k3 = "(set_scheduler (k\<lparr>k_tcbs := ?h(r \<mapsto> T2)\<rparr>) me ?p (Dequeue (?h(r \<mapsto> T2)) s r))\<lparr>k_tcbs := ?h(r \<mapsto> T3)\<rparr>"
  let ?k4 = "set_sleeping ?k3 me (pq_push (wake_cmp (?h(r \<mapsto> T3))) (cs_sleeping_tasks (k_cpu k me)) r)"
  have "Sleep_register me r ms k = Done ?k4"
    using T(1) np s(1) T3(4) by (simp add: Sleep_register_def exec_simps T2_def [symmetric] T3_def [symmetric])
  moreover have "core_rel ?k4 me (a_sleep r a)"
  proof -
    have "queues_rel (k_cpu ?k4 me) (a_sleep r a)"
      using s(2) keyed.elems_push [of "wake_tick (?h(r \<mapsto> T3))"] by (simp add: exec_simps queues_rel_def a_sleep_def)
    moreover have "tasks_rel (?h(r \<mapsto> T3)) (a_sleep r a)"
      unfolding a_sleep_def using tasks_add_sleeper [OF tasks_frame [OF rel(2) T(6), of "Some T3"] T(6)] T3 T(3) by simp
    moreover have "r \<notin> set (cs_sleeping_tasks (k_cpu k me))" by (rule sleeping_set [OF rel(1) nowhereD(3) [OF T(6)]])
    then have "is_heap (wake_tick (?h(r \<mapsto> T3))) (cs_sleeping_tasks (k_cpu ?k4 me))"
      using keyed.invar_push [of "wake_tick (?h(r \<mapsto> T3))"] rel(4) is_heap_wake_other by (simp add: exec_simps)
    moreover have "run_rel (?h(r \<mapsto> T3)) (k_percpu k me) (a_sleep r a)"
      using T(4,5) rel(3) assms(4) by (simp add: run_rel_def a_sleep_def)
    ultimately show ?thesis by (simp add: core_rel_def exec_simps)
  qed
  moreover have "local_step me (owned a) k ?k4"
  proof -
    have "local_step me (owned a) k (k\<lparr>k_tcbs := ?h(r \<mapsto> T3)\<rparr>)"
      by (rule local_step_tcb [OF touch_local [OF touch_refl] T(1,7) T3(2)])
    then show ?thesis by (simp add: local_step_def exec_simps set_sleeping_def set_scheduler_def upd_cpu_def)
  qed
  moreover have "held ?k4 me" using assms(2) by (simp add: exec_simps)
  ultimately show ?thesis
    using T3 by (intro exI [of _ ?k4] exI [of _ T3]) (simp add: exec_simps)
qed

lemma Sleep_ok:
  assumes "core_rel k me a" "unlocked k me" "a_run a = Some r" "r \<noteq> a_idle a" "ms \<noteq> 0"
  shows "\<exists>k'. Sleep me ms k = Done k' \<and> core_rel k' me (a_pick (a_sleep r a)) \<and> unlocked k' me \<and>
           local_step me (owned a) k k' \<and> cs_local_tick (k_cpu k' me) = cs_local_tick (k_cpu k me) \<and>
           wake_tick (k_tcbs k') = (wake_tick (k_tcbs k))(r := cs_local_tick (k_cpu k me) + sleep_ticks ms) \<and>
           k_intr k' me"
proof -
  obtain T where T: "k_tcbs k r = Some T" "t_status T = kRunning" "pc_running_task (k_percpu k me) = Some r"
    using running_user [OF assms(1,3,4)] by blast
  let ?k0 = "set_intr_flag k me False" and ?w = "cs_local_tick (k_cpu k me) + sleep_ticks ms"
  have k0: "core_rel ?k0 me a" "unlocked ?k0 me" "touch me (owned a) k ?k0"
    using assms(1,2) by (simp_all add: exec_simps touch_intros)
  obtain k1 where k1: "guard_cpu me ?k0 = Done k1" "core_rel k1 me a" "held k1 me" "k_tcbs k1 = k_tcbs k"
      "k_percpu k1 = k_percpu k" "cs_local_tick (k_cpu k1 me) = cs_local_tick (k_cpu k me)" "touch me (owned a) ?k0 k1"
    using guard_enter [OF k0(1,2), where S = "owned a"] by (auto simp: exec_simps)
  obtain k2 S where k2: "Sleep_register me r ms k1 = Done k2" "core_rel k2 me (a_sleep r a)" "held k2 me"
      "local_step me (owned a) k1 k2" "k_percpu k2 = k_percpu k1" "cs_local_tick (k_cpu k2 me) = cs_local_tick (k_cpu k1 me)"
      "k_tcbs k2 = (k_tcbs k1)(r \<mapsto> S)" "t_status S = kSleeping"
      "si_wake_tick (t_sched_info S) = cs_local_tick (k_cpu k1 me) + sleep_ticks ms"
    using Sleep_register_ok [OF k1(2,3) assms(3,4)] by blast
  obtain k3 where k3: "unguard_cpu me k2 = k3" "core_rel k3 me (a_sleep r a)" "unlocked k3 me" "k_tcbs k3 = k_tcbs k2"
      "k_percpu k3 = k_percpu k2" "cs_local_tick (k_cpu k3 me) = cs_local_tick (k_cpu k2 me)" "touch me (owned a) k2 k3"
    by (rule guard_leave [OF k2(2,3)])
  have "pc_running_task (k_percpu k3 me) = Some r" "k_tcbs k3 r = Some S" "t_status S \<noteq> kRunning"
    using T(3) k3 k2 k1 by simp_all
  from Schedule_away [OF k3(2,3) _ this] obtain k4 where k4: "Schedule me k3 = Done k4"
      "core_rel k4 me (a_pick (a_sleep r a))" "unlocked k4 me" "touch me (owned a) k3 k4" "k_intr k4 me"
    using owned_sleep [OF assms(3)] by (auto simp: a_sleep_def)
  have "Sleep me ms k = Done k4"
    using T assms(5) k1(1) k2(1) k3(1) k4(1) by (simp add: Sleep_def GetCurrentTask_def exec_simps)
  moreover have "local_step me (owned a) k k4"
    by (meson local_step_trans touch_local k0(3) k1(7) k2(4) k3(7) k4(4))
  moreover have "wake_tick (k_tcbs k4) = (wake_tick (k_tcbs k))(r := ?w)"
    using k4(4) k3(4) k2(7,9) k1(4,6) by (auto simp: touch_def wake_tick_upd)
  moreover have "cs_local_tick (k_cpu k4 me) = cs_local_tick (k_cpu k me)"
    using k4(4) k3(6) k2(6) k1(6) by (simp add: touch_def)
  ultimately show ?thesis using k4 by blast
qed

subsection \<open>Block\<close>

lemma owned_block: "a_run a = Some r \<Longrightarrow> owned (a_block r rid a) = owned a"
  by (auto simp: owned_def a_block_def split: if_splits)

lemma queues_push_blocked:
  assumes "queues_rel cs a"
  shows "queues_rel (cs\<lparr>cs_blocked_tasks := um_index hash_u64 [] (cs_blocked_tasks cs) rid (\<lambda>l. l @ [t])\<rparr>)
           (a\<lparr>a_blk := (a_blk a)(rid := a_blk a rid @ [t])\<rparr>)"
  using assms by (simp add: queues_rel_def chained.lookup_index chained.invar_index)

lemma Block_ok:
  assumes "core_rel k me a" "unlocked k me" "a_run a = Some r" "r \<noteq> a_idle a"
  shows "\<exists>k'. Block me rid k = Done k' \<and> core_rel k' me (a_pick (a_block r rid a)) \<and> unlocked k' me \<and>
           touch me (owned a) k k' \<and> k_intr k' me"
proof -
  obtain T where T: "k_tcbs k r = Some T" "t_status T = kRunning" "t_policy T \<in> user_policies"
      "pc_running_task (k_percpu k me) = Some r" "task_is (k_tcbs k) (a_idle a) {kReady} {kIdle}" "nowhere a r"
      "r \<in> owned a"
    by (rule running_user [OF assms(1,3,4)])
  obtain k1 where k1: "guard_cpu me k = Done k1" "core_rel k1 me a" "held k1 me" "k_tcbs k1 = k_tcbs k"
      "k_percpu k1 = k_percpu k" "touch me (owned a) k k1"
    using guard_enter [OF assms(1,2), where S = "owned a"] by blast
  note rel = core_rel_parts [OF k1(2)]
  define B where "B = T\<lparr>t_status := kBlocked, t_blocked_on := rid\<rparr>"
  define k2 where "k2 = push_blocked (k1\<lparr>k_tcbs := (k_tcbs k1)(r \<mapsto> B)\<rparr>) me rid r"
  have B: "t_status B = kBlocked" "t_policy B = t_policy T" "t_blocked_on B = rid" "t_sched_info B = t_sched_info T"
    by (simp_all add: B_def)
  have k2: "k_tcbs k2 = (k_tcbs k1)(r \<mapsto> B)" "k_percpu k2 = k_percpu k1" "held k2 me"
    using k1(3) by (simp_all add: k2_def push_blocked_def exec_simps held_def)
  have core2: "core_rel k2 me (a_block r rid a)"
  proof -
    have "queues_rel (k_cpu k2 me) (a_block r rid a)"
      using queues_push_blocked [OF rel(1)] by (simp add: k2_def push_blocked_def a_block_def exec_simps)
    moreover have "tasks_rel (k_tcbs k2) (a_block r rid a)"
      unfolding k2(1) a_block_def
      using tasks_add_blocked [OF tasks_frame [OF rel(2) T(6), of "Some B"] T(6)] B T(3) by simp
    moreover have "run_rel (k_tcbs k2) (k_percpu k2 me) (a_block r rid a)"
      using rel(3) T(4,5) k1(4,5) assms(4) by (simp add: run_rel_def a_block_def k2)
    moreover have "is_heap (wake_tick (k_tcbs k2)) (cs_sleeping_tasks (k_cpu k2 me))"
      using rel(4) is_heap_wake_same [of "k_tcbs k1" r T B] T(1) k1(4) B(4)
      by (simp add: k2_def push_blocked_def exec_simps)
    ultimately show ?thesis by (simp add: core_rel_def)
  qed
  have "touch me (owned a) k1 k2"
    unfolding k2_def push_blocked_def
    by (intro touch_intros touch_tcb [OF touch_refl _ T(7)]) (simp_all add: k1(4) T(1) B)
  moreover obtain k3 where k3: "unguard_cpu me k2 = k3" "core_rel k3 me (a_block r rid a)" "unlocked k3 me"
      "k_tcbs k3 = k_tcbs k2" "k_percpu k3 = k_percpu k2" "touch me (owned a) k2 k3"
    using guard_leave [OF core2 k2(3), where S = "owned a"] by blast
  moreover have "pc_running_task (k_percpu k3 me) = Some r" "k_tcbs k3 r = Some B" "t_status B \<noteq> kRunning"
    using T(4) k3 k2 k1 B by simp_all
  from Schedule_away [OF k3(2,3) _ this] obtain k4 where k4: "Schedule me k3 = Done k4"
      "core_rel k4 me (a_pick (a_block r rid a))" "unlocked k4 me" "touch me (owned a) k3 k4" "k_intr k4 me"
    using owned_block [OF assms(3)] by (auto simp: a_block_def)
  ultimately have "touch me (owned a) k k4" by (meson touch_trans k1(6))
  moreover have "Block me rid k = Done k4"
    using T(1,2,4) k1(1,4) k3(1) k4(1) by (simp add: Block_def GetCurrentTask_def exec_simps B_def k2_def)
  ultimately show ?thesis using k4 by blast
qed

subsection \<open>Wakeup\<close>

lemma a_enqueue_blk: "a_enqueue pol t (a\<lparr>a_blk := b\<rparr>) = (a_enqueue pol t a)\<lparr>a_blk := b\<rparr>"
  by (simp add: a_enqueue_def)

lemma a_enqueue_slp: "a_enqueue pol t (a\<lparr>a_slp := b\<rparr>) = (a_enqueue pol t a)\<lparr>a_slp := b\<rparr>"
  by (simp add: a_enqueue_def)

text \<open>A task that left its queue becomes ready: shared by \<open>Wakeup\<close> and the tick.\<close>

lemma make_ready:
  assumes "core_rel k me a" "held k me" "nowhere a t" "k_tcbs k t = Some T" "t_policy T \<in> user_policies"
    and "t_status T = kReady" "a_run a = Some r" "t \<noteq> r" "t \<noteq> a_idle a"
  shows "\<exists>k'. enqueue_if k me (t_policy T) t = Done k' \<and>
           core_rel k' me (a_enqueue (pol_of (k_tcbs k)) t a) \<and> held k' me \<and> (t \<in> S \<longrightarrow> touch me S k k') \<and>
           k_percpu k' = k_percpu k"
proof -
  note rel = core_rel_parts [OF assms(1)]
  obtain s T' where e: "enqueue_if k me (t_policy T) t =
        Done (set_scheduler (k\<lparr>k_tcbs := (k_tcbs k)(t \<mapsto> T')\<rparr>) me (t_policy T) s)"
      "T' = T \<or> T' = refill_slice T"
      "queues_rel ((k_cpu k me)\<lparr>cs_schedulers := (cs_schedulers (k_cpu k me))(t_policy T \<mapsto> s)\<rparr>)
         (a_enqueue (\<lambda>_. t_policy T) t a)"
    using enqueue_user [OF rel(1) assms(4,5)] by blast
  let ?h = "(k_tcbs k)(t \<mapsto> T')" and ?k = "set_scheduler (k\<lparr>k_tcbs := (k_tcbs k)(t \<mapsto> T')\<rparr>) me (t_policy T) s"
  have T': "t_status T' = kReady" "t_policy T' = t_policy T" "si_wake_tick (t_sched_info T') = si_wake_tick (t_sched_info T)"
    using e(2) assms(6) by auto
  have a: "a_enqueue (pol_of (k_tcbs k)) t a = a_enqueue (\<lambda>_. t_policy T) t a"
    by (rule a_enqueue_cong) (simp add: pol_of_def assms(4))
  have "tasks_rel ?h (a_enqueue (\<lambda>_. t_policy T) t a)"
    by (rule tasks_enqueue [where T = T']) (use tasks_frame [OF rel(2) assms(3)] assms(3,5) T' in simp_all)
  moreover have "run_rel ?h (k_percpu k me) (a_enqueue (\<lambda>_. t_policy T) t a)"
    using rel(3) assms(7-9) by (auto simp: run_rel_def split: if_splits)
  moreover have "is_heap (wake_tick ?h) (cs_sleeping_tasks (k_cpu k me))"
    using rel(4) is_heap_wake_same [of "k_tcbs k" t T T'] assms(4) T'(3) by simp
  ultimately have "core_rel ?k me (a_enqueue (pol_of (k_tcbs k)) t a)" unfolding a by (simp add: core_rel_sched_tcb e(3))
  moreover have "touch me S k ?k" if "t \<in> S"
    by (intro touch_intros touch_tcb [OF touch_refl assms(4) that]) (simp_all add: T')
  moreover have "held ?k me" "k_percpu ?k = k_percpu k" using assms(2) by (simp_all add: exec_simps)
  ultimately show ?thesis using e(1) by blast
qed

lemma queues_pop_blocked:
  assumes "queues_rel cs a" "a_blk a rid = t # ts"
  shows "queues_rel (cs\<lparr>cs_blocked_tasks := um_write hash_u64 (cs_blocked_tasks cs) rid tl\<rparr>)
           (a\<lparr>a_blk := (a_blk a)(rid := ts)\<rparr>)"
proof -
  have i: "um_inv hash_u64 (cs_blocked_tasks cs)" and f: "um_find hash_u64 (cs_blocked_tasks cs) rid = Some (t # ts)"
    using assms by (auto simp: queues_rel_def split: option.splits dest!: spec [of _ rid])
  show ?thesis using assms(1) um_find_write [OF i f, of tl] um_write_mset(1) [OF i f, of tl] by (simp add: queues_rel_def)
qed

lemma tasks_pop_blocked:
  assumes "tasks_rel h a" "a_blk a rid = t # ts"
  shows "tasks_rel h (a\<lparr>a_blk := (a_blk a)(rid := ts)\<rparr>)" "nowhere (a\<lparr>a_blk := (a_blk a)(rid := ts)\<rparr>) t"
proof -
  obtain T where T: "h t = Some T" "t_status T = kBlocked" "t_blocked_on T = rid"
    using tasks_relD(4,5) [OF assms(1), of t rid] assms(2) by (auto elim!: task_isE)
  have "distinct (t # ts)" using tasks_relD(8) [OF assms(1), of rid] assms(2) by simp
  then show "nowhere (a\<lparr>a_blk := (a_blk a)(rid := ts)\<rparr>) t"
    using tasks_rel_place [OF assms(1) T(1)] T by (simp add: nowhere_def)
  have *: "u \<in> set (a_blk a r) \<and> distinct (a_blk a rid)" if "u \<in> set (((a_blk a)(rid := ts)) r)" for u r
    using that assms(2) tasks_relD(8) [OF assms(1), of rid] by (auto split: if_splits)
  show "tasks_rel h (a\<lparr>a_blk := (a_blk a)(rid := ts)\<rparr>)"
  proof (rule tasks_relI)
    show "distinct (a_blk (a\<lparr>a_blk := (a_blk a)(rid := ts)\<rparr>) r)" for r
      using tasks_relD(8) [OF assms(1), of r] tasks_relD(8) [OF assms(1), of rid] assms(2) by simp
    fix u r assume "u \<in> set (a_blk (a\<lparr>a_blk := (a_blk a)(rid := ts)\<rparr>) r)"
    then have u: "u \<in> set (a_blk a r)" using * by simp
    show "task_is h u {kBlocked} user_policies" by (rule tasks_relD(4) [OF assms(1) u])
    show "map_option t_blocked_on (h u) = Some r" by (rule tasks_relD(5) [OF assms(1) u])
  qed (use tasks_relD [OF assms(1)] in simp_all)
qed

lemma run_rel_lists [simp]:
  "run_rel h pc (a\<lparr>a_blk := b\<rparr>) = run_rel h pc a" "run_rel h pc (a\<lparr>a_slp := q\<rparr>) = run_rel h pc a"
  by (simp_all add: run_rel_def cong: option.case_cong)

lemma running_not:
  assumes "core_rel k me a" "a_run a = Some r" "k_tcbs k t = Some T" "t_status T \<notin> {kReady, kRunning}"
  shows "t \<noteq> r" "t \<noteq> a_idle a"
  using core_rel_parts(3) [OF assms(1)] assms(2-4) by (auto simp: run_rel_def task_is_Some split: if_splits)

text \<open>Changing the status of a task that stands nowhere and does not run.\<close>

lemma core_rel_free_tcb:
  assumes "queues_rel (k_cpu k me) a" "tasks_rel (k_tcbs k) a" "run_rel (k_tcbs k) (k_percpu k me) a"
    and "is_heap (wake_tick (k_tcbs k)) (cs_sleeping_tasks (k_cpu k me))"
    and "nowhere a t" "a_run a = Some r" "t \<noteq> r" "t \<noteq> a_idle a" "k_tcbs k t = Some T"
    and "si_wake_tick (t_sched_info T') = si_wake_tick (t_sched_info T)"
  shows "core_rel (k\<lparr>k_tcbs := (k_tcbs k)(t \<mapsto> T')\<rparr>) me a"
  using assms(1,3,4,6-8) tasks_frame [OF assms(2,5)] is_heap_wake_same [of "k_tcbs k" t T T'] assms(9,10)
  by (auto simp: core_rel_def run_rel_def split: if_splits)

lemma wake_one_blocked:
  assumes "core_rel k me a" "held k me" "a_run a = Some r" "a_blk a rid = t # ts"
  shows "\<exists>k'. wake_waiting me rid (t # ts) k = wake_waiting me rid ts k' \<and>
           core_rel k' me (a_enqueue (pol_of (k_tcbs k)) t (a\<lparr>a_blk := (a_blk a)(rid := ts)\<rparr>)) \<and>
           held k' me \<and> touch me (owned a) k k' \<and> k_percpu k' = k_percpu k"
proof -
  let ?a = "a\<lparr>a_blk := (a_blk a)(rid := ts)\<rparr>"
  note rel = core_rel_parts [OF assms(1)]
  obtain T where T: "k_tcbs k t = Some T" "t_status T = kBlocked" "t_policy T \<in> user_policies" "t_blocked_on T = rid"
    using tasks_relD(4,5) [OF rel(2), of t rid] assms(4) by (auto elim!: task_isE)
  have np: "t_policy T \<noteq> kPolicyCount" using T(3) by auto
  have ne: "t \<noteq> r" "t \<noteq> a_idle a" using running_not [OF assms(1,3) T(1)] T(2) by simp_all
  have tO: "t \<in> owned a" using assms(4) by (auto simp: owned_def intro: exI [of _ rid])
  define T1 where "T1 = T\<lparr>t_status := kReady, t_blocked_on := 0\<rparr>"
  define k1 where "k1 = pop_blocked k me rid"
  have k1: "k_tcbs k1 = k_tcbs k" "k_percpu k1 = k_percpu k" "held k1 me" "touch me (owned a) k k1"
      "cs_schedulers (k_cpu k1 me) = cs_schedulers (k_cpu k me)"
    using assms(2) by (simp_all add: k1_def pop_blocked_def exec_simps held_def touch_intros)
  have q1: "queues_rel (k_cpu k1 me) ?a"
    using queues_pop_blocked [OF rel(1) assms(4)] by (simp add: k1_def pop_blocked_def exec_simps)
  define k2 where "k2 = k1\<lparr>k_tcbs := (k_tcbs k1)(t \<mapsto> T1)\<rparr>"
  have "core_rel k2 me ?a"
    unfolding k2_def
    by (rule core_rel_free_tcb [OF q1 _ _ _ tasks_pop_blocked(2) [OF rel(2) assms(4)] _ ne(1)])
      (use rel tasks_pop_blocked(1) [OF rel(2) assms(4)] assms(3) ne T k1 in
        \<open>simp_all add: T1_def k1_def pop_blocked_def exec_simps\<close>)
  moreover have "held k2 me" using k1(3) by (simp add: k2_def exec_simps)
  ultimately obtain k3 where k3: "enqueue_if k2 me (t_policy T1) t = Done k3"
      "core_rel k3 me (a_enqueue (pol_of (k_tcbs k2)) t ?a)" "held k3 me" "touch me (owned a) k2 k3" "k_percpu k3 = k_percpu k2"
    using make_ready [of k2 me ?a t T1 r "owned a"] tasks_pop_blocked(2) [OF rel(2) assms(4)] T(3) assms(3) ne tO
    by (auto simp: k2_def T1_def)
  have pol: "pol_of (k_tcbs k2) = pol_of (k_tcbs k)"
    using pol_of_upd [of "k_tcbs k" t T T1] T(1) by (simp add: k2_def k1(1) T1_def)
  have "touch me (owned a) k k2"
    unfolding k2_def by (rule touch_tcb [OF k1(4) _ tO]) (simp_all add: k1(1) T(1) T1_def)
  then have "touch me (owned a) k k3" using k3(4) by (rule touch_trans)
  obtain s where s: "cs_schedulers (k_cpu k2 me) (t_policy T) = Some s"
    by (rule scheduler_present [OF _ np, of "k_cpu k2 me" ?a]) (use q1 in \<open>simp add: k2_def\<close>)
  have e2: "k1\<lparr>k_tcbs := (k_tcbs k)(t \<mapsto> T\<lparr>t_status := kReady, t_blocked_on := 0\<rparr>)\<rparr> = k2" "t_policy T1 = t_policy T"
    by (simp_all add: k2_def k1(1) T1_def)
  have "wake_waiting me rid (t # ts) k = wake_waiting me rid ts k3"
    using T np s k1(1) k3(1) by (simp add: Let_def k1_def [symmetric] exec_simps e2)
  then show ?thesis
    using k3 pol \<open>touch me (owned a) k k3\<close> by (intro exI [of _ k3]) (simp add: k2_def k1(2))
qed

lemma owned_enqueue: "owned (a_enqueue pol t a) = insert t (owned a)"
  by (auto simp: owned_def a_enqueue_def)

lemma wake_waiting_ok:
  assumes "core_rel k me a" "held k me" "a_run a = Some r" "a_blk a rid = ts" "owned a \<subseteq> S"
  shows "\<exists>k'. wake_waiting me rid ts k = Done k' \<and>
           core_rel k' me (a_wakeup (pol_of (k_tcbs k)) rid a) \<and> held k' me \<and> touch me S k k'"
  using assms
proof (induction ts arbitrary: k a)
  case Nil
  then have "a\<lparr>a_blk := (a_blk a)(rid := [])\<rparr> = a" by (simp add: fun_upd_idem)
  with Nil show ?case by (simp add: a_wakeup_def touch_refl)
next
  case (Cons t ts)
  let ?pol = "pol_of (k_tcbs k)"
  let ?a = "a_enqueue ?pol t (a\<lparr>a_blk := (a_blk a)(rid := ts)\<rparr>)"
  obtain k1 where k1: "wake_waiting me rid (t # ts) k = wake_waiting me rid ts k1" "core_rel k1 me ?a" "held k1 me"
      "touch me (owned a) k k1"
    using wake_one_blocked [OF Cons.prems(1-4)] by blast
  have "owned (a\<lparr>a_blk := (a_blk a)(rid := ts)\<rparr>) \<subseteq> owned a" "t \<in> owned a"
    using Cons.prems(4) by (auto simp: owned_def split: if_splits intro: exI [of _ rid])
  then have "owned ?a \<subseteq> S" using Cons.prems(5) by (auto simp: owned_enqueue)
  with Cons.IH [OF k1(2,3)] Cons.prems(3) obtain k2 where k2: "wake_waiting me rid ts k1 = Done k2"
      "core_rel k2 me (a_wakeup (pol_of (k_tcbs k1)) rid ?a)" "held k2 me" "touch me S k1 k2" by auto
  have "pol_of (k_tcbs k1) = ?pol" using k1(4) by (simp add: touch_def local_step_def)
  moreover have "a_wakeup ?pol rid ?a = a_wakeup ?pol rid a"
    using Cons.prems(4) by (simp add: a_wakeup_def a_enqueue_blk)
  ultimately show ?case
    using k1(1) k2 touch_trans [OF touch_mono [OF k1(4) Cons.prems(5)] k2(4)] by auto
qed

lemma a_blk_wakeup: "a_blk (a_wakeup pol rid a) rid = []"
proof -
  have "a_blk (foldl (\<lambda>a t. a_enqueue pol t a) b ts) = a_blk b" for b ts
    by (induction ts arbitrary: b) simp_all
  then show ?thesis by (simp add: a_wakeup_def)
qed

lemma erase_blocked_ok:
  assumes "core_rel k me a" "a_blk a rid = []"
  shows "core_rel (erase_blocked k me rid) me a" "held (erase_blocked k me rid) me = held k me"
    "touch me S k (erase_blocked k me rid)"
proof -
  have "queues_rel (k_cpu (erase_blocked k me rid) me) a"
    using core_rel_parts(1) [OF assms(1)] assms(2)
    by (simp add: queues_rel_def erase_blocked_def exec_simps chained.lookup_erase chained.invar_erase)
  then show "core_rel (erase_blocked k me rid) me a"
    using core_rel_parts [OF assms(1)] by (simp add: core_rel_def erase_blocked_def exec_simps)
  show "held (erase_blocked k me rid) me = held k me" by (simp add: held_def erase_blocked_def exec_simps)
  show "touch me S k (erase_blocked k me rid)" unfolding erase_blocked_def by (intro touch_intros) simp
qed

lemma Wakeup_ok:
  assumes "core_rel k me a" "unlocked k me" "a_run a = Some r"
  shows "\<exists>k'. Wakeup me rid k = Done k' \<and> core_rel k' me (a_wakeup (pol_of (k_tcbs k)) rid a) \<and>
           unlocked k' me \<and> touch me (owned a) k k'"
proof -
  obtain k1 where k1: "guard_cpu me k = Done k1" "core_rel k1 me a" "held k1 me" "k_tcbs k1 = k_tcbs k"
      "touch me (owned a) k k1" "cs_blocked_tasks (k_cpu k1 me) = cs_blocked_tasks (k_cpu k me)"
    using guard_enter [OF assms(1,2), where S = "owned a"] by blast
  obtain k2 where k2: "wake_waiting me rid (a_blk a rid) k1 = Done k2"
      "core_rel k2 me (a_wakeup (pol_of (k_tcbs k)) rid a)" "held k2 me" "touch me (owned a) k1 k2"
    using wake_waiting_ok [OF k1(2,3) assms(3) refl order_refl] k1(4) by auto
  note e = erase_blocked_ok [OF k2(2) a_blk_wakeup]
  define k3 where "k3 = (if um_find hash_u64 (cs_blocked_tasks (k_cpu k1 me)) rid = None then k2 else erase_blocked k2 me rid)"
  have k3: "core_rel k3 me (a_wakeup (pol_of (k_tcbs k)) rid a)" "held k3 me" "touch me (owned a) k2 k3"
    using k2 e by (simp_all add: k3_def touch_refl)
  have f: "a_blk a rid = (case um_find hash_u64 (cs_blocked_tasks (k_cpu k1 me)) rid of None \<Rightarrow> [] | Some l \<Rightarrow> l)"
    using core_rel_parts(1) [OF k1(2)] by (simp add: queues_rel_def)
  have w: "Wakeup me rid k = Done (unguard_cpu me k3)"
    using k1(1) k2(1) f by (auto simp: Wakeup_def k3_def split: option.splits)
  obtain k4 where "unguard_cpu me k3 = k4" "core_rel k4 me (a_wakeup (pol_of (k_tcbs k)) rid a)" "unlocked k4 me"
      "touch me (owned a) k3 k4"
    using guard_leave [OF k3(1,2), where S = "owned a"] by blast
  with w show ?thesis by (meson touch_trans k1(5) k2(4) k3(3))
qed

subsection \<open>TickUpdate\<close>

lemma mset_pop:
  assumes "is_heap (wake_tick h) q" "\<not> pq_empty q"
  shows "mset (pq_pop (wake_cmp h) q) = mset q - {#pq_top q#}" "is_heap (wake_tick h) (pq_pop (wake_cmp h) q)"
    "pq_top q \<in># mset q" "length q = Suc (length (pq_pop (wake_cmp h) q))"
proof -
  show "mset (pq_pop (wake_cmp h) q) = mset q - {#pq_top q#}" "is_heap (wake_tick h) (pq_pop (wake_cmp h) q)"
    using keyed.elems_pop [OF assms] keyed.invar_pop [OF assms] by simp_all
  show "pq_top q \<in># mset q" by (rule keyed.top_elem [OF assms(2)])
  show "length q = Suc (length (pq_pop (wake_cmp h) q))"
    using arg_cong [OF keyed.elems_pop_add [OF assms], of size] by simp
qed

text \<open>One turn of the waking loop.\<close>

lemma wake_one_sleeper:
  assumes "core_rel k me a" "held k me" "a_run a = Some r" "cs_sleeping_tasks (k_cpu k me) = q" "\<not> pq_empty q"
    and "wake_tick (k_tcbs k) (pq_top q) \<le> cs_local_tick (k_cpu k me)"
  shows "\<exists>k'. wake_due (Suc n) me (Some r) k need = wake_due n me (Some r) k' True \<and>
           core_rel k' me (a_enqueue (pol_of (k_tcbs k)) (pq_top q) (a\<lparr>a_slp := a_slp a - {#pq_top q#}\<rparr>)) \<and>
           held k' me \<and> touch me (owned a) k k'"
proof -
  let ?t = "pq_top q"
  let ?a = "a\<lparr>a_slp := a_slp a - {#?t#}\<rparr>"
  note rel = core_rel_parts [OF assms(1)]
  have hq: "is_heap (wake_tick (k_tcbs k)) q" using rel(4) assms(4) by simp
  note pop = mset_pop [OF hq assms(5)]
  have slp: "mset q = a_slp a" using rel(1) assms(4) by (simp add: queues_rel_def)
  have tin: "?t \<in># a_slp a" using pop(3) slp by simp
  obtain T where T: "k_tcbs k ?t = Some T" "t_status T = kSleeping" "t_policy T \<in> user_policies"
    using tasks_relD(3) [OF rel(2) tin] by (auto elim: task_isE)
  have np: "t_policy T \<noteq> kPolicyCount" using T(3) by auto
  have ne: "?t \<noteq> r" "?t \<noteq> a_idle a" using running_not [OF assms(1,3) T(1)] T(2) by simp_all
  have tO: "?t \<in> owned a" using tin by (simp add: owned_def)
  note rem = tasks_remove_sleeper [OF rel(2) tin]
  define k1 where "k1 = set_sleeping k me (pq_pop (wake_cmp (k_tcbs k)) q)"
  have k1: "k_tcbs k1 = k_tcbs k" "held k1 me" "touch me (owned a) k k1" "k_percpu k1 = k_percpu k"
    using assms(2) by (simp_all add: k1_def exec_simps touch_intros)
  have q1: "queues_rel (k_cpu k1 me) ?a" using rel(1) pop(1) slp by (simp add: k1_def exec_simps queues_rel_def)
  have "is_heap (wake_tick (k_tcbs k1)) (cs_sleeping_tasks (k_cpu k1 me))" using pop(2) by (simp add: k1_def exec_simps)
  define T1 where "T1 = set_status kReady T"
  define k2 where "k2 = k1\<lparr>k_tcbs := (k_tcbs k1)(?t \<mapsto> T1)\<rparr>"
  have "core_rel k2 me ?a"
    unfolding k2_def
    by (rule core_rel_free_tcb [OF q1 _ _ \<open>is_heap (wake_tick (k_tcbs k1)) _\<close> rem(2) _ ne(1)])
      (use rel rem(1) assms(3) ne T k1 in \<open>simp_all add: T1_def\<close>)
  moreover have "held k2 me" using k1(2) by (simp add: k2_def exec_simps)
  ultimately obtain k3 where k3: "enqueue_if k2 me (t_policy T1) ?t = Done k3"
      "core_rel k3 me (a_enqueue (pol_of (k_tcbs k2)) ?t ?a)" "held k3 me" "touch me (owned a) k2 k3"
    using make_ready [of k2 me ?a ?t T1 r "owned a"] rem(2) T(3) assms(3) ne tO by (auto simp: k2_def T1_def)
  have pol: "pol_of (k_tcbs k2) = pol_of (k_tcbs k)"
    using pol_of_upd [of "k_tcbs k" ?t T T1] T(1) by (simp add: k2_def k1(1) T1_def)
  have "touch me (owned a) k k2"
    unfolding k2_def by (rule touch_tcb [OF k1(3) _ tO]) (simp_all add: k1(1) T(1) T1_def)
  then have "touch me (owned a) k k3" using k3(4) by (rule touch_trans)
  moreover have e2: "k1\<lparr>k_tcbs := (k_tcbs k)(?t \<mapsto> set_status kReady T)\<rparr> = k2" "t_policy T1 = t_policy T"
    by (simp_all add: k2_def k1(1) T1_def)
  have "\<not> cs_local_tick (k_cpu k me) < si_wake_tick (t_sched_info T)"
    using assms(6) T(1) by (simp add: wake_tick_def not_less)
  then have "wake_due (Suc n) me (Some r) k need = wake_due n me (Some r) k3 True"
    using assms(4,5) T(1) ne(1) k3(1) k1(1)
    by (simp add: Let_def exec_simps k1_def [symmetric] e2)
  ultimately show ?thesis using k3 pol by (intro exI [of _ k3]) simp
qed

lemma a_wake_Cons: "a_wake pol (t # ts) a = a_wake pol ts (a_enqueue pol t (a\<lparr>a_slp := a_slp a - {#t#}\<rparr>))"
  by (simp add: a_wake_def)

lemma owned_wake: "set ts \<subseteq> set_mset (a_slp a) \<Longrightarrow> owned (a_wake pol ts a) \<subseteq> owned a"
proof -
  assume "set ts \<subseteq> set_mset (a_slp a)"
  then have "set ts \<subseteq> owned a" by (auto simp: owned_def)
  moreover have "owned (a_wake pol ts a) \<subseteq> owned a \<union> set ts"
  proof (induction ts arbitrary: a)
    case (Cons t ts)
    have "owned (a\<lparr>a_slp := a_slp a - {#t#}\<rparr>) \<subseteq> owned a" by (auto simp: owned_def dest: in_diffD)
    with Cons [of "a_enqueue pol t (a\<lparr>a_slp := a_slp a - {#t#}\<rparr>)"] show ?case
      by (auto simp: a_wake_Cons owned_enqueue)
  qed (simp add: a_wake_def)
  ultimately show ?thesis by blast
qed

lemma wake_due_ok:
  assumes "core_rel k me a" "held k me" "a_run a = Some r" "size (a_slp a) \<le> n" "owned a \<subseteq> S"
  shows "\<exists>k' woken. wake_due n me (Some r) k need = Done (k', need \<or> woken \<noteq> []) \<and>
           core_rel k' me (a_wake (pol_of (k_tcbs k)) woken a) \<and> held k' me \<and> touch me S k k' \<and>
           mset woken = filter_mset (\<lambda>t. wake_tick (k_tcbs k) t \<le> cs_local_tick (k_cpu k me)) (a_slp a) \<and>
           sorted (map (wake_tick (k_tcbs k)) woken)"
  using assms
proof (induction n arbitrary: k a need)
  case 0
  then show ?case by (intro exI [of _ k] exI [of _ "[]"]) (simp add: a_wake_def touch_refl)
next
  case (Suc n)
  let ?q = "cs_sleeping_tasks (k_cpu k me)" and ?now = "cs_local_tick (k_cpu k me)" and ?wake = "wake_tick (k_tcbs k)"
  note rel = core_rel_parts [OF Suc.prems(1)]
  have slp: "mset ?q = a_slp a" using rel(1) by (simp add: queues_rel_def)
  show ?case
  proof (cases "pq_empty ?q \<or> ?now < ?wake (pq_top ?q)")
    case True
    then have "wake_due (Suc n) me (Some r) k need = Done (k, need)"
    proof (cases "pq_empty ?q")
      case False
      then have "pq_top ?q \<in># a_slp a" using keyed.top_elem [of ?q] slp by simp
      then obtain T where "k_tcbs k (pq_top ?q) = Some T" using tasks_relD(3) [OF rel(2)] by (auto elim: task_isE)
      with True False show ?thesis by (simp add: Let_def exec_simps wake_tick_def)
    qed (simp add: Let_def)
    moreover have "filter_mset (\<lambda>t. ?wake t \<le> ?now) (a_slp a) = {#}"
    proof -
      have "?now < ?wake x" if "x \<in># a_slp a" for x
        using True keyed.top_beyond [OF rel(4), of ?now x] keyed.is_empty_iff [of ?q] slp that by auto
      then show ?thesis by (auto simp: filter_mset_eq_conv not_le)
    qed
    ultimately show ?thesis
      using Suc.prems by (intro exI [of _ k] exI [of _ "[]"]) (simp add: a_wake_def touch_refl)
  next
    case False
    let ?t = "pq_top ?q"
    let ?a = "a_enqueue (pol_of (k_tcbs k)) ?t (a\<lparr>a_slp := a_slp a - {#?t#}\<rparr>)"
    have due: "\<not> pq_empty ?q" "?wake ?t \<le> ?now" using False by (simp_all add: not_less)
    obtain k1 where k1: "wake_due (Suc n) me (Some r) k need = wake_due n me (Some r) k1 True" "core_rel k1 me ?a"
        "held k1 me" "touch me (owned a) k k1"
      using wake_one_sleeper [OF Suc.prems(1-3) refl due] by blast
    have tin: "?t \<in># a_slp a" using keyed.top_elem [OF due(1)] slp by simp
    have sz: "size (a_slp ?a) \<le> n" using Suc.prems(4) tin by (simp add: size_Diff_singleton)
    have "owned (a\<lparr>a_slp := a_slp a - {#?t#}\<rparr>) \<subseteq> owned a" "?t \<in> owned a"
      using tin by (auto simp: owned_def dest: in_diffD)
    then have ow: "owned ?a \<subseteq> S" using Suc.prems(5) by (auto simp: owned_enqueue)
    have same: "pol_of (k_tcbs k1) = pol_of (k_tcbs k)" "wake_tick (k_tcbs k1) = ?wake" "cs_local_tick (k_cpu k1 me) = ?now"
      using k1(4) by (simp_all add: touch_def local_step_def)
    obtain k2 woken where k2: "wake_due n me (Some r) k1 True = Done (k2, True \<or> woken \<noteq> [])"
        "core_rel k2 me (a_wake (pol_of (k_tcbs k)) woken ?a)" "held k2 me" "touch me S k1 k2"
        "mset woken = filter_mset (\<lambda>t. ?wake t \<le> ?now) (a_slp ?a)" "sorted (map ?wake woken)"
      using Suc.IH [OF k1(2,3) _ sz ow, of True] Suc.prems(3) unfolding same by auto
    obtain M where M: "a_slp a = add_mset ?t M" using multi_member_split [OF tin] by blast
    have "mset (?t # woken) = filter_mset (\<lambda>t. ?wake t \<le> ?now) (a_slp a)"
      using k2(5) due(2) by (simp add: M)
    moreover have "sorted (map ?wake (?t # woken))"
    proof -
      have "?wake ?t \<le> ?wake x" if "x \<in> set woken" for x
      proof -
        have "x \<in># mset woken" using that by simp
        then have "x \<in># a_slp ?a" unfolding k2(5) by (simp only: set_mset_filter mem_Collect_eq)
        then have "x \<in># mset ?q" using slp by (auto dest: in_diffD)
        then show ?thesis by (rule keyed.top_min [OF rel(4)])
      qed
      with k2(6) show ?thesis by simp
    qed
    ultimately show ?thesis
      using k1(1) k2(1-3) touch_trans [OF touch_mono [OF k1(4) Suc.prems(5)] k2(4)]
      by (intro exI [of _ k2] exI [of _ "?t # woken"]) (simp add: a_wake_Cons)
  qed
qed

lemma account_tick_view [simp]:
  "t_status (account_tick T) = t_status T" "t_policy (account_tick T) = t_policy T"
  "t_blocked_on (account_tick T) = t_blocked_on T"
  "si_wake_tick (t_sched_info (account_tick T)) = si_wake_tick (t_sched_info T)"
  by (simp_all add: account_tick_def)

text \<open>No scheduler that the kernel installs asks for preemption on a tick.\<close>

lemma OnTick_quiet:
  assumes "queues_rel cs a" "p \<noteq> kPolicyCount"
  obtains s where "cs_schedulers cs p = Some s" "\<forall>h t. OnTick h s t = Done (h, s, False)"
  using assms by (cases p) (auto simp: queues_rel_def OnTick_defs)

lemma core_rel_view:
  assumes "core_rel k me a" "k_tcbs k t = Some T" "t_status T' = t_status T" "t_policy T' = t_policy T"
    and "t_blocked_on T' = t_blocked_on T" "si_wake_tick (t_sched_info T') = si_wake_tick (t_sched_info T)"
  shows "core_rel (k\<lparr>k_tcbs := (k_tcbs k)(t \<mapsto> T')\<rparr>) me a"
proof -
  let ?h = "(k_tcbs k)(t \<mapsto> T')"
  have v: "task_is ?h = task_is (k_tcbs k)"
    by (intro ext) (use assms in \<open>simp add: task_is_def\<close>)
  have b: "map_option t_blocked_on (?h u) = map_option t_blocked_on (k_tcbs k u)" for u using assms by simp
  have l: "(\<exists>T. ?h u = Some T) \<longleftrightarrow> (\<exists>T. k_tcbs k u = Some T)" for u using assms(2) by simp
  have "tasks_rel ?h a = tasks_rel (k_tcbs k) a" unfolding tasks_rel_def v b ..
  moreover have "run_rel ?h (k_percpu k me) a = run_rel (k_tcbs k) (k_percpu k me) a"
    unfolding run_rel_def v using l by (simp cong: option.case_cong)
  moreover have "wake_tick ?h = wake_tick (k_tcbs k)"
    by (rule wake_tick_upd_same) (use assms in simp_all)
  ultimately show ?thesis using assms(1) by (simp add: core_rel_def)
qed

lemma account_ok:
  assumes "core_rel k me a" "held k me" "a_run a = Some r"
  shows "\<exists>k' need'. TickUpdate_account me (Some r) k need = Done (k', need') \<and> (need \<longrightarrow> need') \<and>
           core_rel k' me a \<and> held k' me \<and> touch me (owned a) k k'"
proof -
  note rel = core_rel_parts [OF assms(1)]
  have rO: "r \<in> owned a" using assms(3) by (simp add: owned_def)
  obtain T where T: "k_tcbs k r = Some T" "t_policy T \<noteq> kPolicyCount"
    using rel(3) assms(3) by (auto simp: run_rel_def elim: task_isE split: if_splits)
  show ?thesis
  proof (cases "t_status T = kRunning")
    case False
    then have "TickUpdate_account me (Some r) k need = Done (k, need)"
      using T by (simp add: TickUpdate_account_def exec_simps)
    then show ?thesis using assms touch_refl by blast
  next
    case True
    let ?k = "k\<lparr>k_tcbs := (k_tcbs k)(r \<mapsto> account_tick T)\<rparr>"
    obtain s where s: "cs_schedulers (k_cpu k me) (t_policy T) = Some s" "\<forall>h t. OnTick h s t = Done (h, s, False)"
      by (rule OnTick_quiet [OF rel(1) T(2)])
    define k1 where "k1 = (if need then ?k else set_scheduler ?k me (t_policy T) s)"
    have core: "core_rel ?k me a" by (rule core_rel_view [OF assms(1) T(1)]) simp_all
    have "core_rel (set_scheduler ?k me (t_policy T) s) me a"
    proof -
      have "(cs_schedulers (k_cpu k me))(t_policy T \<mapsto> s) = cs_schedulers (k_cpu k me)" using s(1) by (simp add: fun_upd_idem)
      then show ?thesis using core by (simp add: core_rel_def exec_simps)
    qed
    moreover have "touch me (owned a) k ?k" by (rule touch_tcb [OF touch_refl T(1) rO]) simp_all
    ultimately have k1: "core_rel k1 me a" "held k1 me" "touch me (owned a) k k1" "k_tcbs k1 r = Some (account_tick T)"
      using core assms(2) by (simp_all add: k1_def exec_simps touch_intros)
    have "TickUpdate_account me (Some r) k need =
        Done (k1, need \<or> si_time_slice_remaining (t_sched_info (account_tick T)) = 0)"
      using T True s k1(4) by (cases need) (simp_all add: TickUpdate_account_def exec_simps k1_def)
    with k1 show ?thesis by blast
  qed
qed

lemma TickUpdate_ok:
  assumes "core_rel k me a" "unlocked k me" "a_run a = Some r"
  defines "now \<equiv> cs_local_tick (k_cpu k me) + 1" and "pol \<equiv> pol_of (k_tcbs k)" and "wake \<equiv> wake_tick (k_tcbs k)"
  shows "\<exists>k' woken need. TickUpdate me k = Done k' \<and>
           mset woken = filter_mset (\<lambda>t. wake t \<le> now) (a_slp a) \<and> sorted (map wake woken) \<and>
           (woken \<noteq> [] \<longrightarrow> need) \<and>
           core_rel k' me (if need then a_schedule pol (a_wake pol woken a) else a_wake pol woken a) \<and>
           unlocked k' me \<and> local_step me (owned a) k k' \<and> wake_tick (k_tcbs k') = wake \<and>
           cs_local_tick (k_cpu k' me) = now"
proof -
  obtain k1 where k1: "guard_cpu me k = Done k1" "core_rel k1 me a" "held k1 me" "k_tcbs k1 = k_tcbs k"
      "k_percpu k1 = k_percpu k" "cs_local_tick (k_cpu k1 me) = cs_local_tick (k_cpu k me)" "touch me (owned a) k k1"
    using guard_enter [OF assms(1,2), where S = "owned a"] by blast
  define k2 where "k2 = upd_cpu k1 me (\<lambda>c. c\<lparr>cs_local_tick := cs_local_tick c + 1\<rparr>)"
  have k2: "core_rel k2 me a" "held k2 me" "k_tcbs k2 = k_tcbs k" "cs_local_tick (k_cpu k2 me) = now"
      "k_percpu k2 = k_percpu k"
    using k1 by (simp_all add: k2_def core_rel_def exec_simps held_def now_def)
  have l2: "local_step me (owned a) k k2"
    using touch_local [OF k1(7)] by (simp add: k2_def local_step_def upd_cpu_def)
  have run: "GetCurrentTask me k2 = Some r"
    using core_rel_parts(3) [OF k2(1)] assms(3) by (simp add: GetCurrentTask_def run_rel_def)
  have sz: "size (a_slp a) \<le> pq_size (cs_sleeping_tasks (k_cpu k2 me))"
    using arg_cong [of _ _ size] core_rel_parts(1) [OF k2(1)] by (metis order_refl pq_size_def queues_rel_def size_mset)
  obtain k3 woken where k3: "wake_due (pq_size (cs_sleeping_tasks (k_cpu k2 me))) me (Some r) k2 False = Done (k3, woken \<noteq> [])"
      "core_rel k3 me (a_wake pol woken a)" "held k3 me" "touch me (owned a) k2 k3"
      "mset woken = filter_mset (\<lambda>t. wake t \<le> now) (a_slp a)" "sorted (map wake woken)"
    using wake_due_ok [OF k2(1,2) assms(3) sz order_refl, of False] unfolding k2(3,4) pol_def wake_def by auto
  have run3: "a_run (a_wake pol woken b) = a_run b" for b
    unfolding a_wake_def by (induction woken arbitrary: b) simp_all
  obtain k4 need where k4: "TickUpdate_account me (Some r) k3 (woken \<noteq> []) = Done (k4, need)" "woken \<noteq> [] \<longrightarrow> need"
      "core_rel k4 me (a_wake pol woken a)" "held k4 me" "touch me (owned (a_wake pol woken a)) k3 k4"
    using account_ok [OF k3(2,3), of r "woken \<noteq> []"] run3 assms(3) by auto
  have ow: "owned (a_wake pol woken a) \<subseteq> owned a"
  proof (rule owned_wake)
    show "set woken \<subseteq> set_mset (a_slp a)" using arg_cong [OF k3(5), of set_mset] by auto
  qed
  obtain k5 where k5: "unguard_cpu me k4 = k5" "core_rel k5 me (a_wake pol woken a)" "unlocked k5 me" "touch me (owned a) k4 k5"
      "k_tcbs k5 = k_tcbs k4"
    using guard_leave [OF k4(3,4), where S = "owned a"] by blast
  have t5: "touch me (owned a) k2 k5" by (meson touch_trans touch_mono ow k3(4) k4(5) k5(4))
  have p5: "pol_of (k_tcbs k5) = pol" using t5 k2(3) by (simp add: touch_def local_step_def pol_def)
  obtain k6 where k6: "(if need then Schedule me k5 else Done k5) = Done k6"
      "core_rel k6 me (if need then a_schedule pol (a_wake pol woken a) else a_wake pol woken a)"
      "unlocked k6 me" "touch me (owned a) k5 k6"
  proof (cases need)
    case True
    obtain k6 where "Schedule me k5 = Done k6" "core_rel k6 me (a_schedule pol (a_wake pol woken a))" "unlocked k6 me"
        "touch me (owned (a_wake pol woken a)) k5 k6"
      using Schedule_running [OF k5(2,3), of r] run3 assms(3) p5 by auto
    then show thesis using that True touch_mono [OF _ ow] by simp
  next
    case False
    then show thesis using that [of k5] k5 touch_refl by simp
  qed
  have "TickUpdate me k = Done k6"
    using k1(1) run k3(1) k4(1) k5(1) k6(1)
    by (cases need) (simp_all add: TickUpdate_def Let_def k2_def [symmetric])
  moreover have "touch me (owned a) k2 k6" by (rule touch_trans [OF t5 k6(4)])
  then have "wake_tick (k_tcbs k6) = wake" "cs_local_tick (k_cpu k6 me) = now" "local_step me (owned a) k2 k6"
    using k2(3,4) by (simp_all add: touch_def wake_def)
  moreover from this(3) have "local_step me (owned a) k k6" by (rule local_step_trans [OF l2])
  ultimately show ?thesis using k3(5,6) k4(2) k6(2,3) by blast
qed

end
