(* ===== verification/Kernel_Invariant.thy ===== *)
theory Kernel_Invariant
  imports Core_Operations
begin

text \<open>
  The invariant of the whole kernel and the states it can reach. \<open>kernel_step\<close> is one
  operation of the task manager, run by any core: initialisation of a core, creation and
  addition of a task, a scheduling decision, a timer tick, and a task that sleeps, waits or
  wakes others. Each runs to its end before the next one starts, which is what the locks of
  \<open>Spin_Lock\<close> give to the critical sections. In every reachable state each core is
  described by an abstract core, no task belongs to two cores, and all locks are free.
\<close>

subsection \<open>Cores do not interfere\<close>

lemma core_rel_frame:
  assumes "core_rel k c a" "a_run a \<noteq> None"
    and "queues_rel (k_cpu k' c) a" "cs_sleeping_tasks (k_cpu k' c) = cs_sleeping_tasks (k_cpu k c)"
    and "k_percpu k' c = k_percpu k c" "\<And>t. t \<in> owned a \<Longrightarrow> k_tcbs k' t = k_tcbs k t"
  shows "core_rel k' c a"
proof -
  note rel = core_rel_parts [OF assms(1)]
  have same: "task_is (k_tcbs k') t ss ps = task_is (k_tcbs k) t ss ps" if "t \<in> owned a" for t ss ps
    using assms(6) [OF that] by (simp add: task_is_def)
  have o: "t \<in> set (a_rt a) \<Longrightarrow> t \<in> owned a" "t \<in> set (a_norm a) \<Longrightarrow> t \<in> owned a" "t \<in># a_slp a \<Longrightarrow> t \<in> owned a"
    "t \<in> set (a_blk a r) \<Longrightarrow> t \<in> owned a" "a_idle a \<in> owned a" "a_run a = Some t \<Longrightarrow> t \<in> owned a" for t r
    by (auto simp: owned_def)
  have "tasks_rel (k_tcbs k') a"
  proof (rule tasks_relI)
    show "count (a_slp a) t \<le> 1" for t by (rule tasks_relD(9) [OF rel(2)])
  qed (use tasks_relD [OF rel(2)] same o assms(6) in \<open>simp_all (no_asm_simp)\<close>)
  moreover have "run_rel (k_tcbs k') (k_percpu k' c) a"
    using rel(3) assms(2,5) same [OF o(5)] same [OF o(6)] by (auto simp: run_rel_def split: option.splits if_splits)
  moreover have "is_heap (wake_tick (k_tcbs k')) (cs_sleeping_tasks (k_cpu k c)) = is_heap (wake_tick (k_tcbs k)) (cs_sleeping_tasks (k_cpu k c))"
  proof (rule is_heap_cong)
    fix t assume "t \<in> set (cs_sleeping_tasks (k_cpu k c))"
    then have "t \<in># a_slp a" using rel(1) by (simp add: queues_rel_def flip: set_mset_mset)
    then show "wake_tick (k_tcbs k') t = wake_tick (k_tcbs k) t" using assms(6) [OF o(3)] by (simp add: wake_tick_def)
  qed
  ultimately show ?thesis using assms(3,4) rel(4) by (simp add: core_rel_def)
qed

definition sys_rel :: "kernel \<Rightarrow> (size_t \<rightharpoonup> acore) \<Rightarrow> bool" where
  "sys_rel k A \<longleftrightarrow>
     (\<forall>c. unlocked k c) \<and> \<not> sl_locked (k_task_table_lock k) \<and> um_inv hash_u64 (k_task_table k) \<and>
     (\<forall>c. case A c of
            None \<Rightarrow> k_cpu k c = new_CpuSchedData\<lparr>cs_lock := cs_lock (k_cpu k c)\<rparr> \<and> pc_idle_task (k_percpu k c) = None
          | Some a \<Rightarrow> core_rel k c a \<and> a_run a \<noteq> None) \<and>
     (\<forall>c d a b. A c = Some a \<longrightarrow> A d = Some b \<longrightarrow> c \<noteq> d \<longrightarrow> owned a \<inter> owned b = {}) \<and>
     (\<forall>c a. A c = Some a \<longrightarrow> owned a \<subseteq> dom (k_tcbs k))"

lemma sys_relD:
  assumes "sys_rel k A"
  shows "unlocked k c" "\<not> sl_locked (k_task_table_lock k)" "um_inv hash_u64 (k_task_table k)"
    and "A c = Some a \<Longrightarrow> core_rel k c a" "A c = Some a \<Longrightarrow> a_run a \<noteq> None"
    and "A c = None \<Longrightarrow> k_cpu k c = new_CpuSchedData\<lparr>cs_lock := cs_lock (k_cpu k c)\<rparr>"
    and "A c = None \<Longrightarrow> pc_idle_task (k_percpu k c) = None"
    and "A c = Some a \<Longrightarrow> A d = Some b \<Longrightarrow> c \<noteq> d \<Longrightarrow> owned a \<inter> owned b = {}"
    and "A c = Some a \<Longrightarrow> owned a \<subseteq> dom (k_tcbs k)"
  using assms unfolding sys_rel_def by (auto split: option.splits dest: spec [of _ c])

lemma sys_relI:
  assumes "\<And>c. unlocked k c" "\<not> sl_locked (k_task_table_lock k)" "um_inv hash_u64 (k_task_table k)"
    and "\<And>c a. A c = Some a \<Longrightarrow> core_rel k c a \<and> a_run a \<noteq> None \<and> owned a \<subseteq> dom (k_tcbs k)"
    and "\<And>c. A c = None \<Longrightarrow> k_cpu k c = new_CpuSchedData\<lparr>cs_lock := cs_lock (k_cpu k c)\<rparr> \<and> pc_idle_task (k_percpu k c) = None"
    and "\<And>c d a b. A c = Some a \<Longrightarrow> A d = Some b \<Longrightarrow> c \<noteq> d \<Longrightarrow> owned a \<inter> owned b = {}"
  shows "sys_rel k A"
  unfolding sys_rel_def using assms by (intro conjI allI impI) (simp_all split: option.split)

text \<open>An operation that stays within one core carries over to the system.\<close>

lemma sys_rel_local:
  assumes "sys_rel k A" "A me = Some a" "local_step me (owned a) k k'" "core_rel k' me a'" "unlocked k' me"
    and "a_run a' \<noteq> None" "owned a' \<subseteq> owned a"
  shows "sys_rel k' (A(me \<mapsto> a'))"
proof -
  have other: "k_cpu k' c = k_cpu k c" "k_percpu k' c = k_percpu k c" if "c \<noteq> me" for c
    using assms(3) that by (simp_all add: local_step_def)
  have dom: "dom (k_tcbs k') = dom (k_tcbs k)" using assms(3) by (simp add: local_step_def)
  have core: "core_rel k' c b" if "c \<noteq> me" "A c = Some b" for c b
  proof (rule core_rel_frame)
    show "core_rel k c b" "a_run b \<noteq> None" using sys_relD(4,5) [OF assms(1) that(2)] by simp_all
    then show "queues_rel (k_cpu k' c) b" using other that(1) by (simp add: core_rel_def)
    have "owned a \<inter> owned b = {}" using sys_relD(8) [OF assms(1,2) that(2)] that(1) by simp
    then show "k_tcbs k' t = k_tcbs k t" if "t \<in> owned b" for t
      using assms(3) that unfolding local_step_def by blast
  qed (use other that(1) in simp_all)
  show ?thesis
  proof (rule sys_relI)
    show "unlocked k' c" for c
      using sys_relD(1) [OF assms(1), of c] assms(5) other [of c] by (cases "c = me") (simp_all add: unlocked_def)
    show "\<not> sl_locked (k_task_table_lock k')" "um_inv hash_u64 (k_task_table k')"
      using sys_relD(2,3) [OF assms(1)] assms(3) by (simp_all add: local_step_def)
    show "core_rel k' c b \<and> a_run b \<noteq> None \<and> owned b \<subseteq> dom (k_tcbs k')" if "(A(me \<mapsto> a')) c = Some b" for c b
    proof (cases "c = me")
      case True
      with that assms(4,6,7) sys_relD(9) [OF assms(1,2)] show ?thesis by (auto simp: dom)
    next
      case False
      with that core sys_relD(5,9) [OF assms(1)] show ?thesis by (auto simp: dom)
    qed
    show "k_cpu k' c = new_CpuSchedData\<lparr>cs_lock := cs_lock (k_cpu k' c)\<rparr> \<and> pc_idle_task (k_percpu k' c) = None"
      if "(A(me \<mapsto> a')) c = None" for c
      using that other [of c] sys_relD(6,7) [OF assms(1), of c] by (cases "c = me") simp_all
    show "owned b \<inter> owned e = {}" if cd: "(A(me \<mapsto> a')) c = Some b" "(A(me \<mapsto> a')) d = Some e" "c \<noteq> d" for c d b e
    proof -
      consider "c = me" "A d = Some e" | "d = me" "A c = Some b" | "A c = Some b" "A d = Some e"
        using cd by (cases "c = me"; cases "d = me") simp_all
      then show ?thesis
      proof cases
        case 1
        then have "owned a \<inter> owned e = {}" using sys_relD(8) [OF assms(1,2)] cd(3) by blast
        with 1 cd(1) assms(7) show ?thesis by auto
      next
        case 2
        then have "owned b \<inter> owned a = {}" using sys_relD(8) [OF assms(1) _ assms(2)] cd(3) by blast
        with 2 cd(2) assms(7) show ?thesis by auto
      next
        case 3
        then show ?thesis using sys_relD(8) [OF assms(1)] cd(3) by blast
      qed
    qed
  qed
qed

subsection \<open>Starting a core\<close>

lemma um_find_new: "um_find h (um_new h) k = None"
  by (simp add: um_find_None_iff [OF um_new_correct(1)] um_new_correct(2))

definition a_start :: "tptr \<Rightarrow> acore" where
  "a_start t = \<lparr>a_run = Some t, a_idle = t, a_rt = [], a_norm = [], a_slp = {#}, a_blk = (\<lambda>_. [])\<rparr>"

lemma owned_start [simp]: "owned (a_start t) = {t}"
  by (simp add: owned_def a_start_def)

text \<open>Adding one block that no core owns does not disturb any core.\<close>

lemma sys_rel_extend:
  assumes "sys_rel k A" "\<And>c a. A c = Some a \<Longrightarrow> t \<notin> owned a" "core_rel k' c a'" "a_run a' \<noteq> None"
    and "\<And>d. d \<noteq> c \<Longrightarrow> k_cpu k' d = k_cpu k d \<and> k_percpu k' d = k_percpu k d"
    and "\<And>u. u \<noteq> t \<Longrightarrow> k_tcbs k' u = k_tcbs k u" "k_tcbs k' t = Some T"
    and "unlocked k' c" "\<not> sl_locked (k_task_table_lock k')" "um_inv hash_u64 (k_task_table k')"
    and "owned a' \<subseteq> insert t (case A c of None \<Rightarrow> {} | Some a \<Rightarrow> owned a)"
  shows "sys_rel k' (A(c \<mapsto> a'))"
proof -
  have dm: "dom (k_tcbs k') = insert t (dom (k_tcbs k))"
  proof (rule set_eqI)
    fix u show "u \<in> dom (k_tcbs k') \<longleftrightarrow> u \<in> insert t (dom (k_tcbs k))"
      using assms(6) [of u] assms(7) by (cases "u = t") (simp_all add: domIff)
  qed
  have core: "core_rel k' d b" if "d \<noteq> c" "A d = Some b" for d b
  proof (rule core_rel_frame)
    show "core_rel k d b" "a_run b \<noteq> None" using sys_relD(4,5) [OF assms(1) that(2)] by simp_all
    then show "queues_rel (k_cpu k' d) b" using assms(5) [OF that(1)] by (simp add: core_rel_def)
    show "k_tcbs k' u = k_tcbs k u" if "u \<in> owned b" for u
      using assms(2) [OF \<open>A d = Some b\<close>] assms(6) [of u] that by (cases "u = t") auto
  qed (use assms(5) [OF that(1)] in simp_all)
  have disj: "owned a' \<inter> owned b = {}" if "d \<noteq> c" "A d = Some b" for d b
    using assms(11) assms(2) [OF that(2)] sys_relD(8) [OF assms(1) _ that(2), of c] that(1)
    by (fastforce split: option.splits)
  show ?thesis
  proof (rule sys_relI)
    show "unlocked k' d" for d
      using sys_relD(1) [OF assms(1), of d] assms(8) assms(5) [of d] by (cases "d = c") (simp_all add: unlocked_def)
    show "core_rel k' d b \<and> a_run b \<noteq> None \<and> owned b \<subseteq> dom (k_tcbs k')" if "(A(c \<mapsto> a')) d = Some b" for d b
    proof (cases "d = c")
      case True
      with that assms(3,4,11) sys_relD(9) [OF assms(1), of c] show ?thesis by (auto simp: dm split: option.splits)
    next
      case False
      with that core [OF False] sys_relD(5,9) [OF assms(1), of d b] show ?thesis by (auto simp: dm)
    qed
    show "k_cpu k' d = new_CpuSchedData\<lparr>cs_lock := cs_lock (k_cpu k' d)\<rparr> \<and> pc_idle_task (k_percpu k' d) = None"
      if "(A(c \<mapsto> a')) d = None" for d
      using that assms(5) [of d] sys_relD(6,7) [OF assms(1), of d] by (cases "d = c") simp_all
    show "owned b \<inter> owned e = {}" if "(A(c \<mapsto> a')) d = Some b" "(A(c \<mapsto> a')) f = Some e" "d \<noteq> f" for d f b e
      using that disj [of d b] disj [of f e] sys_relD(8) [OF assms(1), of d b f e]
      by (cases "d = c"; cases "f = c") (simp_all add: Int_commute)
  qed (rule assms(9,10))+
qed

lemma InitCurrentCore_ok:
  assumes "sys_rel k A" "A me = None" "k_tcbs k t = None"
  shows "\<exists>k'. InitCurrentCore kte tcs idle_thread t stack me k = Done k' \<and> sys_rel k' (A(me \<mapsto> a_start t)) \<and>
           dom (k_tcbs k') = insert t (dom (k_tcbs k)) \<and> (\<forall>d. cs_local_tick (k_cpu k' d) = cs_local_tick (k_cpu k d))"
proof -
  obtain l where l: "guard_cpu me k = Done (set_cpu_lock k me me (False, l))" "sl_locked l" "sl_core_id l = me"
    using guard_cpu_free [OF sys_relD(1) [OF assms(1)]] by blast
  note new = sys_relD(6) [OF assms(1,2)]
  have f: "cs_schedulers (k_cpu k me) = (\<lambda>_. None)" "cs_sleeping_tasks (k_cpu k me) = []"
      "cs_blocked_tasks (k_cpu k me) = um_new hash_u64"
    using arg_cong [OF new, of cs_schedulers] arg_cong [OF new, of cs_sleeping_tasks] arg_cong [OF new, of cs_blocked_tasks]
    by (simp_all add: new_CpuSchedData_def)
  define T where "T = (new_TaskControlBlock kte tcs stack ''Idle'' INT_MAX idle_thread 0)\<lparr>t_status := kReady, t_policy := kIdle\<rparr>"
  define k1 where "k1 = set_cpu_lock k me me (False, l)"
  define k2 where "k2 = (upd_percpu (set_scheduler (set_scheduler (set_scheduler k1 me kRealTime new_FifoScheduler)
      me kNormal new_RoundRobinScheduler) me kIdle new_IdleScheduler) me (\<lambda>p. p\<lparr>pc_sched_data := Some me\<rparr>))
      \<lparr>k_tcbs := (k_tcbs k)(t \<mapsto> T)\<rparr>"
  define k3 where "k3 = upd_percpu (set_scheduler k2 me kIdle (IdleScheduler (count_enqueue zero_Stats) (Some t))) me
      (\<lambda>p. p\<lparr>pc_idle_task := Some t, pc_running_task := Some t\<rparr>)"
  have e: "InitCurrentCore kte tcs idle_thread t stack me k = Done (unguard_cpu me k3)"
    using l(1) f(1)
    by (simp add: InitCurrentCore_def Let_def T_def [symmetric] enqueue_if_def exec_simps k3_def k2_def k1_def
        new_IdleScheduler_def Enqueue_defs)
  have T: "t_status T = kReady" "t_policy T = kIdle" by (simp_all add: T_def)
  have k3: "k_tcbs k3 = (k_tcbs k)(t \<mapsto> T)" "held k3 me" "\<And>d. d \<noteq> me \<Longrightarrow> k_cpu k3 d = k_cpu k d"
      "\<And>d. d \<noteq> me \<Longrightarrow> k_percpu k3 d = k_percpu k d" "k_task_table k3 = k_task_table k"
      "k_task_table_lock k3 = k_task_table_lock k"
    using l(2,3)
    by (simp_all add: k3_def k2_def k1_def held_def exec_simps IsLockedByCurrentCore_def set_scheduler_def upd_cpu_def
        upd_percpu_def set_cpu_lock_def set_intr_flag_def)
  have "queues_rel (k_cpu k3 me) (a_start t)"
    using f(2,3) by (simp add: k3_def k2_def k1_def exec_simps queues_rel_def a_start_def um_find_new um_new_correct(1)
        new_FifoScheduler_def new_RoundRobinScheduler_def)
  moreover have "run_rel (k_tcbs k3) (k_percpu k3 me) (a_start t)"
    using T by (simp add: k3(1) run_rel_def a_start_def task_is_def) (simp add: k3_def exec_simps)
  moreover have "tasks_rel (k_tcbs k3) (a_start t)" by (simp add: tasks_rel_def a_start_def)
  moreover have "cs_sleeping_tasks (k_cpu k3 me) = []" using f(2) by (simp add: k3_def k2_def k1_def exec_simps)
  ultimately have core: "core_rel k3 me (a_start t)" by (simp add: core_rel_def)
  obtain il where il: "unguard_cpu me k3 = set_cpu_lock k3 me me il" "\<not> sl_locked (snd il)"
    using unguard_cpu_held [OF k3(2)] by blast
  have "sys_rel (set_cpu_lock k3 me me il) (A(me \<mapsto> a_start t))"
  proof (rule sys_rel_extend [OF assms(1)])
    show "t \<notin> owned a" if "A c = Some a" for c a using sys_relD(9) [OF assms(1) that] assms(3) by auto
    show "k_tcbs (set_cpu_lock k3 me me il) t = Some T" by (simp add: k3(1) exec_simps)
    show "core_rel (set_cpu_lock k3 me me il) me (a_start t)" using core by simp
    show "unlocked (set_cpu_lock k3 me me il) me" using il(2) by (simp add: exec_simps)
  qed (use k3 il(2) sys_relD(2,3) [OF assms(1)] assms(2) in
      \<open>simp_all add: exec_simps set_cpu_lock_def set_intr_flag_def upd_cpu_def\<close>, simp add: a_start_def)
  moreover have "cs_local_tick (k_cpu k3 d) = cs_local_tick (k_cpu k d)" for d
    by (simp add: k3_def k2_def k1_def exec_simps)
  ultimately show ?thesis using e il(1) by (simp add: exec_simps k3(1))
qed

subsection \<open>Adding a task\<close>

lemma guard_table_free:
  "\<not> sl_locked (k_task_table_lock k) \<Longrightarrow>
   \<exists>l. guard_table me k = Done (set_table_lock k me (False, l)) \<and> sl_locked l \<and> sl_core_id l = me"
  by (rule exI [of _ "(k_task_table_lock k)\<lparr>sl_locked := True, sl_core_id := me, sl_saved_intr_enable := k_intr k me\<rparr>"])
    (simp add: guard_table_def)

lemma unguard_table_held:
  "sl_locked (k_task_table_lock k) \<Longrightarrow> sl_core_id (k_task_table_lock k) = me \<Longrightarrow>
   \<exists>il. unguard_table me k = set_table_lock k me il \<and> \<not> sl_locked (snd il)"
  by (rule exI [of _ "LockGuard_dtor me (k_intr k me) (k_task_table_lock k)"]) (simp add: unguard_table_def)

lemma table_lock_frames [exec_simps]:
  "k_tcbs (set_table_lock k me il) = k_tcbs k" "k_cpu (set_table_lock k me il) = k_cpu k"
  "k_percpu (set_table_lock k me il) = k_percpu k" "k_task_table (set_table_lock k me il) = k_task_table k"
  "k_task_table_lock (set_table_lock k me il) = snd il" "k_boot_done (set_table_lock k me il) = k_boot_done k"
  "k_pid_allocator (set_table_lock k me il) = k_pid_allocator k"
  by (simp_all add: set_table_lock_def set_intr_flag_def)

lemma store_task_frames [exec_simps]:
  "k_tcbs (store_task k p t) = k_tcbs k" "k_cpu (store_task k p t) = k_cpu k"
  "k_percpu (store_task k p t) = k_percpu k" "k_task_table_lock (store_task k p t) = k_task_table_lock k"
  "k_task_table (store_task k p t) = um_index hash_u64 None (k_task_table k) p (\<lambda>_. Some t)"
  "k_pid_allocator (store_task k p t) = k_pid_allocator k"
  by (simp_all add: store_task_def)

lemma table_frames [exec_simps]:
  "k_task_table (set_cpu_lock k me c il) = k_task_table k" "k_task_table_lock (set_cpu_lock k me c il) = k_task_table_lock k"
  "k_task_table (set_scheduler k c p s) = k_task_table k" "k_task_table_lock (set_scheduler k c p s) = k_task_table_lock k"
  by (simp_all add: set_cpu_lock_def set_intr_flag_def upd_cpu_def set_scheduler_def)

definition task_pid :: "kernel \<Rightarrow> TaskControlBlock \<Rightarrow> Pid" where
  "task_pid k T = (if t_pid T = 0 then k_pid_allocator k else t_pid T)"

definition entered :: "kernel \<Rightarrow> TaskControlBlock \<Rightarrow> TaskControlBlock" where
  "entered k T = T\<lparr>t_pid := task_pid k T, t_tgid := (if t_tgid T = 0 then task_pid k T else t_tgid T),
     t_status := kReady\<rparr>"

text \<open>Everything that \<open>AddTask\<close> does before the task is put into a queue.\<close>

lemma AddTask_exec:
  assumes "k_tcbs k t = Some T" "t_status T = kUnInit" "t_policy T \<noteq> kPolicyCount"
    and "\<not> sl_locked (k_task_table_lock k)" "unlocked k (target_core (t_cpu_affinity T) me)"
  shows "\<exists>k1. AddTask me (Some t) k =
             obind (enqueue_if k1 (target_core (t_cpu_affinity T) me) (t_policy T) t)
               (\<lambda>k. Done (unlock_cpu me (target_core (t_cpu_affinity T) me) k)) \<and>
           k_tcbs k1 = (k_tcbs k)(t \<mapsto> entered k T) \<and> k_percpu k1 = k_percpu k \<and>
           (\<exists>l. k_cpu k1 = (k_cpu k)(target_core (t_cpu_affinity T) me := (k_cpu k (target_core (t_cpu_affinity T) me))\<lparr>cs_lock := l\<rparr>) \<and>
                IsLockedByCurrentCore me l) \<and>
           k_task_table k1 = um_index hash_u64 None (k_task_table k) (task_pid k T) (\<lambda>_. Some t) \<and>
           \<not> sl_locked (k_task_table_lock k1)"
proof -
  let ?p = "task_pid k T" and ?c = "target_core (t_cpu_affinity T) me"
  define k0 where "k0 = (if t_pid T = 0 then snd (AllocatePid k) else k)"
  have k0: "k_tcbs k0 = k_tcbs k" "k_cpu k0 = k_cpu k" "k_percpu k0 = k_percpu k" "k_task_table k0 = k_task_table k"
      "k_task_table_lock k0 = k_task_table_lock k"
    by (simp_all add: k0_def AllocatePid_def)
  have pk: "(if t_pid T = 0 then AllocatePid k else (t_pid T, k)) = (?p, k0)"
    by (simp add: k0_def AllocatePid_def task_pid_def)
  define T1 where "T1 = T\<lparr>t_pid := ?p, t_tgid := (if t_tgid T = 0 then ?p else t_tgid T)\<rparr>"
  define k1 where "k1 = k0\<lparr>k_tcbs := (k_tcbs k)(t \<mapsto> T1)\<rparr>"
  obtain l where l: "guard_table me k1 = Done (set_table_lock k1 me (False, l))" "sl_locked l" "sl_core_id l = me"
    using guard_table_free [of k1 me] assms(4) k0(5) by (auto simp: k1_def)
  define k2 where "k2 = store_task (set_table_lock k1 me (False, l)) ?p t"
  obtain il where il: "unguard_table me k2 = set_table_lock k2 me il" "\<not> sl_locked (snd il)"
    using unguard_table_held [of k2 me] l(2,3) by (auto simp: k2_def exec_simps)
  define k3 where "k3 = (set_table_lock k2 me il)\<lparr>k_tcbs := (k_tcbs k)(t \<mapsto> set_status kReady T1)\<rparr>"
  have k3: "k_cpu k3 = k_cpu k" "k_percpu k3 = k_percpu k"
    by (simp_all add: k3_def k2_def k1_def k0 exec_simps)
  obtain r l' where l': "SpinLock_Lock me (k_intr k3 me) (cs_lock (k_cpu k3 ?c)) = Done (r, False, l')" "IsLockedByCurrentCore me l'"
    using assms(5) by (auto simp: unlocked_def k3 SpinLock_Lock_def IsLockedByCurrentCore_def)
  define k4 where "k4 = set_cpu_lock k3 me ?c (False, l')"
  have lk: "lock_cpu me ?c k3 = Done k4" using l'(1) by (simp add: lock_cpu_def k4_def)
  have "AddTask me (Some t) k = obind (enqueue_if k4 ?c (t_policy T) t) (\<lambda>k. Done (unlock_cpu me ?c k))"
    using assms(1-3) l(1) il(1) lk k0(1)
    by (simp add: AddTask_def exec_simps pk policy_less_count T1_def [symmetric] k1_def [symmetric] k2_def [symmetric] Let_def)
      (simp add: k3_def k2_def k1_def exec_simps)
  moreover have "set_status kReady T1 = entered k T" by (simp add: T1_def entered_def set_status_def)
  ultimately show ?thesis
    using l'(2) il(2) k0 by (intro exI [of _ k4]) (auto simp: k4_def k3_def k2_def k1_def exec_simps)
qed

lemma unlock_cpu_other:
  "IsLockedByCurrentCore me (cs_lock (k_cpu k c)) \<Longrightarrow>
   \<exists>il. unlock_cpu me c k = set_cpu_lock k me c il \<and> \<not> sl_locked (snd il)"
  by (rule exI [of _ "snd (SpinLock_UnLock me (k_intr k me) (cs_lock (k_cpu k c)))"])
    (simp add: unlock_cpu_def SpinLock_UnLock_def)

lemma nowhere_not_owned: "t \<notin> owned a \<Longrightarrow> nowhere a t"
  by (auto simp: owned_def nowhere_def)

text \<open>A new task on a core that has been started becomes ready there.\<close>

lemma AddTask_unowned:
  assumes "sys_rel k A" "\<forall>d b. A d = Some b \<longrightarrow> t \<notin> owned b" "t_status T = kUnInit" "t_policy T \<in> user_policies"
    and "A (target_core (t_cpu_affinity T) me) = Some a"
  shows "\<exists>k'. AddTask me (Some t) (k\<lparr>k_tcbs := (k_tcbs k)(t \<mapsto> T)\<rparr>) = Done k' \<and>
           sys_rel k' (A(target_core (t_cpu_affinity T) me \<mapsto> a_enqueue (\<lambda>_. t_policy T) t a)) \<and>
           dom (k_tcbs k') = insert t (dom (k_tcbs k)) \<and> (\<forall>d. cs_local_tick (k_cpu k' d) = cs_local_tick (k_cpu k d)) \<and>
           (\<forall>u. u \<noteq> t \<longrightarrow> k_tcbs k' u = k_tcbs k u)"
proof -
  let ?c = "target_core (t_cpu_affinity T) me" and ?kb = "k\<lparr>k_tcbs := (k_tcbs k)(t \<mapsto> T)\<rparr>"
  let ?a = "a_enqueue (\<lambda>_. t_policy T) t a" and ?T = "entered ?kb T"
  note rel = core_rel_parts [OF sys_relD(4) [OF assms(1,5)]]
  note fresh = assms(2) [rule_format]
  have nw: "nowhere a t" by (rule nowhere_not_owned [OF fresh [OF assms(5)]])
  obtain k1 l where k1: "AddTask me (Some t) ?kb = obind (enqueue_if k1 ?c (t_policy T) t) (\<lambda>k. Done (unlock_cpu me ?c k))"
      "k_tcbs k1 = (k_tcbs k)(t \<mapsto> ?T)" "k_percpu k1 = k_percpu k" "k_cpu k1 = (k_cpu k)(?c := (k_cpu k ?c)\<lparr>cs_lock := l\<rparr>)"
      "IsLockedByCurrentCore me l" "\<not> sl_locked (k_task_table_lock k1)"
      "k_task_table k1 = um_index hash_u64 None (k_task_table k) (task_pid ?kb T) (\<lambda>_. Some t)"
    using AddTask_exec [of ?kb t T me] assms(3,4) sys_relD(1,2) [OF assms(1)] by (auto simp: unlocked_def)
  have T: "t_status ?T = kReady" "t_policy ?T = t_policy T" by (simp_all add: entered_def)
  obtain s T' where e: "enqueue_if k1 ?c (t_policy T) t = Done (set_scheduler (k1\<lparr>k_tcbs := (k_tcbs k1)(t \<mapsto> T')\<rparr>) ?c (t_policy T) s)"
      "T' = ?T \<or> T' = refill_slice ?T"
      "queues_rel ((k_cpu k1 ?c)\<lparr>cs_schedulers := (cs_schedulers (k_cpu k1 ?c))(t_policy T \<mapsto> s)\<rparr>) ?a"
    using enqueue_user [of k1 ?c a t ?T] rel(1) k1(2,4) T(2) assms(4) by auto
  have T': "t_status T' = kReady" "t_policy T' = t_policy T" using e(2) T by auto
  define k2 where "k2 = set_scheduler (k1\<lparr>k_tcbs := (k_tcbs k1)(t \<mapsto> T')\<rparr>) ?c (t_policy T) s"
  have k2: "k_tcbs k2 = (k_tcbs k)(t \<mapsto> T')" "k_percpu k2 = k_percpu k"
      "k_cpu k2 = (k_cpu k)(?c := (k_cpu k ?c)\<lparr>cs_lock := l, cs_schedulers := (cs_schedulers (k_cpu k ?c))(t_policy T \<mapsto> s)\<rparr>)"
    by (simp_all add: k2_def k1 exec_simps)
  obtain il where il: "unlock_cpu me ?c k2 = set_cpu_lock k2 me ?c il" "\<not> sl_locked (snd il)"
    using unlock_cpu_other [of me k2 ?c] k1(5) k2(3) by auto
  have "core_rel k2 ?c ?a"
  proof -
    have tr: "tasks_rel ((k_tcbs k)(t \<mapsto> T')) ?a"
      by (rule tasks_enqueue [where T = T']) (use tasks_frame [OF rel(2) nw] nw T' assms(4) in simp_all)
    obtain r where r: "a_run a = Some r" using sys_relD(5) [OF assms(1,5)] by blast
    have "r \<noteq> t" "a_idle a \<noteq> t" using fresh [OF assms(5)] r by (auto simp: owned_def)
    then have "run_rel ((k_tcbs k)(t \<mapsto> T')) (k_percpu k ?c) ?a"
      using rel(3) r by (auto simp: run_rel_def a_enqueue_def split: if_splits)
    moreover have "t \<notin> set (cs_sleeping_tasks (k_cpu k ?c))"
      using nowhereD(3) [OF nw] rel(1) by (simp add: queues_rel_def flip: set_mset_mset)
    then have "is_heap (wake_tick ((k_tcbs k)(t \<mapsto> T'))) (cs_sleeping_tasks (k_cpu k ?c)) =
        is_heap (wake_tick (k_tcbs k)) (cs_sleeping_tasks (k_cpu k ?c))"
      by (intro is_heap_cong) (auto simp: wake_tick_def)
    ultimately show ?thesis using tr e(3) k1(4) rel(4) by (simp add: core_rel_def k2)
  qed
  moreover have "sl_locked (snd il) \<noteq> True" using il(2) by simp
  ultimately have "sys_rel (set_cpu_lock k2 me ?c il) (A(?c \<mapsto> ?a))"
    using fresh assms(5) k1(6,7) sys_relD(5) [OF assms(1,5)] um_index_correct(1) [OF sys_relD(3) [OF assms(1)]]
    by (intro sys_rel_extend [OF assms(1), where t = t and T = T'])
      (simp_all add: exec_simps k2 owned_enqueue, simp_all add: k2_def exec_simps a_enqueue_def)
  moreover have "dom (k_tcbs (set_cpu_lock k2 me ?c il)) = insert t (dom (k_tcbs k))" by (simp add: exec_simps k2(1))
  moreover have "cs_local_tick (k_cpu (set_cpu_lock k2 me ?c il) d) = cs_local_tick (k_cpu k d)" for d
    by (simp add: exec_simps k2(3))
  moreover have "k_tcbs (set_cpu_lock k2 me ?c il) u = k_tcbs k u" if "u \<noteq> t" for u
    using that by (simp add: exec_simps k2(1))
  ultimately show ?thesis using k1(1) e(1) il(1) by (simp add: k2_def)
qed

lemma AddTask_started:
  assumes "sys_rel k A" "k_tcbs k t = None" "t_status T = kUnInit" "t_policy T \<in> user_policies"
    and "A (target_core (t_cpu_affinity T) me) = Some a"
  shows "\<exists>k'. AddTask me (Some t) (k\<lparr>k_tcbs := (k_tcbs k)(t \<mapsto> T)\<rparr>) = Done k' \<and>
           sys_rel k' (A(target_core (t_cpu_affinity T) me \<mapsto> a_enqueue (\<lambda>_. t_policy T) t a)) \<and>
           dom (k_tcbs k') = insert t (dom (k_tcbs k)) \<and> (\<forall>d. cs_local_tick (k_cpu k' d) = cs_local_tick (k_cpu k d))"
proof -
  have "\<forall>d b. A d = Some b \<longrightarrow> t \<notin> owned b" using sys_relD(9) [OF assms(1)] assms(2) by fastforce
  from AddTask_unowned [OF assms(1) this assms(3-5)] show ?thesis by (elim exE conjE) (intro exI conjI; assumption)
qed

text \<open>On a core that has not been started the task is in the table and in no queue.\<close>

lemma AddTask_unowned_not_started:
  assumes "sys_rel k A" "\<forall>d b. A d = Some b \<longrightarrow> t \<notin> owned b" "t_status T = kUnInit" "t_policy T \<in> user_policies"
    and "A (target_core (t_cpu_affinity T) me) = None"
  shows "\<exists>k'. AddTask me (Some t) (k\<lparr>k_tcbs := (k_tcbs k)(t \<mapsto> T)\<rparr>) = Done k' \<and> sys_rel k' A"
proof -
  let ?c = "target_core (t_cpu_affinity T) me" and ?kb = "k\<lparr>k_tcbs := (k_tcbs k)(t \<mapsto> T)\<rparr>"
  note fresh = assms(2) [rule_format]
  obtain k1 l where k1: "AddTask me (Some t) ?kb = obind (enqueue_if k1 ?c (t_policy T) t) (\<lambda>k. Done (unlock_cpu me ?c k))"
      "k_tcbs k1 = (k_tcbs k)(t \<mapsto> entered ?kb T)" "k_percpu k1 = k_percpu k"
      "k_cpu k1 = (k_cpu k)(?c := (k_cpu k ?c)\<lparr>cs_lock := l\<rparr>)"
      "IsLockedByCurrentCore me l" "\<not> sl_locked (k_task_table_lock k1)"
      "k_task_table k1 = um_index hash_u64 None (k_task_table k) (task_pid ?kb T) (\<lambda>_. Some t)"
    using AddTask_exec [of ?kb t T me] assms(3,4) sys_relD(1,2) [OF assms(1)] by (auto simp: unlocked_def)
  have none: "cs_schedulers (k_cpu k ?c) = (\<lambda>_. None)"
    using arg_cong [OF sys_relD(6) [OF assms(1,5)], of cs_schedulers] by (simp add: new_CpuSchedData_def)
  have e: "enqueue_if k1 ?c (t_policy T) t = Done k1"
    using none assms(4) by (auto simp: enqueue_if_def exec_simps k1(4))
  obtain il where il: "unlock_cpu me ?c k1 = set_cpu_lock k1 me ?c il" "\<not> sl_locked (snd il)"
    using unlock_cpu_other [of me k1 ?c] k1(4,5) by auto
  let ?k' = "set_cpu_lock k1 me ?c il"
  have f: "k_cpu ?k' d = (if d = ?c then (k_cpu k ?c)\<lparr>cs_lock := snd il\<rparr> else k_cpu k d)"
      "k_percpu ?k' = k_percpu k" "u \<noteq> t \<Longrightarrow> k_tcbs ?k' u = k_tcbs k u" "dom (k_tcbs k) \<subseteq> dom (k_tcbs ?k')" for d u
    by (auto simp: exec_simps k1)
  have "sys_rel ?k' A"
  proof (rule sys_relI)
    show "unlocked ?k' d" for d using il(2) sys_relD(1) [OF assms(1), of d] by (simp add: unlocked_def f)
    show "\<not> sl_locked (k_task_table_lock ?k')" "um_inv hash_u64 (k_task_table ?k')"
      using k1(6,7) um_index_correct(1) [OF sys_relD(3) [OF assms(1)]] by (simp_all add: exec_simps)
    show "core_rel ?k' d b \<and> a_run b \<noteq> None \<and> owned b \<subseteq> dom (k_tcbs ?k')" if "A d = Some b" for d b
    proof (intro conjI, rule core_rel_frame [where k = k])
      have "d \<noteq> ?c" using that assms(5) by auto
      then show "queues_rel (k_cpu ?k' d) b" "cs_sleeping_tasks (k_cpu ?k' d) = cs_sleeping_tasks (k_cpu k d)"
        using sys_relD(4) [OF assms(1) that] by (simp_all add: f core_rel_def)
      show "k_tcbs ?k' u = k_tcbs k u" if "u \<in> owned b" for u
        using f(3) fresh [OF \<open>A d = Some b\<close>] that by metis
    qed (use sys_relD(4,5,9) [OF assms(1) that] f(2,4) in auto)
    show "k_cpu ?k' d = new_CpuSchedData\<lparr>cs_lock := cs_lock (k_cpu ?k' d)\<rparr> \<and> pc_idle_task (k_percpu ?k' d) = None"
      if "A d = None" for d
    proof (cases "d = ?c")
      case True
      with arg_cong [OF sys_relD(6) [OF assms(1,5)], of "\<lambda>x. x\<lparr>cs_lock := snd il\<rparr>"] sys_relD(7) [OF assms(1) that]
      show ?thesis by (simp add: f)
    next
      case False
      then have eq: "k_cpu ?k' d = k_cpu k d" by (simp add: f)
      show ?thesis unfolding f(2) eq by (rule conjI [OF sys_relD(6,7) [OF assms(1) that]])
    qed
  qed (rule sys_relD(8) [OF assms(1)])
  then show ?thesis using k1(1) e il(1) by simp
qed

lemma AddTask_not_started:
  assumes "sys_rel k A" "k_tcbs k t = None" "t_status T = kUnInit" "t_policy T \<in> user_policies"
    and "A (target_core (t_cpu_affinity T) me) = None"
  shows "\<exists>k'. AddTask me (Some t) (k\<lparr>k_tcbs := (k_tcbs k)(t \<mapsto> T)\<rparr>) = Done k' \<and> sys_rel k' A"
proof -
  have "\<forall>d b. A d = Some b \<longrightarrow> t \<notin> owned b" using sys_relD(9) [OF assms(1)] assms(2) by blast
  from AddTask_unowned_not_started [OF assms(1) this assms(3-5)] show ?thesis .
qed

text \<open>A block that no core owns: a fresh one, and one whose task has not been added yet.\<close>

lemma sys_rel_new:
  assumes "sys_rel k A" "k_tcbs k t = None"
  shows "sys_rel (k\<lparr>k_tcbs := (k_tcbs k)(t \<mapsto> T)\<rparr>) A"
proof (rule sys_relI)
  let ?k = "k\<lparr>k_tcbs := (k_tcbs k)(t \<mapsto> T)\<rparr>"
  show "core_rel ?k c a \<and> a_run a \<noteq> None \<and> owned a \<subseteq> dom (k_tcbs ?k)" if "A c = Some a" for c a
  proof -
    have t: "t \<notin> owned a" using sys_relD(9) [OF assms(1) that] assms(2) by auto
    have "core_rel ?k c a"
      by (rule core_rel_frame [OF sys_relD(4) [OF assms(1) that]])
        (use t sys_relD(4,5) [OF assms(1) that] in \<open>auto simp: core_rel_def\<close>)
    then show ?thesis using sys_relD(5,9) [OF assms(1) that] by auto
  qed
  show "k_cpu ?k c = new_CpuSchedData\<lparr>cs_lock := cs_lock (k_cpu ?k c)\<rparr> \<and> pc_idle_task (k_percpu ?k c) = None"
    if "A c = None" for c
    using sys_relD(7) [OF assms(1) that] by (intro conjI) (simp, rule sys_relD(6) [OF assms(1) that], simp)
qed (use sys_relD(1-3,8) [OF assms(1)] in \<open>simp_all add: unlocked_def\<close>)

text \<open>What a core that has not been started has in its \<open>PerCpu\<close> may be reset.\<close>

lemma sys_rel_percpu:
  assumes "sys_rel k A" "A me = None"
  shows "sys_rel (k\<lparr>k_percpu := (k_percpu k)(me := new_PerCpu me)\<rparr>) A"
proof (rule sys_relI)
  let ?k = "k\<lparr>k_percpu := (k_percpu k)(me := new_PerCpu me)\<rparr>"
  show "core_rel ?k c a \<and> a_run a \<noteq> None \<and> owned a \<subseteq> dom (k_tcbs ?k)" if "A c = Some a" for c a
  proof -
    have "c \<noteq> me" using that assms(2) by auto
    then have "core_rel ?k c a"
      by (intro core_rel_frame [OF sys_relD(4) [OF assms(1) that]])
        (use sys_relD(4,5) [OF assms(1) that] in \<open>auto simp: core_rel_def\<close>)
    then show ?thesis using sys_relD(5,9) [OF assms(1) that] by auto
  qed
  show "k_cpu ?k c = new_CpuSchedData\<lparr>cs_lock := cs_lock (k_cpu ?k c)\<rparr> \<and> pc_idle_task (k_percpu ?k c) = None"
    if "A c = None" for c
    using sys_relD(7) [OF assms(1) that]
    by (intro conjI) (simp, rule sys_relD(6) [OF assms(1) that], simp add: new_PerCpu_def)
qed (use sys_relD(1-3,8) [OF assms(1)] in \<open>simp_all add: unlocked_def\<close>)

lemma uninit_unowned:
  assumes "sys_rel k A" "k_tcbs k t = Some T" "t_status T = kUnInit"
  shows "\<forall>d b. A d = Some b \<longrightarrow> t \<notin> owned b"
proof (intro allI impI)
  fix d b assume b: "A d = Some b"
  note rel = core_rel_parts [OF sys_relD(4) [OF assms(1) b]]
  have no: "\<not> task_is (k_tcbs k) t S P" if "kUnInit \<notin> S" for S P
    using assms(2,3) that by (auto simp: task_is_def)
  have "t \<notin> set (a_rt b)" "t \<notin> set (a_norm b)" "t \<notin># a_slp b"
    using rel(2) no by (auto simp: tasks_rel_def)
  moreover have "t \<notin> set (a_blk b r)" for r
    using rel(2) no [of "{kBlocked}" user_policies] by (auto simp: tasks_rel_def)
  moreover obtain r where "a_run b = Some r" using sys_relD(5) [OF assms(1) b] by blast
  moreover from this have "t \<noteq> r" "t \<noteq> a_idle b" using rel(3) no by (auto simp: run_rel_def split: if_splits)
  ultimately show "t \<notin> owned b" by (auto simp: owned_def)
qed

subsection \<open>The whole system\<close>

lemma sys_rel_kernel_init: "sys_rel (kernel_init intr) Map.empty"
  by (rule sys_relI) (simp_all add: unlocked_def kernel_init_def new_CpuSchedData_def new_SpinLock_def new_PerCpu_def
      um_new_correct(1))

lemma sys_rel_started:
  assumes "sys_rel k A" "pc_idle_task (k_percpu k me) \<noteq> None"
  obtains a r where "A me = Some a" "core_rel k me a" "unlocked k me" "a_run a = Some r"
    "GetCurrentTask me k = Some r" "pc_idle_task (k_percpu k me) = Some (a_idle a)"
proof -
  obtain a where a: "A me = Some a" using sys_relD(7) [OF assms(1), of me] assms(2) by (cases "A me") auto
  obtain r where r: "a_run a = Some r" using sys_relD(5) [OF assms(1) a] by blast
  have "run_rel (k_tcbs k) (k_percpu k me) a" using core_rel_parts(3) [OF sys_relD(4) [OF assms(1) a]] .
  with r have "GetCurrentTask me k = Some r" "pc_idle_task (k_percpu k me) = Some (a_idle a)"
    by (simp_all add: run_rel_def GetCurrentTask_def)
  with that a r sys_relD(4) [OF assms(1) a] sys_relD(1) [OF assms(1)] show ?thesis by blast
qed

lemma a_run_pick [simp]: "a_run (a_pick a) = Some (a_next a)"
  by (simp add: a_pick_def)

lemma owned_pick: "owned (a_pick a) \<subseteq> owned a"
  by (auto simp: owned_def a_pick_def a_rest_def a_next_def split: list.splits)

lemma owned_schedule: "owned (a_schedule pol a) \<subseteq> owned a"
proof -
  have "owned (a_requeue pol a) \<subseteq> owned a"
    by (auto simp: owned_def a_requeue_def a_enqueue_def split: option.splits if_splits)
  then show ?thesis unfolding a_schedule_def using owned_pick by blast
qed

lemma a_run_schedule [simp]: "a_run (a_schedule pol a) \<noteq> None"
  by (simp add: a_schedule_def)

lemma a_run_wakeup [simp]: "a_run (a_wakeup pol rid a) = a_run a"
proof -
  have "a_run (foldl (\<lambda>a t. a_enqueue pol t a) b ts) = a_run b" for b ts by (induction ts arbitrary: b) simp_all
  then show ?thesis by (simp add: a_wakeup_def)
qed

lemma owned_wakeup: "owned (a_wakeup pol rid a) \<subseteq> owned a"
proof -
  have "owned (foldl (\<lambda>a t. a_enqueue pol t a) b ts) = set ts \<union> owned b" for b ts
    by (induction ts arbitrary: b) (simp_all add: owned_enqueue)
  then show ?thesis by (auto simp: a_wakeup_def owned_def split: if_splits)
qed

lemma a_run_wake [simp]: "a_run (a_wake pol ts a) = a_run a"
  unfolding a_wake_def by (induction ts arbitrary: a) simp_all

text \<open>Each operation of a started core returns and keeps the system relation.\<close>

lemma sys_Schedule:
  assumes "sys_rel k A" "pc_idle_task (k_percpu k me) \<noteq> None"
  shows "\<exists>k' A'. Schedule me k = Done k' \<and> sys_rel k' A'"
proof -
  obtain a r where a: "A me = Some a" "core_rel k me a" "unlocked k me" "a_run a = Some r"
    by (rule sys_rel_started [OF assms])
  show ?thesis
    using Schedule_running [OF a(2-4)] sys_rel_local [OF assms(1) a(1)] touch_local owned_schedule a_run_schedule by meson
qed

lemma sys_TickUpdate:
  assumes "sys_rel k A" "pc_idle_task (k_percpu k me) \<noteq> None"
  shows "\<exists>k' A'. TickUpdate me k = Done k' \<and> sys_rel k' A'"
proof -
  obtain a r where a: "A me = Some a" "core_rel k me a" "unlocked k me" "a_run a = Some r"
    by (rule sys_rel_started [OF assms])
  obtain k' woken need where t: "TickUpdate me k = Done k'"
      "mset woken = filter_mset (\<lambda>t. wake_tick (k_tcbs k) t \<le> cs_local_tick (k_cpu k me) + 1) (a_slp a)"
      "core_rel k' me (if need then a_schedule (pol_of (k_tcbs k)) (a_wake (pol_of (k_tcbs k)) woken a)
         else a_wake (pol_of (k_tcbs k)) woken a)" "unlocked k' me" "local_step me (owned a) k k'"
    using TickUpdate_ok [OF a(2-4)] by blast
  have "set woken \<subseteq> set_mset (a_slp a)"
    using t(2) by (metis (no_types, lifting) filter_mset_eq_conv mset_subset_eqD set_mset_mset subsetI multiset_filter_subset)
  note o = owned_wake [OF this]
  have "sys_rel k' (A(me \<mapsto> (if need then a_schedule (pol_of (k_tcbs k)) (a_wake (pol_of (k_tcbs k)) woken a)
         else a_wake (pol_of (k_tcbs k)) woken a)))"
    by (rule sys_rel_local [OF assms(1) a(1) t(5,3,4)]) (use a(4) o order_trans [OF owned_schedule o] in \<open>cases need; simp\<close>)+
  with t(1) show ?thesis by blast
qed

lemma sys_Wakeup:
  assumes "sys_rel k A" "pc_idle_task (k_percpu k me) \<noteq> None"
  shows "\<exists>k' A'. Wakeup me rid k = Done k' \<and> sys_rel k' A'"
proof -
  obtain a r where a: "A me = Some a" "core_rel k me a" "unlocked k me" "a_run a = Some r"
    by (rule sys_rel_started [OF assms])
  show ?thesis
    using Wakeup_ok [OF a(2-4)] sys_rel_local [OF assms(1) a(1)] touch_local owned_wakeup a_run_wakeup a(4)
    by (metis option.distinct(1))
qed

lemma sys_Sleep:
  assumes "sys_rel k A" "pc_idle_task (k_percpu k me) \<noteq> None" "GetCurrentTask me k \<noteq> pc_idle_task (k_percpu k me)"
  shows "\<exists>k' A'. Sleep me ms k = Done k' \<and> sys_rel k' A'"
proof -
  obtain a r where a: "A me = Some a" "core_rel k me a" "unlocked k me" "a_run a = Some r"
    and g: "GetCurrentTask me k = Some r" "pc_idle_task (k_percpu k me) = Some (a_idle a)"
    by (rule sys_rel_started [OF assms(1,2)])
  have r: "r \<noteq> a_idle a" using g assms(3) by simp
  show ?thesis
  proof (cases "ms = 0")
    case True
    obtain T where "k_tcbs k r = Some T" "t_status T = kRunning" using running_user [OF a(2,4) r] by blast
    then have "Sleep me ms k = Schedule me k" using True g(1) by (simp add: Sleep_def exec_simps)
    with sys_Schedule [OF assms(1,2)] show ?thesis by simp
  next
    case False
    then show ?thesis
      using Sleep_ok [OF a(2-4) r] sys_rel_local [OF assms(1) a(1)] owned_pick [of "a_sleep r a"]
        owned_sleep [OF a(4)] a_run_pick by (metis option.distinct(1))
  qed
qed

lemma sys_Block:
  assumes "sys_rel k A" "pc_idle_task (k_percpu k me) \<noteq> None" "GetCurrentTask me k \<noteq> pc_idle_task (k_percpu k me)"
  shows "\<exists>k' A'. Block me rid k = Done k' \<and> sys_rel k' A'"
proof -
  obtain a r where a: "A me = Some a" "core_rel k me a" "unlocked k me" "a_run a = Some r"
    and g: "GetCurrentTask me k = Some r" "pc_idle_task (k_percpu k me) = Some (a_idle a)"
    by (rule sys_rel_started [OF assms(1,2)])
  have r: "r \<noteq> a_idle a" using g assms(3) by simp
  show ?thesis
    using Block_ok [OF a(2-4) r] sys_rel_local [OF assms(1) a(1)] touch_local owned_pick [of "a_block r rid a"]
      owned_block [OF a(4)] a_run_pick by (metis option.distinct(1))
qed

end
