(* ===== verification/Kernel_Steps.thy ===== *)
theory Kernel_Steps
  imports Kernel_Invariant
begin

text \<open>
  The states that the task manager can reach, and what holds in all of them. A step is one
  operation run by one core. The conditions of the steps are what the callers guarantee: a core
  is initialised once (\<open>main\<close>, \<open>main_smp\<close>), a task is added only while it is still as its
  constructor left it, and is not of the idle policy (\<open>create_test_tasks\<close>), and the idle thread, whose body is a loop of
  \<open>cpu_io::Pause\<close>, neither sleeps nor waits.
\<close>

inductive kernel_step :: "kernel \<Rightarrow> kernel \<Rightarrow> bool" where
  step_init: "\<lbrakk>pc_idle_task (k_percpu k me) = None; k_tcbs k t = None;
     InitCurrentCore kte tc_size idle_thread t stack me k = Done k'\<rbrakk> \<Longrightarrow> kernel_step k k'"
| step_percpu: "pc_idle_task (k_percpu k me) = None \<Longrightarrow>
     kernel_step k (k\<lparr>k_percpu := (k_percpu k)(me := new_PerCpu me)\<rparr>)"
| step_new: "k_tcbs k t = None \<Longrightarrow> kernel_step k (k\<lparr>k_tcbs := (k_tcbs k)(t \<mapsto> T)\<rparr>)"
| step_add: "\<lbrakk>k_tcbs k t = Some T; t_status T = kUnInit; t_policy T \<in> {kRealTime, kNormal};
     AddTask me (Some t) k = Done k'\<rbrakk> \<Longrightarrow> kernel_step k k'"
| step_schedule: "\<lbrakk>pc_idle_task (k_percpu k me) \<noteq> None; Schedule me k = Done k'\<rbrakk> \<Longrightarrow> kernel_step k k'"
| step_tick: "\<lbrakk>pc_idle_task (k_percpu k me) \<noteq> None; TickUpdate me k = Done k'\<rbrakk> \<Longrightarrow> kernel_step k k'"
| step_wakeup: "\<lbrakk>pc_idle_task (k_percpu k me) \<noteq> None; Wakeup me rid k = Done k'\<rbrakk> \<Longrightarrow> kernel_step k k'"
| step_sleep: "\<lbrakk>pc_idle_task (k_percpu k me) \<noteq> None; GetCurrentTask me k \<noteq> pc_idle_task (k_percpu k me);
     Sleep me ms k = Done k'\<rbrakk> \<Longrightarrow> kernel_step k k'"
| step_block: "\<lbrakk>pc_idle_task (k_percpu k me) \<noteq> None; GetCurrentTask me k \<noteq> pc_idle_task (k_percpu k me);
     Block me rid k = Done k'\<rbrakk> \<Longrightarrow> kernel_step k k'"

inductive kernel_reachable :: "kernel \<Rightarrow> bool" where
  reach_init: "kernel_reachable (kernel_init intr)"
| reach_step: "kernel_reachable k \<Longrightarrow> kernel_step k k' \<Longrightarrow> kernel_reachable k'"

lemma reach_new_add:
  assumes "kernel_reachable k" "k_tcbs k t = None" "t_status T = kUnInit" "t_policy T \<in> {kRealTime, kNormal}"
    and "AddTask me (Some t) (k\<lparr>k_tcbs := (k_tcbs k)(t \<mapsto> T)\<rparr>) = Done k'"
  shows "kernel_reachable k'"
  by (rule reach_step [OF reach_step [OF assms(1) step_new [OF assms(2)]] step_add [OF _ assms(3-5)]]) simp

lemma sys_rel_not_started:
  assumes "sys_rel k A" "pc_idle_task (k_percpu k me) = None"
  shows "A me = None"
proof (rule ccontr)
  assume "A me \<noteq> None"
  then obtain a where "A me = Some a" by blast
  with core_rel_parts(3) [OF sys_relD(4) [OF assms(1)]] have "run_rel (k_tcbs k) (k_percpu k me) a" by blast
  with assms(2) show False by (simp add: run_rel_def)
qed

lemma sys_rel_step: "kernel_step k k' \<Longrightarrow> sys_rel k A \<Longrightarrow> \<exists>A'. sys_rel k' A'"
proof (induction rule: kernel_step.induct)
  case (step_init k me t kte tc_size idle_thread stack k')
  have "A me = None" by (rule sys_rel_not_started [OF step_init.prems step_init.hyps(1)])
  then show ?case using InitCurrentCore_ok [OF step_init.prems _ step_init.hyps(2), of me kte tc_size idle_thread stack]
      step_init.hyps(3) by auto
next
  case (step_percpu k me)
  then show ?case using sys_rel_percpu sys_rel_not_started by blast
next
  case (step_new k t T)
  then show ?case using sys_rel_new by blast
next
  case (step_add k t T me k')
  have k: "k\<lparr>k_tcbs := (k_tcbs k)(t \<mapsto> T)\<rparr> = k" using step_add.hyps(1) by (simp add: fun_upd_idem)
  note un = uninit_unowned [OF step_add.prems step_add.hyps(1,2)]
  show ?case
  proof (cases "A (target_core (t_cpu_affinity T) me)")
    case None
    then show ?thesis
      using AddTask_unowned_not_started [OF step_add.prems un step_add.hyps(2,3) None] step_add.hyps(4) unfolding k by auto
  next
    case (Some a)
    then show ?thesis
      using AddTask_unowned [OF step_add.prems un step_add.hyps(2,3) Some] step_add.hyps(4) unfolding k by auto
  qed
next
  case (step_schedule k me k') then show ?case using sys_Schedule by fastforce
next
  case (step_tick k me k') then show ?case using sys_TickUpdate by fastforce
next
  case (step_wakeup k me rid k') then show ?case using sys_Wakeup [of k A me rid] by auto
next
  case (step_sleep k me ms k') then show ?case using sys_Sleep [of k A me ms] by auto
next
  case (step_block k me rid k') then show ?case using sys_Block [of k A me rid] by auto
qed

lemma reachable_sys_rel: "kernel_reachable k \<Longrightarrow> \<exists>A. sys_rel k A"
  by (induction rule: kernel_reachable.induct) (use sys_rel_kernel_init sys_rel_step in blast)+

subsection \<open>A small system\<close>

text \<open>
  Core 0 with its idle task at address 1, and two normal tasks at 2 and 3, the first of which
  runs: the input of the witnesses below.
\<close>

definition done_or :: "kernel \<Rightarrow> kernel outcome \<Rightarrow> kernel" where
  "done_or d r = (case r of Done k \<Rightarrow> k | Fault _ \<Rightarrow> d)"

definition demo_task :: TaskControlBlock where
  "demo_task = new_TaskControlBlock 0 0 8192 ''demo'' 10 0 0"

definition demo_boot :: kernel where
  "demo_boot = done_or (kernel_init (\<lambda>_. False)) (InitCurrentCore 0 0 0 1 4096 0 (kernel_init (\<lambda>_. False)))"

definition demo_add :: "tptr \<Rightarrow> kernel \<Rightarrow> kernel" where
  "demo_add t k = done_or k (AddTask 0 (Some t) (k\<lparr>k_tcbs := (k_tcbs k)(t \<mapsto> demo_task)\<rparr>))"

definition demo_core :: acore where
  "demo_core = a_enqueue (\<lambda>_. kNormal) 3 (a_enqueue (\<lambda>_. kNormal) 2 (a_start 1))"

definition demo_ready :: kernel where
  "demo_ready = demo_add 3 (demo_add 2 demo_boot)"

definition demo_running :: kernel where
  "demo_running = done_or demo_ready (Schedule 0 demo_ready)"

lemma demo_task_fields [simp]:
  "t_status demo_task = kUnInit" "t_policy demo_task = kNormal" "t_cpu_affinity demo_task = - 1"
  by (simp_all add: demo_task_def new_TaskControlBlock_def default_TaskControlBlock_def Let_def)

lemma demo_boot_ok: "InitCurrentCore 0 0 0 1 4096 0 (kernel_init (\<lambda>_. False)) = Done demo_boot"
    "sys_rel demo_boot [0 \<mapsto> a_start 1]" "dom (k_tcbs demo_boot) = {1}" "cs_local_tick (k_cpu demo_boot 0) = 0"
proof -
  have "k_tcbs (kernel_init (\<lambda>_. False)) = Map.empty" "cs_local_tick (k_cpu (kernel_init (\<lambda>_. False)) 0) = 0"
    by (simp_all add: kernel_init_def new_CpuSchedData_def)
  with InitCurrentCore_ok [OF sys_rel_kernel_init [of "\<lambda>_. False"], where me = 0 and t = 1 and kte = 0 and tcs = 0
      and idle_thread = 0 and stack = 4096]
  obtain k where "InitCurrentCore 0 0 0 1 4096 0 (kernel_init (\<lambda>_. False)) = Done k" "sys_rel k [0 \<mapsto> a_start 1]"
      "dom (k_tcbs k) = {1}" "cs_local_tick (k_cpu k 0) = 0" by auto
  then show "InitCurrentCore 0 0 0 1 4096 0 (kernel_init (\<lambda>_. False)) = Done demo_boot" "sys_rel demo_boot [0 \<mapsto> a_start 1]"
      "dom (k_tcbs demo_boot) = {1}" "cs_local_tick (k_cpu demo_boot 0) = 0"
    by (simp_all add: demo_boot_def done_or_def)
qed

lemma demo_add_ok:
  assumes "sys_rel k [0 \<mapsto> a]" "t \<notin> dom (k_tcbs k)"
  shows "AddTask 0 (Some t) (k\<lparr>k_tcbs := (k_tcbs k)(t \<mapsto> demo_task)\<rparr>) = Done (demo_add t k)"
    "sys_rel (demo_add t k) [0 \<mapsto> a_enqueue (\<lambda>_. kNormal) t a]" "dom (k_tcbs (demo_add t k)) = insert t (dom (k_tcbs k))"
    "cs_local_tick (k_cpu (demo_add t k) 0) = cs_local_tick (k_cpu k 0)"
proof -
  have c: "target_core (- 1) 0 = 0" by (simp add: target_core_def)
  have n: "k_tcbs k t = None" using assms(2) by blast
  obtain k' where "AddTask 0 (Some t) (k\<lparr>k_tcbs := (k_tcbs k)(t \<mapsto> demo_task)\<rparr>) = Done k'"
      "sys_rel k' [0 \<mapsto> a_enqueue (\<lambda>_. kNormal) t a]" "dom (k_tcbs k') = insert t (dom (k_tcbs k))"
      "cs_local_tick (k_cpu k' 0) = cs_local_tick (k_cpu k 0)"
    using AddTask_started [OF assms(1) n, of demo_task 0 a] by (simp add: c) blast
  then show "AddTask 0 (Some t) (k\<lparr>k_tcbs := (k_tcbs k)(t \<mapsto> demo_task)\<rparr>) = Done (demo_add t k)"
      "sys_rel (demo_add t k) [0 \<mapsto> a_enqueue (\<lambda>_. kNormal) t a]" "dom (k_tcbs (demo_add t k)) = insert t (dom (k_tcbs k))"
      "cs_local_tick (k_cpu (demo_add t k) 0) = cs_local_tick (k_cpu k 0)"
    by (simp_all add: demo_add_def done_or_def)
qed

lemma demo_ready_ok:
  "sys_rel demo_ready [0 \<mapsto> demo_core]" "kernel_reachable demo_ready" "dom (k_tcbs demo_ready) = {1, 2, 3}"
    "cs_local_tick (k_cpu demo_ready 0) = 0"
proof -
  let ?k = "demo_add 2 demo_boot"
  have f: "2 \<notin> dom (k_tcbs demo_boot)" using demo_boot_ok(3) by simp
  note two = demo_add_ok [OF demo_boot_ok(2) f]
  have g: "3 \<notin> dom (k_tcbs ?k)" using two(3) demo_boot_ok(3) by simp
  note three = demo_add_ok [OF two(2) g]
  show "sys_rel demo_ready [0 \<mapsto> demo_core]" using three(2) by (simp add: demo_ready_def demo_core_def)
  show "cs_local_tick (k_cpu demo_ready 0) = 0" using three(4) two(4) demo_boot_ok(4) by (simp add: demo_ready_def)
  show "dom (k_tcbs demo_ready) = {1, 2, 3}" using three(3) two(3) demo_boot_ok(3) by (auto simp: demo_ready_def)
  have "kernel_step (kernel_init (\<lambda>_. False)) demo_boot"
    by (rule step_init [OF _ _ demo_boot_ok(1)]) (simp_all add: kernel_init_def new_PerCpu_def)
  then have "kernel_reachable demo_boot" using reach_init reach_step by blast
  then have "kernel_reachable ?k" by (rule reach_new_add [OF _ _ _ _ two(1)]) (use f in auto)
  then show "kernel_reachable demo_ready"
    unfolding demo_ready_def by (rule reach_new_add [OF _ _ _ _ three(1)]) (use g in auto)
qed

lemma demo_core_fields [simp]:
  "a_run demo_core = Some 1" "a_idle demo_core = 1" "a_norm demo_core = [2, 3]" "a_rt demo_core = []"
  "a_slp demo_core = {#}" "a_blk demo_core = (\<lambda>_. [])"
  by (simp_all add: demo_core_def a_enqueue_def a_start_def)

lemma demo_ready_core: "core_rel demo_ready 0 demo_core" "unlocked demo_ready 0"
  using sys_relD(1,4) [OF demo_ready_ok(1)] by simp_all

text \<open>After the first scheduling decision.\<close>

definition demo_run_core :: acore where
  "demo_run_core = \<lparr>a_run = Some 2, a_idle = 1, a_rt = [], a_norm = [3], a_slp = {#}, a_blk = (\<lambda>_. [])\<rparr>"

lemma demo_running_ok: "core_rel demo_running 0 demo_run_core" "unlocked demo_running 0" "a_run demo_run_core = Some 2"
    "a_idle demo_run_core = 1" "k_tcbs demo_running 4 = None" "cs_local_tick (k_cpu demo_running 0) = 0"
proof -
  obtain k where k: "Schedule 0 demo_ready = Done k" "core_rel k 0 (a_schedule (pol_of (k_tcbs demo_ready)) demo_core)"
      "unlocked k 0" "touch 0 (owned demo_core) demo_ready k"
    using Schedule_running [OF demo_ready_core demo_core_fields(1)] by blast
  have c: "a_schedule pol demo_core = demo_run_core" for pol
    by (simp add: a_schedule_def a_requeue_def a_pick_def a_rest_def a_next_def demo_run_core_def)
  have e: "demo_running = k" using k(1) by (simp add: demo_running_def done_or_def)
  have "dom (k_tcbs k) = {1, 2, 3}" using k(4) demo_ready_ok(3) by (simp add: touch_def local_step_def)
  then have "4 \<notin> dom (k_tcbs k)" by simp
  then show "core_rel demo_running 0 demo_run_core" "unlocked demo_running 0" "a_run demo_run_core = Some 2"
    "a_idle demo_run_core = 1" "k_tcbs demo_running 4 = None" "cs_local_tick (k_cpu demo_running 0) = 0"
    using k c e demo_ready_ok(4) by (simp_all add: domIff touch_def) (simp_all add: demo_run_core_def)
qed

text \<open>The same with a second core started.\<close>

definition demo_two :: kernel where
  "demo_two = done_or demo_ready (InitCurrentCore 0 0 0 4 4096 1 demo_ready)"

lemma demo_two_ok: "sys_rel demo_two [0 \<mapsto> demo_core, 1 \<mapsto> a_start 4]" "kernel_reachable demo_two"
proof -
  have "4 \<notin> dom (k_tcbs demo_ready)" using demo_ready_ok(3) by simp
  then have f: "k_tcbs demo_ready 4 = None" by blast
  have i: "pc_idle_task (k_percpu demo_ready 1) = None" by (rule sys_relD(7) [OF demo_ready_ok(1)]) simp
  have "[0 \<mapsto> demo_core] (1 :: size_t) = None" by simp
  from InitCurrentCore_ok [OF demo_ready_ok(1) this f]
  obtain k where k: "InitCurrentCore 0 0 0 4 4096 1 demo_ready = Done k" "sys_rel k [0 \<mapsto> demo_core, 1 \<mapsto> a_start 4]"
    by blast
  then have e: "k = demo_two" by (simp add: demo_two_def done_or_def)
  show "sys_rel demo_two [0 \<mapsto> demo_core, 1 \<mapsto> a_start 4]" using k(2) e by simp
  show "kernel_reachable demo_two" using demo_ready_ok(2) step_init [OF i f k(1)] e reach_step by blast
qed

lemma demo_two_idle: "pc_idle_task (k_percpu demo_two 0) = Some 1" "pc_idle_task (k_percpu demo_two 1) = Some 4"
  using core_rel_parts(3) [OF sys_relD(4) [OF demo_two_ok(1)], of 0 demo_core]
    core_rel_parts(3) [OF sys_relD(4) [OF demo_two_ok(1)], of 1 "a_start 4"]
  by (simp_all add: run_rel_def a_start_def)

subsection \<open>What holds in every reachable state\<close>

text \<open>
  C1. In every state the task manager can reach there is an abstract system that the state
  implements: each started core has its running task, its ready queues, its sleepers and its
  waiting tasks, every one of them with the status its place asks for, no task belongs to two
  cores, and no lock is left taken.
\<close>

theorem kernel_invariant: "kernel_reachable k \<Longrightarrow> \<exists>A. sys_rel k A"
  by (rule reachable_sys_rel)

theorem kernel_invariant_witness: "kernel_reachable demo_ready \<and> (\<exists>A. sys_rel demo_ready A)"
  using kernel_invariant [of demo_ready] demo_ready_ok(2) by simp

lemma started_reachable:
  assumes "kernel_reachable k" "pc_idle_task (k_percpu k c) \<noteq> None"
  obtains A a r where "sys_rel k A" "A c = Some a" "core_rel k c a" "unlocked k c" "a_run a = Some r"
    "GetCurrentTask c k = Some r" "pc_idle_task (k_percpu k c) = Some (a_idle a)"
  using reachable_sys_rel [OF assms(1)] sys_rel_started assms(2) by metis

text \<open>
  C5. In a reachable state a task runs on one core at most: two different started cores have
  different current tasks.
\<close>

theorem task_runs_on_one_core:
  assumes "kernel_reachable k" "pc_idle_task (k_percpu k c) \<noteq> None" "pc_idle_task (k_percpu k d) \<noteq> None" "c \<noteq> d"
  shows "GetCurrentTask c k \<noteq> GetCurrentTask d k"
proof
  assume eq: "GetCurrentTask c k = GetCurrentTask d k"
  obtain A where A: "sys_rel k A" using reachable_sys_rel [OF assms(1)] by blast
  obtain a r where a: "A c = Some a" "a_run a = Some r" "GetCurrentTask c k = Some r"
    by (rule sys_rel_started [OF A assms(2)])
  obtain b s where b: "A d = Some b" "a_run b = Some s" "GetCurrentTask d k = Some s"
    by (rule sys_rel_started [OF A assms(3)])
  have "r \<in> owned a" "r \<in> owned b" using a b eq by (auto simp: owned_def)
  with sys_relD(8) [OF A a(1) b(1) assms(4)] show False by blast
qed

theorem task_runs_on_one_core_witness:
  "kernel_reachable demo_two \<and> GetCurrentTask 0 demo_two \<noteq> GetCurrentTask 1 demo_two"
  using task_runs_on_one_core [OF demo_two_ok(2), of 0 1] demo_two_idle demo_two_ok(2) by simp

text \<open>
  C2. No operation gets stuck: in a reachable state a started core can always schedule,
  process a timer tick and wake tasks, and when a task other than the idle task runs it can
  sleep and wait. The calls return; none of their assertions fails, no freed block is read,
  and no lock is waited for.
\<close>

theorem kernel_progress:
  assumes "kernel_reachable k" "pc_idle_task (k_percpu k me) \<noteq> None"
  shows "(\<exists>k'. Schedule me k = Done k') \<and> (\<exists>k'. TickUpdate me k = Done k') \<and> (\<exists>k'. Wakeup me rid k = Done k') \<and>
    (GetCurrentTask me k \<noteq> pc_idle_task (k_percpu k me) \<longrightarrow>
       (\<exists>k'. Sleep me ms k = Done k') \<and> (\<exists>k'. Block me rid k = Done k'))"
proof -
  obtain A where "sys_rel k A" using reachable_sys_rel [OF assms(1)] by blast
  note ops = sys_Schedule sys_TickUpdate sys_Wakeup sys_Sleep sys_Block
  show ?thesis using ops [OF \<open>sys_rel k A\<close> assms(2)] by blast
qed

theorem kernel_progress_witness:
  "kernel_reachable demo_ready \<and> pc_idle_task (k_percpu demo_ready 0) \<noteq> None \<and>
   (\<exists>k'. Schedule 0 demo_ready = Done k') \<and> (\<exists>k'. TickUpdate 0 demo_ready = Done k')"
proof -
  have "pc_idle_task (k_percpu demo_ready 0) \<noteq> None"
    using core_rel_parts(3) [OF demo_ready_core(1)] by (simp add: run_rel_def)
  with kernel_progress [OF demo_ready_ok(2)] demo_ready_ok(2) show ?thesis by blast
qed

end
