(* ===== verification/Kernel_Mutex.thy ===== *)
theory Kernel_Mutex
  imports Kernel_Steps
begin

text \<open>
  The blocking mutex of \<open>src/src/include/mutex.hpp\<close> and \<open>src/src/task/mutex.cpp\<close>, on top
  of \<open>Block\<close> and \<open>Wakeup\<close>.

  \<open>Lock\<close> is a loop around a \<open>compare_exchange_weak\<close>; a failed exchange blocks the
  task. A call of \<open>Lock\<close> runs up to its return or up to the switch to another task
  (\<open>LockBlocked\<close>); the task goes on with \<open>Mutex_Lock_resume\<close> when it runs again.
  The weak exchange may fail although the mutex is free: the argument \<open>spurious\<close>.
\<close>

record Mutex =
  m_name :: string
  m_locked :: bool
  m_owner :: Pid
  m_resource_id :: ResourceId

datatype lock_result = LockReturned bool | LockBlocked

definition new_Mutex :: "string \<Rightarrow> u64 \<Rightarrow> Mutex" where
  "new_Mutex nm this = \<lparr>m_name = nm, m_locked = False, m_owner = - 1, m_resource_id = mk_ResourceId kMutex this\<rparr>"

definition IsLockedByCurrentTask :: "size_t \<Rightarrow> Mutex \<Rightarrow> kernel \<Rightarrow> bool outcome" where
  "IsLockedByCurrentTask me m k = (case GetCurrentTask me k of
     None \<Rightarrow> Done False
   | Some t \<Rightarrow> obind (get_tcb k t) (\<lambda>T. Done (m_locked m \<and> m_owner m = t_pid T)))"

text \<open>One pass through the loop of \<open>Lock\<close> by the task with pid \<open>p\<close>.\<close>

definition Mutex_Lock_try :: "size_t \<Rightarrow> bool \<Rightarrow> Pid \<Rightarrow> Mutex \<Rightarrow> kernel \<Rightarrow> (lock_result \<times> Mutex \<times> kernel) outcome" where
  "Mutex_Lock_try me spurious p m k =
     (if \<not> m_locked m \<and> \<not> spurious then Done (LockReturned True, m\<lparr>m_locked := True, m_owner := p\<rparr>, k)
      else obind (Block me (m_resource_id m) (set_intr_flag k me False)) (\<lambda>k. Done (LockBlocked, m, k)))"

definition Mutex_Lock :: "size_t \<Rightarrow> bool \<Rightarrow> Mutex \<Rightarrow> kernel \<Rightarrow> (lock_result \<times> Mutex \<times> kernel) outcome" where
  "Mutex_Lock me spurious m k = (case GetCurrentTask me k of
     None \<Rightarrow> Done (LockReturned False, m, k)
   | Some t \<Rightarrow>
       obind (get_tcb k t) (\<lambda>T.
       obind (IsLockedByCurrentTask me m k) (\<lambda>own.
       if own then Done (LockReturned False, m, k) else Mutex_Lock_try me spurious (t_pid T) m k)))"

text \<open>After the return of \<open>Block\<close>.\<close>

definition Mutex_Lock_resume :: "size_t \<Rightarrow> bool \<Rightarrow> Pid \<Rightarrow> Mutex \<Rightarrow> kernel \<Rightarrow> (lock_result \<times> Mutex \<times> kernel) outcome" where
  "Mutex_Lock_resume me spurious p m k = Mutex_Lock_try me spurious p m (set_intr_flag k me True)"

definition Mutex_UnLock :: "size_t \<Rightarrow> Mutex \<Rightarrow> kernel \<Rightarrow> (bool \<times> Mutex \<times> kernel) outcome" where
  "Mutex_UnLock me m k = (case GetCurrentTask me k of
     None \<Rightarrow> Done (False, m, k)
   | Some t \<Rightarrow>
       obind (IsLockedByCurrentTask me m k) (\<lambda>own.
       if \<not> own then Done (False, m, k)
       else obind (Wakeup me (m_resource_id m) k) (\<lambda>k. Done (True, m\<lparr>m_owner := - 1, m_locked := False\<rparr>, k))))"

definition Mutex_TryLock :: "size_t \<Rightarrow> Mutex \<Rightarrow> kernel \<Rightarrow> (bool \<times> Mutex) outcome" where
  "Mutex_TryLock me m k = (case GetCurrentTask me k of
     None \<Rightarrow> Done (False, m)
   | Some t \<Rightarrow>
       obind (get_tcb k t) (\<lambda>T.
       obind (IsLockedByCurrentTask me m k) (\<lambda>own.
       if own then Done (False, m)
       else if \<not> m_locked m then Done (True, m\<lparr>m_locked := True, m_owner := t_pid T\<rparr>)
       else Done (False, m))))"

subsection \<open>The tasks of one core and a mutex\<close>

text \<open>
  What happens on core \<open>me\<close> to a mutex: its tasks lock, try to lock and unlock it, resume
  a blocked \<open>Lock\<close>, and the scheduler and the timer run in between. The third component
  collects the pids whose last call obtained the mutex.
\<close>

definition user_runs :: "size_t \<Rightarrow> kernel \<Rightarrow> bool" where
  "user_runs me k \<longleftrightarrow> GetCurrentTask me k \<noteq> pc_idle_task (k_percpu k me)"

definition current_pid :: "size_t \<Rightarrow> kernel \<Rightarrow> Pid" where
  "current_pid me k = (case GetCurrentTask me k of None \<Rightarrow> 0 | Some t \<Rightarrow> (case k_tcbs k t of None \<Rightarrow> 0 | Some T \<Rightarrow> t_pid T))"

definition gained :: "lock_result \<Rightarrow> Pid \<Rightarrow> Pid set \<Rightarrow> Pid set" where
  "gained r p H = (if r = LockReturned True then insert p H else H)"

inductive mutex_step :: "size_t \<Rightarrow> Mutex \<times> kernel \<times> Pid set \<Rightarrow> Mutex \<times> kernel \<times> Pid set \<Rightarrow> bool" for me where
  step_Lock: "user_runs me k \<Longrightarrow> Mutex_Lock me False m k = Done (r, m', k') \<Longrightarrow>
     mutex_step me (m, k, H) (m', k', gained r (current_pid me k) H)"
| step_resume: "user_runs me k \<Longrightarrow> Mutex_Lock_resume me False (current_pid me k) m k = Done (r, m', k') \<Longrightarrow>
     mutex_step me (m, k, H) (m', k', gained r (current_pid me k) H)"
| step_TryLock: "user_runs me k \<Longrightarrow> Mutex_TryLock me m k = Done (b, m') \<Longrightarrow>
     mutex_step me (m, k, H) (m', k, gained (LockReturned b) (current_pid me k) H)"
| step_UnLock: "user_runs me k \<Longrightarrow> Mutex_UnLock me m k = Done (b, m', k') \<Longrightarrow>
     mutex_step me (m, k, H) (m', k', if b then H - {current_pid me k} else H)"
| step_Schedule: "Schedule me k = Done k' \<Longrightarrow> mutex_step me (m, k, H) (m, k', H)"
| step_Tick: "TickUpdate me k = Done k' \<Longrightarrow> mutex_step me (m, k, H) (m, k', H)"

inductive mutex_reachable :: "size_t \<Rightarrow> Mutex \<times> kernel \<times> Pid set \<Rightarrow> Mutex \<times> kernel \<times> Pid set \<Rightarrow> bool" for me s where
  reach_init: "mutex_reachable me s s"
| reach_step: "mutex_reachable me s t \<Longrightarrow> mutex_step me t u \<Longrightarrow> mutex_reachable me s u"

text \<open>
  The invariant: the core is in order, the holders are the owner of a locked mutex and nobody
  of a free one, and nobody waits for a free mutex.
\<close>

definition mutex_inv :: "size_t \<Rightarrow> Mutex \<times> kernel \<times> Pid set \<Rightarrow> bool" where
  "mutex_inv me s = (case s of (m, k, H) \<Rightarrow>
     (\<exists>a r. core_rel k me a \<and> unlocked k me \<and> a_run a = Some r \<and> (\<not> m_locked m \<longrightarrow> a_blk a (m_resource_id m) = [])) \<and>
     H = (if m_locked m then {m_owner m} else {}))"

lemma mutex_invE:
  assumes "mutex_inv me (m, k, H)"
  obtains a r T where "core_rel k me a" "unlocked k me" "a_run a = Some r" "GetCurrentTask me k = Some r" "k_tcbs k r = Some T"
    "\<not> m_locked m \<longrightarrow> a_blk a (m_resource_id m) = []" "H = (if m_locked m then {m_owner m} else {})"
    "user_runs me k \<longleftrightarrow> r \<noteq> a_idle a" "current_pid me k = t_pid T"
proof -
  obtain a r where a: "core_rel k me a" "unlocked k me" "a_run a = Some r" "\<not> m_locked m \<longrightarrow> a_blk a (m_resource_id m) = []"
    "H = (if m_locked m then {m_owner m} else {})"
    using assms by (auto simp: mutex_inv_def)
  have "pc_running_task (k_percpu k me) = Some r" "pc_idle_task (k_percpu k me) = Some (a_idle a)" "\<exists>T. k_tcbs k r = Some T"
    using core_rel_parts(3) [OF a(1)] a(3) by (auto simp: run_rel_def elim: task_isE split: if_splits)
  then show ?thesis using that a by (auto simp: user_runs_def current_pid_def GetCurrentTask_def)
qed

lemma mutex_invI:
  "core_rel k me a \<Longrightarrow> unlocked k me \<Longrightarrow> a_run a = Some r \<Longrightarrow> (\<not> m_locked m \<Longrightarrow> a_blk a (m_resource_id m) = []) \<Longrightarrow>
   H = (if m_locked m then {m_owner m} else {}) \<Longrightarrow> mutex_inv me (m, k, H)"
  by (auto simp: mutex_inv_def)

subsection \<open>The invariant holds\<close>

lemma a_blk_enqueue [simp]: "a_blk (a_enqueue pol t a) = a_blk a"
  by (simp add: a_enqueue_def)

lemma a_blk_pick [simp]: "a_blk (a_pick a) = a_blk a"
  by (simp add: a_pick_def a_rest_def split: list.split)

lemma a_blk_requeue [simp]: "a_blk (a_requeue pol a) = a_blk a"
  by (simp add: a_requeue_def split: option.split)

lemma a_blk_schedule [simp]: "a_blk (a_schedule pol a) = a_blk a"
  by (simp add: a_schedule_def)

lemma a_blk_wake [simp]: "a_blk (a_wake pol ts a) = a_blk a"
  unfolding a_wake_def by (induction ts arbitrary: a) simp_all

lemma Mutex_Lock_try_inv:
  assumes "core_rel k me a" "unlocked k me" "a_run a = Some r" "r \<noteq> a_idle a"
    and "\<not> m_locked m \<longrightarrow> a_blk a (m_resource_id m) = []" "H = (if m_locked m then {m_owner m} else {})"
    and "Mutex_Lock_try me False p m k = Done (res, m', k')"
  shows "mutex_inv me (m', k', gained res p H)"
proof (cases "m_locked m")
  case False
  then have "res = LockReturned True \<and> m' = m\<lparr>m_locked := True, m_owner := p\<rparr> \<and> k' = k"
    using assms(7) by (auto simp: Mutex_Lock_try_def)
  then show ?thesis using False assms(6) mutex_invI [OF assms(1-3), of m' "{p}"] by (simp add: gained_def)
next
  case True
  let ?k = "set_intr_flag k me False"
  have k: "core_rel ?k me a" "unlocked ?k me" using assms(1,2) by (simp_all add: exec_simps)
  obtain k1 where k1: "Block me (m_resource_id m) ?k = Done k1" "core_rel k1 me (a_pick (a_block r (m_resource_id m) a))" "unlocked k1 me"
    using Block_ok [OF k assms(3,4)] by blast
  have "res = LockBlocked \<and> m' = m \<and> k' = k1" using assms(7) True k1(1) by (auto simp: Mutex_Lock_try_def)
  then show ?thesis using True assms(6) mutex_invI [OF k1(2,3) a_run_pick, of m H] by (simp add: gained_def)
qed

lemma Mutex_Lock_inv:
  assumes "mutex_inv me (m, k, H)" "user_runs me k" "Mutex_Lock me False m k = Done (res, m', k')"
  shows "mutex_inv me (m', k', gained res (current_pid me k) H)"
proof (rule mutex_invE [OF assms(1)])
  fix a r T
  assume a: "core_rel k me a" "unlocked k me" "a_run a = Some r" and t: "GetCurrentTask me k = Some r" "k_tcbs k r = Some T"
    and b: "\<not> m_locked m \<longrightarrow> a_blk a (m_resource_id m) = []" "H = (if m_locked m then {m_owner m} else {})"
    and u: "user_runs me k \<longleftrightarrow> r \<noteq> a_idle a" "current_pid me k = t_pid T"
  show ?thesis
  proof (cases "m_locked m \<and> m_owner m = t_pid T")
    case True
    then have "res = LockReturned False \<and> m' = m \<and> k' = k"
      using assms(3) t by (auto simp: Mutex_Lock_def IsLockedByCurrentTask_def get_tcb_def)
    then show ?thesis using assms(1) by (simp add: gained_def)
  next
    case False
    then have "Mutex_Lock_try me False (t_pid T) m k = Done (res, m', k')"
      using assms(3) t by (auto simp: Mutex_Lock_def IsLockedByCurrentTask_def get_tcb_def)
    then show ?thesis using Mutex_Lock_try_inv [OF a _ b] assms(2) u by simp
  qed
qed

lemma Mutex_Lock_resume_inv:
  assumes "mutex_inv me (m, k, H)" "user_runs me k" "Mutex_Lock_resume me False p m k = Done (res, m', k')"
  shows "mutex_inv me (m', k', gained res p H)"
proof (rule mutex_invE [OF assms(1)])
  fix a r T
  assume a: "core_rel k me a" "unlocked k me" "a_run a = Some r"
    and b: "\<not> m_locked m \<longrightarrow> a_blk a (m_resource_id m) = []" "H = (if m_locked m then {m_owner m} else {})"
    and u: "user_runs me k \<longleftrightarrow> r \<noteq> a_idle a"
  have "core_rel (set_intr_flag k me True) me a" "unlocked (set_intr_flag k me True) me" using a(1,2) by (simp_all add: exec_simps)
  from Mutex_Lock_try_inv [OF this a(3) _ b] show ?thesis using assms(2,3) u by (simp add: Mutex_Lock_resume_def)
qed

lemma Mutex_TryLock_inv:
  assumes "mutex_inv me (m, k, H)" "Mutex_TryLock me m k = Done (b, m')"
  shows "mutex_inv me (m', k, gained (LockReturned b) (current_pid me k) H)"
proof (rule mutex_invE [OF assms(1)])
  fix a r T
  assume a: "core_rel k me a" "unlocked k me" "a_run a = Some r" and t: "GetCurrentTask me k = Some r" "k_tcbs k r = Some T"
    and H: "H = (if m_locked m then {m_owner m} else {})" and u: "current_pid me k = t_pid T"
  have "if m_locked m then \<not> b \<and> m' = m else b \<and> m' = m\<lparr>m_locked := True, m_owner := t_pid T\<rparr>"
    using assms(2) t by (auto simp: Mutex_TryLock_def IsLockedByCurrentTask_def get_tcb_def split: if_splits)
  then show ?thesis
    using assms(1) H u mutex_invI [OF a, of m' "{t_pid T}"] by (cases "m_locked m") (auto simp: gained_def)
qed

lemma Mutex_UnLock_inv:
  assumes "mutex_inv me (m, k, H)" "Mutex_UnLock me m k = Done (b, m', k')"
  shows "mutex_inv me (m', k', if b then H - {current_pid me k} else H)"
proof (rule mutex_invE [OF assms(1)])
  fix a r T
  assume a: "core_rel k me a" "unlocked k me" "a_run a = Some r" and t: "GetCurrentTask me k = Some r" "k_tcbs k r = Some T"
    and H: "H = (if m_locked m then {m_owner m} else {})" and u: "current_pid me k = t_pid T"
  let ?a = "a_wakeup (pol_of (k_tcbs k)) (m_resource_id m) a"
  obtain k1 where k1: "Wakeup me (m_resource_id m) k = Done k1" "core_rel k1 me ?a" "unlocked k1 me"
    using Wakeup_ok [OF a] by blast
  show ?thesis
  proof (cases "m_locked m \<and> m_owner m = t_pid T")
    case True
    then have "b \<and> m' = m\<lparr>m_owner := - 1, m_locked := False\<rparr> \<and> k' = k1"
      using assms(2) t k1(1) by (auto simp: Mutex_UnLock_def IsLockedByCurrentTask_def get_tcb_def)
    then show ?thesis using mutex_invI [OF k1(2,3), of r m' "{}"] True H u a(3) by (simp add: a_blk_wakeup)
  next
    case False
    then have "\<not> b \<and> m' = m \<and> k' = k" using assms(2) t by (auto simp: Mutex_UnLock_def IsLockedByCurrentTask_def get_tcb_def)
    then show ?thesis using assms(1) by simp
  qed
qed

lemma mutex_clock_inv:
  assumes "mutex_inv me (m, k, H)" "Schedule me k = Done k' \<or> TickUpdate me k = Done k'"
  shows "mutex_inv me (m, k', H)"
proof (rule mutex_invE [OF assms(1)])
  fix a r T
  assume a: "core_rel k me a" "unlocked k me" "a_run a = Some r"
    and b: "\<not> m_locked m \<longrightarrow> a_blk a (m_resource_id m) = []" "H = (if m_locked m then {m_owner m} else {})"
  from assms(2) obtain a' r' where a': "core_rel k' me a'" "unlocked k' me" "a_run a' = Some r'" "a_blk a' = a_blk a"
  proof
    assume s: "Schedule me k = Done k'"
    obtain k1 where "Schedule me k = Done k1" "core_rel k1 me (a_schedule (pol_of (k_tcbs k)) a)" "unlocked k1 me"
      using Schedule_running [OF a] by blast
    then show ?thesis using s that [of "a_schedule (pol_of (k_tcbs k)) a"] by (auto simp: a_schedule_def)
  next
    assume s: "TickUpdate me k = Done k'"
    let ?a = "\<lambda>need woken. if need then a_schedule (pol_of (k_tcbs k)) (a_wake (pol_of (k_tcbs k)) woken a) else a_wake (pol_of (k_tcbs k)) woken a"
    obtain k1 woken need where "TickUpdate me k = Done k1" "core_rel k1 me (?a need woken)" "unlocked k1 me"
      using TickUpdate_ok [OF a] by blast
    then show ?thesis using s a(3) that [of "?a need woken"] by (cases need) (auto simp: a_schedule_def)
  qed
  then show ?thesis using b mutex_invI [OF a'(1-3), of m H] by simp
qed

lemma mutex_step_inv: "mutex_step me s t \<Longrightarrow> mutex_inv me s \<Longrightarrow> mutex_inv me t"
  by (induction rule: mutex_step.induct)
    (blast intro: Mutex_Lock_inv Mutex_Lock_resume_inv Mutex_TryLock_inv Mutex_UnLock_inv mutex_clock_inv)+

lemma mutex_reachable_inv: "mutex_reachable me s t \<Longrightarrow> mutex_inv me s \<Longrightarrow> mutex_inv me t"
  by (induction rule: mutex_reachable.induct) (auto intro: mutex_step_inv)

subsection \<open>Properties\<close>

lemma core_rel_blk:
  "core_rel k c a \<Longrightarrow> a_blk a r = (case um_find hash_u64 (cs_blocked_tasks (k_cpu k c)) r of None \<Rightarrow> [] | Some l \<Rightarrow> l)"
  by (drule core_rel_parts(1)) (simp add: queues_rel_def)



text \<open>
  A weak exchange that fails spuriously blocks the task although the mutex is free: the
  task waits for a wake-up that only a later \<open>UnLock\<close> of another task can bring.
\<close>

theorem Mutex_spurious_failure_blocks:
  assumes "core_rel k me a" "unlocked k me" "a_run a = Some r" "r \<noteq> a_idle a" "\<not> m_locked m"
  shows "\<exists>k'. Mutex_Lock me True m k = Done (LockBlocked, m, k') \<and>
           (\<exists>ts. um_find hash_u64 (cs_blocked_tasks (k_cpu k' me)) (m_resource_id m) = Some (ts @ [r]))"
proof -
  have t: "GetCurrentTask me k = Some r" "\<exists>T. k_tcbs k r = Some T"
    using core_rel_parts(3) [OF assms(1)] assms(3) by (auto simp: run_rel_def GetCurrentTask_def elim: task_isE split: if_splits)
  let ?k = "set_intr_flag k me False"
  have k: "core_rel ?k me a" "unlocked ?k me" using assms(1,2) by (simp_all add: exec_simps)
  obtain k1 where k1: "Block me (m_resource_id m) ?k = Done k1" "core_rel k1 me (a_pick (a_block r (m_resource_id m) a))"
    using Block_ok [OF k assms(3,4)] by blast
  have "a_blk a (m_resource_id m) @ [r] =
      (case um_find hash_u64 (cs_blocked_tasks (k_cpu k1 me)) (m_resource_id m) of None \<Rightarrow> [] | Some l \<Rightarrow> l)"
    using core_rel_blk [OF k1(2), of "m_resource_id m"] by (simp add: a_block_def)
  then have "\<exists>ts. um_find hash_u64 (cs_blocked_tasks (k_cpu k1 me)) (m_resource_id m) = Some (ts @ [r])"
    by (auto split: option.splits)
  then show ?thesis
    using t k1(1) assms(5) by (auto simp: Mutex_Lock_def IsLockedByCurrentTask_def Mutex_Lock_try_def get_tcb_def)
qed

theorem Mutex_spurious_failure_blocks_witness:
  "\<exists>k'. Mutex_Lock 0 True (new_Mutex ''m'' 0x5000) demo_running = Done (LockBlocked, new_Mutex ''m'' 0x5000, k')"
  using Mutex_spurious_failure_blocks [OF demo_running_ok(1-3), of "new_Mutex ''m'' 0x5000"] demo_running_ok(4)
  by (auto simp: new_Mutex_def)

end
