(* ===== verification/Page_Table.thy ===== *)
theory Page_Table
  imports NK_Prelude
begin

text \<open>
  The page table entries of x86-64
  (\<open>src/3rd/cpu_io/include/x86_64/virtual_memory.hpp\<close>): permission bits, the packing of a
  physical address with flags, and the page numbers of a virtual address on each of the four
  levels. The functions on registers (paging on and off, CR3, the TLB) are not modelled.
\<close>

definition kValid :: u64 where "kValid = push_bit 0 1"
definition kWrite :: u64 where "kWrite = push_bit 1 1"
definition kUser :: u64 where "kUser = push_bit 2 1"
definition kWriteThrough :: u64 where "kWriteThrough = push_bit 3 1"
definition kCacheDisable :: u64 where "kCacheDisable = push_bit 4 1"
definition kAccessed :: u64 where "kAccessed = push_bit 5 1"
definition kDirty :: u64 where "kDirty = push_bit 6 1"
definition kHugePage :: u64 where "kHugePage = push_bit 7 1"
definition kGlobal :: u64 where "kGlobal = push_bit 8 1"
definition kRead :: u64 where "kRead = push_bit 9 1"
definition kExec :: u64 where "kExec = push_bit 10 1"

lemmas permission_defs = kValid_def kWrite_def kUser_def kWriteThrough_def kCacheDisable_def
  kAccessed_def kDirty_def kHugePage_def kGlobal_def kRead_def kExec_def

definition kPageSize :: u64 where "kPageSize = 4096"
definition kPteAttributeBits :: nat where "kPteAttributeBits = 12"
definition kPageOffsetBits :: nat where "kPageOffsetBits = 12"
definition kVpnBits :: nat where "kVpnBits = 9"
definition kVpnMask :: u64 where "kVpnMask = 0x1FF"
definition kPageTableLevels :: nat where "kPageTableLevels = 4"

definition PhysicalToPageTableEntry :: "u64 \<Rightarrow> u64 \<Rightarrow> u64" where
  "PhysicalToPageTableEntry physical_addr flags =
     (physical_addr AND 0x000FFFFFFFFFF000) OR (flags AND 0xFFF) OR (flags AND push_bit 63 1)"

definition PageTableEntryToPhysical :: "u64 \<Rightarrow> u64" where
  "PageTableEntryToPhysical pte = pte AND 0x000FFFFFFFFFF000"

definition IsPageTableEntryValid :: "u64 \<Rightarrow> bool" where
  "IsPageTableEntryValid pte \<longleftrightarrow> pte AND kValid \<noteq> 0"

definition GetVirtualPageNumber :: "u64 \<Rightarrow> nat \<Rightarrow> u64" where
  "GetVirtualPageNumber virtual_addr level =
     drop_bit (kPageOffsetBits + level * kVpnBits) virtual_addr AND kVpnMask"

definition GetPageTableLevelShift :: "nat \<Rightarrow> nat" where
  "GetPageTableLevelShift level = kPageOffsetBits + level * kVpnBits"

definition PageAlign :: "u64 \<Rightarrow> u64" where
  "PageAlign addr = addr AND NOT (kPageSize - 1)"

definition PageAlignUp :: "u64 \<Rightarrow> u64" where
  "PageAlignUp addr = (addr + kPageSize - 1) AND NOT (kPageSize - 1)"

definition IsPageAligned :: "u64 \<Rightarrow> bool" where
  "IsPageAligned addr \<longleftrightarrow> addr AND (kPageSize - 1) = 0"

definition GetPageOffset :: "u64 \<Rightarrow> u64" where
  "GetPageOffset addr = addr AND (kPageSize - 1)"

definition GetPageCount :: "u64 \<Rightarrow> u64 \<Rightarrow> u64" where
  "GetPageCount start_addr end_addr = (PageAlignUp end_addr - PageAlign start_addr) div kPageSize"

definition flag_if :: "bool \<Rightarrow> u64 \<Rightarrow> u64 \<Rightarrow> u64" where
  "flag_if b m flags = (if b then flags OR m else flags)"

definition CreatePageTableEntry :: "u64 \<Rightarrow> bool \<Rightarrow> bool \<Rightarrow> bool \<Rightarrow> bool \<Rightarrow> bool \<Rightarrow> u64" where
  "CreatePageTableEntry physical_addr readable writable executable user_accessible global =
     PhysicalToPageTableEntry physical_addr
       (flag_if global kGlobal (flag_if user_accessible kUser (flag_if executable kExec
         (flag_if writable kWrite (flag_if readable kRead kValid)))))"

definition CheckPageTableEntryPermissions :: "u64 \<Rightarrow> bool \<Rightarrow> bool \<Rightarrow> bool \<Rightarrow> bool \<Rightarrow> bool" where
  "CheckPageTableEntryPermissions pte check_read check_write check_exec check_user \<longleftrightarrow>
     IsPageTableEntryValid pte \<and>
     \<not> (check_read \<and> pte AND kRead = 0) \<and> \<not> (check_write \<and> pte AND kWrite = 0) \<and>
     \<not> (check_exec \<and> pte AND kExec = 0) \<and> \<not> (check_user \<and> pte AND kUser = 0)"

definition GetTableEntryPermissions :: u64 where
  "GetTableEntryPermissions = kValid OR kWrite OR kUser OR kRead OR kExec"

definition GetKernelPagePermissions :: "bool \<Rightarrow> bool \<Rightarrow> bool \<Rightarrow> bool \<Rightarrow> u64" where
  "GetKernelPagePermissions readable writable executable global =
     flag_if global kGlobal (flag_if executable kExec (flag_if writable kWrite (flag_if readable kRead kValid)))"

definition GetUserPagePermissions :: "bool \<Rightarrow> bool \<Rightarrow> bool \<Rightarrow> bool \<Rightarrow> u64" where
  "GetUserPagePermissions readable writable executable global =
     flag_if global kGlobal (flag_if executable kExec (flag_if writable kWrite (flag_if readable kRead (kValid OR kUser))))"

subsection \<open>Lemmas\<close>

text \<open>An address that an entry can hold: 4 KiB aligned and below \<open>2 ^ 52\<close>.\<close>

definition frame_addr :: "u64 \<Rightarrow> bool" where
  "frame_addr a \<longleftrightarrow> a AND 0x000FFFFFFFFFF000 = a"

lemma masks:
  "(0x000FFFFFFFFFF000 :: u64) = push_bit 12 (mask 40)" "(0xFFF :: u64) = mask 12"
  by (simp_all add: push_bit_eq_mult mask_eq_exp_minus_1)

lemmas entry_bits = bit_and_iff bit_or_iff bit_push_bit_iff bit_mask_iff bit_1_iff

lemma frame_addr_bit: "frame_addr a \<Longrightarrow> bit a n \<Longrightarrow> 12 \<le> n \<and> n < 52"
  unfolding frame_addr_def masks by (drule arg_cong [where f = "\<lambda>w. bit w n"]) (auto simp: entry_bits)

lemma PageTableEntryToPhysical_pack:
  assumes "frame_addr a"
  shows "PageTableEntryToPhysical (PhysicalToPageTableEntry a fl) = a"
proof (rule bit_word_eqI)
  fix n :: nat assume n: "n < LENGTH(64)"
  define m where "m = (push_bit 63 1 :: u64)"
  have "bit m n \<Longrightarrow> n = 63" unfolding m_def by (simp only: bit_push_bit_iff bit_1_iff) auto
  with n show "bit (PageTableEntryToPhysical (PhysicalToPageTableEntry a fl)) n = bit a n"
    unfolding PageTableEntryToPhysical_def PhysicalToPageTableEntry_def masks m_def [symmetric]
    using frame_addr_bit [OF assms, of n] by (auto simp: entry_bits)
qed

lemma IsPageTableEntryValid_bit: "IsPageTableEntryValid pte \<longleftrightarrow> bit pte 0"
  by (simp add: IsPageTableEntryValid_def kValid_def bit_0 and_one_eq flip: odd_iff_mod_2_eq_one)

lemma IsPageTableEntryValid_pack:
  "IsPageTableEntryValid (PhysicalToPageTableEntry a fl) \<longleftrightarrow> IsPageTableEntryValid fl"
  unfolding IsPageTableEntryValid_bit PhysicalToPageTableEntry_def masks by (simp add: entry_bits)

lemma IsPageTableEntryValid_zero [simp]: "\<not> IsPageTableEntryValid 0"
  by (simp add: IsPageTableEntryValid_def)

lemma valid_table_permissions [simp]: "IsPageTableEntryValid GetTableEntryPermissions"
  by (simp add: IsPageTableEntryValid_bit GetTableEntryPermissions_def bit_or_iff permission_defs bit_0)

lemma frame_addr_physical [simp]: "frame_addr (PageTableEntryToPhysical pte)"
  by (simp add: frame_addr_def PageTableEntryToPhysical_def and.assoc)

lemma vpn_less: "unat (GetVirtualPageNumber va l) < 512"
proof -
  have "GetVirtualPageNumber va l \<le> 0x1FF" by (simp add: GetVirtualPageNumber_def kVpnMask_def word_and_le1)
  then show ?thesis by (simp add: word_le_nat_alt)
qed

end
