(* ===== verification/Virtual_Memory.thy ===== *)
theory Virtual_Memory
  imports Page_Table Kernel_Error
begin

text \<open>
  The page tables of \<open>src/src/virtual_memory.cpp\<close>.

  The state holds the pages that are page tables, as functions from an index to an entry; a
  pointer to an entry is the page and the index. \<open>aligned_alloc\<close> and \<open>aligned_free\<close> are
  calls into the heap: \<open>v_alloc\<close> is the sequence of addresses that \<open>aligned_alloc\<close> will
  return for a page (0, or the end of the sequence, is a failure), \<open>v_freed\<close> records the
  addresses given to \<open>aligned_free\<close>. A read of a page that is not allocated is a fault.
  A write of an entry is followed by a flush of the TLB where the source has one.
\<close>

type_synonym page = "nat \<Rightarrow> u64"

record vm =
  v_pages :: "u64 \<rightharpoonup> page"
  v_alloc :: "u64 list"
  v_freed :: "u64 list"
  v_kernel_page_dir :: u64
  v_tlb_flushes :: nat

definition kEntriesPerTable :: nat where "kEntriesPerTable = 512"

definition read_entry :: "vm \<Rightarrow> u64 \<Rightarrow> nat \<Rightarrow> u64 outcome" where
  "read_entry v t i = obind (deref (v_pages v) t) (\<lambda>es. Done (es i))"

definition write_entry :: "vm \<Rightarrow> u64 \<Rightarrow> nat \<Rightarrow> u64 \<Rightarrow> vm outcome" where
  "write_entry v t i w = obind (modify (v_pages v) t (\<lambda>es. es(i := w))) (\<lambda>ps. Done (v\<lparr>v_pages := ps\<rparr>))"

definition page_alloc :: "vm \<Rightarrow> u64 \<times> vm" where
  "page_alloc v = (case v_alloc v of [] \<Rightarrow> (0, v) | a # as \<Rightarrow> (a, v\<lparr>v_alloc := as\<rparr>))"

definition page_clear :: "u64 \<Rightarrow> vm \<Rightarrow> vm" where
  "page_clear a v = v\<lparr>v_pages := (v_pages v)(a \<mapsto> (\<lambda>_. 0))\<rparr>"

definition page_free :: "u64 \<Rightarrow> vm \<Rightarrow> vm" where
  "page_free a v = v\<lparr>v_pages := (v_pages v)(a := None), v_freed := v_freed v @ [a]\<rparr>"

definition FlushTLBAll :: "vm \<Rightarrow> vm" where
  "FlushTLBAll v = v\<lparr>v_tlb_flushes := v_tlb_flushes v + 1\<rparr>"

abbreviation vpn :: "u64 \<Rightarrow> nat \<Rightarrow> nat" where
  "vpn va l \<equiv> unat (GetVirtualPageNumber va l)"

subsection \<open>Operations\<close>

text \<open>The loop of \<open>FindPageTableEntry\<close> from level \<open>l\<close> down to the leaf.\<close>

primrec find_entry :: "nat \<Rightarrow> u64 \<Rightarrow> u64 \<Rightarrow> bool \<Rightarrow> vm \<Rightarrow> ((u64 \<times> nat) Expected \<times> vm) outcome" where
  "find_entry 0 table vaddr allocate v = Done (Inr (table, vpn vaddr 0), v)"
| "find_entry (Suc l) table vaddr allocate v =
     obind (read_entry v table (vpn vaddr (Suc l))) (\<lambda>pte.
     if IsPageTableEntryValid pte then find_entry l (PageTableEntryToPhysical pte) vaddr allocate v
     else if allocate then
       (case page_alloc v of (new_table, v) \<Rightarrow>
          if new_table = 0 then Done (Inl kVmAllocationFailed, v)
          else obind (write_entry (page_clear new_table v) table (vpn vaddr (Suc l))
                        (PhysicalToPageTableEntry new_table GetTableEntryPermissions)) (\<lambda>v.
               find_entry l new_table vaddr allocate v))
     else Done (Inl kVmPageNotMapped, v))"

definition FindPageTableEntry :: "u64 \<Rightarrow> u64 \<Rightarrow> bool \<Rightarrow> vm \<Rightarrow> ((u64 \<times> nat) Expected \<times> vm) outcome" where
  "FindPageTableEntry page_dir vaddr allocate v = find_entry (kPageTableLevels - 1) page_dir vaddr allocate v"

definition MapPage :: "u64 \<Rightarrow> u64 \<Rightarrow> u64 \<Rightarrow> u32 \<Rightarrow> vm \<Rightarrow> (unit Expected \<times> vm) outcome" where
  "MapPage page_dir vaddr paddr flags v =
     nk_assert_msg (page_dir \<noteq> 0) ''MapPage: page_dir is null'' (
     obind (FindPageTableEntry page_dir vaddr True v) (\<lambda>(r, v). case r of
        Inl e \<Rightarrow> Done (Inl kVmMapFailed, v)
      | Inr (t, i) \<Rightarrow>
          obind (read_entry v t i) (\<lambda>pte.
          let attr_mask = push_bit kPteAttributeBits 1 - 1
          in if IsPageTableEntryValid pte \<and> PageTableEntryToPhysical pte = paddr \<and> pte AND attr_mask = ucast flags
             then Done (Inr (), v)
             else obind (write_entry v t i (PhysicalToPageTableEntry paddr (ucast flags))) (\<lambda>v.
                  Done (Inr (), FlushTLBAll v)))))"

definition UnmapPage :: "u64 \<Rightarrow> u64 \<Rightarrow> vm \<Rightarrow> (unit Expected \<times> vm) outcome" where
  "UnmapPage page_dir vaddr v =
     nk_assert_msg (page_dir \<noteq> 0) ''UnmapPage: page_dir is null'' (
     obind (FindPageTableEntry page_dir vaddr False v) (\<lambda>(r, v). case r of
        Inl e \<Rightarrow> Done (Inl kVmPageNotMapped, v)
      | Inr (t, i) \<Rightarrow>
          obind (read_entry v t i) (\<lambda>pte.
          if \<not> IsPageTableEntryValid pte then Done (Inl kVmPageNotMapped, v)
          else obind (write_entry v t i 0) (\<lambda>v. Done (Inr (), FlushTLBAll v)))))"

definition GetMapping :: "u64 \<Rightarrow> u64 \<Rightarrow> vm \<Rightarrow> u64 Expected outcome" where
  "GetMapping page_dir vaddr v =
     nk_assert_msg (page_dir \<noteq> 0) ''GetMapping: page_dir is null'' (
     obind (FindPageTableEntry page_dir vaddr False v) (\<lambda>(r, v). case r of
        Inl e \<Rightarrow> Done (Inl kVmPageNotMapped)
      | Inr (t, i) \<Rightarrow>
          obind (read_entry v t i) (\<lambda>pte.
          Done (if \<not> IsPageTableEntryValid pte then Inl kVmPageNotMapped else Inr (PageTableEntryToPhysical pte)))))"

text \<open>The loop of \<open>MapMMIO\<close>.\<close>

partial_function (option) map_range :: "u64 \<Rightarrow> u64 \<Rightarrow> u32 \<Rightarrow> vm \<Rightarrow> (unit Expected \<times> vm) outcome option" where
  "map_range addr end_page flags v =
     (if addr < end_page then
        (case MapPage (v_kernel_page_dir v) addr addr flags v of
           Fault e \<Rightarrow> Some (Fault e)
         | Done (Inl e, v) \<Rightarrow> Some (Done (Inl e, v))
         | Done (Inr _, v) \<Rightarrow> map_range (addr + kPageSize) end_page flags v)
      else Some (Done (Inr (), v)))"

declare map_range.simps [code]

definition MapMMIO :: "u64 \<Rightarrow> u64 \<Rightarrow> u32 \<Rightarrow> vm \<Rightarrow> (u64 Expected \<times> vm) outcome" where
  "MapMMIO phys_addr sz flags v =
     obind (run_loop (map_range (PageAlign phys_addr) (PageAlignUp (phys_addr + sz)) flags v)) (\<lambda>(r, v).
     Done (case r of Inl e \<Rightarrow> (Inl e, v) | Inr _ \<Rightarrow> (Inr phys_addr, v)))"

text \<open>
  The constructor: the root table, then the physical memory mapped onto itself with the default
  permissions of \<open>MapMMIO\<close>. A failure of the mapping waits for ever.
\<close>

definition new_VirtualMemory :: "u64 \<Rightarrow> u64 \<Rightarrow> vm \<Rightarrow> vm outcome" where
  "new_VirtualMemory memory_addr memory_size v =
     (case page_alloc v of (dir, v) \<Rightarrow>
        nk_assert_msg (dir \<noteq> 0) ''Failed to allocate kernel page directory'' (
        obind (MapMMIO memory_addr memory_size (ucast (GetKernelPagePermissions True True True True))
                 ((page_clear dir v)\<lparr>v_kernel_page_dir := dir\<rparr>)) (\<lambda>(r, v). case r of
           Inl e \<Rightarrow> Fault LoopForever
         | Inr _ \<Rightarrow> Done v)))"

text \<open>
  \<open>RecursiveFreePageTable\<close> and its loop. The root, on the highest level, is left to
  \<open>DestroyPageDirectory\<close>.
\<close>

function RecursiveFreePageTable :: "nat \<Rightarrow> u64 \<Rightarrow> bool \<Rightarrow> vm \<Rightarrow> vm outcome"
  and free_entries :: "nat \<Rightarrow> nat list \<Rightarrow> u64 \<Rightarrow> bool \<Rightarrow> vm \<Rightarrow> vm outcome" where
  "RecursiveFreePageTable level table free_pages v =
     (if table = 0 then Done v
      else obind (free_entries level [0..<kEntriesPerTable] table free_pages v) (\<lambda>v.
           Done (if level < kPageTableLevels - 1 then page_free table v else v)))"
| "free_entries level [] table free_pages v = Done v"
| "free_entries level (i # is) table free_pages v =
     obind (read_entry v table i) (\<lambda>pte.
     if \<not> IsPageTableEntryValid pte then free_entries level is table free_pages v
     else obind (if level > 0 then RecursiveFreePageTable (level - 1) (PageTableEntryToPhysical pte) free_pages v
                 else Done (if free_pages then page_free (PageTableEntryToPhysical pte) v else v)) (\<lambda>v.
          obind (write_entry v table i 0) (\<lambda>v.
          free_entries level is table free_pages v)))"
  by pat_completeness auto
termination
  by (relation "measures [\<lambda>x. case x of Inl (l, _) \<Rightarrow> l | Inr (l, _) \<Rightarrow> l,
      \<lambda>x. case x of Inl _ \<Rightarrow> Suc kEntriesPerTable | Inr (_, is, _) \<Rightarrow> length is]") auto

definition DestroyPageDirectory :: "u64 \<Rightarrow> bool \<Rightarrow> vm \<Rightarrow> vm outcome" where
  "DestroyPageDirectory page_dir free_pages v =
     (if page_dir = 0 then Done v
      else obind (RecursiveFreePageTable (kPageTableLevels - 1) page_dir free_pages v) (\<lambda>v.
           Done (page_free page_dir v)))"

text \<open>\<open>RecursiveClonePageTable\<close> and its loop.\<close>

function RecursiveClonePageTable :: "nat \<Rightarrow> u64 \<Rightarrow> u64 \<Rightarrow> bool \<Rightarrow> vm \<Rightarrow> (unit Expected \<times> vm) outcome"
  and clone_entries :: "nat \<Rightarrow> nat list \<Rightarrow> u64 \<Rightarrow> u64 \<Rightarrow> bool \<Rightarrow> vm \<Rightarrow> (unit Expected \<times> vm) outcome" where
  "RecursiveClonePageTable level src dst copy_mappings v =
     nk_assert_msg (src \<noteq> 0) ''RecursiveClonePageTable: src_table is null'' (
     nk_assert_msg (dst \<noteq> 0) ''RecursiveClonePageTable: dst_table is null'' (
     clone_entries level [0..<kEntriesPerTable] src dst copy_mappings v))"
| "clone_entries level [] src dst copy_mappings v = Done (Inr (), v)"
| "clone_entries level (i # is) src dst copy_mappings v =
     obind (read_entry v src i) (\<lambda>pte.
     if \<not> IsPageTableEntryValid pte then clone_entries level is src dst copy_mappings v
     else if level > 0 then
       (case page_alloc v of (dst_next, v) \<Rightarrow>
          if dst_next = 0 then Done (Inl kVmAllocationFailed, v)
          else obind (RecursiveClonePageTable (level - 1) (PageTableEntryToPhysical pte) dst_next copy_mappings
                        (page_clear dst_next v)) (\<lambda>(r, v). case r of
             Inl e \<Rightarrow> Done (Inl e, page_free dst_next v)
           | Inr _ \<Rightarrow>
               obind (write_entry v dst i (PhysicalToPageTableEntry dst_next GetTableEntryPermissions)) (\<lambda>v.
               clone_entries level is src dst copy_mappings v)))
     else if copy_mappings then
       obind (write_entry v dst i pte) (\<lambda>v. clone_entries level is src dst copy_mappings v)
     else clone_entries level is src dst copy_mappings v)"
  by pat_completeness auto
termination
  by (relation "measures [\<lambda>x. case x of Inl (l, _) \<Rightarrow> l | Inr (l, _) \<Rightarrow> l,
      \<lambda>x. case x of Inl _ \<Rightarrow> Suc kEntriesPerTable | Inr (_, is, _) \<Rightarrow> length is]") auto

definition ClonePageDirectory :: "u64 \<Rightarrow> bool \<Rightarrow> vm \<Rightarrow> (u64 Expected \<times> vm) outcome" where
  "ClonePageDirectory src copy_mappings v =
     nk_assert_msg (src \<noteq> 0) ''ClonePageDirectory: source page directory is nullptr'' (
     case page_alloc v of (dst, v) \<Rightarrow>
       if dst = 0 then Done (Inl kVmAllocationFailed, v)
       else obind (RecursiveClonePageTable (kPageTableLevels - 1) src dst copy_mappings (page_clear dst v)) (\<lambda>(r, v). case r of
          Inl e \<Rightarrow> obind (DestroyPageDirectory dst False v) (\<lambda>v. Done (Inl e, v))
        | Inr _ \<Rightarrow> Done (Inr dst, v)))"

end
