(* ===== verification/Task_Lifecycle.thy ===== *)
theory Task_Lifecycle
  imports Scheduling Virtual_Memory
begin

text \<open>
  The end and the beginning of tasks: \<open>Exit\<close> (\<open>src/src/task/exit.cpp\<close>), \<open>Wait\<close>
  (\<open>src/src/task/wait.cpp\<close>) and \<open>Clone\<close> (\<open>src/src/task/clone.cpp\<close>).

  \<open>Wait\<close> and \<open>Clone\<close> also work on page tables, so they run on the task manager and the
  virtual memory together. On x86-64 \<open>TrapContext\<close> has no fields: the accessors
  \<open>UserStackPointer\<close>, \<open>ThreadPointer\<close> and \<open>ReturnValue\<close> return a reference to a
  \<open>static\<close> variable of their own, one for all contexts.
\<close>

record world =
  w_kernel :: kernel
  w_vm :: vm
  w_ints :: "u64 \<Rightarrow> u32"     \<comment> \<open>the \<open>int\<close> objects that \<open>parent_tid\<close> and \<open>child_tid\<close> point to\<close>
  w_UserStackPointer :: u64
  w_ThreadPointer :: u64
  w_ReturnValue :: u64

subsection \<open>Exit\<close>

text \<open>
  \<open>Exit\<close> does not return to its caller: the value is the state in which the next task
  runs. The log call of a leader whose group has other threads reads the size once more.
\<close>

definition Exit_leave :: "size_t \<Rightarrow> tptr \<Rightarrow> int \<Rightarrow> kernel \<Rightarrow> kernel outcome" where
  "Exit_leave me c code k =
     obind (upd_tcb k c (\<lambda>T. T\<lparr>t_exit_code := code\<rparr>)) (\<lambda>k.
     obind (get_tcb k c) (\<lambda>C.
     let is_group_leader = IsThreadGroupLeader C
     in obind (if is_group_leader then GetThreadGroupSize (k_tcbs k) c else Done 1) (\<lambda>_.
        obind (LeaveThreadGroup (k_tcbs k) c) (\<lambda>h.
        if is_group_leader then ReparentChildren me (Some c) (k\<lparr>k_tcbs := h\<rparr>) else Done (k\<lparr>k_tcbs := h\<rparr>)))))"

definition Exit_settle :: "size_t \<Rightarrow> tptr \<Rightarrow> kernel \<Rightarrow> kernel outcome" where
  "Exit_settle me c k =
     obind (get_tcb k c) (\<lambda>C.
     if t_parent_pid C \<noteq> 0
     then obind (upd_tcb k c (set_status kZombie)) (Wakeup me (mk_ResourceId kChildExit (t_parent_pid C)))
     else obind (upd_tcb k c (set_status kExited)) (ReapTask me (Some c)))"

definition Exit :: "size_t \<Rightarrow> int \<Rightarrow> kernel \<Rightarrow> kernel outcome" where
  "Exit me code k = (case GetCurrentTask me k of
     None \<Rightarrow> Fault (AssertFailed ''Exit: No current task to exit'')
   | Some c \<Rightarrow>
       obind (get_tcb k c) (\<lambda>C.
       nk_assert_msg (t_status C = kRunning) ''Exit: current task status must be kRunning'' (
       obind (guard_cpu me k) (\<lambda>k.
       obind (Exit_leave me c code k) (\<lambda>k.
       obind (Exit_settle me c k) (\<lambda>k.
       Schedule me (unguard_cpu me k)))))))"

subsection \<open>Wait\<close>

definition pid_match :: "Pid \<Rightarrow> TaskControlBlock \<Rightarrow> TaskControlBlock \<Rightarrow> bool" where
  "pid_match pid T C =
     (let is_child = (t_parent_pid T = t_pid C)
      in if pid = - 1 then is_child
         else if pid = 0 then is_child \<and> t_pgid T = t_pgid C
         else if pid > 0 then is_child \<and> t_pid T = pid
         else is_child \<and> t_pgid T = - pid)"

datatype scan = NoChild | Target tptr | Stopped Pid

text \<open>The loop over the task table.\<close>

fun wait_scan :: "(Pid \<times> tptr option) list \<Rightarrow> Pid \<Rightarrow> bool \<Rightarrow> TaskControlBlock \<Rightarrow> kernel \<Rightarrow> scan outcome" where
  "wait_scan [] pid untraced C k = Done NoChild"
| "wait_scan ((p, None) # es) pid untraced C k = Fault NullDeref"
| "wait_scan ((p, Some t) # es) pid untraced C k =
     obind (get_tcb k t) (\<lambda>T.
     if \<not> pid_match pid T C then wait_scan es pid untraced C k
     else if t_status T = kZombie \<or> t_status T = kExited then Done (Target t)
     else if untraced \<and> t_status T = kBlocked then Done (Stopped (t_pid T))
     else wait_scan es pid untraced C k)"

text \<open>\<open>delete task\<close> with the release of its page table.\<close>

definition delete_task :: "tptr \<Rightarrow> world \<Rightarrow> world outcome" where
  "delete_task t w =
     obind (get_tcb (w_kernel w) t) (\<lambda>T.
     obind (delete_TaskControlBlock t (w_kernel w)) (\<lambda>k.
     obind (if t_page_table T \<noteq> 0
            then DestroyPageDirectory (t_page_table T) (\<not> has_flag (t_clone_flags T) kCloneVm) (w_vm w)
            else Done (w_vm w)) (\<lambda>v.
     Done (w\<lparr>w_kernel := k, w_vm := v\<rparr>))))"

text \<open>
  One round of the loop of \<open>Wait\<close>: it returns a pid, with the value written through
  \<open>status\<close> if that is not null, or the task blocks, and the next round runs when it is
  switched to again.
\<close>

datatype wait_result = Returned Pid "int option" | Blocked

definition Wait_reap :: "size_t \<Rightarrow> tptr \<Rightarrow> bool \<Rightarrow> TaskControlBlock \<Rightarrow> world \<Rightarrow> (wait_result \<times> world) outcome" where
  "Wait_reap me t status C w =
     obind (get_tcb (w_kernel w) t) (\<lambda>T.
     nk_assert_msg (t_status T = kZombie \<or> t_status T = kExited) ''Wait: target task must be kZombie or kExited'' (
     nk_assert_msg (t_parent_pid T = t_pid C) ''Wait: target parent_pid must match current pid'' (
     obind (guard_table me (w_kernel w)) (\<lambda>k.
     nk_assert_msg (um_find hash_u64 (k_task_table k) (t_pid T) \<noteq> None) ''Wait: target must exist in task_table'' (
     let k = unguard_table me (k\<lparr>k_task_table := fst (um_erase hash_u64 (k_task_table k) (t_pid T))\<rparr>)
     in obind (delete_task t (w\<lparr>w_kernel := k\<rparr>)) (\<lambda>w.
        Done (Returned (t_pid T) (if status then Some (t_exit_code T) else None), w)))))))"

definition Wait :: "size_t \<Rightarrow> Pid \<Rightarrow> bool \<Rightarrow> bool \<Rightarrow> bool \<Rightarrow> world \<Rightarrow> (wait_result \<times> world) outcome" where
  "Wait me pid status no_hang untraced w = (case GetCurrentTask me (w_kernel w) of
     None \<Rightarrow> Fault (AssertFailed ''Wait: No current task'')
   | Some c \<Rightarrow>
       obind (get_tcb (w_kernel w) c) (\<lambda>C.
       nk_assert_msg (t_status C = kRunning) ''Wait: current task status must be kRunning'' (
       obind (guard_table me (w_kernel w)) (\<lambda>k.
       obind (wait_scan (um_entries (k_task_table k)) pid untraced C k) (\<lambda>r.
       let w = w\<lparr>w_kernel := unguard_table me k\<rparr>
       in case r of
            Stopped p \<Rightarrow> Done (Returned p (if status then Some 0 else None), w)
          | Target t \<Rightarrow> Wait_reap me t status C w
          | NoChild \<Rightarrow>
              if no_hang then Done (Returned 0 None, w)
              else obind (Block me (mk_ResourceId kChildExit (t_pid C)) (w_kernel w)) (\<lambda>k.
                   Done (Blocked, w\<lparr>w_kernel := k\<rparr>)))))))"

subsection \<open>Clone\<close>

text \<open>A thread needs \<open>kCloneVm\<close>, \<open>kCloneFiles\<close> and \<open>kCloneSighand\<close>; what is missing is added.\<close>

definition complete_flags :: "u64 \<Rightarrow> u64" where
  "complete_flags flags =
     (if has_flag flags kCloneThread \<and>
         (\<not> has_flag flags kCloneVm \<or> \<not> has_flag flags kCloneFiles \<or> \<not> has_flag flags kCloneSighand)
      then flags OR (kCloneVm OR kCloneFiles OR kCloneSighand) else flags)"

definition child_fields :: "TaskControlBlock \<Rightarrow> Pid \<Rightarrow> u64 \<Rightarrow> TaskControlBlock" where
  "child_fields P new_pid flags =
     default_TaskControlBlock\<lparr>t_pid := new_pid, t_name := t_name P, t_status := kReady, t_policy := t_policy P,
       t_sched_info := t_sched_info P,
       t_parent_pid := (if has_flag flags kCloneParent then t_parent_pid P else t_pid P),
       t_tgid := (if has_flag flags kCloneThread then t_tgid P else new_pid),
       t_pgid := t_pgid P, t_sid := t_sid P\<rparr>"

text \<open>The group of a new thread.\<close>

definition Clone_group :: "size_t \<Rightarrow> tptr \<Rightarrow> tptr \<Rightarrow> TaskControlBlock \<Rightarrow> u64 \<Rightarrow> kernel \<Rightarrow> kernel outcome" where
  "Clone_group me child par P flags k =
     (if \<not> has_flag flags kCloneThread then Done k
      else if IsThreadGroupLeader P
      then obind (JoinThreadGroup (k_tcbs k) child (Some par)) (\<lambda>h. Done (k\<lparr>k_tcbs := h\<rparr>))
      else obind (FindTask me (t_tgid P) k) (\<lambda>(leader, k). case leader of
             Some l \<Rightarrow> obind (JoinThreadGroup (k_tcbs k) child (Some l)) (\<lambda>h. Done (k\<lparr>k_tcbs := h\<rparr>))
           | None \<Rightarrow> upd_tcb k child (\<lambda>T. T\<lparr>t_tgid := t_tgid P\<rparr>)))"

text \<open>The address space: shared, copied, or none. \<open>None\<close> is the failed copy.\<close>

definition Clone_vm :: "TaskControlBlock \<Rightarrow> u64 \<Rightarrow> vm \<Rightarrow> (u64 option \<times> vm) outcome" where
  "Clone_vm P flags v =
     (if has_flag flags kCloneVm then Done (Some (t_page_table P), v)
      else if t_page_table P \<noteq> 0
      then obind (ClonePageDirectory (t_page_table P) True v) (\<lambda>(r, v).
           Done (case r of Inl e \<Rightarrow> None | Inr d \<Rightarrow> Some d, v))
      else Done (Some 0, v))"

text \<open>The stack, the trap context and the ids written for the parent and the child.\<close>

definition Clone_context :: "tptr \<Rightarrow> u64 \<Rightarrow> Pid \<Rightarrow> u64 \<Rightarrow> u64 \<Rightarrow> u64 \<Rightarrow> u64 \<Rightarrow> u64 \<Rightarrow> world \<Rightarrow> world outcome" where
  "Clone_context child tc_size new_pid stack user_stack parent_tid child_tid tls w =
     obind (upd_tcb (w_kernel w) child (\<lambda>T. T\<lparr>t_trap_context_ptr := stack + kDefaultKernelStackSize - tc_size\<rparr>)) (\<lambda>k.
     let w = w\<lparr>w_kernel := k\<rparr>;
         w = (if user_stack \<noteq> 0 then w\<lparr>w_UserStackPointer := user_stack\<rparr> else w);
         w = (if tls \<noteq> 0 then w\<lparr>w_ThreadPointer := tls\<rparr> else w);
         w = w\<lparr>w_ReturnValue := new_pid\<rparr>;
         w = w\<lparr>w_ReturnValue := 0\<rparr>;
         w = (if parent_tid \<noteq> 0 then w\<lparr>w_ints := (w_ints w)(parent_tid := ucast new_pid)\<rparr> else w);
         w = (if child_tid \<noteq> 0 then w\<lparr>w_ints := (w_ints w)(child_tid := ucast new_pid)\<rparr> else w)
     in Done w)"

definition Clone_publish :: "size_t \<Rightarrow> tptr \<Rightarrow> Pid \<Rightarrow> kernel \<Rightarrow> kernel outcome" where
  "Clone_publish me child new_pid k =
     obind (guard_table me k) (\<lambda>k.
     nk_assert_msg (um_find hash_u64 (k_task_table k) new_pid = None) ''Clone: new_pid must not exist in task_table'' (
     AddTask me (Some child) (unguard_table me (store_task k new_pid child))))"

text \<open>From the allocation of the kernel stack on.\<close>

definition Clone_finish :: "size_t \<Rightarrow> tptr \<Rightarrow> u64 \<Rightarrow> Pid \<Rightarrow> u64 \<Rightarrow> u64 \<Rightarrow> u64 \<Rightarrow> u64 \<Rightarrow> u64 \<Rightarrow> u64 \<Rightarrow> u64 \<Rightarrow> world \<Rightarrow> (Pid Expected \<times> world) outcome" where
  "Clone_finish me c d new_pid stack tc_size flags user_stack parent_tid child_tid tls w =
     obind (upd_tcb (w_kernel w) c (\<lambda>T. T\<lparr>t_page_table := d, t_kernel_stack := stack\<rparr>)) (\<lambda>k.
     if stack = 0 then
       obind (if d \<noteq> 0 \<and> \<not> has_flag flags kCloneVm then DestroyPageDirectory d False (w_vm w) else Done (w_vm w)) (\<lambda>v.
       obind (delete_task c (w\<lparr>w_kernel := k, w_vm := v\<rparr>)) (\<lambda>w.
       Done (Inl kTaskKernelStackAllocationFailed, w)))
     else
       obind (Clone_context c tc_size new_pid stack user_stack parent_tid child_tid tls (w\<lparr>w_kernel := k\<rparr>)) (\<lambda>w.
       obind (Clone_publish me c new_pid (w_kernel w)) (\<lambda>k.
       Done (Inr new_pid, w\<lparr>w_kernel := k\<rparr>))))"

text \<open>
  \<open>child\<close> is what \<open>new TaskControlBlock\<close> returns (\<open>None\<close> for null), \<open>stack\<close> what
  \<open>aligned_alloc\<close> returns for the kernel stack, \<open>tc_size\<close> is \<open>sizeof(TrapContext)\<close>.
\<close>

definition Clone :: "size_t \<Rightarrow> tptr option \<Rightarrow> u64 \<Rightarrow> u64 \<Rightarrow> u64 \<Rightarrow> u64 \<Rightarrow> u64 \<Rightarrow> u64 \<Rightarrow> u64 \<Rightarrow> world \<Rightarrow> (Pid Expected \<times> world) outcome" where
  "Clone me child stack tc_size flags user_stack parent_tid child_tid tls w =
     (case GetCurrentTask me (w_kernel w) of
        None \<Rightarrow> Done (Inl kTaskNoCurrentTask, w)
      | Some par \<Rightarrow>
          let flags = complete_flags flags; (new_pid, k) = AllocatePid (w_kernel w)
          in if new_pid = 0 then Done (Inl kTaskPidAllocationFailed, w\<lparr>w_kernel := k\<rparr>)
          else case child of
            None \<Rightarrow> Done (Inl kTaskAllocationFailed, w\<lparr>w_kernel := k\<rparr>)
          | Some c \<Rightarrow>
              obind (get_tcb k par) (\<lambda>P.
              obind (Clone_group me c par P flags (k\<lparr>k_tcbs := (k_tcbs k)(c \<mapsto> child_fields P new_pid flags)\<rparr>)) (\<lambda>k.
              obind (upd_tcb k c (\<lambda>T. T\<lparr>t_clone_flags := flags\<rparr>)) (\<lambda>k.
              obind (Clone_vm P flags (w_vm w)) (\<lambda>(pt, v). case pt of
                None \<Rightarrow> obind (delete_task c (w\<lparr>w_kernel := k, w_vm := v\<rparr>)) (\<lambda>w. Done (Inl kTaskPageTableCloneFailed, w))
              | Some d \<Rightarrow>
                  Clone_finish me c d new_pid stack tc_size flags user_stack parent_tid child_tid tls
                    (w\<lparr>w_kernel := k, w_vm := v\<rparr>))))))"

end
