(* ===== verification/Page_Tree.thy ===== *)
theory Page_Tree
  imports Virtual_Memory
begin

text \<open>
  The tree behind the page tables. \<open>tables\<close> are the pages of a tree of a given height,
  \<open>tree\<close> says that they are allocated and that no page occurs twice, \<open>look\<close> reads the
  leaf entry for the page numbers of an address. The lemmas say how the tree changes when a
  leaf entry is written and when \<open>FindPageTableEntry\<close> adds tables on its way down.
\<close>

subsection \<open>Trees of tables\<close>

definition kid :: "(u64 \<rightharpoonup> page) \<Rightarrow> u64 \<Rightarrow> nat \<Rightarrow> u64 option" where
  "kid P t i = (case P t of
     None \<Rightarrow> None
   | Some es \<Rightarrow> if i < kEntriesPerTable \<and> IsPageTableEntryValid (es i) then Some (PageTableEntryToPhysical (es i)) else None)"

primrec tables :: "nat \<Rightarrow> (u64 \<rightharpoonup> page) \<Rightarrow> u64 \<Rightarrow> u64 set" where
  "tables 0 P t = {t}"
| "tables (Suc l) P t = insert t (\<Union>i. case kid P t i of None \<Rightarrow> {} | Some c \<Rightarrow> tables l P c)"

primrec tree :: "nat \<Rightarrow> (u64 \<rightharpoonup> page) \<Rightarrow> u64 \<Rightarrow> bool" where
  "tree 0 P t \<longleftrightarrow> P t \<noteq> None"
| "tree (Suc l) P t \<longleftrightarrow> P t \<noteq> None \<and>
     (\<forall>i c. kid P t i = Some c \<longrightarrow> tree l P c \<and> t \<notin> tables l P c) \<and>
     (\<forall>i j c d. kid P t i = Some c \<longrightarrow> kid P t j = Some d \<longrightarrow> i \<noteq> j \<longrightarrow> tables l P c \<inter> tables l P d = {})"

primrec leaf :: "nat \<Rightarrow> (u64 \<rightharpoonup> page) \<Rightarrow> u64 \<Rightarrow> (nat \<Rightarrow> nat) \<Rightarrow> u64 option" where
  "leaf 0 P t f = Some t"
| "leaf (Suc l) P t f = (case kid P t (f (Suc l)) of None \<Rightarrow> None | Some c \<Rightarrow> leaf l P c f)"

definition look :: "nat \<Rightarrow> (u64 \<rightharpoonup> page) \<Rightarrow> u64 \<Rightarrow> (nat \<Rightarrow> nat) \<Rightarrow> u64 option" where
  "look l P t f = (case leaf l P t f of None \<Rightarrow> None | Some x \<Rightarrow> map_option (\<lambda>es. es (f 0)) (P x))"

lemma look_Suc: "look (Suc l) P t f = (case kid P t (f (Suc l)) of None \<Rightarrow> None | Some c \<Rightarrow> look l P c f)"
  by (simp add: look_def split: option.split)

lemma look_0: "look 0 P t f = map_option (\<lambda>es. es (f 0)) (P t)"
  by (simp add: look_def)

lemma root_tables: "t \<in> tables l P t"
  by (cases l) simp_all

lemma tree_root: "tree l P t \<Longrightarrow> P t \<noteq> None"
  by (cases l) simp_all

lemma tables_kid:
  assumes "kid P t i = Some c"
  shows "tables l P c \<subseteq> tables (Suc l) P t"
proof
  fix x assume "x \<in> tables l P c"
  with assms have "x \<in> (case kid P t i of None \<Rightarrow> {} | Some c \<Rightarrow> tables l P c)" by simp
  then show "x \<in> tables (Suc l) P t" by (simp del: option.case) blast
qed

lemma tables_SucE:
  assumes "x \<in> tables (Suc l) P t" "x \<noteq> t"
  obtains i c where "kid P t i = Some c" "x \<in> tables l P c"
  using assms by (auto split: option.splits)

lemma tree_kid: "tree (Suc l) P t \<Longrightarrow> kid P t i = Some c \<Longrightarrow> tree l P c \<and> t \<notin> tables l P c"
  by auto

lemma tree_disjoint:
  "tree (Suc l) P t \<Longrightarrow> kid P t i = Some c \<Longrightarrow> kid P t j = Some d \<Longrightarrow> i \<noteq> j \<Longrightarrow> tables l P c \<inter> tables l P d = {}"
  by simp

lemma tree_SucI:
  assumes "P t \<noteq> None" "\<And>i c. kid P t i = Some c \<Longrightarrow> tree l P c \<and> t \<notin> tables l P c"
    and "\<And>i j c d. kid P t i = Some c \<Longrightarrow> kid P t j = Some d \<Longrightarrow> i \<noteq> j \<Longrightarrow> tables l P c \<inter> tables l P d = {}"
  shows "tree (Suc l) P t"
  using assms by simp

lemma kid_cong: "Q t = P t \<Longrightarrow> kid Q t = kid P t"
  by (rule ext) (simp add: kid_def)

text \<open>Everything depends on the pages of the tree only.\<close>

lemma tree_cong:
  assumes "\<And>x. x \<in> tables l P t \<Longrightarrow> Q x = P x"
  shows "tables l Q t = tables l P t" "tree l Q t = tree l P t" "leaf l Q t = leaf l P t" "look l Q t = look l P t"
proof -
  have "tables l Q t = tables l P t \<and> tree l Q t = tree l P t \<and> leaf l Q t = leaf l P t \<and> look l Q t = look l P t"
    using assms
  proof (induction l arbitrary: t)
    case 0 then show ?case by (auto simp: look_def fun_eq_iff)
  next
    case (Suc l)
    have k: "kid Q t = kid P t" by (rule kid_cong) (simp add: Suc.prems)
    have IH: "tables l Q c = tables l P c" "tree l Q c = tree l P c" "leaf l Q c = leaf l P c" "look l Q c = look l P c"
      if "kid P t i = Some c" for i c
      using Suc.IH [of c] Suc.prems tables_kid [OF that, of l] by blast+
    have "tables (Suc l) Q t = tables (Suc l) P t"
      using IH(1) by (auto simp: k split: option.splits)
    moreover have "tree (Suc l) Q t = tree (Suc l) P t"
      using IH(1,2) Suc.prems [OF root_tables] by (simp add: k)
    moreover have "leaf (Suc l) Q t = leaf (Suc l) P t" "look (Suc l) Q t = look (Suc l) P t"
      using IH(3,4) by (auto simp: k look_Suc fun_eq_iff split: option.splits)
    ultimately show ?case by blast
  qed
  then show "tables l Q t = tables l P t" "tree l Q t = tree l P t" "leaf l Q t = leaf l P t" "look l Q t = look l P t"
    by auto
qed

lemma leaf_tables: "leaf l P t f = Some x \<Longrightarrow> x \<in> tables l P t"
proof (induction l arbitrary: t)
  case (Suc l)
  then obtain c where c: "kid P t (f (Suc l)) = Some c" "leaf l P c f = Some x" by (auto split: option.splits)
  with Suc.IH tables_kid [OF c(1), of l] show ?case by blast
qed simp

lemma leaf_allocated: "tree l P t \<Longrightarrow> leaf l P t f = Some x \<Longrightarrow> P x \<noteq> None"
proof (induction l arbitrary: t)
  case (Suc l)
  then obtain c where "kid P t (f (Suc l)) = Some c" "leaf l P c f = Some x" by (auto split: option.splits)
  with Suc.IH tree_kid [OF Suc.prems(1)] show ?case by blast
qed simp

lemma leaf_path: "\<forall>j\<le>l. f j = g j \<Longrightarrow> leaf l P t f = leaf l P t g"
proof (induction l arbitrary: t)
  case (Suc l)
  then have "leaf l P c f = leaf l P c g" for c by simp
  with Suc.prems show ?case by (simp split: option.split)
qed simp

subsection \<open>Writing a leaf entry\<close>

lemma tree_write_leaf:
  fixes w :: u64
  assumes "tree l P t" "leaf l P t f = Some x" "P x = Some es" "f 0 < kEntriesPerTable"
  defines "Q \<equiv> P(x \<mapsto> es(f 0 := w))"
  shows "tables l Q t = tables l P t \<and> tree l Q t \<and> (\<forall>g. leaf l Q t g = leaf l P t g) \<and>
         (\<forall>g. look l Q t g = (if \<forall>j\<le>l. g j = f j then Some w else look l P t g))"
  using assms(1,2)
proof (induction l arbitrary: t)
  case 0
  then show ?case using assms(3) by (auto simp: Q_def look_0)
next
  case (Suc l)
  obtain c where c: "kid P t (f (Suc l)) = Some c" "leaf l P c f = Some x" using Suc.prems(2) by (auto split: option.splits)
  have xc: "x \<in> tables l P c" by (rule leaf_tables [OF c(2)])
  have "t \<noteq> x" using tree_kid [OF Suc.prems(1) c(1)] xc by blast
  then have k: "kid Q t = kid P t" by (intro kid_cong) (simp add: Q_def)
  note IH = Suc.IH [OF conjunct1 [OF tree_kid [OF Suc.prems(1) c(1)]] c(2)]
  have other: "tables l Q d = tables l P d" "tree l Q d = tree l P d" "leaf l Q d = leaf l P d" "look l Q d = look l P d"
    if "kid P t i = Some d" "i \<noteq> f (Suc l)" for i d
  proof -
    have "x \<notin> tables l P d" using tree_disjoint [OF Suc.prems(1) that(1) c(1) that(2)] xc by blast
    then have "y \<in> tables l P d \<Longrightarrow> Q y = P y" for y by (auto simp: Q_def)
    from tree_cong [of l P d Q, OF this] show "tables l Q d = tables l P d" "tree l Q d = tree l P d" "leaf l Q d = leaf l P d"
      "look l Q d = look l P d" by blast+
  qed
  have "tables l Q d = tables l P d \<and> tree l Q d" if "kid P t i = Some d" for i d
  proof (cases "i = f (Suc l)")
    case True with that c(1) IH show ?thesis by simp
  next
    case False with other(1,2) [OF that] tree_kid [OF Suc.prems(1) that] show ?thesis by simp
  qed
  then have tb: "tables l Q d = tables l P d" "tree l Q d" if "kid P t i = Some d" for i d using that by blast+
  have "tables (Suc l) Q t = tables (Suc l) P t" using tb(1) by (auto simp: k split: option.splits)
  moreover have "tree (Suc l) Q t"
  proof (rule tree_SucI)
    show "Q t \<noteq> None" using tree_root [OF Suc.prems(1)] \<open>t \<noteq> x\<close> by (simp add: Q_def)
    show "tree l Q d \<and> t \<notin> tables l Q d" if "kid Q t i = Some d" for i d
      using tb [of i d] tree_kid [OF Suc.prems(1), of i d] that by (simp add: k)
    show "tables l Q d \<inter> tables l Q e = {}" if "kid Q t i = Some d" "kid Q t j = Some e" "i \<noteq> j" for i j d e
      using tb(1) tree_disjoint [OF Suc.prems(1), of i d j e] that by (simp add: k)
  qed
  moreover have "leaf (Suc l) Q t g = leaf (Suc l) P t g" for g
    using IH other(3) c(1) by (cases "g (Suc l) = f (Suc l)") (auto simp: k split: option.splits)
  moreover have "look (Suc l) Q t g = (if \<forall>j\<le>Suc l. g j = f j then Some w else look (Suc l) P t g)" for g
    using IH other(4) c(1) by (cases "g (Suc l) = f (Suc l)") (auto simp: k look_Suc le_Suc_eq split: option.splits)
  ultimately show ?case by blast
qed

subsection \<open>Replacing one subtree\<close>

lemma tables_allocated: "tree l P t \<Longrightarrow> x \<in> tables l P t \<Longrightarrow> P x \<noteq> None"
proof (induction l arbitrary: t)
  case (Suc l)
  show ?case
  proof (cases "x = t")
    case True then show ?thesis using tree_root [OF Suc.prems(1)] by simp
  next
    case False
    with Suc.prems(2) obtain i c where "kid P t i = Some c" "x \<in> tables l P c" by (rule tables_SucE)
    with Suc.IH tree_kid [OF Suc.prems(1)] show ?thesis by blast
  qed
qed simp

lemma tables_Suc_iff: "x \<in> tables (Suc l) P t \<longleftrightarrow> x = t \<or> (\<exists>i c. kid P t i = Some c \<and> x \<in> tables l P c)"
  using tables_kid tables_SucE root_tables by (metis subsetD)

lemma tree_replace:
  assumes "tree (Suc l) P t" "Q t \<noteq> None" "kid Q t = (kid P t)(i \<mapsto> c)" "tree l Q c" "t \<notin> tables l Q c"
    and "\<forall>j d y. kid P t j = Some d \<longrightarrow> j \<noteq> i \<longrightarrow> y \<in> tables l P d \<longrightarrow> Q y = P y \<and> y \<notin> tables l Q c"
  shows "tree (Suc l) Q t"
    and "x \<in> tables (Suc l) Q t \<longleftrightarrow> x = t \<or> x \<in> tables l Q c \<or> (\<exists>j d. j \<noteq> i \<and> kid P t j = Some d \<and> x \<in> tables l P d)"
    and "leaf (Suc l) Q t g = (if g (Suc l) = i then leaf l Q c g else leaf (Suc l) P t g)"
    and "look (Suc l) Q t g = (if g (Suc l) = i then look l Q c g else look (Suc l) P t g)"
proof -
  have same: "tables l Q d = tables l P d" "tree l Q d = tree l P d" "leaf l Q d = leaf l P d" "look l Q d = look l P d"
    if "kid P t j = Some d" "j \<noteq> i" for j d
    using tree_cong [of l P d Q] assms(6) that by blast+
  have k: "kid Q t j = Some d \<longleftrightarrow> (if j = i then d = c else kid P t j = Some d)" for j d using assms(3) by auto
  have dj: "tables l Q d \<inter> tables l Q c = {}" if "kid P t j = Some d" "j \<noteq> i" for j d
    using assms(6) that same(1) [OF that] by blast
  show "tree (Suc l) Q t"
  proof (rule tree_SucI)
    show "Q t \<noteq> None" by (rule assms(2))
    show "tree l Q d \<and> t \<notin> tables l Q d" if "kid Q t j = Some d" for j d
      using that assms(4,5) same [of j d] tree_kid [OF assms(1), of j d] by (cases "j = i") (simp_all add: k)
    show "tables l Q d \<inter> tables l Q e = {}" if de: "kid Q t j = Some d" "kid Q t m = Some e" "j \<noteq> m" for j m d e
    proof -
      consider "j = i" "d = c" "m \<noteq> i" "kid P t m = Some e" | "m = i" "e = c" "j \<noteq> i" "kid P t j = Some d"
        | "j \<noteq> i" "m \<noteq> i" "kid P t j = Some d" "kid P t m = Some e"
        using de by (auto simp: k split: if_splits)
      then show ?thesis
      proof cases
        case 1 with dj [of m e] show ?thesis by (simp add: Int_commute)
      next
        case 2 with dj [of j d] show ?thesis by simp
      next
        case 3
        with tree_disjoint [OF assms(1) 3(3,4) de(3)] same(1) show ?thesis by metis
      qed
    qed
  qed
  show "x \<in> tables (Suc l) Q t \<longleftrightarrow> x = t \<or> x \<in> tables l Q c \<or> (\<exists>j d. j \<noteq> i \<and> kid P t j = Some d \<and> x \<in> tables l P d)"
  proof -
    have "(\<exists>j d. kid Q t j = Some d \<and> x \<in> tables l Q d) \<longleftrightarrow>
        x \<in> tables l Q c \<or> (\<exists>j d. j \<noteq> i \<and> kid P t j = Some d \<and> x \<in> tables l P d)" (is "?L \<longleftrightarrow> ?R")
    proof
      assume ?L
      then obtain j d where jd: "kid Q t j = Some d" "x \<in> tables l Q d" by blast
      then show ?R using same(1) [of j d] by (cases "j = i") (auto simp: k)
    next
      assume ?R
      then show ?L
      proof (elim disjE exE conjE)
        assume "x \<in> tables l Q c" then show ?L by (intro exI [of _ i] exI [of _ c]) (simp add: k)
      next
        fix j d assume "j \<noteq> i" "kid P t j = Some d" "x \<in> tables l P d"
        then show ?L using same(1) [of j d] by (intro exI [of _ j] exI [of _ d]) (simp add: k)
      qed
    qed
    then show ?thesis unfolding tables_Suc_iff by blast
  qed
  show "leaf (Suc l) Q t g = (if g (Suc l) = i then leaf l Q c g else leaf (Suc l) P t g)"
    "look (Suc l) Q t g = (if g (Suc l) = i then look l Q c g else look (Suc l) P t g)"
    using same(3,4) by (auto simp: assms(3) look_Suc split: option.splits)
qed

subsection \<open>FindPageTableEntry\<close>

text \<open>
  What the kernel's heap promises for the pages it hands out: not null, aligned and within the
  range of an entry, and not in use.
\<close>

definition heap_ok :: "vm \<Rightarrow> bool" where
  "heap_ok v \<longleftrightarrow> distinct (v_alloc v) \<and> (\<forall>a\<in>set (v_alloc v). a \<noteq> 0 \<longrightarrow> frame_addr a \<and> v_pages v a = None)"

definition mapped :: "nat \<Rightarrow> (u64 \<rightharpoonup> page) \<Rightarrow> u64 \<Rightarrow> (nat \<Rightarrow> nat) \<Rightarrow> u64 option" where
  "mapped l P t f = (case look l P t f of None \<Rightarrow> None | Some e \<Rightarrow> if IsPageTableEntryValid e then Some e else None)"

text \<open>A new table is empty.\<close>

lemma zero_page:
  assumes "P a = Some (\<lambda>_. 0)"
  shows "kid P a i = None" "tree l P a" "tables l P a = {a}" "mapped l P a g = None"
  using assms by (cases l; simp add: kid_def mapped_def look_Suc look_0)+

lemma kid_valid:
  "P t = Some es \<Longrightarrow> i < kEntriesPerTable \<Longrightarrow>
   kid P t i = (if IsPageTableEntryValid (es i) then Some (PageTableEntryToPhysical (es i)) else None)"
  by (simp add: kid_def)

lemma kid_write:
  "P t = Some es \<Longrightarrow> i < kEntriesPerTable \<Longrightarrow> frame_addr a \<Longrightarrow>
   kid (P(t \<mapsto> es(i := PhysicalToPageTableEntry a GetTableEntryPermissions))) t = (kid P t)(i \<mapsto> a)"
  by (rule ext) (auto simp: kid_def IsPageTableEntryValid_pack PageTableEntryToPhysical_pack)

text \<open>
  What a walk that may allocate does to the pages: it keeps the tree and the mappings, and it
  changes pages of the tree and unused pages only.
\<close>

definition grows :: "nat \<Rightarrow> u64 \<Rightarrow> vm \<Rightarrow> vm \<Rightarrow> bool" where
  "grows l t v v' \<longleftrightarrow> heap_ok v' \<and> tree l (v_pages v') t \<and>
     tables l (v_pages v) t \<subseteq> tables l (v_pages v') t \<and>
     (\<forall>x\<in>tables l (v_pages v') t. x \<in> tables l (v_pages v) t \<or> v_pages v x = None) \<and>
     (\<forall>x. x \<notin> tables l (v_pages v) t \<longrightarrow> v_pages v x \<noteq> None \<longrightarrow> v_pages v' x = v_pages v x) \<and>
     dom (v_pages v) \<subseteq> dom (v_pages v') \<and>
     (\<forall>g. mapped l (v_pages v') t g = mapped l (v_pages v) t g) \<and>
     v_freed v' = v_freed v \<and> v_kernel_page_dir v' = v_kernel_page_dir v"

lemma growsD:
  assumes "grows l t v v'"
  shows "heap_ok v'" "tree l (v_pages v') t" "tables l (v_pages v) t \<subseteq> tables l (v_pages v') t"
    "x \<in> tables l (v_pages v') t \<Longrightarrow> x \<in> tables l (v_pages v) t \<or> v_pages v x = None"
    "x \<notin> tables l (v_pages v) t \<Longrightarrow> v_pages v x \<noteq> None \<Longrightarrow> v_pages v' x = v_pages v x"
    "v_pages v x \<noteq> None \<Longrightarrow> v_pages v' x \<noteq> None" "mapped l (v_pages v') t g = mapped l (v_pages v) t g"
    "v_freed v' = v_freed v" "v_kernel_page_dir v' = v_kernel_page_dir v"
  using assms unfolding grows_def dom_def by simp_all blast+

lemma mapped_Suc: "mapped (Suc l) P t g = (case kid P t (g (Suc l)) of None \<Rightarrow> None | Some c \<Rightarrow> mapped l P c g)"
  by (simp add: mapped_def look_Suc split: option.split)

text \<open>One level up from a subtree that has grown.\<close>

lemma grows_kid:
  assumes "tree (Suc l) (v_pages v) t" "kid (v_pages v) t i = Some c" "grows l c v v'"
  shows "grows (Suc l) t v v'" "leaf (Suc l) (v_pages v') t g = (if g (Suc l) = i then leaf l (v_pages v') c g else leaf (Suc l) (v_pages v) t g)"
proof -
  let ?P = "v_pages v" and ?Q = "v_pages v'"
  note G = growsD [OF assms(3)]
  note kd = tree_kid [OF assms(1,2)]
  have "?Q y = ?P y \<and> y \<notin> tables l ?Q c" if "kid ?P t j = Some d" "j \<noteq> i" "y \<in> tables l ?P d" for j d y
  proof -
    have a: "?P y \<noteq> None" using tables_allocated tree_kid [OF assms(1) that(1)] that(3) by blast
    have "y \<notin> tables l ?P c" using tree_disjoint [OF assms(1) that(1) assms(2) that(2)] that(3) by blast
    with G(4) [of y] G(5) [of y] a show ?thesis by auto
  qed
  then have same: "\<forall>j d y. kid ?P t j = Some d \<longrightarrow> j \<noteq> i \<longrightarrow> y \<in> tables l ?P d \<longrightarrow> ?Q y = ?P y \<and> y \<notin> tables l ?Q c"
    by blast
  have tt: "?P t \<noteq> None" "t \<notin> tables l ?P c" using tree_root [OF assms(1)] kd by auto
  have qt: "?Q t = ?P t" "t \<notin> tables l ?Q c" using G(5) [OF tt(2,1)] G(4) [of t] tt by auto
  have k: "kid ?Q t = (kid ?P t)(i \<mapsto> c)" using kid_cong [of ?Q t ?P] qt(1) assms(2) by auto
  have ne: "?Q t \<noteq> None" using qt(1) tt(1) by simp
  note R = tree_replace [where l = l and P = ?P and t = t and Q = ?Q and i = i and c = c, OF assms(1) ne k G(2) qt(2) same]
  have mem: "x \<in> tables (Suc l) ?Q t \<longleftrightarrow> x = t \<or> x \<in> tables l ?Q c \<or> (\<exists>j d. j \<noteq> i \<and> kid ?P t j = Some d \<and> x \<in> tables l ?P d)" for x
    by (rule R(2))
  have "x \<in> tables (Suc l) ?Q t" if x: "x \<in> tables (Suc l) ?P t" for x
  proof (cases "x = t")
    case False
    with x obtain j d where d: "kid ?P t j = Some d" "x \<in> tables l ?P d" by (rule tables_SucE)
    show ?thesis using d G(3) assms(2) unfolding mem by (cases "j = i") auto
  qed (simp add: root_tables del: tables.simps)
  then have "tables (Suc l) ?P t \<subseteq> tables (Suc l) ?Q t" by blast
  moreover have "x \<in> tables (Suc l) ?P t \<or> ?P x = None" if x: "x \<in> tables (Suc l) ?Q t" for x
  proof -
    consider "x = t" | "x \<in> tables l ?Q c" | j d where "kid ?P t j = Some d" "x \<in> tables l ?P d"
      using x unfolding mem by blast
    then show ?thesis
    proof cases
      case 1 then show ?thesis using root_tables by blast
    next
      case 2 then show ?thesis using G(4) [of x] tables_kid [OF assms(2), of l] by (auto simp del: tables.simps)
    next
      case 3 then show ?thesis using tables_kid by blast
    qed
  qed
  moreover have "?Q x = ?P x" if "x \<notin> tables (Suc l) ?P t" "?P x \<noteq> None" for x
    using G(5) [of x] that tables_kid [OF assms(2), of l] by blast
  moreover have "mapped (Suc l) ?Q t g = mapped (Suc l) ?P t g" for g
    using R(4) [of g] G(7) [of g] assms(2) by (auto simp: mapped_def look_Suc)
  moreover have "dom ?P \<subseteq> dom ?Q" using G(6) by blast
  ultimately show "grows (Suc l) t v v'" unfolding grows_def using R(1) G(1,8,9) by (simp del: tables.simps tree.simps)
  show "leaf (Suc l) ?Q t g = (if g (Suc l) = i then leaf l ?Q c g else leaf (Suc l) ?P t g)" by (rule R(3))
qed

lemma grows_refl: "heap_ok v \<Longrightarrow> tree l (v_pages v) t \<Longrightarrow> grows l t v v"
  by (simp add: grows_def)

text \<open>A new, empty table under a free entry.\<close>

definition hang_table :: "vm \<Rightarrow> u64 \<Rightarrow> nat \<Rightarrow> u64 \<Rightarrow> u64 list \<Rightarrow> vm" where
  "hang_table v t i a as = v\<lparr>v_alloc := as, v_pages := ((v_pages v)(a \<mapsto> (\<lambda>_. 0)))
     (t \<mapsto> (the (v_pages v t))(i := PhysicalToPageTableEntry a GetTableEntryPermissions))\<rparr>"

lemma hang_table_ok:
  assumes "tree (Suc l) (v_pages v) t" "heap_ok v" "v_alloc v = a # as" "a \<noteq> 0"
    and "kid (v_pages v) t i = None" "i < kEntriesPerTable"
  shows "grows (Suc l) t v (hang_table v t i a as)" "kid (v_pages (hang_table v t i a as)) t i = Some a"
proof -
  let ?P = "v_pages v" and ?v = "hang_table v t i a as"
  obtain es where es: "?P t = Some es" using tree_root [OF assms(1)] by blast
  have a: "frame_addr a" "?P a = None" using assms(2-4) by (auto simp: heap_ok_def)
  have ta: "t \<noteq> a" using es a(2) by auto
  have Q: "v_pages ?v = (?P(a \<mapsto> (\<lambda>_. 0)))(t \<mapsto> es(i := PhysicalToPageTableEntry a GetTableEntryPermissions))"
    by (simp add: hang_table_def es)
  have k: "kid (v_pages ?v) t = (kid ?P t)(i \<mapsto> a)"
  proof -
    have "kid (?P(a \<mapsto> (\<lambda>_. 0))) t = kid ?P t" by (rule kid_cong) (simp add: ta)
    with kid_write [of "?P(a \<mapsto> (\<lambda>_. 0))" t es i a] es ta assms(6) a(1) show ?thesis by (simp add: Q)
  qed
  have "v_pages ?v a = Some (\<lambda>_. 0)" using ta by (simp add: Q)
  note z = zero_page [of "v_pages ?v" a, OF this]
  have same: "\<forall>j d y. kid ?P t j = Some d \<longrightarrow> j \<noteq> i \<longrightarrow> y \<in> tables l ?P d \<longrightarrow> v_pages ?v y = ?P y \<and> y \<notin> tables l (v_pages ?v) a"
  proof (intro allI impI)
    fix j d y assume d: "kid ?P t j = Some d" "y \<in> tables l ?P d"
    then have "y \<noteq> t" "?P y \<noteq> None" using tree_kid [OF assms(1) d(1)] tables_allocated [of l ?P d y] by auto
    with a(2) have "y \<noteq> t" "y \<noteq> a" by auto
    then show "v_pages ?v y = ?P y \<and> y \<notin> tables l (v_pages ?v) a" by (intro conjI) (simp add: Q, simp add: z(3))
  qed
  have ne: "v_pages ?v t \<noteq> None" by (simp add: Q)
  have nt: "t \<notin> tables l (v_pages ?v) a" using ta by (simp add: z(3))
  note R = tree_replace [where l = l and P = ?P and t = t and Q = "v_pages ?v" and i = i and c = a,
      OF assms(1) ne k z(2) nt same]
  have mem: "x \<in> tables (Suc l) (v_pages ?v) t \<longleftrightarrow> x = t \<or> x = a \<or> (\<exists>j d. j \<noteq> i \<and> kid ?P t j = Some d \<and> x \<in> tables l ?P d)" for x
    using R(2) [of x] z(3) [of l] by (simp del: tables.simps)
  have "x \<in> tables (Suc l) (v_pages ?v) t" if "x \<in> tables (Suc l) ?P t" for x
    using that assms(5) unfolding mem tables_Suc_iff [of x l ?P] by (metis option.distinct(1))
  then have "tables (Suc l) ?P t \<subseteq> tables (Suc l) (v_pages ?v) t" by blast
  moreover have "x \<in> tables (Suc l) ?P t \<or> ?P x = None" if "x \<in> tables (Suc l) (v_pages ?v) t" for x
    using that a(2) root_tables [of t "Suc l" ?P] tables_kid [of ?P t _ _ l] unfolding mem by (auto simp del: tables.simps)
  moreover have "v_pages ?v x = ?P x" if "x \<notin> tables (Suc l) ?P t" "?P x \<noteq> None" for x
    using that a(2) root_tables [of t "Suc l" ?P] by (auto simp: Q simp del: tables.simps)
  moreover have "mapped (Suc l) (v_pages ?v) t g = mapped (Suc l) ?P t g" for g
    using R(4) [of g] assms(5) z(4) [of l g] by (auto simp: mapped_def look_Suc split: option.splits)
  moreover have "heap_ok ?v"
    using assms(2,3) es by (auto simp: heap_ok_def Q) (auto simp: hang_table_def)
  moreover have "dom ?P \<subseteq> dom (v_pages ?v)" by (auto simp: Q)
  moreover have "v_freed ?v = v_freed v" "v_kernel_page_dir ?v = v_kernel_page_dir v" by (simp_all add: hang_table_def)
  ultimately show "grows (Suc l) t v ?v" using R(1) unfolding grows_def by (simp del: tables.simps tree.simps)
  show "kid (v_pages ?v) t i = Some a" by (simp add: k)
qed

lemma grows_trans:
  assumes "grows l t v v1" "grows l t v1 v2"
  shows "grows l t v v2"
proof -
  note A = growsD [OF assms(1)] and B = growsD [OF assms(2)]
  have "x \<in> tables l (v_pages v) t \<or> v_pages v x = None" if "x \<in> tables l (v_pages v2) t" for x
    using A(4) [of x] A(6) [of x] B(4) [OF that] by auto
  moreover have "v_pages v2 x = v_pages v x" if "x \<notin> tables l (v_pages v) t" "v_pages v x \<noteq> None" for x
    using A(5) [OF that] A(4) [of x] A(6) [OF that(2)] B(5) [of x] that by auto
  moreover have "dom (v_pages v) \<subseteq> dom (v_pages v2)" using A(6) B(6) by blast
  ultimately show ?thesis unfolding grows_def using A B by (simp add: subset_trans [OF A(3) B(3)])
qed

lemma find_entry_allocating:
  assumes "tree l (v_pages v) t" "heap_ok v"
  shows "\<exists>r v'. find_entry l t va True v = Done (r, v') \<and> grows l t v v' \<and>
           (case r of Inl e \<Rightarrow> e = kVmAllocationFailed
            | Inr (x, i) \<Rightarrow> leaf l (v_pages v') t (vpn va) = Some x \<and> i = vpn va 0)"
  using assms
proof (induction l arbitrary: t v)
  case 0
  then show ?case using grows_refl [of v 0 t] by (simp del: tables.simps tree.simps)
next
  case (Suc l)
  let ?i = "vpn va (Suc l)"
  have i: "?i < kEntriesPerTable" using vpn_less by (simp add: kEntriesPerTable_def)
  obtain es where es: "v_pages v t = Some es" using tree_root [OF Suc.prems(1)] by blast
  have rd: "read_entry v t ?i = Done (es ?i)" using es by (simp add: read_entry_def)
  have step: ?case
    if k: "kid (v_pages v1) t ?i = Some c" and g: "grows (Suc l) t v v1"
      and e: "find_entry (Suc l) t va True v = find_entry l c va True v1" for c v1
  proof -
    note G = growsD [OF g]
    have "tree l (v_pages v1) c" using tree_kid [OF G(2) k] by blast
    from Suc.IH [OF this G(1)] obtain r v' where r: "find_entry l c va True v1 = Done (r, v')" "grows l c v1 v'"
        "case r of Inl e \<Rightarrow> e = kVmAllocationFailed | Inr (x, i) \<Rightarrow> leaf l (v_pages v') c (vpn va) = Some x \<and> i = vpn va 0"
      by blast
    note up = grows_kid [OF G(2) k r(2)]
    show ?thesis using e r(1,3) up(2) [of "vpn va"] grows_trans [OF g up(1)]
      by (intro exI [of _ r] exI [of _ v']) (auto simp del: find_entry.simps leaf.simps split: sum.splits)
  qed
  show ?case
  proof (cases "IsPageTableEntryValid (es ?i)")
    case True
    show ?thesis
    proof (rule step)
      show "kid (v_pages v) t ?i = Some (PageTableEntryToPhysical (es ?i))" using True es i by (simp add: kid_def)
      show "grows (Suc l) t v v" by (rule grows_refl [OF Suc.prems(2,1)])
    qed (use rd True in simp)
  next
    case False
    then have free: "kid (v_pages v) t ?i = None" using es by (simp add: kid_def)
    show ?thesis
    proof (cases "fst (page_alloc v) = 0")
      case True
      then have "\<exists>as. page_alloc v = (0, v\<lparr>v_alloc := as\<rparr>) \<and> set as \<subseteq> set (v_alloc v) \<and> distinct as"
        using Suc.prems(2) by (cases "v_alloc v") (auto simp: page_alloc_def heap_ok_def intro: exI [of _ "[]"])
      then obtain as where as: "page_alloc v = (0, v\<lparr>v_alloc := as\<rparr>)" "set as \<subseteq> set (v_alloc v)" "distinct as" by blast
      have "grows (Suc l) t v (v\<lparr>v_alloc := as\<rparr>)"
        using Suc.prems as(2,3) by (auto simp: grows_def heap_ok_def simp del: tree.simps)
      then show ?thesis using rd False as(1) by (auto simp del: leaf.simps)
    next
      case new: False
      then obtain a as where a: "v_alloc v = a # as" "a \<noteq> 0" "page_alloc v = (a, v\<lparr>v_alloc := as\<rparr>)"
        by (cases "v_alloc v") (auto simp: page_alloc_def)
      have "t \<noteq> a" using a(1,2) es Suc.prems(2) by (auto simp: heap_ok_def)
      then have "find_entry (Suc l) t va True v = find_entry l a va True (hang_table v t ?i a as)"
        using rd False a es by (simp add: page_clear_def write_entry_def hang_table_def)
      with hang_table_ok [OF Suc.prems a(1,2) free i] show ?thesis by (intro step) auto
    qed
  qed
qed

end
