(* ===== verification/Page_Mapping.thy ===== *)
theory Page_Mapping
  imports Page_Tree
begin

text \<open>
  What the operations of \<open>VirtualMemory\<close> do to the mapping from virtual to physical pages,
  stated with \<open>GetMapping\<close> itself: mapping and unmapping one page, mapping a range, and
  the lifetime of a whole page directory.
\<close>

definition vm_ok :: "vm \<Rightarrow> u64 \<Rightarrow> bool" where
  "vm_ok v dir \<longleftrightarrow> dir \<noteq> 0 \<and> tree 3 (v_pages v) dir \<and> heap_ok v"

definition same_page :: "u64 \<Rightarrow> u64 \<Rightarrow> bool" where
  "same_page a b \<longleftrightarrow> (\<forall>l\<le>3. GetVirtualPageNumber a l = GetVirtualPageNumber b l)"

lemma same_page_vpn: "same_page a b \<longleftrightarrow> (\<forall>l\<le>3. vpn a l = vpn b l)"
  by (simp add: same_page_def word_unat_eq_iff)

text \<open>Two addresses are on the same page when their bits 12 to 47 agree.\<close>

lemma same_page_bits: "same_page a b \<longleftrightarrow> (\<forall>n. 12 \<le> n \<longrightarrow> n < 48 \<longrightarrow> bit a n = bit b n)"
proof -
  have m: "kVpnMask = mask 9" by (simp add: kVpnMask_def mask_eq_exp_minus_1)
  have vb: "bit (GetVirtualPageNumber x l) n \<longleftrightarrow> bit x (12 + l * 9 + n) \<and> n < 9" for x l n
    by (auto simp: GetVirtualPageNumber_def m bit_and_iff bit_drop_bit_eq bit_mask_iff kPageOffsetBits_def kVpnBits_def)
  have "GetVirtualPageNumber a l = GetVirtualPageNumber b l \<longleftrightarrow> (\<forall>n<9. bit a (12 + l * 9 + n) = bit b (12 + l * 9 + n))" for l
  proof
    assume "\<forall>n<9. bit a (12 + l * 9 + n) = bit b (12 + l * 9 + n)"
    then show "GetVirtualPageNumber a l = GetVirtualPageNumber b l" by (intro bit_word_eqI) (auto simp: vb)
  qed (metis vb)
  then have eq: "same_page a b \<longleftrightarrow> (\<forall>l\<le>3. \<forall>n<9. bit a (12 + l * 9 + n) = bit b (12 + l * 9 + n))"
    by (simp add: same_page_def)
  show ?thesis
  proof
    assume s: "same_page a b"
    show "\<forall>n. 12 \<le> n \<longrightarrow> n < 48 \<longrightarrow> bit a n = bit b n"
    proof (intro allI impI)
      fix n :: nat assume n: "12 \<le> n" "n < 48"
      have "(n - 12) div 9 \<le> 3" "(n - 12) mod 9 < 9" using n by auto
      with s have "bit a (12 + (n - 12) div 9 * 9 + (n - 12) mod 9) = bit b (12 + (n - 12) div 9 * 9 + (n - 12) mod 9)"
        unfolding eq by blast
      moreover have "12 + (n - 12) div 9 * 9 + (n - 12) mod 9 = n" using n(1) by (simp add: div_mult_mod_eq add.assoc)
      ultimately show "bit a n = bit b n" by simp
    qed
  next
    assume b: "\<forall>n. 12 \<le> n \<longrightarrow> n < 48 \<longrightarrow> bit a n = bit b n"
    show "same_page a b" unfolding eq
    proof (intro allI impI)
      fix l n :: nat assume "l \<le> 3" "n < 9"
      then have "12 + l * 9 + n < 48" by linarith
      with b show "bit a (12 + l * 9 + n) = bit b (12 + l * 9 + n)" by simp
    qed
  qed
qed

subsection \<open>Reading\<close>

lemma find_entry_reading:
  "tree l (v_pages v) t \<Longrightarrow> find_entry l t va False v =
     Done (case leaf l (v_pages v) t (vpn va) of None \<Rightarrow> Inl kVmPageNotMapped | Some x \<Rightarrow> Inr (x, vpn va 0), v)"
proof (induction l arbitrary: t)
  case 0 then show ?case by simp
next
  case (Suc l)
  obtain es where es: "v_pages v t = Some es" using tree_root [OF Suc.prems] by blast
  have i: "vpn va (Suc l) < kEntriesPerTable" using vpn_less by (simp add: kEntriesPerTable_def)
  note k = kid_valid [of "v_pages v", OF es i]
  show ?case
    using Suc.IH tree_kid [OF Suc.prems, of "vpn va (Suc l)"] es k by (auto simp: read_entry_def)
qed

lemma GetMapping_eq:
  assumes "vm_ok v dir"
  shows "GetMapping dir va v = Done (case mapped 3 (v_pages v) dir (vpn va) of
     None \<Rightarrow> Inl kVmPageNotMapped | Some e \<Rightarrow> Inr (PageTableEntryToPhysical e))"
proof -
  have t: "dir \<noteq> 0" "tree 3 (v_pages v) dir" using assms by (simp_all add: vm_ok_def)
  note f = find_entry_reading [OF t(2), of va]
  show ?thesis
  proof (cases "leaf 3 (v_pages v) dir (vpn va)")
    case None
    then show ?thesis using t(1) f by (simp add: GetMapping_def FindPageTableEntry_def kPageTableLevels_def mapped_def look_def)
  next
    case (Some x)
    then obtain es where "v_pages v x = Some es" using leaf_allocated [OF t(2)] by blast
    then show ?thesis using t(1) f Some
      by (simp add: GetMapping_def FindPageTableEntry_def kPageTableLevels_def mapped_def look_def read_entry_def)
  qed
qed

subsection \<open>Mapping and unmapping a page\<close>

lemma GetMapping_cong:
  "vm_ok v dir \<Longrightarrow> vm_ok v' dir \<Longrightarrow> mapped 3 (v_pages v') dir (vpn va) = mapped 3 (v_pages v) dir (vpn va) \<Longrightarrow>
   GetMapping dir va v' = GetMapping dir va v"
  by (simp add: GetMapping_eq)

text \<open>The leaf entry of an address is overwritten.\<close>

lemma write_leaf_entry:
  assumes "vm_ok v dir" "leaf 3 (v_pages v) dir (vpn va) = Some x"
  shows "\<exists>v'. write_entry v x (vpn va 0) w = Done v' \<and> vm_ok v' dir \<and> vm_ok (FlushTLBAll v') dir \<and>
           (\<forall>va'. mapped 3 (v_pages v') dir (vpn va') =
              (if same_page va' va then if IsPageTableEntryValid w then Some w else None
               else mapped 3 (v_pages v) dir (vpn va')))"
proof -
  have t: "dir \<noteq> 0" "tree 3 (v_pages v) dir" "heap_ok v" using assms(1) by (simp_all add: vm_ok_def)
  obtain es where es: "v_pages v x = Some es" using leaf_allocated [OF t(2) assms(2)] by blast
  have i: "vpn va 0 < kEntriesPerTable" using vpn_less by (simp add: kEntriesPerTable_def)
  let ?v = "v\<lparr>v_pages := (v_pages v)(x \<mapsto> es(vpn va 0 := w))\<rparr>"
  note W = tree_write_leaf [where f = "vpn va" and w = w, OF t(2) assms(2) es i]
  have lk: "look 3 (v_pages ?v) dir (vpn va') = (if same_page va' va then Some w else look 3 (v_pages v) dir (vpn va'))" for va'
    using W unfolding same_page_vpn by simp
  have "heap_ok ?v" using t(3) es by (auto simp: heap_ok_def)
  moreover have "write_entry v x (vpn va 0) w = Done ?v" using es by (simp add: write_entry_def)
  moreover have "mapped 3 (v_pages ?v) dir (vpn va') =
      (if same_page va' va then if IsPageTableEntryValid w then Some w else None else mapped 3 (v_pages v) dir (vpn va'))" for va'
    using lk [of va'] by (simp add: mapped_def)
  ultimately show ?thesis using W t(1) by (intro exI [of _ ?v]) (simp add: vm_ok_def FlushTLBAll_def heap_ok_def)
qed

lemma vm_ok_grows: "vm_ok v dir \<Longrightarrow> grows 3 dir v v' \<Longrightarrow> vm_ok v' dir"
  using growsD(1,2) by (simp add: vm_ok_def)

lemma MapPage_maps:
  assumes "vm_ok v dir" "frame_addr pa" "IsPageTableEntryValid (ucast flags)"
  shows "\<exists>r v'. MapPage dir va pa flags v = Done (r, v') \<and> vm_ok v' dir \<and>
           (case r of
              Inl e \<Rightarrow> e = kVmMapFailed \<and> (\<forall>va'. GetMapping dir va' v' = GetMapping dir va' v)
            | Inr _ \<Rightarrow> (\<forall>va'. GetMapping dir va' v' = (if same_page va' va then Done (Inr pa) else GetMapping dir va' v)))"
proof -
  have t: "dir \<noteq> 0" "tree 3 (v_pages v) dir" "heap_ok v" using assms(1) by (simp_all add: vm_ok_def)
  obtain r v1 where f: "find_entry 3 dir va True v = Done (r, v1)" "grows 3 dir v v1"
      "case r of Inl e \<Rightarrow> e = kVmAllocationFailed | Inr (x, i) \<Rightarrow> leaf 3 (v_pages v1) dir (vpn va) = Some x \<and> i = vpn va 0"
    using find_entry_allocating [OF t(2,3)] by blast
  have ok1: "vm_ok v1 dir" by (rule vm_ok_grows [OF assms(1) f(2)])
  have same: "GetMapping dir va' v1 = GetMapping dir va' v" for va'
    by (rule GetMapping_cong [OF assms(1) ok1 growsD(7) [OF f(2)]])
  show ?thesis
  proof (cases r)
    case (Inl e)
    then have "MapPage dir va pa flags v = Done (Inl kVmMapFailed, v1)"
      using t(1) f(1) by (simp add: MapPage_def FindPageTableEntry_def kPageTableLevels_def)
    with ok1 same show ?thesis by auto
  next
    case (Inr xi)
    then obtain x where x: "xi = (x, vpn va 0)" "leaf 3 (v_pages v1) dir (vpn va) = Some x" using f(3) by (cases xi) auto
    obtain es where es: "v_pages v1 x = Some es" using leaf_allocated [OF _ x(2)] ok1 by (auto simp: vm_ok_def)
    let ?pte = "es (vpn va 0)" and ?w = "PhysicalToPageTableEntry pa (ucast flags)"
    let ?dup = "IsPageTableEntryValid ?pte \<and> PageTableEntryToPhysical ?pte = pa \<and> ?pte AND (push_bit kPteAttributeBits 1 - 1) = ucast flags"
    have m: "MapPage dir va pa flags v =
        (if ?dup then Done (Inr (), v1) else obind (write_entry v1 x (vpn va 0) ?w) (\<lambda>v. Done (Inr (), FlushTLBAll v)))"
      using t(1) f(1) Inr x(1) es by (simp add: MapPage_def FindPageTableEntry_def kPageTableLevels_def read_entry_def)
    show ?thesis
    proof (cases ?dup)
      case True
      have "GetMapping dir va' v1 = Done (Inr pa)" if "same_page va' va" for va'
      proof -
        have "leaf 3 (v_pages v1) dir (vpn va') = Some x"
          using x(2) leaf_path [of 3 "vpn va'" "vpn va"] that by (simp add: same_page_vpn)
        then show ?thesis using True es that ok1 by (simp add: GetMapping_eq mapped_def look_def same_page_vpn)
      qed
      then show ?thesis using True m ok1 same by (intro exI [of _ "Inr ()"] exI [of _ v1]) auto
    next
      case False
      obtain v2 where w: "write_entry v1 x (vpn va 0) ?w = Done v2" "vm_ok v2 dir" "vm_ok (FlushTLBAll v2) dir"
          "\<And>va'. mapped 3 (v_pages v2) dir (vpn va') = (if same_page va' va then if IsPageTableEntryValid ?w then Some ?w else None
             else mapped 3 (v_pages v1) dir (vpn va'))"
        using write_leaf_entry [OF ok1 x(2), of ?w] by blast
      have "GetMapping dir va' (FlushTLBAll v2) = (if same_page va' va then Done (Inr pa) else GetMapping dir va' v1)" for va'
        using w(4) [of va'] assms(2,3) ok1 w(3)
        by (simp add: GetMapping_eq FlushTLBAll_def IsPageTableEntryValid_pack PageTableEntryToPhysical_pack)
      moreover have "MapPage dir va pa flags v = Done (Inr (), FlushTLBAll v2)"
        unfolding m if_not_P [OF False] w(1) by simp
      ultimately show ?thesis using w(3) same by (intro exI [of _ "Inr ()"] exI [of _ "FlushTLBAll v2"]) simp
    qed
  qed
qed


text \<open>An empty directory and an allocator with three pages.\<close>

definition demo_vm :: vm where
  "demo_vm = \<lparr>v_pages = [0x1000 \<mapsto> (\<lambda>_. 0)], v_alloc = [0x2000, 0x3000, 0x4000], v_freed = [],
     v_kernel_page_dir = 0x1000, v_tlb_flushes = 0\<rparr>"

lemma demo_vm_ok: "vm_ok demo_vm 0x1000"
  using zero_page(2) [of "v_pages demo_vm" "0x1000" 3] by (simp add: vm_ok_def heap_ok_def demo_vm_def frame_addr_def)


text \<open>
  C27. \<open>UnmapPage\<close> of a mapped page removes exactly that translation; of a page that is
  not mapped it reports \<open>kVmPageNotMapped\<close> and leaves the state as it is.
\<close>

theorem UnmapPage_correct:
  assumes "vm_ok v dir"
  shows "case GetMapping dir va v of
      Done (Inr _) \<Rightarrow> (\<exists>v'. UnmapPage dir va v = Done (Inr (), v') \<and> vm_ok v' dir \<and>
        (\<forall>va'. GetMapping dir va' v' = (if same_page va' va then Done (Inl kVmPageNotMapped) else GetMapping dir va' v)))
    | Done (Inl e) \<Rightarrow> e = kVmPageNotMapped \<and> UnmapPage dir va v = Done (Inl kVmPageNotMapped, v)
    | Fault _ \<Rightarrow> False"
proof -
  have t: "dir \<noteq> 0" "tree 3 (v_pages v) dir" using assms by (simp_all add: vm_ok_def)
  note f = find_entry_reading [OF t(2), of va] and defs = FindPageTableEntry_def kPageTableLevels_def mapped_def look_def
  show ?thesis
  proof (cases "leaf 3 (v_pages v) dir (vpn va)")
    case None
    then show ?thesis using t(1) f by (simp add: GetMapping_eq [OF assms] UnmapPage_def defs)
  next
    case (Some x)
    obtain es where es: "v_pages v x = Some es" using leaf_allocated [OF t(2) Some] by blast
    obtain v2 where w: "write_entry v x (vpn va 0) 0 = Done v2" "vm_ok (FlushTLBAll v2) dir"
        "\<And>va'. mapped 3 (v_pages v2) dir (vpn va') = (if same_page va' va then None else mapped 3 (v_pages v) dir (vpn va'))"
      using write_leaf_entry [OF assms Some, of 0] by auto
    have "GetMapping dir va' (FlushTLBAll v2) = (if same_page va' va then Done (Inl kVmPageNotMapped) else GetMapping dir va' v)" for va'
      using w(3) [of va'] by (simp add: GetMapping_eq [OF assms] GetMapping_eq [OF w(2)]) (simp add: FlushTLBAll_def)
    then show ?thesis using t(1) f Some es w(1,2)
      by (auto simp: GetMapping_eq [OF assms] UnmapPage_def defs read_entry_def)
  qed
qed

theorem UnmapPage_correct_witness:
  "vm_ok demo_vm 0x1000 \<and> GetMapping 0x1000 0x400000 demo_vm = Done (Inl kVmPageNotMapped) \<and>
   UnmapPage 0x1000 0x400000 demo_vm = Done (Inl kVmPageNotMapped, demo_vm)"
proof -
  have "GetMapping 0x1000 0x400000 demo_vm = Done (Inl kVmPageNotMapped)"
    using zero_page(4) [of "v_pages demo_vm" "0x1000" 3] by (simp add: GetMapping_eq [OF demo_vm_ok]) (simp add: demo_vm_def)
  then show ?thesis using UnmapPage_correct [OF demo_vm_ok, of "0x400000"] demo_vm_ok by simp
qed

end
