(* ===== verification/Page_Range.thy ===== *)
theory Page_Range
  imports Page_Mapping
begin

text \<open>
  Ranges of pages: \<open>MapMMIO\<close> ends, and maps every page of the range onto itself; with it the
  constructor of \<open>VirtualMemory\<close> maps the physical memory onto itself.
\<close>

subsection \<open>Page numbers\<close>

definition page_number :: "u64 \<Rightarrow> nat" where
  "page_number va = unat va div 4096 mod 2 ^ 36"

lemma page_number_bits: "page_number va = take_bit 36 (drop_bit 12 (unat va))"
  by (simp add: page_number_def take_bit_eq_mod drop_bit_eq_div)

lemma same_page_number: "same_page a b \<longleftrightarrow> page_number a = page_number b"
proof -
  have b: "bit (page_number x) n \<longleftrightarrow> n < 36 \<and> bit x (12 + n)" for x n
    by (simp add: page_number_bits bit_take_bit_iff bit_drop_bit_eq bit_unsigned_iff)
  show ?thesis
  proof
    assume s: "same_page a b"
    have "bit a (12 + n) = bit b (12 + n)" if "n < 36" for n
    proof -
      have "12 + n < 48" using that by simp
      with s show ?thesis unfolding same_page_bits by simp
    qed
    then show "page_number a = page_number b" by (intro bit_eqI) (auto simp: b)
  next
    assume p: "page_number a = page_number b"
    show "same_page a b" unfolding same_page_bits
    proof (intro allI impI)
      fix n :: nat assume n: "12 \<le> n" "n < 48"
      then have "n - 12 < 36" "12 + (n - 12) = n" by auto
      with p b [of a "n - 12"] b [of b "n - 12"] show "bit a n = bit b n" by simp
    qed
  qed
qed

definition page_addr :: "nat \<Rightarrow> u64" where
  "page_addr k = word_of_nat (4096 * k)"

lemma unat_page_addr: "k < 2 ^ 52 \<Longrightarrow> unat (page_addr k) = 4096 * k"
  by (simp only: page_addr_def unat_of_nat take_bit_eq_mod) simp

lemma page_number_addr: "k < 2 ^ 36 \<Longrightarrow> page_number (page_addr k) = k"
  by (simp add: page_number_def unat_page_addr)

lemma page_addr_Suc: "page_addr k + kPageSize = page_addr (Suc k)"
  by (simp add: page_addr_def kPageSize_def)

lemma page_addr_less: "j < 2 ^ 52 \<Longrightarrow> k < 2 ^ 52 \<Longrightarrow> page_addr j < page_addr k \<longleftrightarrow> j < k"
  by (simp add: word_less_nat_alt unat_page_addr)

lemma align_down: "w AND NOT (kPageSize - 1) = page_addr (unat w div 4096)"
proof -
  have "w AND NOT (mask 12) = push_bit 12 (drop_bit 12 w)"
    by (rule bit_word_eqI) (auto simp: bit_and_iff bit_not_iff bit_mask_iff bit_push_bit_iff bit_drop_bit_eq)
  moreover have "kPageSize - 1 = mask 12" by (simp add: kPageSize_def mask_eq_exp_minus_1)
  moreover have "push_bit 12 (drop_bit 12 w) = page_addr (unat w div 4096)"
  proof -
    have "unat w < 2 ^ 64" using unsigned_less [of w] by simp
    then have "unat w div 4096 < 2 ^ 64" by simp
    then have "drop_bit 12 w = word_of_nat (unat w div 4096)"
      by (simp add: word_unat_eq_iff drop_bit_eq_div unat_div unat_of_nat take_bit_eq_mod)
    then show ?thesis by (simp add: page_addr_def push_bit_eq_mult)
  qed
  ultimately show ?thesis by simp
qed

lemma PageAlign_page: "PageAlign w = page_addr (unat w div 4096)"
  by (simp add: PageAlign_def align_down)

lemma PageAlignUp_page: "unat w + 4095 < 2 ^ 64 \<Longrightarrow> PageAlignUp w = page_addr ((unat w + 4095) div 4096)"
proof -
  assume a: "unat w + 4095 < 2 ^ 64"
  have "unat (w + kPageSize - 1) = unat w + 4095" using a by (simp add: kPageSize_def unat_word_ariths)
  then show ?thesis using align_down [of "w + kPageSize - 1"] by (simp add: PageAlignUp_def)
qed

lemma frame_addr_page: "k < 2 ^ 40 \<Longrightarrow> frame_addr (page_addr k)"
proof -
  assume k: "k < 2 ^ 40"
  have "page_addr k = push_bit 12 (word_of_nat k)" by (simp add: page_addr_def push_bit_eq_mult)
  moreover have "take_bit 40 (word_of_nat k :: u64) = word_of_nat k"
    using k by (simp add: word_unat_eq_iff unsigned_take_bit_eq unat_of_nat take_bit_nat_eq_self)
  then have "bit (word_of_nat k :: u64) n \<Longrightarrow> n < 40" for n by (metis bit_take_bit_iff)
  ultimately show ?thesis unfolding frame_addr_def masks
    by (intro bit_word_eqI) (auto simp: bit_and_iff bit_push_bit_iff bit_mask_iff)
qed

subsection \<open>MapMMIO\<close>

text \<open>MapPage leaves the root of the kernel alone.\<close>

lemma MapPage_kernel_dir:
  assumes "vm_ok v dir" "MapPage dir va pa flags v = Done (r, v')"
  shows "v_kernel_page_dir v' = v_kernel_page_dir v"
proof -
  have t: "tree 3 (v_pages v) dir" "heap_ok v" using assms(1) by (simp_all add: vm_ok_def)
  obtain r1 v1 where f: "find_entry 3 dir va True v = Done (r1, v1)" "grows 3 dir v v1"
    using find_entry_allocating [OF t] by blast
  then have "v_kernel_page_dir v1 = v_kernel_page_dir v" using growsD(9) by blast
  with assms(2) f(1) show ?thesis
    by (auto simp: MapPage_def FindPageTableEntry_def kPageTableLevels_def outcome_simps write_entry_def FlushTLBAll_def Let_def
        split: sum.splits if_splits)
qed

lemma map_range_pages:
  assumes "vm_ok v (v_kernel_page_dir v)" "k + n < 2 ^ 36" "IsPageTableEntryValid (ucast flags)"
  shows "\<exists>r v'. map_range (page_addr k) (page_addr (k + n)) flags v = Some (Done (r, v')) \<and>
     vm_ok v' (v_kernel_page_dir v') \<and> v_kernel_page_dir v' = v_kernel_page_dir v \<and>
     (case r of
        Inl e \<Rightarrow> e = kVmMapFailed
      | Inr _ \<Rightarrow> (\<forall>va. GetMapping (v_kernel_page_dir v) va v' =
          (if k \<le> page_number va \<and> page_number va < k + n then Done (Inr (page_addr (page_number va)))
           else GetMapping (v_kernel_page_dir v) va v)))"
  using assms(1,2)
proof (induction n arbitrary: k v)
  case 0
  then show ?case by (subst map_range.simps) auto
next
  case (Suc n)
  let ?d = "v_kernel_page_dir v"
  have lt: "page_addr k < page_addr (k + Suc n)" using page_addr_less [of k "k + Suc n"] Suc.prems(2) by simp
  obtain r v1 where m: "MapPage ?d (page_addr k) (page_addr k) flags v = Done (r, v1)" "vm_ok v1 ?d"
      "case r of Inl e \<Rightarrow> e = kVmMapFailed \<and> (\<forall>va'. GetMapping ?d va' v1 = GetMapping ?d va' v)
       | Inr _ \<Rightarrow> (\<forall>va'. GetMapping ?d va' v1 = (if same_page va' (page_addr k) then Done (Inr (page_addr k)) else GetMapping ?d va' v))"
    using MapPage_maps [OF Suc.prems(1) frame_addr_page assms(3), of k "page_addr k"] Suc.prems(2) by auto
  have d1: "v_kernel_page_dir v1 = ?d" by (rule MapPage_kernel_dir [OF Suc.prems(1) m(1)])
  show ?case
  proof (cases r)
    case (Inl e)
    then show ?thesis using m d1 lt by (subst map_range.simps) auto
  next
    case (Inr u)
    then have step: "map_range (page_addr k) (page_addr (k + Suc n)) flags v =
        map_range (page_addr (Suc k)) (page_addr (Suc k + n)) flags v1"
      using m(1) lt by (subst map_range.simps) (simp add: page_addr_Suc)
    have "vm_ok v1 (v_kernel_page_dir v1)" "Suc k + n < 2 ^ 36" using m(2) d1 Suc.prems(2) by simp_all
    from Suc.IH [OF this, unfolded d1] obtain r2 v2
      where r2: "map_range (page_addr (Suc k)) (page_addr (Suc k + n)) flags v1 = Some (Done (r2, v2))"
        "vm_ok v2 (v_kernel_page_dir v2)" "v_kernel_page_dir v2 = ?d"
        "case r2 of Inl e \<Rightarrow> e = kVmMapFailed | Inr _ \<Rightarrow> (\<forall>va. GetMapping ?d va v2 =
          (if Suc k \<le> page_number va \<and> page_number va < Suc k + n then Done (Inr (page_addr (page_number va))) else GetMapping ?d va v1))"
      by blast
    have sp: "same_page va (page_addr k) \<longleftrightarrow> page_number va = k" for va
      using Suc.prems(2) by (simp add: same_page_number page_number_addr)
    have "GetMapping ?d va v2 = (if k \<le> page_number va \<and> page_number va < k + Suc n then Done (Inr (page_addr (page_number va)))
        else GetMapping ?d va v)" if "r2 = Inr ()" for va
      using m(3) r2(4) that Inr by (auto simp: sp)
    then show ?thesis using step r2 by (cases r2) auto
  qed
qed

text \<open>What a call takes from the heap: a prefix of the pages in store, and no other page becomes a table.\<close>

definition takes :: "vm \<Rightarrow> vm \<Rightarrow> bool" where
  "takes v v' \<longleftrightarrow> (\<exists>xs. v_alloc v = xs @ v_alloc v' \<and> dom (v_pages v') \<subseteq> dom (v_pages v) \<union> set xs)"

lemma takes_same: "v_alloc v' = v_alloc v \<Longrightarrow> dom (v_pages v') \<subseteq> dom (v_pages v) \<Longrightarrow> takes v v'"
  by (auto simp: takes_def)

lemma takes_trans: "takes v v1 \<Longrightarrow> takes v1 v2 \<Longrightarrow> takes v v2"
  by (fastforce simp: takes_def)

lemma takes_write: "write_entry v t i w = Done v' \<Longrightarrow> takes v v'"
  by (auto simp: write_entry_def outcome_simps modify_def deref_def intro!: takes_same split: option.splits if_splits)

lemma find_entry_takes: "find_entry l t va al v = Done (r, v') \<Longrightarrow> takes v v'"
proof (induction l arbitrary: t v)
  case 0
  then show ?case by (auto intro: takes_same)
next
  case (Suc l)
  obtain pte where pte: "read_entry v t (vpn va (Suc l)) = Done pte"
    using Suc.prems(1) by (cases "read_entry v t (vpn va (Suc l))") simp_all
  obtain a v1 where al: "page_alloc v = (a, v1)" by (cases "page_alloc v")
  have t1: "takes v v1" and t2: "a \<noteq> 0 \<Longrightarrow> takes v (page_clear a v1)"
    using al by (auto simp: page_alloc_def page_clear_def takes_def split: list.splits)
  consider "IsPageTableEntryValid pte" | "\<not> IsPageTableEntryValid pte" "\<not> al \<or> a = 0" | "\<not> IsPageTableEntryValid pte" al "a \<noteq> 0" by blast
  then show ?case
  proof cases
    case 1
    then show ?thesis using Suc pte by simp
  next
    case 2
    then show ?thesis using Suc.prems pte al t1 by (auto intro: takes_same split: if_splits)
  next
    case 3
    then obtain w where w: "write_entry (page_clear a v1) t (vpn va (Suc l)) (PhysicalToPageTableEntry a GetTableEntryPermissions) = Done w"
        "find_entry l a va al w = Done (r, v')"
      using Suc.prems pte al by (auto simp: outcome_simps)
    show ?thesis using takes_trans [OF takes_trans [OF t2 [OF 3(3)] takes_write [OF w(1)]] Suc.IH [OF w(2)]] .
  qed
qed

lemma MapPage_takes:
  assumes "MapPage dir va pa flags v = Done (r, v')"
  shows "takes v v'"
proof -
  obtain s w where s: "find_entry 3 dir va True v = Done (s, w)"
    using assms by (auto simp: MapPage_def FindPageTableEntry_def kPageTableLevels_def outcome_simps)
  then consider "v' = w" | t i x w2 where "write_entry w t i x = Done w2" "v' = FlushTLBAll w2"
    using assms by (auto simp: MapPage_def FindPageTableEntry_def kPageTableLevels_def Let_def outcome_simps split: sum.splits if_splits)
  then show ?thesis
  proof cases
    case 1
    then show ?thesis using find_entry_takes [OF s] by simp
  next
    case 2
    have "takes w2 v'" using 2(2) by (auto simp: FlushTLBAll_def intro: takes_same)
    then show ?thesis using find_entry_takes [OF s] takes_write [OF 2(1)] takes_trans by blast
  qed
qed

text \<open>With as many pages in store as there are tables to be made, the range is mapped.\<close>

definition plenty :: "nat \<Rightarrow> vm \<Rightarrow> bool" where
  "plenty n v \<longleftrightarrow> 0 \<notin> set (v_alloc v) \<and> n \<le> length (v_alloc v)"

lemma find_entry_plenty:
  "find_entry l t va True v = Done (r, v') \<Longrightarrow> plenty (l + n) v \<Longrightarrow> (\<exists>x. r = Inr x) \<and> plenty n v'"
proof (induction l arbitrary: t v)
  case (Suc l)
  obtain pte where pte: "read_entry v t (vpn va (Suc l)) = Done pte"
    using Suc.prems(1) by (cases "read_entry v t (vpn va (Suc l))") simp_all
  show ?case
  proof (cases "IsPageTableEntryValid pte")
    case True
    then show ?thesis using Suc.IH Suc.prems pte by (simp add: plenty_def)
  next
    case False
    obtain a as where a: "v_alloc v = a # as" "a \<noteq> 0" "plenty (l + n) (v\<lparr>v_alloc := as\<rparr>)"
      using Suc.prems(2) by (cases "v_alloc v") (auto simp: plenty_def)
    from Suc.prems(1) pte False a(1,2) obtain w where w: "write_entry (page_clear a (v\<lparr>v_alloc := as\<rparr>)) t (vpn va (Suc l))
        (PhysicalToPageTableEntry a GetTableEntryPermissions) = Done w" "find_entry l a va True w = Done (r, v')"
      by (auto simp: page_alloc_def outcome_simps)
    then have "plenty (l + n) w" using a(3) by (auto simp: write_entry_def page_clear_def plenty_def outcome_simps)
    then show ?thesis using Suc.IH w(2) by blast
  qed
qed (auto simp: plenty_def)

lemma MapPage_plenty:
  assumes "MapPage dir va pa flags v = Done (r, v')" "plenty (3 + n) v"
  shows "r = Inr () \<and> plenty n v'"
proof -
  obtain q w where q: "find_entry 3 dir va True v = Done (q, w)"
    using assms(1) by (auto simp: MapPage_def FindPageTableEntry_def kPageTableLevels_def outcome_simps)
  from find_entry_plenty [OF this assms(2)] obtain x i where "q = Inr (x, i)" "plenty n w" by auto
  with assms(1) q show ?thesis
    by (auto simp: MapPage_def FindPageTableEntry_def kPageTableLevels_def Let_def write_entry_def FlushTLBAll_def plenty_def outcome_simps
        split: if_splits)
qed

text \<open>
  Consecutive pages share their tables: of the three tables on the way to a page, those above
  level \<open>j\<close> are there when they are the tables of a page that is mapped.
\<close>

lemma find_entry_shared:
  assumes "find_entry l t q False v = Done (Inr x, v0)" "\<And>i. j < i \<Longrightarrow> i \<le> l \<Longrightarrow> vpn va i = vpn q i"
    and "find_entry l t va True v = Done (r, v')" "plenty (j + n) v"
  shows "(\<exists>x. r = Inr x) \<and> plenty n v'"
  using assms
proof (induction l arbitrary: t)
  case 0
  then show ?case by (auto simp: plenty_def)
next
  case (Suc l)
  show ?case
  proof (cases "Suc l \<le> j")
    case True
    then have "plenty (Suc l + n) v" using Suc.prems(4) by (simp add: plenty_def)
    with Suc.prems(3) show ?thesis by (rule find_entry_plenty)
  next
    case False
    then have eq: "vpn va (Suc l) = vpn q (Suc l)" using Suc.prems(2) by simp
    obtain pte where pte: "read_entry v t (vpn q (Suc l)) = Done pte"
      using Suc.prems(1) by (cases "read_entry v t (vpn q (Suc l))") simp_all
    with Suc.prems(1) have "IsPageTableEntryValid pte" by (cases "IsPageTableEntryValid pte") simp_all
    with Suc.prems pte eq show ?thesis by (intro Suc.IH) simp_all
  qed
qed

lemma vpn_page_addr: "k < 2 ^ 36 \<Longrightarrow> l \<le> 3 \<Longrightarrow> vpn (page_addr k) l = k div 512 ^ l mod 512"
proof -
  assume k: "k < 2 ^ 36" and l: "l \<le> 3"
  have "w AND 0x1FF = take_bit 9 w" for w :: u64 by (simp add: take_bit_eq_mask mask_eq_exp_minus_1)
  moreover have "take_bit 64 (unat (page_addr k)) = unat (page_addr k)"
    by (rule take_bit_nat_eq_self) (use unsigned_less [of "page_addr k"] in simp)
  ultimately have "vpn (page_addr k) l = take_bit 9 (drop_bit (12 + l * 9) (unat (page_addr k)))"
    by (simp add: GetVirtualPageNumber_def kPageOffsetBits_def kVpnBits_def kVpnMask_def
        unsigned_take_bit_eq unsigned_drop_bit_eq)
  also have "\<dots> = 4096 * k div 2 ^ (12 + l * 9) mod 2 ^ 9"
    using k by (simp add: take_bit_eq_mod drop_bit_eq_div unat_page_addr)
  also have "\<dots> = k div 512 ^ l mod 512"
    by (simp add: power_add power_mult mult.commute [of l] div_mult2_eq)
  finally show ?thesis .
qed

text \<open>The number of tables that the pages from \<open>k + 1\<close> to \<open>m\<close> need beyond those of the page \<open>k\<close>.\<close>

definition more_tables :: "nat \<Rightarrow> nat \<Rightarrow> nat" where
  "more_tables k m = (m div 512 - k div 512) + (m div 512 ^ 2 - k div 512 ^ 2) + (m div 512 ^ 3 - k div 512 ^ 3)"

lemma next_page_tables:
  assumes "Suc k < 2 ^ 36" "Suc k \<le> m"
  obtains j where "more_tables k m = j + more_tables (Suc k) m" "j \<le> 3"
    "\<forall>i. j < i \<longrightarrow> i \<le> 3 \<longrightarrow> vpn (page_addr (Suc k)) i = vpn (page_addr k) i"
proof -
  define d where "d i = (if Suc k mod 512 ^ i = 0 then 1 else 0 :: nat)" for i
  have dv: "Suc k div 512 ^ i = k div 512 ^ i + d i" for i by (simp add: d_def div_Suc)
  have "Suc k div 512 ^ i \<le> m div 512 ^ i" for i using assms(2) by (rule div_le_mono)
  then have le: "k div 512 ^ i + d i \<le> m div 512 ^ i" for i by (simp only: dv)
  have dm: "m div 512 ^ i - k div 512 ^ i = d i + (m div 512 ^ i - Suc k div 512 ^ i)" for i
    unfolding dv using le [of i] by linarith
  have mono: "d (Suc i) \<le> d i" for i
    by (auto simp: d_def mod_eq_0_iff_dvd intro: dvd_trans [of "512 ^ i" "512 * 512 ^ i"])
  show thesis
  proof (rule that [of "d 1 + d 2 + d 3"])
    show "more_tables k m = d 1 + d 2 + d 3 + more_tables (Suc k) m"
      using dm [of 1] dm [of 2] dm [of 3] by (simp add: more_tables_def)
    show "d 1 + d 2 + d 3 \<le> 3" by (simp add: d_def)
    show "\<forall>i. d 1 + d 2 + d 3 < i \<longrightarrow> i \<le> 3 \<longrightarrow> vpn (page_addr (Suc k)) i = vpn (page_addr k) i"
    proof (intro allI impI)
      fix i assume i: "d 1 + d 2 + d 3 < i" "i \<le> (3 :: nat)"
      then have "i = 1 \<or> i = 2 \<or> i = 3" by auto
      moreover have "d 2 \<le> d 1" "d 3 \<le> d 2" using mono [of 1] mono [of 2] by (simp_all add: numeral_2_eq_2 numeral_3_eq_3)
      ultimately have "d i = 0" using i(1) by auto
      then show "vpn (page_addr (Suc k)) i = vpn (page_addr k) i" using assms(1) i(2) dv [of i] by (simp add: vpn_page_addr)
    qed
  qed
qed


lemma MapPage_shared:
  assumes "GetMapping dir q v = Done (Inr x)" "\<And>i. j < i \<Longrightarrow> i \<le> 3 \<Longrightarrow> vpn va i = vpn q i"
    and "MapPage dir va pa flags v = Done (r, v')" "plenty (j + n) v"
  shows "r = Inr () \<and> plenty n v'"
proof -
  obtain s w where s: "find_entry 3 dir va True v = Done (s, w)"
    using assms(3) by (auto simp: MapPage_def FindPageTableEntry_def kPageTableLevels_def outcome_simps)
  obtain y v0 where "find_entry 3 dir q False v = Done (Inr y, v0)"
    using assms(1) by (auto simp: GetMapping_def FindPageTableEntry_def kPageTableLevels_def outcome_simps
        split: sum.splits prod.splits) (metis old.sum.exhaust surj_pair)
  from find_entry_shared [OF this assms(2) s assms(4)] obtain u i where "s = Inr (u, i)" "plenty n w" by auto
  with assms(3) s show ?thesis
    by (auto simp: MapPage_def FindPageTableEntry_def kPageTableLevels_def Let_def write_entry_def FlushTLBAll_def plenty_def outcome_simps
        split: if_splits)
qed

lemma map_range_step:
  assumes "map_range (page_addr k) (page_addr (k + Suc n)) flags v = Some (Done (r, v'))" "k + Suc n < 2 ^ 36"
  obtains q w where "MapPage (v_kernel_page_dir v) (page_addr k) (page_addr k) flags v = Done (q, w)"
    "q = Inr () \<longrightarrow> map_range (page_addr (Suc k)) (page_addr (Suc k + n)) flags w = Some (Done (r, v'))"
proof -
  have lt: "page_addr k < page_addr (k + Suc n)" using page_addr_less [of k "k + Suc n"] assms(2) by simp
  then obtain q w where m: "MapPage (v_kernel_page_dir v) (page_addr k) (page_addr k) flags v = Done (q, w)"
    using assms(1) by (subst (asm) map_range.simps) (auto split: outcome.splits)
  moreover have "map_range (page_addr (Suc k)) (page_addr (Suc k + n)) flags w = Some (Done (r, v'))" if "q = Inr ()"
    using assms(1) lt m that by (subst (asm) map_range.simps) (simp add: page_addr_Suc)
  ultimately show thesis using that by blast
qed

lemma MapPage_mapped:
  assumes "vm_ok v (v_kernel_page_dir v)" "k < 2 ^ 36" "IsPageTableEntryValid (ucast flags)"
    and "MapPage (v_kernel_page_dir v) (page_addr k) (page_addr k) flags v = Done (Inr (), w)"
  shows "vm_ok w (v_kernel_page_dir w)" "GetMapping (v_kernel_page_dir w) (page_addr k) w = Done (Inr (page_addr k))"
proof -
  have "v_kernel_page_dir w = v_kernel_page_dir v" by (rule MapPage_kernel_dir [OF assms(1,4)])
  with MapPage_maps [OF assms(1) frame_addr_page assms(3), of k "page_addr k"] assms(2,4)
  show "vm_ok w (v_kernel_page_dir w)" "GetMapping (v_kernel_page_dir w) (page_addr k) w = Done (Inr (page_addr k))"
    by (auto simp: same_page_def)
qed

lemma map_range_shared:
  assumes "map_range (page_addr (Suc k)) (page_addr (Suc k + n)) flags v = Some (Done (r, v'))" "IsPageTableEntryValid (ucast flags)"
    and "plenty (more_tables k (k + n) + m) v" "Suc k + n < 2 ^ 36"
    and "vm_ok v (v_kernel_page_dir v)" "GetMapping (v_kernel_page_dir v) (page_addr k) v = Done (Inr x)"
  shows "r = Inr () \<and> plenty m v'"
  using assms
proof (induction n arbitrary: k v x)
  case 0
  then show ?case by (subst (asm) map_range.simps) (simp add: more_tables_def)
next
  case (Suc n)
  have b: "Suc k + Suc n < 2 ^ 36" "Suc k < 2 ^ 36" "Suc k \<le> k + Suc n" "Suc (Suc k) + n < 2 ^ 36" using Suc.prems(4) by simp_all
  obtain q w where m: "MapPage (v_kernel_page_dir v) (page_addr (Suc k)) (page_addr (Suc k)) flags v = Done (q, w)"
      "q = Inr () \<longrightarrow> map_range (page_addr (Suc (Suc k))) (page_addr (Suc (Suc k) + n)) flags w = Some (Done (r, v'))"
    by (rule map_range_step [OF Suc.prems(1) b(1)])
  obtain j where j: "more_tables k (k + Suc n) = j + more_tables (Suc k) (k + Suc n)"
      "\<forall>i. j < i \<longrightarrow> i \<le> 3 \<longrightarrow> vpn (page_addr (Suc k)) i = vpn (page_addr k) i"
    by (rule next_page_tables [OF b(2,3)])
  have "plenty (j + (more_tables (Suc k) (Suc k + n) + m)) v" using Suc.prems(3) j(1) by (simp add: add.assoc)
  from MapPage_shared [OF Suc.prems(6) j(2) [rule_format] m(1) this] have q: "q = Inr ()" "plenty (more_tables (Suc k) (Suc k + n) + m) w" by auto
  with m(1) have w: "vm_ok w (v_kernel_page_dir w)" "GetMapping (v_kernel_page_dir w) (page_addr (Suc k)) w = Done (Inr (page_addr (Suc k)))"
    using MapPage_mapped [OF Suc.prems(5) b(2) Suc.prems(2)] by auto
  show ?case by (rule Suc.IH [OF m(2) [rule_format, OF q(1)] Suc.prems(2) q(2) b(4) w])
qed

lemma map_range_takes:
  "map_range (page_addr k) (page_addr (k + n)) flags v = Some (Done (r, v')) \<Longrightarrow> k + n < 2 ^ 36 \<Longrightarrow> takes v v'"
proof (induction n arbitrary: k v)
  case 0
  then show ?case by (subst (asm) map_range.simps) (auto intro: takes_same)
next
  case (Suc n)
  obtain q w where m: "MapPage (v_kernel_page_dir v) (page_addr k) (page_addr k) flags v = Done (q, w)"
      "q = Inr () \<longrightarrow> map_range (page_addr (Suc k)) (page_addr (Suc k + n)) flags w = Some (Done (r, v'))"
    by (rule map_range_step [OF Suc.prems])
  show ?case
  proof (cases q)
    case (Inl e)
    then have "v' = w" using Suc.prems(1) m(1) page_addr_less [of k "k + Suc n"] Suc.prems(2)
      by (subst (asm) map_range.simps) simp
    then show ?thesis using MapPage_takes [OF m(1)] by simp
  next
    case (Inr u)
    then have "map_range (page_addr (Suc k)) (page_addr (Suc k + n)) flags w = Some (Done (r, v'))" using m(2) by simp
    then have "takes w v'" by (rule Suc.IH) (use Suc.prems(2) in simp)
    then show ?thesis using takes_trans [OF MapPage_takes [OF m(1)]] by blast
  qed
qed

text \<open>The number of tables for \<open>n\<close> pages from the page \<open>k\<close>, when none of their tables is there.\<close>

definition range_tables :: "nat \<Rightarrow> nat \<Rightarrow> nat" where
  "range_tables k n = (if n = 0 then 0 else 3 + more_tables k (k + n - 1))"

lemma map_range_plenty:
  assumes "map_range (page_addr k) (page_addr (k + n)) flags v = Some (Done (r, v'))" "IsPageTableEntryValid (ucast flags)"
    and "plenty (range_tables k n + m) v" "k + n < 2 ^ 36" "vm_ok v (v_kernel_page_dir v)"
  shows "r = Inr () \<and> plenty m v'"
proof (cases n)
  case 0
  then show ?thesis using assms(1,3) by (subst (asm) map_range.simps) (simp add: range_tables_def)
next
  case (Suc n')
  have b: "k + Suc n' < 2 ^ 36" "k < 2 ^ 36" "Suc k + n' < 2 ^ 36" using assms(4) Suc by simp_all
  obtain q w where m: "MapPage (v_kernel_page_dir v) (page_addr k) (page_addr k) flags v = Done (q, w)"
      "q = Inr () \<longrightarrow> map_range (page_addr (Suc k)) (page_addr (Suc k + n')) flags w = Some (Done (r, v'))"
    by (rule map_range_step [OF assms(1) [unfolded Suc] b(1)])
  have "plenty (3 + (more_tables k (k + n') + m)) v" using assms(3) Suc by (simp add: range_tables_def add.assoc)
  from MapPage_plenty [OF m(1) this] have q: "q = Inr ()" "plenty (more_tables k (k + n') + m) w" by simp_all
  with m(1) have w: "vm_ok w (v_kernel_page_dir w)" "GetMapping (v_kernel_page_dir w) (page_addr k) w = Done (Inr (page_addr k))"
    using MapPage_mapped [OF assms(5) b(2) assms(2)] by auto
  show ?thesis by (rule map_range_shared [OF m(2) [rule_format, OF q(1)] assms(2) q(2) b(3) w])
qed

lemma MapMMIO_pages:
  assumes "vm_ok v (v_kernel_page_dir v)" "unat a + unat sz \<le> 2 ^ 48 - 8192" "IsPageTableEntryValid (ucast flags)"
    and "plenty (range_tables (unat a div 4096) ((unat a + unat sz + 4095) div 4096 - unat a div 4096) + m) v"
  shows "\<exists>v'. MapMMIO a sz flags v = Done (Inr a, v') \<and> vm_ok v' (v_kernel_page_dir v') \<and>
     v_kernel_page_dir v' = v_kernel_page_dir v \<and> plenty m v' \<and> takes v v' \<and>
     (\<forall>va. GetMapping (v_kernel_page_dir v) va v' =
          (if unat a div 4096 \<le> page_number va \<and> page_number va < (unat a + unat sz + 4095) div 4096
           then Done (Inr (page_addr (page_number va))) else GetMapping (v_kernel_page_dir v) va v))"
proof -
  let ?k = "unat a div 4096" and ?m = "(unat a + unat sz + 4095) div 4096"
  have u: "unat (a + sz) = unat a + unat sz" using assms(2) by (simp add: unat_word_ariths)
  have "?k \<le> ?m" by (rule div_le_mono) simp
  then have km: "?k + (?m - ?k) = ?m" by simp
  have lt: "?m < 2 ^ 36" using assms(2) by simp
  from map_range_pages [OF assms(1) _ assms(3), of ?k "?m - ?k", unfolded km, OF lt]
  obtain r v' where r: "map_range (page_addr ?k) (page_addr ?m) flags v = Some (Done (r, v'))"
      "vm_ok v' (v_kernel_page_dir v')" "v_kernel_page_dir v' = v_kernel_page_dir v"
      "case r of Inl e \<Rightarrow> e = kVmMapFailed | Inr _ \<Rightarrow> (\<forall>va. GetMapping (v_kernel_page_dir v) va v' =
          (if ?k \<le> page_number va \<and> page_number va < ?m then Done (Inr (page_addr (page_number va)))
           else GetMapping (v_kernel_page_dir v) va v))" by blast
  have "r = Inr () \<and> plenty m v'"
    by (rule map_range_plenty [of ?k "?m - ?k", unfolded km, OF r(1) assms(3,4) lt assms(1)])
  moreover have "takes v v'"
    by (rule map_range_takes [of ?k "?m - ?k", unfolded km, OF r(1) lt])
  moreover have "PageAlign a = page_addr ?k" "PageAlignUp (a + sz) = page_addr ?m"
    using PageAlignUp_page [of "a + sz"] u assms(2) by (simp_all add: PageAlign_page)
  ultimately show ?thesis using r by (simp add: MapMMIO_def run_loop_def)
qed

lemma new_VirtualMemory_maps:
  assumes "heap_ok v" "unat a + unat sz \<le> 2 ^ 48 - 8192"
    and "plenty (1 + range_tables (unat a div 4096) ((unat a + unat sz + 4095) div 4096 - unat a div 4096) + m) v"
  shows "\<exists>v'. new_VirtualMemory a sz v = Done v' \<and> v_kernel_page_dir v' = hd (v_alloc v) \<and> vm_ok v' (v_kernel_page_dir v') \<and>
     plenty m v' \<and> takes v v' \<and>
     (\<forall>va. GetMapping (v_kernel_page_dir v') va v' =
        (if unat a div 4096 \<le> page_number va \<and> page_number va < (unat a + unat sz + 4095) div 4096
         then Done (Inr (page_addr (page_number va))) else Done (Inl kVmPageNotMapped)))"
proof -
  obtain dir as where al: "v_alloc v = dir # as" "dir \<noteq> 0" using assms(3) by (cases "v_alloc v") (auto simp: plenty_def)
  let ?v = "(page_clear dir (v\<lparr>v_alloc := as\<rparr>))\<lparr>v_kernel_page_dir := dir\<rparr>"
  have pl: "plenty (range_tables (unat a div 4096) ((unat a + unat sz + 4095) div 4096 - unat a div 4096) + m) ?v"
    using assms(3) al by (simp add: plenty_def page_clear_def)
  have z: "v_pages ?v dir = Some (\<lambda>_. 0)" by (simp add: page_clear_def)
  have ok: "vm_ok ?v dir"
    using assms(1) al zero_page(2) [of "v_pages ?v" dir 3, OF z] by (auto simp: vm_ok_def heap_ok_def page_clear_def)
  have none: "GetMapping dir va ?v = Done (Inl kVmPageNotMapped)" for va
    using zero_page(4) [of "v_pages ?v" dir 3, OF z] by (simp add: GetMapping_eq [OF ok])
  let ?fl = "ucast (GetKernelPagePermissions True True True True) :: u32"
  have fl: "IsPageTableEntryValid (ucast ?fl)"
    by (simp add: IsPageTableEntryValid_def GetKernelPagePermissions_def flag_if_def permission_defs)
  have d: "v_kernel_page_dir ?v = dir" by simp
  have "vm_ok ?v (v_kernel_page_dir ?v)" using ok by simp
  from MapMMIO_pages [OF this assms(2) fl pl, unfolded d] obtain v'
    where r: "MapMMIO a sz ?fl ?v = Done (Inr a, v')" "vm_ok v' (v_kernel_page_dir v')" "v_kernel_page_dir v' = dir"
      "plenty m v'" "takes ?v v'" "\<forall>va. GetMapping dir va v' =
          (if unat a div 4096 \<le> page_number va \<and> page_number va < (unat a + unat sz + 4095) div 4096
           then Done (Inr (page_addr (page_number va))) else GetMapping dir va ?v)" by blast
  have "new_VirtualMemory a sz v = Done v'"
    using r(1) al by (simp add: new_VirtualMemory_def page_alloc_def)
  moreover have "takes v v'" using al r(5) by (auto simp: takes_def page_clear_def)
  ultimately show ?thesis using r(2-6) none al by auto
qed
text \<open>
  The constructor of \<open>VirtualMemory\<close> returns when the heap has a page for the root and
  for each table that the physical memory needs (one for every 2 MiB, 1 GiB and 512 GiB that the
  memory meets), and it has mapped the memory onto itself: every page that meets the range
  translates to its own address, and nothing else is mapped.
\<close>

theorem new_VirtualMemory_identity:
  assumes "heap_ok v" "unat a + unat sz \<le> 2 ^ 48 - 8192"
    and "plenty (1 + range_tables (unat a div 4096) ((unat a + unat sz + 4095) div 4096 - unat a div 4096)) v"
  shows "\<exists>v'. new_VirtualMemory a sz v = Done v' \<and> v_kernel_page_dir v' = hd (v_alloc v) \<and> vm_ok v' (v_kernel_page_dir v') \<and>
     (\<forall>va. GetMapping (v_kernel_page_dir v') va v' =
        (if unat a div 4096 \<le> page_number va \<and> page_number va < (unat a + unat sz + 4095) div 4096
         then Done (Inr (page_addr (page_number va))) else Done (Inl kVmPageNotMapped)))"
  using new_VirtualMemory_maps [OF assms(1,2), of 0] assms(3) by (elim meta_impE) auto

text \<open>Two pages of memory at \<open>0x200000\<close> and an allocator with four pages.\<close>

definition demo_boot_vm :: vm where
  "demo_boot_vm = \<lparr>v_pages = Map.empty, v_alloc = [0x1000, 0x2000, 0x3000, 0x4000], v_freed = [],
     v_kernel_page_dir = 0, v_tlb_flushes = 0\<rparr>"

theorem new_VirtualMemory_identity_witness:
  "\<exists>v'. new_VirtualMemory 0x200000 0x2000 demo_boot_vm = Done v' \<and> v_kernel_page_dir v' = 0x1000 \<and>
     GetMapping 0x1000 0x201234 v' = Done (Inr 0x201000) \<and> GetMapping 0x1000 0x202000 v' = Done (Inl kVmPageNotMapped)"
proof -
  have h: "heap_ok demo_boot_vm" "unat (0x200000 :: u64) + unat (0x2000 :: u64) \<le> 2 ^ 48 - 8192"
      "plenty (1 + range_tables (unat (0x200000 :: u64) div 4096)
         ((unat (0x200000 :: u64) + unat (0x2000 :: u64) + 4095) div 4096 - unat (0x200000 :: u64) div 4096)) demo_boot_vm"
    by (simp_all add: range_tables_def more_tables_def heap_ok_def plenty_def demo_boot_vm_def frame_addr_def)
  have n: "hd (v_alloc demo_boot_vm) = 0x1000" "page_number 0x201234 = 0x201" "page_number 0x202000 = 0x202" "page_addr 0x201 = 0x201000"
    by (simp_all add: demo_boot_vm_def page_number_def page_addr_def)
  from new_VirtualMemory_identity [OF h] show ?thesis unfolding n(1) by (elim exE conjE) (simp add: n)
qed

end
