(* ===== verification/Page_Directory.thy ===== *)
theory Page_Directory
  imports Page_Range
begin

text \<open>
  Whole page directories: \<open>DestroyPageDirectory\<close> frees every table of the tree once and
  nothing else, \<open>ClonePageDirectory\<close> builds a separate tree with the same translations.
\<close>

subsection \<open>Destroying\<close>

definition kid_tables :: "nat \<Rightarrow> (u64 \<rightharpoonup> page) \<Rightarrow> u64 \<Rightarrow> nat \<Rightarrow> u64 set" where
  "kid_tables l P t i = (case l of 0 \<Rightarrow> {} | Suc m \<Rightarrow> (case kid P t i of None \<Rightarrow> {} | Some c \<Rightarrow> tables m P c))"

lemma tables_kid_tables: "tables l P t = insert t (\<Union>i<kEntriesPerTable. kid_tables l P t i)"
proof (cases l)
  case (Suc m)
  have "i < kEntriesPerTable" if "kid P t i = Some c" for i c using that by (auto simp: kid_def split: option.splits if_splits)
  then have "(\<Union>i. case kid P t i of None \<Rightarrow> {} | Some c \<Rightarrow> tables m P c) = (\<Union>i<kEntriesPerTable. kid_tables l P t i)"
    by (fastforce simp: kid_tables_def Suc split: option.splits)
  then show ?thesis by (simp add: Suc)
qed (simp add: kid_tables_def)

definition frees :: "u64 set \<Rightarrow> vm \<Rightarrow> vm \<Rightarrow> bool" where
  "frees A v v' \<longleftrightarrow> (\<exists>fs. v_freed v' = v_freed v @ fs \<and> distinct fs \<and> set fs = A) \<and>
     v_alloc v' = v_alloc v \<and> v_kernel_page_dir v' = v_kernel_page_dir v"

lemma frees_refl: "frees {} v v"
  by (simp add: frees_def)

lemma frees_trans: "frees A v v1 \<Longrightarrow> frees B v1 v2 \<Longrightarrow> A \<inter> B = {} \<Longrightarrow> frees (A \<union> B) v v2"
  unfolding frees_def by (elim conjE exE, intro conjI) (rule_tac x = "fs @ fsa" in exI, auto)

text \<open>Clearing an entry takes its subtree out of the tree.\<close>

lemma tree_drop_kid:
  assumes "tree l P t" "P t = Some es" "Q t = Some (es(i := 0))"
    and "\<And>y. y \<noteq> t \<Longrightarrow> y \<notin> kid_tables l P t i \<Longrightarrow> Q y = P y"
  shows "tree l Q t" "j \<noteq> i \<Longrightarrow> kid_tables l Q t j = kid_tables l P t j" "kid_tables l Q t i = {}"
proof -
  have k: "kid Q t = (kid P t)(i := None)" using assms(2,3) by (auto simp: kid_def)
  show "kid_tables l Q t i = {}" by (cases l) (simp_all add: kid_tables_def k)
  have "tree l Q t \<and> (j \<noteq> i \<longrightarrow> kid_tables l Q t j = kid_tables l P t j)" for j
  proof (cases l)
    case 0 then show ?thesis using assms(3) by (simp add: kid_tables_def)
  next
    case (Suc m)
    have same: "tables m Q d = tables m P d" "tree m Q d = tree m P d" if "kid P t n = Some d" "n \<noteq> i" for n d
    proof -
      have "Q y = P y" if "y \<in> tables m P d" for y
      proof (rule assms(4))
        show "y \<noteq> t" using tree_kid [OF assms(1) [unfolded Suc] \<open>kid P t n = Some d\<close>] that by blast
        show "y \<notin> kid_tables l P t i"
          using tree_disjoint [OF assms(1) [unfolded Suc] \<open>kid P t n = Some d\<close> _ \<open>n \<noteq> i\<close>] that
          by (fastforce simp: kid_tables_def Suc split: option.splits)
      qed
      from tree_cong [of m P d Q, OF this] show "tables m Q d = tables m P d" "tree m Q d = tree m P d" by blast+
    qed
    have "tree (Suc m) Q t"
    proof (rule tree_SucI)
      show "Q t \<noteq> None" by (simp add: assms(3))
      show "tree m Q d \<and> t \<notin> tables m Q d" if "kid Q t n = Some d" for n d
        using that same [of n d] tree_kid [OF assms(1) [unfolded Suc], of n d] by (auto simp: k split: if_splits)
      show "tables m Q d \<inter> tables m Q e = {}" if "kid Q t n = Some d" "kid Q t p = Some e" "n \<noteq> p" for n p d e
        using that same(1) [of n d] same(1) [of p e] tree_disjoint [OF assms(1) [unfolded Suc], of n d p e]
        by (auto simp: k split: if_splits)
    qed
    then show ?thesis using same(1) by (auto simp: Suc kid_tables_def k split: option.splits)
  qed
  then show "tree l Q t" "j \<noteq> i \<Longrightarrow> kid_tables l Q t j = kid_tables l P t j" by blast+
qed

definition destroys :: "u64 set \<Rightarrow> vm \<Rightarrow> vm \<Rightarrow> bool" where
  "destroys A v v' \<longleftrightarrow> frees A v v' \<and> (\<forall>y. v_pages v' y = (if y \<in> A then None else v_pages v y))"

lemma free_entries_ok:
  assumes "tree l (v_pages v) t" "v_pages v 0 = None" "distinct is" "set is \<subseteq> {..<kEntriesPerTable}"
    and sub: "\<forall>m c w. l = Suc m \<longrightarrow> tree m (v_pages w) c \<longrightarrow> v_pages w 0 = None \<longrightarrow>
           (\<exists>w'. RecursiveFreePageTable m c False w = Done w' \<and> destroys (tables m (v_pages w) c) w w')"
  shows "\<exists>v'. free_entries l is t False v = Done v' \<and> frees (\<Union>i\<in>set is. kid_tables l (v_pages v) t i) v v' \<and>
           v_pages v' t \<noteq> None \<and>
           (\<forall>y. y \<noteq> t \<longrightarrow> v_pages v' y = (if y \<in> (\<Union>i\<in>set is. kid_tables l (v_pages v) t i) then None else v_pages v y))"
  using assms(1-4)
proof (induction "is" arbitrary: v)
  case Nil then show ?case using tree_root [OF Nil.prems(1)] by (simp add: frees_refl)
next
  case (Cons i "is")
  let ?P = "v_pages v"
  obtain es where es: "?P t = Some es" using tree_root [OF Cons.prems(1)] by blast
  have i: "i < kEntriesPerTable" and "i \<notin> set is" using Cons.prems(3,4) by auto
  note k = kid_valid [of ?P, OF es i]
  show ?case
  proof (cases "IsPageTableEntryValid (es i)")
    case False
    then have "kid_tables l ?P t i = {}" using k by (simp add: kid_tables_def split: nat.split)
    then show ?thesis using Cons.IH [of v] Cons.prems es False by (simp add: read_entry_def)
  next
    case True
    let ?c = "PageTableEntryToPhysical (es i)"
    let ?A = "kid_tables l ?P t i"
    have tA: "t \<notin> ?A" using tree_kid [of "l - 1" ?P t i] Cons.prems(1) by (auto simp: kid_tables_def split: nat.splits option.splits)
    have "\<exists>w. (if l > 0 then RecursiveFreePageTable (l - 1) ?c False v else Done v) = Done w \<and> destroys ?A v w"
    proof (cases l)
      case 0 then show ?thesis by (simp add: kid_tables_def destroys_def frees_refl)
    next
      case (Suc m)
      have "tree m ?P ?c" using tree_kid [of m ?P t i ?c] Cons.prems(1) k True Suc by simp
      then show ?thesis using sub Suc Cons.prems(2) k True by (simp add: kid_tables_def)
    qed
    then obtain w where w: "(if l > 0 then RecursiveFreePageTable (l - 1) ?c False v else Done v) = Done w" "destroys ?A v w"
      by blast
    have wt: "v_pages w t = Some es" using w(2) tA es by (simp add: destroys_def)
    let ?w = "w\<lparr>v_pages := (v_pages w)(t \<mapsto> es(i := 0))\<rparr>"
    have wy: "v_pages ?w y = ?P y" if "y \<noteq> t" "y \<notin> ?A" for y using that w(2) by (simp add: destroys_def)
    have wt': "v_pages ?w t = Some (es(i := 0))" by simp
    note D = tree_drop_kid [of l ?P t es "v_pages ?w", OF Cons.prems(1) es wt' wy]
    have rest: "(\<Union>j\<in>set is. kid_tables l (v_pages ?w) t j) = (\<Union>j\<in>set is. kid_tables l ?P t j)"
      using \<open>i \<notin> set is\<close> by (intro SUP_cong refl D(2)) auto
    have nil: "v_pages ?w 0 = None" using Cons.prems(2) w(2) es by (auto simp: destroys_def)
    have ds: "distinct is" "set is \<subseteq> {..<kEntriesPerTable}" using Cons.prems(3,4) by simp_all
    obtain v' where v': "free_entries l is t False ?w = Done v'"
        "frees (\<Union>j\<in>set is. kid_tables l ?P t j) ?w v'" "v_pages v' t \<noteq> None"
        "\<forall>y. y \<noteq> t \<longrightarrow> v_pages v' y = (if y \<in> (\<Union>j\<in>set is. kid_tables l ?P t j) then None else v_pages ?w y)"
      using Cons.IH [OF D(1) nil ds] unfolding rest by blast
    have run: "free_entries l (i # is) t False v = Done v'"
      using es True w(1) wt v'(1) by (simp add: read_entry_def write_entry_def split: if_splits)
    have "?A \<inter> (\<Union>j\<in>set is. kid_tables l ?P t j) = {}"
      using Cons.prems(1) \<open>i \<notin> set is\<close> tree_disjoint [of "l - 1" ?P t i]
      by (fastforce simp: kid_tables_def split: nat.splits option.splits)
    moreover have "frees ?A v ?w" using w(2) by (simp add: destroys_def frees_def)
    ultimately have "frees (\<Union>j\<in>set (i # is). kid_tables l ?P t j) v v'"
      using frees_trans [OF _ v'(2)] by simp
    moreover have "v_pages v' y = (if y \<in> (\<Union>j\<in>set (i # is). kid_tables l ?P t j) then None else ?P y)" if "y \<noteq> t" for y
      using v'(4) [rule_format, OF that] that w(2) by (auto simp: destroys_def)
    ultimately show ?thesis using run v'(3) by blast
  qed
qed

lemma page_free_destroys:
  assumes "frees A v v'" "t \<notin> A" "\<forall>y. y \<noteq> t \<longrightarrow> v_pages v' y = (if y \<in> A then None else v_pages v y)"
  shows "destroys (insert t A) v (page_free t v')"
proof -
  have "frees {t} v' (page_free t v')" by (simp add: frees_def page_free_def)
  from frees_trans [OF assms(1) this] assms(2) have "frees (insert t A) v (page_free t v')" by simp
  then show ?thesis using assms(3) by (simp add: destroys_def page_free_def)
qed

lemma kid_tables_root: "tree l P t \<Longrightarrow> t \<notin> kid_tables l P t i"
  using tree_kid [of "l - 1" P t i] by (auto simp: kid_tables_def split: nat.splits option.splits)

lemma RecursiveFreePageTable_ok:
  assumes "tree l (v_pages v) t" "v_pages v 0 = None" "l \<le> 3"
  shows "\<exists>v'. obind (free_entries l [0..<kEntriesPerTable] t False v) (\<lambda>v. Done (page_free t v)) = Done v' \<and>
           destroys (tables l (v_pages v) t) v v'"
  using assms
proof (induction l arbitrary: v t)
  case 0
  have r: "set [0..<kEntriesPerTable] \<subseteq> {..<kEntriesPerTable}" by auto
  obtain v' where "free_entries 0 [0..<kEntriesPerTable] t False v = Done v'" "frees {} v v'"
      "\<forall>y. y \<noteq> t \<longrightarrow> v_pages v' y = v_pages v y"
    using free_entries_ok [OF 0(1,2), OF _ r] by (simp add: kid_tables_def) blast
  then show ?case using page_free_destroys [of "{}" v v' t] by simp
next
  case (Suc l)
  have r: "set [0..<kEntriesPerTable] \<subseteq> {..<kEntriesPerTable}" by auto
  have sub: "\<exists>w'. RecursiveFreePageTable l c False w = Done w' \<and> destroys (tables l (v_pages w) c) w w'"
    if "tree l (v_pages w) c" "v_pages w 0 = None" for c w
  proof -
    have "c \<noteq> 0" using tree_root [OF that(1)] that(2) by auto
    then show ?thesis using Suc.IH [OF that] Suc.prems(3) by (simp add: kPageTableLevels_def)
  qed
  let ?U = "\<Union>i\<in>set [0..<kEntriesPerTable]. kid_tables (Suc l) (v_pages v) t i"
  obtain v' where v': "free_entries (Suc l) [0..<kEntriesPerTable] t False v = Done v'" "frees ?U v v'"
      "\<forall>y. y \<noteq> t \<longrightarrow> v_pages v' y = (if y \<in> ?U then None else v_pages v y)"
    using free_entries_ok [OF Suc.prems(1,2) distinct_upt r] sub by blast
  have "t \<notin> ?U" using kid_tables_root [OF Suc.prems(1)] by blast
  moreover have "tables (Suc l) (v_pages v) t = insert t ?U" unfolding tables_kid_tables by auto
  ultimately show ?case using v'(1) page_free_destroys [OF v'(2) _ v'(3)] by simp
qed

lemma DestroyPageDirectory_destroys:
  assumes "tree 3 (v_pages v) dir" "v_pages v 0 = None"
  shows "\<exists>v'. DestroyPageDirectory dir False v = Done v' \<and> destroys (tables 3 (v_pages v) dir) v v'"
proof -
  have "dir \<noteq> 0" using tree_root [OF assms(1)] assms(2) by auto
  then have "DestroyPageDirectory dir False v =
      obind (free_entries 3 [0..<kEntriesPerTable] dir False v) (\<lambda>v. Done (page_free dir v))"
    by (cases "free_entries 3 [0..<kEntriesPerTable] dir False v") (simp_all add: DestroyPageDirectory_def kPageTableLevels_def)
  then show ?thesis using RecursiveFreePageTable_ok [OF assms] by simp
qed



subsection \<open>Cloning\<close>

text \<open>
  What a copying pass does to the pages: the destination stays a tree, it takes only pages that
  were free, and every page outside it is as before.
\<close>

definition extends :: "nat \<Rightarrow> u64 \<Rightarrow> vm \<Rightarrow> vm \<Rightarrow> bool" where
  "extends l dst v v' \<longleftrightarrow> heap_ok v' \<and> tree l (v_pages v') dst \<and> v_pages v' 0 = None \<and>
     (\<forall>x. v_pages v x \<noteq> None \<longrightarrow> x \<noteq> dst \<longrightarrow> v_pages v' x = v_pages v x) \<and>
     (\<forall>x\<in>tables l (v_pages v') dst. x \<in> tables l (v_pages v) dst \<or> v_pages v x = None) \<and>
     v_kernel_page_dir v' = v_kernel_page_dir v"

lemma extendsD:
  assumes "extends l dst v v'"
  shows "heap_ok v'" "tree l (v_pages v') dst" "v_pages v' 0 = None"
    "v_pages v x \<noteq> None \<Longrightarrow> x \<noteq> dst \<Longrightarrow> v_pages v' x = v_pages v x"
    "x \<in> tables l (v_pages v') dst \<Longrightarrow> x \<in> tables l (v_pages v) dst \<or> v_pages v x = None"
    "v_kernel_page_dir v' = v_kernel_page_dir v"
  using assms unfolding extends_def by simp_all

lemma extends_refl: "heap_ok v \<Longrightarrow> tree l (v_pages v) dst \<Longrightarrow> v_pages v 0 = None \<Longrightarrow> extends l dst v v"
  by (simp add: extends_def)

lemma extends_trans:
  assumes "extends l dst v v1" "extends l dst v1 v2"
  shows "extends l dst v v2"
proof -
  note A = extendsD [OF assms(1)] and B = extendsD [OF assms(2)]
  have "v_pages v2 x = v_pages v x" if "v_pages v x \<noteq> None" "x \<noteq> dst" for x
    using A(4) [OF that] B(4) [of x] that by simp
  moreover have "x \<in> tables l (v_pages v) dst \<or> v_pages v x = None" if "x \<in> tables l (v_pages v2) dst" for x
    using A(4,5) [of x] B(5) [OF that] root_tables [of dst l "v_pages v"] by (cases "x = dst") auto
  ultimately show ?thesis using A(6) B(1,2,3,6) unfolding extends_def by simp
qed

text \<open>A tree disjoint from the destination is not touched and stays disjoint.\<close>

lemma extends_other:
  assumes "extends l dst v v'" "tree m (v_pages v) src" "tables m (v_pages v) src \<inter> tables l (v_pages v) dst = {}"
  shows "tree m (v_pages v') src" "tables m (v_pages v') src = tables m (v_pages v) src"
    "look m (v_pages v') src = look m (v_pages v) src" "tables m (v_pages v') src \<inter> tables l (v_pages v') dst = {}"
proof -
  have "v_pages v' x = v_pages v x" if "x \<in> tables m (v_pages v) src" for x
    using extendsD(4) [OF assms(1)] tables_allocated [OF assms(2) that] that assms(3) root_tables [of dst l] by blast
  from tree_cong [of m "v_pages v" src "v_pages v'", OF this]
  show t: "tree m (v_pages v') src" "tables m (v_pages v') src = tables m (v_pages v) src"
    "look m (v_pages v') src = look m (v_pages v) src" using assms(2) by simp_all
  show "tables m (v_pages v') src \<inter> tables l (v_pages v') dst = {}"
    unfolding t(2) using extendsD(5) [OF assms(1)] assms(3) tables_allocated [OF assms(2)] by blast
qed

definition in_range :: "(nat \<Rightarrow> nat) \<Rightarrow> bool" where
  "in_range g \<longleftrightarrow> (\<forall>j. g j < kEntriesPerTable)"

definition cloned :: "nat \<Rightarrow> nat set \<Rightarrow> u64 \<Rightarrow> u64 \<Rightarrow> bool \<Rightarrow> vm \<Rightarrow> unit Expected \<Rightarrow> vm \<Rightarrow> bool" where
  "cloned l I src dst cm v r v' \<longleftrightarrow> extends l dst v v' \<and>
     (case r of
        Inl e \<Rightarrow> e = kVmAllocationFailed
      | Inr _ \<Rightarrow> (\<forall>g. in_range g \<longrightarrow> mapped l (v_pages v') dst g =
          (if g l \<in> I then if cm then mapped l (v_pages v) src g else None else mapped l (v_pages v) dst g)))"

text \<open>A page taken from the allocator and cleared.\<close>

abbreviation fresh_table :: "u64 \<Rightarrow> u64 list \<Rightarrow> vm \<Rightarrow> vm" where
  "fresh_table a as v \<equiv> page_clear a (v\<lparr>v_alloc := as\<rparr>)"

lemma fresh_table_ok:
  assumes "heap_ok v" "v_alloc v = a # as" "a \<noteq> 0"
  shows "heap_ok (fresh_table a as v)" "v_pages v a = None" "frame_addr a"
    "v_pages (fresh_table a as v) = (v_pages v)(a \<mapsto> (\<lambda>_. 0))"
  using assms by (auto simp: heap_ok_def page_clear_def)

lemma clone_child:
  assumes "tree (Suc l) (v_pages v) dst" "v_pages v dst = Some ed" "i < kEntriesPerTable" "ed i = 0"
    and "heap_ok v" "v_alloc v = a # as" "a \<noteq> 0" "v_pages v 0 = None"
    and "extends l a (fresh_table a as v) w"
  defines "u \<equiv> w\<lparr>v_pages := (v_pages w)(dst \<mapsto> ed(i := PhysicalToPageTableEntry a GetTableEntryPermissions))\<rparr>"
  shows "v_pages w dst = Some ed" "extends (Suc l) dst v (page_free a w)" "extends (Suc l) dst v u"
    and "mapped (Suc l) (v_pages u) dst g = (if g (Suc l) = i then mapped l (v_pages w) a g else mapped (Suc l) (v_pages v) dst g)"
proof -
  let ?P = "v_pages v" and ?Q = "v_pages u"
  have [simp]: "v_kernel_page_dir u = v_kernel_page_dir w" "v_alloc u = v_alloc w" by (simp_all add: u_def)
  have Q: "?Q = (v_pages w)(dst \<mapsto> ed(i := PhysicalToPageTableEntry a GetTableEntryPermissions))" by (simp add: u_def)
  note F = fresh_table_ok [OF assms(5-7)]
  note E = extendsD [OF assms(9), unfolded F(4)]
  have keep: "v_pages w x = ?P x" if "?P x \<noteq> None" for x
    using E(4) [of x] that F(2) by (cases "x = a") auto
  have new: "?P x = None" if "x \<in> tables l (v_pages w) a" for x
    using E(5) [OF that] F(2) zero_page(3) [of "?P(a \<mapsto> (\<lambda>_. 0))" a l] by (auto split: if_splits)
  show wd: "v_pages w dst = Some ed" using keep [of dst] assms(2) by simp
  have d: "dst \<noteq> a" "dst \<noteq> 0" using assms(2,8) F(2) by auto
  have dT: "dst \<notin> tables l (v_pages w) a" using new [of dst] assms(2) by auto
  then have same: "?Q x = v_pages w x" if "x \<in> tables l (v_pages w) a" for x using that by (auto simp: u_def)
  have sub: "tables l ?Q a = tables l (v_pages w) a" "tree l ?Q a" "look l ?Q a = look l (v_pages w) a"
    using tree_cong [of l "v_pages w" a ?Q, OF same] E(2) by simp_all
  have k: "kid ?Q dst = (kid ?P dst)(i \<mapsto> a)"
    using kid_write [of "v_pages w", OF wd assms(3) F(3)] kid_cong [of "v_pages w" dst ?P] wd assms(2) by (simp add: u_def)
  have other: "?Q y = ?P y \<and> y \<notin> tables l ?Q a" if "kid ?P dst j = Some e" "y \<in> tables l ?P e" for j e y
    using tree_kid [OF assms(1) that(1)] that(2) tables_allocated [of l ?P e y] keep [of y] new [of y] unfolding sub(1) by (auto simp: Q)
  have Qd: "?Q dst \<noteq> None" by (simp add: Q)
  have ki: "kid ?P dst i = None" using kid_valid [of ?P, OF assms(2,3)] assms(4) by simp
  show "mapped (Suc l) ?Q dst g = (if g (Suc l) = i then mapped l (v_pages w) a g else mapped (Suc l) ?P dst g)"
    using tree_replace(4) [of l ?P dst ?Q i a g, OF assms(1) _ k sub(2)] dT other Qd by (simp add: sub mapped_def)
  have "tree (Suc l) ?Q dst" using tree_replace(1) [of l ?P dst ?Q i a, OF assms(1) _ k sub(2)] dT other Qd by (simp add: sub)
  moreover have "x \<in> tables (Suc l) ?P dst \<or> ?P x = None" if "x \<in> tables (Suc l) ?Q dst" for x
    using that tree_replace(2) [of l ?P dst ?Q i a x, OF assms(1) _ k sub(2)] dT other Qd new [of x]
    by (auto simp: sub tables_Suc_iff simp del: tables.simps)
  moreover have "heap_ok u" using E(1) wd by (auto simp: heap_ok_def Q)
  ultimately show "extends (Suc l) dst v u"
    using keep E(3,6) d by (auto simp: extends_def page_clear_def Q)
  have hf: "heap_ok (page_free a w)" using E(1) by (auto simp: heap_ok_def page_free_def)
  have pf: "v_pages (page_free a w) x = ?P x" if "?P x \<noteq> None" for x using keep [OF that] that F(2) by (auto simp: page_free_def)
  then have "v_pages (page_free a w) x = ?P x" if "x \<in> tables (Suc l) ?P dst" for x
    using tables_allocated [OF assms(1) that] by blast
  from tree_cong [of "Suc l" ?P dst "v_pages (page_free a w)", OF this]
  have "tree (Suc l) (v_pages (page_free a w)) dst" "tables (Suc l) (v_pages (page_free a w)) dst = tables (Suc l) ?P dst"
    using assms(1) by blast+
  then show "extends (Suc l) dst v (page_free a w)"
    unfolding extends_def using hf pf E(3,6) by (simp add: page_free_def page_clear_def)
qed

text \<open>One entry of the source: the loop goes on with a larger destination or fails.\<close>

definition entry_cloned :: "nat \<Rightarrow> nat \<Rightarrow> u64 \<Rightarrow> u64 \<Rightarrow> bool \<Rightarrow> page \<Rightarrow> vm \<Rightarrow> vm \<Rightarrow> bool" where
  "entry_cloned l i src dst cm ed v u \<longleftrightarrow> extends l dst v u \<and> (\<exists>eu. v_pages u dst = Some eu \<and> (\<forall>j. j \<noteq> i \<longrightarrow> eu j = ed j)) \<and>
     (\<forall>g. in_range g \<longrightarrow> mapped l (v_pages u) dst g = (if g l = i then if cm then mapped l (v_pages v) src g else None else mapped l (v_pages v) dst g))"

definition clones_below :: "nat \<Rightarrow> bool \<Rightarrow> bool" where
  "clones_below l cm \<longleftrightarrow> (\<forall>m s d w. l = Suc m \<longrightarrow> tree m (v_pages w) s \<longrightarrow> v_pages w d = Some (\<lambda>_. 0) \<longrightarrow>
     d \<notin> tables m (v_pages w) s \<longrightarrow> heap_ok w \<longrightarrow> v_pages w 0 = None \<longrightarrow>
     (\<exists>r w'. RecursiveClonePageTable m s d cm w = Done (r, w') \<and> cloned m {..<kEntriesPerTable} s d cm w r w'))"

lemma clone_entry_leaf:
  assumes "v_pages v src = Some es" "v_pages v dst = Some ed" "ed i = 0" "heap_ok v" "v_pages v 0 = None" "src \<noteq> dst"
  shows "\<exists>u. clone_entries 0 (i # is) src dst cm v = clone_entries 0 is src dst cm u \<and> entry_cloned 0 i src dst cm ed v u"
proof (cases "IsPageTableEntryValid (es i) \<and> cm")
  case True
  let ?u = "v\<lparr>v_pages := (v_pages v)(dst \<mapsto> ed(i := es i))\<rparr>"
  have "extends 0 dst v ?u" using assms(2,4,5) by (auto simp: extends_def heap_ok_def)
  then have "entry_cloned 0 i src dst cm ed v ?u"
    using True assms(1,2) by (auto simp: entry_cloned_def mapped_def look_0)
  then show ?thesis using True assms(1,2) by (intro exI [of _ ?u]) (simp add: read_entry_def write_entry_def)
next
  case False
  then have "entry_cloned 0 i src dst cm ed v v"
    using assms by (auto simp: entry_cloned_def mapped_def look_0 intro!: extends_refl)
  then show ?thesis using False assms(1) by (intro exI [of _ v]) (auto simp: read_entry_def)
qed

lemma clone_entry_table:
  assumes "tree (Suc m) (v_pages v) src" "tree (Suc m) (v_pages v) dst" "heap_ok v" "v_pages v 0 = None" "i < kEntriesPerTable"
    and "v_pages v src = Some es" "v_pages v dst = Some ed" "ed i = 0" "clones_below (Suc m) cm"
  shows "(\<exists>u. clone_entries (Suc m) (i # is) src dst cm v = clone_entries (Suc m) is src dst cm u \<and> entry_cloned (Suc m) i src dst cm ed v u) \<or>
         (\<exists>u. clone_entries (Suc m) (i # is) src dst cm v = Done (Inl kVmAllocationFailed, u) \<and> extends (Suc m) dst v u)"
proof -
  let ?P = "v_pages v" and ?c = "PageTableEntryToPhysical (es i)"
  note k = kid_valid [of ?P, OF assms(6,5)]
  have kd: "kid ?P dst i = None" using kid_valid [of ?P, OF assms(7,5)] assms(8) by simp
  consider (skip) "\<not> IsPageTableEntryValid (es i)"
    | (out) "IsPageTableEntryValid (es i)" "v_alloc v = [] \<or> hd (v_alloc v) = 0"
    | (alloc) a as where "IsPageTableEntryValid (es i)" "v_alloc v = a # as" "a \<noteq> 0" by (cases "v_alloc v") auto
  then show ?thesis
  proof cases
    case skip
    then have "entry_cloned (Suc m) i src dst cm ed v v"
      unfolding entry_cloned_def using assms(2-4,7) k kd extends_refl [OF assms(3,2,4)] by (simp add: mapped_Suc)
    then show ?thesis using skip assms(6) by (intro disjI1 exI [of _ v]) (simp add: read_entry_def)
  next
    case out
    let ?u = "v\<lparr>v_alloc := tl (v_alloc v)\<rparr>"
    have "extends (Suc m) dst v ?u" using assms(2-4) by (cases "v_alloc v") (auto simp: extends_def heap_ok_def)
    then show ?thesis using out assms(6) by (intro disjI2 exI [of _ ?u]) (auto simp: read_entry_def page_alloc_def split: list.split)
  next
    case (alloc a as)
    note F = fresh_table_ok [OF assms(3) alloc(2,3)]
    let ?v = "fresh_table a as v"
    have c: "kid ?P src i = Some ?c" "tree m ?P ?c" using tree_kid [OF assms(1)] k alloc(1) by simp_all
    have fr: "a \<notin> tables m ?P ?c" using tables_allocated [OF c(2)] F(2) by blast
    have same: "v_pages ?v x = ?P x" if "x \<in> tables m ?P ?c" for x using that fr unfolding F(4) by auto
    have "tree m (v_pages ?v) ?c" "tables m (v_pages ?v) ?c = tables m ?P ?c" "look m (v_pages ?v) ?c = look m ?P ?c"
      using tree_cong [of m ?P ?c "v_pages ?v", OF same] c(2) by simp_all
    note T = this
    have "v_pages ?v a = Some (\<lambda>_. 0)" "v_pages ?v 0 = None" "a \<notin> tables m (v_pages ?v) ?c"
      using fr assms(4) alloc(3) T(2) unfolding F(4) by simp_all
    then obtain r w where w: "RecursiveClonePageTable m ?c a cm ?v = Done (r, w)" "cloned m {..<kEntriesPerTable} ?c a cm ?v r w"
      using assms(9) F(1) T(1) unfolding clones_below_def by blast
    have ex: "extends m a ?v w" using w(2) by (simp add: cloned_def)
    note C = clone_child [OF assms(2,7,5,8,3) alloc(2,3) assms(4) ex]
    show ?thesis
    proof (cases r)
      case (Inl e)
      then show ?thesis using w C(2) alloc assms(6)
        by (intro disjI2 exI [of _ "page_free a w"]) (simp add: read_entry_def page_alloc_def cloned_def del: RecursiveClonePageTable.simps)
    next
      case (Inr x)
      let ?u = "w\<lparr>v_pages := (v_pages w)(dst \<mapsto> ed(i := PhysicalToPageTableEntry a GetTableEntryPermissions))\<rparr>"
      have "mapped m (v_pages w) a g = (if cm then mapped m ?P ?c g else None)" if "in_range g" for g
        using w(2) Inr that T(3) by (simp add: cloned_def mapped_def in_range_def)
      then have "entry_cloned (Suc m) i src dst cm ed v ?u"
        unfolding entry_cloned_def using C(3,4) c(1) by (simp add: mapped_Suc)
      then show ?thesis using w(1) C(1) alloc assms(6) Inr
        by (intro disjI1 exI [of _ ?u]) (simp add: read_entry_def write_entry_def page_alloc_def del: RecursiveClonePageTable.simps)
    qed
  qed
qed

lemma clone_entries_ok:
  assumes "tree l (v_pages v) src" "tree l (v_pages v) dst" "tables l (v_pages v) src \<inter> tables l (v_pages v) dst = {}"
    and "heap_ok v" "v_pages v 0 = None" "distinct is" "set is \<subseteq> {..<kEntriesPerTable}"
    and "v_pages v dst = Some ed" "\<forall>i\<in>set is. ed i = 0" and below: "clones_below l cm"
  shows "\<exists>r v'. clone_entries l is src dst cm v = Done (r, v') \<and> cloned l (set is) src dst cm v r v'"
  using assms(1-9)
proof (induction "is" arbitrary: v ed)
  case Nil then show ?case by (simp add: cloned_def extends_refl)
next
  case (Cons i "is")
  let ?P = "v_pages v"
  have i: "i < kEntriesPerTable" "ed i = 0" "i \<notin> set is" and ds: "distinct is" "set is \<subseteq> {..<kEntriesPerTable}"
    using Cons.prems(6,7,9) by auto
  obtain es where es: "?P src = Some es" using tree_root [OF Cons.prems(1)] by blast
  have ne: "src \<noteq> dst" using Cons.prems(3) root_tables [of src l ?P] root_tables [of dst l ?P] by auto
  consider (on) u where "clone_entries l (i # is) src dst cm v = clone_entries l is src dst cm u" "entry_cloned l i src dst cm ed v u"
    | (fail) u where "clone_entries l (i # is) src dst cm v = Done (Inl kVmAllocationFailed, u)" "extends l dst v u"
  proof (cases l)
    case 0
    then show ?thesis using clone_entry_leaf [OF es Cons.prems(8) i(2) Cons.prems(4,5) ne, of "is" cm] that(1) by blast
  next
    case (Suc m)
    show ?thesis
      using clone_entry_table [of m, folded Suc, OF Cons.prems(1,2,4,5) i(1) es Cons.prems(8) i(2) below, of "is"] that by blast
  qed
  then show ?case
  proof cases
    case on
    obtain eu where eu: "v_pages u dst = Some eu" "\<forall>j. j \<noteq> i \<longrightarrow> eu j = ed j" and ex: "extends l dst v u"
      and mp: "\<forall>g. in_range g \<longrightarrow> mapped l (v_pages u) dst g = (if g l = i then if cm then mapped l ?P src g else None else mapped l ?P dst g)"
      using on(2) unfolding entry_cloned_def by blast
    note O = extends_other [OF ex Cons.prems(1,3)] and X = extendsD [OF ex]
    have z: "\<forall>j\<in>set is. eu j = 0" using eu(2) Cons.prems(9) i(3) by auto
    obtain r v' where r: "clone_entries l is src dst cm u = Done (r, v')" "cloned l (set is) src dst cm u r v'"
      using Cons.IH [OF O(1) X(2) O(4) X(1,3) ds eu(1) z] by blast
    have "mapped l (v_pages u) src = mapped l ?P src" by (rule ext) (simp add: mapped_def O(3))
    then have "cloned l (set (i # is)) src dst cm v r v'"
      using r(2) mp i(3) extends_trans [OF ex] by (auto simp: cloned_def split: sum.splits)
    with r(1) on(1) show ?thesis by auto
  next
    case fail then show ?thesis by (auto simp: cloned_def)
  qed
qed

lemma RecursiveClonePageTable_ok:
  assumes "tree l (v_pages v) src" "v_pages v dst = Some (\<lambda>_. 0)" "dst \<notin> tables l (v_pages v) src" "heap_ok v" "v_pages v 0 = None"
  shows "\<exists>r v'. RecursiveClonePageTable l src dst cm v = Done (r, v') \<and> cloned l {..<kEntriesPerTable} src dst cm v r v'"
  using assms
proof (induction l arbitrary: v src dst)
  case 0
  have "clones_below 0 cm" by (simp add: clones_below_def)
  moreover have "src \<noteq> 0" "dst \<noteq> 0" using 0 by auto
  ultimately show ?case using 0 zero_page(2,3) [of "v_pages v" dst 0] clone_entries_ok [of 0 v src dst "[0..<kEntriesPerTable]" "\<lambda>_. 0" cm]
    by (simp add: atLeast0LessThan)
next
  case (Suc l)
  have "clones_below (Suc l) cm" unfolding clones_below_def using Suc.IH by blast
  moreover have "src \<noteq> 0" "dst \<noteq> 0" using tree_root [OF Suc.prems(1)] Suc.prems by auto
  ultimately show ?case
    using Suc.prems zero_page(2,3) [of "v_pages v" dst "Suc l"] clone_entries_ok [of "Suc l" v src dst "[0..<kEntriesPerTable]" "\<lambda>_. 0" cm]
    by (simp add: atLeast0LessThan del: tree.simps tables.simps)
qed

lemma vm_ok_cong:
  assumes "vm_ok v dir" "\<forall>x\<in>tables 3 (v_pages v) dir. v_pages v' x = v_pages v x" "heap_ok v'"
  shows "vm_ok v' dir" "GetMapping dir va v' = GetMapping dir va v" "tables 3 (v_pages v') dir = tables 3 (v_pages v) dir"
proof -
  have t: "tree 3 (v_pages v) dir" using assms(1) by (simp add: vm_ok_def)
  note C = tree_cong [of 3 "v_pages v" dir "v_pages v'", OF assms(2) [rule_format]]
  show ok: "vm_ok v' dir" using assms(1,3) C(2) by (simp add: vm_ok_def)
  show "GetMapping dir va v' = GetMapping dir va v" by (rule GetMapping_cong [OF assms(1) ok]) (simp add: mapped_def C(4))
  show "tables 3 (v_pages v') dir = tables 3 (v_pages v) dir" by (rule C(1))
qed

lemma in_range_vpn: "in_range (vpn va)"
  using vpn_less by (simp add: in_range_def kEntriesPerTable_def)

lemma destroys_heap_ok: "destroys A v v' \<Longrightarrow> heap_ok v \<Longrightarrow> heap_ok v'"
  by (auto simp: destroys_def frees_def heap_ok_def)

text \<open>The copying pass over a whole directory, from the new root on.\<close>

lemma clone_root:
  assumes "vm_ok v src" "v_pages v 0 = None" "v_alloc v = a # as" "a \<noteq> 0"
  shows "\<exists>r w. RecursiveClonePageTable 3 src a cm (fresh_table a as v) = Done (r, w) \<and> extends 3 a (fresh_table a as v) w \<and>
     vm_ok w src \<and> (\<forall>va. GetMapping src va w = GetMapping src va v) \<and> tables 3 (v_pages w) src \<inter> tables 3 (v_pages w) a = {} \<and>
     (case r of Inl e \<Rightarrow> e = kVmAllocationFailed
      | Inr _ \<Rightarrow> (\<forall>va. GetMapping a va w = (if cm then GetMapping src va v else Done (Inl kVmPageNotMapped))))"
proof -
  let ?v = "fresh_table a as v"
  have t: "src \<noteq> 0" "tree 3 (v_pages v) src" "heap_ok v" using assms(1) by (simp_all add: vm_ok_def)
  note F = fresh_table_ok [OF t(3) assms(3,4)]
  have fr: "a \<notin> tables 3 (v_pages v) src" using tables_allocated [OF t(2)] F(2) by blast
  then have "\<forall>x\<in>tables 3 (v_pages v) src. v_pages ?v x = v_pages v x" unfolding F(4) by auto
  note S = vm_ok_cong [OF assms(1) this F(1)]
  have z: "v_pages ?v a = Some (\<lambda>_. 0)" "v_pages ?v 0 = None" using assms(2,4) unfolding F(4) by simp_all
  obtain r w where w: "RecursiveClonePageTable 3 src a cm ?v = Done (r, w)" "cloned 3 {..<kEntriesPerTable} src a cm ?v r w"
    using RecursiveClonePageTable_ok [of 3 ?v src a cm] S(1,3) z fr F(1) by (auto simp: vm_ok_def)
  have ex: "extends 3 a ?v w" using w(2) by (simp add: cloned_def)
  have dj: "tables 3 (v_pages ?v) src \<inter> tables 3 (v_pages ?v) a = {}"
    using fr zero_page(3) [of "v_pages ?v" a 3, OF z(1)] S(3) by simp
  have st: "tree 3 (v_pages ?v) src" using S(1) by (simp add: vm_ok_def)
  note O = extends_other [OF ex st dj] and X = extendsD [OF ex]
  have W: "vm_ok w src" "\<forall>va. GetMapping src va w = GetMapping src va v"
    using O X(1) t(1) S GetMapping_cong [of ?v src w] by (simp_all add: vm_ok_def mapped_def)
  have da: "vm_ok w a" using X(1,2) assms(4) by (simp add: vm_ok_def)
  have "GetMapping a va w = (if cm then GetMapping src va v else Done (Inl kVmPageNotMapped))" if "r = Inr ()" for va
    using w(2) that in_range_vpn [of va] S(2) [of va, symmetric] S(1) GetMapping_eq [OF da] GetMapping_eq [OF S(1)]
    by (simp add: cloned_def in_range_def)
  then show ?thesis using w ex W O(4) by (cases r) (auto simp: cloned_def)
qed

lemma ClonePageDirectory_clones:
  assumes "vm_ok v src" "v_pages v 0 = None"
  shows "\<exists>r v'. ClonePageDirectory src cm v = Done (r, v') \<and> vm_ok v' src \<and> v_pages v' 0 = None \<and>
           (\<forall>va. GetMapping src va v' = GetMapping src va v) \<and>
           (case r of
              Inl e \<Rightarrow> e = kVmAllocationFailed
            | Inr dst \<Rightarrow> vm_ok v' dst \<and> v_pages v dst = None \<and>
                tables 3 (v_pages v') src \<inter> tables 3 (v_pages v') dst = {} \<and>
                (\<forall>va. GetMapping dst va v' = (if cm then GetMapping src va v else Done (Inl kVmPageNotMapped))))"
proof (cases "v_alloc v = [] \<or> hd (v_alloc v) = 0")
  case True
  let ?v = "v\<lparr>v_alloc := tl (v_alloc v)\<rparr>"
  have "heap_ok ?v" using assms(1) by (cases "v_alloc v") (auto simp: vm_ok_def heap_ok_def)
  moreover have "ClonePageDirectory src cm v = Done (Inl kVmAllocationFailed, ?v)"
    using True assms(1) by (cases "v_alloc v") (auto simp: ClonePageDirectory_def page_alloc_def vm_ok_def)
  ultimately show ?thesis using vm_ok_cong [OF assms(1), of ?v] assms(2) by simp
next
  case False
  then obtain a as where a: "v_alloc v = a # as" "a \<noteq> 0" by (cases "v_alloc v") auto
  let ?v = "fresh_table a as v"
  have t: "src \<noteq> 0" "heap_ok v" using assms(1) by (simp_all add: vm_ok_def)
  obtain r w where w: "RecursiveClonePageTable 3 src a cm ?v = Done (r, w)" "extends 3 a ?v w" "vm_ok w src"
      "\<forall>va. GetMapping src va w = GetMapping src va v" "tables 3 (v_pages w) src \<inter> tables 3 (v_pages w) a = {}"
      "case r of Inl e \<Rightarrow> e = kVmAllocationFailed
       | Inr _ \<Rightarrow> (\<forall>va. GetMapping a va w = (if cm then GetMapping src va v else Done (Inl kVmPageNotMapped)))"
    using clone_root [OF assms a, of cm] by blast
  note X = extendsD [OF w(2)]
  have run: "ClonePageDirectory src cm v = (case r of Inl e \<Rightarrow> obind (DestroyPageDirectory a False w) (\<lambda>v. Done (Inl e, v)) | Inr _ \<Rightarrow> Done (Inr a, w))"
    using t(1) a w(1) by (simp add: ClonePageDirectory_def page_alloc_def kPageTableLevels_def del: RecursiveClonePageTable.simps)
  show ?thesis
  proof (cases r)
    case (Inl e)
    obtain u where u: "DestroyPageDirectory a False w = Done u" "destroys (tables 3 (v_pages w) a) w u"
      using DestroyPageDirectory_destroys [OF X(2,3)] by blast
    have "\<forall>x\<in>tables 3 (v_pages w) src. v_pages u x = v_pages w x" using u(2) w(5) by (auto simp: destroys_def)
    note U = vm_ok_cong [OF w(3) this destroys_heap_ok [OF u(2) X(1)]]
    show ?thesis using U(1,2) w(4,6) run u X(3) Inl by (simp add: destroys_def)
  next
    case (Inr x)
    then show ?thesis using run w(3-6) X(1-3) a(2) fresh_table_ok(2) [OF t(2) a] by (simp add: vm_ok_def)
  qed
qed

text \<open>
  C29. \<open>ClonePageDirectory\<close> returns, and the source translates as before. On success the
  new root was free, the two directories share no table, and the clone translates every address
  as the source does (or none, when the mappings are not to be copied); otherwise the error is
  \<open>kVmAllocationFailed\<close>.
\<close>

theorem ClonePageDirectory_correct:
  assumes "vm_ok v src" "v_pages v 0 = None"
  shows "\<exists>r v'. ClonePageDirectory src cm v = Done (r, v') \<and> vm_ok v' src \<and>
           (\<forall>va. GetMapping src va v' = GetMapping src va v) \<and>
           (case r of
              Inl e \<Rightarrow> e = kVmAllocationFailed
            | Inr dst \<Rightarrow> vm_ok v' dst \<and> v_pages v dst = None \<and>
                tables 3 (v_pages v') src \<inter> tables 3 (v_pages v') dst = {} \<and>
                (\<forall>va. GetMapping dst va v' = (if cm then GetMapping src va v else Done (Inl kVmPageNotMapped))))"
proof -
  obtain r v' where rv: "ClonePageDirectory src cm v = Done (r, v')" "vm_ok v' src" "\<forall>va. GetMapping src va v' = GetMapping src va v"
    using ClonePageDirectory_clones [OF assms, of cm] by blast
  then show ?thesis using ClonePageDirectory_clones [OF assms, of cm] by auto
qed

theorem ClonePageDirectory_correct_witness:
  "vm_ok demo_vm 0x1000 \<and> v_pages demo_vm 0 = None \<and>
   (\<exists>r v'. ClonePageDirectory 0x1000 True demo_vm = Done (r, v') \<and> vm_ok v' 0x1000)"
proof -
  have "v_pages demo_vm 0 = None" by (simp add: demo_vm_def)
  then show ?thesis using ClonePageDirectory_correct [OF demo_vm_ok, of True] demo_vm_ok by blast
qed

subsection \<open>A failed clone\<close>

text \<open>The loops pass over the entries that are zero.\<close>

lemma skip_entries:
  assumes "v_pages v t = Some es" "\<forall>i\<ge>2. es i = 0"
  shows "clone_entries l [2..<n] t dst cm v = Done (Inr (), v)" "free_entries l [2..<n] t fp v = Done v"
proof -
  have "clone_entries l is t dst cm v = Done (Inr (), v) \<and> free_entries l is t fp v = Done v" if "\<forall>i\<in>set is. 2 \<le> i" for "is"
    using that assms by (induction "is") (simp_all add: read_entry_def)
  then show "clone_entries l [2..<n] t dst cm v = Done (Inr (), v)" "free_entries l [2..<n] t fp v = Done v" by simp_all
qed

lemma entries_split: "[0..<kEntriesPerTable] = 0 # 1 # [2..<kEntriesPerTable]"
proof -
  have "[0..<n] = 0 # 1 # [2..<n]" if "2 \<le> n" for n :: nat using that by (simp add: upt_conv_Cons numeral_2_eq_2)
  then show ?thesis by (simp add: kEntriesPerTable_def del: upt_Suc upt_rec_numeral)
qed

text \<open>
  A directory with one table on each of the levels 3, 2 and 1 and two leaf tables, and an
  allocator that gives out after four pages.
\<close>

definition link :: "u64 \<Rightarrow> u64" where
  "link a = PhysicalToPageTableEntry a GetTableEntryPermissions"

definition demo_full_vm :: vm where
  "demo_full_vm = \<lparr>v_pages = [0x1000 \<mapsto> (\<lambda>_. 0)(0 := link 0x2000), 0x2000 \<mapsto> (\<lambda>_. 0)(0 := link 0x3000),
       0x3000 \<mapsto> (\<lambda>_. 0)(0 := link 0x4000, 1 := link 0x5000), 0x4000 \<mapsto> (\<lambda>_. 0), 0x5000 \<mapsto> (\<lambda>_. 0)],
     v_alloc = [0x6000, 0x7000, 0x8000, 0x9000], v_freed = [], v_kernel_page_dir = 0x1000, v_tlb_flushes = 0\<rparr>"

lemma link_valid: "a \<in> {0x2000, 0x3000, 0x4000, 0x5000, 0x6000, 0x7000, 0x8000, 0x9000} \<Longrightarrow>
   IsPageTableEntryValid (link a) \<and> PageTableEntryToPhysical (link a) = a"
  by (auto simp: link_def IsPageTableEntryValid_pack PageTableEntryToPhysical_pack frame_addr_def)

text \<open>
  A clone that runs out of memory keeps pages: the second leaf table cannot be allocated,
  the error paths free the three tables above it and the root, and the first leaf table of the
  copy, at \<open>0x9000\<close>, stays allocated although nothing refers to it.
\<close>

theorem ClonePageDirectory_leaks:
  "\<exists>v'. ClonePageDirectory 0x1000 True demo_full_vm = Done (Inl kVmAllocationFailed, v') \<and>
     v_freed v' = [0x8000, 0x7000, 0x6000] \<and> dom (v_pages v') = insert 0x9000 (dom (v_pages demo_full_vm))"
proof -
  let ?z = "\<lambda>_. 0 :: u64"
  let ?v1 = "fresh_table 0x6000 [0x7000, 0x8000, 0x9000] demo_full_vm"
  let ?v2 = "fresh_table 0x7000 [0x8000, 0x9000] ?v1"
  let ?v3 = "fresh_table 0x8000 [0x9000] ?v2"
  let ?v4 = "fresh_table 0x9000 [] ?v3"
  let ?v5 = "?v4\<lparr>v_pages := (v_pages ?v4)(0x8000 \<mapsto> ?z(0 := link 0x9000))\<rparr>"
  note D = demo_full_vm_def page_clear_def
  note S = entries_split read_entry_def write_entry_def page_alloc_def link_valid link_def [symmetric]
  have c0: "RecursiveClonePageTable 0 0x4000 0x9000 True ?v4 = Done (Inr (), ?v4)"
    using skip_entries(1) [of ?v4 "0x4000" ?z] by (simp add: D S)
  have c1: "RecursiveClonePageTable (Suc 0) 0x3000 0x8000 True ?v3 = Done (Inl kVmAllocationFailed, ?v5)"
    using c0 by (simp add: D S del: One_nat_def)
  have c2: "RecursiveClonePageTable 2 0x2000 0x7000 True ?v2 = Done (Inl kVmAllocationFailed, page_free 0x8000 ?v5)"
    using c1 by (subst RecursiveClonePageTable.simps) (simp add: D S del: One_nat_def RecursiveClonePageTable.simps)
  have c3: "RecursiveClonePageTable 3 0x1000 0x6000 True ?v1 = Done (Inl kVmAllocationFailed, page_free 0x7000 (page_free 0x8000 ?v5))"
    using c2 by (subst RecursiveClonePageTable.simps) (simp add: D S del: One_nat_def RecursiveClonePageTable.simps)
  let ?v6 = "page_free 0x7000 (page_free 0x8000 ?v5)"
  have d: "DestroyPageDirectory 0x6000 False ?v6 = Done (page_free 0x6000 ?v6)"
    using skip_entries(2) [of ?v6 "0x6000" ?z] by (simp add: DestroyPageDirectory_def D S page_free_def kPageTableLevels_def del: One_nat_def)
  have "ClonePageDirectory 0x1000 True demo_full_vm = Done (Inl kVmAllocationFailed, page_free 0x6000 ?v6)"
    using c3 d by (simp add: ClonePageDirectory_def page_alloc_def kPageTableLevels_def demo_full_vm_def del: RecursiveClonePageTable.simps)
  then show ?thesis by (auto simp: page_free_def D split: if_splits)
qed

end
