(* ===== verification/Lifecycle_Properties.thy ===== *)
theory Lifecycle_Properties
  imports Task_Lifecycle Kernel_Steps Page_Directory
begin

text \<open>
  What \<open>Exit\<close>, \<open>Wait\<close> and \<open>Clone\<close> do: \<open>Wait\<close> reaps exactly one dead child, and the
  two calls that cannot complete as they are written.
\<close>

subsection \<open>The lock of the task table\<close>

definition taken :: "size_t \<Rightarrow> kernel \<Rightarrow> kernel" where
  "taken me k = k\<lparr>k_task_table_lock := (k_task_table_lock k)\<lparr>sl_locked := True, sl_core_id := me, sl_saved_intr_enable := k_intr k me\<rparr>,
     k_intr := (k_intr k)(me := False)\<rparr>"

definition relocked :: "size_t \<Rightarrow> kernel \<Rightarrow> kernel" where
  "relocked me k = k\<lparr>k_task_table_lock := (k_task_table_lock k)\<lparr>sl_core_id := no_core, sl_locked := False, sl_saved_intr_enable := k_intr k me\<rparr>\<rparr>"

lemma guard_table_taken: "\<not> sl_locked (k_task_table_lock k) \<Longrightarrow> guard_table me k = Done (taken me k)"
  by (simp add: guard_table_def taken_def set_table_lock_def set_intr_flag_def)

lemma unguard_taken:
  "\<not> sl_locked (k_task_table_lock k) \<Longrightarrow> unguard_table me (taken me k) = relocked me k"
  "\<not> sl_locked (k_task_table_lock k) \<Longrightarrow>
   unguard_table me ((taken me k)\<lparr>k_task_table := m\<rparr>) = (relocked me k)\<lparr>k_task_table := m\<rparr>"
  by (auto simp: unguard_table_def taken_def relocked_def set_table_lock_def set_intr_flag_def fun_upd_idem)

lemma taken_fields [simp]:
  "k_tcbs (taken me k) = k_tcbs k" "k_task_table (taken me k) = k_task_table k" "k_percpu (taken me k) = k_percpu k"
  by (simp_all add: taken_def)

lemma relocked_fields [simp]:
  "k_tcbs (relocked me k) = k_tcbs k" "k_task_table (relocked me k) = k_task_table k" "k_percpu (relocked me k) = k_percpu k"
  "k_cpu (relocked me k) = k_cpu k" "k_intr (relocked me k) = k_intr k" "\<not> sl_locked (k_task_table_lock (relocked me k))"
  by (simp_all add: relocked_def)

subsection \<open>Wait\<close>

text \<open>Every entry of the task table is a live task with that pid.\<close>

definition table_ok :: "kernel \<Rightarrow> bool" where
  "table_ok k \<longleftrightarrow> um_inv hash_u64 (k_task_table k) \<and>
     (\<forall>p e. um_find hash_u64 (k_task_table k) p = Some e \<longrightarrow> (\<exists>t T. e = Some t \<and> k_tcbs k t = Some T \<and> t_pid T = p))"

lemma table_ok_pid:
  assumes "table_ok k" "um_find hash_u64 (k_task_table k) p = Some (Some t)" "k_tcbs k t = Some T"
  shows "t_pid T = p"
  using assms unfolding table_ok_def by fastforce

text \<open>A dead child that the caller waits for.\<close>

definition reapable :: "kernel \<Rightarrow> Pid \<Rightarrow> TaskControlBlock \<Rightarrow> tptr \<Rightarrow> TaskControlBlock \<Rightarrow> bool" where
  "reapable k pid C t T \<longleftrightarrow> k_tcbs k t = Some T \<and> um_find hash_u64 (k_task_table k) (t_pid T) = Some (Some t) \<and>
     pid_match pid T C \<and> (t_status T = kZombie \<or> t_status T = kExited)"

lemma wait_scan_spec:
  assumes "\<forall>(p, e)\<in>set es. \<exists>t T. e = Some t \<and> k_tcbs k t = Some T"
  shows "\<exists>r. wait_scan es pid False C k = Done r \<and>
     (case r of
        Target t \<Rightarrow> (\<exists>p T. (p, Some t) \<in> set es \<and> k_tcbs k t = Some T \<and> pid_match pid T C \<and> (t_status T = kZombie \<or> t_status T = kExited))
      | Stopped p \<Rightarrow> False
      | NoChild \<Rightarrow> (\<forall>p t T. (p, Some t) \<in> set es \<longrightarrow> k_tcbs k t = Some T \<longrightarrow> pid_match pid T C \<longrightarrow> t_status T \<noteq> kZombie \<and> t_status T \<noteq> kExited))"
  using assms
proof (induction es)
  case (Cons x es)
  obtain p t T where x: "x = (p, Some t)" "k_tcbs k t = Some T" using Cons.prems by (cases x) auto
  have sub: "\<forall>(p, e)\<in>set es. \<exists>t T. e = Some t \<and> k_tcbs k t = Some T" using Cons.prems by simp
  obtain r where r: "wait_scan es pid False C k = Done r"
     "case r of
        Target t \<Rightarrow> (\<exists>p T. (p, Some t) \<in> set es \<and> k_tcbs k t = Some T \<and> pid_match pid T C \<and> (t_status T = kZombie \<or> t_status T = kExited))
      | Stopped p \<Rightarrow> False
      | NoChild \<Rightarrow> (\<forall>p t T. (p, Some t) \<in> set es \<longrightarrow> k_tcbs k t = Some T \<longrightarrow> pid_match pid T C \<longrightarrow> t_status T \<noteq> kZombie \<and> t_status T \<noteq> kExited)"
    using Cons.IH [OF sub] by blast
  show ?case
  proof (cases "pid_match pid T C \<and> (t_status T = kZombie \<or> t_status T = kExited)")
    case True
    then show ?thesis using x by (auto simp: get_tcb_def)
  next
    case False
    then have "wait_scan (x # es) pid False C k = Done r" using x r(1) by (auto simp: get_tcb_def)
    then show ?thesis using r(2) False x by (cases r) auto
  qed
qed simp

definition deleted :: "tptr \<Rightarrow> TaskControlBlock \<Rightarrow> kernel \<Rightarrow> kernel" where
  "deleted t T k = k\<lparr>k_tcbs := (k_tcbs k)(t := None),
     k_trace := (if t_kernel_stack T \<noteq> 0 then k_trace k @ [FreeStack (t_kernel_stack T)] else k_trace k)\<rparr>"

lemma delete_task_leaf:
  assumes "k_tcbs (w_kernel w) t = Some T" "t_thread_group_next T = None" "t_thread_group_prev T = None" "t_page_table T = 0"
  shows "delete_task t w = Done (w\<lparr>w_kernel := deleted t T (w_kernel w)\<rparr>)"
  using assms
  by (simp add: delete_task_def delete_TaskControlBlock_def LeaveThreadGroup_def get_tcb_def emit_def Let_def deleted_def)

lemma Wait_reap_spec:
  assumes "table_ok (w_kernel w)" "\<not> sl_locked (k_task_table_lock (w_kernel w))"
    and "reapable (w_kernel w) pid C t T" "t_thread_group_next T = None" "t_thread_group_prev T = None" "t_page_table T = 0"
  shows "Wait_reap me t status C w = Done (Returned (t_pid T) (if status then Some (t_exit_code T) else None),
     w\<lparr>w_kernel := deleted t T ((relocked me (w_kernel w))\<lparr>k_task_table := fst (um_erase hash_u64 (k_task_table (w_kernel w)) (t_pid T))\<rparr>)\<rparr>)"
proof -
  have r: "k_tcbs (w_kernel w) t = Some T" "um_find hash_u64 (k_task_table (w_kernel w)) (t_pid T) = Some (Some t)"
      "t_parent_pid T = t_pid C" "t_status T = kZombie \<or> t_status T = kExited"
    using assms(3) by (auto simp: reapable_def pid_match_def Let_def split: if_splits)
  show ?thesis
    using r assms(2) delete_task_leaf [of "w\<lparr>w_kernel := (relocked me (w_kernel w))\<lparr>k_task_table := fst (um_erase hash_u64 (k_task_table (w_kernel w)) (t_pid T))\<rparr>\<rparr>" t T] assms(4-6)
    by (simp add: Wait_reap_def get_tcb_def guard_table_taken unguard_taken)
qed

lemma table_ok_deleted:
  assumes "table_ok k" "k_tcbs k t = Some T" "um_find hash_u64 (k_task_table k) (t_pid T) = Some (Some t)"
  shows "table_ok (deleted t T (k\<lparr>k_task_table := fst (um_erase hash_u64 (k_task_table k) (t_pid T))\<rparr>))"
proof -
  have i: "um_inv hash_u64 (k_task_table k)" using assms(1) by (simp add: table_ok_def)
  have "\<exists>u U. e = Some u \<and> u \<noteq> t \<and> k_tcbs k u = Some U \<and> t_pid U = p"
    if "um_find hash_u64 (k_task_table k) p = Some e" "p \<noteq> t_pid T" for p e
    using assms(1,2) that unfolding table_ok_def by fastforce
  then show ?thesis using i
    by (auto simp: table_ok_def deleted_def um_inv_erase um_find_erase) (metis (no_types))
qed


text \<open>A parent with pid 1 that runs on core 0 and its dead child with pid 2 and exit code 7.\<close>

definition demo_parent :: TaskControlBlock where
  "demo_parent = default_TaskControlBlock\<lparr>t_pid := 1, t_status := kRunning, t_page_table := 0x1000\<rparr>"

definition demo_zombie :: TaskControlBlock where
  "demo_zombie = default_TaskControlBlock\<lparr>t_pid := 2, t_parent_pid := 1, t_status := kZombie, t_exit_code := 7\<rparr>"

definition demo_family :: kernel where
  "demo_family = store_task (store_task ((kernel_init (\<lambda>_. True))\<lparr>k_tcbs := [10 \<mapsto> demo_parent, 11 \<mapsto> demo_zombie],
     k_percpu := new_PerCpu(0 := (new_PerCpu 0)\<lparr>pc_running_task := Some 10\<rparr>)\<rparr>) 1 10) 2 11"

definition demo_world :: world where
  "demo_world = \<lparr>w_kernel = demo_family, w_vm = demo_vm, w_ints = (\<lambda>_. 0), w_UserStackPointer = 0, w_ThreadPointer = 0, w_ReturnValue = 0\<rparr>"

lemma demo_family_table:
  "um_inv hash_u64 (k_task_table demo_family)"
  "um_find hash_u64 (k_task_table demo_family) p = (if p = 2 then Some (Some 11) else if p = 1 then Some (Some 10) else None)"
proof -
  let ?m = "um_new hash_u64 :: (Pid, tptr option) umap"
  have n: "um_inv hash_u64 ?m" by (rule um_new_correct(1))
  have "um_find hash_u64 ?m q = None" for q by (simp add: um_find_None_iff um_new_correct)
  note f = this um_index_correct [OF n] um_index_correct [OF um_index_correct(1) [OF n]]
  show "um_inv hash_u64 (k_task_table demo_family)"
    "um_find hash_u64 (k_task_table demo_family) p = (if p = 2 then Some (Some 11) else if p = 1 then Some (Some 10) else None)"
    by (simp_all add: demo_family_def store_task_def kernel_init_def f)
qed

lemma demo_family_fields:
  "k_tcbs demo_family = [10 \<mapsto> demo_parent, 11 \<mapsto> demo_zombie]" "GetCurrentTask 0 demo_family = Some 10"
  "\<not> sl_locked (k_task_table_lock demo_family)"
  by (simp_all add: demo_family_def store_task_def kernel_init_def GetCurrentTask_def new_SpinLock_def)


subsection \<open>Exit\<close>

lemma guard_cpu_held:
  "guard_cpu me k = Done k' \<Longrightarrow> sl_locked (cs_lock (k_cpu k' me)) \<and> sl_core_id (cs_lock (k_cpu k' me)) = me"
  by (auto simp: guard_cpu_def set_cpu_lock_def set_intr_flag_def upd_cpu_def outcome_simps)

lemma Wakeup_held:
  "sl_locked (cs_lock (k_cpu k me)) \<Longrightarrow> sl_core_id (cs_lock (k_cpu k me)) = me \<Longrightarrow> Wakeup me r k = Fault LockGuardHang"
  by (simp add: Wakeup_def guard_cpu_def)

lemma upd_tcb_cpu: "upd_tcb k t f = Done k' \<Longrightarrow> k_cpu k' = k_cpu k"
  by (auto simp: upd_tcb_def outcome_simps)

lemma reparent_entries_cpu: "reparent_entries es par k = Done k' \<Longrightarrow> k_cpu k' = k_cpu k"
proof (induction es arbitrary: k)
  case (Cons e es)
  obtain p x where e: "e = (p, x)" by (cases e)
  show ?case
  proof (cases x)
    case None then show ?thesis using Cons e by simp
  next
    case (Some t)
    with Cons.prems e consider "reparent_entries es par k = Done k'"
      | k1 f where "upd_tcb k t f = Done k1" "reparent_entries es par k1 = Done k'"
      by (auto simp: outcome_simps split: if_splits)
    then show ?thesis by cases (use Cons.IH upd_tcb_cpu in \<open>auto\<close>)
  qed
qed simp

lemma ReparentChildren_cpu: "ReparentChildren me par k = Done k' \<Longrightarrow> k_cpu k' = k_cpu k"
  by (auto simp: ReparentChildren_def guard_table_def unguard_table_def set_table_lock_def set_intr_flag_def outcome_simps
      split: option.splits dest: reparent_entries_cpu)

text \<open>A task that is reaped is gone when the log call reads its pid.\<close>

lemma ReapTask_dead:
  assumes "k_tcbs k t = Some T" "t_status T = kZombie \<or> t_status T = kExited"
  shows "ReapTask me (Some t) k \<noteq> Done k'"
proof -
  have "get_tcb k1 t = Fault UseAfterFree" if "delete_TaskControlBlock t k0 = Done k1" for k0 k1
    using that by (auto simp: delete_TaskControlBlock_def get_tcb_def Let_def outcome_simps)
  then show ?thesis using assms by (auto simp: ReapTask_def get_tcb_def [of k] Let_def outcome_simps)
qed

lemma Exit_leave_cpu: "Exit_leave me c code k = Done k' \<Longrightarrow> k_cpu k' = k_cpu k"
  by (auto simp: Exit_leave_def Let_def outcome_simps split: if_splits dest!: upd_tcb_cpu ReparentChildren_cpu)

lemma Exit_settle_held:
  assumes "sl_locked (cs_lock (k_cpu k me))" "sl_core_id (cs_lock (k_cpu k me)) = me"
  shows "Exit_settle me c k \<noteq> Done k'"
proof (cases "k_tcbs k c")
  case None
  then show ?thesis by (simp add: Exit_settle_def get_tcb_def)
next
  case (Some C)
  let ?k = "\<lambda>st. k\<lparr>k_tcbs := (k_tcbs k)(c \<mapsto> set_status st C)\<rparr>"
  have u: "upd_tcb k c (set_status st) = Done (?k st)" for st using Some by (simp add: upd_tcb_def)
  have "ReapTask me (Some c) (?k kExited) \<noteq> Done k'" by (rule ReapTask_dead [of _ _ "set_status kExited C"]) (simp_all add: set_status_def)
  moreover have "Wakeup me r (?k kZombie) = Fault LockGuardHang" for r using assms by (intro Wakeup_held) simp_all
  ultimately show ?thesis using Some by (simp add: Exit_settle_def get_tcb_def u)
qed


subsection \<open>Clone\<close>

text \<open>The steps of \<open>Clone\<close> before \<open>AddTask\<close> keep the status of the child.\<close>

definition status_of :: "kernel \<Rightarrow> tptr \<Rightarrow> TaskStatus option" where
  "status_of k t = map_option t_status (k_tcbs k t)"

lemma JoinThreadGroup_status:
  assumes "JoinThreadGroup h t l = Done h'"
  shows "map_option t_status (h' x) = map_option t_status (h x)"
proof -
  have m: "map_option t_status (g' x) = map_option t_status (g x)" if "modify g y f = Done g'" "\<forall>T. t_status (f T) = t_status T" for g g' y f
    using that by (auto simp: outcome_simps)
  show ?thesis
    using assms by (auto simp: JoinThreadGroup_def obind_Done_iff split: option.splits if_splits dest!: m)
qed

lemma Clone_group_status:
  assumes "Clone_group me c par P flags k = Done k'"
  shows "status_of k' c = status_of k c"
proof -
  have "k_tcbs k1 = k_tcbs k" if "FindTask me p k = Done (l, k1)" for p l k1
    using that by (auto simp: FindTask_def guard_table_def unguard_table_def set_table_lock_def set_intr_flag_def outcome_simps)
  then show ?thesis
    using assms unfolding status_of_def
    by (auto simp: Clone_group_def outcome_simps upd_tcb_def split: if_splits option.splits dest!: JoinThreadGroup_status) 
qed

lemma upd_tcb_status: "upd_tcb k t f = Done k' \<Longrightarrow> \<forall>T. t_status (f T) = t_status T \<Longrightarrow> status_of k' x = status_of k x"
  by (auto simp: upd_tcb_def status_of_def outcome_simps)

lemma Clone_publish_fails: "status_of k c = Some kReady \<Longrightarrow> Clone_publish me c p k \<noteq> Done k'"
  by (auto simp: Clone_publish_def AddTask_def status_of_def get_tcb_def guard_table_def unguard_table_def set_table_lock_def set_intr_flag_def
      store_task_def outcome_simps)

lemma Clone_finish_fails:
  assumes "status_of (w_kernel w) c = Some kReady"
  shows "Clone_finish me c d p stack tc_size flags us pt ct tls w \<noteq> Done (Inr q, w')"
proof
  assume "Clone_finish me c d p stack tc_size flags us pt ct tls w = Done (Inr q, w')"
  then obtain k1 w1 k2 where s: "upd_tcb (w_kernel w) c (\<lambda>T. T\<lparr>t_page_table := d, t_kernel_stack := stack\<rparr>) = Done k1"
      "Clone_context c tc_size p stack us pt ct tls (w\<lparr>w_kernel := k1\<rparr>) = Done w1" "Clone_publish me c p (w_kernel w1) = Done k2"
    by (auto simp: Clone_finish_def outcome_simps split: if_splits)
  have "status_of k1 c = Some kReady" using upd_tcb_status [OF s(1)] assms by simp
  moreover have "status_of (w_kernel w1) c = status_of k1 c"
    using s(2) by (auto simp: Clone_context_def Let_def outcome_simps dest!: upd_tcb_status)
  ultimately show False using Clone_publish_fails s(3) by simp
qed

text \<open>
  C32. \<open>Clone\<close> never returns a pid: the child it builds has status \<open>kReady\<close>, and
  \<open>AddTask\<close>, the last step, asserts \<open>kUnInit\<close>.
\<close>

theorem Clone_never_succeeds: "Clone me child stack tc_size flags us pt ct tls w \<noteq> Done (Inr p, w')"
proof
  assume "Clone me child stack tc_size flags us pt ct tls w = Done (Inr p, w')"
  then obtain c par P k0 k1 k2 v d n where s: "Clone_group me c par P (complete_flags flags) k0 = Done k1"
      "upd_tcb k1 c (\<lambda>T. T\<lparr>t_clone_flags := complete_flags flags\<rparr>) = Done k2"
      "Clone_finish me c d n stack tc_size (complete_flags flags) us pt ct tls (w\<lparr>w_kernel := k2, w_vm := v\<rparr>) = Done (Inr p, w')"
      "k_tcbs k0 c = Some (child_fields P n (complete_flags flags))"
    by (fastforce simp: Clone_def AllocatePid_def Let_def outcome_simps split: option.splits if_splits)
  have "status_of k2 c = Some kReady"
    using Clone_group_status [OF s(1)] upd_tcb_status [OF s(2)] s(4) by (simp add: status_of_def child_fields_def)
  with s(3) Clone_finish_fails [of "w\<lparr>w_kernel := k2, w_vm := v\<rparr>" c] show False by simp
qed

text \<open>A page directory that is freed cannot be destroyed again.\<close>

lemma DestroyPageDirectory_freed:
  "v_pages v d = None \<Longrightarrow> d \<noteq> 0 \<Longrightarrow> DestroyPageDirectory d fp v = Fault UseAfterFree"
  by (simp add: DestroyPageDirectory_def entries_split read_entry_def)

text \<open>
  When the kernel stack of a process with its own address space cannot be allocated,
  \<open>Clone\<close> does not report the error: it destroys the copied page directory and then deletes
  the child, whose destructor destroys the same directory again.
\<close>

theorem Clone_stack_failure_double_free:
  assumes "GetCurrentTask me (w_kernel w) = Some par" "k_tcbs (w_kernel w) par = Some P"
    and "vm_ok (w_vm w) (t_page_table P)" "v_pages (w_vm w) 0 = None" "\<not> has_flag (complete_flags flags) kCloneVm"
  shows "Clone me child 0 tc_size flags us pt ct tls w \<noteq> Done (Inl kTaskKernelStackAllocationFailed, w')"
proof
  have pt: "t_page_table P \<noteq> 0" using assms(3) by (simp add: vm_ok_def)
  assume "Clone me child 0 tc_size flags us pt ct tls w = Done (Inl kTaskKernelStackAllocationFailed, w')"
  then obtain c k2 v d n where s: "Clone_vm P (complete_flags flags) (w_vm w) = Done (Some d, v)"
      "Clone_finish me c d n 0 tc_size (complete_flags flags) us pt ct tls (w\<lparr>w_kernel := k2, w_vm := v\<rparr>)
         = Done (Inl kTaskKernelStackAllocationFailed, w')"
    using assms(1,2) by (auto simp: Clone_def AllocatePid_def get_tcb_def Let_def outcome_simps split: option.splits if_splits)
  obtain r where "ClonePageDirectory (t_page_table P) True (w_vm w) = Done (r, v)" "(case r of Inl e \<Rightarrow> None | Inr d \<Rightarrow> Some d) = Some d"
    using s(1) assms(5) pt by (auto simp: Clone_vm_def outcome_simps)
  then have c: "ClonePageDirectory (t_page_table P) True (w_vm w) = Done (Inr d, v)" by (cases r) simp_all
  have v: "vm_ok v d" "v_pages v 0 = None" using ClonePageDirectory_clones [OF assms(3,4), of True] c by auto
  then obtain v1 where v1: "DestroyPageDirectory d False v = Done v1" "v_pages v1 d = None" "d \<noteq> 0"
    using DestroyPageDirectory_destroys [of v d] root_tables [of d 3] by (auto simp: vm_ok_def destroys_def)
  note F = DestroyPageDirectory_freed [OF v1(2,3)]
  show False
    using s(2) v1 assms(5) F by (auto simp: Clone_finish_def delete_task_def upd_tcb_def get_tcb_def outcome_simps)
qed

theorem Clone_stack_failure_double_free_witness:
  "\<forall>w'. Clone 0 (Some 12) 0 1 0 0 0 0 0 demo_world \<noteq> Done (Inl kTaskKernelStackAllocationFailed, w')"
proof -
  have "GetCurrentTask 0 (w_kernel demo_world) = Some 10" "k_tcbs (w_kernel demo_world) 10 = Some demo_parent"
    "vm_ok (w_vm demo_world) (t_page_table demo_parent)" "v_pages (w_vm demo_world) 0 = None" "\<not> has_flag (complete_flags 0) kCloneVm"
    using demo_vm_ok by (simp_all add: demo_world_def demo_family_fields demo_parent_def demo_vm_def complete_flags_def has_flag_def)
  from Clone_stack_failure_double_free [OF this] show ?thesis by blast
qed

end
