(* ===== verification/Scheduling_Properties.thy ===== *)
theory Scheduling_Properties
  imports Kernel_Steps
begin

text \<open>
  What the scheduling operations do, one theorem for each, stated on the code's state: the
  choice of \<open>Schedule\<close>, the wake-ups of \<open>TickUpdate\<close>, the time a task sleeps, waiting and
  being woken, and the task table.
\<close>

subsection \<open>Schedule\<close>

text \<open>
  C3. \<open>Schedule\<close> implements the abstract decision. The running task, unless it is the
  idle task, goes to the end of the ready queue of its policy; then the first real-time task,
  else the first normal task, else the idle task becomes the current task. The call returns
  with the lock free and interrupts enabled, and changes only blocks of its own core.
\<close>

theorem Schedule_refines:
  assumes "core_rel k me a" "unlocked k me" "a_run a = Some r"
  shows "\<exists>k'. Schedule me k = Done k' \<and> core_rel k' me (a_schedule (pol_of (k_tcbs k)) a) \<and>
           GetCurrentTask me k' = Some (a_next (a_requeue (pol_of (k_tcbs k)) a)) \<and>
           unlocked k' me \<and> k_intr k' me \<and> touch me (owned a) k k'"
proof -
  have run: "GetCurrentTask me k' = Some (a_next (a_requeue (pol_of (k_tcbs k)) a))"
    if "core_rel k' me (a_schedule (pol_of (k_tcbs k)) a)" for k'
    using core_rel_parts(3) [OF that] by (simp add: run_rel_def GetCurrentTask_def a_schedule_def)
  show ?thesis using Schedule_running [OF assms] run by blast
qed

theorem Schedule_refines_witness:
  "core_rel demo_ready 0 demo_core \<and> (\<exists>k'. Schedule 0 demo_ready = Done k' \<and> GetCurrentTask 0 k' = Some 2)"
  using Schedule_refines [OF demo_ready_core, of 1] demo_ready_core(1)
  by (auto simp: a_requeue_def a_next_def)

subsection \<open>TickUpdate\<close>

text \<open>
  C22. A timer tick advances the core's clock by one and makes ready exactly the sleepers whose
  wake-up time has come, earliest first; the others stay asleep. If any task was woken the core
  reschedules.
\<close>

theorem TickUpdate_wakes_due:
  assumes "core_rel k me a" "unlocked k me" "a_run a = Some r"
  shows "\<exists>k' woken need. TickUpdate me k = Done k' \<and> cs_local_tick (k_cpu k' me) = cs_local_tick (k_cpu k me) + 1 \<and>
           mset woken = filter_mset (\<lambda>t. wake_tick (k_tcbs k) t \<le> cs_local_tick (k_cpu k me) + 1) (a_slp a) \<and>
           sorted (map (wake_tick (k_tcbs k)) woken) \<and> (woken \<noteq> [] \<longrightarrow> need) \<and>
           core_rel k' me (if need then a_schedule (pol_of (k_tcbs k)) (a_wake (pol_of (k_tcbs k)) woken a)
                           else a_wake (pol_of (k_tcbs k)) woken a) \<and> unlocked k' me"
  using TickUpdate_ok [OF assms] by blast

theorem TickUpdate_wakes_due_witness:
  "core_rel demo_ready 0 demo_core \<and> (\<exists>k'. TickUpdate 0 demo_ready = Done k' \<and>
     cs_local_tick (k_cpu k' 0) = cs_local_tick (k_cpu demo_ready 0) + 1)"
  using TickUpdate_wakes_due [OF demo_ready_core, of 1] demo_ready_core(1) by auto

subsection \<open>Sleeping\<close>

lemma sleep_ticks_exact:
  assumes "unat ms * 1000 + 999 < 2 ^ 64" "ms \<noteq> 0"
  shows "sleep_ticks ms = ms"
proof -
  define x where "x = ms * TICK"
  have x: "unat x = unat ms * 1000" using assms(1) by (simp add: x_def TICK_def unat_word_ariths)
  then have "unat (x + 999) = unat ms * 1000 + 999" using assms(1) by (simp add: unat_word_ariths)
  then have "unat ((x + 999) div 1000) = unat ms" by (simp add: unat_div)
  then have "(x + 999) div 1000 = ms" by (simp only: word_unat_eq_iff)
  then have "(ms * TICK + kMillisecondsPerSecond - 1) div kMillisecondsPerSecond = ms"
    by (simp add: x_def kMillisecondsPerSecond_def add.commute)
  then show ?thesis using assms(2) by (simp add: sleep_ticks_def Let_def)
qed

text \<open>
  A sleep of \<open>ms\<close> milliseconds lasts \<open>ms\<close> ticks as long as \<open>ms * 1000 + 999\<close>
  fits into 64 bits: the caller leaves the ready queues, is entered into the sleepers with that
  wake-up time, and the next task takes over.
\<close>

theorem Sleep_registers:
  assumes "core_rel k me a" "unlocked k me" "a_run a = Some r" "r \<noteq> a_idle a"
    and "ms \<noteq> 0" "unat ms * 1000 + 999 < 2 ^ 64"
  shows "\<exists>k'. Sleep me ms k = Done k' \<and> core_rel k' me (a_pick (a_sleep r a)) \<and> unlocked k' me \<and>
           wake_tick (k_tcbs k') = (wake_tick (k_tcbs k))(r := cs_local_tick (k_cpu k me) + ms)"
  using Sleep_ok [OF assms(1-5)] sleep_ticks_exact [OF assms(6,5)] by auto

theorem Sleep_registers_witness:
  "core_rel demo_running 0 demo_run_core \<and>
   (\<exists>k'. Sleep 0 5 demo_running = Done k' \<and> core_rel k' 0 (a_pick (a_sleep 2 demo_run_core)) \<and>
         wake_tick (k_tcbs k') 2 = cs_local_tick (k_cpu demo_running 0) + 5)"
  using Sleep_registers [OF demo_running_ok(1-3), of 5] demo_running_ok by auto

text \<open>
  Beyond that bound the product wraps: a sleep of \<open>2 ^ 61\<close> milliseconds, some seventy
  million years, ends after a single tick.
\<close>

theorem sleep_ticks_wraps: "sleep_ticks (2 ^ 61) = 1"
  by (simp add: sleep_ticks_def TICK_def kMillisecondsPerSecond_def)

text \<open>\<open>n\<close> timer ticks on a core.\<close>

fun ticks :: "nat \<Rightarrow> size_t \<Rightarrow> kernel \<Rightarrow> kernel outcome" where
  "ticks 0 me k = Done k"
| "ticks (Suc n) me k = obind (TickUpdate me k) (ticks n me)"

lemma ticks_last: "ticks (Suc n) me k = obind (ticks n me k) (TickUpdate me)"
proof (induction n arbitrary: k)
  case 0 then show ?case by (cases "TickUpdate me k") simp_all
next
  case (Suc n) then show ?case by (cases "TickUpdate me k") simp_all
qed

lemma wake_fields: "a_slp (a_wake pol ts a) = a_slp a - mset ts"
  unfolding a_wake_def
  by (induction ts arbitrary: a) (simp_all add: a_enqueue_def)

lemma slp_schedule: "a_slp (a_schedule pol a) = a_slp a"
  by (simp add: a_schedule_def a_pick_def a_rest_def a_requeue_def a_enqueue_def split: list.splits option.splits)

definition a_active :: "acore \<Rightarrow> tptr set" where
  "a_active a = set (a_rt a) \<union> set (a_norm a) \<union> set_option (a_run a)"

lemma a_active_wake: "set ts \<subseteq> a_active (a_wake pol ts a)" "a_active a \<subseteq> a_active (a_wake pol ts a)"
proof -
  have "a_active (a_wake pol ts a) = a_active a \<union> set ts" unfolding a_wake_def
    by (induction ts arbitrary: a) (auto simp: a_active_def a_enqueue_def)
  then show "set ts \<subseteq> a_active (a_wake pol ts a)" "a_active a \<subseteq> a_active (a_wake pol ts a)" by auto
qed

lemma a_active_schedule: "a_active a \<subseteq> insert (a_idle a) (a_active (a_schedule pol a))"
proof -
  let ?b = "a_requeue pol a"
  have "a_active a \<subseteq> insert (a_idle a) (set (a_rt ?b) \<union> set (a_norm ?b))"
    by (auto simp: a_active_def a_requeue_def a_enqueue_def split: option.splits)
  moreover have "set (a_rt ?b) \<union> set (a_norm ?b) \<subseteq> a_active (a_pick ?b)"
    by (auto simp: a_active_def a_pick_def a_rest_def a_next_def split: list.splits)
  ultimately show ?thesis unfolding a_schedule_def by blast
qed

lemma a_idle_wake [simp]: "a_idle (a_wake pol ts a) = a_idle a"
  unfolding a_wake_def by (induction ts arbitrary: a) (simp_all add: a_enqueue_def)

lemma active_status:
  assumes "core_rel k me a" "t \<in> a_active a" "t \<noteq> a_idle a"
  shows "task_is (k_tcbs k) t {kReady, kRunning} user_policies"
  using assms(2,3) tasks_relD(1,2) [OF core_rel_parts(2) [OF assms(1)], of t] core_rel_parts(3) [OF assms(1)]
  by (auto simp: a_active_def run_rel_def task_is_def split: option.splits if_splits)

lemma tick_sleepers:
  assumes "core_rel k me a" "unlocked k me" "a_run a = Some r"
  obtains k' a' where "TickUpdate me k = Done k'" "core_rel k' me a'" "unlocked k' me" "a_run a' \<noteq> None"
    "a_slp a' = filter_mset (\<lambda>t. cs_local_tick (k_cpu k me) + 1 < wake_tick (k_tcbs k) t) (a_slp a)"
    "cs_local_tick (k_cpu k' me) = cs_local_tick (k_cpu k me) + 1" "wake_tick (k_tcbs k') = wake_tick (k_tcbs k)"
    "\<And>t. t \<in># a_slp a \<Longrightarrow> wake_tick (k_tcbs k) t \<le> cs_local_tick (k_cpu k me) + 1 \<Longrightarrow>
       task_is (k_tcbs k') t {kReady, kRunning} user_policies"
proof -
  let ?now = "cs_local_tick (k_cpu k me) + 1" and ?pol = "pol_of (k_tcbs k)"
  obtain k' woken need where t: "TickUpdate me k = Done k'"
      "mset woken = filter_mset (\<lambda>t. wake_tick (k_tcbs k) t \<le> ?now) (a_slp a)"
      "core_rel k' me (if need then a_schedule ?pol (a_wake ?pol woken a) else a_wake ?pol woken a)" "unlocked k' me"
      "wake_tick (k_tcbs k') = wake_tick (k_tcbs k)" "cs_local_tick (k_cpu k' me) = ?now"
    using TickUpdate_ok [OF assms] by blast
  define a' where "a' = (if need then a_schedule ?pol (a_wake ?pol woken a) else a_wake ?pol woken a)"
  have c: "core_rel k' me a'" using t(3) by (simp only: a'_def)
  have slp: "a_slp a' = filter_mset (\<lambda>t. ?now < wake_tick (k_tcbs k) t) (a_slp a)"
    by (rule multiset_eqI) (simp add: a'_def slp_schedule wake_fields t(2) not_le [symmetric])
  have run: "a_run a' \<noteq> None" using assms(3) by (cases need) (simp_all add: a'_def)
  have idle: "a_idle a' = a_idle a"
    by (simp add: a'_def a_schedule_def a_pick_def a_rest_def a_requeue_def a_enqueue_def split: list.splits option.splits)
  show ?thesis
  proof (rule that [OF t(1) c t(4) run slp t(6,5)])
    fix u assume u: "u \<in># a_slp a" "wake_tick (k_tcbs k) u \<le> ?now"
    then have "u \<in># mset woken" by (simp add: t(2))
    then have "u \<in> insert (a_idle a) (a_active a')"
      using a_active_wake(1) [of woken ?pol a] a_active_schedule [of "a_wake ?pol woken a" ?pol] by (auto simp: a'_def)
    moreover have "u \<noteq> a_idle a"
      using tasks_relD(3) [OF core_rel_parts(2) [OF assms(1)] u(1)] core_rel_parts(3) [OF assms(1)] assms(3)
      by (auto simp: run_rel_def task_is_def split: option.splits if_splits)
    ultimately show "task_is (k_tcbs k') u {kReady, kRunning} user_policies" using active_status [OF c] idle by auto
  qed
qed

lemma ticks_asleep:
  assumes "core_rel k me a" "unlocked k me" "a_run a \<noteq> None" "t \<in># a_slp a"
    and "unat (cs_local_tick (k_cpu k me)) + n < unat (wake_tick (k_tcbs k) t)"
  shows "\<exists>k' a'. ticks n me k = Done k' \<and> core_rel k' me a' \<and> unlocked k' me \<and> a_run a' \<noteq> None \<and> t \<in># a_slp a' \<and>
           unat (cs_local_tick (k_cpu k' me)) = unat (cs_local_tick (k_cpu k me)) + n \<and>
           wake_tick (k_tcbs k') t = wake_tick (k_tcbs k) t"
  using assms
proof (induction n arbitrary: k a)
  case 0 then show ?case by auto
next
  case (Suc n)
  obtain r where "a_run a = Some r" using Suc.prems(3) by blast
  from tick_sleepers [OF Suc.prems(1,2) this] obtain k1 a1 where t: "TickUpdate me k = Done k1" "core_rel k1 me a1"
      "unlocked k1 me" "a_run a1 \<noteq> None"
      "a_slp a1 = filter_mset (\<lambda>t. cs_local_tick (k_cpu k me) + 1 < wake_tick (k_tcbs k) t) (a_slp a)"
      "cs_local_tick (k_cpu k1 me) = cs_local_tick (k_cpu k me) + 1" "wake_tick (k_tcbs k1) = wake_tick (k_tcbs k)"
    by metis
  have "unat (wake_tick (k_tcbs k) t) < 2 ^ 64" using unsigned_less [of "wake_tick (k_tcbs k) t"] by simp
  then have u: "unat (cs_local_tick (k_cpu k1 me)) = Suc (unat (cs_local_tick (k_cpu k me)))"
    using Suc.prems(5) by (simp add: t(6) unat_word_ariths)
  show ?case
    using Suc.IH [OF t(2-4)] Suc.prems(4,5) u t(1,5,6,7) by (auto simp: word_less_nat_alt)
qed

text \<open>
  C4. A sleeping task wakes on time. The current task calls \<open>Sleep\<close> with \<open>ms\<close>: after
  fewer than \<open>ms\<close> timer ticks of its core it is asleep, after \<open>ms\<close> ticks it is ready or
  already runs again, whatever else the core does in the meantime.
\<close>

theorem Sleep_wakes_on_time:
  assumes "core_rel k me a" "unlocked k me" "a_run a = Some r" "r \<noteq> a_idle a"
    and "ms \<noteq> 0" "unat ms * 1000 + 999 < 2 ^ 64" "unat (cs_local_tick (k_cpu k me)) + unat ms < 2 ^ 64"
  shows "\<exists>k1. Sleep me ms k = Done k1 \<and>
           (\<forall>n < unat ms. \<exists>k2. ticks n me k1 = Done k2 \<and> task_is (k_tcbs k2) r {kSleeping} user_policies) \<and>
           (\<exists>k2. ticks (unat ms) me k1 = Done k2 \<and> task_is (k_tcbs k2) r {kReady, kRunning} user_policies)"
proof -
  let ?now = "cs_local_tick (k_cpu k me)"
  obtain k1 where s: "Sleep me ms k = Done k1" "core_rel k1 me (a_pick (a_sleep r a))" "unlocked k1 me"
      "cs_local_tick (k_cpu k1 me) = ?now" "wake_tick (k_tcbs k1) r = ?now + ms"
    using Sleep_ok [OF assms(1-5)] sleep_ticks_exact [OF assms(6,5)] by auto
  have slp: "r \<in># a_slp (a_pick (a_sleep r a))"
    by (simp add: a_pick_def a_rest_def a_sleep_def split: list.splits)
  have w: "unat (wake_tick (k_tcbs k1) r) = unat ?now + unat ms"
    using assms(7) by (simp add: s(5) unat_word_ariths)
  have asleep: "\<exists>k2 a2. ticks n me k1 = Done k2 \<and> core_rel k2 me a2 \<and> unlocked k2 me \<and> a_run a2 \<noteq> None \<and> r \<in># a_slp a2 \<and>
      unat (cs_local_tick (k_cpu k2 me)) = unat ?now + n \<and> wake_tick (k_tcbs k2) r = ?now + ms" if "n < unat ms" for n
    using ticks_asleep [OF s(2,3) _ slp, of n] that w s(4,5) by simp
  obtain n where n: "unat ms = Suc n" using assms(5) by (metis not0_implies_Suc unat_eq_zero)
  obtain k2 a2 where k2: "ticks n me k1 = Done k2" "core_rel k2 me a2" "unlocked k2 me" "a_run a2 \<noteq> None" "r \<in># a_slp a2"
      "unat (cs_local_tick (k_cpu k2 me)) = unat ?now + n" "wake_tick (k_tcbs k2) r = ?now + ms"
    using asleep [of n] n by auto
  obtain r2 where r2: "a_run a2 = Some r2" using k2(4) by blast
  have "wake_tick (k_tcbs k2) r \<le> cs_local_tick (k_cpu k2 me) + 1"
    using w n k2(6,7) s(5) assms(7) by (simp add: word_le_nat_alt unat_word_ariths)
  then obtain k3 where k3: "TickUpdate me k2 = Done k3" "task_is (k_tcbs k3) r {kReady, kRunning} user_policies"
    using tick_sleepers [OF k2(2,3) r2] k2(5) by metis
  have "ticks (unat ms) me k1 = Done k3" using k2(1) k3(1) by (simp del: ticks.simps add: n ticks_last)
  moreover have "\<exists>k2. ticks n me k1 = Done k2 \<and> task_is (k_tcbs k2) r {kSleeping} user_policies" if "n < unat ms" for n
    using asleep [OF that] tasks_relD(3) core_rel_parts(2) by meson
  ultimately show ?thesis using s(1) k3(2) by blast
qed

theorem Sleep_wakes_on_time_witness:
  "core_rel demo_running 0 demo_run_core \<and>
   (\<exists>k1. Sleep 0 5 demo_running = Done k1 \<and>
      (\<exists>k2. ticks 4 0 k1 = Done k2 \<and> task_is (k_tcbs k2) 2 {kSleeping} user_policies) \<and>
      (\<exists>k2. ticks 5 0 k1 = Done k2 \<and> task_is (k_tcbs k2) 2 {kReady, kRunning} user_policies))"
  using Sleep_wakes_on_time [OF demo_running_ok(1-3), of 5] demo_running_ok(1,4,6) by auto

subsection \<open>Waiting\<close>

lemma wakeup_active: "set (a_blk a rid) \<subseteq> set (a_rt (a_wakeup pol rid a)) \<union> set (a_norm (a_wakeup pol rid a))"
proof -
  have e: "set (a_rt (a_enqueue pol t b)) \<union> set (a_norm (a_enqueue pol t b)) = insert t (set (a_rt b) \<union> set (a_norm b))" for t b
    by (simp add: a_enqueue_def)
  have "set (a_rt (foldl (\<lambda>a t. a_enqueue pol t a) b ts)) \<union> set (a_norm (foldl (\<lambda>a t. a_enqueue pol t a) b ts)) =
      set ts \<union> (set (a_rt b) \<union> set (a_norm b))" for b ts
    by (induction ts arbitrary: b) (simp_all add: e)
  from this [where ts = "a_blk a rid" and b = "a\<lparr>a_blk := (a_blk a)(rid := [])\<rparr>"] show ?thesis by (auto simp: a_wakeup_def)
qed

lemma blocked_elsewhere: "a_blk (a_wakeup pol rid a) r' = (if r' = rid then [] else a_blk a r')"
proof -
  have "a_blk (foldl (\<lambda>a t. a_enqueue pol t a) b ts) = a_blk b" for b ts
    by (induction ts arbitrary: b) (simp_all add: a_enqueue_def)
  then show ?thesis by (simp add: a_wakeup_def)
qed

text \<open>
  C23. \<open>Wakeup\<close> makes every task ready that waits for the resource on this core, leaves
  nobody waiting for it, and leaves the waiting tasks of every other resource alone.
\<close>

theorem Wakeup_wakes_all:
  assumes "core_rel k me a" "unlocked k me" "a_run a = Some r"
  shows "\<exists>k' a'. Wakeup me rid k = Done k' \<and> core_rel k' me a' \<and> unlocked k' me \<and> a_run a' = Some r \<and>
           (\<forall>t\<in>set (a_blk a rid). task_is (k_tcbs k') t {kReady} user_policies) \<and>
           (\<forall>r'. a_blk a' r' = (if r' = rid then [] else a_blk a r'))"
proof -
  let ?a = "a_wakeup (pol_of (k_tcbs k)) rid a"
  obtain k' where k': "Wakeup me rid k = Done k'" "core_rel k' me ?a" "unlocked k' me"
    using Wakeup_ok [OF assms] by blast
  have "task_is (k_tcbs k') t {kReady} user_policies" if "t \<in> set (a_blk a rid)" for t
    using that wakeup_active [of a rid "pol_of (k_tcbs k)"] tasks_relD(1,2) [OF core_rel_parts(2) [OF k'(2)], of t]
    by (auto simp: task_is_def split: option.splits)
  with k' assms(3) show ?thesis by (intro exI [of _ k'] exI [of _ ?a]) (simp add: blocked_elsewhere)
qed

lemma Block_Wakeup_ready:
  assumes "core_rel k me a" "unlocked k me" "a_run a = Some r" "r \<noteq> a_idle a"
  shows "\<exists>k1 k2. Block me rid k = Done k1 \<and> task_is (k_tcbs k1) r {kBlocked} user_policies \<and>
           GetCurrentTask me k1 = Some (a_next a) \<and>
           Wakeup me rid k1 = Done k2 \<and> task_is (k_tcbs k2) r {kReady} user_policies \<and>
           GetCurrentTask me k2 = Some (a_next a)"
proof -
  let ?b = "a_block r rid a"
  obtain k1 where k1: "Block me rid k = Done k1" "core_rel k1 me (a_pick ?b)" "unlocked k1 me"
    using Block_ok [OF assms] by blast
  have blk: "r \<in> set (a_blk (a_pick ?b) rid)"
    by (simp add: a_pick_def a_rest_def a_block_def split: list.splits)
  have nx: "a_next ?b = a_next a" by (simp add: a_next_def a_block_def split: list.split)
  let ?c = "a_wakeup (pol_of (k_tcbs k1)) rid (a_pick ?b)"
  obtain k2 where k2: "Wakeup me rid k1 = Done k2" "core_rel k2 me ?c"
    using Wakeup_ok [OF k1(2,3)] a_run_pick by blast
  have "task_is (k_tcbs k2) r {kReady} user_policies"
    using blk wakeup_active [of "a_pick ?b" rid "pol_of (k_tcbs k1)"] tasks_relD(1,2) [OF core_rel_parts(2) [OF k2(2)], of r]
    by (auto simp: task_is_def split: option.splits)
  moreover have "GetCurrentTask me k1 = Some (a_next a)" "GetCurrentTask me k2 = Some (a_next a)"
    using core_rel_parts(3) [OF k1(2)] core_rel_parts(3) [OF k2(2)] nx by (simp_all add: run_rel_def GetCurrentTask_def)
  ultimately show ?thesis using k1(1) k2(1) tasks_relD(4) [OF core_rel_parts(2) [OF k1(2)] blk] by blast
qed

text \<open>
  C21. No wake-up is lost on a core: the current task calls \<open>Block\<close>, the task that runs
  after it calls \<open>Wakeup\<close> for the same resource, and the first task is ready again.
\<close>

theorem Block_then_Wakeup:
  assumes "core_rel k me a" "unlocked k me" "a_run a = Some r" "r \<noteq> a_idle a"
  shows "\<exists>k1 k2. Block me rid k = Done k1 \<and> task_is (k_tcbs k1) r {kBlocked} user_policies \<and>
           GetCurrentTask me k1 = Some (a_next a) \<and>
           Wakeup me rid k1 = Done k2 \<and> task_is (k_tcbs k2) r {kReady} user_policies \<and>
           GetCurrentTask me k2 = Some (a_next a)"
  by (rule Block_Wakeup_ready [OF assms])

theorem Block_then_Wakeup_witness:
  "core_rel demo_running 0 demo_run_core \<and>
   (\<exists>k1 k2. Block 0 7 demo_running = Done k1 \<and> GetCurrentTask 0 k1 = Some 3 \<and>
      Wakeup 0 7 k1 = Done k2 \<and> task_is (k_tcbs k2) 2 {kReady} user_policies)"
  using Block_then_Wakeup [OF demo_running_ok(1-3), of 7] demo_running_ok(1,4)
  by (auto simp: a_next_def demo_run_core_def)

theorem Wakeup_wakes_all_witness:
  "\<exists>k1. Block 0 7 demo_running = Done k1 \<and> (\<exists>k2 a2. Wakeup 0 7 k1 = Done k2 \<and> core_rel k2 0 a2 \<and> a_blk a2 7 = [] \<and>
     task_is (k_tcbs k2) 2 {kReady} user_policies)"
proof -
  obtain k1 where k1: "Block 0 7 demo_running = Done k1" "core_rel k1 0 (a_pick (a_block 2 7 demo_run_core))" "unlocked k1 0"
    using Block_ok [OF demo_running_ok(1-3), of 7] demo_running_ok(4) by auto
  have b: "2 \<in> set (a_blk (a_pick (a_block 2 7 demo_run_core)) 7)"
    by (simp add: a_pick_def a_rest_def a_block_def demo_run_core_def)
  obtain k2 a2 where "Wakeup 0 7 k1 = Done k2" "core_rel k2 0 a2"
      "\<forall>t\<in>set (a_blk (a_pick (a_block 2 7 demo_run_core)) 7). task_is (k_tcbs k2) t {kReady} user_policies"
      "\<forall>r'. a_blk a2 r' = (if r' = 7 then [] else a_blk (a_pick (a_block 2 7 demo_run_core)) r')"
    using Wakeup_wakes_all [OF k1(2,3) a_run_pick, of 7] by blast
  with b k1(1) show ?thesis by auto
qed

subsection \<open>The task table\<close>

lemma enqueue_if_table:
  "enqueue_if k c p t = Done k' \<Longrightarrow> k_task_table k' = k_task_table k \<and> k_task_table_lock k' = k_task_table_lock k"
  by (auto simp: enqueue_if_def outcome_simps exec_simps split: option.splits prod.splits)

lemma FindTask_free:
  assumes "\<not> sl_locked (k_task_table_lock k)"
  shows "\<exists>k'. FindTask me p k = Done (case um_find hash_u64 (k_task_table k) p of None \<Rightarrow> None | Some t \<Rightarrow> t, k')"
proof -
  obtain l where "guard_table me k = Done (set_table_lock k me (False, l))" using guard_table_free [OF assms] by blast
  then show ?thesis by (simp add: FindTask_def exec_simps)
qed

text \<open>
  A task that has been added is found under its pid, the one it came with or else the
  next one of the allocator, from every core; all other entries of the table are as before.
\<close>

theorem AddTask_then_FindTask:
  assumes "sys_rel k A" "k_tcbs k t = None" "t_status T = kUnInit" "t_policy T \<in> {kRealTime, kNormal}"
  shows "\<exists>k'. AddTask me (Some t) (k\<lparr>k_tcbs := (k_tcbs k)(t \<mapsto> T)\<rparr>) = Done k' \<and>
           (\<forall>c p. \<exists>k''. FindTask c p k' =
              Done (if p = (if t_pid T = 0 then k_pid_allocator k else t_pid T) then Some t
                    else case um_find hash_u64 (k_task_table k) p of None \<Rightarrow> None | Some u \<Rightarrow> u, k''))"
proof -
  let ?kb = "k\<lparr>k_tcbs := (k_tcbs k)(t \<mapsto> T)\<rparr>" and ?c = "target_core (t_cpu_affinity T) me"
  obtain k1 where k1: "AddTask me (Some t) ?kb = obind (enqueue_if k1 ?c (t_policy T) t) (\<lambda>k. Done (unlock_cpu me ?c k))"
      "k_task_table k1 = um_index hash_u64 None (k_task_table k) (task_pid ?kb T) (\<lambda>_. Some t)"
      "\<not> sl_locked (k_task_table_lock k1)"
    using AddTask_exec [of ?kb t T me] assms(3,4) sys_relD(1,2) [OF assms(1)] by (auto simp: unlocked_def)
  obtain k' where k': "AddTask me (Some t) ?kb = Done k'"
    using AddTask_started [OF assms(1-4)] AddTask_not_started [OF assms(1-4)] by (cases "A ?c") blast+
  obtain k2 where k2: "enqueue_if k1 ?c (t_policy T) t = Done k2" "k' = unlock_cpu me ?c k2"
    using k1(1) k' by (cases "enqueue_if k1 ?c (t_policy T) t") simp_all
  have "\<not> sl_locked (k_task_table_lock k')"
      "k_task_table k' = um_index hash_u64 None (k_task_table k) (task_pid ?kb T) (\<lambda>_. Some t)"
    using enqueue_if_table [OF k2(1)] k1(2,3) by (simp_all add: k2(2) unlock_cpu_def exec_simps)
  then have f: "\<exists>k''. FindTask c p k' = Done (if p = task_pid ?kb T then Some t
      else case um_find hash_u64 (k_task_table k) p of None \<Rightarrow> None | Some u \<Rightarrow> u, k'')" for c p
    using FindTask_free [of k' c p] um_index_correct(2) [OF sys_relD(3) [OF assms(1)]] by (simp split: if_splits)
  have pid: "task_pid ?kb T = (if t_pid T = 0 then k_pid_allocator k else t_pid T)" by (simp add: task_pid_def)
  show ?thesis using k' f [unfolded pid] by blast
qed

theorem AddTask_then_FindTask_witness:
  "\<exists>k'. AddTask 0 (Some 4) (demo_ready\<lparr>k_tcbs := (k_tcbs demo_ready)(4 \<mapsto> demo_task\<lparr>t_pid := 42\<rparr>)\<rparr>) = Done k' \<and>
     (\<exists>k''. FindTask 1 42 k' = Done (Some 4, k''))"
proof -
  have f: "4 \<notin> dom (k_tcbs demo_ready)" by (simp add: demo_ready_ok(3))
  then have "k_tcbs demo_ready 4 = None" by blast
  from AddTask_then_FindTask [OF demo_ready_ok(1) this, of "demo_task\<lparr>t_pid := 42\<rparr>" 0]
  obtain k' where k': "AddTask 0 (Some 4) (demo_ready\<lparr>k_tcbs := (k_tcbs demo_ready)(4 \<mapsto> demo_task\<lparr>t_pid := 42\<rparr>)\<rparr>) = Done k'"
      "\<forall>c p. \<exists>k''. FindTask c p k' =
         Done (if p = 42 then Some 4 else case um_find hash_u64 (k_task_table demo_ready) p of None \<Rightarrow> None | Some u \<Rightarrow> u, k'')"
    by auto
  then show ?thesis using spec [OF spec [OF k'(2), of 1], of 42] by auto
qed

end
