(* ===== verification/Syscall.thy ===== *)
theory Syscall
  imports Lifecycle_Properties Scheduling_Properties
begin

text \<open>
  The system calls of \<open>src/src/syscall.cpp\<close> with the x86-64 numbers of
  \<open>src/src/include/syscall.hpp\<close>.

  A call runs on the task manager and the memory that its pointer arguments refer to: the
  bytes of a buffer, the \<open>int\<close> of a futex (in \<open>w_ints\<close>) and the words of an affinity
  mask. An \<open>int\<close> is a 32-bit word. A call that gives up the core has returned when its
  task runs again; the state is the one in which the next task runs.
\<close>

record sys_state =
  s_world :: world
  s_bytes :: "u64 \<Rightarrow> u8"
  s_words :: "u64 \<Rightarrow> u64"
  s_console :: "u8 list"

text \<open>What the allocators return to a \<open>Clone\<close>, and \<open>sizeof(TrapContext)\<close>.\<close>

record clone_env =
  e_child :: "tptr option"
  e_stack :: u64
  e_tc_size :: u64

definition SYSCALL_WRITE :: u64 where "SYSCALL_WRITE = 1"
definition SYSCALL_EXIT :: u64 where "SYSCALL_EXIT = 60"
definition SYSCALL_YIELD :: u64 where "SYSCALL_YIELD = 24"
definition SYSCALL_CLONE :: u64 where "SYSCALL_CLONE = 56"
definition SYSCALL_GETTID :: u64 where "SYSCALL_GETTID = 186"
definition SYSCALL_FUTEX :: u64 where "SYSCALL_FUTEX = 202"
definition SYSCALL_SET_TID_ADDRESS :: u64 where "SYSCALL_SET_TID_ADDRESS = 218"
definition SYSCALL_FORK :: u64 where "SYSCALL_FORK = 57"

lemmas syscall_numbers = SYSCALL_WRITE_def SYSCALL_EXIT_def SYSCALL_YIELD_def SYSCALL_CLONE_def SYSCALL_GETTID_def
  SYSCALL_FUTEX_def SYSCALL_SET_TID_ADDRESS_def SYSCALL_FORK_def

abbreviation s_kernel :: "sys_state \<Rightarrow> kernel" where
  "s_kernel s \<equiv> w_kernel (s_world s)"

definition set_kernel :: "sys_state \<Rightarrow> kernel \<Rightarrow> sys_state" where
  "set_kernel s k = s\<lparr>s_world := (s_world s)\<lparr>w_kernel := k\<rparr>\<rparr>"

definition sys_write :: "u32 \<Rightarrow> u64 \<Rightarrow> size_t \<Rightarrow> sys_state \<Rightarrow> u32 \<times> sys_state" where
  "sys_write fd buf len s =
     (if fd = 1 \<or> fd = 2
      then (ucast len, s\<lparr>s_console := s_console s @ map (\<lambda>i. s_bytes s (buf + of_nat i)) [0..<unat len]\<rparr>)
      else (- 1, s))"

definition sys_exit :: "size_t \<Rightarrow> u32 \<Rightarrow> sys_state \<Rightarrow> (u32 \<times> sys_state) outcome" where
  "sys_exit me code s = (case GetCurrentTask me (s_kernel s) of
     None \<Rightarrow> Fault NullDeref
   | Some t \<Rightarrow>
       obind (get_tcb (s_kernel s) t) (\<lambda>_.
       obind (Exit me (sint code) (s_kernel s)) (\<lambda>k. Done (0, set_kernel s k))))"

definition sys_yield :: "size_t \<Rightarrow> sys_state \<Rightarrow> (u32 \<times> sys_state) outcome" where
  "sys_yield me s = obind (Schedule me (s_kernel s)) (\<lambda>k. Done (0, set_kernel s k))"

definition sys_sleep :: "size_t \<Rightarrow> u64 \<Rightarrow> sys_state \<Rightarrow> (u32 \<times> sys_state) outcome" where
  "sys_sleep me ms s = obind (Sleep me ms (s_kernel s)) (\<lambda>k. Done (0, set_kernel s k))"

text \<open>The common part of \<open>sys_clone\<close> and \<open>sys_fork\<close>: the same code with other arguments.\<close>

definition sys_clone :: "size_t \<Rightarrow> clone_env \<Rightarrow> u64 \<Rightarrow> u64 \<Rightarrow> u64 \<Rightarrow> u64 \<Rightarrow> u64 \<Rightarrow> sys_state \<Rightarrow> (u32 \<times> sys_state) outcome" where
  "sys_clone me e flags stack parent_tid child_tid tls s = (case GetCurrentTask me (s_kernel s) of
     None \<Rightarrow> Done (- 1, s)
   | Some t \<Rightarrow>
       obind (get_tcb (s_kernel s) t) (\<lambda>T.
       if t_trap_context_ptr T = 0 then Done (- 1, s)
       else obind (Clone me (e_child e) (e_stack e) (e_tc_size e) flags stack parent_tid child_tid tls (s_world s)) (\<lambda>(r, w).
            let s = s\<lparr>s_world := w\<rparr>
            in case r of
                 Inl err \<Rightarrow> Done (- 1, s)
               | Inr child_pid \<Rightarrow> if child_pid = 0 then Done (0, s) else Done (ucast child_pid, s))))"

definition sys_fork :: "size_t \<Rightarrow> clone_env \<Rightarrow> sys_state \<Rightarrow> (u32 \<times> sys_state) outcome" where
  "sys_fork me e s = sys_clone me e 0 0 0 0 0 s"

definition sys_gettid :: "size_t \<Rightarrow> sys_state \<Rightarrow> u32 outcome" where
  "sys_gettid me s = (case GetCurrentTask me (s_kernel s) of
     None \<Rightarrow> Done (- 1)
   | Some t \<Rightarrow> obind (get_tcb (s_kernel s) t) (\<lambda>T. Done (ucast (t_pid T))))"

definition sys_set_tid_address :: "size_t \<Rightarrow> u64 \<Rightarrow> sys_state \<Rightarrow> u32 outcome" where
  "sys_set_tid_address me tidptr s = (case GetCurrentTask me (s_kernel s) of
     None \<Rightarrow> Done (- 1)
   | Some t \<Rightarrow> obind (get_tcb (s_kernel s) t) (\<lambda>T. Done (ucast (t_pid T))))"

definition FUTEX_WAIT :: u32 where "FUTEX_WAIT = 0"
definition FUTEX_WAKE :: u32 where "FUTEX_WAKE = 1"
definition FUTEX_REQUEUE :: u32 where "FUTEX_REQUEUE = 3"

definition sys_futex :: "size_t \<Rightarrow> u64 \<Rightarrow> u32 \<Rightarrow> u32 \<Rightarrow> sys_state \<Rightarrow> (u32 \<times> sys_state) outcome" where
  "sys_futex me uaddr op val s =
     (let cmd = op AND 0x7F
      in if cmd = FUTEX_WAIT then
           (if w_ints (s_world s) uaddr = val
            then obind (Block me (mk_ResourceId kFutex uaddr) (s_kernel s)) (\<lambda>k. Done (0, set_kernel s k))
            else Done (0, s))
         else if cmd = FUTEX_WAKE then
           obind (Wakeup me (mk_ResourceId kFutex uaddr) (s_kernel s)) (\<lambda>k. Done (val, set_kernel s k))
         else if cmd = FUTEX_REQUEUE then Done (- 1, s)
         else Done (- 1, s))"

text \<open>The task that an affinity call is about; \<open>None\<close> is the null pointer.\<close>

definition affinity_target :: "size_t \<Rightarrow> u32 \<Rightarrow> kernel \<Rightarrow> (tptr option \<times> kernel) outcome" where
  "affinity_target me pid k = (if pid = 0 then Done (GetCurrentTask me k, k) else FindTask me (scast pid) k)"

definition sys_sched_getaffinity :: "size_t \<Rightarrow> u32 \<Rightarrow> size_t \<Rightarrow> u64 \<Rightarrow> sys_state \<Rightarrow> (u32 \<times> sys_state) outcome" where
  "sys_sched_getaffinity me pid cpusetsize mask_ptr s =
     obind (affinity_target me pid (s_kernel s)) (\<lambda>(target, k).
     let s = set_kernel s k
     in case target of
          None \<Rightarrow> Done (- 1, s)
        | Some t \<Rightarrow>
            if cpusetsize < 8 then Done (- 1, s)
            else obind (get_tcb k t) (\<lambda>T. Done (0, s\<lparr>s_words := (s_words s)(mask_ptr := t_cpu_affinity T)\<rparr>)))"

definition sys_sched_setaffinity :: "size_t \<Rightarrow> u32 \<Rightarrow> size_t \<Rightarrow> u64 \<Rightarrow> sys_state \<Rightarrow> (u32 \<times> sys_state) outcome" where
  "sys_sched_setaffinity me pid cpusetsize mask_ptr s =
     obind (affinity_target me pid (s_kernel s)) (\<lambda>(target, k).
     let s = set_kernel s k
     in case target of
          None \<Rightarrow> Done (- 1, s)
        | Some t \<Rightarrow>
            if cpusetsize < 8 then Done (- 1, s)
            else obind (upd_tcb k t (\<lambda>T. T\<lparr>t_cpu_affinity := s_words s mask_ptr\<rparr>)) (\<lambda>k. Done (0, set_kernel s k)))"

text \<open>\<open>syscall_dispatcher\<close>; \<open>args\<close> is the array of six arguments.\<close>

definition syscall_dispatcher :: "size_t \<Rightarrow> clone_env \<Rightarrow> u64 \<Rightarrow> (nat \<Rightarrow> u64) \<Rightarrow> sys_state \<Rightarrow> (u32 \<times> sys_state) outcome" where
  "syscall_dispatcher me e syscall_id args s =
     (if syscall_id = SYSCALL_WRITE then Done (sys_write (ucast (args 0)) (args 1) (args 2) s)
      else if syscall_id = SYSCALL_EXIT then sys_exit me (ucast (args 0)) s
      else if syscall_id = SYSCALL_YIELD then sys_yield me s
      else if syscall_id = SYSCALL_CLONE then sys_clone me e (args 0) (args 1) (args 2) (args 3) (args 4) s
      else if syscall_id = SYSCALL_FORK then sys_fork me e s
      else if syscall_id = SYSCALL_GETTID then obind (sys_gettid me s) (\<lambda>r. Done (r, s))
      else if syscall_id = SYSCALL_SET_TID_ADDRESS then obind (sys_set_tid_address me (args 0) s) (\<lambda>r. Done (r, s))
      else if syscall_id = SYSCALL_FUTEX then sys_futex me (args 0) (ucast (args 1)) (ucast (args 2)) s
      else Done (- 1, s))"

subsection \<open>Properties\<close>

lemma FindTask_relocked:
  "\<not> sl_locked (k_task_table_lock k) \<Longrightarrow> FindTask me p k =
     Done (case um_find hash_u64 (k_task_table k) p of None \<Rightarrow> None | Some t \<Rightarrow> t, relocked me k)"
  by (simp add: FindTask_def guard_table_taken unguard_taken)

text \<open>
  The affinity mask that \<open>sys_sched_setaffinity\<close> stores for a task is the one that
  \<open>sys_sched_getaffinity\<close> reads back; no other task and no other word changes.
\<close>

theorem sys_affinity_roundtrip:
  assumes "\<not> sl_locked (k_task_table_lock (s_kernel s))" "pid \<noteq> 0"
    and "um_find hash_u64 (k_task_table (s_kernel s)) (scast pid) = Some (Some t)" "k_tcbs (s_kernel s) t = Some T"
    and "8 \<le> sz" "8 \<le> sz'"
  shows "\<exists>s1 s2. sys_sched_setaffinity me pid sz p s = Done (0, s1) \<and>
     k_tcbs (s_kernel s1) = (k_tcbs (s_kernel s))(t \<mapsto> T\<lparr>t_cpu_affinity := s_words s p\<rparr>) \<and>
     sys_sched_getaffinity me' pid sz' q s1 = Done (0, s2) \<and>
     s_words s2 = (s_words s)(q := s_words s p) \<and> k_tcbs (s_kernel s2) = k_tcbs (s_kernel s1)"
proof -
  let ?k = "s_kernel s"
  let ?k1 = "(relocked me ?k)\<lparr>k_tcbs := (k_tcbs ?k)(t \<mapsto> T\<lparr>t_cpu_affinity := s_words s p\<rparr>)\<rparr>"
  have "\<not> sz < 8" "\<not> sz' < 8" using assms(5,6) by simp_all
  moreover have "affinity_target me pid ?k = Done (Some t, relocked me ?k)"
    using assms(1-3) by (simp add: affinity_target_def FindTask_relocked)
  moreover have "affinity_target me' pid ?k1 = Done (Some t, relocked me' ?k1)"
    using assms(2,3) FindTask_relocked [of ?k1 me' "scast pid"] by (simp add: affinity_target_def)
  ultimately show ?thesis
    using assms(4) by (simp add: sys_sched_setaffinity_def sys_sched_getaffinity_def set_kernel_def upd_tcb_def get_tcb_def)
qed

theorem sys_affinity_roundtrip_witness:
  "\<exists>s1 s2. sys_sched_setaffinity 0 2 8 0x100 \<lparr>s_world = demo_world, s_bytes = (\<lambda>_. 0), s_words = (\<lambda>_. 0)(0x100 := 3), s_console = []\<rparr> = Done (0, s1) \<and>
     sys_sched_getaffinity 1 2 8 0x200 s1 = Done (0, s2) \<and> s_words s2 0x200 = 3"
proof -
  let ?s = "\<lparr>s_world = demo_world, s_bytes = (\<lambda>_. 0), s_words = (\<lambda>_. 0)(0x100 := 3), s_console = []\<rparr>"
  have "\<not> sl_locked (k_task_table_lock (s_kernel ?s))" "(2 :: u32) \<noteq> 0"
    "um_find hash_u64 (k_task_table (s_kernel ?s)) (scast (2 :: u32)) = Some (Some 11)" "k_tcbs (s_kernel ?s) 11 = Some demo_zombie"
    "8 \<le> (8 :: size_t)" "8 \<le> (8 :: size_t)"
    by (simp_all add: demo_world_def demo_family_fields demo_family_table)
  from sys_affinity_roundtrip [OF this, of 0 "0x100" 1 "0x200"] show ?thesis by auto
qed



end
