(* ===== verification/Libc_String.thy ===== *)
theory Libc_String
  imports NK_Prelude
begin

text \<open>
  The memory and string functions of \<open>src/src/libc/nk_string.c\<close> on a byte memory.

  A pointer is a 64-bit word, the memory a function from addresses to bytes, and pointer
  arithmetic wraps. A loop \<open>while (n--)\<close> is a recursion on the number of rounds; a loop
  that runs up to a terminator is a \<open>partial_function\<close>, \<open>None\<close> when there is none. The
  null pointer is 0.
\<close>

type_synonym mem = "u64 \<Rightarrow> u8"

primrec copy_up :: "nat \<Rightarrow> u64 \<Rightarrow> u64 \<Rightarrow> mem \<Rightarrow> mem" where
  "copy_up 0 d s m = m"
| "copy_up (Suc n) d s m = copy_up n (d + 1) (s + 1) (m(d := m s))"

primrec copy_down :: "nat \<Rightarrow> u64 \<Rightarrow> u64 \<Rightarrow> mem \<Rightarrow> mem" where
  "copy_down 0 d s m = m"
| "copy_down (Suc n) d s m = copy_down n (d - 1) (s - 1) (m(d := m s))"

definition memcpy :: "u64 \<Rightarrow> u64 \<Rightarrow> size_t \<Rightarrow> mem \<Rightarrow> u64 \<times> mem" where
  "memcpy dest src n m = (dest, copy_up (unat n) dest src m)"

definition memmove :: "u64 \<Rightarrow> u64 \<Rightarrow> size_t \<Rightarrow> mem \<Rightarrow> u64 \<times> mem" where
  "memmove dest src n m =
     (dest, if dest < src then copy_up (unat n) dest src m
            else copy_down (unat n) (dest + (n - 1)) (src + (n - 1)) m)"

primrec set_bytes :: "nat \<Rightarrow> u64 \<Rightarrow> u8 \<Rightarrow> mem \<Rightarrow> mem" where
  "set_bytes 0 p b m = m"
| "set_bytes (Suc n) p b m = set_bytes n (p + 1) b (m(p := b))"

definition memset :: "u64 \<Rightarrow> u32 \<Rightarrow> size_t \<Rightarrow> mem \<Rightarrow> u64 \<times> mem" where
  "memset dest val n m = (dest, set_bytes (unat n) dest (ucast val) m)"

primrec compare_bytes :: "nat \<Rightarrow> u64 \<Rightarrow> u64 \<Rightarrow> mem \<Rightarrow> int" where
  "compare_bytes 0 s1 s2 m = 0"
| "compare_bytes (Suc n) s1 s2 m =
     (if m s1 \<noteq> m s2 then (if m s1 < m s2 then - 1 else 1) else compare_bytes n (s1 + 1) (s2 + 1) m)"

definition memcmp :: "u64 \<Rightarrow> u64 \<Rightarrow> size_t \<Rightarrow> mem \<Rightarrow> int" where
  "memcmp str1 str2 n m = compare_bytes (unat n) str1 str2 m"

primrec find_byte :: "nat \<Rightarrow> u64 \<Rightarrow> u8 \<Rightarrow> mem \<Rightarrow> u64" where
  "find_byte 0 src uc m = 0"
| "find_byte (Suc n) src uc m = (if m src = uc then src else find_byte n (src + 1) uc m)"

definition memchr :: "u64 \<Rightarrow> u32 \<Rightarrow> size_t \<Rightarrow> mem \<Rightarrow> u64" where
  "memchr str c n m = find_byte (unat n) str (ucast c) m"

partial_function (option) copy_string :: "u64 \<Rightarrow> u64 \<Rightarrow> mem \<Rightarrow> mem option" where
  "copy_string d s m =
     (let b = m s; m = m(d := b) in if b \<noteq> 0 then copy_string (d + 1) (s + 1) m else Some m)"

definition strcpy :: "u64 \<Rightarrow> u64 \<Rightarrow> mem \<Rightarrow> (u64 \<times> mem) option" where
  "strcpy dest src m = map_option (\<lambda>m. (dest, m)) (copy_string dest src m)"

primrec scan_bytes :: "nat \<Rightarrow> u64 \<Rightarrow> mem \<Rightarrow> u64" where
  "scan_bytes 0 p m = p"
| "scan_bytes (Suc n) p m = (if m p \<noteq> 0 then scan_bytes n (p + 1) m else p)"

definition strnlen :: "u64 \<Rightarrow> size_t \<Rightarrow> mem \<Rightarrow> size_t" where
  "strnlen s n m = scan_bytes (unat n) s m - s"

definition strncpy :: "u64 \<Rightarrow> u64 \<Rightarrow> size_t \<Rightarrow> mem \<Rightarrow> u64 \<times> mem" where
  "strncpy dest src n m =
     (let sz = strnlen src n m;
          m = (if sz \<noteq> n then snd (memset (dest + sz) 0 (n - sz) m) else m)
      in memcpy dest src sz m)"

partial_function (option) find_end :: "u64 \<Rightarrow> mem \<Rightarrow> u64 option" where
  "find_end p m = (if m p \<noteq> 0 then find_end (p + 1) m else Some p)"

text \<open>The second loop of \<open>strcat\<close>: the terminator is written after it.\<close>

partial_function (option) append_string :: "u64 \<Rightarrow> u64 \<Rightarrow> mem \<Rightarrow> mem option" where
  "append_string d s m =
     (if m s \<noteq> 0 then append_string (d + 1) (s + 1) (m(d := m s)) else Some (m(d := 0)))"

definition strcat :: "u64 \<Rightarrow> u64 \<Rightarrow> mem \<Rightarrow> (u64 \<times> mem) option" where
  "strcat dest src m =
     (if dest \<noteq> 0 \<and> src \<noteq> 0
      then Option.bind (find_end dest m) (\<lambda>add_d. map_option (\<lambda>m. (dest, m)) (append_string add_d src m))
      else Some (dest, m))"

partial_function (option) strcmp :: "u64 \<Rightarrow> u64 \<Rightarrow> mem \<Rightarrow> int option" where
  "strcmp s1 s2 m =
     (if m s1 \<noteq> 0 \<and> m s1 = m s2 then strcmp (s1 + 1) (s2 + 1) m else Some (uint (m s1) - uint (m s2)))"

primrec strncmp_loop :: "nat \<Rightarrow> u64 \<Rightarrow> u64 \<Rightarrow> mem \<Rightarrow> int" where
  "strncmp_loop 0 s1 s2 m = 0"
| "strncmp_loop (Suc n) s1 s2 m =
     (if m s1 \<noteq> m s2 then uint (m s1) - uint (m s2)
      else if m s1 = 0 then 0 else strncmp_loop n (s1 + 1) (s2 + 1) m)"

definition strncmp :: "u64 \<Rightarrow> u64 \<Rightarrow> size_t \<Rightarrow> mem \<Rightarrow> int" where
  "strncmp s1 s2 n m = (if n = 0 then 0 else strncmp_loop (unat n) s1 s2 m)"

partial_function (option) strlen_loop :: "u64 \<Rightarrow> size_t \<Rightarrow> mem \<Rightarrow> size_t option" where
  "strlen_loop s len m = (if m (s + len) \<noteq> 0 then strlen_loop s (len + 1) m else Some len)"

definition strlen :: "u64 \<Rightarrow> mem \<Rightarrow> size_t option" where
  "strlen s m = strlen_loop s 0 m"

partial_function (option) strchr_loop :: "u64 \<Rightarrow> u8 \<Rightarrow> mem \<Rightarrow> u64 option" where
  "strchr_loop s ch m = (if m s = ch then Some s else if m s \<noteq> 0 then strchr_loop (s + 1) ch m else Some 0)"

definition strchr :: "u64 \<Rightarrow> u32 \<Rightarrow> mem \<Rightarrow> u64 option" where
  "strchr s c m = strchr_loop s (ucast c) m"

partial_function (option) strrchr_loop :: "u64 \<Rightarrow> u8 \<Rightarrow> u64 \<Rightarrow> mem \<Rightarrow> u64 option" where
  "strrchr_loop s ch rtnval m =
     (let rtnval = (if m s = ch then s else rtnval)
      in if m s \<noteq> 0 then strrchr_loop (s + 1) ch rtnval m else Some rtnval)"

definition strrchr :: "u64 \<Rightarrow> u32 \<Rightarrow> mem \<Rightarrow> u64 option" where
  "strrchr s c m = strrchr_loop s (ucast c) 0 m"

declare copy_string.simps [code] find_end.simps [code] append_string.simps [code] strcmp.simps [code]
  strlen_loop.simps [code] strchr_loop.simps [code] strrchr_loop.simps [code]

subsection \<open>Ranges of addresses\<close>

definition at :: "u64 \<Rightarrow> nat \<Rightarrow> u64" where
  "at p i = p + of_nat i"

lemma at_0 [simp]: "at p 0 = p" and at_Suc: "at p (Suc i) = at (p + 1) i"
  by (simp_all add: at_def algebra_simps)

lemma at_inj: "i < 2 ^ 64 \<Longrightarrow> j < 2 ^ 64 \<Longrightarrow> at p i = at p j \<longleftrightarrow> i = j"
  by (simp add: at_def word_of_nat_eq_iff take_bit_nat_eq_self)

lemma unat_at: "unat p + i < 2 ^ 64 \<Longrightarrow> unat (at p i) = unat p + i"
  by (simp add: at_def unat_word_ariths unat_of_nat)

lemma copy_up_spec:
  assumes "n \<le> 2 ^ 64" "\<forall>i j. i < j \<longrightarrow> j < n \<longrightarrow> at d i \<noteq> at s j"
  shows "(\<forall>i<n. copy_up n d s m (at d i) = m (at s i)) \<and> (\<forall>x. (\<forall>i<n. x \<noteq> at d i) \<longrightarrow> copy_up n d s m x = m x)"
  using assms
proof (induction n arbitrary: d s m)
  case (Suc n)
  let ?m = "m(d := m s)"
  have "at (d + 1) i \<noteq> at (s + 1) j" if "i < j" "j < n" for i j
    using Suc.prems(2) [rule_format, of "Suc i" "Suc j"] that by (simp add: at_Suc)
  then have sep: "\<forall>i j. i < j \<longrightarrow> j < n \<longrightarrow> at (d + 1) i \<noteq> at (s + 1) j" by blast
  have IH: "\<forall>i<n. copy_up n (d + 1) (s + 1) ?m (at (d + 1) i) = ?m (at (s + 1) i)"
      "\<forall>x. (\<forall>i<n. x \<noteq> at (d + 1) i) \<longrightarrow> copy_up n (d + 1) (s + 1) ?m x = ?m x"
    using Suc.IH [OF Suc_leD [OF Suc.prems(1)] sep, of ?m] by blast+
  have later: "at s (Suc i) \<noteq> d" if "i < n" for i using Suc.prems(2) [rule_format, of 0 "Suc i"] that by auto
  have first: "d \<noteq> at (d + 1) i" if "i < n" for i using at_inj [of 0 "Suc i" d] Suc.prems(1) that by (auto simp: at_Suc)
  have "copy_up (Suc n) d s m (at d i) = m (at s i)" if "i < Suc n" for i
  proof (cases i)
    case 0 then show ?thesis using IH(2) first by simp
  next
    case (Suc k) then show ?thesis using IH(1) later [of k] that by (simp add: at_Suc)
  qed
  moreover have "copy_up (Suc n) d s m x = m x" if "\<forall>i<Suc n. x \<noteq> at d i" for x
  proof -
    have "x \<noteq> at (d + 1) i" if "i < n" for i using \<open>\<forall>i<Suc n. x \<noteq> at d i\<close> [rule_format, of "Suc i"] that by (simp add: at_Suc)
    moreover have "x \<noteq> d" using that [rule_format, of 0] by simp
    ultimately show ?thesis using IH(2) by simp
  qed
  ultimately show ?case by blast
qed simp

lemma at_pred: "at p (Suc n) - 1 = at p n"
  by (simp add: at_def)

lemma copy_down_spec:
  assumes "n \<le> 2 ^ 64" "\<forall>i j. i < j \<longrightarrow> j < n \<longrightarrow> at d j \<noteq> at s i"
  shows "(\<forall>i<n. copy_down n (at d n - 1) (at s n - 1) m (at d i) = m (at s i)) \<and>
    (\<forall>x. (\<forall>i<n. x \<noteq> at d i) \<longrightarrow> copy_down n (at d n - 1) (at s n - 1) m x = m x)"
  using assms
proof (induction n arbitrary: m)
  case (Suc n)
  let ?m = "m(at d n := m (at s n))"
  have sep: "\<forall>i j. i < j \<longrightarrow> j < n \<longrightarrow> at d j \<noteq> at s i" using Suc.prems(2) by simp
  define R where "R = copy_down n (at d n - 1) (at s n - 1) ?m"
  have IH: "\<forall>i<n. R (at d i) = ?m (at s i)" "\<forall>x. (\<forall>i<n. x \<noteq> at d i) \<longrightarrow> R x = ?m x"
    using Suc.IH [OF Suc_leD [OF Suc.prems(1)] sep, of ?m] unfolding R_def by blast+
  have e: "copy_down (Suc n) (at d (Suc n) - 1) (at s (Suc n) - 1) m = R"
    by (simp add: at_pred R_def)
  have later: "at s i \<noteq> at d n" if "i < n" for i using Suc.prems(2) that by (metis lessI)
  have last: "at d n \<noteq> at d i" if "i < n" for i using at_inj [of n i d] Suc.prems(1) that by auto
  have "copy_down (Suc n) (at d (Suc n) - 1) (at s (Suc n) - 1) m (at d i) = m (at s i)" if "i < Suc n" for i
  proof (cases "i = n")
    case True then show ?thesis using IH last unfolding e by simp
  next
    case False then show ?thesis using IH later [of i] that unfolding e by simp
  qed
  moreover have "copy_down (Suc n) (at d (Suc n) - 1) (at s (Suc n) - 1) m x = m x" if "\<forall>i<Suc n. x \<noteq> at d i" for x
    using IH that unfolding e by simp
  ultimately show ?case by blast
qed simp

lemma at_less: "unat p + i < 2 ^ 64 \<Longrightarrow> unat q + j < 2 ^ 64 \<Longrightarrow> at p i = at q j \<longleftrightarrow> unat p + i = unat q + j"
  using unat_at [of p i] unat_at [of q j] by (metis word_unat_eq_iff)

text \<open>
  C35. \<open>memmove\<close> copies the source as it was before the call, whether or not the two
  ranges overlap, and writes nothing outside the destination.
\<close>

theorem memmove_correct:
  assumes "unat dest + unat n \<le> 2 ^ 64" "unat src + unat n \<le> 2 ^ 64"
  shows "fst (memmove dest src n m) = dest \<and>
    (\<forall>i<unat n. snd (memmove dest src n m) (dest + of_nat i) = m (src + of_nat i)) \<and>
    (\<forall>x. (\<forall>i<unat n. x \<noteq> dest + of_nat i) \<longrightarrow> snd (memmove dest src n m) x = m x)"
proof -
  have le: "unat n \<le> 2 ^ 64" using assms(1) by simp
  have b: "unat dest + i < 2 ^ 64" "unat src + i < 2 ^ 64" if "i < unat n" for i using assms that by simp_all
  have a: "at x (unat n) - 1 = x + (n - 1)" for x by (simp add: at_def)
  show ?thesis
  proof (cases "dest < src")
    case True
    then have "\<forall>i j. i < j \<longrightarrow> j < unat n \<longrightarrow> at dest i \<noteq> at src j" using b by (auto simp: at_less word_less_nat_alt)
    from copy_up_spec [OF le this, of m] show ?thesis using True by (simp add: memmove_def at_def)
  next
    case False
    then have "\<forall>i j. i < j \<longrightarrow> j < unat n \<longrightarrow> at dest j \<noteq> at src i" using b by (auto simp: at_less word_less_nat_alt)
    from copy_down_spec [OF le this, of m] show ?thesis using False unfolding a by (simp add: memmove_def at_def)
  qed
qed

theorem memmove_correct_witness:
  "let m = (\<lambda>a. ucast a) :: mem in
   snd (memmove 0x101 0x100 4 m) 0x104 = 3 \<and> snd (memmove 0x101 0x100 4 m) 0x105 = 5"
proof -
  let ?m = "(\<lambda>a. ucast a) :: mem"
  have b: "unat (0x101 :: u64) + unat (4 :: u64) \<le> 2 ^ 64" "unat (0x100 :: u64) + unat (4 :: u64) \<le> 2 ^ 64" by simp_all
  have i: "\<forall>i<unat (4 :: u64). (0x105 :: u64) \<noteq> 0x101 + of_nat i" 
  proof -
    have "i = 0 \<or> i = 1 \<or> i = 2 \<or> i = 3" if "i < 4" for i :: nat using that by presburger
    then show ?thesis by fastforce
  qed
  show ?thesis
    using memmove_correct [OF b, of ?m] spec [of "\<lambda>i. i < unat (4 :: u64) \<longrightarrow> snd (memmove 0x101 0x100 4 ?m) (0x101 + of_nat i) = ?m (0x100 + of_nat i)" 3] i
    by (simp add: Let_def)
qed

subsection \<open>Strings\<close>

lemma uint_pos: "(w :: u8) \<noteq> 0 \<Longrightarrow> uint w \<noteq> 0 \<and> 0 < uint w"
  using uint_0_iff [of w] unsigned_greater_eq [of w, where 'a = int] by (simp add: order_less_le)

primrec cstr :: "mem \<Rightarrow> u64 \<Rightarrow> u8 list \<Rightarrow> bool" where
  "cstr m p [] \<longleftrightarrow> m p = 0"
| "cstr m p (x # xs) \<longleftrightarrow> m p = x \<and> x \<noteq> 0 \<and> cstr m (p + 1) xs"

lemma strlen_cstr:
  "cstr m s xs \<Longrightarrow> strlen s m = Some (of_nat (length xs))"
proof -
  have "strlen_loop s len m = Some (len + of_nat (length xs))" if "cstr m (s + len) xs" for len
    using that
  proof (induction xs arbitrary: len)
    case Nil then show ?case by (subst strlen_loop.simps) simp
  next
    case (Cons x xs)
    then have "strlen_loop s len m = strlen_loop s (len + 1) m" by (subst strlen_loop.simps) simp
    also have "\<dots> = Some (len + 1 + of_nat (length xs))" using Cons by (intro Cons.IH) (simp add: algebra_simps)
    finally show ?case by (simp add: algebra_simps)
  qed
  from this [of 0] show "cstr m s xs \<Longrightarrow> strlen s m = Some (of_nat (length xs))" by (simp add: strlen_def)
qed

lemma strcmp_order:
  assumes "cstr m a xs" "cstr m b ys"
  shows "\<exists>r. strcmp a b m = Some r \<and> (r = 0 \<longleftrightarrow> xs = ys) \<and> (r < 0 \<longleftrightarrow> (xs, ys) \<in> lexord {(x, y). x < y})"
  using assms
proof (induction xs arbitrary: a b ys)
  case Nil
  then show ?case by (cases ys) (subst strcmp.simps, simp add: word_less_def uint_pos)+
next
  case (Cons x xs)
  show ?case
  proof (cases ys)
    case Nil
    then show ?thesis using Cons.prems by (subst strcmp.simps) (auto simp: uint_pos)
  next
    case (Cons y zs)
    show ?thesis
    proof (cases "x = y")
      case True
      then have "strcmp a b m = strcmp (a + 1) (b + 1) m" using Cons.prems Cons by (subst strcmp.simps) simp
      then show ?thesis using Cons.IH [of "a + 1" "b + 1" zs] Cons.prems Cons True by simp
    next
      case False
      then have "strcmp a b m = Some (uint x - uint y)" using Cons.prems Cons by (subst strcmp.simps) simp
      then show ?thesis using False Cons by (simp add: word_less_def word_uint_eq_iff)
    qed
  qed
qed

text \<open>
  C36. \<open>strcmp\<close> returns on two terminated strings, 0 exactly when they are equal and a
  negative number exactly when the first is smaller in the lexicographic order of unsigned bytes.
\<close>

theorem strcmp_lexicographic:
  assumes "cstr m a xs" "cstr m b ys"
  shows "\<exists>r. strcmp a b m = Some r \<and> (r = 0 \<longleftrightarrow> xs = ys) \<and> (r < 0 \<longleftrightarrow> (xs, ys) \<in> lexord {(x, y). x < y})"
  using assms by (rule strcmp_order)

theorem strcmp_lexicographic_witness:
  "\<exists>r. strcmp 0x10 0x20 ((\<lambda>_. 0)(0x10 := 97, 0x11 := 98, 0x20 := 97, 0x21 := 99)) = Some r \<and> r < 0"
proof -
  let ?m = "(\<lambda>_. 0)(0x10 := 97, 0x11 := 98, 0x20 := 97, 0x21 := 99) :: mem"
  have "cstr ?m 0x10 [97, 98]" "cstr ?m 0x20 [97, 99]" by simp_all
  from strcmp_lexicographic [OF this] show ?thesis by auto
qed

end
