(* ===== verification/Libc_Stdlib.thy ===== *)
theory Libc_Stdlib
  imports Libc_String
begin

text \<open>
  Character classes (\<open>src/src/libc/nk_ctype.c\<close>) and the conversion of strings to integers
  (\<open>src/src/libc/nk_stdlib.c\<close>).

  A \<open>char\<close> is signed, as on x86-64. The functions take the character as an \<open>int\<close>, a HOL
  integer here since no arithmetic on it leaves the range. The conversion of strings to floating
  point numbers is not modelled.
\<close>

subsection \<open>Character classes\<close>

definition isdigit :: "int \<Rightarrow> bool" where "isdigit c \<longleftrightarrow> c \<ge> 48 \<and> c \<le> 57"
definition islower :: "int \<Rightarrow> bool" where "islower c \<longleftrightarrow> c \<ge> 97 \<and> c \<le> 122"
definition isupper :: "int \<Rightarrow> bool" where "isupper c \<longleftrightarrow> c \<ge> 65 \<and> c \<le> 90"
definition isalpha :: "int \<Rightarrow> bool" where "isalpha c \<longleftrightarrow> islower c \<or> isupper c"
definition isalnum :: "int \<Rightarrow> bool" where "isalnum c \<longleftrightarrow> isalpha c \<or> isdigit c"
definition isblank :: "int \<Rightarrow> bool" where "isblank c \<longleftrightarrow> c = 32 \<or> c = 9"
definition iscntrl :: "int \<Rightarrow> bool" where "iscntrl c \<longleftrightarrow> c \<ge> 0 \<and> c \<le> 31 \<or> c = 127"
definition isgraph :: "int \<Rightarrow> bool" where "isgraph c \<longleftrightarrow> c \<ge> 33 \<and> c \<le> 126"
definition isprint :: "int \<Rightarrow> bool" where "isprint c \<longleftrightarrow> c \<ge> 32 \<and> c \<le> 126"
definition ispunct :: "int \<Rightarrow> bool" where "ispunct c \<longleftrightarrow> isgraph c \<and> \<not> isalnum c"

definition isspace :: "int \<Rightarrow> bool" where
  "isspace c \<longleftrightarrow> c = 32 \<or> c = 12 \<or> c = 10 \<or> c = 13 \<or> c = 9 \<or> c = 11"

definition isxdigit :: "int \<Rightarrow> bool" where
  "isxdigit c \<longleftrightarrow> isdigit c \<or> c \<ge> 97 \<and> c \<le> 102 \<or> c \<ge> 65 \<and> c \<le> 70"

definition tolower :: "int \<Rightarrow> int" where
  "tolower c = (if isupper c then c + (97 - 65) else c)"

definition toupper :: "int \<Rightarrow> int" where
  "toupper c = (if islower c then c - (97 - 65) else c)"

lemmas ctype_defs = isdigit_def islower_def isupper_def isalpha_def isalnum_def isblank_def iscntrl_def isgraph_def
  isprint_def ispunct_def isspace_def isxdigit_def tolower_def toupper_def

subsection \<open>Strings to integers\<close>

definition chr_at :: "mem \<Rightarrow> u64 \<Rightarrow> int" where
  "chr_at m s = sint (m s)"

partial_function (option) skip_space :: "mem \<Rightarrow> u64 \<Rightarrow> u64 option" where
  "skip_space m s = (if isspace (chr_at m s) then skip_space m (s + 1) else Some s)"

text \<open>\<open>None\<close> where the loop of \<open>strtox_main\<close> breaks off.\<close>

definition digit_of :: "int \<Rightarrow> int option" where
  "digit_of c = (if isdigit c then Some (c - 48) else if isalpha c then Some (toupper c - 65 + 10) else None)"

definition ULLONG_MAX :: u64 where "ULLONG_MAX = - 1"

partial_function (option) digit_loop :: "mem \<Rightarrow> int \<Rightarrow> u64 \<Rightarrow> u64 \<Rightarrow> int \<Rightarrow> (u64 \<times> u64 \<times> int) option" where
  "digit_loop m base s acc any =
     (case digit_of (chr_at m s) of
        None \<Rightarrow> Some (s, acc, any)
      | Some c \<Rightarrow>
          if c \<ge> base then Some (s, acc, any)
          else let cutoff = ULLONG_MAX div of_int base; cutlim = uint (ULLONG_MAX mod of_int base)
               in if any < 0 \<or> acc > cutoff \<or> (acc = cutoff \<and> c > cutlim)
                  then digit_loop m base (s + 1) acc (- 1)
                  else digit_loop m base (s + 1) (acc * of_int base + of_int c) 1)"

declare skip_space.simps [code] digit_loop.simps [code]

text \<open>The detection of the base: the rest of the string and the base to use.\<close>

definition detect_base :: "mem \<Rightarrow> u64 \<Rightarrow> int \<Rightarrow> u64 \<times> int" where
  "detect_base m s base =
     (let (s, base) =
        (if (base = 0 \<or> base = 16) \<and> chr_at m s = 48 \<and> (chr_at m (s + 1) = 120 \<or> chr_at m (s + 1) = 88)
         then (if isxdigit (chr_at m (s + 2)) then (s + 2, 16) else (s, if base = 0 then 8 else base))
         else (s, base))
      in (s, if base = 0 then (if chr_at m s = 48 then 8 else 10) else base))"

record strtox =
  x_value :: u64
  x_end :: u64
  x_negative :: bool
  x_overflow :: bool

definition strtox_main :: "mem \<Rightarrow> u64 \<Rightarrow> int \<Rightarrow> strtox option" where
  "strtox_main m nptr base =
     Option.bind (skip_space m nptr) (\<lambda>s.
     let negative = (chr_at m s = 45);
         s = (if chr_at m s = 45 \<or> chr_at m s = 43 then s + 1 else s);
         (s, base) = detect_base m s base
     in if base < 2 \<or> base > 36 then Some \<lparr>x_value = 0, x_end = nptr, x_negative = negative, x_overflow = False\<rparr>
        else map_option (\<lambda>(s, acc, any).
               \<lparr>x_value = (if any < 0 then ULLONG_MAX else acc), x_end = (if any \<noteq> 0 then s else nptr),
                x_negative = negative, x_overflow = any < 0\<rparr>)
             (digit_loop m base s 0 0))"

definition strtoull :: "mem \<Rightarrow> u64 \<Rightarrow> int \<Rightarrow> (u64 \<times> u64) option" where
  "strtoull m nptr base = map_option (\<lambda>x.
     (if x_overflow x then ULLONG_MAX else if x_negative x then - x_value x else x_value x, x_end x))
     (strtox_main m nptr base)"

definition LLONG_MAX :: u64 where "LLONG_MAX = 0x7FFFFFFFFFFFFFFF"
definition LLONG_MIN :: u64 where "LLONG_MIN = 0x8000000000000000"

text \<open>A \<open>long long\<close> is its 64-bit word; the negation of \<open>LLONG_MIN\<close>, undefined in C, wraps.\<close>

definition strtoll :: "mem \<Rightarrow> u64 \<Rightarrow> int \<Rightarrow> (u64 \<times> u64) option" where
  "strtoll m nptr base = map_option (\<lambda>x.
     (if x_overflow x then (if x_negative x then LLONG_MIN else LLONG_MAX)
      else if x_negative x then (if x_value x > LLONG_MAX + 1 then LLONG_MIN else - x_value x)
      else (if x_value x > LLONG_MAX then LLONG_MAX else x_value x), x_end x))
     (strtox_main m nptr base)"

definition strtol :: "mem \<Rightarrow> u64 \<Rightarrow> int \<Rightarrow> (u64 \<times> u64) option" where
  "strtol m nptr base = strtoll m nptr base"

definition strtoul :: "mem \<Rightarrow> u64 \<Rightarrow> int \<Rightarrow> (u64 \<times> u64) option" where
  "strtoul m nptr base = strtoull m nptr base"

definition atoi :: "mem \<Rightarrow> u64 \<Rightarrow> u32 option" where
  "atoi m nptr = map_option (\<lambda>(v, _). ucast v) (strtol m nptr 10)"

definition atol :: "mem \<Rightarrow> u64 \<Rightarrow> u64 option" where
  "atol m nptr = map_option fst (strtol m nptr 10)"

definition atoll :: "mem \<Rightarrow> u64 \<Rightarrow> u64 option" where
  "atoll m nptr = map_option fst (strtoll m nptr 10)"

subsection \<open>The number that a digit string denotes\<close>

text \<open>\<open>digits_at m base s ds\<close>: at \<open>s\<close> stand the digits \<open>ds\<close> and then no further digit.\<close>

primrec digits_at :: "mem \<Rightarrow> int \<Rightarrow> u64 \<Rightarrow> int list \<Rightarrow> bool" where
  "digits_at m base s [] \<longleftrightarrow> (case digit_of (chr_at m s) of None \<Rightarrow> True | Some c \<Rightarrow> c \<ge> base)"
| "digits_at m base s (d # ds) \<longleftrightarrow> digit_of (chr_at m s) = Some d \<and> d < base \<and> digits_at m base (s + 1) ds"

definition number :: "int \<Rightarrow> int \<Rightarrow> int list \<Rightarrow> int" where
  "number base v ds = foldl (\<lambda>v d. v * base + d) v ds"

lemma number_simps [simp]: "number base v [] = v" "number base v (d # ds) = number base (v * base + d) ds"
  by (simp_all add: number_def)

lemma digit_of_nonneg: "digit_of c = Some d \<Longrightarrow> 0 \<le> d"
  by (auto simp: digit_of_def ctype_defs split: if_splits)

lemma digits_nonneg: "digits_at m base s ds \<Longrightarrow> d \<in> set ds \<Longrightarrow> 0 \<le> d"
  by (induction ds arbitrary: s) (auto dest: digit_of_nonneg)

lemma number_mono: "2 \<le> base \<Longrightarrow> 0 \<le> v \<Longrightarrow> \<forall>d\<in>set ds. 0 \<le> d \<Longrightarrow> v \<le> number base v ds"
proof (induction ds arbitrary: v)
  case (Cons d ds)
  have "v \<le> v * base + d" using Cons.prems mult_left_mono [of 1 base v] by simp
  also have "\<dots> \<le> number base (v * base + d) ds" using Cons.prems by (intro Cons.IH) simp_all
  finally show ?case by simp
qed simp

text \<open>The test against \<open>cutoff\<close> and \<open>cutlim\<close> is exact.\<close>

lemma cutoff_exact:
  fixes b v c M :: int
  assumes "0 < b" "0 \<le> v" "0 \<le> c" "c < b"
  shows "v > M div b \<or> (v = M div b \<and> c > M mod b) \<longleftrightarrow> v * b + c > M"
proof -
  define q r where "q = M div b" and "r = M mod b"
  have r: "0 \<le> r" "r < b" using assms(1) by (simp_all add: r_def)
  have "v > q \<or> (v = q \<and> c > r) \<longleftrightarrow> v * b + c > q * b + r"
  proof -
    consider "v < q" | "v = q" | "v > q" by linarith
    then show ?thesis
    proof cases
      case 1
      then have "(v + 1) * b \<le> q * b" using assms(1) by (intro mult_right_mono) simp_all
      then show ?thesis using 1 r assms(4) by (simp add: algebra_simps)
    next
      case 2 then show ?thesis by simp
    next
      case 3
      then have "(q + 1) * b \<le> v * b" using assms(1) by (intro mult_right_mono) simp_all
      then show ?thesis using 3 r assms(3) by (simp add: algebra_simps)
    qed
  qed
  then show ?thesis by (simp add: q_def r_def)
qed

lemma digit_loop_overflowed:
  "digits_at m base s ds \<Longrightarrow> digit_loop m base s acc (- 1) = Some (s + of_nat (length ds), acc, - 1)"
proof (induction ds arbitrary: s)
  case Nil then show ?case by (subst digit_loop.simps) (auto split: option.splits)
next
  case (Cons d ds)
  then have "digit_loop m base s acc (- 1) = digit_loop m base (s + 1) acc (- 1)" by (subst digit_loop.simps) simp
  then show ?case using Cons by (simp add: algebra_simps)
qed

lemma too_large:
  assumes "2 \<le> base" "base \<le> 36" "0 \<le> c" "c < base"
  shows "acc > ULLONG_MAX div of_int base \<or> (acc = ULLONG_MAX div of_int base \<and> c > uint (ULLONG_MAX mod of_int base)) \<longleftrightarrow>
    uint acc * base + c \<ge> 2 ^ 64"
proof -
  have b: "uint (of_int base :: u64) = base" using assms(1,2) by (simp add: unsigned_of_int take_bit_int_eq_self)
  have M: "uint ULLONG_MAX = 2 ^ 64 - 1" by (simp add: ULLONG_MAX_def unsigned_minus_1_eq_mask mask_eq_exp_minus_1)
  have "acc > ULLONG_MAX div of_int base \<longleftrightarrow> uint acc > (2 ^ 64 - 1) div base"
    "acc = ULLONG_MAX div of_int base \<longleftrightarrow> uint acc = (2 ^ 64 - 1) div base"
    "uint (ULLONG_MAX mod of_int base) = (2 ^ 64 - 1) mod base"
    by (simp_all only: word_less_def word_uint_eq_iff uint_div uint_mod b M)
  then show ?thesis using cutoff_exact [of base "uint acc" c "2 ^ 64 - 1"] assms by auto
qed

lemma digit_loop_spec:
  assumes "2 \<le> base" "base \<le> 36" "digits_at m base s ds" "0 \<le> any"
  shows "\<exists>a r. digit_loop m base s acc any = Some (s + of_nat (length ds), a, r) \<and>
    (if number base (uint acc) ds < 2 ^ 64 then uint a = number base (uint acc) ds \<and> r = (if ds = [] then any else 1) else r = - 1)"
  using assms(3,4)
proof (induction ds arbitrary: s acc any)
  case Nil
  then have "digit_loop m base s acc any = Some (s, acc, any)" by (subst digit_loop.simps) (auto split: option.splits)
  then show ?case using uint_bounded [of acc] by simp
next
  case (Cons d ds)
  have d: "digit_of (chr_at m s) = Some d" "d < base" "0 \<le> d" "digits_at m base (s + 1) ds"
    using Cons.prems(1) digit_of_nonneg by auto
  let ?v = "uint acc * base + d"
  note t = too_large [OF assms(1,2) d(3,2), of acc]
  show ?case
  proof (cases "?v \<ge> 2 ^ 64")
    case True
    then have "digit_loop m base s acc any = digit_loop m base (s + 1) acc (- 1)"
      using d t by (subst digit_loop.simps) auto
    moreover have "2 ^ 64 \<le> number base ?v ds"
      using number_mono [of base ?v ds] True assms(1) d(3) digits_nonneg [OF d(4)] by fastforce
    ultimately show ?thesis using digit_loop_overflowed [OF d(4), of acc] by (simp add: algebra_simps)
  next
    case False
    let ?acc = "acc * of_int base + of_int d"
    have b: "uint (of_int base :: u64) = base" "uint (of_int d :: u64) = d"
      using assms(1,2) d(2,3) by (simp_all add: unsigned_of_int take_bit_int_eq_self)
    have u: "uint ?acc = ?v" using False d(3) assms(1) by (simp add: uint_word_ariths b mod_pos_pos_trivial)
    have step: "digit_loop m base s acc any = digit_loop m base (s + 1) ?acc 1"
      using d t False Cons.prems(2) by (subst digit_loop.simps) auto
    obtain a r where "digit_loop m base (s + 1) ?acc 1 = Some (s + 1 + of_nat (length ds), a, r)"
        "if number base ?v ds < 2 ^ 64 then uint a = number base ?v ds \<and> r = 1 else r = - 1"
      using Cons.IH [OF d(4), of 1 ?acc] unfolding u by auto
    then show ?thesis using step by (intro exI [of _ a] exI [of _ r]) (simp add: add.assoc)
  qed
qed

text \<open>White space, an optional sign, and the rest of the string.\<close>

lemma skip_space_spec:
  "\<forall>i<n. isspace (chr_at m (at s i)) \<Longrightarrow> \<not> isspace (chr_at m (at s n)) \<Longrightarrow> skip_space m s = Some (at s n)"
proof (induction n arbitrary: s)
  case 0 then show ?case by (subst skip_space.simps) simp
next
  case (Suc n)
  have "\<forall>i<n. isspace (chr_at m (at (s + 1) i))" using Suc.prems(1) by (auto simp: at_Suc [symmetric])
  moreover have "isspace (chr_at m s)" using Suc.prems(1) by force
  ultimately show ?case using Suc.IH [of "s + 1"] Suc.prems(2) by (subst skip_space.simps) (simp add: at_Suc)
qed

definition numeral_at :: "mem \<Rightarrow> u64 \<Rightarrow> int \<Rightarrow> nat \<Rightarrow> bool \<Rightarrow> int list \<Rightarrow> u64 \<Rightarrow> bool" where
  "numeral_at m nptr base n neg ds stop \<longleftrightarrow>
     (\<forall>i<n. isspace (chr_at m (at nptr i))) \<and> \<not> isspace (chr_at m (at nptr n)) \<and>
     (let s = at nptr n; s' = (if chr_at m s = 45 \<or> chr_at m s = 43 then s + 1 else s)
      in (neg \<longleftrightarrow> chr_at m s = 45) \<and> digits_at m base s' ds \<and> ds \<noteq> [] \<and> stop = s' + of_nat (length ds))"

lemma strtox_main_spec:
  assumes "numeral_at m nptr base n neg ds stop" "2 \<le> base" "base \<le> 36" "base \<noteq> 16"
  shows "\<exists>x. strtox_main m nptr base = Some x \<and> x_end x = stop \<and> x_negative x = neg \<and>
     (x_overflow x \<longleftrightarrow> 2 ^ 64 \<le> number base 0 ds) \<and> (\<not> x_overflow x \<longrightarrow> uint (x_value x) = number base 0 ds)"
proof -
  define s where "s = at nptr n"
  define s' where "s' = (if chr_at m s = 45 \<or> chr_at m s = 43 then s + 1 else s)"
  have h: "skip_space m nptr = Some s" "neg \<longleftrightarrow> chr_at m s = 45" "digits_at m base s' ds" "ds \<noteq> []" "stop = s' + of_nat (length ds)"
    using assms(1) skip_space_spec [of n m nptr] by (auto simp: numeral_at_def Let_def s_def s'_def)
  obtain a r where r: "digit_loop m base s' 0 0 = Some (stop, a, r)"
      "if number base 0 ds < 2 ^ 64 then uint a = number base 0 ds \<and> r = 1 else r = - 1"
    using digit_loop_spec [OF assms(2,3) h(3), of 0 0] h(4,5) by auto
  have "detect_base m s' base = (s', base)" using assms(2,4) by (simp add: detect_base_def)
  then show ?thesis using h(1,2) r assms(2,3) by (auto simp: strtox_main_def s'_def split: if_splits)
qed

lemma sint_u64: "sint (w :: u64) = (if uint w < 2 ^ 63 then uint w else uint w - 2 ^ 64)"
proof -
  have w: "0 \<le> uint w" "uint w < 2 ^ 64" using uint_bounded [of w] by simp_all
  have "sint w = (uint w + 2 ^ 63) mod 2 ^ 64 - 2 ^ 63"
    by (simp add: sint_uint signed_take_bit_eq_take_bit_shift take_bit_eq_mod)
  also have "(uint w + 2 ^ 63) mod 2 ^ 64 = (if uint w < 2 ^ 63 then uint w + 2 ^ 63 else uint w - 2 ^ 63)"
  proof (cases "uint w < 2 ^ 63")
    case False
    then have "(uint w + 2 ^ 63) mod 2 ^ 64 = (uint w + 2 ^ 63 - 2 ^ 64) mod 2 ^ 64" by (simp only: minus_mod_self2)
    then show ?thesis using False w by simp
  qed (use w in simp)
  finally show ?thesis by simp
qed

lemma uint_neg_u64: "uint (- w :: u64) = (if w = 0 then 0 else 2 ^ 64 - uint w)"
  using uint_bounded [of w] by (simp add: uint_word_ariths zmod_zminus1_eq_if uint_0_iff)

lemma strtoll_value:
  assumes "numeral_at m nptr base n neg ds stop" "2 \<le> base" "base \<le> 36" "base \<noteq> 16"
  shows "\<exists>r. strtoll m nptr base = Some (r, stop) \<and>
    sint r = max (- (2 ^ 63)) (min (2 ^ 63 - 1) (if neg then - number base 0 ds else number base 0 ds))"
proof -
  obtain x where x: "strtox_main m nptr base = Some x" "x_end x = stop" "x_negative x = neg"
      "x_overflow x \<longleftrightarrow> 2 ^ 64 \<le> number base 0 ds" "\<not> x_overflow x \<longrightarrow> uint (x_value x) = number base 0 ds"
    using strtox_main_spec [OF assms] by blast
  let ?v = "number base 0 ds"
  have d: "digits_at m base (if chr_at m (at nptr n) = 45 \<or> chr_at m (at nptr n) = 43 then at nptr n + 1 else at nptr n) ds"
    using assms(1) by (simp add: numeral_at_def Let_def)
  have pos: "0 \<le> ?v" using number_mono [of base 0 ds] assms(2) digits_nonneg [OF d] by simp
  have lim: "uint (LLONG_MAX + 1) = 2 ^ 63" "uint LLONG_MAX = 2 ^ 63 - 1" "sint LLONG_MIN = - (2 ^ 63)" "sint LLONG_MAX = 2 ^ 63 - 1"
    by (simp_all add: LLONG_MAX_def LLONG_MIN_def sint_u64)
  show ?thesis
  proof (cases "x_overflow x")
    case True
    then show ?thesis using x lim(3,4) by (auto simp: strtoll_def)
  next
    case False
    then have u: "uint (x_value x) = ?v" using x(5) by simp
    then have z: "x_value x = 0 \<longleftrightarrow> ?v = 0" by (metis uint_0_iff)
    show ?thesis
    proof (cases neg)
      case True
      then have "strtoll m nptr base = Some (if ?v > 2 ^ 63 then LLONG_MIN else - x_value x, stop)"
        using x False by (simp add: strtoll_def word_less_def lim u)
      then show ?thesis using True lim(3) pos z u by (auto simp: sint_u64 [of "- x_value x"] uint_neg_u64)
    next
      case False
      then have "strtoll m nptr base = Some (if ?v > 2 ^ 63 - 1 then LLONG_MAX else x_value x, stop)"
        using x \<open>\<not> x_overflow x\<close> by (simp add: strtoll_def word_less_def lim u)
      then show ?thesis using False lim(4) pos u by (auto simp: sint_u64 [of "x_value x"])
    qed
  qed
qed



end
