(* ===== verification/Local_Apic.thy ===== *)
theory Local_Apic
  imports Kernel_Error
begin

text \<open>
  The driver of the local interrupt controller: \<open>src/src/driver/apic/local_apic.cpp\<close> with
  the constants of its header and the accessors of
  \<open>src/3rd/cpu_io/include/x86_64/apic.hpp\<close>.

  The hardware is a file of model specific registers, a file of memory mapped 32-bit
  registers and the answer of \<open>cpuid\<close>. The driver polls the delivery status of an
  interrupt command until the hardware clears it: \<open>hw_busy\<close> is the number of polls, or
  \<open>None\<close> if it never does. \<open>hw_icr\<close> records the commands in the order in which they
  are written.
\<close>

record apic_hw =
  hw_msr :: "u32 \<Rightarrow> u64"
  hw_mmio :: "u64 \<Rightarrow> u32"
  hw_has_x2apic :: bool
  hw_busy :: "nat option"
  hw_icr :: "u64 list"

record LocalApic =
  is_x2apic_mode :: bool
  apic_base :: u64

definition kDefaultApicBase :: u64 where "kDefaultApicBase = 0xFEE00000"

definition new_LocalApic :: LocalApic where
  "new_LocalApic = \<lparr>is_x2apic_mode = False, apic_base = kDefaultApicBase\<rparr>"

subsection \<open>Constants\<close>

definition kIa32ApicBase :: u32 where "kIa32ApicBase = 0x1B"

definition kId :: u32 where "kId = 0x802"
definition kVersion :: u32 where "kVersion = 0x803"
definition kTpr :: u32 where "kTpr = 0x808"
definition kEoi :: u32 where "kEoi = 0x80B"
definition kSivr :: u32 where "kSivr = 0x80F"
definition kIcr :: u32 where "kIcr = 0x830"
definition kLvtTimer :: u32 where "kLvtTimer = 0x832"
definition kLvtLint0 :: u32 where "kLvtLint0 = 0x835"
definition kLvtLint1 :: u32 where "kLvtLint1 = 0x836"
definition kLvtError :: u32 where "kLvtError = 0x837"
definition kTimerInitCount :: u32 where "kTimerInitCount = 0x838"
definition kTimerCurrCount :: u32 where "kTimerCurrCount = 0x839"
definition kTimerDivide :: u32 where "kTimerDivide = 0x83E"
definition kGlobalEnableBit :: u64 where "kGlobalEnableBit = push_bit 11 1"
definition kX2ApicEnableBit :: u64 where "kX2ApicEnableBit = push_bit 10 1"
definition kXApicIdOffset :: u64 where "kXApicIdOffset = 0x20"
definition kXApicVersionOffset :: u64 where "kXApicVersionOffset = 0x30"
definition kXApicTprOffset :: u64 where "kXApicTprOffset = 0x80"
definition kXApicEoiOffset :: u64 where "kXApicEoiOffset = 0xB0"
definition kXApicSivrOffset :: u64 where "kXApicSivrOffset = 0xF0"
definition kXApicEsrOffset :: u64 where "kXApicEsrOffset = 0x280"
definition kXApicIcrLowOffset :: u64 where "kXApicIcrLowOffset = 0x300"
definition kXApicIcrHighOffset :: u64 where "kXApicIcrHighOffset = 0x310"
definition kXApicLvtTimerOffset :: u64 where "kXApicLvtTimerOffset = 0x320"
definition kXApicLvtLint0Offset :: u64 where "kXApicLvtLint0Offset = 0x350"
definition kXApicLvtLint1Offset :: u64 where "kXApicLvtLint1Offset = 0x360"
definition kXApicLvtErrorOffset :: u64 where "kXApicLvtErrorOffset = 0x370"
definition kXApicTimerInitCountOffset :: u64 where "kXApicTimerInitCountOffset = 0x380"
definition kXApicTimerCurrCountOffset :: u64 where "kXApicTimerCurrCountOffset = 0x390"
definition kXApicTimerDivideOffset :: u64 where "kXApicTimerDivideOffset = 0x3E0"
definition kApicIdMask :: u32 where "kApicIdMask = 0xFF"
definition kApicSoftwareEnableBit :: u32 where "kApicSoftwareEnableBit = 0x100"
definition kSpuriousVector :: u32 where "kSpuriousVector = 0xFF"
definition kLvtMaskBit :: u32 where "kLvtMaskBit = 0x10000"
definition kLvtPeriodicMode :: u32 where "kLvtPeriodicMode = 0x20000"
definition kIcrDeliveryStatusBit :: u32 where "kIcrDeliveryStatusBit = 0x1000"
definition kIcrBroadcastMode :: u32 where "kIcrBroadcastMode = 0xC0000"
definition kInitIpiMode :: u32 where "kInitIpiMode = 0x500"
definition kSipiMode :: u32 where "kSipiMode = 0x600"
definition kExtIntMode :: u32 where "kExtIntMode = 0x700"
definition kNmiMode :: u32 where "kNmiMode = 0x400"
definition kErrorVector :: u8 where "kErrorVector = 0xEF"
definition kDefaultApicClockHz :: u32 where "kDefaultApicClockHz = 100000000"
definition kTimerDivideBy1 :: u32 where "kTimerDivideBy1 = 0x0B"
definition kTimerDivideBy16 :: u32 where "kTimerDivideBy16 = 0x03"
definition kCalibrationDelayLoop :: u32 where "kCalibrationDelayLoop = 1000000"
definition kMicrosecondsPerSecond :: u32 where "kMicrosecondsPerSecond = 1000000"
definition kIcrDestShift :: nat where "kIcrDestShift = 24"

lemmas apic_consts = kIa32ApicBase_def kId_def kVersion_def kTpr_def kEoi_def kSivr_def kIcr_def kLvtTimer_def kLvtLint0_def kLvtLint1_def kLvtError_def kTimerInitCount_def kTimerCurrCount_def kTimerDivide_def
  kGlobalEnableBit_def kX2ApicEnableBit_def kXApicIdOffset_def kXApicVersionOffset_def kXApicTprOffset_def kXApicEoiOffset_def kXApicSivrOffset_def kXApicEsrOffset_def kXApicIcrLowOffset_def kXApicIcrHighOffset_def kXApicLvtTimerOffset_def kXApicLvtLint0Offset_def kXApicLvtLint1Offset_def kXApicLvtErrorOffset_def kXApicTimerInitCountOffset_def kXApicTimerCurrCountOffset_def kXApicTimerDivideOffset_def
  kApicIdMask_def kApicSoftwareEnableBit_def kSpuriousVector_def kLvtMaskBit_def kLvtPeriodicMode_def kIcrDeliveryStatusBit_def kIcrBroadcastMode_def kInitIpiMode_def kSipiMode_def kExtIntMode_def kNmiMode_def kErrorVector_def kDefaultApicClockHz_def kTimerDivideBy1_def kTimerDivideBy16_def kCalibrationDelayLoop_def kMicrosecondsPerSecond_def kIcrDestShift_def

subsection \<open>Registers\<close>

definition msr_read :: "apic_hw \<Rightarrow> u32 \<Rightarrow> u64" where
  "msr_read hw r = hw_msr hw r"

definition msr_write :: "apic_hw \<Rightarrow> u32 \<Rightarrow> u64 \<Rightarrow> apic_hw" where
  "msr_write hw r v = hw\<lparr>hw_msr := (hw_msr hw)(r := v)\<rparr>"

definition mmio_in :: "apic_hw \<Rightarrow> u64 \<Rightarrow> u32" where
  "mmio_in hw a = hw_mmio hw a"

definition mmio_out :: "apic_hw \<Rightarrow> u64 \<Rightarrow> u32 \<Rightarrow> apic_hw" where
  "mmio_out hw a v = hw\<lparr>hw_mmio := (hw_mmio hw)(a := v)\<rparr>"

definition ReadBase :: "apic_hw \<Rightarrow> u64" where "ReadBase hw = msr_read hw kIa32ApicBase"
definition WriteBase :: "u64 \<Rightarrow> apic_hw \<Rightarrow> apic_hw" where "WriteBase v hw = msr_write hw kIa32ApicBase v"

definition IsGloballyEnabled :: "apic_hw \<Rightarrow> bool" where
  "IsGloballyEnabled hw \<longleftrightarrow> ReadBase hw AND kGlobalEnableBit \<noteq> 0"

definition msr_IsX2ApicEnabled :: "apic_hw \<Rightarrow> bool" where
  "msr_IsX2ApicEnabled hw \<longleftrightarrow> ReadBase hw AND kX2ApicEnableBit \<noteq> 0"

definition EnableGlobally :: "apic_hw \<Rightarrow> apic_hw" where
  "EnableGlobally hw = WriteBase (ReadBase hw OR kGlobalEnableBit) hw"

definition DisableGlobally :: "apic_hw \<Rightarrow> apic_hw" where
  "DisableGlobally hw = WriteBase (ReadBase hw AND NOT kGlobalEnableBit) hw"

definition msr_EnableX2Apic :: "apic_hw \<Rightarrow> apic_hw" where
  "msr_EnableX2Apic hw = WriteBase (ReadBase hw OR (kX2ApicEnableBit OR kGlobalEnableBit)) hw"

definition msr_DisableX2Apic :: "apic_hw \<Rightarrow> apic_hw" where
  "msr_DisableX2Apic hw = WriteBase (ReadBase hw AND NOT kX2ApicEnableBit) hw"

definition ReadVersion :: "apic_hw \<Rightarrow> u32" where "ReadVersion hw = ucast (msr_read hw kVersion)"
definition ReadTpr :: "apic_hw \<Rightarrow> u32" where "ReadTpr hw = ucast (msr_read hw kTpr)"
definition WriteTpr :: "u32 \<Rightarrow> apic_hw \<Rightarrow> apic_hw" where "WriteTpr v hw = msr_write hw kTpr (ucast v)"
definition WriteEoi :: "u32 \<Rightarrow> apic_hw \<Rightarrow> apic_hw" where "WriteEoi v hw = msr_write hw kEoi (ucast v)"
definition ReadSivr :: "apic_hw \<Rightarrow> u32" where "ReadSivr hw = ucast (msr_read hw kSivr)"
definition WriteSivr :: "u32 \<Rightarrow> apic_hw \<Rightarrow> apic_hw" where "WriteSivr v hw = msr_write hw kSivr (ucast v)"
definition ReadLvtTimer :: "apic_hw \<Rightarrow> u32" where "ReadLvtTimer hw = ucast (msr_read hw kLvtTimer)"
definition WriteLvtTimer :: "u32 \<Rightarrow> apic_hw \<Rightarrow> apic_hw" where "WriteLvtTimer v hw = msr_write hw kLvtTimer (ucast v)"
definition WriteLvtLint0 :: "u32 \<Rightarrow> apic_hw \<Rightarrow> apic_hw" where "WriteLvtLint0 v hw = msr_write hw kLvtLint0 (ucast v)"
definition WriteLvtLint1 :: "u32 \<Rightarrow> apic_hw \<Rightarrow> apic_hw" where "WriteLvtLint1 v hw = msr_write hw kLvtLint1 (ucast v)"
definition WriteLvtError :: "u32 \<Rightarrow> apic_hw \<Rightarrow> apic_hw" where "WriteLvtError v hw = msr_write hw kLvtError (ucast v)"
definition WriteTimerInitCount :: "u32 \<Rightarrow> apic_hw \<Rightarrow> apic_hw" where
  "WriteTimerInitCount v hw = msr_write hw kTimerInitCount (ucast v)"
definition ReadTimerCurrCount :: "apic_hw \<Rightarrow> u32" where "ReadTimerCurrCount hw = ucast (msr_read hw kTimerCurrCount)"
definition WriteTimerDivide :: "u32 \<Rightarrow> apic_hw \<Rightarrow> apic_hw" where "WriteTimerDivide v hw = msr_write hw kTimerDivide (ucast v)"

text \<open>A command is sent by the write of the (low half of the) command register.\<close>

definition WriteIcr :: "u64 \<Rightarrow> apic_hw \<Rightarrow> apic_hw" where
  "WriteIcr v hw = (msr_write hw kIcr v)\<lparr>hw_icr := hw_icr hw @ [v]\<rparr>"

lemmas apic_regs = msr_read_def msr_write_def mmio_in_def mmio_out_def ReadBase_def WriteBase_def IsGloballyEnabled_def
  msr_IsX2ApicEnabled_def EnableGlobally_def DisableGlobally_def msr_EnableX2Apic_def msr_DisableX2Apic_def ReadVersion_def
  ReadTpr_def WriteTpr_def WriteEoi_def ReadSivr_def WriteSivr_def ReadLvtTimer_def WriteLvtTimer_def WriteLvtLint0_def
  WriteLvtLint1_def WriteLvtError_def WriteTimerInitCount_def ReadTimerCurrCount_def WriteTimerDivide_def WriteIcr_def

definition xapic_in :: "LocalApic \<Rightarrow> u64 \<Rightarrow> apic_hw \<Rightarrow> u32" where
  "xapic_in la off hw = mmio_in hw (apic_base la + off)"

definition xapic_out :: "LocalApic \<Rightarrow> u64 \<Rightarrow> u32 \<Rightarrow> apic_hw \<Rightarrow> apic_hw" where
  "xapic_out la off v hw = mmio_out hw (apic_base la + off) v"

definition xapic_command :: "LocalApic \<Rightarrow> u32 \<Rightarrow> apic_hw \<Rightarrow> apic_hw" where
  "xapic_command la v hw = (xapic_out la kXApicIcrLowOffset v hw)
     \<lparr>hw_icr := hw_icr hw @ [push_bit 32 (ucast (xapic_in la kXApicIcrHighOffset hw)) OR ucast v]\<rparr>"

text \<open>\<open>while ((ReadIcr() & kIcrDeliveryStatusBit) != 0);\<close>\<close>

definition await_delivery :: "apic_hw \<Rightarrow> apic_hw outcome" where
  "await_delivery hw = (case hw_busy hw of None \<Rightarrow> Fault LoopForever | Some n \<Rightarrow> Done hw)"

subsection \<open>Modes\<close>

definition CheckX2ApicSupport :: "apic_hw \<Rightarrow> bool" where
  "CheckX2ApicSupport hw = hw_has_x2apic hw"

definition IsXApicEnabled :: "apic_hw \<Rightarrow> bool" where
  "IsXApicEnabled hw \<longleftrightarrow> IsGloballyEnabled hw \<and> \<not> msr_IsX2ApicEnabled hw"

definition EnableXApic :: "apic_hw \<Rightarrow> bool \<times> apic_hw" where
  "EnableXApic hw = (let hw1 = msr_DisableX2Apic (EnableGlobally hw) in (IsXApicEnabled hw1, hw1))"

definition DisableXApic :: "apic_hw \<Rightarrow> bool \<times> apic_hw" where
  "DisableXApic hw = (let hw1 = DisableGlobally hw in (\<not> IsXApicEnabled hw1, hw1))"

definition IsX2ApicEnabled :: "apic_hw \<Rightarrow> bool" where
  "IsX2ApicEnabled hw = msr_IsX2ApicEnabled hw"

definition EnableX2Apic :: "apic_hw \<Rightarrow> bool \<times> apic_hw" where
  "EnableX2Apic hw = (if \<not> CheckX2ApicSupport hw then (False, hw)
     else let hw1 = msr_EnableX2Apic hw in (IsX2ApicEnabled hw1, hw1))"

definition DisableX2Apic :: "apic_hw \<Rightarrow> bool \<times> apic_hw" where
  "DisableX2Apic hw = (let hw1 = msr_DisableX2Apic hw in (\<not> IsX2ApicEnabled hw1, hw1))"

subsection \<open>Operations\<close>

definition SetTaskPriority :: "u8 \<Rightarrow> LocalApic \<Rightarrow> apic_hw \<Rightarrow> apic_hw" where
  "SetTaskPriority priority la hw = (if is_x2apic_mode la then WriteTpr (ucast priority) hw
     else xapic_out la kXApicTprOffset (ucast priority) hw)"

definition GetTaskPriority :: "LocalApic \<Rightarrow> apic_hw \<Rightarrow> u8" where
  "GetTaskPriority la hw = (if is_x2apic_mode la then ucast (ReadTpr hw AND kApicIdMask)
     else ucast (xapic_in la kXApicTprOffset hw AND kApicIdMask))"

definition LocalApic_Init_mode :: "LocalApic \<Rightarrow> apic_hw \<Rightarrow> unit Expected \<times> LocalApic \<times> apic_hw" where
  "LocalApic_Init_mode la hw =
    (let hw1 = (if \<not> IsGloballyEnabled hw then EnableGlobally hw else hw) in
     case EnableX2Apic hw1 of
       (True, hw2) \<Rightarrow> (Inr (), la\<lparr>is_x2apic_mode := True\<rparr>, hw2)
     | (False, hw2) \<Rightarrow>
         (case EnableXApic hw2 of
            (False, hw3) \<Rightarrow> (Inl kApicInitFailed, la, hw3)
          | (True, hw3) \<Rightarrow> (Inr (), la\<lparr>is_x2apic_mode := False\<rparr>, hw3)))"

definition LocalApic_Init_registers :: "LocalApic \<Rightarrow> apic_hw \<Rightarrow> apic_hw" where
  "LocalApic_Init_registers la hw =
    (let sivr = (if is_x2apic_mode la then ReadSivr hw else xapic_in la kXApicSivrOffset hw);
         sivr = sivr OR kApicSoftwareEnableBit;
         sivr = sivr OR kSpuriousVector;
         hw1 = (if is_x2apic_mode la then WriteSivr sivr hw else xapic_out la kXApicSivrOffset sivr hw);
         hw2 = SetTaskPriority 0 la hw1 in
     if is_x2apic_mode la
     then WriteLvtError kLvtMaskBit (WriteLvtLint1 kLvtMaskBit (WriteLvtLint0 kLvtMaskBit
            (WriteLvtTimer kLvtMaskBit hw2)))
     else xapic_out la kXApicLvtErrorOffset kLvtMaskBit (xapic_out la kXApicLvtLint1Offset kLvtMaskBit
            (xapic_out la kXApicLvtLint0Offset kLvtMaskBit (xapic_out la kXApicLvtTimerOffset kLvtMaskBit hw2))))"

definition LocalApic_Init :: "LocalApic \<Rightarrow> apic_hw \<Rightarrow> unit Expected \<times> LocalApic \<times> apic_hw" where
  "LocalApic_Init la hw = (case LocalApic_Init_mode la hw of
       (Inl e, la1, hw1) \<Rightarrow> (Inl e, la1, hw1)
     | (Inr _, la1, hw1) \<Rightarrow> (Inr (), la1, LocalApic_Init_registers la1 hw1))"

definition GetApicVersion :: "LocalApic \<Rightarrow> apic_hw \<Rightarrow> u32" where
  "GetApicVersion la hw = (if is_x2apic_mode la then ReadVersion hw else xapic_in la kXApicVersionOffset hw)"

definition LocalApic_SendEoi :: "LocalApic \<Rightarrow> apic_hw \<Rightarrow> apic_hw" where
  "LocalApic_SendEoi la hw = (if is_x2apic_mode la then WriteEoi 0 hw else xapic_out la kXApicEoiOffset 0 hw)"

definition LocalApic_SendIpi :: "u32 \<Rightarrow> u8 \<Rightarrow> LocalApic \<Rightarrow> apic_hw \<Rightarrow> (unit Expected \<times> apic_hw) outcome" where
  "LocalApic_SendIpi destination_apic_id vector la hw =
    (if is_x2apic_mode la
     then let icr = (ucast vector :: u64);
              icr = icr OR push_bit 32 (ucast destination_apic_id) in
          obind (await_delivery (WriteIcr icr hw)) (\<lambda>hw2. Done (Inr (), hw2))
     else let icr_high = push_bit kIcrDestShift (destination_apic_id AND kApicIdMask);
              hw1 = xapic_out la kXApicIcrHighOffset icr_high hw;
              icr_low = (ucast vector :: u32) in
          obind (await_delivery (xapic_command la icr_low hw1)) (\<lambda>hw2. Done (Inr (), hw2)))"

definition LocalApic_BroadcastIpi :: "u8 \<Rightarrow> LocalApic \<Rightarrow> apic_hw \<Rightarrow> (unit Expected \<times> apic_hw) outcome" where
  "LocalApic_BroadcastIpi vector la hw =
    (if is_x2apic_mode la
     then let icr = (ucast vector :: u64);
              icr = icr OR 0x80000 in
          obind (await_delivery (WriteIcr icr hw)) (\<lambda>hw2. Done (Inr (), hw2))
     else let hw1 = xapic_out la kXApicIcrHighOffset 0 hw;
              icr_low = (ucast vector :: u32) OR kIcrBroadcastMode in
          obind (await_delivery (xapic_command la icr_low hw1)) (\<lambda>hw2. Done (Inr (), hw2)))"

definition EnableTimer :: "u32 \<Rightarrow> u32 \<Rightarrow> u8 \<Rightarrow> bool \<Rightarrow> LocalApic \<Rightarrow> apic_hw \<Rightarrow> apic_hw" where
  "EnableTimer initial_count divide_value vector periodic la hw =
    (let lvt_timer = (ucast vector :: u32);
         lvt_timer = (if periodic then lvt_timer OR kLvtPeriodicMode else lvt_timer) in
     if is_x2apic_mode la
     then WriteTimerInitCount initial_count (WriteLvtTimer lvt_timer (WriteTimerDivide divide_value hw))
     else xapic_out la kXApicTimerInitCountOffset initial_count
            (xapic_out la kXApicLvtTimerOffset lvt_timer
              (xapic_out la kXApicTimerDivideOffset divide_value hw)))"

definition DisableTimer :: "LocalApic \<Rightarrow> apic_hw \<Rightarrow> apic_hw" where
  "DisableTimer la hw =
    (if is_x2apic_mode la
     then let lvt_timer = ReadLvtTimer hw OR kLvtMaskBit in
          WriteTimerInitCount 0 (WriteLvtTimer lvt_timer hw)
     else let lvt_timer = xapic_in la kXApicLvtTimerOffset hw OR kLvtMaskBit in
          xapic_out la kXApicTimerInitCountOffset 0 (xapic_out la kXApicLvtTimerOffset lvt_timer hw))"

definition GetTimerCurrentCount :: "LocalApic \<Rightarrow> apic_hw \<Rightarrow> u32" where
  "GetTimerCurrentCount la hw = (if is_x2apic_mode la then ReadTimerCurrCount hw
     else xapic_in la kXApicTimerCurrCountOffset hw)"

definition SetupPeriodicTimer :: "u32 \<Rightarrow> u8 \<Rightarrow> LocalApic \<Rightarrow> apic_hw \<Rightarrow> apic_hw outcome" where
  "SetupPeriodicTimer frequency_hz vector la hw =
    (if frequency_hz = 0 then Fault DivByZero
     else let initial_count = kDefaultApicClockHz div frequency_hz in
       Done (if initial_count > 0xFFFFFFFF
             then EnableTimer ((kDefaultApicClockHz div 16) div frequency_hz) kTimerDivideBy16 vector True la hw
             else EnableTimer initial_count kTimerDivideBy1 vector True la hw))"

definition SetupOneShotTimer :: "u32 \<Rightarrow> u8 \<Rightarrow> LocalApic \<Rightarrow> apic_hw \<Rightarrow> apic_hw" where
  "SetupOneShotTimer microseconds vector la hw =
    (let initial_count = (kDefaultApicClockHz div kMicrosecondsPerSecond) * microseconds in
     if initial_count > 0xFFFFFFFF
     then EnableTimer (((kDefaultApicClockHz div 16) div kMicrosecondsPerSecond) * microseconds)
            kTimerDivideBy16 vector False la hw
     else EnableTimer initial_count kTimerDivideBy1 vector False la hw)"

text \<open>
  In x2APIC mode the variable \<open>icr\<close> of the two functions below is declared \<open>auto\<close> and
  initialised with a 32-bit constant, so \<open>icr |=\<close> of a 64-bit value converts the result
  back to 32 bits.
\<close>

definition SendInitIpi :: "u32 \<Rightarrow> LocalApic \<Rightarrow> apic_hw \<Rightarrow> apic_hw outcome" where
  "SendInitIpi destination_apic_id la hw =
    (if is_x2apic_mode la
     then let icr = kInitIpiMode;
              icr = (ucast ((ucast icr :: u64) OR push_bit 32 (ucast destination_apic_id)) :: u32) in
          await_delivery (WriteIcr (ucast icr) hw)
     else let icr_high = push_bit kIcrDestShift (destination_apic_id AND kApicIdMask);
              hw1 = xapic_out la kXApicIcrHighOffset icr_high hw in
          await_delivery (xapic_command la kInitIpiMode hw1))"

definition SendStartupIpi :: "u32 \<Rightarrow> u8 \<Rightarrow> LocalApic \<Rightarrow> apic_hw \<Rightarrow> apic_hw outcome" where
  "SendStartupIpi destination_apic_id start_page la hw =
    (if is_x2apic_mode la
     then let icr = kSipiMode OR ucast start_page;
              icr = (ucast ((ucast icr :: u64) OR push_bit 32 (ucast destination_apic_id)) :: u32) in
          await_delivery (WriteIcr (ucast icr) hw)
     else let icr_high = push_bit kIcrDestShift (destination_apic_id AND kApicIdMask);
              hw1 = xapic_out la kXApicIcrHighOffset icr_high hw in
          await_delivery (xapic_command la (kSipiMode OR ucast start_page) hw1))"

definition ConfigureLvtEntries :: "LocalApic \<Rightarrow> apic_hw \<Rightarrow> apic_hw" where
  "ConfigureLvtEntries la hw =
    (if is_x2apic_mode la
     then WriteLvtError (ucast kErrorVector) (WriteLvtLint1 kNmiMode (WriteLvtLint0 kExtIntMode hw))
     else xapic_out la kXApicLvtErrorOffset (ucast kErrorVector)
            (xapic_out la kXApicLvtLint1Offset kNmiMode (xapic_out la kXApicLvtLint0Offset kExtIntMode hw)))"

text \<open>
  \<open>esr\<close> is the value the hardware loads into the error status register when it is written.
\<close>

definition ReadErrorStatus :: "u32 \<Rightarrow> LocalApic \<Rightarrow> apic_hw \<Rightarrow> u32 \<times> apic_hw" where
  "ReadErrorStatus esr la hw =
    (if is_x2apic_mode la then (0, hw)
     else let hw1 = xapic_out la kXApicEsrOffset esr hw in (xapic_in la kXApicEsrOffset hw1, hw1))"

text \<open>The delay loops of \<open>WakeupAp\<close> have no effect on the state.\<close>

definition WakeupAp :: "u32 \<Rightarrow> u8 \<Rightarrow> LocalApic \<Rightarrow> apic_hw \<Rightarrow> apic_hw outcome" where
  "WakeupAp destination_apic_id start_vector la hw =
    obind (SendInitIpi destination_apic_id la hw) (\<lambda>hw1.
    obind (SendStartupIpi destination_apic_id start_vector la hw1) (\<lambda>hw2.
    SendStartupIpi destination_apic_id start_vector la hw2))"

subsection \<open>Lemmas\<close>

lemmas lapic_defs = apic_regs xapic_in_def xapic_out_def xapic_command_def await_delivery_def
lemmas lapic_modes = CheckX2ApicSupport_def IsXApicEnabled_def EnableXApic_def DisableXApic_def IsX2ApicEnabled_def
  EnableX2Apic_def DisableX2Apic_def

lemma base_bits:
  "(x OR (kX2ApicEnableBit OR kGlobalEnableBit)) AND kX2ApicEnableBit \<noteq> 0"
  "((x OR kGlobalEnableBit) AND NOT kX2ApicEnableBit) AND kGlobalEnableBit \<noteq> 0"
  "(x AND NOT kX2ApicEnableBit) AND kX2ApicEnableBit = 0"
  for x :: u64
proof -
  have a: "bit ((x OR (kX2ApicEnableBit OR kGlobalEnableBit)) AND kX2ApicEnableBit) 10"
    by (simp add: bit_simps kX2ApicEnableBit_def)
  show "(x OR (kX2ApicEnableBit OR kGlobalEnableBit)) AND kX2ApicEnableBit \<noteq> 0"
    using a by (metis bit_0_eq bot_apply bot_bool_def)
  have b: "bit (((x OR kGlobalEnableBit) AND NOT kX2ApicEnableBit) AND kGlobalEnableBit) 11"
    by (simp add: bit_simps kX2ApicEnableBit_def kGlobalEnableBit_def)
  show "((x OR kGlobalEnableBit) AND NOT kX2ApicEnableBit) AND kGlobalEnableBit \<noteq> 0"
    using b by (metis bit_0_eq bot_apply bot_bool_def)
  show "(x AND NOT kX2ApicEnableBit) AND kX2ApicEnableBit = 0"
    by (simp add: bit_eq_iff bit_simps kX2ApicEnableBit_def)
qed

text \<open>
  Initialisation never fails, ends in x2APIC mode exactly if the processor has it, and
  leaves the interrupt controller enabled with vector \<open>0xFF\<close> for spurious interrupts,
  priority 0 and every entry of the local vector table masked.
\<close>

definition lapic_sivr :: "LocalApic \<Rightarrow> apic_hw \<Rightarrow> u32" where
  "lapic_sivr la hw = (if is_x2apic_mode la then ReadSivr hw else xapic_in la kXApicSivrOffset hw)"

definition lapic_lvts :: "LocalApic \<Rightarrow> apic_hw \<Rightarrow> u32 list" where
  "lapic_lvts la hw = (if is_x2apic_mode la
     then map (\<lambda>r. ucast (msr_read hw r)) [kLvtTimer, kLvtLint0, kLvtLint1, kLvtError]
     else map (\<lambda>off. xapic_in la off hw)
            [kXApicLvtTimerOffset, kXApicLvtLint0Offset, kXApicLvtLint1Offset, kXApicLvtErrorOffset])"

lemma EnableX2Apic_result:
  "hw_has_x2apic hw \<Longrightarrow> EnableX2Apic hw = (True, msr_EnableX2Apic hw)"
  "hw_has_x2apic hw \<Longrightarrow> msr_IsX2ApicEnabled (msr_EnableX2Apic hw)"
  "\<not> hw_has_x2apic hw \<Longrightarrow> EnableX2Apic hw = (False, hw)"
  by (simp_all add: lapic_modes lapic_defs Let_def base_bits)

lemma EnableXApic_result:
  "EnableXApic hw = (True, msr_DisableX2Apic (EnableGlobally hw))"
  "IsXApicEnabled (msr_DisableX2Apic (EnableGlobally hw))"
  by (simp_all add: lapic_modes lapic_defs Let_def base_bits)

lemma has_x2apic_kept [simp]: "hw_has_x2apic (EnableGlobally hw) = hw_has_x2apic hw"
  by (simp add: lapic_defs)

lemma Init_mode_ok:
  obtains hw' where
    "LocalApic_Init_mode la hw = (Inr (), la\<lparr>is_x2apic_mode := hw_has_x2apic hw\<rparr>, hw')"
    "if hw_has_x2apic hw then msr_IsX2ApicEnabled hw' else IsXApicEnabled hw'"
proof -
  define hw1 where "hw1 = (if \<not> IsGloballyEnabled hw then EnableGlobally hw else hw)"
  have "hw_has_x2apic hw1 = hw_has_x2apic hw" by (simp add: hw1_def)
  then show thesis
    using that EnableX2Apic_result [of hw1] EnableXApic_result [of hw1]
    by (cases "hw_has_x2apic hw") (simp_all add: LocalApic_Init_mode_def hw1_def [symmetric] Let_def)
qed

lemma ucast_down_up [simp]: "ucast (ucast (x :: u32) :: u64) = x"
  by (simp add: bit_eq_iff bit_simps)

lemma ucast_up_up [simp]: "(ucast (ucast (v :: u8) :: u32) :: u64) = ucast v"
  by (rule bit_word_eqI) (auto simp: bit_simps dest: bit_imp_le_length)

lemma sivr_bits: "(x OR 0x100 OR 0xFF) AND 0x1FF = (0x1FF :: u32)"
  by (simp add: bit_eq_iff bit_and_iff bit_or_iff or.assoc)

lemma Init_registers_ok:
  assumes "hw' = LocalApic_Init_registers la hw"
  shows "lapic_sivr la hw' AND 0x1FF = 0x1FF" "GetTaskPriority la hw' = 0"
    "lapic_lvts la hw' = [kLvtMaskBit, kLvtMaskBit, kLvtMaskBit, kLvtMaskBit]"
  unfolding assms
  subgoal
    using sivr_bits
    by (auto simp: LocalApic_Init_registers_def lapic_sivr_def SetTaskPriority_def lapic_defs apic_consts Let_def or.assoc)
  subgoal
    by (auto simp: LocalApic_Init_registers_def GetTaskPriority_def SetTaskPriority_def lapic_defs apic_consts Let_def)
  subgoal
    by (auto simp: LocalApic_Init_registers_def lapic_lvts_def SetTaskPriority_def lapic_defs apic_consts Let_def)
  done

lemma await_delivery_busy:
  "hw_busy hw = Some n \<Longrightarrow> await_delivery hw = Done hw"
  "hw_busy hw = None \<Longrightarrow> await_delivery hw = Fault LoopForever"
  by (simp_all add: await_delivery_def)

lemma busy_kept [simp]:
  "hw_busy (WriteIcr v hw) = hw_busy hw" "hw_busy (xapic_out la off w hw) = hw_busy hw"
  "hw_busy (xapic_command la w hw) = hw_busy hw"
  by (simp_all add: lapic_defs)

lemma icr_sent [simp]:
  "hw_icr (WriteIcr v hw) = hw_icr hw @ [v]" "hw_icr (xapic_out la off w hw) = hw_icr hw"
  "hw_icr (xapic_command la w (xapic_out la kXApicIcrHighOffset h hw)) = hw_icr hw @ [push_bit 32 (ucast h) OR ucast w]"
  by (simp_all add: lapic_defs)

lemma dest_lost:
  "ucast ((ucast (w :: u32) :: u64) OR push_bit 32 (ucast (d :: u32))) = w"
  by (auto simp: bit_eq_iff bit_simps)

text \<open>The command that a correct sender writes: the mode and vector with the destination of the mode.\<close>

definition icr_for :: "LocalApic \<Rightarrow> u32 \<Rightarrow> u32 \<Rightarrow> u64" where
  "icr_for la d w = (if is_x2apic_mode la then push_bit 32 (ucast d) OR ucast w
     else push_bit 56 (ucast d) OR ucast w)"

lemma dest_xapic:
  "push_bit 32 (ucast (push_bit kIcrDestShift (d AND kApicIdMask)) :: u64) = push_bit 56 (ucast d)"
  for d :: u32
proof -
  have "kApicIdMask = mask 8" by (simp add: apic_consts mask_eq_exp_minus_1)
  then show ?thesis by (auto simp: bit_eq_iff bit_simps kIcrDestShift_def simp del: push_bit_and)
qed

lemma SendIpi_command:
  assumes "hw_busy hw = Some n"
  obtains hw' where "LocalApic_SendIpi d v la hw = Done (Inr (), hw')"
    "hw_icr hw' = hw_icr hw @ [icr_for la d (ucast v)]" "hw_busy hw' = Some n"
  using assms that
  by (cases "is_x2apic_mode la")
    (simp_all add: LocalApic_SendIpi_def await_delivery_busy dest_xapic icr_for_def or.commute Let_def del: push_bit_and)

lemma SendInitIpi_command:
  assumes "hw_busy hw = Some n"
  obtains hw' where "SendInitIpi d la hw = Done hw'" "hw_busy hw' = Some n"
    "hw_icr hw' = hw_icr hw @ [icr_for la (if is_x2apic_mode la then 0 else d) kInitIpiMode]"
  using assms that
  by (cases "is_x2apic_mode la")
    (simp_all add: SendInitIpi_def await_delivery_busy dest_lost dest_xapic icr_for_def Let_def del: push_bit_and)

lemma SendStartupIpi_command:
  assumes "hw_busy hw = Some n"
  obtains hw' where "SendStartupIpi d p la hw = Done hw'" "hw_busy hw' = Some n"
    "hw_icr hw' = hw_icr hw @ [icr_for la (if is_x2apic_mode la then 0 else d) (kSipiMode OR ucast p)]"
  using assms that
  by (cases "is_x2apic_mode la")
    (simp_all add: SendStartupIpi_def await_delivery_busy dest_lost dest_xapic icr_for_def Let_def del: push_bit_and)

text \<open>
  Waking up another processor sends the INIT command and then twice the start-up command.
  In xAPIC mode they carry the destination; in x2APIC mode the destination is lost and the
  commands go to the processor with identifier 0, although the ordinary inter-processor
  interrupt (\<open>SendIpi_command\<close>) carries the destination in both modes.
\<close>

definition wakeup_commands :: "LocalApic \<Rightarrow> u32 \<Rightarrow> u8 \<Rightarrow> u64 list" where
  "wakeup_commands la d p = map (icr_for la (if is_x2apic_mode la then 0 else d))
     [kInitIpiMode, kSipiMode OR ucast p, kSipiMode OR ucast p]"

lemma WakeupAp_commands:
  assumes "hw_busy hw = Some n"
  obtains hw' where "WakeupAp d p la hw = Done hw'" "hw_busy hw' = Some n"
    "hw_icr hw' = hw_icr hw @ wakeup_commands la d p"
proof -
  let ?d = "if is_x2apic_mode la then 0 else d"
  obtain hw1 where 1: "SendInitIpi d la hw = Done hw1" "hw_busy hw1 = Some n"
      "hw_icr hw1 = hw_icr hw @ [icr_for la ?d kInitIpiMode]"
    by (rule SendInitIpi_command [OF assms])
  obtain hw2 where 2: "SendStartupIpi d p la hw1 = Done hw2" "hw_busy hw2 = Some n"
      "hw_icr hw2 = hw_icr hw1 @ [icr_for la ?d (kSipiMode OR ucast p)]"
    by (rule SendStartupIpi_command [OF 1(2)])
  obtain hw3 where 3: "SendStartupIpi d p la hw2 = Done hw3" "hw_busy hw3 = Some n"
      "hw_icr hw3 = hw_icr hw2 @ [icr_for la ?d (kSipiMode OR ucast p)]"
    by (rule SendStartupIpi_command [OF 2(2)])
  show thesis
    by (rule that [of hw3]) (use 1 2 3 in \<open>simp_all add: WakeupAp_def wakeup_commands_def\<close>)
qed

text \<open>
  The timers: the count of the one-shot timer is computed modulo \<open>2 ^ 32\<close> and the branch that
  would choose the larger divider is never taken.
\<close>

lemma no_word_above: "\<not> (0xFFFFFFFF < x)" for x :: u32
proof -
  have "(0xFFFFFFFF :: u32) = - 1" by simp
  then show ?thesis by (simp only: word_not_simps word_order.extremum_strict not_False_eq_True)
qed

definition lapic_timer :: "LocalApic \<Rightarrow> apic_hw \<Rightarrow> u32 \<times> u32 \<times> u32" where
  "lapic_timer la hw = (if is_x2apic_mode la
     then (ucast (msr_read hw kTimerInitCount), ucast (msr_read hw kTimerDivide), ucast (msr_read hw kLvtTimer))
     else (xapic_in la kXApicTimerInitCountOffset hw, xapic_in la kXApicTimerDivideOffset hw,
           xapic_in la kXApicLvtTimerOffset hw))"

lemma EnableTimer_registers:
  "lapic_timer la (EnableTimer c d v p la hw) = (c, d, if p then ucast v OR kLvtPeriodicMode else ucast v)"
  by (auto simp: lapic_timer_def EnableTimer_def lapic_defs apic_consts Let_def)

lemma SetupPeriodicTimer_registers:
  assumes "f \<noteq> 0"
  shows "\<exists>hw'. SetupPeriodicTimer f v la hw = Done hw' \<and>
    lapic_timer la hw' = (kDefaultApicClockHz div f, kTimerDivideBy1, ucast v OR kLvtPeriodicMode)"
  using assms by (simp add: SetupPeriodicTimer_def no_word_above EnableTimer_registers Let_def)

text \<open>
  the one-shot timer is loaded with a hundred times the number of microseconds modulo
  \<open>2 ^ 32\<close>, always with divider 1: from 42949673 microseconds on the timer fires too early.
\<close>

theorem SetupOneShotTimer_count:
  "case lapic_timer la (SetupOneShotTimer us v la hw) of (initial, divider, lvt) \<Rightarrow>
     uint initial = (100 * uint us) mod 2 ^ 32 \<and> divider = kTimerDivideBy1 \<and> lvt = ucast v \<and>
     (uint initial = 100 * uint us \<longleftrightarrow> uint us < 42949673)"
proof -
  have "(kDefaultApicClockHz div kMicrosecondsPerSecond) = 100"
    by (simp add: apic_consts word_arith_nat_defs)
  then have t: "lapic_timer la (SetupOneShotTimer us v la hw) = (100 * us, kTimerDivideBy1, ucast v)"
    by (simp add: SetupOneShotTimer_def no_word_above EnableTimer_registers Let_def)
  have u: "uint (100 * us) = (100 * uint us) mod 2 ^ 32"
    by (simp add: uint_word_ariths)
  have "uint us < 2 ^ 32" "0 \<le> uint us" using uint_lt2p [of us] by simp_all
  then have "(100 * uint us) mod 2 ^ 32 = 100 * uint us \<longleftrightarrow> uint us < 42949673"
    using pos_mod_bound [of "2 ^ 32" "100 * uint us"] by (cases "uint us < 42949673") simp_all
  with t u show ?thesis by simp
qed

end
