(* ===== verification/Device_Registers.thy ===== *)
theory Device_Registers
  imports Kernel_Error
begin

text \<open>
  The contract that the drivers rely on when they read, modify and write a register of a
  device: a register holds the value written to it and a write to one register leaves the
  others alone. The drivers' theories interpret it on their own accessors.
\<close>

locale device_registers =
  fixes valid :: "'r \<Rightarrow> bool"
    and rd :: "'h \<Rightarrow> 'r \<Rightarrow> 'w :: len word"
    and wr :: "'h \<Rightarrow> 'r \<Rightarrow> 'w word \<Rightarrow> 'h"
  assumes rd_wr: "valid r \<Longrightarrow> rd (wr h r v) r = v"
    and rd_wr_other: "valid r \<Longrightarrow> valid s \<Longrightarrow> r \<noteq> s \<Longrightarrow> rd (wr h r v) s = rd h s"
begin

lemma set_bits:
  assumes "valid r"
  shows "rd (wr h r (rd h r OR b)) r = rd h r OR b"
  using assms by (simp add: rd_wr)

lemma rd_wr_if: "valid r \<Longrightarrow> valid s \<Longrightarrow> rd (wr h r v) s = (if s = r then v else rd h s)"
  by (simp add: rd_wr rd_wr_other)

lemma set_then_clear:
  assumes "valid r" "valid s" "h' = wr h r (rd h r OR b)" "h'' = wr h' r (rd h' r AND NOT b)"
  shows "rd h'' s = (if s = r then rd h r AND NOT b else rd h s)"
proof -
  have "(x OR b) AND NOT b = x AND NOT b" for x
    by (auto simp: bit_eq_iff bit_simps)
  with assms show ?thesis by (simp add: rd_wr_if)
qed

lemma clear_then_set:
  assumes "valid r" "valid s" "h' = wr h r (rd h r AND NOT b)" "h'' = wr h' r (rd h' r OR b)"
  shows "rd h'' s = (if s = r then rd h r OR b else rd h s)"
proof -
  have "(x AND NOT b) OR b = x OR b" for x
    by (auto simp: bit_eq_iff bit_simps)
  with assms show ?thesis by (simp add: rd_wr_if)
qed

text \<open>A loop that writes every register of a list.\<close>

lemma write_all:
  assumes "\<And>r. r \<in> set rs \<Longrightarrow> valid r" "valid s"
  shows "rd (foldl (\<lambda>h r. wr h r (f r)) h rs) s = (if s \<in> set rs then f s else rd h s)"
  using assms
  by (induction rs arbitrary: h) (auto simp: rd_wr_if)

lemma modify_all:
  assumes "\<And>r. r \<in> set rs \<Longrightarrow> valid r" "valid s" "distinct rs"
  shows "rd (foldl (\<lambda>h r. wr h r (g (rd h r))) h rs) s = (if s \<in> set rs then g (rd h s) else rd h s)"
  using assms
  by (induction rs arbitrary: h) (auto simp: rd_wr_if)

end

end
