(* ===== verification/Io_Apic.thy ===== *)
theory Io_Apic
  imports Local_Apic Device_Registers Libc_String
begin

text \<open>
  The I/O interrupt controller, \<open>src/src/driver/apic/io_apic.cpp\<close>, and the facade over both
  controllers, \<open>src/src/driver/apic/apic.cpp\<close>.

  The registers of the I/O controller are reached through a selector and a window: a write to
  \<open>kRegSel\<close> chooses the register that the window at \<open>kRegWin\<close> reads and writes.
\<close>

record io_hw =
  io_sel :: u32
  io_regs :: "u32 \<Rightarrow> u32"

record IoApic = base_address :: u64

definition kDefaultIoApicBase :: u64 where "kDefaultIoApicBase = 0xFEC00000"
definition kRegSel :: u64 where "kRegSel = 0x00"
definition kRegWin :: u64 where "kRegWin = 0x10"
definition kRegId :: u32 where "kRegId = 0x00"
definition kRegVer :: u32 where "kRegVer = 0x01"
definition kRedTblBase :: u32 where "kRedTblBase = 0x10"
definition kVectorMask :: u64 where "kVectorMask = 0xFF"
definition kMaskBit :: u64 where "kMaskBit = push_bit 16 1"
definition kDestApicIdShift :: nat where "kDestApicIdShift = 56"
definition kDestApicIdMask :: u64 where "kDestApicIdMask = 0xFF"

definition io_out :: "IoApic \<Rightarrow> u64 \<Rightarrow> u32 \<Rightarrow> io_hw \<Rightarrow> io_hw" where
  "io_out io a v hw =
    (if a = base_address io + kRegSel then hw\<lparr>io_sel := v\<rparr>
     else if a = base_address io + kRegWin then hw\<lparr>io_regs := (io_regs hw)(io_sel hw := v)\<rparr>
     else hw)"

definition io_in :: "IoApic \<Rightarrow> u64 \<Rightarrow> io_hw \<Rightarrow> u32" where
  "io_in io a hw = (if a = base_address io + kRegSel then io_sel hw
     else if a = base_address io + kRegWin then io_regs hw (io_sel hw) else 0)"

subsection \<open>Registers\<close>

definition IoApic_Read :: "IoApic \<Rightarrow> u32 \<Rightarrow> io_hw \<Rightarrow> u32 \<times> io_hw" where
  "IoApic_Read io reg hw =
    (let hw1 = io_out io (base_address io + kRegSel) reg hw in
     (io_in io (base_address io + kRegWin) hw1, hw1))"

definition IoApic_Write :: "IoApic \<Rightarrow> u32 \<Rightarrow> u32 \<Rightarrow> io_hw \<Rightarrow> io_hw" where
  "IoApic_Write io reg value hw =
    (let hw1 = io_out io (base_address io + kRegSel) reg hw in
     io_out io (base_address io + kRegWin) value hw1)"

definition ReadRedirectionEntry :: "IoApic \<Rightarrow> u8 \<Rightarrow> io_hw \<Rightarrow> u64 \<times> io_hw" where
  "ReadRedirectionEntry io irq hw =
    (let low_reg = kRedTblBase + (ucast irq * 2);
         high_reg = low_reg + 1;
         (low, hw1) = IoApic_Read io low_reg hw;
         (high, hw2) = IoApic_Read io high_reg hw1 in
     (push_bit 32 (ucast high) OR ucast low, hw2))"

definition WriteRedirectionEntry :: "IoApic \<Rightarrow> u8 \<Rightarrow> u64 \<Rightarrow> io_hw \<Rightarrow> io_hw" where
  "WriteRedirectionEntry io irq v hw =
    (let low_reg = kRedTblBase + (ucast irq * 2);
         high_reg = low_reg + 1;
         low = ucast (v AND 0xFFFFFFFF);
         high = ucast (drop_bit 32 v AND 0xFFFFFFFF);
         hw1 = IoApic_Write io low_reg low hw in
     IoApic_Write io high_reg high hw1)"

definition IoApic_GetId :: "IoApic \<Rightarrow> io_hw \<Rightarrow> u32 \<times> io_hw" where
  "IoApic_GetId io hw = (let (r, hw1) = IoApic_Read io kRegId hw in (drop_bit 24 r AND 0x0F, hw1))"

definition IoApic_GetVersion :: "IoApic \<Rightarrow> io_hw \<Rightarrow> u32 \<times> io_hw" where
  "IoApic_GetVersion io hw = (let (r, hw1) = IoApic_Read io kRegVer hw in (r AND 0xFF, hw1))"

definition GetMaxRedirectionEntries :: "IoApic \<Rightarrow> io_hw \<Rightarrow> u32 \<times> io_hw" where
  "GetMaxRedirectionEntries io hw =
    (let (r, hw1) = IoApic_Read io kRegVer hw in ((drop_bit 16 r AND 0xFF) + 1, hw1))"

subsection \<open>Operations\<close>

definition IoApic_SetIrqRedirection :: "IoApic \<Rightarrow> u8 \<Rightarrow> u8 \<Rightarrow> u32 \<Rightarrow> bool \<Rightarrow> io_hw \<Rightarrow> io_hw" where
  "IoApic_SetIrqRedirection io irq vector destination_apic_id mask_irq hw =
    (let (max_entries, hw1) = GetMaxRedirectionEntries io hw in
     if ucast irq \<ge> max_entries then hw1
     else let entry = 0;
              entry = entry OR (ucast vector AND kVectorMask);
              entry = (if mask_irq then entry OR kMaskBit else entry);
              entry = entry OR push_bit kDestApicIdShift (ucast destination_apic_id AND kDestApicIdMask) in
          WriteRedirectionEntry io irq entry hw1)"

definition IoApic_MaskIrq :: "IoApic \<Rightarrow> u8 \<Rightarrow> io_hw \<Rightarrow> io_hw" where
  "IoApic_MaskIrq io irq hw =
    (let (max_entries, hw1) = GetMaxRedirectionEntries io hw in
     if ucast irq \<ge> max_entries then hw1
     else let (entry, hw2) = ReadRedirectionEntry io irq hw1;
              entry = entry OR kMaskBit in
          WriteRedirectionEntry io irq entry hw2)"

definition IoApic_UnmaskIrq :: "IoApic \<Rightarrow> u8 \<Rightarrow> io_hw \<Rightarrow> io_hw" where
  "IoApic_UnmaskIrq io irq hw =
    (let (max_entries, hw1) = GetMaxRedirectionEntries io hw in
     if ucast irq \<ge> max_entries then hw1
     else let (entry, hw2) = ReadRedirectionEntry io irq hw1;
              entry = entry AND NOT kMaskBit in
          WriteRedirectionEntry io irq entry hw2)"

text \<open>
  The loop of the constructor reads the number of entries before every round. It makes at most
  256 rounds, the largest number of entries the version register can announce; \<open>n\<close> is what
  remains of that bound.
\<close>

primrec IoApic_mask_all :: "nat \<Rightarrow> u32 \<Rightarrow> IoApic \<Rightarrow> io_hw \<Rightarrow> io_hw" where
  "IoApic_mask_all 0 i io hw = snd (GetMaxRedirectionEntries io hw)"
| "IoApic_mask_all (Suc n) i io hw =
    (let (max_entries, hw1) = GetMaxRedirectionEntries io hw in
     if i < max_entries
     then let (entry, hw2) = ReadRedirectionEntry io (ucast i) hw1;
              entry = entry OR kMaskBit in
          IoApic_mask_all n (i + 1) io (WriteRedirectionEntry io (ucast i) entry hw2)
     else hw1)"

definition new_IoApic :: "io_hw \<Rightarrow> IoApic \<times> io_hw" where
  "new_IoApic hw = (let io = \<lparr>base_address = kDefaultIoApicBase\<rparr> in (io, IoApic_mask_all 256 0 io hw))"

subsection \<open>The redirection table\<close>

definition entries :: "io_hw \<Rightarrow> nat" where
  "entries hw = unat (drop_bit 16 (io_regs hw kRegVer) AND 0xFF) + 1"

definition low_reg :: "u8 \<Rightarrow> u32" where
  "low_reg irq = kRedTblBase + (ucast irq * 2)"

definition redirection :: "io_hw \<Rightarrow> u8 \<Rightarrow> u64" where
  "redirection hw irq = push_bit 32 (ucast (io_regs hw (low_reg irq + 1))) OR ucast (io_regs hw (low_reg irq))"

lemma unat_and_255: "unat (x AND 0xFF) < 256" for x :: u32
proof -
  have "x AND 0xFF = take_bit 8 x" by (simp add: take_bit_eq_mask mask_eq_exp_minus_1)
  then show ?thesis using take_bit_nat_less_exp [of 8 "unat x"] by (simp add: unsigned_take_bit_eq)
qed

lemma entries_bound: "1 \<le> entries hw" "entries hw \<le> 256"
  using unat_and_255 [of "drop_bit 16 (io_regs hw kRegVer)"] by (simp_all add: entries_def)

lemma unat_low_reg: "unat (low_reg irq) = 16 + 2 * unat irq" "unat (low_reg irq + 1) = 17 + 2 * unat irq"
proof -
  have "unat irq < 256" using unsigned_less [of irq] by simp
  then show "unat (low_reg irq) = 16 + 2 * unat irq" "unat (low_reg irq + 1) = 17 + 2 * unat irq"
    by (simp_all add: low_reg_def kRedTblBase_def unat_word_ariths unsigned_ucast_eq take_bit_nat_eq_self)
qed

lemma low_reg_distinct:
  "low_reg i = low_reg j \<longleftrightarrow> i = j" "low_reg i + 1 = low_reg j + 1 \<longleftrightarrow> i = j"
  "low_reg i + 1 \<noteq> low_reg j" "low_reg i \<noteq> kRegVer" "low_reg i + 1 \<noteq> kRegVer"
proof -
  have "i = j" if "unat (low_reg i) = unat (low_reg j)" using that
    by (simp add: unat_low_reg word_unat_eq_iff)
  then show "low_reg i = low_reg j \<longleftrightarrow> i = j" by metis
  then show "low_reg i + 1 = low_reg j + 1 \<longleftrightarrow> i = j" by simp
  have "unat (low_reg i + 1) \<noteq> unat (low_reg j)" unfolding unat_low_reg by presburger
  then show "low_reg i + 1 \<noteq> low_reg j" by metis
  show "low_reg i \<noteq> kRegVer" using unat_low_reg(1) [of i] by (auto simp: kRegVer_def)
  show "low_reg i + 1 \<noteq> kRegVer" using unat_low_reg(2) [of i] by (auto simp: kRegVer_def)
qed

lemma IoApic_Read_result: "IoApic_Read io r hw = (io_regs hw r, hw\<lparr>io_sel := r\<rparr>)"
  by (simp add: IoApic_Read_def io_out_def io_in_def kRegSel_def kRegWin_def Let_def)

lemma IoApic_Write_result: "IoApic_Write io r v hw = hw\<lparr>io_sel := r, io_regs := (io_regs hw)(r := v)\<rparr>"
  by (simp add: IoApic_Write_def io_out_def kRegSel_def kRegWin_def Let_def)

lemma GetMaxRedirectionEntries_result:
  "GetMaxRedirectionEntries io hw = (of_nat (entries hw), hw\<lparr>io_sel := kRegVer\<rparr>)"
  by (simp add: GetMaxRedirectionEntries_def IoApic_Read_result entries_def Let_def)

lemma ReadRedirectionEntry_result:
  "ReadRedirectionEntry io irq hw = (redirection hw irq, hw\<lparr>io_sel := low_reg irq + 1\<rparr>)"
  by (simp add: ReadRedirectionEntry_def IoApic_Read_result redirection_def low_reg_def Let_def)

lemma view_sel [simp]: "redirection (hw\<lparr>io_sel := r\<rparr>) = redirection hw" "entries (hw\<lparr>io_sel := r\<rparr>) = entries hw"
  by (auto simp: redirection_def entries_def fun_eq_iff)

lemma split_word: "push_bit 32 (ucast (ucast (drop_bit 32 v AND 0xFFFFFFFF) :: u32)) OR
    ucast (ucast (v AND 0xFFFFFFFF) :: u32) = (v :: u64)"
proof -
  have m: "(0xFFFFFFFF :: u64) = mask 32" by (simp add: mask_eq_exp_minus_1)
  show ?thesis unfolding m by (rule bit_word_eqI) (auto simp: bit_simps)
qed

lemma WriteRedirectionEntry_result:
  "redirection (WriteRedirectionEntry io irq v hw) = (redirection hw)(irq := v)"
  "entries (WriteRedirectionEntry io irq v hw) = entries hw"
proof -
  have w: "WriteRedirectionEntry io irq v hw = hw\<lparr>io_sel := low_reg irq + 1,
      io_regs := (io_regs hw)(low_reg irq := ucast (v AND 0xFFFFFFFF),
        low_reg irq + 1 := ucast (drop_bit 32 v AND 0xFFFFFFFF))\<rparr>"
    by (simp add: WriteRedirectionEntry_def IoApic_Write_result low_reg_def Let_def)
  show "redirection (WriteRedirectionEntry io irq v hw) = (redirection hw)(irq := v)"
    unfolding w using low_reg_distinct low_reg_distinct(3) [THEN not_sym]
    by (auto simp: redirection_def fun_eq_iff split_word simp del: add_right_cancel)
  show "entries (WriteRedirectionEntry io irq v hw) = entries hw"
    unfolding w using low_reg_distinct(4,5) [of irq] by (simp add: entries_def)
qed

interpretation red: device_registers "\<lambda>_. True" redirection "\<lambda>hw irq v. WriteRedirectionEntry io irq v hw" for io
  by unfold_locales (simp_all add: WriteRedirectionEntry_result)

lemma irq_in_range: "ucast irq \<ge> (of_nat (entries hw) :: u32) \<longleftrightarrow> entries hw \<le> unat irq" for irq :: u8
proof -
  have "unat irq < 256" using unsigned_less [of irq] by simp
  then have "unat (ucast irq :: u32) = unat irq" by (simp add: unsigned_ucast_eq take_bit_nat_eq_self)
  moreover have "unat (of_nat (entries hw) :: u32) = entries hw"
    using entries_bound [of hw] by (simp add: unsigned_of_nat take_bit_nat_eq_self)
  ultimately show ?thesis by (simp add: word_le_nat_alt)
qed

text \<open>What the table entry for a vector, a destination and a mask looks like, bit by bit.\<close>

definition redirection_bits :: "u8 \<Rightarrow> u32 \<Rightarrow> bool \<Rightarrow> u64 \<Rightarrow> bool" where
  "redirection_bits v d m e \<longleftrightarrow> list_all (\<lambda>n. bit e n \<longleftrightarrow>
     (if n < 8 then bit v n else if n = 16 then m else if 56 \<le> n then bit d (n - 56) else False)) [0..<64]"

definition redirection_entry :: "u8 \<Rightarrow> u32 \<Rightarrow> bool \<Rightarrow> u64" where
  "redirection_entry v d m = ((ucast v AND kVectorMask) OR (if m then kMaskBit else 0)) OR
     push_bit kDestApicIdShift (ucast d AND kDestApicIdMask)"

lemma bit_kMaskBit: "bit kMaskBit n \<longleftrightarrow> n = 16"
  unfolding kMaskBit_def by (subst bit_push_bit_iff) (auto simp: bit_1_iff)

lemma redirection_entry_bits: "redirection_bits v d m (redirection_entry v d m)"
proof -
  have m: "kVectorMask = mask 8" "kDestApicIdMask = mask 8"
    by (simp_all add: kVectorMask_def kDestApicIdMask_def mask_eq_exp_minus_1)
  show ?thesis
    unfolding redirection_entry_def m redirection_bits_def
    by (auto simp: list_all_iff bit_kMaskBit kDestApicIdShift_def bit_simps simp del: push_bit_and)
qed

lemma IoApic_SetIrqRedirection_result:
  "redirection (IoApic_SetIrqRedirection io irq v d m hw) =
     (if unat irq < entries hw then (redirection hw)(irq := redirection_entry v d m) else redirection hw)"
  "entries (IoApic_SetIrqRedirection io irq v d m hw) = entries hw"
  by (auto simp: IoApic_SetIrqRedirection_def GetMaxRedirectionEntries_result irq_in_range redirection_entry_def
      WriteRedirectionEntry_result Let_def)

lemma IoApic_MaskIrq_result:
  "redirection (IoApic_MaskIrq io irq hw) =
     (if unat irq < entries hw then (redirection hw)(irq := redirection hw irq OR kMaskBit) else redirection hw)"
  "entries (IoApic_MaskIrq io irq hw) = entries hw"
  by (auto simp: IoApic_MaskIrq_def GetMaxRedirectionEntries_result irq_in_range ReadRedirectionEntry_result
      WriteRedirectionEntry_result Let_def)

lemma IoApic_UnmaskIrq_result:
  "redirection (IoApic_UnmaskIrq io irq hw) =
     (if unat irq < entries hw then (redirection hw)(irq := redirection hw irq AND NOT kMaskBit) else redirection hw)"
  "entries (IoApic_UnmaskIrq io irq hw) = entries hw"
  by (auto simp: IoApic_UnmaskIrq_def GetMaxRedirectionEntries_result irq_in_range ReadRedirectionEntry_result
      WriteRedirectionEntry_result Let_def)

lemma IoApic_mask_all_result:
  assumes "unat i + n \<le> 256"
  shows "redirection (IoApic_mask_all n i io hw) irq =
     (if unat i \<le> unat irq \<and> unat irq < min (entries hw) (unat i + n) then redirection hw irq OR kMaskBit
      else redirection hw irq)"
  using assms
proof (induction n arbitrary: i hw)
  case 0
  then show ?case by (auto simp: GetMaxRedirectionEntries_result)
next
  case (Suc n)
  have u: "unat (i + 1) = Suc (unat i)" using Suc.prems by (simp add: unat_word_ariths)
  have e: "unat (of_nat (entries hw) :: u32) = entries hw"
    using entries_bound [of hw] by (simp add: unsigned_of_nat take_bit_nat_eq_self)
  have c: "unat (ucast i :: u8) = unat i" using Suc.prems by (simp add: unsigned_ucast_eq take_bit_nat_eq_self)
  then have i: "irq = ucast i \<longleftrightarrow> unat irq = unat i" by (metis word_unat_eq_iff)
  have "unat (i + 1) + n \<le> 256" using Suc.prems u by simp
  from Suc.IH [OF this] show ?case
    using i by (auto simp: GetMaxRedirectionEntries_result ReadRedirectionEntry_result WriteRedirectionEntry_result
        word_less_nat_alt e u c Let_def)
qed

text \<open>
  C39: the operations of the I/O controller are updates of its redirection table. Programming an
  interrupt sets exactly the vector, mask and destination of its entry, masking and unmasking
  change bit 16 of one entry, the constructor masks every entry, an interrupt beyond the
  number of entries changes nothing, and no operation touches another entry.
\<close>

theorem IoApic_refines_table:
  "redirection_bits v d m (redirection_entry v d m) \<and>
   redirection (IoApic_SetIrqRedirection io irq v d m hw) =
     (if unat irq < entries hw then (redirection hw)(irq := redirection_entry v d m) else redirection hw) \<and>
   redirection (IoApic_MaskIrq io irq hw) =
     (if unat irq < entries hw then (redirection hw)(irq := redirection hw irq OR push_bit 16 1) else redirection hw) \<and>
   redirection (IoApic_UnmaskIrq io irq hw) =
     (if unat irq < entries hw then (redirection hw)(irq := redirection hw irq AND NOT (push_bit 16 1))
      else redirection hw) \<and>
   redirection (snd (new_IoApic hw)) =
     (\<lambda>i. if unat i < entries hw then redirection hw i OR push_bit 16 1 else redirection hw i)"
  using redirection_entry_bits IoApic_mask_all_result [of 0 256 _ hw] entries_bound [of hw]
  by (simp add: IoApic_SetIrqRedirection_result IoApic_MaskIrq_result IoApic_UnmaskIrq_result new_IoApic_def Let_def
      kMaskBit_def fun_eq_iff)

lemma mask_unmask:
  assumes "unat irq < entries hw"
  shows "redirection (IoApic_UnmaskIrq io irq (IoApic_MaskIrq io irq hw)) s =
    (if s = irq then redirection hw irq AND NOT kMaskBit else redirection hw s)"
  using red.set_then_clear [where r = irq and s = s and h = hw and b = kMaskBit, OF TrueI TrueI refl refl] assms
  by (simp add: IoApic_UnmaskIrq_result IoApic_MaskIrq_result WriteRedirectionEntry_result fun_upd_def)

end
