(* ===== verification/Apic.thy ===== *)
theory Apic
  imports Io_Apic
begin

text \<open>
  The facade over the local and the I/O interrupt controller, \<open>src/src/driver/apic/apic.cpp\<close>:
  range checks in front of the redirection table, the start of the other processors with the
  copy of their start-up code, and the 8259 controller that the constructor silences
  (\<open>src/3rd/cpu_io/include/x86_64/pic.hpp\<close>).
\<close>

record Apic =
  local_apic :: LocalApic
  io_apic :: IoApic
  cpu_count :: size_t

record machine =
  m_lapic :: apic_hw
  m_io :: io_hw
  m_mem :: mem
  m_ports :: "u8 \<Rightarrow> u8"

definition kMasterDataPort :: u8 where "kMasterDataPort = 0x20 + 1"
definition kPic2DataPort :: u8 where "kPic2DataPort = 0xA0 + 1"

definition Pic_Disable :: "machine \<Rightarrow> machine" where
  "Pic_Disable mc = mc\<lparr>m_ports := (m_ports mc)(kMasterDataPort := 0xFF, kPic2DataPort := 0xFF)\<rparr>"

definition new_Apic :: "size_t \<Rightarrow> machine \<Rightarrow> Apic \<times> machine" where
  "new_Apic n mc =
    (let (io, iohw) = new_IoApic (m_io mc) in
     (\<lparr>local_apic = new_LocalApic, io_apic = io, cpu_count = n\<rparr>, Pic_Disable (mc\<lparr>m_io := iohw\<rparr>)))"

definition InitCurrentCpuLocalApic :: "Apic \<Rightarrow> machine \<Rightarrow> unit Expected \<times> Apic \<times> machine" where
  "InitCurrentCpuLocalApic ap mc =
    (case LocalApic_Init (local_apic ap) (m_lapic mc) of
       (r, la, hw) \<Rightarrow> (r, ap\<lparr>local_apic := la\<rparr>, mc\<lparr>m_lapic := hw\<rparr>))"

definition Apic_SetIrqRedirection :: "u8 \<Rightarrow> u8 \<Rightarrow> u32 \<Rightarrow> bool \<Rightarrow> Apic \<Rightarrow> machine \<Rightarrow> unit Expected \<times> machine" where
  "Apic_SetIrqRedirection irq vector destination_apic_id mask_irq ap mc =
    (let (max_entries, hw1) = GetMaxRedirectionEntries (io_apic ap) (m_io mc) in
     if ucast irq \<ge> max_entries
     then (Inl kApicInvalidIrq, mc\<lparr>m_io := snd (GetMaxRedirectionEntries (io_apic ap) hw1)\<rparr>)
     else (Inr (), mc\<lparr>m_io := IoApic_SetIrqRedirection (io_apic ap) irq vector destination_apic_id mask_irq hw1\<rparr>))"

definition Apic_MaskIrq :: "u8 \<Rightarrow> Apic \<Rightarrow> machine \<Rightarrow> unit Expected \<times> machine" where
  "Apic_MaskIrq irq ap mc =
    (let (max_entries, hw1) = GetMaxRedirectionEntries (io_apic ap) (m_io mc) in
     if ucast irq \<ge> max_entries
     then (Inl kApicInvalidIrq, mc\<lparr>m_io := snd (GetMaxRedirectionEntries (io_apic ap) hw1)\<rparr>)
     else (Inr (), mc\<lparr>m_io := IoApic_MaskIrq (io_apic ap) irq hw1\<rparr>))"

definition Apic_UnmaskIrq :: "u8 \<Rightarrow> Apic \<Rightarrow> machine \<Rightarrow> unit Expected \<times> machine" where
  "Apic_UnmaskIrq irq ap mc =
    (let (max_entries, hw1) = GetMaxRedirectionEntries (io_apic ap) (m_io mc) in
     if ucast irq \<ge> max_entries
     then (Inl kApicInvalidIrq, mc\<lparr>m_io := snd (GetMaxRedirectionEntries (io_apic ap) hw1)\<rparr>)
     else (Inr (), mc\<lparr>m_io := IoApic_UnmaskIrq (io_apic ap) irq hw1\<rparr>))"

definition Apic_SendIpi :: "u32 \<Rightarrow> u8 \<Rightarrow> Apic \<Rightarrow> machine \<Rightarrow> (unit Expected \<times> machine) outcome" where
  "Apic_SendIpi target_apic_id vector ap mc =
    obind (LocalApic_SendIpi target_apic_id vector (local_apic ap) (m_lapic mc)) (\<lambda>(r, hw).
    Done (r, mc\<lparr>m_lapic := hw\<rparr>))"

definition Apic_BroadcastIpi :: "u8 \<Rightarrow> Apic \<Rightarrow> machine \<Rightarrow> (unit Expected \<times> machine) outcome" where
  "Apic_BroadcastIpi vector ap mc =
    obind (LocalApic_BroadcastIpi vector (local_apic ap) (m_lapic mc)) (\<lambda>(r, hw).
    Done (r, mc\<lparr>m_lapic := hw\<rparr>))"

definition StartupAp :: "u32 \<Rightarrow> u64 \<Rightarrow> size_t \<Rightarrow> u64 \<Rightarrow> Apic \<Rightarrow> machine \<Rightarrow> (unit Expected \<times> machine) outcome" where
  "StartupAp apic_id ap_code_addr ap_code_size target_addr ap mc =
    nk_assert_msg (ap_code_addr \<noteq> 0 \<and> ap_code_size \<noteq> 0) ''Invalid AP code parameters'' (
    nk_assert_msg (target_addr AND 0xFFF = 0) ''Target address is not aligned to 4KB boundary'' (
    nk_assert_msg (target_addr < 0x100000) ''Target address exceeds real mode limit (1MB)'' (
    let mc1 = mc\<lparr>m_mem := snd (memcpy target_addr ap_code_addr ap_code_size (m_mem mc))\<rparr> in
    if memcmp target_addr ap_code_addr ap_code_size (m_mem mc1) \<noteq> 0
    then Done (Inl kApicCodeCopyFailed, mc1)
    else let start_vector = (ucast (drop_bit 12 target_addr) :: u8) in
         obind (WakeupAp apic_id start_vector (local_apic ap) (m_lapic mc1)) (\<lambda>hw.
         Done (Inr (), mc1\<lparr>m_lapic := hw\<rparr>)))))"

text \<open>The loop over the processors; \<open>current\<close> is \<open>cpu_io::GetCurrentCoreId()\<close>.\<close>

primrec StartupAllAps_loop :: "nat list \<Rightarrow> u32 \<Rightarrow> u64 \<Rightarrow> size_t \<Rightarrow> u64 \<Rightarrow> Apic \<Rightarrow> machine \<Rightarrow> machine outcome" where
  "StartupAllAps_loop [] current ap_code_addr ap_code_size target_addr ap mc = Done mc"
| "StartupAllAps_loop (apic_id # ids) current ap_code_addr ap_code_size target_addr ap mc =
    (if (of_nat apic_id :: u32) = current
     then StartupAllAps_loop ids current ap_code_addr ap_code_size target_addr ap mc
     else obind (StartupAp (of_nat apic_id) ap_code_addr ap_code_size target_addr ap mc) (\<lambda>(r, mc1).
          StartupAllAps_loop ids current ap_code_addr ap_code_size target_addr ap mc1))"

definition StartupAllAps :: "u32 \<Rightarrow> u64 \<Rightarrow> size_t \<Rightarrow> u64 \<Rightarrow> Apic \<Rightarrow> machine \<Rightarrow> machine outcome" where
  "StartupAllAps current ap_code_addr ap_code_size target_addr ap mc =
    nk_assert_msg (ap_code_addr \<noteq> 0 \<and> ap_code_size \<noteq> 0) ''Invalid AP code parameters''
      (StartupAllAps_loop [0..<unat (cpu_count ap)] current ap_code_addr ap_code_size target_addr ap mc)"

definition Apic_SendEoi :: "Apic \<Rightarrow> machine \<Rightarrow> machine" where
  "Apic_SendEoi ap mc = mc\<lparr>m_lapic := LocalApic_SendEoi (local_apic ap) (m_lapic mc)\<rparr>"

definition Apic_SetupPeriodicTimer :: "u32 \<Rightarrow> u8 \<Rightarrow> Apic \<Rightarrow> machine \<Rightarrow> machine outcome" where
  "Apic_SetupPeriodicTimer frequency_hz vector ap mc =
    obind (SetupPeriodicTimer frequency_hz vector (local_apic ap) (m_lapic mc)) (\<lambda>hw.
    Done (mc\<lparr>m_lapic := hw\<rparr>))"

subsection \<open>Starting the other processors\<close>

lemma compare_bytes_equal:
  "\<forall>i<n. m (at p i) = m (at q i) \<Longrightarrow> compare_bytes n p q m = 0"
proof (induction n arbitrary: p q)
  case (Suc n)
  have "m (at (p + 1) i) = m (at (q + 1) i)" if "i < n" for i
    using Suc.prems [rule_format, of "Suc i"] that by (simp add: at_Suc)
  moreover have "m p = m q" using Suc.prems [rule_format, of 0] by simp
  ultimately show ?case using Suc.IH by simp
qed simp

text \<open>The memory \<open>m'\<close> is \<open>m\<close> with \<open>n\<close> bytes at \<open>s\<close> copied to \<open>d\<close>.\<close>

definition copied :: "u64 \<Rightarrow> u64 \<Rightarrow> nat \<Rightarrow> mem \<Rightarrow> mem \<Rightarrow> bool" where
  "copied d s n m m' \<longleftrightarrow> (\<forall>i<n. m' (at d i) = m (at s i)) \<and> (\<forall>x. (\<forall>i<n. x \<noteq> at d i) \<longrightarrow> m' x = m x)"

definition apart :: "u64 \<Rightarrow> u64 \<Rightarrow> nat \<Rightarrow> bool" where
  "apart d s n \<longleftrightarrow> unat d + n < 2 ^ 64 \<and> unat s + n < 2 ^ 64 \<and> (unat d + n \<le> unat s \<or> unat s + n \<le> unat d)"

lemma apart_at: "apart d s n \<Longrightarrow> i < n \<Longrightarrow> j < n \<Longrightarrow> at d i \<noteq> at s j"
  using at_less [of d i s j] by (auto simp: apart_def)

lemma copied_source: "apart d s n \<Longrightarrow> copied d s n m m' \<Longrightarrow> j < n \<Longrightarrow> m' (at s j) = m (at s j)"
  unfolding copied_def by (metis apart_at)

lemma copied_again: "apart d s n \<Longrightarrow> copied d s n m m1 \<Longrightarrow> copied d s n m1 m2 \<Longrightarrow> copied d s n m m2"
  using copied_source [of d s n m m1] by (auto simp: copied_def)

lemma memcpy_copied:
  assumes "apart d s (unat n)"
  shows "copied d s (unat n) m (snd (memcpy d s n m))"
proof -
  have "unat n \<le> 2 ^ 64" using assms by (simp add: apart_def)
  with assms show ?thesis
    using copy_up_spec [of "unat n" d s m] apart_at [OF assms] by (auto simp: copied_def memcpy_def)
qed

lemma StartupAp_starts:
  assumes "ap_code \<noteq> 0" "n \<noteq> 0" "target AND 0xFFF = 0" "target < 0x100000" "apart target ap_code (unat n)"
    "hw_busy (m_lapic mc) = Some k"
  obtains mc' where "StartupAp d ap_code n target ap mc = Done (Inr (), mc')"
    "copied target ap_code (unat n) (m_mem mc) (m_mem mc')" "hw_busy (m_lapic mc') = Some k"
    "hw_icr (m_lapic mc') = hw_icr (m_lapic mc) @ wakeup_commands (local_apic ap) d (ucast (drop_bit 12 target))"
proof -
  define m' where "m' = snd (memcpy target ap_code n (m_mem mc))"
  have c: "copied target ap_code (unat n) (m_mem mc) m'"
    unfolding m'_def by (rule memcpy_copied [OF assms(5)])
  then have "memcmp target ap_code n m' = 0"
    using copied_source [OF assms(5) c] unfolding memcmp_def by (intro compare_bytes_equal) (simp add: copied_def)
  moreover obtain hw' where w: "WakeupAp d (ucast (drop_bit 12 target)) (local_apic ap) (m_lapic mc) = Done hw'"
      "hw_busy hw' = Some k"
      "hw_icr hw' = hw_icr (m_lapic mc) @ wakeup_commands (local_apic ap) d (ucast (drop_bit 12 target))"
    by (rule WakeupAp_commands [OF assms(6)])
  ultimately have "StartupAp d ap_code n target ap mc = Done (Inr (), mc\<lparr>m_mem := m', m_lapic := hw'\<rparr>)"
    using assms(1-4) by (simp add: StartupAp_def nk_assert_msg_def m'_def [symmetric] Let_def)
  then show thesis by (rule that) (use c w in simp_all)
qed

lemma StartupAllAps_loop_starts:
  assumes "ap_code \<noteq> 0" "n \<noteq> 0" "target AND 0xFFF = 0" "target < 0x100000" "apart target ap_code (unat n)"
    "hw_busy (m_lapic mc) = Some k"
  shows "\<exists>mc'. StartupAllAps_loop ids current ap_code n target ap mc = Done mc' \<and>
    (if filter (\<lambda>i. (of_nat i :: u32) \<noteq> current) ids = [] then m_mem mc' = m_mem mc
     else copied target ap_code (unat n) (m_mem mc) (m_mem mc')) \<and>
    hw_icr (m_lapic mc') = hw_icr (m_lapic mc) @ concat (map (\<lambda>i.
      wakeup_commands (local_apic ap) (of_nat i) (ucast (drop_bit 12 target)))
        (filter (\<lambda>i. (of_nat i :: u32) \<noteq> current) ids))"
  using assms(6)
proof (induction ids arbitrary: mc)
  case (Cons i ids)
  show ?case
  proof (cases "(of_nat i :: u32) = current")
    case True
    then show ?thesis using Cons by simp
  next
    case False
    obtain mc1 where 1: "StartupAp (of_nat i) ap_code n target ap mc = Done (Inr (), mc1)"
      "copied target ap_code (unat n) (m_mem mc) (m_mem mc1)" "hw_busy (m_lapic mc1) = Some k"
      "hw_icr (m_lapic mc1) = hw_icr (m_lapic mc) @
         wakeup_commands (local_apic ap) (of_nat i) (ucast (drop_bit 12 target))"
      by (rule StartupAp_starts [OF assms(1-5) Cons.prems])
    from Cons.IH [OF 1(3)] show ?thesis
      using False 1 copied_again [OF assms(5) 1(2)] by (auto split: if_splits)
  qed
qed simp

text \<open>
  C38: starting the other processors. If the start-up code does not overlap its target, the
  target is a page below one megabyte and the hardware delivers every command, then
  \<open>StartupAllAps\<close> returns, the code stands at the target, no other byte of memory has changed,
  and each processor except the running one has been sent INIT and twice the start-up command
  with the number of the target page. In x2APIC mode the destination of all of them is 0.
\<close>

theorem StartupAllAps_correct:
  assumes "ap_code \<noteq> 0" "n \<noteq> 0" "target AND 0xFFF = 0" "target < 0x100000" "apart target ap_code (unat n)"
    "hw_busy (m_lapic mc) = Some k"
  shows "\<exists>mc'. StartupAllAps current ap_code n target ap mc = Done mc' \<and>
    (if filter (\<lambda>i. (of_nat i :: u32) \<noteq> current) [0..<unat (cpu_count ap)] = [] then m_mem mc' = m_mem mc
     else copied target ap_code (unat n) (m_mem mc) (m_mem mc')) \<and>
    hw_icr (m_lapic mc') = hw_icr (m_lapic mc) @ concat (map (\<lambda>i.
      wakeup_commands (local_apic ap) (of_nat i) (ucast (drop_bit 12 target)))
        (filter (\<lambda>i. (of_nat i :: u32) \<noteq> current) [0..<unat (cpu_count ap)]))"
  using StartupAllAps_loop_starts [OF assms, of "[0..<unat (cpu_count ap)]" current ap] assms(1,2)
  by (simp add: StartupAllAps_def nk_assert_msg_def)

definition demo_apic :: Apic where
  "demo_apic = \<lparr>local_apic = \<lparr>is_x2apic_mode = True, apic_base = kDefaultApicBase\<rparr>,
     io_apic = \<lparr>base_address = kDefaultIoApicBase\<rparr>, cpu_count = 2\<rparr>"

definition demo_machine :: machine where
  "demo_machine = \<lparr>m_lapic = \<lparr>hw_msr = (\<lambda>_. 0), hw_mmio = (\<lambda>_. 0), hw_has_x2apic = True, hw_busy = Some 3, hw_icr = []\<rparr>,
     m_io = \<lparr>io_sel = 0, io_regs = (\<lambda>_. 0)\<rparr>, m_mem = (\<lambda>_. 7), m_ports = (\<lambda>_. 0)\<rparr>"

lemma demo_fits:
  "(0x200000 :: u64) \<noteq> 0" "(16 :: u64) \<noteq> 0" "(0x8000 :: u64) AND 0xFFF = 0" "(0x8000 :: u64) < 0x100000"
  "apart 0x8000 0x200000 (unat (16 :: u64))" "hw_busy (m_lapic demo_machine) = Some 3"
  by (simp_all add: apart_def demo_machine_def)

theorem StartupAllAps_correct_witness:
  "\<exists>mc'. StartupAllAps 0 0x200000 16 0x8000 demo_apic demo_machine = Done mc' \<and>
    hw_icr (m_lapic mc') = [0x500, 0x608, 0x608]"
proof -
  have "[0..<unat (cpu_count demo_apic)] = [0, 1]" by (simp add: demo_apic_def upt_rec)
  then show ?thesis
    using StartupAllAps_correct [OF demo_fits, of 0 demo_apic]
    by (auto simp: demo_apic_def demo_machine_def wakeup_commands_def icr_for_def apic_consts)
qed

end
