(* ===== verification/Plic.thy ===== *)
theory Plic
  imports Device_Registers Libc_String
begin

text \<open>
  The interrupt controller of the RISC-V port, \<open>src/src/driver/plic/plic.cpp\<close>: priorities,
  enable bits for each context, claims, and the table of handlers. The registers are 32-bit
  words at the addresses the driver computes.
\<close>

type_synonym plic_regs = "u64 \<Rightarrow> u32"

record Plic =
  base_addr :: u64
  ndev :: size_t
  context_count :: size_t

definition kSourcePriorityOffset :: u64 where "kSourcePriorityOffset = 0x000000"
definition kPendingBitsOffset :: u64 where "kPendingBitsOffset = 0x001000"
definition kEnableBitsOffset :: u64 where "kEnableBitsOffset = 0x002000"
definition kContextOffset :: u64 where "kContextOffset = 0x200000"
definition kContextSize :: u64 where "kContextSize = 0x1000"
definition kPriorityThresholdOffset :: u64 where "kPriorityThresholdOffset = 0x0"
definition kClaimCompleteOffset :: u64 where "kClaimCompleteOffset = 0x4"
definition kEnableSize :: u64 where "kEnableSize = 0x80"
definition kInterruptMaxCount :: nat where "kInterruptMaxCount = 16"

definition GetContextId :: "u32 \<Rightarrow> u32 \<Rightarrow> u32" where
  "GetContextId hart_id mode = hart_id * 2 + mode"

subsection \<open>Registers\<close>

definition SourcePriority :: "Plic \<Rightarrow> u32 \<Rightarrow> u64" where
  "SourcePriority p source_id = base_addr p + kSourcePriorityOffset + (ucast source_id * 4)"

definition PriorityThreshold :: "Plic \<Rightarrow> u32 \<Rightarrow> u64" where
  "PriorityThreshold p context_id =
     base_addr p + kContextOffset + (ucast context_id * kContextSize) + kPriorityThresholdOffset"

definition ClaimComplete :: "Plic \<Rightarrow> u32 \<Rightarrow> u64" where
  "ClaimComplete p context_id =
     base_addr p + kContextOffset + (ucast context_id * kContextSize) + kClaimCompleteOffset"

definition enable_word :: "Plic \<Rightarrow> u32 \<Rightarrow> u32 \<Rightarrow> u64" where
  "enable_word p context_id word_index =
     base_addr p + kEnableBitsOffset + (ucast context_id * kEnableSize) + ucast (word_index * 4)"

definition pending_word :: "Plic \<Rightarrow> u32 \<Rightarrow> u64" where
  "pending_word p word_index = base_addr p + kPendingBitsOffset + ucast (word_index * 4)"

definition GetEnableBit :: "Plic \<Rightarrow> u32 \<Rightarrow> u32 \<Rightarrow> plic_regs \<Rightarrow> bool" where
  "GetEnableBit p context_id source_id regs =
    (let word_index = source_id div 32; bit_index = source_id mod 32;
         word_addr = enable_word p context_id word_index in
     drop_bit (unat bit_index) (regs word_addr) AND 1 \<noteq> 0)"

definition SetEnableBit :: "Plic \<Rightarrow> u32 \<Rightarrow> u32 \<Rightarrow> bool \<Rightarrow> plic_regs \<Rightarrow> plic_regs" where
  "SetEnableBit p context_id source_id v regs =
    (let word_index = source_id div 32; bit_index = source_id mod 32;
         word_addr = enable_word p context_id word_index in
     if v then regs(word_addr := regs word_addr OR push_bit (unat bit_index) 1)
     else regs(word_addr := regs word_addr AND NOT (push_bit (unat bit_index) 1)))"

definition GetPendingBit :: "Plic \<Rightarrow> u32 \<Rightarrow> plic_regs \<Rightarrow> bool" where
  "GetPendingBit p source_id regs =
    (let word_index = source_id div 32; bit_index = source_id mod 32;
         word_addr = pending_word p word_index in
     drop_bit (unat bit_index) (regs word_addr) AND 1 \<noteq> 0)"

definition SetPendingBit :: "Plic \<Rightarrow> u32 \<Rightarrow> bool \<Rightarrow> plic_regs \<Rightarrow> plic_regs" where
  "SetPendingBit p source_id v regs =
    (let word_index = source_id div 32; bit_index = source_id mod 32;
         word_addr = pending_word p word_index in
     if v then regs(word_addr := regs word_addr OR push_bit (unat bit_index) 1)
     else regs(word_addr := regs word_addr AND NOT (push_bit (unat bit_index) 1)))"

subsection \<open>Operations\<close>

text \<open>
  The loops of the constructor run over \<open>source_id <= ndev_\<close> with a 64-bit counter, so they
  do not end for the largest value of \<open>ndev_\<close>.
\<close>

definition disable_context :: "Plic \<Rightarrow> plic_regs \<Rightarrow> nat \<Rightarrow> plic_regs" where
  "disable_context p regs context_id =
     foldl (\<lambda>r source_id. SetEnableBit p (of_nat context_id) (of_nat source_id) False r)
       (regs(PriorityThreshold p (of_nat context_id) := 0)) [0..<Suc (unat (ndev p))]"

definition new_Plic :: "u64 \<Rightarrow> size_t \<Rightarrow> size_t \<Rightarrow> plic_regs \<Rightarrow> (Plic \<times> plic_regs) outcome" where
  "new_Plic dev_addr n contexts regs =
    (let p = \<lparr>base_addr = dev_addr, ndev = n, context_count = contexts\<rparr> in
     if n = - 1 then Fault LoopForever
     else let regs1 = foldl (\<lambda>r source_id. r(SourcePriority p (of_nat source_id) := 0)) regs [0..<Suc (unat n)];
              regs2 = foldl (disable_context p) regs1 [0..<unat contexts] in
          Done (p, regs2))"

text \<open>
  Reading the claim register takes the pending interrupt of highest priority: \<open>claim\<close> is the
  hardware's answer to a read of that address.
\<close>

definition Which :: "(u64 \<Rightarrow> plic_regs \<Rightarrow> u32 \<times> plic_regs) \<Rightarrow> u32 \<Rightarrow> Plic \<Rightarrow> plic_regs \<Rightarrow> u32 \<times> plic_regs" where
  "Which claim core p regs = (let context_id = GetContextId core 1 in claim (ClaimComplete p context_id) regs)"

definition Plic_Done :: "u32 \<Rightarrow> u32 \<Rightarrow> Plic \<Rightarrow> plic_regs \<Rightarrow> plic_regs" where
  "Plic_Done core source_id p regs =
    (let context_id = GetContextId core 1 in regs(ClaimComplete p context_id := source_id))"

definition Plic_Set :: "Plic \<Rightarrow> u32 \<Rightarrow> u32 \<Rightarrow> u32 \<Rightarrow> bool \<Rightarrow> plic_regs \<Rightarrow> plic_regs" where
  "Plic_Set p hart_id source_id priority enable regs =
    (let regs1 = regs(SourcePriority p source_id := priority);
         context_id = GetContextId hart_id 1 in
     SetEnableBit p context_id source_id enable regs1)"

definition Plic_Get :: "Plic \<Rightarrow> u32 \<Rightarrow> u32 \<Rightarrow> plic_regs \<Rightarrow> u32 \<times> bool \<times> bool" where
  "Plic_Get p hart_id source_id regs =
    (let priority = regs (SourcePriority p source_id);
         context_id = GetContextId hart_id 1;
         enabled = GetEnableBit p context_id source_id regs;
         pending = GetPendingBit p source_id regs in
     (priority, enabled, pending))"

text \<open>
  The table of handlers is an array of \<open>kInterruptMaxCount\<close> function pointers, null at the
  start. Neither function checks its index.
\<close>

type_synonym 'c handlers = "(u64 \<Rightarrow> 'c \<Rightarrow> 'c) option list"

definition plic_handlers :: "'c handlers" where
  "plic_handlers = replicate kInterruptMaxCount None"

definition Plic_RegisterInterruptFunc :: "u8 \<Rightarrow> (u64 \<Rightarrow> 'c \<Rightarrow> 'c) \<Rightarrow> 'c handlers \<Rightarrow> 'c handlers outcome" where
  "Plic_RegisterInterruptFunc cause func hs =
    (if unat cause < length hs then Done (hs[unat cause := Some func]) else Fault OutOfBounds)"

definition Plic_Do :: "u64 \<Rightarrow> 'c \<Rightarrow> 'c handlers \<Rightarrow> 'c outcome" where
  "Plic_Do cause ctx hs =
    (if unat cause < length hs
     then case hs ! unat cause of None \<Rightarrow> Fault NullDeref | Some f \<Rightarrow> Done (f cause ctx)
     else Fault OutOfBounds)"

subsection \<open>The registers do not overlap\<close>

definition plic_range :: "u32 \<Rightarrow> u32 \<Rightarrow> bool" where
  "plic_range hart_id source_id \<longleftrightarrow> hart_id < 7936 \<and> source_id < 1024"

lemma unat_ucast_u32: "unat (ucast x :: u64) = unat x" for x :: u32
proof -
  have "unat x < 2 ^ 32" using unsigned_less [of x, where 'a = nat] by simp
  then show ?thesis by (simp add: unsigned_ucast_eq take_bit_nat_eq_self)
qed

lemma of_nat_unat_u32: "ucast x = (of_nat (unat x) :: u64)" for x :: u32
  by simp

lemma source_parts:
  fixes s :: u32
  assumes "s < 1024"
  shows "unat (s div 32) = unat s div 32" "unat (s mod 32) = unat s mod 32" "unat (s div 32 * 4) = 4 * (unat s div 32)"
    "unat s < 1024"
proof -
  show b: "unat s < 1024" using assms by (simp add: word_less_nat_alt)
  show d: "unat (s div 32) = unat s div 32" by (simp add: unat_div)
  show "unat (s mod 32) = unat s mod 32" by (simp add: unat_mod)
  have "unat s div 32 < 32" using b by auto
  then show "unat (s div 32 * 4) = 4 * (unat s div 32)" by (simp add: unat_word_ariths d)
qed

lemma context_id:
  assumes "h < 7936"
  shows "unat (GetContextId h 1) = 2 * unat h + 1" "unat h < 7936"
proof -
  show b: "unat h < 7936" using assms by (simp add: word_less_nat_alt)
  then show "unat (GetContextId h 1) = 2 * unat h + 1" by (simp add: GetContextId_def unat_word_ariths)
qed

lemma SourcePriority_at: "SourcePriority p s = at (base_addr p) (4 * unat s)"
  by (simp add: SourcePriority_def at_def kSourcePriorityOffset_def)

lemma enable_word_at:
  assumes "plic_range h s"
  shows "enable_word p (GetContextId h 1) (s div 32) = at (base_addr p) (0x2000 + 0x80 * (2 * unat h + 1) + 4 * (unat s div 32))"
proof -
  have "ucast (GetContextId h 1) = (of_nat (2 * unat h + 1) :: u64)" "ucast (s div 32 * 4) = (of_nat (4 * (unat s div 32)) :: u64)"
    using context_id [of h] source_parts [of s] assms unfolding of_nat_unat_u32 plic_range_def by simp_all
  then show ?thesis
    by (simp add: enable_word_def at_def kEnableBitsOffset_def kEnableSize_def)
qed

lemma pending_word_at:
  assumes "s < 1024"
  shows "pending_word p (s div 32) = at (base_addr p) (0x1000 + 4 * (unat s div 32))"
proof -
  have "ucast (s div 32 * 4) = (of_nat (4 * (unat s div 32)) :: u64)"
    unfolding of_nat_unat_u32 source_parts(3) [OF assms] ..
  then show ?thesis by (simp add: pending_word_def at_def kPendingBitsOffset_def)
qed

lemma enable_offsets:
  "a < 32 \<Longrightarrow> b < 32 \<Longrightarrow> 256 * m + 4 * a = 256 * n + 4 * b \<longleftrightarrow> m = n \<and> a = b" for a b m n :: nat
proof -
  assume "a < 32" "b < 32"
  then have "(256 * m + 4 * a) div 256 = m" "(256 * n + 4 * b) div 256 = n" by simp_all
  then have "m = n" if "256 * m + 4 * a = 256 * n + 4 * b" using that by metis
  then show ?thesis by auto
qed

lemma plic_distinct:
  assumes "plic_range h s" "plic_range h' s'"
  shows "enable_word p (GetContextId h 1) (s div 32) = enable_word p (GetContextId h' 1) (s' div 32) \<longleftrightarrow>
      h = h' \<and> unat s div 32 = unat s' div 32"
    "SourcePriority p s \<noteq> enable_word p (GetContextId h' 1) (s' div 32)"
    "SourcePriority p s = SourcePriority p s' \<longleftrightarrow> s = s'"
    "pending_word p (s div 32) \<noteq> SourcePriority p s'"
    "pending_word p (s div 32) \<noteq> enable_word p (GetContextId h' 1) (s' div 32)"
proof -
  have b: "unat s < 1024" "unat s' < 1024" "unat h < 7936" "unat h' < 7936" "s < 1024" "s' < 1024"
    using assms by (simp_all add: plic_range_def source_parts(4) context_id(2))
  then have d: "unat s div 32 < 32" "unat s' div 32 < 32" by auto
  have h: "h = h' \<longleftrightarrow> unat h = unat h'" "s = s' \<longleftrightarrow> unat s = unat s'" by (simp_all add: word_unat_eq_iff)
  show "enable_word p (GetContextId h 1) (s div 32) = enable_word p (GetContextId h' 1) (s' div 32) \<longleftrightarrow>
      h = h' \<and> unat s div 32 = unat s' div 32"
    unfolding enable_word_at [OF assms(1)] enable_word_at [OF assms(2)] h
    using b d enable_offsets [OF d] by (subst at_inj) simp_all
  show "SourcePriority p s \<noteq> enable_word p (GetContextId h' 1) (s' div 32)"
    unfolding enable_word_at [OF assms(2)] SourcePriority_at using b d by (subst at_inj) auto
  show "SourcePriority p s = SourcePriority p s' \<longleftrightarrow> s = s'"
    unfolding SourcePriority_at h using b by (subst at_inj) auto
  show "pending_word p (s div 32) \<noteq> SourcePriority p s'"
    unfolding pending_word_at [OF b(5)] SourcePriority_at using b d by (subst at_inj) auto
  show "pending_word p (s div 32) \<noteq> enable_word p (GetContextId h' 1) (s' div 32)"
    unfolding pending_word_at [OF b(5)] enable_word_at [OF assms(2)] using b d by (subst at_inj) auto
qed

lemma test_bit: "drop_bit n w AND 1 \<noteq> 0 \<longleftrightarrow> bit w n" for w :: u32
  by (simp add: bit_iff_odd_drop_bit and_one_eq mod2_eq_if)


lemma SetEnableBit_bit:
  assumes "plic_range h s" "plic_range h' s'"
  shows "GetEnableBit p (GetContextId h' 1) s' (SetEnableBit p (GetContextId h 1) s v regs) =
    (if h' = h \<and> s' = s then v else GetEnableBit p (GetContextId h' 1) s' regs)"
proof -
  have b: "s < 1024" "s' < 1024" using assms by (simp_all add: plic_range_def)
  have n: "s' = s \<longleftrightarrow> unat s' div 32 = unat s div 32 \<and> unat s' mod 32 = unat s mod 32"
    by (metis div_mult_mod_eq word_unat_eq_iff)
  have m: "unat s' mod 32 < 32" "unat s mod 32 < 32" by simp_all
  have bits: "bit (push_bit k 1 :: u32) j \<longleftrightarrow> j = k" if "k < 32" for k j
    using that by (auto simp: bit_exp_iff)
  show ?thesis
    unfolding GetEnableBit_def SetEnableBit_def Let_def test_bit source_parts(2) [OF b(1)] source_parts(2) [OF b(2)]
    using plic_distinct(1) [OF assms(2) assms(1), of p] n m
    by (auto simp: bit_or_iff bit_and_iff bit_not_iff bits simp del: push_bit_of_1)
qed

lemma SetEnableBit_other:
  assumes "x \<noteq> enable_word p c (s div 32)"
  shows "SetEnableBit p c s v regs x = regs x"
  using assms by (simp add: SetEnableBit_def Let_def)


definition demo_plic :: Plic where
  "demo_plic = \<lparr>base_addr = 0xC000000, ndev = 95, context_count = 4\<rparr>"


text \<open>Registering and running handlers; indices beyond the table are not caught.\<close>

lemma handler_roundtrip:
  assumes "unat cause < kInterruptMaxCount" "length hs = kInterruptMaxCount"
  obtains hs' where "Plic_RegisterInterruptFunc cause f hs = Done hs'" "length hs' = kInterruptMaxCount"
    "Plic_Do (ucast cause) ctx hs' = Done (f (ucast cause) ctx)"
proof -
  have "unat (ucast cause :: u64) = unat cause"
    using unsigned_less [of cause, where 'a = nat] by (simp add: unsigned_ucast_eq take_bit_nat_eq_self)
  then show thesis using that assms by (simp add: Plic_RegisterInterruptFunc_def Plic_Do_def)
qed

lemma handler_unchecked:
  "length hs = kInterruptMaxCount \<Longrightarrow> kInterruptMaxCount \<le> unat cause \<Longrightarrow>
     Plic_RegisterInterruptFunc cause f hs = Fault OutOfBounds"
  "Plic_Do 0 ctx plic_handlers = Fault NullDeref"
  by (simp_all add: Plic_RegisterInterruptFunc_def Plic_Do_def plic_handlers_def kInterruptMaxCount_def)

text \<open>The constructor's first loop silences every source.\<close>

interpretation plic: device_registers "\<lambda>_. True" "\<lambda>regs a. regs a" "\<lambda>regs a v. regs(a := v)"
  by unfold_locales simp_all

lemma priorities_cleared:
  fixes regs :: plic_regs
  assumes "unat s \<le> unat (ndev p)"
  shows "foldl (\<lambda>r source_id. r(SourcePriority p (of_nat source_id) := 0)) regs [0..<Suc (unat (ndev p))]
    (SourcePriority p s) = 0"
proof -
  let ?rs = "map (\<lambda>i. SourcePriority p (of_nat i)) [0..<Suc (unat (ndev p))]"
  have "SourcePriority p s = (\<lambda>i. SourcePriority p (of_nat i)) (unat s)" by simp
  then have "SourcePriority p s \<in> set ?rs" using assms unfolding set_map by (intro image_eqI [where x = "unat s"]) auto
  moreover have "foldl (\<lambda>r source_id. r(SourcePriority p (of_nat source_id) := 0)) regs [0..<Suc (unat (ndev p))] =
      foldl (\<lambda>r a. r(a := 0)) regs ?rs"
    by (simp only: foldl_map)
  ultimately show ?thesis using plic.write_all [where rs = ?rs and s = "SourcePriority p s" and f = "\<lambda>_. 0" and h = regs] by simp
qed

end
