(* ===== verification/Gic.thy ===== *)
theory Gic
  imports Device_Registers
begin

text \<open>
  The interrupt controller of the AArch64 port, \<open>src/src/driver/gic/gic.cpp\<close>.

  A frame of registers behaves as the architecture documents it: the set-enable and the
  clear-enable register of a word both read as the word of enabled interrupts, a 1 written to
  the first sets and a 1 written to the second clears the bit, a 0 leaves it; the same holds
  for the pending interrupts; the remaining registers hold what is written to them. The
  redistributor wakes up if \<open>gh_wakes\<close>; otherwise the driver waits for ever.
\<close>

record gic_frame =
  fr_regs :: "u32 \<Rightarrow> u32"
  fr_enabled :: "u32 \<Rightarrow> u32"
  fr_pending :: "u32 \<Rightarrow> u32"

definition word_of :: "u32 \<Rightarrow> u32" where
  "word_of off = (off mod 0x80) div 4"

definition frame_in :: "u32 \<Rightarrow> gic_frame \<Rightarrow> u32" where
  "frame_in off f =
    (if 0x100 \<le> off \<and> off < 0x200 then fr_enabled f (word_of off)
     else if 0x200 \<le> off \<and> off < 0x300 then fr_pending f (word_of off)
     else fr_regs f off)"

definition frame_out :: "u32 \<Rightarrow> u32 \<Rightarrow> gic_frame \<Rightarrow> gic_frame" where
  "frame_out off v f =
    (let n = word_of off in
     if 0x100 \<le> off \<and> off < 0x180 then f\<lparr>fr_enabled := (fr_enabled f)(n := fr_enabled f n OR v)\<rparr>
     else if 0x180 \<le> off \<and> off < 0x200 then f\<lparr>fr_enabled := (fr_enabled f)(n := fr_enabled f n AND NOT v)\<rparr>
     else if 0x200 \<le> off \<and> off < 0x280 then f\<lparr>fr_pending := (fr_pending f)(n := fr_pending f n OR v)\<rparr>
     else if 0x280 \<le> off \<and> off < 0x300 then f\<lparr>fr_pending := (fr_pending f)(n := fr_pending f n AND NOT v)\<rparr>
     else f\<lparr>fr_regs := (fr_regs f)(off := v)\<rparr>)"

text \<open>
  The state of the controller: the distributor, the redistributors of the cores (a frame of
  control registers and, from \<open>kSGI_BASE\<close> on, a frame of the kind above), and the registers of
  the core's interface.
\<close>

record gic_hw =
  gh_dist :: gic_frame
  gh_rd :: "u32 \<Rightarrow> u32 \<Rightarrow> u32"
  gh_sgi :: "u32 \<Rightarrow> gic_frame"
  gh_wakes :: bool
  gh_igrpen1 :: bool
  gh_pmr :: u8
  gh_sre :: bool
  gh_sgi1r :: "u64 list"
  gh_eoir1 :: "u64 list"

record Gic =
  gicd_base :: u64
  gicr_base :: u64

subsection \<open>Distributor\<close>

definition Gicd_kCTLR :: u32 where "Gicd_kCTLR = 0x0000"
definition kCTLR_EnableGrp1NS :: u32 where "kCTLR_EnableGrp1NS = 0x2"
definition Gicd_kTYPER :: u32 where "Gicd_kTYPER = 0x0004"
definition kTYPER_ITLinesNumberMask :: u32 where "kTYPER_ITLinesNumberMask = 0x1F"
definition IGROUPRn :: "u32 \<Rightarrow> u32" where "IGROUPRn n = 0x0080 + n * 4"
definition ISENABLERn :: "u32 \<Rightarrow> u32" where "ISENABLERn n = 0x0100 + n * 4"
definition ICENABLERn :: "u32 \<Rightarrow> u32" where "ICENABLERn n = 0x0180 + n * 4"
definition ICPENDRn :: "u32 \<Rightarrow> u32" where "ICPENDRn n = 0x0280 + n * 4"
definition IPRIORITYRn :: "u32 \<Rightarrow> u32" where "IPRIORITYRn n = 0x0400 + n * 4"
definition ITARGETSRn :: "u32 \<Rightarrow> u32" where "ITARGETSRn n = 0x0800 + n * 4"
definition ICFGRn :: "u32 \<Rightarrow> u32" where "ICFGRn n = 0x0C00 + n * 4"
definition kIPRIORITYRn_BITS_MASK :: u32 where "kIPRIORITYRn_BITS_MASK = 0xFF"
definition kICFGRn_BITS_MASK :: u32 where "kICFGRn_BITS_MASK = 0x3"
definition kICFGRn_LevelSensitive :: u32 where "kICFGRn_LevelSensitive = 0"

definition Gicd_Read :: "u32 \<Rightarrow> gic_hw \<Rightarrow> u32" where
  "Gicd_Read off g = frame_in off (gh_dist g)"

definition Gicd_Write :: "u32 \<Rightarrow> u32 \<Rightarrow> gic_hw \<Rightarrow> gic_hw" where
  "Gicd_Write off v g = g\<lparr>gh_dist := frame_out off v (gh_dist g)\<rparr>"

definition new_Gicd :: "u64 \<Rightarrow> gic_hw \<Rightarrow> gic_hw outcome" where
  "new_Gicd base g =
    nk_assert_msg (base \<noteq> 0) ''GICD base address is invalid'' (
    let g1 = Gicd_Write Gicd_kCTLR 0 g;
        it_lines_number = Gicd_Read Gicd_kTYPER g1 AND kTYPER_ITLinesNumberMask in
    Done (foldl (\<lambda>g i. Gicd_Write (IGROUPRn (of_nat i)) (- 1) g) g1 [0..<unat it_lines_number]))"

definition Gicd_EnableGrp1NS :: "gic_hw \<Rightarrow> gic_hw" where
  "Gicd_EnableGrp1NS g = (Gicd_Write Gicd_kCTLR kCTLR_EnableGrp1NS g)\<lparr>gh_igrpen1 := True\<rparr>"

definition Gicd_Enable :: "u32 \<Rightarrow> gic_hw \<Rightarrow> gic_hw" where
  "Gicd_Enable intid g =
    (let is = Gicd_Read (ISENABLERn (intid div 32)) g;
         is = is OR push_bit (unat (intid mod 32)) 1 in
     Gicd_Write (ISENABLERn (intid div 32)) is g)"

definition Gicd_Disable :: "u32 \<Rightarrow> gic_hw \<Rightarrow> gic_hw" where
  "Gicd_Disable intid g =
    (let ic = Gicd_Read (ICENABLERn (intid div 32)) g;
         ic = ic OR push_bit (unat (intid mod 32)) 1 in
     Gicd_Write (ICENABLERn (intid div 32)) ic g)"

definition Gicd_Clear :: "u32 \<Rightarrow> gic_hw \<Rightarrow> gic_hw" where
  "Gicd_Clear intid g =
    (let ic = Gicd_Read (ICPENDRn (intid div 32)) g;
         ic = ic OR push_bit (unat (intid mod 32)) 1 in
     Gicd_Write (ICPENDRn (intid div 32)) ic g)"

definition Gicd_IsEnable :: "u32 \<Rightarrow> gic_hw \<Rightarrow> bool" where
  "Gicd_IsEnable intid g =
    (let is = Gicd_Read (ISENABLERn (intid div 32)) g in is AND push_bit (unat (intid mod 32)) 1 \<noteq> 0)"

definition Gicd_SetPrio :: "u32 \<Rightarrow> u32 \<Rightarrow> gic_hw \<Rightarrow> gic_hw" where
  "Gicd_SetPrio intid prio g =
    (let shift = unat ((intid mod 4) * 8);
         ip = Gicd_Read (IPRIORITYRn (intid div 4)) g;
         ip = ip AND NOT (push_bit shift kIPRIORITYRn_BITS_MASK);
         ip = ip OR push_bit shift prio in
     Gicd_Write (IPRIORITYRn (intid div 4)) ip g)"

definition Gicd_SetConfig :: "u32 \<Rightarrow> u32 \<Rightarrow> gic_hw \<Rightarrow> gic_hw" where
  "Gicd_SetConfig intid config g =
    (let shift = unat ((intid mod 16) * 2);
         ic = Gicd_Read (ICFGRn (intid div 16)) g;
         ic = ic AND NOT (push_bit shift kICFGRn_BITS_MASK);
         ic = ic OR push_bit shift config in
     Gicd_Write (ICFGRn (intid div 16)) ic g)"

definition Gicd_SetTarget :: "u32 \<Rightarrow> u32 \<Rightarrow> gic_hw \<Rightarrow> gic_hw" where
  "Gicd_SetTarget intid cpuid g =
    (let shift = unat ((intid mod 4) * 8);
         target = Gicd_Read (ITARGETSRn (intid div 4)) g;
         target = target AND NOT (push_bit shift kICFGRn_BITS_MASK) in
     Gicd_Write (ITARGETSRn (intid div 4)) (target OR push_bit shift (push_bit (unat cpuid) 1)) g)"

definition Gicd_SetupSPI :: "u32 \<Rightarrow> u32 \<Rightarrow> gic_hw \<Rightarrow> gic_hw" where
  "Gicd_SetupSPI intid cpuid g =
    Gicd_Enable intid (Gicd_Clear intid (Gicd_SetTarget intid cpuid (Gicd_SetPrio intid 0
      (Gicd_SetConfig intid kICFGRn_LevelSensitive g))))"

subsection \<open>Redistributors\<close>

definition kSGI_BASE :: u32 where "kSGI_BASE = 0x10000"
definition Gicr_kCTLR :: u32 where "Gicr_kCTLR = 0x0000"
definition kWAKER :: u32 where "kWAKER = 0x0014"
definition kWAKER_ProcessorSleepMASK :: u32 where "kWAKER_ProcessorSleepMASK = 2"
definition kIGROUPR0 :: u32 where "kIGROUPR0 = kSGI_BASE + 0x0080"
definition kIGRPMODR0 :: u32 where "kIGRPMODR0 = 0x0D00"
definition kISENABLER0 :: u32 where "kISENABLER0 = kSGI_BASE + 0x0100"
definition kICENABLER0 :: u32 where "kICENABLER0 = kSGI_BASE + 0x0180"
definition kICPENDR0 :: u32 where "kICPENDR0 = kSGI_BASE + 0x0280"
definition Gicr_IPRIORITYRn :: "u32 \<Rightarrow> u32" where "Gicr_IPRIORITYRn n = kSGI_BASE + 0x0400 + n * 4"

definition Gicr_Read :: "u32 \<Rightarrow> u32 \<Rightarrow> gic_hw \<Rightarrow> u32" where
  "Gicr_Read cpuid off g = (if kSGI_BASE \<le> off then frame_in (off - kSGI_BASE) (gh_sgi g cpuid) else gh_rd g cpuid off)"

definition Gicr_Write :: "u32 \<Rightarrow> u32 \<Rightarrow> u32 \<Rightarrow> gic_hw \<Rightarrow> gic_hw" where
  "Gicr_Write cpuid off v g =
    (if kSGI_BASE \<le> off
     then g\<lparr>gh_sgi := (gh_sgi g)(cpuid := frame_out (off - kSGI_BASE) v (gh_sgi g cpuid))\<rparr>
     else g\<lparr>gh_rd := (gh_rd g)(cpuid := (gh_rd g cpuid)(off := v))\<rparr>)"

definition Gicr_SetUP :: "u32 \<Rightarrow> gic_hw \<Rightarrow> gic_hw outcome" where
  "Gicr_SetUP cpuid g =
    (let g1 = (Gicr_Write cpuid Gicr_kCTLR 0 g)\<lparr>gh_sre := True\<rparr>;
         g2 = Gicr_Write cpuid kIGRPMODR0 0 (Gicr_Write cpuid kIGROUPR0 (- 1) g1);
         waker = Gicr_Read cpuid kWAKER g2;
         g3 = Gicr_Write cpuid kWAKER (waker AND NOT kWAKER_ProcessorSleepMASK) g2 in
     if gh_wakes g3 then Done g3 else Fault LoopForever)"

definition new_Gicr :: "u64 \<Rightarrow> u32 \<Rightarrow> gic_hw \<Rightarrow> gic_hw outcome" where
  "new_Gicr base cpuid g =
    nk_assert_msg (base \<noteq> 0) ''GICR base address is invalid'' (
    let g1 = (Gicr_Write cpuid Gicr_kCTLR 0 g)\<lparr>gh_sre := True\<rparr>;
        g2 = Gicr_Write cpuid kIGRPMODR0 0 (Gicr_Write cpuid kIGROUPR0 (- 1) g1);
        waker = Gicr_Read cpuid kWAKER g2;
        g3 = Gicr_Write cpuid kWAKER (waker AND NOT kWAKER_ProcessorSleepMASK) g2 in
    if gh_wakes g3 then Done g3 else Fault LoopForever)"

definition Gicr_Enable :: "u32 \<Rightarrow> u32 \<Rightarrow> gic_hw \<Rightarrow> gic_hw" where
  "Gicr_Enable intid cpuid g =
    (let is = Gicr_Read cpuid kISENABLER0 g;
         is = is OR push_bit (unat (intid mod 32)) 1 in
     Gicr_Write cpuid kISENABLER0 is g)"

definition Gicr_Disable :: "u32 \<Rightarrow> u32 \<Rightarrow> gic_hw \<Rightarrow> gic_hw" where
  "Gicr_Disable intid cpuid g =
    (let ic = Gicr_Read cpuid kICENABLER0 g;
         ic = ic OR push_bit (unat (intid mod 32)) 1 in
     Gicr_Write cpuid kICENABLER0 ic g)"

definition Gicr_Clear :: "u32 \<Rightarrow> u32 \<Rightarrow> gic_hw \<Rightarrow> gic_hw" where
  "Gicr_Clear intid cpuid g =
    (let ic = Gicr_Read cpuid kICPENDR0 g;
         ic = ic OR push_bit (unat (intid mod 32)) 1 in
     Gicr_Write cpuid kICPENDR0 ic g)"

definition Gicr_SetPrio :: "u32 \<Rightarrow> u32 \<Rightarrow> u32 \<Rightarrow> gic_hw \<Rightarrow> gic_hw" where
  "Gicr_SetPrio intid cpuid prio g =
    (let shift = unat ((intid mod 4) * 8);
         ip = Gicr_Read cpuid (Gicr_IPRIORITYRn (intid div 4)) g;
         ip = ip AND NOT (push_bit shift kIPRIORITYRn_BITS_MASK);
         ip = ip OR push_bit shift prio in
     Gicr_Write cpuid (Gicr_IPRIORITYRn (intid div 4)) ip g)"

definition Gicr_SetupPPI :: "u32 \<Rightarrow> u32 \<Rightarrow> gic_hw \<Rightarrow> gic_hw" where
  "Gicr_SetupPPI intid cpuid g = Gicr_Enable intid cpuid (Gicr_Clear intid cpuid (Gicr_SetPrio intid cpuid 0 g))"

definition Gicr_SetupSGI :: "u32 \<Rightarrow> u32 \<Rightarrow> gic_hw \<Rightarrow> gic_hw" where
  "Gicr_SetupSGI intid cpuid g = Gicr_Enable intid cpuid (Gicr_Clear intid cpuid (Gicr_SetPrio intid cpuid 0 g))"

subsection \<open>Controller\<close>

definition new_Gic :: "u64 \<Rightarrow> u64 \<Rightarrow> u32 \<Rightarrow> gic_hw \<Rightarrow> (Gic \<times> gic_hw) outcome" where
  "new_Gic gicd_base_addr gicr_base_addr core g =
    obind (new_Gicd gicd_base_addr g) (\<lambda>g1.
    obind (new_Gicr gicr_base_addr core g1) (\<lambda>g2.
    Done (\<lparr>gicd_base = gicd_base_addr, gicr_base = gicr_base_addr\<rparr>,
          Gicd_EnableGrp1NS (g2\<lparr>gh_igrpen1 := False, gh_pmr := 0xFF\<rparr>))))"

definition Gic_SetUP :: "u32 \<Rightarrow> gic_hw \<Rightarrow> gic_hw outcome" where
  "Gic_SetUP core g = Gicr_SetUP core (Gicd_EnableGrp1NS (g\<lparr>gh_igrpen1 := False, gh_pmr := 0xFF\<rparr>))"

definition Gic_SPI :: "u32 \<Rightarrow> u32 \<Rightarrow> gic_hw \<Rightarrow> gic_hw" where
  "Gic_SPI intid cpuid g = Gicd_SetupSPI intid cpuid g"

definition Gic_PPI :: "u32 \<Rightarrow> u32 \<Rightarrow> gic_hw \<Rightarrow> gic_hw" where
  "Gic_PPI intid cpuid g = Gicr_SetupPPI intid cpuid g"

definition Gic_SGI :: "u32 \<Rightarrow> u32 \<Rightarrow> gic_hw \<Rightarrow> gic_hw" where
  "Gic_SGI intid cpuid g = Gicr_SetupSGI intid cpuid g"

subsection \<open>Enabling and disabling\<close>

lemma word_bounds:
  fixes i :: u32
  assumes "i < 1024"
  shows "unat (i div 32) = unat i div 32" "unat (i mod 32) = unat i mod 32" "unat i div 32 < 32" "unat (i div 32 * 4) = 4 * (unat i div 32)"
proof -
  have b: "unat i < 1024" using assms by (simp add: word_less_nat_alt)
  show d: "unat (i div 32) = unat i div 32" by (simp add: unat_div)
  show "unat (i mod 32) = unat i mod 32" by (simp add: unat_mod)
  show l: "unat i div 32 < 32" using b by auto
  then show "unat (i div 32 * 4) = 4 * (unat i div 32)" by (simp add: unat_word_ariths d)
qed

lemma word_of_offset:
  fixes n b :: u32
  assumes "unat n < 32" "b \<in> {0x100, 0x180, 0x200, 0x280}"
  shows "b \<le> b + n * 4" "b + n * 4 < b + 0x80" "word_of (b + n * 4) = n"
proof -
  have m: "unat (n * 4) = 4 * unat n" using assms(1) by (simp add: unat_word_ariths)
  have b: "unat b \<in> {0x100, 0x180, 0x200, 0x280}" "unat (b + 0x80) = unat b + 0x80"
    using assms(2) by (auto simp: unat_word_ariths)
  have u: "unat (b + n * 4) = unat b + 4 * unat n" using assms(1) b m by (auto simp: unat_word_ariths)
  show "b \<le> b + n * 4" by (simp add: word_le_nat_alt u)
  show "b + n * 4 < b + 0x80" using assms(1) by (simp only: word_less_nat_alt u b)
  obtain q where "unat b = 128 * q" using b(1) by (auto intro: that [of 2] that [of 3] that [of 4] that [of 5])
  then have "(unat b + 4 * unat n) mod 128 = 4 * unat n" using assms(1) by simp
  then have "unat (word_of (b + n * 4)) = unat n" by (simp add: word_of_def unat_div unat_mod u)
  then show "word_of (b + n * 4) = n" by (simp add: word_unat_eq_iff)
qed

lemma enable_regs:
  assumes "i < 1024"
  shows "frame_in (ISENABLERn (i div 32)) f = fr_enabled f (i div 32)"
    "frame_in (ICENABLERn (i div 32)) f = fr_enabled f (i div 32)"
    "frame_in (ICPENDRn (i div 32)) f = fr_pending f (i div 32)"
    "frame_out (ISENABLERn (i div 32)) v f = f\<lparr>fr_enabled := (fr_enabled f)(i div 32 := fr_enabled f (i div 32) OR v)\<rparr>"
    "frame_out (ICENABLERn (i div 32)) v f = f\<lparr>fr_enabled := (fr_enabled f)(i div 32 := fr_enabled f (i div 32) AND NOT v)\<rparr>"
    "frame_out (ICPENDRn (i div 32)) v f = f\<lparr>fr_pending := (fr_pending f)(i div 32 := fr_pending f (i div 32) AND NOT v)\<rparr>"
proof -
  have n: "unat (i div 32) < 32" using word_bounds [OF assms] by simp
  note off = word_of_offset [OF n]
  have s: "0x100 \<le> ISENABLERn (i div 32)" "ISENABLERn (i div 32) < 0x180" "word_of (ISENABLERn (i div 32)) = i div 32"
    using off [of "0x100"] by (simp_all add: ISENABLERn_def)
  have c: "0x180 \<le> ICENABLERn (i div 32)" "ICENABLERn (i div 32) < 0x200" "word_of (ICENABLERn (i div 32)) = i div 32"
    using off [of "0x180"] by (simp_all add: ICENABLERn_def)
  have p: "0x280 \<le> ICPENDRn (i div 32)" "ICPENDRn (i div 32) < 0x300" "word_of (ICPENDRn (i div 32)) = i div 32"
    using off [of "0x280"] by (simp_all add: ICPENDRn_def)
  have lt: "\<not> x < y" if "z \<le> x" "y \<le> z" for x y z :: u32 using that by (metis leD order_trans)
  have le: "y \<le> x" if "z \<le> x" "y \<le> z" for x y z :: u32 using that by (rule order_trans [rotated])
  have tr: "x < y" if "x < z" "z \<le> y" for x y z :: u32 using that by (rule less_le_trans)
  show "frame_in (ISENABLERn (i div 32)) f = fr_enabled f (i div 32)"
    using s tr [OF s(2), of "0x200"] by (simp add: frame_in_def)
  show "frame_in (ICENABLERn (i div 32)) f = fr_enabled f (i div 32)"
    using c le [OF c(1), of "0x100"] by (simp add: frame_in_def)
  show "frame_in (ICPENDRn (i div 32)) f = fr_pending f (i div 32)"
    using p le [OF p(1), of "0x200"] lt [OF p(1), of "0x200"] by (simp add: frame_in_def)
  show "frame_out (ISENABLERn (i div 32)) v f = f\<lparr>fr_enabled := (fr_enabled f)(i div 32 := fr_enabled f (i div 32) OR v)\<rparr>"
    using s by (simp add: frame_out_def Let_def)
  show "frame_out (ICENABLERn (i div 32)) v f = f\<lparr>fr_enabled := (fr_enabled f)(i div 32 := fr_enabled f (i div 32) AND NOT v)\<rparr>"
    using c lt [OF c(1), of "0x180"] by (simp add: frame_out_def Let_def)
  show "frame_out (ICPENDRn (i div 32)) v f = f\<lparr>fr_pending := (fr_pending f)(i div 32 := fr_pending f (i div 32) AND NOT v)\<rparr>"
    using p lt [OF p(1), of "0x180"] lt [OF p(1), of "0x200"] lt [OF p(1), of "0x280"]
    by (simp add: frame_out_def Let_def)
qed

lemma clear_all: "x AND NOT (x OR y) = 0" for x :: u32
  by (auto simp: bit_eq_iff bit_simps)

lemma Gicd_Enable_result:
  assumes "i < 1024"
  shows "Gicd_Enable i g = g\<lparr>gh_dist := (gh_dist g)\<lparr>fr_enabled := (fr_enabled (gh_dist g))
    (i div 32 := fr_enabled (gh_dist g) (i div 32) OR push_bit (unat i mod 32) 1)\<rparr>\<rparr>"
  by (simp add: Gicd_Enable_def Gicd_Read_def Gicd_Write_def enable_regs [OF assms] word_bounds [OF assms] Let_def)

lemma Gicd_Disable_result:
  assumes "i < 1024"
  shows "Gicd_Disable i g = g\<lparr>gh_dist := (gh_dist g)\<lparr>fr_enabled := (fr_enabled (gh_dist g))(i div 32 := 0)\<rparr>\<rparr>"
  by (simp add: Gicd_Disable_def Gicd_Read_def Gicd_Write_def enable_regs [OF assms] clear_all Let_def
      del: bit.de_Morgan_disj)

lemma Gicd_Clear_result:
  assumes "i < 1024"
  shows "Gicd_Clear i g = g\<lparr>gh_dist := (gh_dist g)\<lparr>fr_pending := (fr_pending (gh_dist g))(i div 32 := 0)\<rparr>\<rparr>"
  by (simp add: Gicd_Clear_def Gicd_Read_def Gicd_Write_def enable_regs [OF assms] clear_all Let_def
      del: bit.de_Morgan_disj)

lemma Gicd_IsEnable_result:
  assumes "i < 1024"
  shows "Gicd_IsEnable i g \<longleftrightarrow> bit (fr_enabled (gh_dist g) (i div 32)) (unat i mod 32)"
  by (simp add: Gicd_IsEnable_def Gicd_Read_def enable_regs [OF assms] word_bounds [OF assms] and_exp_eq_0_iff_not_bit Let_def)

text \<open>
  enabling an interrupt in the distributor enables that interrupt and no other. Disabling
  one disables all the interrupts of its word of 32, because the value read back from the
  clear-enable register, which has a 1 for every enabled interrupt, is written to it. In the same
  way \<open>Clear\<close> drops every pending interrupt of the word, also when \<open>SetupSPI\<close> calls it.
\<close>

theorem Gicd_Disable_disables_word:
  assumes "i < 1024" "j < 1024"
  shows "(Gicd_IsEnable j (Gicd_Enable i g) \<longleftrightarrow> j = i \<or> Gicd_IsEnable j g) \<and>
    (Gicd_IsEnable j (Gicd_Disable i g) \<longleftrightarrow> j div 32 \<noteq> i div 32 \<and> Gicd_IsEnable j g) \<and>
    fr_pending (gh_dist (Gicd_Clear i g)) = (fr_pending (gh_dist g))(i div 32 := 0)"
proof -
  have n: "j = i \<longleftrightarrow> j div 32 = i div 32 \<and> unat j mod 32 = unat i mod 32"
    using word_bounds(1) [OF assms(1)] word_bounds(1) [OF assms(2)] by (metis div_mult_mod_eq word_unat_eq_iff)
  have "unat i mod 32 < 32" by simp
  then show ?thesis
    using n by (auto simp: Gicd_IsEnable_result [OF assms(2)] Gicd_Enable_result [OF assms(1)]
        Gicd_Disable_result [OF assms(1)] Gicd_Clear_result [OF assms(1)] bit_or_iff bit_exp_iff)
qed

definition demo_gic :: gic_hw where
  "demo_gic = \<lparr>gh_dist = \<lparr>fr_regs = (\<lambda>_. 0), fr_enabled = (\<lambda>_. 6), fr_pending = (\<lambda>_. 6)\<rparr>, gh_rd = (\<lambda>_ _. 0),
     gh_sgi = (\<lambda>_. \<lparr>fr_regs = (\<lambda>_. 0), fr_enabled = (\<lambda>_. 0), fr_pending = (\<lambda>_. 0)\<rparr>), gh_wakes = True,
     gh_igrpen1 = False, gh_pmr = 0, gh_sre = False, gh_sgi1r = [], gh_eoir1 = []\<rparr>"

theorem Gicd_Disable_disables_word_witness:
  "Gicd_IsEnable 34 demo_gic \<and> \<not> Gicd_IsEnable 34 (Gicd_Disable 33 demo_gic)"
  using Gicd_Disable_disables_word [of 33 34 demo_gic] Gicd_IsEnable_result [of 34 demo_gic]
  by (simp add: demo_gic_def)

subsection \<open>The other registers\<close>

definition plain :: "u32 \<Rightarrow> bool" where
  "plain off \<longleftrightarrow> off < 0x100 \<or> 0x300 \<le> off"

lemma plain_frame:
  assumes "plain off"
  shows "frame_in off f = fr_regs f off" "frame_out off v f = f\<lparr>fr_regs := (fr_regs f)(off := v)\<rparr>"
  using assms by (auto simp: plain_def frame_in_def frame_out_def Let_def word_less_nat_alt word_le_nat_alt)

interpretation gicd: device_registers plain "\<lambda>g off. Gicd_Read off g" "\<lambda>g off v. Gicd_Write off v g"
  by unfold_locales (simp_all add: Gicd_Read_def Gicd_Write_def plain_frame)

lemma IGROUPRn_plain:
  assumes "n < 32"
  shows "plain (IGROUPRn (of_nat n))" "unat (IGROUPRn (of_nat n)) = 0x80 + 4 * n"
proof -
  show u: "unat (IGROUPRn (of_nat n)) = 0x80 + 4 * n"
    using assms by (simp add: IGROUPRn_def unat_word_ariths unsigned_of_nat take_bit_nat_eq_self)
  show "plain (IGROUPRn (of_nat n))" using assms by (simp add: plain_def word_less_nat_alt u)
qed

text \<open>
  The constructor puts the interrupts of the words \<open>0 \<dots> ITLinesNumber - 1\<close> into group 1. The
  distributor has one word more; the interrupts of the last word keep their group.
\<close>

lemma new_Gicd_groups:
  assumes "base \<noteq> 0" "k < 32"
  shows "\<exists>g'. new_Gicd base g = Done g' \<and> Gicd_Read (IGROUPRn (of_nat k)) g' =
    (if k < unat (Gicd_Read Gicd_kTYPER g AND kTYPER_ITLinesNumberMask) then - 1
     else Gicd_Read (IGROUPRn (of_nat k)) g)"
proof -
  define g1 where "g1 = Gicd_Write Gicd_kCTLR 0 g"
  define N where "N = unat (Gicd_Read Gicd_kTYPER g AND kTYPER_ITLinesNumberMask)"
  let ?rs = "map (\<lambda>i. IGROUPRn (of_nat i)) [0..<N]"
  have p: "plain Gicd_kCTLR" "plain Gicd_kTYPER" "Gicd_kCTLR \<noteq> Gicd_kTYPER"
    by (simp_all add: plain_def Gicd_kCTLR_def Gicd_kTYPER_def)
  have "x AND kTYPER_ITLinesNumberMask = take_bit 5 x" for x
    by (simp add: kTYPER_ITLinesNumberMask_def take_bit_eq_mask mask_eq_exp_minus_1)
  then have "N < 2 ^ 5"
    using take_bit_nat_less_exp [of 5 "unat (Gicd_Read Gicd_kTYPER g)"]
    by (simp add: N_def unsigned_take_bit_eq)
  then have r: "plain r" if "r \<in> set ?rs" for r using that IGROUPRn_plain(1) by auto
  have k: "IGROUPRn (of_nat k) \<in> set ?rs \<longleftrightarrow> k < N"
    using IGROUPRn_plain(2) \<open>N < 2 ^ 5\<close> assms(2) by (fastforce simp: word_unat_eq_iff)
  have "IGROUPRn (of_nat k) \<noteq> Gicd_kCTLR"
    using IGROUPRn_plain(2) [OF assms(2)] by (auto simp: Gicd_kCTLR_def)
  then have "Gicd_Read (IGROUPRn (of_nat k)) g1 = Gicd_Read (IGROUPRn (of_nat k)) g"
    unfolding g1_def using gicd.rd_wr_other [OF p(1) IGROUPRn_plain(1) [OF assms(2)]] by metis
  moreover have "Gicd_Read Gicd_kTYPER g1 = Gicd_Read Gicd_kTYPER g"
    unfolding g1_def by (rule gicd.rd_wr_other [OF p])
  moreover have "Gicd_Read (IGROUPRn (of_nat k)) (foldl (\<lambda>g r. Gicd_Write r (- 1) g) g1 ?rs) =
      (if IGROUPRn (of_nat k) \<in> set ?rs then - 1 else Gicd_Read (IGROUPRn (of_nat k)) g1)"
    by (rule gicd.write_all [where f = "\<lambda>_. - 1", OF r IGROUPRn_plain(1) [OF assms(2)]])
  ultimately show ?thesis
    using assms(1) k by (simp add: new_Gicd_def nk_assert_msg_def g1_def [symmetric] N_def [symmetric] foldl_map Let_def)
qed

end
