(* ===== verification/Interrupts.thy ===== *)
theory Interrupts
  imports Gic Task_Manager
begin

text \<open>
  The tables of interrupt handlers of the three ports and their inter-processor interrupts:
  \<open>src/src/arch/riscv64/interrupt.cpp\<close>, \<open>src/src/arch/x86_64/interrupt.cpp\<close> and
  \<open>src/src/arch/aarch64/interrupt.cpp\<close>. A handler is a function of the cause and the trap context
  that returns a new context or does not return.
\<close>

type_synonym 'c handler = "u64 \<Rightarrow> 'c \<Rightarrow> 'c outcome"

subsection \<open>The contract of a handler table\<close>

text \<open>
  What the rest of the kernel expects of a table: a registered handler runs when its cause is
  dispatched, and registering it changes the dispatch of no other cause. \<open>expect c h x\<close> is the
  result of running handler \<open>h\<close> for cause \<open>c\<close> in context \<open>x\<close>.
\<close>

locale handler_table =
  fixes ok :: "'t \<Rightarrow> bool"
    and valid :: "u64 \<Rightarrow> bool"
    and reg :: "u64 \<Rightarrow> 'h \<Rightarrow> 't \<Rightarrow> 't outcome"
    and run :: "u64 \<Rightarrow> 'c \<Rightarrow> 't \<Rightarrow> 'r"
    and expect :: "u64 \<Rightarrow> 'h \<Rightarrow> 'c \<Rightarrow> 'r"
  assumes reg_run: "ok t \<Longrightarrow> valid c \<Longrightarrow>
    \<exists>t'. reg c h t = Done t' \<and> ok t' \<and> (\<forall>x. run c x t' = expect c h x) \<and>
      (\<forall>d x. valid d \<longrightarrow> d \<noteq> c \<longrightarrow> run d x t' = run d x t)"
begin

text \<open>Registering a list of handlers, as \<open>RegisterInterrupts\<close> of the ports does.\<close>

primrec reg_all :: "(u64 \<times> 'h) list \<Rightarrow> 't \<Rightarrow> 't outcome" where
  "reg_all [] t = Done t"
| "reg_all (ch # chs) t = obind (reg (fst ch) (snd ch) t) (reg_all chs)"

lemma reg_all_run:
  assumes "ok t" "list_all valid (map fst chs)" "distinct (map fst chs)"
  shows "\<exists>t'. reg_all chs t = Done t' \<and> ok t' \<and> (\<forall>c h x. (c, h) \<in> set chs \<longrightarrow> run c x t' = expect c h x) \<and>
    (\<forall>d x. valid d \<longrightarrow> d \<notin> fst ` set chs \<longrightarrow> run d x t' = run d x t)"
  using assms
proof (induction chs arbitrary: t)
  case (Cons ch chs)
  obtain c h where ch: "ch = (c, h)" by (cases ch)
  have v: "valid c" using Cons.prems(2) ch by simp
  obtain t1 where 1: "reg c h t = Done t1" "ok t1" "\<forall>x. run c x t1 = expect c h x"
      "\<forall>d x. valid d \<longrightarrow> d \<noteq> c \<longrightarrow> run d x t1 = run d x t"
    using reg_run [OF Cons.prems(1) v, of h] by blast
  obtain t2 where 2: "reg_all chs t1 = Done t2" "ok t2" "\<forall>c h x. (c, h) \<in> set chs \<longrightarrow> run c x t2 = expect c h x"
      "\<forall>d x. valid d \<longrightarrow> d \<notin> fst ` set chs \<longrightarrow> run d x t2 = run d x t1"
    using Cons.IH [OF 1(2)] Cons.prems(2,3) by auto
  have n: "c \<notin> fst ` set chs" using Cons.prems(3) ch by simp
  have "reg_all (ch # chs) t = Done t2" using 1(1) 2(1) ch by simp
  moreover have "run d x t2 = expect d k x" if "(d, k) \<in> set (ch # chs)" for d k x
    using that ch 1(3) 2(3,4) n v by auto
  moreover have "run d x t2 = run d x t" if "valid d" "d \<notin> fst ` set (ch # chs)" for d x
    using that ch 1(4) 2(4) by simp
  ultimately show ?case using 2(2) by blast
qed simp

end

subsection \<open>RISC-V\<close>

record 'c riscv_table =
  interrupt_handlers :: "'c handler list"
  exception_handlers :: "'c handler list"

definition kInterruptMaxCount_riscv :: nat where "kInterruptMaxCount_riscv = 16"
definition kExceptionMaxCount :: nat where "kExceptionMaxCount = 20"

definition Scause_Interrupt :: "u64 \<Rightarrow> bool" where "Scause_Interrupt cause = bit cause 63"
definition Scause_ExceptionCode :: "u64 \<Rightarrow> u64" where "Scause_ExceptionCode cause = take_bit 63 cause"

definition riscv_Interrupt :: "'c riscv_table" where
  "riscv_Interrupt =
    \<lparr>interrupt_handlers = replicate kInterruptMaxCount_riscv (\<lambda>cause ctx. Done ctx),
     exception_handlers = replicate kExceptionMaxCount (\<lambda>cause ctx. Fault LoopForever)\<rparr>"

definition riscv_Do :: "u64 \<Rightarrow> 'c \<Rightarrow> 'c riscv_table \<Rightarrow> 'c outcome" where
  "riscv_Do cause ctx t =
    (let exception_code = Scause_ExceptionCode cause in
     if Scause_Interrupt cause
     then if unat exception_code < kInterruptMaxCount_riscv
          then (interrupt_handlers t ! unat exception_code) exception_code ctx else Done ctx
     else if unat exception_code < kExceptionMaxCount
          then (exception_handlers t ! unat exception_code) exception_code ctx else Done ctx)"

definition riscv_RegisterInterruptFunc :: "u64 \<Rightarrow> 'c handler \<Rightarrow> 'c riscv_table \<Rightarrow> 'c riscv_table outcome" where
  "riscv_RegisterInterruptFunc cause func t =
    (let exception_code = Scause_ExceptionCode cause in
     if Scause_Interrupt cause
     then nk_assert_msg (unat exception_code < kInterruptMaxCount_riscv) ''Interrupt code out of range''
            (Done (t\<lparr>interrupt_handlers := (interrupt_handlers t)[unat exception_code := func]\<rparr>))
     else nk_assert_msg (unat exception_code < kExceptionMaxCount) ''Exception code out of range''
            (Done (t\<lparr>exception_handlers := (exception_handlers t)[unat exception_code := func]\<rparr>)))"

text \<open>\<open>sbi\<close> is \<open>sbi_send_ipi\<close>: whether the firmware reports success for a mask.\<close>

definition riscv_SendIpi :: "(u64 \<Rightarrow> bool) \<Rightarrow> u64 \<Rightarrow> unit Expected" where
  "riscv_SendIpi sbi target_cpu_mask =
    (if target_cpu_mask > push_bit MAX_CORE_COUNT 1 - 1 then Inl kIpiTargetOutOfRange
     else if \<not> sbi target_cpu_mask then Inl kIpiSendFailed
     else Inr ())"

definition broadcast_mask :: "nat \<Rightarrow> nat \<Rightarrow> u64" where
  "broadcast_mask core_count current =
     foldl (\<lambda>m i. if i \<noteq> current then m OR push_bit i 1 else m) 0 [0..<core_count]"

definition riscv_BroadcastIpi :: "(u64 \<Rightarrow> bool) \<Rightarrow> nat \<Rightarrow> nat \<Rightarrow> unit Expected" where
  "riscv_BroadcastIpi sbi core_count current =
    (if core_count = 1 then Inr () else riscv_SendIpi sbi (broadcast_mask core_count current))"

subsection \<open>x86-64\<close>

definition kInterruptMaxCount_x86 :: nat where "kInterruptMaxCount_x86 = 256"

definition x86_Interrupt :: "'c handler list" where
  "x86_Interrupt = replicate kInterruptMaxCount_x86 (\<lambda>cause ctx. Fault LoopForever)"

definition x86_Do :: "u64 \<Rightarrow> 'c \<Rightarrow> 'c handler list \<Rightarrow> 'c outcome" where
  "x86_Do cause ctx hs = (if unat cause < kInterruptMaxCount_x86 then (hs ! unat cause) cause ctx else Done ctx)"

definition x86_RegisterInterruptFunc :: "u64 \<Rightarrow> 'c handler \<Rightarrow> 'c handler list \<Rightarrow> 'c handler list outcome" where
  "x86_RegisterInterruptFunc cause func hs =
    Done (if unat cause < kInterruptMaxCount_x86 then hs[unat cause := func] else hs)"

definition x86_SendIpi :: "u64 \<Rightarrow> unit Expected" where
  "x86_SendIpi target_cpu_mask = Inl kIpiSendFailed"

definition x86_BroadcastIpi :: "unit Expected" where
  "x86_BroadcastIpi = Inl kIpiSendFailed"

subsection \<open>AArch64\<close>

definition kMaxInterrupt :: nat where "kMaxInterrupt = 128"

text \<open>\<open>func\<close> is a function pointer that may be null; the index is not checked.\<close>

definition arm_Do :: "u64 \<Rightarrow> 'c \<times> gic_hw \<Rightarrow> 'c handler list \<Rightarrow> ('c \<times> gic_hw) outcome" where
  "arm_Do cause cg hs = (case cg of (ctx, g) \<Rightarrow>
    if unat cause < length hs
    then obind ((hs ! unat cause) cause ctx) (\<lambda>ctx. Done (ctx, g\<lparr>gh_eoir1 := gh_eoir1 g @ [cause]\<rparr>))
    else Fault OutOfBounds)"

definition arm_RegisterInterruptFunc :: "u64 \<Rightarrow> 'c handler option \<Rightarrow> 'c handler list \<Rightarrow> 'c handler list outcome" where
  "arm_RegisterInterruptFunc cause func hs =
    (case func of None \<Rightarrow> Done hs
     | Some f \<Rightarrow> if unat cause < length hs then Done (hs[unat cause := f]) else Fault OutOfBounds)"

text \<open>
  The constructor maps the registers of the controller before it uses them. \<open>map_mmio\<close> is
  \<open>VirtualMemory::MapMMIO\<close> of this port on the state \<open>'v\<close> of its virtual memory; the result of the
  call is not looked at. The addresses and sizes come from the device tree.
\<close>

definition arm_Interrupt :: "(u64 \<Rightarrow> u64 \<Rightarrow> 'v \<Rightarrow> 'v outcome) \<Rightarrow> u64 \<times> u64 \<times> u64 \<times> u64 \<Rightarrow> u32 \<Rightarrow> 'v \<Rightarrow> gic_hw \<Rightarrow>
    ('c handler list \<times> Gic \<times> 'v \<times> gic_hw) outcome" where
  "arm_Interrupt map_mmio fdt cpuid v g =
    (case fdt of (dist_base_addr, dist_size, redist_base_addr, redist_size) \<Rightarrow>
    obind (map_mmio dist_base_addr dist_size v) (\<lambda>v.
    obind (map_mmio redist_base_addr redist_size v) (\<lambda>v.
    obind (new_Gic dist_base_addr redist_base_addr cpuid g) (\<lambda>(gic, g).
    Done (replicate kMaxInterrupt (\<lambda>cause ctx. Done ctx), gic, v, Gic_SGI 0 cpuid g)))))"

definition arm_SendIpi :: "u64 \<Rightarrow> gic_hw \<Rightarrow> unit Expected \<times> gic_hw" where
  "arm_SendIpi target_cpu_mask g =
    (let sgi_value = 0;
         sgi_value = sgi_value OR push_bit 24 (0 AND 0xF);
         sgi_value = sgi_value OR (target_cpu_mask AND 0xFFFF) in
     (Inr (), g\<lparr>gh_sgi1r := gh_sgi1r g @ [sgi_value]\<rparr>))"

definition arm_BroadcastIpi :: "gic_hw \<Rightarrow> unit Expected \<times> gic_hw" where
  "arm_BroadcastIpi g =
    (let sgi_value = 0;
         sgi_value = sgi_value OR push_bit 24 (0 AND 0xF);
         sgi_value = sgi_value OR push_bit 40 1 in
     (Inr (), g\<lparr>gh_sgi1r := gh_sgi1r g @ [sgi_value]\<rparr>))"

subsection \<open>The tables meet the contract\<close>

definition riscv_valid :: "u64 \<Rightarrow> bool" where
  "riscv_valid cause \<longleftrightarrow> unat (Scause_ExceptionCode cause) <
     (if Scause_Interrupt cause then kInterruptMaxCount_riscv else kExceptionMaxCount)"

definition riscv_ok :: "'c riscv_table \<Rightarrow> bool" where
  "riscv_ok t \<longleftrightarrow> length (interrupt_handlers t) = kInterruptMaxCount_riscv \<and> length (exception_handlers t) = kExceptionMaxCount"

lemma cause_parts: "c = d \<longleftrightarrow> Scause_Interrupt c = Scause_Interrupt d \<and> unat (Scause_ExceptionCode c) = unat (Scause_ExceptionCode d)"
proof -
  have "c = d" if "bit c 63 = bit d 63" "take_bit 63 c = take_bit 63 d"
  proof (rule bit_word_eqI)
    fix n assume "n < LENGTH(64)"
    then show "bit c n = bit d n"
      using that bit_take_bit_iff [of 63 c n] bit_take_bit_iff [of 63 d n] by (cases "n = 63") auto
  qed
  then show ?thesis by (auto simp: Scause_Interrupt_def Scause_ExceptionCode_def word_unat_eq_iff [symmetric])
qed

interpretation riscv: handler_table riscv_ok riscv_valid riscv_RegisterInterruptFunc riscv_Do
  "\<lambda>c h x. h (Scause_ExceptionCode c) x"
  by unfold_locales
    (auto simp: riscv_ok_def riscv_valid_def riscv_RegisterInterruptFunc_def riscv_Do_def nk_assert_msg_def Let_def
      cause_parts nth_list_update split: if_splits)

interpretation x86: handler_table "\<lambda>hs. length hs = kInterruptMaxCount_x86" "\<lambda>c. unat c < kInterruptMaxCount_x86"
  x86_RegisterInterruptFunc x86_Do "\<lambda>c h x. h c x"
  by unfold_locales
    (auto simp: x86_RegisterInterruptFunc_def x86_Do_def nth_list_update word_unat_eq_iff)

interpretation arm: handler_table "\<lambda>hs. length hs = kMaxInterrupt" "\<lambda>c. unat c < kMaxInterrupt"
  "\<lambda>c h. arm_RegisterInterruptFunc c (Some h)" arm_Do
  "\<lambda>c h cg. case cg of (x, g) \<Rightarrow> obind (h c x) (\<lambda>x. Done (x, g\<lparr>gh_eoir1 := gh_eoir1 g @ [c]\<rparr>))"
  by unfold_locales
    (auto simp: arm_RegisterInterruptFunc_def arm_Do_def nth_list_update word_unat_eq_iff)

lemma tables_start:
  "riscv_ok riscv_Interrupt" "length x86_Interrupt = kInterruptMaxCount_x86"
  by (simp_all add: riscv_ok_def riscv_Interrupt_def x86_Interrupt_def)

lemma riscv_default:
  "riscv_valid d \<Longrightarrow> riscv_Do d x riscv_Interrupt = (if Scause_Interrupt d then Done x else Fault LoopForever)"
  by (auto simp: riscv_Do_def riscv_Interrupt_def riscv_valid_def Let_def split: if_splits)

text \<open>
  On RISC-V every distinct list of valid causes can be registered, and then each of them runs
  its own handler; an exception without a handler stops the core, an interrupt without one is
  ignored.
\<close>

lemma riscv_register_all:
  assumes "list_all riscv_valid (map fst chs)" "distinct (map fst chs)"
  shows "\<exists>t. riscv.reg_all chs riscv_Interrupt = Done t \<and>
    (\<forall>c h x. (c, h) \<in> set chs \<longrightarrow> riscv_Do c x t = h (Scause_ExceptionCode c) x) \<and>
    (\<forall>d x. riscv_valid d \<longrightarrow> d \<notin> fst ` set chs \<longrightarrow>
       riscv_Do d x t = (if Scause_Interrupt d then Done x else Fault LoopForever))"
proof -
  obtain t where "riscv.reg_all chs riscv_Interrupt = Done t"
      "\<forall>c h x. (c, h) \<in> set chs \<longrightarrow> riscv_Do c x t = h (Scause_ExceptionCode c) x"
      "\<forall>d x. riscv_valid d \<longrightarrow> d \<notin> fst ` set chs \<longrightarrow> riscv_Do d x t = riscv_Do d x riscv_Interrupt"
    using riscv.reg_all_run [OF tables_start(1) assms] by blast
  then show ?thesis by (intro exI [of _ t]) (simp add: riscv_default)
qed

text \<open>A broadcast addresses every core but the sender.\<close>

lemma broadcast_mask_bits:
  assumes "core_count \<le> 64"
  shows "bit (broadcast_mask core_count current) i \<longleftrightarrow> i < core_count \<and> i \<noteq> current"
  using assms
proof (induction core_count)
  case (Suc n)
  then show ?case by (auto simp: broadcast_mask_def bit_or_iff bit_exp_iff)
qed (simp add: broadcast_mask_def)

lemma riscv_BroadcastIpi_result:
  assumes "core_count \<le> MAX_CORE_COUNT" "core_count \<noteq> 1"
  shows "riscv_BroadcastIpi sbi core_count current =
    (if sbi (broadcast_mask core_count current) then Inr () else Inl kIpiSendFailed)"
proof -
  have "broadcast_mask core_count current = take_bit 4 (broadcast_mask core_count current)"
    using assms(1) by (intro bit_word_eqI) (auto simp: broadcast_mask_bits bit_take_bit_iff MAX_CORE_COUNT_def)
  also have "\<dots> = broadcast_mask core_count current AND mask 4" by (rule take_bit_eq_mask)
  also have "\<dots> \<le> mask 4" by (rule word_and_le1)
  finally show ?thesis
    using assms(2) by (simp add: riscv_BroadcastIpi_def riscv_SendIpi_def MAX_CORE_COUNT_def mask_eq_exp_minus_1 not_less)
qed

end
