(* ===== verification/Byte_Memory.thy ===== *)
theory Byte_Memory
  imports Libc_String
begin

text \<open>
  Words in a byte memory: the little-endian loads and stores that the compiler makes of an access
  through a pointer to an integer, and the big-endian loads of the device tree.
\<close>

type_synonym u16 = "16 word"

primrec store_bytes :: "nat \<Rightarrow> u64 \<Rightarrow> u64 \<Rightarrow> mem \<Rightarrow> mem" where
  "store_bytes 0 a v m = m"
| "store_bytes (Suc n) a v m = store_bytes n (a + 1) (drop_bit 8 v) (m(a := ucast v))"

primrec load_bytes :: "nat \<Rightarrow> u64 \<Rightarrow> mem \<Rightarrow> u64" where
  "load_bytes 0 a m = 0"
| "load_bytes (Suc n) a m = ucast (m a) OR push_bit 8 (load_bytes n (a + 1) m)"

abbreviation store64 :: "u64 \<Rightarrow> u64 \<Rightarrow> mem \<Rightarrow> mem" where "store64 \<equiv> store_bytes 8"
abbreviation load64 :: "u64 \<Rightarrow> mem \<Rightarrow> u64" where "load64 \<equiv> load_bytes 8"

definition load32 :: "u64 \<Rightarrow> mem \<Rightarrow> u32" where "load32 a m = ucast (load_bytes 4 a m)"
definition load16 :: "u64 \<Rightarrow> mem \<Rightarrow> u16" where "load16 a m = ucast (load_bytes 2 a m)"

lemma load_bytes_numeral:
  "load_bytes (numeral k) a m = ucast (m a) OR push_bit 8 (load_bytes (pred_numeral k) (a + 1) m)"
  by (simp add: numeral_eq_Suc)

text \<open>The most significant byte first.\<close>

primrec load_be :: "nat \<Rightarrow> u64 \<Rightarrow> u64 \<Rightarrow> mem \<Rightarrow> u64" where
  "load_be 0 acc a m = acc"
| "load_be (Suc n) acc a m = load_be n (push_bit 8 acc OR ucast (m a)) (a + 1) m"

lemma store_bytes_other: "\<forall>i<n. x \<noteq> at a i \<Longrightarrow> store_bytes n a v m x = m x"
proof (induction n arbitrary: a v m)
  case (Suc n)
  have "x \<noteq> at (a + 1) i" if "i < n" for i using Suc.prems [rule_format, of "Suc i"] that by (simp add: at_Suc)
  moreover have "x \<noteq> a" using Suc.prems [rule_format, of 0] by simp
  ultimately show ?case using Suc.IH by simp
qed simp

lemma load_bytes_cong: "\<forall>i<n. m (at a i) = m' (at a i) \<Longrightarrow> load_bytes n a m = load_bytes n a m'"
proof (induction n arbitrary: a)
  case (Suc n)
  have "m (at (a + 1) i) = m' (at (a + 1) i)" if "i < n" for i
    using Suc.prems [rule_format, of "Suc i"] that by (simp add: at_Suc)
  moreover have "m a = m' a" using Suc.prems [rule_format, of 0] by simp
  ultimately show ?case using Suc.IH by simp
qed simp

lemma first_byte: "n < 2 ^ 63 \<Longrightarrow> \<forall>i<n. a \<noteq> at (a + 1) i"
  using at_inj [of 0 "Suc _" a] by (force simp: at_Suc)

lemma join_bytes: "ucast (ucast v :: u8) OR push_bit 8 (take_bit (8 * n) (drop_bit 8 v)) = take_bit (8 + 8 * n) (v :: u64)"
  by (rule bit_word_eqI) (auto simp: bit_simps)

lemma load_store:
  "n \<le> 8 \<Longrightarrow> load_bytes n a (store_bytes n a v m) = take_bit (8 * n) v"
proof (induction n arbitrary: a v m)
  case (Suc n)
  have "\<forall>i<n. a \<noteq> at (a + 1) i" using Suc.prems by (intro first_byte) simp
  then have "store_bytes n (a + 1) (drop_bit 8 v) (m(a := ucast v)) a = ucast v"
    by (simp add: store_bytes_other)
  then show ?case using Suc join_bytes [of v n] by simp
qed simp

lemma load64_store64: "load64 a (store64 a v m) = v"
  using load_store [of 8 a v m] by (simp add: take_bit_word_eq_self)

text \<open>Filled ranges.\<close>

lemma set_bytes_other: "\<forall>i<n. x \<noteq> at p i \<Longrightarrow> set_bytes n p v m x = m x"
proof (induction n arbitrary: p m)
  case (Suc n)
  have "x \<noteq> at (p + 1) i" if "i < n" for i using Suc.prems [rule_format, of "Suc i"] that by (simp add: at_Suc)
  moreover have "x \<noteq> p" using Suc.prems [rule_format, of 0] by simp
  ultimately show ?case using Suc.IH by simp
qed simp

lemma set_bytes_in: "n \<le> 2 ^ 63 \<Longrightarrow> i < n \<Longrightarrow> set_bytes n p v m (at p i) = v"
proof (induction n arbitrary: p m i)
  case (Suc n)
  show ?case
  proof (cases i)
    case 0
    have "\<forall>i<n. p \<noteq> at (p + 1) i" using Suc.prems(1) by (intro first_byte) simp
    then show ?thesis using 0 by (simp add: set_bytes_other)
  next
    case (Suc j)
    then show ?thesis using Suc.IH Suc.prems by (simp add: at_Suc)
  qed
qed simp

lemma at_at: "at (at p i) j = at p (i + j)"
  by (simp add: at_def)

end
