(* ===== verification/Kernel_Heap.thy ===== *)
theory Kernel_Heap
  imports Byte_Memory Page_Range
begin

text \<open>
  The heap of the kernel: \<open>src/src/memory.cpp\<close> over the front end \<open>Bmalloc\<close> of
  \<open>src/3rd/bmalloc/src/include/bmalloc.hpp\<close>, whose allocator is \<open>BumpAllocator\<close> of \<open>bump.hpp\<close>. It hands out
  memory by moving a pointer and never takes any back.
\<close>

record BumpAllocator =
  ba_start_addr :: u64
  ba_length :: size_t
  ba_free_count :: size_t
  ba_used_count :: size_t
  ba_current :: u64
  ba_end :: u64

definition new_BumpAllocator :: "u64 \<Rightarrow> size_t \<Rightarrow> BumpAllocator" where
  "new_BumpAllocator start_addr bytes =
    \<lparr>ba_start_addr = start_addr, ba_length = bytes, ba_free_count = bytes, ba_used_count = 0,
     ba_current = start_addr, ba_end = start_addr + bytes\<rparr>"

text \<open>\<open>alignof(max_align_t)\<close> is 16 on the three ports.\<close>

definition max_align :: u64 where "max_align = 16"

definition align_up :: "u64 \<Rightarrow> u64 \<Rightarrow> u64" where
  "align_up v a = (v + (a - 1)) AND NOT (a - 1)"

definition Bump_AllocImpl :: "size_t \<Rightarrow> BumpAllocator \<Rightarrow> u64 \<times> BumpAllocator" where
  "Bump_AllocImpl bytes b =
    (if bytes = 0 then (0, b)
     else let cur = align_up (ba_current b) max_align;
              nxt = cur + bytes in
          if nxt > ba_end b then (0, b)
          else (cur, b\<lparr>ba_current := nxt, ba_used_count := nxt - ba_start_addr b,
                 ba_free_count := (if ba_end b > nxt then ba_end b - nxt else 0)\<rparr>))"

definition Bump_FreeImpl :: "u64 \<Rightarrow> size_t \<Rightarrow> BumpAllocator \<Rightarrow> BumpAllocator" where
  "Bump_FreeImpl addr len b = b"

definition Bump_AllocSizeImpl :: "u64 \<Rightarrow> BumpAllocator \<Rightarrow> size_t" where
  "Bump_AllocSizeImpl addr b = 0"

text \<open>\<open>Alloc\<close> and \<open>Free\<close> of \<open>AllocatorBase\<close> take the lock \<open>LockBase\<close>, whose operations do nothing.\<close>

definition Alloc :: "size_t \<Rightarrow> BumpAllocator \<Rightarrow> u64 \<times> BumpAllocator" where
  "Alloc len b = Bump_AllocImpl len b"

definition Free :: "u64 \<Rightarrow> size_t \<Rightarrow> BumpAllocator \<Rightarrow> BumpAllocator" where
  "Free addr len b = Bump_FreeImpl addr len b"

definition AllocSize :: "u64 \<Rightarrow> BumpAllocator \<Rightarrow> size_t" where
  "AllocSize addr b = Bump_AllocSizeImpl addr b"

subsection \<open>Bmalloc\<close>

type_synonym bheap = "BumpAllocator \<times> mem"

definition Bmalloc_malloc :: "size_t \<Rightarrow> bheap \<Rightarrow> u64 \<times> bheap" where
  "Bmalloc_malloc sz h = (if sz = 0 then (0, h)
     else case Alloc sz (fst h) of (ptr, b) \<Rightarrow> (ptr, (b, snd h)))"

definition Bmalloc_calloc :: "size_t \<Rightarrow> size_t \<Rightarrow> bheap \<Rightarrow> u64 \<times> bheap" where
  "Bmalloc_calloc num sz h =
    (if num = 0 \<or> sz = 0 then (0, h)
     else if num > (- 1) div sz then (0, h)
     else let total_size = num * sz in
          case Alloc total_size (fst h) of (ptr, b) \<Rightarrow>
            if ptr \<noteq> 0 then (ptr, (b, snd (memset ptr 0 total_size (snd h)))) else (ptr, (b, snd h)))"

definition Bmalloc_realloc :: "u64 \<Rightarrow> size_t \<Rightarrow> bheap \<Rightarrow> u64 \<times> bheap" where
  "Bmalloc_realloc ptr new_size h =
    (if ptr = 0 then (case Alloc new_size (fst h) of (p, b) \<Rightarrow> (p, (b, snd h)))
     else if new_size = 0 then (0, (Free ptr 0 (fst h), snd h))
     else let old_size = AllocSize ptr (fst h) in
       if old_size = 0 then (0, h)
       else if new_size \<le> old_size \<and> old_size - new_size < old_size div 2 then (ptr, h)
       else case Alloc new_size (fst h) of (new_ptr, b) \<Rightarrow>
         if new_ptr = 0 then (0, (b, snd h))
         else let copy_size = (if old_size < new_size then old_size else new_size) in
              (new_ptr, (Free ptr 0 b, snd (memcpy new_ptr ptr copy_size (snd h)))))"

definition Bmalloc_free :: "u64 \<Rightarrow> bheap \<Rightarrow> bheap" where
  "Bmalloc_free ptr h = (if ptr = 0 then h else (Free ptr 0 (fst h), snd h))"

definition Bmalloc_aligned_alloc :: "size_t \<Rightarrow> size_t \<Rightarrow> bheap \<Rightarrow> u64 \<times> bheap" where
  "Bmalloc_aligned_alloc alignment sz h =
    (if alignment = 0 \<or> alignment AND (alignment - 1) \<noteq> 0 then (0, h)
     else if sz = 0 then (0, h)
     else let extra_offset = alignment - 1 + 8 in
       case Alloc (sz + extra_offset) (fst h) of (original_ptr, b) \<Rightarrow>
         if original_ptr = 0 then (0, (b, snd h))
         else let aligned_addr = (original_ptr + extra_offset) AND NOT (alignment - 1) in
              (aligned_addr, (b, store64 (aligned_addr - 8) original_ptr (snd h))))"

definition Bmalloc_aligned_free :: "u64 \<Rightarrow> bheap \<Rightarrow> bheap" where
  "Bmalloc_aligned_free ptr h =
    (if ptr = 0 then h
     else let original_ptr = load64 (ptr - 8) (snd h) in
       if original_ptr = 0 then h else (Free original_ptr 0 (fst h), snd h))"

definition Bmalloc_malloc_size :: "u64 \<Rightarrow> bheap \<Rightarrow> size_t" where
  "Bmalloc_malloc_size ptr h = (if ptr = 0 then 0 else AllocSize ptr (fst h))"

definition Bmalloc_aligned_malloc_size :: "u64 \<Rightarrow> bheap \<Rightarrow> size_t" where
  "Bmalloc_aligned_malloc_size ptr h =
    (if ptr = 0 then 0
     else let original_ptr = load64 (ptr - 8) (snd h) in
       if original_ptr = 0 then 0 else AllocSize original_ptr (fst h))"

subsection \<open>The C interface\<close>

text \<open>\<open>allocator\<close> is null until \<open>MemoryInit\<close> has set it.\<close>

record heap =
  h_allocator :: "BumpAllocator option"
  h_mem :: mem

definition with_allocator :: "(bheap \<Rightarrow> 'a \<times> bheap) \<Rightarrow> 'a \<Rightarrow> heap \<Rightarrow> 'a \<times> heap" where
  "with_allocator f none h = (case h_allocator h of None \<Rightarrow> (none, h)
     | Some b \<Rightarrow> (case f (b, h_mem h) of (r, (b, m)) \<Rightarrow> (r, h\<lparr>h_allocator := Some b, h_mem := m\<rparr>)))"

definition malloc :: "size_t \<Rightarrow> heap \<Rightarrow> u64 \<times> heap" where
  "malloc sz h = with_allocator (Bmalloc_malloc sz) 0 h"

definition free :: "u64 \<Rightarrow> heap \<Rightarrow> heap" where
  "free ptr h = snd (with_allocator (\<lambda>b. ((), Bmalloc_free ptr b)) () h)"

definition calloc :: "size_t \<Rightarrow> size_t \<Rightarrow> heap \<Rightarrow> u64 \<times> heap" where
  "calloc num sz h = with_allocator (Bmalloc_calloc num sz) 0 h"

definition realloc :: "u64 \<Rightarrow> size_t \<Rightarrow> heap \<Rightarrow> u64 \<times> heap" where
  "realloc ptr new_size h = with_allocator (Bmalloc_realloc ptr new_size) 0 h"

definition aligned_alloc :: "size_t \<Rightarrow> size_t \<Rightarrow> heap \<Rightarrow> u64 \<times> heap" where
  "aligned_alloc alignment sz h = with_allocator (Bmalloc_aligned_alloc alignment sz) 0 h"

definition aligned_free :: "u64 \<Rightarrow> heap \<Rightarrow> heap" where
  "aligned_free ptr h = snd (with_allocator (\<lambda>b. ((), Bmalloc_aligned_free ptr b)) () h)"

subsection \<open>Alignment\<close>

lemma unat_align_down:
  fixes x :: u64
  assumes "k < 64"
  shows "unat (x AND NOT (2 ^ k - 1)) = unat x div 2 ^ k * 2 ^ k"
proof -
  have "x AND NOT (2 ^ k - 1) = push_bit k (drop_bit k x)"
    by (rule bit_word_eqI) (auto simp: bit_simps mask_eq_exp_minus_1 [symmetric])
  moreover have "unat (push_bit k (drop_bit k x)) = unat x div 2 ^ k * 2 ^ k"
  proof -
    have x: "unat x < 2 ^ 64" using unsigned_less [of x, where 'a = nat] by simp
    have "unat x div 2 ^ k * 2 ^ k \<le> unat x" by simp
    then have "unat x div 2 ^ k * 2 ^ k < 2 ^ 64" using x by (rule le_less_trans)
    with x show ?thesis
      unfolding unsigned_push_bit_eq unsigned_drop_bit_eq
      by (simp add: push_bit_eq_mult drop_bit_eq_div take_bit_nat_eq_self)
  qed
  ultimately show ?thesis by simp
qed

lemma power_of_two: "k < 64 \<Longrightarrow> (2 :: u64) ^ k \<noteq> 0" "(2 :: u64) ^ k AND (2 ^ k - 1) = 0"
proof -
  assume k: "k < 64"
  have "bit ((2 :: u64) ^ k) k" using k by (simp add: bit_exp_iff)
  then show "(2 :: u64) ^ k \<noteq> 0" using k by auto
next
  show "(2 :: u64) ^ k AND (2 ^ k - 1) = 0"
    by (rule bit_word_eqI) (auto simp: bit_simps mask_eq_exp_minus_1 [symmetric])
qed

lemma round_up_bounds:
  fixes v s :: nat
  shows "(v + (s - 1)) div s * s \<le> v + (s - 1)" "0 < s \<Longrightarrow> v \<le> (v + (s - 1)) div s * s"
proof -
  show "(v + (s - 1)) div s * s \<le> v + (s - 1)" by simp
  assume "0 < s"
  then have "(v + (s - 1)) mod s \<le> s - 1" by (simp add: less_Suc_eq_le [symmetric])
  moreover have "(v + (s - 1)) div s * s + (v + (s - 1)) mod s = v + (s - 1)" by (rule div_mult_mod_eq)
  ultimately show "v \<le> (v + (s - 1)) div s * s" by linarith
qed

lemma align_up_16:
  assumes "unat v + 15 < 2 ^ 64"
  shows "unat (align_up v max_align) mod 16 = 0" "unat v \<le> unat (align_up v max_align)"
    "unat (align_up v max_align) \<le> unat v + 15"
proof -
  have "unat (v + 15) = unat v + 15" using assms by (simp add: unat_word_ariths)
  then have u: "unat (align_up v max_align) = (unat v + (16 - 1)) div 16 * 16"
    using unat_align_down [of 4 "v + 15"] by (simp add: align_up_def max_align_def)
  show "unat (align_up v max_align) mod 16 = 0" unfolding u by simp
  show "unat v \<le> unat (align_up v max_align)" "unat (align_up v max_align) \<le> unat v + 15"
    unfolding u using round_up_bounds [where v = "unat v" and s = 16] by simp_all
qed

subsection \<open>The allocator\<close>

definition bump_ok :: "BumpAllocator \<Rightarrow> bool" where
  "bump_ok b \<longleftrightarrow> ba_start_addr b \<noteq> 0 \<and> ba_start_addr b \<le> ba_current b \<and> ba_current b \<le> ba_end b \<and> unat (ba_end b) \<le> 2 ^ 62"

lemma Alloc_result:
  assumes "bump_ok b" "unat n \<le> 2 ^ 62" "Alloc n b = (p, b')"
  shows "bump_ok b'" "ba_end b' = ba_end b" "ba_start_addr b' = ba_start_addr b"
    "p = 0 \<and> b' = b \<or> p \<noteq> 0 \<and> unat p mod 16 = 0 \<and> unat (ba_current b) \<le> unat p \<and> unat p + unat n = unat (ba_current b')"
proof -
  define cur where "cur = align_up (ba_current b) max_align"
  have c: "unat (ba_current b) \<le> 2 ^ 62" "unat (ba_start_addr b) \<le> unat (ba_current b)" "0 < unat (ba_start_addr b)"
    using assms(1) by (auto simp: bump_ok_def word_le_nat_alt unat_gt_0)
  then have a: "unat cur mod 16 = 0" "unat (ba_current b) \<le> unat cur" "unat cur \<le> unat (ba_current b) + 15"
    using align_up_16 [of "ba_current b"] by (simp_all add: cur_def)
  have u: "unat (cur + n) = unat cur + unat n" using c(1) a(3) assms(2) by (simp add: unat_word_ariths)
  have nz: "cur \<noteq> 0" using a(2) c(2,3) by auto
  have s: "ba_start_addr b \<le> cur + n" using c(2) a(2) u by (simp add: word_le_nat_alt)
  show "bump_ok b'" "ba_end b' = ba_end b" "ba_start_addr b' = ba_start_addr b"
    using assms(1,3) s by (auto simp: Alloc_def Bump_AllocImpl_def bump_ok_def Let_def cur_def [symmetric] not_less split: if_splits)
  show "p = 0 \<and> b' = b \<or> p \<noteq> 0 \<and> unat p mod 16 = 0 \<and> unat (ba_current b) \<le> unat p \<and> unat p + unat n = unat (ba_current b')"
    using assms(3) a nz u by (auto simp: Alloc_def Bump_AllocImpl_def Let_def cur_def [symmetric] split: if_splits)
qed


lemma Bump_null: "Bump_AllocImpl n b = (0, b') \<Longrightarrow> bump_ok b \<Longrightarrow> b' = b"
proof -
  assume a: "Bump_AllocImpl n b = (0, b')" "bump_ok b"
  then have "unat (ba_current b) \<le> 2 ^ 62" "unat (ba_start_addr b) \<le> unat (ba_current b)" "0 < unat (ba_start_addr b)"
    by (auto simp: bump_ok_def word_le_nat_alt unat_gt_0)
  then have "align_up (ba_current b) max_align \<noteq> 0" using align_up_16(2) [of "ba_current b"] by auto
  with a(1) show ?thesis by (auto simp: Bump_AllocImpl_def Let_def split: if_splits)
qed

lemma aligned_split:
  assumes "k \<le> 32" "unat n \<le> 2 ^ 60" "bump_ok b" "Alloc (n + (2 ^ k - 1 + 8)) b = (q, b')" "q \<noteq> 0"
    "p = (q + (2 ^ k - 1 + 8)) AND NOT (2 ^ k - 1)"
  shows "unat p mod 2 ^ k = 0" "unat q + 8 \<le> unat p" "unat p + unat n \<le> unat (ba_current b')" "unat (ba_current b) \<le> unat q"
    "bump_ok b'" "ba_end b' = ba_end b"
proof -
  have k: "k < 64" using assms(1) by simp
  have two: "(2 :: nat) ^ k \<le> 2 ^ 32" using assms(1) by (intro power_increasing) auto
  have e: "unat (2 ^ k - 1 + 8 :: u64) = 2 ^ k + 7"
  proof -
    have "unat (of_nat (2 ^ k) :: u64) = take_bit 64 (2 ^ k)" by (simp only: unsigned_of_nat) simp
    also have "\<dots> = 2 ^ k" using two by (intro take_bit_nat_eq_self) simp
    finally have "unat ((2 :: u64) ^ k) = 2 ^ k" by simp
    moreover have "(2 ^ k - 1 + 8 :: u64) = 2 ^ k + 7" by simp
    ultimately show ?thesis using two by (simp add: unat_word_ariths)
  qed
  have sz: "unat (n + (2 ^ k - 1 + 8)) = unat n + 2 ^ k + 7"
    using e two assms(2) by (simp add: unat_word_ariths)
  have le: "unat (n + (2 ^ k - 1 + 8)) \<le> 2 ^ 62" unfolding sz using two assms(2) by simp
  note r = Alloc_result [OF assms(3) le assms(4)]
  show "bump_ok b'" "ba_end b' = ba_end b" using r by simp_all
  have c: "unat (ba_current b) \<le> unat q" "unat q + (unat n + 2 ^ k + 7) = unat (ba_current b')"
    using r(4) assms(5) unfolding sz by auto
  show "unat (ba_current b) \<le> unat q" by (rule c(1))
  have top: "unat (ba_current b') \<le> 2 ^ 62" using r(1) by (auto simp: bump_ok_def word_le_nat_alt)
  have "unat (q + (2 ^ k - 1 + 8)) = unat q + (2 ^ k + 7)" using e c(2) top by (simp add: unat_word_ariths)
  then have p: "unat p = (unat q + 8 + (2 ^ k - 1)) div 2 ^ k * 2 ^ k"
    using unat_align_down [OF k, of "q + (2 ^ k - 1 + 8)"] assms(6) by (simp add: algebra_simps)
  have "unat q + 8 \<le> unat p" "unat p \<le> unat q + 8 + (2 ^ k - 1)" "unat p mod 2 ^ k = 0"
    unfolding p using round_up_bounds [where v = "unat q + 8" and s = "2 ^ k"] by simp_all
  then show "unat p mod 2 ^ k = 0" "unat q + 8 \<le> unat p" "unat p + unat n \<le> unat (ba_current b')"
    using c(2) by (simp_all add: algebra_simps)
qed

subsection \<open>Blocks do not overlap\<close>

text \<open>The calls of the C interface; \<open>Aligned k n\<close> is \<open>aligned_alloc (2 ^ k, n)\<close>.\<close>

datatype request = Malloc size_t | Calloc size_t size_t | Realloc u64 size_t | Aligned nat size_t | FreeBlock u64 | FreeAligned u64

primrec serve :: "request \<Rightarrow> heap \<Rightarrow> u64 \<times> heap" where
  "serve (Malloc n) h = malloc n h"
| "serve (Calloc k n) h = calloc k n h"
| "serve (Realloc p n) h = realloc p n h"
| "serve (Aligned k n) h = aligned_alloc (2 ^ k) n h"
| "serve (FreeBlock p) h = (0, free p h)"
| "serve (FreeAligned p) h = (0, aligned_free p h)"

primrec wanted :: "request \<Rightarrow> nat" where
  "wanted (Malloc n) = unat n"
| "wanted (Calloc k n) = unat k * unat n"
| "wanted (Realloc p n) = unat n"
| "wanted (Aligned k n) = unat n"
| "wanted (FreeBlock p) = 0"
| "wanted (FreeAligned p) = 0"

primrec sensible :: "request \<Rightarrow> bool" where
  "sensible (Malloc n) \<longleftrightarrow> unat n \<le> 2 ^ 60"
| "sensible (Calloc k n) \<longleftrightarrow> unat k * unat n \<le> 2 ^ 60"
| "sensible (Realloc p n) \<longleftrightarrow> unat n \<le> 2 ^ 60"
| "sensible (Aligned k n) \<longleftrightarrow> k \<le> 32 \<and> unat n \<le> 2 ^ 60"
| "sensible (FreeBlock p) \<longleftrightarrow> True"
| "sensible (FreeAligned p) \<longleftrightarrow> True"

text \<open>The blocks that a sequence of calls has returned, with the sizes asked for.\<close>

primrec serve_all :: "request list \<Rightarrow> heap \<Rightarrow> (u64 \<times> nat) list \<times> heap" where
  "serve_all [] h = ([], h)"
| "serve_all (r # rs) h = (case serve r h of (p, h1) \<Rightarrow> case serve_all rs h1 of (bs, h2) \<Rightarrow>
     (if p = 0 then bs else (p, wanted r) # bs, h2))"

definition heap_ready :: "BumpAllocator \<Rightarrow> heap \<Rightarrow> bool" where
  "heap_ready b h \<longleftrightarrow> h_allocator h = Some b \<and> bump_ok b"

definition placed :: "u64 \<Rightarrow> nat \<Rightarrow> BumpAllocator \<Rightarrow> BumpAllocator \<Rightarrow> bool" where
  "placed p n b b' \<longleftrightarrow> unat (ba_current b) \<le> unat p \<and> unat p + n \<le> unat (ba_current b')"

lemma below_at: "unat x < unat p \<Longrightarrow> unat p + n \<le> 2 ^ 62 \<Longrightarrow> \<forall>i<n. x \<noteq> at p i"
  using unat_at [of p] by fastforce

lemma Alloc_placed:
  assumes "bump_ok b" "unat n \<le> 2 ^ 62" "Alloc n b = (p, b')"
  shows "bump_ok b' \<and> unat (ba_current b) \<le> unat (ba_current b') \<and> ba_end b' = ba_end b \<and> (p = 0 \<or> placed p (unat n) b b')"
  using Alloc_result [OF assms] by (auto simp: placed_def)

definition served :: "nat \<Rightarrow> BumpAllocator \<Rightarrow> mem \<Rightarrow> u64 \<Rightarrow> BumpAllocator \<Rightarrow> mem \<Rightarrow> bool" where
  "served n b m p b' m' \<longleftrightarrow> bump_ok b' \<and> unat (ba_current b) \<le> unat (ba_current b') \<and> ba_end b' = ba_end b \<and>
     (p = 0 \<or> placed p n b b') \<and> (\<forall>x. unat x < unat (ba_current b) \<longrightarrow> m' x = m x)"

lemma top_bound: "bump_ok b \<Longrightarrow> unat (ba_current b) \<le> 2 ^ 62"
  by (auto simp: bump_ok_def word_le_nat_alt)

lemma Bmalloc_malloc_served:
  "bump_ok b \<Longrightarrow> unat n \<le> 2 ^ 60 \<Longrightarrow> Bmalloc_malloc n (b, m) = (p, (b', m')) \<Longrightarrow> served (unat n) b m p b' m'"
  using Alloc_placed [of b n] by (auto simp: Bmalloc_malloc_def served_def split: if_splits prod.splits)

lemma Bmalloc_realloc_served:
  "bump_ok b \<Longrightarrow> unat n \<le> 2 ^ 60 \<Longrightarrow> Bmalloc_realloc q n (b, m) = (p, (b', m')) \<Longrightarrow> served (unat n) b m p b' m'"
  using Alloc_placed [of b n]
  by (auto simp: Bmalloc_realloc_def AllocSize_def Bump_AllocSizeImpl_def Free_def Bump_FreeImpl_def served_def
      split: if_splits prod.splits)

lemma Bmalloc_calloc_served:
  assumes "bump_ok b" "unat k * unat n \<le> 2 ^ 60" "Bmalloc_calloc k n (b, m) = (p, (b', m'))"
  shows "served (unat k * unat n) b m p b' m'"
proof -
  have u: "unat (k * n) = unat k * unat n" using assms(2) by (simp add: unat_word_ariths)
  obtain q b1 where al: "Alloc (k * n) b = (q, b1)" by (cases "Alloc (k * n) b")
  have P: "bump_ok b1 \<and> unat (ba_current b) \<le> unat (ba_current b1) \<and> ba_end b1 = ba_end b \<and>
      (q = 0 \<or> placed q (unat k * unat n) b b1)"
    using Alloc_placed [OF assms(1) _ al] assms(2) u by simp
  have "set_bytes (unat k * unat n) q 0 m x = m x" if "unat x < unat (ba_current b)" "q \<noteq> 0" for x
    by (rule set_bytes_other, rule below_at) (use P that top_bound [of b1] in \<open>auto simp: placed_def\<close>)
  then show ?thesis
    using assms(1,3) al P u by (auto simp: Bmalloc_calloc_def memset_def served_def Let_def split: if_splits)
qed

lemma Bmalloc_aligned_served:
  assumes "bump_ok b" "k \<le> 32" "unat n \<le> 2 ^ 60" "Bmalloc_aligned_alloc (2 ^ k) n (b, m) = (p, (b', m'))"
  shows "served (unat n) b m p b' m' \<and> (p \<noteq> 0 \<longrightarrow> unat p mod 2 ^ k = 0)"
proof -
  define e :: u64 where "e = 2 ^ k - 1 + 8"
  obtain q b1 where al: "Alloc (n + e) b = (q, b1)" by (cases "Alloc (n + e) b")
  have two: "(2 :: u64) ^ k \<noteq> 0" using power_of_two(1) [of k] assms(2) by simp
  consider "n = 0" | "n \<noteq> 0" "q = 0" | "n \<noteq> 0" "q \<noteq> 0" by blast
  then show ?thesis
  proof cases
    case 1
    then show ?thesis using assms(1,4) two power_of_two(2) [of k]
      by (auto simp: Bmalloc_aligned_alloc_def served_def)
  next
    case 2
    then have "p = 0" "b' = b1" "m' = m" using assms(4) two power_of_two(2) [of k] al
      by (auto simp: Bmalloc_aligned_alloc_def e_def Let_def)
    moreover have "b1 = b"
      using al 2(2) assms(1,2,3) Bump_null [of "n + e" b b1] by (simp add: Alloc_def)
    ultimately show ?thesis using assms(1) by (simp add: served_def)
  next
    case 3
    then have p: "p = (q + e) AND NOT (2 ^ k - 1)" "b' = b1" "m' = store64 (p - 8) q m"
      using assms(4) two power_of_two(2) [of k] al by (auto simp: Bmalloc_aligned_alloc_def e_def Let_def)
    note s = aligned_split [OF assms(2,3,1) al [unfolded e_def] 3(2) p(1) [unfolded e_def]]
    have "unat (p - 8) = unat p - 8" using s(2) by (simp add: unat_sub word_le_nat_alt)
    then have "m' x = m x" if "unat x < unat (ba_current b)" for x
      unfolding p(3) using s top_bound [OF s(5)] that
      by (intro store_bytes_other below_at) auto
    then show ?thesis using s p(2) by (auto simp: served_def placed_def)
  qed
qed

lemma serve_served:
  assumes "heap_ready b h" "sensible r" "serve r h = (p, h')"
  shows "\<exists>b'. heap_ready b' h' \<and> served (wanted r) b (h_mem h) p b' (h_mem h')"
proof -
  have b: "h_allocator h = Some b" "bump_ok b" using assms(1) by (simp_all add: heap_ready_def)
  have keep: "served (wanted r) b (h_mem h) 0 b (h_mem h)" using b(2) by (simp add: served_def)
  have lift: "\<exists>b'. heap_ready b' h' \<and> served n b (h_mem h) p b' (h_mem h')"
    if "with_allocator f 0 h = (p, h')" "\<And>q b' m'. f (b, h_mem h) = (q, (b', m')) \<Longrightarrow> served n b (h_mem h) q b' m'" for f n
  proof -
    obtain q b' m' where f: "f (b, h_mem h) = (q, (b', m'))" by (metis prod_cases3)
    then have "p = q" "h' = h\<lparr>h_allocator := Some b', h_mem := m'\<rparr>" using that(1) b(1) by (simp_all add: with_allocator_def)
    then show ?thesis using that(2) [OF f] by (auto simp: heap_ready_def served_def)
  qed
  show ?thesis
  proof (cases r)
    case (Malloc n)
    then show ?thesis using assms(2,3) lift [of "Bmalloc_malloc n" "unat n"] Bmalloc_malloc_served [OF b(2)]
      by (auto simp: malloc_def)
  next
    case (Calloc k n)
    then show ?thesis using assms(2,3) lift [of "Bmalloc_calloc k n" "unat k * unat n"] Bmalloc_calloc_served [OF b(2)]
      by (auto simp: calloc_def)
  next
    case (Realloc q n)
    then show ?thesis using assms(2,3) lift [of "Bmalloc_realloc q n" "unat n"] Bmalloc_realloc_served [OF b(2)]
      by (auto simp: realloc_def)
  next
    case (Aligned k n)
    then show ?thesis using assms(2,3) lift [of "Bmalloc_aligned_alloc (2 ^ k) n" "unat n"] Bmalloc_aligned_served [OF b(2)]
      by (auto simp: aligned_alloc_def)
  next
    case (FreeBlock q)
    then have "p = 0" "h' = h" using assms(3) b(1)
      by (auto simp: free_def with_allocator_def Bmalloc_free_def Free_def Bump_FreeImpl_def)
    then show ?thesis using keep assms(1) by auto
  next
    case (FreeAligned q)
    then have "p = 0" "h' = h" using assms(3) b(1)
      by (auto simp: aligned_free_def with_allocator_def Bmalloc_aligned_free_def Free_def Bump_FreeImpl_def Let_def)
    then show ?thesis using keep assms(1) by auto
  qed
qed

text \<open>Blocks in the order of their addresses, each behind the end of the one before.\<close>

fun blocks_from :: "nat \<Rightarrow> (u64 \<times> nat) list \<Rightarrow> nat \<Rightarrow> bool" where
  "blocks_from lo [] hi \<longleftrightarrow> lo \<le> hi"
| "blocks_from lo ((p, n) # bs) hi \<longleftrightarrow> lo \<le> unat p \<and> blocks_from (unat p + n) bs hi"

lemma blocks_from_mono: "blocks_from lo bs hi \<Longrightarrow> lo' \<le> lo \<Longrightarrow> blocks_from lo' bs hi"
  by (cases "(lo, bs, hi)" rule: blocks_from.cases) auto

lemma blocks_from_end: "blocks_from lo bs hi \<Longrightarrow> hi \<le> hi' \<Longrightarrow> blocks_from lo bs hi'"
  by (induction lo bs hi rule: blocks_from.induct) auto

lemma serve_all_blocks:
  assumes "heap_ready b h" "list_all sensible rs" "serve_all rs h = (bs, h')"
  shows "\<exists>b'. heap_ready b' h' \<and> ba_end b' = ba_end b \<and> blocks_from (unat (ba_current b)) bs (unat (ba_current b')) \<and>
    unat (ba_current b) \<le> unat (ba_current b') \<and> (\<forall>x. unat x < unat (ba_current b) \<longrightarrow> h_mem h' x = h_mem h x)"
  using assms
proof (induction rs arbitrary: b h bs h')
  case (Cons r rs)
  obtain p h1 where s: "serve r h = (p, h1)" by (cases "serve r h")
  obtain bs1 h2 where t: "serve_all rs h1 = (bs1, h2)" by (cases "serve_all rs h1")
  obtain b1 where 1: "heap_ready b1 h1" "served (wanted r) b (h_mem h) p b1 (h_mem h1)"
    using serve_served [OF Cons.prems(1) _ s] Cons.prems(2) by auto
  obtain b2 where 2: "heap_ready b2 h2" "ba_end b2 = ba_end b1" "blocks_from (unat (ba_current b1)) bs1 (unat (ba_current b2))"
      "unat (ba_current b1) \<le> unat (ba_current b2)" "\<forall>x. unat x < unat (ba_current b1) \<longrightarrow> h_mem h2 x = h_mem h1 x"
    using Cons.IH [OF 1(1) _ t] Cons.prems(2) by fastforce
  have "bs = (if p = 0 then bs1 else (p, wanted r) # bs1)" "h' = h2"
    using Cons.prems(3) s t by (auto split: if_splits)
  moreover have "blocks_from (unat p + wanted r) bs1 (unat (ba_current b2))" if "p \<noteq> 0"
    using 1(2) 2(3) that by (auto simp: served_def placed_def intro: blocks_from_mono)
  moreover have "blocks_from (unat (ba_current b)) bs1 (unat (ba_current b2))"
    using 1(2) 2(3) by (auto simp: served_def intro: blocks_from_mono)
  ultimately show ?case
    using 1 2 by (intro exI [of _ b2]) (auto simp: served_def placed_def)
qed auto

text \<open>
  C8: the heap. Whatever sequence of allocation and release calls of sensible size is made after the
  allocator has been set up, the blocks it returns lie in its region, do not overlap, and are
  never handed out again; and a call changes no byte below the blocks it returns, so the contents
  of the earlier blocks stay.
\<close>

theorem heap_blocks_disjoint:
  assumes "s \<noteq> 0" "unat s + unat n \<le> 2 ^ 62" "list_all sensible (rs @ rs')"
    "serve_all rs \<lparr>h_allocator = Some (new_BumpAllocator s n), h_mem = m\<rparr> = (bs, h1)" "serve_all rs' h1 = (bs', h2)"
  shows "\<exists>mid \<le> unat s + unat n. blocks_from (unat s) bs mid \<and> blocks_from mid bs' (unat s + unat n) \<and>
    (\<forall>x. unat x < mid \<longrightarrow> h_mem h2 x = h_mem h1 x)"
proof -
  let ?b = "new_BumpAllocator s n"
  have u: "unat (s + n) = unat s + unat n" using assms(2) by (simp add: unat_word_ariths)
  have "heap_ready ?b \<lparr>h_allocator = Some ?b, h_mem = m\<rparr>"
    using assms(1,2) u by (simp add: heap_ready_def bump_ok_def new_BumpAllocator_def word_le_nat_alt)
  then obtain b1 where 1: "heap_ready b1 h1" "ba_end b1 = ba_end ?b" "blocks_from (unat (ba_current ?b)) bs (unat (ba_current b1))"
    using serve_all_blocks [OF _ _ assms(4), of ?b] assms(3) by auto
  obtain b2 where 2: "heap_ready b2 h2" "ba_end b2 = ba_end b1" "blocks_from (unat (ba_current b1)) bs' (unat (ba_current b2))"
      "unat (ba_current b1) \<le> unat (ba_current b2)" "\<forall>x. unat x < unat (ba_current b1) \<longrightarrow> h_mem h2 x = h_mem h1 x"
    using serve_all_blocks [OF 1(1) _ assms(5)] assms(3) by auto
  have e: "unat (ba_current b2) \<le> unat s + unat n"
    using 1(2) 2(1,2) u by (auto simp: heap_ready_def bump_ok_def word_le_nat_alt new_BumpAllocator_def)
  have "blocks_from (unat (ba_current b1)) bs' (unat s + unat n)" by (rule blocks_from_end [OF 2(3) e])
  then show ?thesis using 1(3) 2(4,5) e by (intro exI [of _ "unat (ba_current b1)"]) (auto simp: new_BumpAllocator_def)
qed

lemma heap_demo:
  "list_all sensible ([Malloc 100] @ [Aligned 12 4096])"
  by simp

theorem heap_blocks_disjoint_witness:
  "\<exists>mid \<le> 0x101000. blocks_from 0x1000 (fst (serve_all [Malloc 100] \<lparr>h_allocator = Some (new_BumpAllocator 0x1000 0x100000), h_mem = (\<lambda>_. 0)\<rparr>)) mid"
proof -
  let ?h = "\<lparr>h_allocator = Some (new_BumpAllocator 0x1000 0x100000), h_mem = (\<lambda>_. 0)\<rparr>"
  obtain bs h1 where 1: "serve_all [Malloc 100] ?h = (bs, h1)" by (cases "serve_all [Malloc 100] ?h")
  obtain bs' h2 where 2: "serve_all [Aligned 12 4096] h1 = (bs', h2)" by (cases "serve_all [Aligned 12 4096] h1")
  show ?thesis using heap_blocks_disjoint [OF _ _ heap_demo 1 2] 1 by auto
qed

text \<open>The pointer that \<open>aligned_free\<close> reads is the one the allocator returned.\<close>

lemma aligned_free_finds:
  assumes "Bmalloc_aligned_alloc a n (b, m) = (p, (b', m'))" "p \<noteq> 0" "Alloc (n + (a - 1 + 8)) b = (q, b1)" "n \<noteq> 0"
    "a \<noteq> 0" "a AND (a - 1) = 0"
  shows "load64 (p - 8) m' = q"
  using assms by (auto simp: Bmalloc_aligned_alloc_def Let_def load64_store64 split: if_splits)

text \<open>
  Requests close to \<open>2 ^ 64\<close> are not refused: the end of the block wraps around, and the pointer of
  the allocator moves back in front of its region, so that later blocks overlap earlier ones.
\<close>

lemma Alloc_wraps:
  "\<exists>b1 b2. Alloc (- 0x800) (new_BumpAllocator 0x1000 0x100000) = (0x1000, b1) \<and> Alloc 0x1000 b1 = (0x800, b2)"
  by (simp add: Alloc_def Bump_AllocImpl_def new_BumpAllocator_def align_up_def max_align_def Let_def)

text \<open>A block is never enlarged: \<open>realloc\<close> of a block returns null.\<close>

lemma realloc_fails: "p \<noteq> 0 \<Longrightarrow> fst (realloc p n h) = 0"
  by (auto simp: realloc_def with_allocator_def Bmalloc_realloc_def AllocSize_def Bump_AllocSizeImpl_def
      split: option.splits prod.splits if_splits)

subsection \<open>Page frames for the virtual memory\<close>

text \<open>
  The addresses that the next calls of \<open>aligned_alloc (kPageSize, kPageSize)\<close> return, up to the first
  failure or the given number of calls. They are what \<open>Virtual_Memory\<close> expects of its heap.
\<close>

primrec alloc_pages :: "nat \<Rightarrow> heap \<Rightarrow> u64 list" where
  "alloc_pages 0 h = []"
| "alloc_pages (Suc k) h = (case aligned_alloc kPageSize kPageSize h of (p, h1) \<Rightarrow>
     if p = 0 then [] else p # alloc_pages k h1)"

lemma aligned_page:
  assumes "heap_ready b h" "aligned_alloc kPageSize kPageSize h = (p, h')"
  shows "\<exists>b'. heap_ready b' h' \<and> ba_end b' = ba_end b \<and> unat (ba_current b) \<le> unat (ba_current b')
    \<and> (p \<noteq> 0 \<longrightarrow> unat p mod 4096 = 0 \<and> placed p 4096 b b')"
proof -
  have b: "h_allocator h = Some b" "bump_ok b" using assms(1) by (simp_all add: heap_ready_def)
  obtain q b' m' where f: "Bmalloc_aligned_alloc (2 ^ 12) 4096 (b, h_mem h) = (q, (b', m'))" by (metis prod_cases3)
  then have e: "p = q" "h' = h\<lparr>h_allocator := Some b', h_mem := m'\<rparr>"
    using assms(2) b(1) by (simp_all add: aligned_alloc_def with_allocator_def kPageSize_def)
  have "served (unat (4096 :: u64)) b (h_mem h) q b' m' \<and> (q \<noteq> 0 \<longrightarrow> unat q mod 2 ^ 12 = 0)"
    by (rule Bmalloc_aligned_served [OF b(2) _ _ f]) simp_all
  then show ?thesis using e by (intro exI [of _ b']) (auto simp: heap_ready_def served_def)
qed

lemma frame_addr_aligned:
  assumes "unat p mod 4096 = 0" "unat p < 2 ^ 52"
  shows "frame_addr p"
proof -
  have "take_bit 12 (unat p) = 0" "take_bit 52 (unat p) = unat p"
    using assms by (simp_all add: take_bit_eq_mod)
  then have t: "take_bit 12 p = 0" "take_bit 52 p = p"
    by (simp_all add: word_unat_eq_iff unsigned_take_bit_eq)
  have "12 \<le> n \<and> n < 52 \<and> n - 12 < 40" if "bit p n" for n
  proof -
    have "\<not> bit (take_bit 12 p) n" unfolding t(1) by simp
    moreover have "bit (take_bit 52 p) n" unfolding t(2) by (rule that)
    ultimately have "12 \<le> n" "n < 52" using that by (auto simp: bit_take_bit_iff)
    then show ?thesis by simp
  qed
  then show ?thesis unfolding frame_addr_def masks by (intro bit_word_eqI) (auto simp: entry_bits)
qed

lemma alloc_pages_frames:
  assumes "heap_ready b h" "unat (ba_end b) < 2 ^ 52"
  shows "distinct (alloc_pages k h) \<and> (\<forall>p\<in>set (alloc_pages k h). p \<noteq> 0 \<and> frame_addr p \<and> unat (ba_current b) \<le> unat p)"
  using assms
proof (induction k arbitrary: b h)
  case (Suc k)
  obtain p h1 where al: "aligned_alloc kPageSize kPageSize h = (p, h1)" by (cases "aligned_alloc kPageSize kPageSize h")
  obtain b1 where 1: "heap_ready b1 h1" "ba_end b1 = ba_end b" "unat (ba_current b) \<le> unat (ba_current b1)"
      "p \<noteq> 0 \<longrightarrow> unat p mod 4096 = 0 \<and> placed p 4096 b b1"
    using aligned_page [OF Suc.prems(1) al] by (elim exE conjE)
  have IH: "distinct (alloc_pages k h1)" "\<forall>q\<in>set (alloc_pages k h1). q \<noteq> 0 \<and> frame_addr q \<and> unat (ba_current b1) \<le> unat q"
    using Suc.IH [OF 1(1)] 1(2) Suc.prems(2) by auto
  have "unat (ba_current b1) < 2 ^ 52"
    using 1(1,2) Suc.prems(2) by (auto simp: heap_ready_def bump_ok_def word_le_nat_alt)
  then have "frame_addr p" "unat (ba_current b) \<le> unat p" "p \<notin> set (alloc_pages k h1)" if "p \<noteq> 0"
    using 1(4) that IH(2) by (auto simp: placed_def intro: frame_addr_aligned)
  then show ?case using al IH by (cases "p = 0") (auto intro: order_trans [OF 1(3)])
qed simp

lemma alloc_pages_heap_ok:
  assumes "heap_ready b h" "unat (ba_end b) < 2 ^ 52" "v_pages v = Map.empty" "v_alloc v = alloc_pages k h"
  shows "heap_ok v"
  using alloc_pages_frames [OF assms(1,2), of k] assms(3,4) by (auto simp: heap_ok_def)

end
