(* ===== verification/Kernel_Elf.thy ===== *)
theory Kernel_Elf
  imports Byte_Memory Kernel_Error
begin

text \<open>
  The parser of the kernel's own ELF image (\<open>src/src/kernel_elf.cpp\<close>).

  The image is a range of the byte memory; the structures of \<open>elf.h\<close> are read at the offsets of
  the ELF-64 object file format. A span is its address and its number of elements. The names
  \<open>.symtab\<close> and \<open>.strtab\<close> of the source are string literals, whose addresses are arguments.
\<close>

subsection \<open>Structures of the file format\<close>

record Elf64_Ehdr =
  e_entry :: u64
  e_phoff :: u64
  e_shoff :: u64
  e_phentsize :: u16
  e_phnum :: u16
  e_shentsize :: u16
  e_shnum :: u16
  e_shstrndx :: u16

definition read_Ehdr :: "u64 \<Rightarrow> mem \<Rightarrow> Elf64_Ehdr" where
  "read_Ehdr a m = \<lparr>e_entry = load64 (a + 24) m, e_phoff = load64 (a + 32) m, e_shoff = load64 (a + 40) m,
     e_phentsize = load16 (a + 54) m, e_phnum = load16 (a + 56) m, e_shentsize = load16 (a + 58) m,
     e_shnum = load16 (a + 60) m, e_shstrndx = load16 (a + 62) m\<rparr>"

record Elf64_Shdr =
  sh_name :: u32
  sh_offset :: u64
  sh_size :: u64

definition read_Shdr :: "u64 \<Rightarrow> mem \<Rightarrow> Elf64_Shdr" where
  "read_Shdr a m = \<lparr>sh_name = load32 a m, sh_offset = load64 (a + 24) m, sh_size = load64 (a + 32) m\<rparr>"

definition sizeof_Shdr :: u64 where "sizeof_Shdr = 64"
definition sizeof_Sym :: u64 where "sizeof_Sym = 24"
definition EI_NIDENT :: u64 where "EI_NIDENT = 16"

type_synonym span = "u64 \<times> u64"

text \<open>The section headers of a table of \<open>n\<close> entries.\<close>

definition section_headers :: "u64 \<Rightarrow> nat \<Rightarrow> mem \<Rightarrow> Elf64_Shdr list" where
  "section_headers a n m = map (\<lambda>i. read_Shdr (a + of_nat i * sizeof_Shdr) m) [0..<n]"

record KernelElf =
  symtab :: span
  strtab :: u64
  elf :: span
  ehdr :: Elf64_Ehdr
  phdr :: span
  shdr :: span

subsection \<open>Operations\<close>

definition CheckElfMagic :: "u64 \<Rightarrow> mem \<Rightarrow> unit Expected" where
  "CheckElfMagic a m =
     (if m a \<noteq> 0x7F \<or> m (a + 1) \<noteq> 0x45 \<or> m (a + 2) \<noteq> 0x4C \<or> m (a + 3) \<noteq> 0x46
      then Inl kElfInvalidMagic else Inr ())"

definition CheckElfClass :: "u64 \<Rightarrow> mem \<Rightarrow> unit Expected" where
  "CheckElfClass a m =
     (if m (a + 4) = 1 then Inl kElfUnsupported32Bit
      else if m (a + 4) \<noteq> 2 then Inl kElfInvalidClass
      else Inr ())"

definition CheckElfIdentity :: "u64 \<Rightarrow> mem \<Rightarrow> unit Expected" where
  "CheckElfIdentity a m = (case CheckElfMagic a m of Inl e \<Rightarrow> Inl e | Inr _ \<Rightarrow> CheckElfClass a m)"

text \<open>
  A product of two \<open>uint16_t\<close> is computed as \<open>int\<close> and extended with its sign when it is added to
  a \<open>uint64_t\<close>.
\<close>

definition table_bytes :: "u16 \<Rightarrow> u16 \<Rightarrow> u64" where
  "table_bytes n s = scast (ucast n * ucast s :: u32)"

definition grow :: "u64 \<Rightarrow> u64 \<Rightarrow> u64" where
  "grow max_size end = (if end > max_size then end else max_size)"

definition section_end :: "Elf64_Shdr \<Rightarrow> u64" where
  "section_end s = sh_offset s + sh_size s"

definition image_size :: "u64 \<Rightarrow> Elf64_Ehdr \<Rightarrow> mem \<Rightarrow> u64" where
  "image_size a eh m =
     (let max_size = EI_NIDENT;
          max_size = (if e_phoff eh \<noteq> 0 then grow max_size (e_phoff eh + table_bytes (e_phnum eh) (e_phentsize eh)) else max_size)
      in if e_shoff eh \<noteq> 0
         then fold (\<lambda>s max_size. grow max_size (section_end s)) (section_headers (a + e_shoff eh) (unat (e_shnum eh)) m)
                (grow max_size (e_shoff eh + table_bytes (e_shnum eh) (e_shentsize eh)))
         else max_size)"

text \<open>The search for the two tables; \<open>strcmp\<close> of a string without end does not return.\<close>

fun find_tables :: "u64 \<Rightarrow> u64 \<Rightarrow> u64 \<Rightarrow> u64 \<Rightarrow> Elf64_Shdr list \<Rightarrow> mem \<Rightarrow> span \<times> u64 \<Rightarrow> (span \<times> u64) outcome" where
  "find_tables a shstrtab lit_symtab lit_strtab [] m (syms, strs) = Done (syms, strs)"
| "find_tables a shstrtab lit_symtab lit_strtab (s # ss) m (syms, strs) =
     (let name = shstrtab + ucast (sh_name s) in
      case strcmp name lit_symtab m of
        None \<Rightarrow> Fault LoopForever
      | Some c1 \<Rightarrow>
          if c1 = 0 then find_tables a shstrtab lit_symtab lit_strtab ss m ((a + sh_offset s, sh_size s div sizeof_Sym), strs)
          else (case strcmp name lit_strtab m of
              None \<Rightarrow> Fault LoopForever
            | Some c2 \<Rightarrow>
                find_tables a shstrtab lit_symtab lit_strtab ss m (syms, if c2 = 0 then a + sh_offset s else strs)))"

definition new_KernelElf :: "u64 \<Rightarrow> u64 \<Rightarrow> u64 \<Rightarrow> mem \<Rightarrow> KernelElf outcome" where
  "new_KernelElf lit_symtab lit_strtab elf_addr m =
     nk_assert_msg (elf_addr \<noteq> 0) ''Invalid elf_addr'' (
     case CheckElfIdentity elf_addr m of
       Inl _ \<Rightarrow> Fault LoopForever
     | Inr _ \<Rightarrow>
         let eh = read_Ehdr elf_addr m;
             max_size = image_size elf_addr eh m;
             shdrs = section_headers (elf_addr + e_shoff eh) (unat (e_shnum eh)) m;
             shstrtab = elf_addr + sh_offset (read_Shdr (elf_addr + e_shoff eh + ucast (e_shstrndx eh) * sizeof_Shdr) m)
         in obind (find_tables elf_addr shstrtab lit_symtab lit_strtab shdrs m ((0, 0), 0)) (\<lambda>(syms, strs).
            Done \<lparr>symtab = syms, strtab = strs, elf = (elf_addr, max_size), ehdr = eh,
              phdr = (elf_addr + e_phoff eh, ucast (e_phnum eh)), shdr = (elf_addr + e_shoff eh, ucast (e_shnum eh))\<rparr>))"

definition GetElfSize :: "KernelElf \<Rightarrow> u64" where
  "GetElfSize k = snd (elf k)"

subsection \<open>The size of the image\<close>

lemma grow_ge: "max_size \<le> grow max_size end" "end \<le> grow max_size end"
  by (auto simp: grow_def)

lemma fold_grow:
  "b \<le> fold (\<lambda>s. \<lambda>z. grow z (f s)) ss b" "s \<in> set ss \<Longrightarrow> f s \<le> fold (\<lambda>s. \<lambda>z. grow z (f s)) ss b"
proof -
  have 1: "b \<le> fold (\<lambda>s. \<lambda>z. grow z (f s)) ss b" for b ss
  proof (induction ss arbitrary: b)
    case (Cons s ss)
    show ?case using Cons [of "grow b (f s)"] grow_ge(1) [of b "f s"] by simp
  qed simp
  then show "b \<le> fold (\<lambda>s. \<lambda>z. grow z (f s)) ss b" .
  show "s \<in> set ss \<Longrightarrow> f s \<le> fold (\<lambda>s. \<lambda>z. grow z (f s)) ss b"
  proof (induction ss arbitrary: b)
    case (Cons x ss)
    then show ?case using order_trans [OF grow_ge(2) [of "f x" b] 1] by auto
  qed simp
qed

lemma image_size_covers:
  assumes "e_shoff eh \<noteq> 0"
  shows "EI_NIDENT \<le> image_size a eh m"
    and "e_shoff eh + table_bytes (e_shnum eh) (e_shentsize eh) \<le> image_size a eh m"
    and "s \<in> set (section_headers (a + e_shoff eh) (unat (e_shnum eh)) m) \<Longrightarrow> section_end s \<le> image_size a eh m"
    and "e_phoff eh \<noteq> 0 \<Longrightarrow> e_phoff eh + table_bytes (e_phnum eh) (e_phentsize eh) \<le> image_size a eh m"
proof -
  let ?ph = "if e_phoff eh \<noteq> 0 then grow EI_NIDENT (e_phoff eh + table_bytes (e_phnum eh) (e_phentsize eh)) else EI_NIDENT"
  let ?sh = "grow ?ph (e_shoff eh + table_bytes (e_shnum eh) (e_shentsize eh))"
  have eq: "image_size a eh m = fold (\<lambda>s max_size. grow max_size (section_end s))
      (section_headers (a + e_shoff eh) (unat (e_shnum eh)) m) ?sh"
    using assms by (simp add: image_size_def Let_def)
  have sh: "?sh \<le> image_size a eh m" unfolding eq by (rule fold_grow(1))
  have ph: "EI_NIDENT \<le> ?ph" by (simp add: grow_ge)
  show "EI_NIDENT \<le> image_size a eh m" by (meson grow_ge(1) order_trans ph sh)
  show "e_shoff eh + table_bytes (e_shnum eh) (e_shentsize eh) \<le> image_size a eh m" by (meson grow_ge(2) order_trans sh)
  show "s \<in> set (section_headers (a + e_shoff eh) (unat (e_shnum eh)) m) \<Longrightarrow> section_end s \<le> image_size a eh m"
    unfolding eq by (rule fold_grow(2))
  assume "e_phoff eh \<noteq> 0"
  then have "e_phoff eh + table_bytes (e_phnum eh) (e_phentsize eh) \<le> ?ph" by (simp add: grow_ge)
  then show "e_phoff eh + table_bytes (e_phnum eh) (e_phentsize eh) \<le> image_size a eh m" by (meson grow_ge(1) order_trans sh)
qed

subsection \<open>The tables of symbols and strings\<close>

abbreviation symtab_name :: "u8 list" where "symtab_name \<equiv> [0x2E, 0x73, 0x79, 0x6D, 0x74, 0x61, 0x62]"
abbreviation strtab_name :: "u8 list" where "strtab_name \<equiv> [0x2E, 0x73, 0x74, 0x72, 0x74, 0x61, 0x62]"

text \<open>The last section with a name.\<close>

definition last_named :: "(Elf64_Shdr \<Rightarrow> u8 list) \<Rightarrow> u8 list \<Rightarrow> Elf64_Shdr list \<Rightarrow> Elf64_Shdr option" where
  "last_named name w ss = fold (\<lambda>s r. if name s = w then Some s else r) ss None"

lemma strcmp_eq:
  assumes "cstr m a xs" "cstr m b ys"
  shows "\<exists>r. strcmp a b m = Some r \<and> (r = 0 \<longleftrightarrow> xs = ys)"
  using strcmp_order [OF assms] by blast

lemma find_tables_last:
  assumes "cstr m lit_symtab symtab_name" "cstr m lit_strtab strtab_name"
    and "\<forall>s\<in>set ss. cstr m (shstrtab + ucast (sh_name s)) (name s)"
  shows "find_tables a shstrtab lit_symtab lit_strtab ss m (syms, strs) = Done
     (fold (\<lambda>s r. if name s = symtab_name then (a + sh_offset s, sh_size s div sizeof_Sym) else r) ss syms,
      fold (\<lambda>s r. if name s = strtab_name then a + sh_offset s else r) ss strs)"
  using assms(3)
proof (induction ss arbitrary: syms strs)
  case (Cons s ss)
  have "cstr m (shstrtab + ucast (sh_name s)) (name s)" using Cons.prems by simp
  from strcmp_eq [OF this assms(1)] strcmp_eq [OF this assms(2)] obtain c1 c2
    where c: "strcmp (shstrtab + ucast (sh_name s)) lit_symtab m = Some c1" "c1 = 0 \<longleftrightarrow> name s = symtab_name"
      "strcmp (shstrtab + ucast (sh_name s)) lit_strtab m = Some c2" "c2 = 0 \<longleftrightarrow> name s = strtab_name" by blast
  then show ?case using Cons.IH Cons.prems by (cases "c1 = 0") (auto simp: Let_def)
qed simp

lemma fold_last_named:
  "fold (\<lambda>s r. if name s = w then f s else r) ss b = (case last_named name w ss of None \<Rightarrow> b | Some s \<Rightarrow> f s)"
proof (induction ss rule: rev_induct)
  case (snoc s ss)
  then show ?case by (simp add: last_named_def)
qed (simp add: last_named_def)

text \<open>
  C9: On an image with a table of sections whose names are terminated strings the constructor
  returns. The size it computes covers the program headers, the table of sections and the end of
  every section. The symbol table and the string table are those of the last section that has
  the name, and are empty when there is none.
\<close>

theorem new_KernelElf_correct:
  assumes "elf_addr \<noteq> 0" "CheckElfIdentity elf_addr m = Inr ()" "eh = read_Ehdr elf_addr m" "e_shoff eh \<noteq> 0"
    and "ss = section_headers (elf_addr + e_shoff eh) (unat (e_shnum eh)) m"
    and "names = elf_addr + sh_offset (read_Shdr (elf_addr + e_shoff eh + ucast (e_shstrndx eh) * sizeof_Shdr) m)"
    and "cstr m lit_symtab symtab_name" "cstr m lit_strtab strtab_name"
    and "\<forall>s\<in>set ss. cstr m (names + ucast (sh_name s)) (name s)"
  shows "\<exists>k. new_KernelElf lit_symtab lit_strtab elf_addr m = Done k \<and>
     (\<forall>s\<in>set ss. section_end s \<le> GetElfSize k) \<and>
     e_shoff eh + table_bytes (e_shnum eh) (e_shentsize eh) \<le> GetElfSize k \<and>
     (e_phoff eh \<noteq> 0 \<longrightarrow> e_phoff eh + table_bytes (e_phnum eh) (e_phentsize eh) \<le> GetElfSize k) \<and>
     symtab k = (case last_named name symtab_name ss of None \<Rightarrow> (0, 0) | Some s \<Rightarrow> (elf_addr + sh_offset s, sh_size s div sizeof_Sym)) \<and>
     strtab k = (case last_named name strtab_name ss of None \<Rightarrow> 0 | Some s \<Rightarrow> elf_addr + sh_offset s)"
proof -
  have "find_tables elf_addr names lit_symtab lit_strtab ss m ((0, 0), 0) = Done
     (case last_named name symtab_name ss of None \<Rightarrow> (0, 0) | Some s \<Rightarrow> (elf_addr + sh_offset s, sh_size s div sizeof_Sym),
      case last_named name strtab_name ss of None \<Rightarrow> 0 | Some s \<Rightarrow> elf_addr + sh_offset s)"
    by (simp only: find_tables_last [OF assms(7-9)] fold_last_named)
  then show ?thesis using assms(1,2) image_size_covers [OF assms(4), where a = elf_addr and m = m] unfolding assms(3,5,6)
    by (simp add: new_KernelElf_def Let_def GetElfSize_def)
qed

text \<open>An image at \<open>0x1000\<close> with a string table, which holds the names too, and two symbols.\<close>

definition demo_elf :: mem where
  "demo_elf = (\<lambda>_. 0)(0x1000 := 0x7F, 0x1001 := 0x45, 0x1002 := 0x4C, 0x1003 := 0x46, 0x1004 := 0x2, 0x1028 := 0x40, 0x103A := 0x40,
     0x103C := 0x2, 0x1040 := 0x8, 0x1059 := 0x1, 0x1060 := 0x10, 0x1098 := 0x20, 0x1099 := 0x1, 0x10A0 := 0x30,
     0x1100 := 0x2E, 0x1101 := 0x73, 0x1102 := 0x79, 0x1103 := 0x6D, 0x1104 := 0x74, 0x1105 := 0x61, 0x1106 :=
     0x62, 0x1108 := 0x2E, 0x1109 := 0x73, 0x110A := 0x74, 0x110B := 0x72, 0x110C := 0x74, 0x110D := 0x61, 0x110E
     := 0x62)"

lemma demo_Ehdr: "read_Ehdr 0x1000 demo_elf = \<lparr>e_entry = 0, e_phoff = 0, e_shoff = 0x40, e_phentsize = 0, e_phnum = 0,
    e_shentsize = 64, e_shnum = 2, e_shstrndx = 0\<rparr>"
  by (simp add: read_Ehdr_def load16_def demo_elf_def load_bytes_numeral)

lemma demo_Shdr:
  "read_Shdr 0x1040 demo_elf = \<lparr>sh_name = 8, sh_offset = 0x100, sh_size = 16\<rparr>"
  "read_Shdr 0x1080 demo_elf = \<lparr>sh_name = 0, sh_offset = 0x120, sh_size = 48\<rparr>"
  by (simp_all add: read_Shdr_def load32_def demo_elf_def load_bytes_numeral)

lemma demo_sections: "section_headers 0x1040 2 demo_elf =
    [\<lparr>sh_name = 8, sh_offset = 0x100, sh_size = 16\<rparr>, \<lparr>sh_name = 0, sh_offset = 0x120, sh_size = 48\<rparr>]"
  by (simp add: section_headers_def sizeof_Shdr_def demo_Shdr upt_rec)

theorem new_KernelElf_correct_witness:
  "\<exists>k. new_KernelElf 0x1100 0x1108 0x1000 demo_elf = Done k \<and> 0x150 \<le> GetElfSize k \<and> symtab k = (0x1120, 2) \<and> strtab k = 0x1100"
proof -
  let ?name = "\<lambda>s. if sh_name s = 0 then symtab_name else strtab_name"
  have c: "cstr demo_elf 0x1100 symtab_name" "cstr demo_elf 0x1108 strtab_name" by (simp_all add: demo_elf_def)
  have i: "CheckElfIdentity 0x1000 demo_elf = Inr ()"
    by (simp add: CheckElfIdentity_def CheckElfMagic_def CheckElfClass_def demo_elf_def)
  have "\<exists>k. new_KernelElf 0x1100 0x1108 0x1000 demo_elf = Done k \<and>
     (\<forall>s\<in>set (section_headers 0x1040 2 demo_elf). section_end s \<le> GetElfSize k) \<and>
     symtab k = (case last_named ?name symtab_name (section_headers 0x1040 2 demo_elf) of None \<Rightarrow> (0, 0)
        | Some s \<Rightarrow> (0x1000 + sh_offset s, sh_size s div sizeof_Sym)) \<and>
     strtab k = (case last_named ?name strtab_name (section_headers 0x1040 2 demo_elf) of None \<Rightarrow> 0 | Some s \<Rightarrow> 0x1000 + sh_offset s)"
    using new_KernelElf_correct [where elf_addr = "0x1000" and m = demo_elf and lit_symtab = "0x1100" and lit_strtab = "0x1108" and name = ?name,
        OF _ i refl _ refl refl] c
    by (simp add: demo_Ehdr demo_sections demo_Shdr) blast
  then show ?thesis by (simp add: demo_sections section_end_def last_named_def sizeof_Sym_def) blast
qed

end
