(* ===== verification/Memory_Init.thy ===== *)
theory Memory_Init
  imports Kernel_Heap Kernel_Elf
begin

text \<open>
  The initialisation of the memory (\<open>MemoryInit\<close> of \<open>src/src/memory.cpp\<close>, x86-64): the heap
  starts after the image of the kernel, the page tables come from the heap, the physical memory
  and the registers of the interrupt controllers are mapped, and the page directory is loaded.

  The sequence \<open>v_alloc\<close> of the page tables is the sequence of addresses that the heap will
  return; at the end the heap has made as many calls as pages were taken.
\<close>

record BasicInfo =
  physical_memory_addr :: u64
  physical_memory_size :: size_t
  elf_addr :: u64

definition kLocalApicBase :: u64 where "kLocalApicBase = 0xFEE00000"
definition kIoApicBase :: u64 where "kIoApicBase = 0xFEC00000"

subsection \<open>The register of the page directory\<close>

definition Cr3_kBitMask :: u64 where "Cr3_kBitMask = push_bit 12 (push_bit 52 1 - 1)"

definition Cr3_Write :: "u64 \<Rightarrow> u64 \<Rightarrow> u64" where
  "Cr3_Write value cr3 = (cr3 AND NOT Cr3_kBitMask) OR (push_bit 12 value AND Cr3_kBitMask)"

definition SetPageDirectory :: "u64 \<Rightarrow> u64 \<Rightarrow> u64" where
  "SetPageDirectory pgd cr3 = Cr3_Write (drop_bit 12 pgd) cr3"

definition GetPageDirectory :: "u64 \<Rightarrow> u64" where
  "GetPageDirectory cr3 = push_bit 12 (drop_bit 12 (cr3 AND Cr3_kBitMask))"

text \<open>\<open>EnablePage\<close> is empty on x86-64.\<close>

definition Vm_InitCurrentCore :: "vm \<Rightarrow> u64 \<Rightarrow> u64" where
  "Vm_InitCurrentCore v cr3 = SetPageDirectory (v_kernel_page_dir v) cr3"

definition MemoryInitSMP :: "vm \<Rightarrow> u64 \<Rightarrow> u64" where
  "MemoryInitSMP v cr3 = Vm_InitCurrentCore v cr3"

subsection \<open>The initialisation\<close>

primrec after_pages :: "nat \<Rightarrow> heap \<Rightarrow> heap" where
  "after_pages 0 h = h"
| "after_pages (Suc k) h = after_pages k (snd (aligned_alloc kPageSize kPageSize h))"

definition kernel_flags :: u32 where
  "kernel_flags = ucast (GetKernelPagePermissions True True True True)"

definition map_or_wait :: "u64 \<Rightarrow> vm \<Rightarrow> vm outcome" where
  "map_or_wait base v = obind (MapMMIO base kPageSize kernel_flags v) (\<lambda>(r, v). case r of
     Inl _ \<Rightarrow> Fault LoopForever
   | Inr _ \<Rightarrow> Done v)"

definition start_heap :: "BasicInfo \<Rightarrow> size_t \<Rightarrow> mem \<Rightarrow> heap" where
  "start_heap bi elf_size m =
     (let allocator_addr = PageAlignUp (elf_addr bi + elf_size);
          allocator_size = physical_memory_addr bi + physical_memory_size bi - allocator_addr
      in \<lparr>h_allocator = Some (new_BumpAllocator allocator_addr allocator_size), h_mem = m\<rparr>)"

text \<open>A page takes more than 4096 bytes of the heap, so the size bounds the number of calls that succeed.\<close>

definition page_supply :: "BasicInfo \<Rightarrow> heap \<Rightarrow> u64 list" where
  "page_supply bi h = alloc_pages (unat (physical_memory_size bi) div 4096) h"

definition MemoryInit :: "BasicInfo \<Rightarrow> size_t \<Rightarrow> u64 \<Rightarrow> mem \<Rightarrow> u64 \<Rightarrow> (heap \<times> vm \<times> u64) outcome" where
  "MemoryInit bi elf_size console_base m cr3 =
     (let h = start_heap bi elf_size m;
          v = \<lparr>v_pages = Map.empty, v_alloc = page_supply bi h, v_freed = [], v_kernel_page_dir = 0, v_tlb_flushes = 0\<rparr>
      in obind (new_VirtualMemory (physical_memory_addr bi) (physical_memory_size bi) v) (\<lambda>v.
         obind (map_or_wait kLocalApicBase v) (\<lambda>v.
         obind (map_or_wait kIoApicBase v) (\<lambda>v.
         let cr3 = Vm_InitCurrentCore v cr3 in
         obind (if console_base \<noteq> 0 then MapMMIO console_base kPageSize kernel_flags v else Done (Inr 0, v)) (\<lambda>(_, v).
         Done (after_pages (length (page_supply bi h) - length (v_alloc v)) h, v, cr3))))))"

subsection \<open>The heap gives pages\<close>

lemma Alloc_succeeds:
  assumes "bump_ok b" "n \<noteq> 0" "unat (ba_current b) + 15 + unat n \<le> unat (ba_end b)"
  shows "\<exists>p b'. Alloc n b = (p, b') \<and> p \<noteq> 0 \<and> unat (ba_current b') \<le> unat (ba_current b) + 15 + unat n"
proof -
  define cur where "cur = align_up (ba_current b) max_align"
  have "0 < unat (ba_start_addr b)" "unat (ba_start_addr b) \<le> unat (ba_current b)" "unat (ba_end b) \<le> 2 ^ 62"
    using assms(1) by (simp_all add: bump_ok_def word_le_nat_alt unat_gt_0)
  then have c: "unat (ba_end b) \<le> 2 ^ 62" "0 < unat (ba_current b)" by simp_all
  then have a: "unat (ba_current b) \<le> unat cur" "unat cur \<le> unat (ba_current b) + 15"
    using align_up_16 [of "ba_current b"] assms(3) by (simp_all add: cur_def)
  have u: "unat (cur + n) = unat cur + unat n" using c(1) a(2) assms(3) by (simp add: unat_word_ariths)
  have "\<not> ba_end b < cur + n" using u a(2) assms(3) by (simp add: word_less_nat_alt)
  moreover have "cur \<noteq> 0" using a(1) c(2) by auto
  ultimately show ?thesis using assms(2) u a(2) by (auto simp: Alloc_def Bump_AllocImpl_def Let_def cur_def [symmetric])
qed

text \<open>The bytes that a page takes at most: a page to align it, a word for the address, 15 for the block.\<close>

definition page_cost :: nat where "page_cost = 8214"

lemma aligned_page_succeeds:
  assumes "heap_ready b h" "unat (ba_current b) + page_cost \<le> unat (ba_end b)"
  shows "\<exists>p h' b'. aligned_alloc kPageSize kPageSize h = (p, h') \<and> p \<noteq> 0 \<and> heap_ready b' h' \<and> ba_end b' = ba_end b \<and>
     unat (ba_current b') \<le> unat (ba_current b) + page_cost \<and> unat p mod 4096 = 0 \<and> placed p 4096 b b'"
proof -
  have b: "h_allocator h = Some b" "bump_ok b" using assms(1) by (simp_all add: heap_ready_def)
  obtain q b' where q: "Alloc 8199 b = (q, b')" "q \<noteq> 0" "unat (ba_current b') \<le> unat (ba_current b) + 15 + 8199"
    using Alloc_succeeds [OF b(2), of 8199] assms(2) by (auto simp: page_cost_def)
  define p where "p = (q + 4103) AND - 4096"
  have "unat p mod 2 ^ 12 = 0" "unat q + 8 \<le> unat p" "unat p + unat (4096 :: u64) \<le> unat (ba_current b')"
      "unat (ba_current b) \<le> unat q" "bump_ok b'" "ba_end b' = ba_end b"
    using aligned_split [of 12 4096 b q b' p, OF _ _ b(2)] q(1,2) by (simp_all add: p_def)
  then show ?thesis using b(1) q
    by (simp add: aligned_alloc_def with_allocator_def Bmalloc_aligned_alloc_def kPageSize_def Let_def p_def [symmetric]
        heap_ready_def page_cost_def placed_def) auto
qed

lemma alloc_pages_length:
  "heap_ready b h \<Longrightarrow> unat (ba_current b) + page_cost * k \<le> unat (ba_end b) \<Longrightarrow> length (alloc_pages k h) = k"
proof (induction k arbitrary: b h)
  case (Suc k)
  have "unat (ba_current b) + page_cost \<le> unat (ba_end b)" using Suc.prems(2) by simp
  from aligned_page_succeeds [OF Suc.prems(1) this] obtain p h' b' where p: "aligned_alloc kPageSize kPageSize h = (p, h')" "p \<noteq> 0"
      "heap_ready b' h'" "ba_end b' = ba_end b" "unat (ba_current b') \<le> unat (ba_current b) + page_cost" by blast
  then show ?case using Suc.IH [OF p(3)] Suc.prems(2) by simp
qed simp

lemma alloc_pages_mono: "j \<le> k \<Longrightarrow> take j (alloc_pages k h) = alloc_pages j h"
proof (induction j arbitrary: k h)
  case (Suc j)
  then obtain i where "k = Suc i" "j \<le> i" by (cases k) auto
  then show ?case using Suc.IH by (simp split: prod.split)
qed simp

text \<open>After the calls, the heap goes on above the pages it has given.\<close>

lemma after_pages_above:
  assumes "heap_ready b h" "j \<le> length (alloc_pages k h)"
  shows "\<exists>b'. heap_ready b' (after_pages j h) \<and> ba_end b' = ba_end b \<and> unat (ba_current b) \<le> unat (ba_current b') \<and>
     (\<forall>p\<in>set (take j (alloc_pages k h)). unat p + 4096 \<le> unat (ba_current b'))"
  using assms
proof (induction j arbitrary: k b h)
  case (Suc j)
  then obtain i where i: "k = Suc i" by (cases k) auto
  obtain p h1 where al: "aligned_alloc kPageSize kPageSize h = (p, h1)" by (cases "aligned_alloc kPageSize kPageSize h")
  have p: "p \<noteq> 0" "j \<le> length (alloc_pages i h1)" using Suc.prems(2) i al by (auto split: if_splits)
  obtain b1 where b1: "heap_ready b1 h1" "ba_end b1 = ba_end b" "unat (ba_current b) \<le> unat (ba_current b1)" "placed p 4096 b b1"
    using aligned_page [OF Suc.prems(1) al] p(1) by blast
  from Suc.IH [OF b1(1) p(2)] obtain b2 where "heap_ready b2 (after_pages j h1)" "ba_end b2 = ba_end b1"
      "unat (ba_current b1) \<le> unat (ba_current b2)" "\<forall>q\<in>set (take j (alloc_pages i h1)). unat q + 4096 \<le> unat (ba_current b2)" by blast
  then show ?case using b1 p(1) al i by (intro exI [of _ b2]) (auto simp: placed_def)
qed auto

subsection \<open>The mappings\<close>

definition pages_of :: "nat \<Rightarrow> nat \<Rightarrow> nat set" where
  "pages_of a n = {a div 4096 ..< (a + n + 4095) div 4096}"

definition tables_for :: "nat \<Rightarrow> nat \<Rightarrow> nat" where
  "tables_for a n = range_tables (a div 4096) ((a + n + 4095) div 4096 - a div 4096)"

text \<open>The pages of \<open>S\<close> are mapped onto themselves and the other translations are kept.\<close>

definition identity_added :: "nat set \<Rightarrow> vm \<Rightarrow> vm \<Rightarrow> bool" where
  "identity_added S v v' \<longleftrightarrow> vm_ok v' (v_kernel_page_dir v') \<and> v_kernel_page_dir v' = v_kernel_page_dir v \<and> takes v v' \<and>
     (\<forall>va. GetMapping (v_kernel_page_dir v') va v' =
        (if page_number va \<in> S then Done (Inr (page_addr (page_number va))) else GetMapping (v_kernel_page_dir v) va v))"

lemma identity_added_trans: "identity_added S v v1 \<Longrightarrow> identity_added T v1 v2 \<Longrightarrow> identity_added (S \<union> T) v v2"
  using takes_trans by (auto simp: identity_added_def)

lemma kernel_flags_valid: "IsPageTableEntryValid (ucast kernel_flags)"
  by (simp add: kernel_flags_def IsPageTableEntryValid_def GetKernelPagePermissions_def flag_if_def permission_defs)

lemma MapMMIO_adds:
  assumes "vm_ok v (v_kernel_page_dir v)" "unat base + 4096 \<le> 2 ^ 48 - 8192" "plenty (tables_for (unat base) 4096 + m) v"
  shows "\<exists>v'. MapMMIO base kPageSize kernel_flags v = Done (Inr base, v') \<and> identity_added (pages_of (unat base) 4096) v v' \<and> plenty m v'"
proof -
  have k: "unat kPageSize = 4096" by (simp add: kPageSize_def)
  from MapMMIO_pages [OF assms(1) _ kernel_flags_valid, of base kPageSize m, unfolded k] assms(2,3) show ?thesis
    by (auto simp: identity_added_def pages_of_def tables_for_def)
qed

lemma map_or_wait_adds:
  assumes "vm_ok v (v_kernel_page_dir v)" "unat base + 4096 \<le> 2 ^ 48 - 8192" "plenty (tables_for (unat base) 4096 + m) v"
  shows "\<exists>v'. map_or_wait base v = Done v' \<and> identity_added (pages_of (unat base) 4096) v v' \<and> plenty m v'"
  using MapMMIO_adds [OF assms] by (auto simp: map_or_wait_def)

lemma cr3_loaded: "frame_addr pgd \<Longrightarrow> GetPageDirectory (SetPageDirectory pgd cr3) = pgd"
proof -
  assume f: "frame_addr pgd"
  have m: "Cr3_kBitMask = push_bit 12 (mask 52)" by (simp add: Cr3_kBitMask_def mask_eq_exp_minus_1)
  show ?thesis unfolding GetPageDirectory_def SetPageDirectory_def Cr3_Write_def m
    by (rule bit_word_eqI) (use frame_addr_bit [OF f] in \<open>auto simp: bit_simps\<close>)
qed

text \<open>The number of pages that the initialisation takes from the heap at most.\<close>

definition init_pages :: "BasicInfo \<Rightarrow> u64 \<Rightarrow> nat" where
  "init_pages bi console_base = 1 + tables_for (unat (physical_memory_addr bi)) (unat (physical_memory_size bi)) +
     (tables_for (unat kLocalApicBase) 4096 + (tables_for (unat kIoApicBase) 4096 +
       (if console_base = 0 then 0 else tables_for (unat console_base) 4096)))"

definition init_mapped :: "BasicInfo \<Rightarrow> u64 \<Rightarrow> nat set" where
  "init_mapped bi console_base = pages_of (unat (physical_memory_addr bi)) (unat (physical_memory_size bi)) \<union>
     pages_of (unat kLocalApicBase) 4096 \<union> pages_of (unat kIoApicBase) 4096 \<union>
     (if console_base = 0 then {} else pages_of (unat console_base) 4096)"

lemma init_vm:
  assumes "heap_ok v" "v_pages v = Map.empty" "plenty (init_pages bi console_base) v"
    and "unat (physical_memory_addr bi) + unat (physical_memory_size bi) \<le> 2 ^ 48 - 8192" "unat console_base + 4096 \<le> 2 ^ 48 - 8192"
  shows "\<exists>v1 v2 v3 v4 r. new_VirtualMemory (physical_memory_addr bi) (physical_memory_size bi) v = Done v1 \<and>
     map_or_wait kLocalApicBase v1 = Done v2 \<and> map_or_wait kIoApicBase v2 = Done v3 \<and>
     (if console_base \<noteq> 0 then MapMMIO console_base kPageSize kernel_flags v3 else Done (Inr 0, v3)) = Done (r, v4) \<and>
     v_kernel_page_dir v3 = hd (v_alloc v) \<and> v_kernel_page_dir v4 = hd (v_alloc v) \<and> vm_ok v4 (v_kernel_page_dir v4) \<and> takes v v4 \<and>
     (\<forall>va. GetMapping (v_kernel_page_dir v4) va v4 =
        (if page_number va \<in> init_mapped bi console_base then Done (Inr (page_addr (page_number va))) else Done (Inl kVmPageNotMapped)))"
proof -
  obtain v1 where v1: "new_VirtualMemory (physical_memory_addr bi) (physical_memory_size bi) v = Done v1" "v_kernel_page_dir v1 = hd (v_alloc v)"
      "vm_ok v1 (v_kernel_page_dir v1)" "takes v v1"
      "plenty (tables_for (unat kLocalApicBase) 4096 + (tables_for (unat kIoApicBase) 4096 +
       (if console_base = 0 then 0 else tables_for (unat console_base) 4096))) v1"
      "\<forall>va. GetMapping (v_kernel_page_dir v1) va v1 =
        (if page_number va \<in> pages_of (unat (physical_memory_addr bi)) (unat (physical_memory_size bi))
         then Done (Inr (page_addr (page_number va))) else Done (Inl kVmPageNotMapped))"
    using new_VirtualMemory_maps [OF assms(1,4) assms(3) [unfolded init_pages_def tables_for_def [of "unat (physical_memory_addr bi)"]]]
    by (auto simp: pages_of_def)
  obtain v2 where v2: "map_or_wait kLocalApicBase v1 = Done v2" "identity_added (pages_of (unat kLocalApicBase) 4096) v1 v2"
      "plenty (tables_for (unat kIoApicBase) 4096 + (if console_base = 0 then 0 else tables_for (unat console_base) 4096)) v2"
    using map_or_wait_adds [OF v1(3) _ v1(5)] by (auto simp: kLocalApicBase_def)
  then have ok2: "vm_ok v2 (v_kernel_page_dir v2)" unfolding identity_added_def by blast
  obtain v3 where v3: "map_or_wait kIoApicBase v2 = Done v3" "identity_added (pages_of (unat kIoApicBase) 4096) v2 v3"
      "plenty (if console_base = 0 then 0 else tables_for (unat console_base) 4096) v3"
    using map_or_wait_adds [OF ok2 _ v2(3)] by (auto simp: kIoApicBase_def)
  then have ok3: "vm_ok v3 (v_kernel_page_dir v3)" unfolding identity_added_def by blast
  obtain r v4 where v4: "(if console_base \<noteq> 0 then MapMMIO console_base kPageSize kernel_flags v3 else Done (Inr 0, v3)) = Done (r, v4)"
      "identity_added (if console_base = 0 then {} else pages_of (unat console_base) 4096) v3 v4"
  proof (cases "console_base = 0")
    case True
    have "identity_added {} v3 v3" using ok3 by (auto simp: identity_added_def intro: takes_same)
    then show ?thesis using True that by simp
  next
    case False
    then show ?thesis using MapMMIO_adds [OF ok3 assms(5), of 0] v3(3) that by auto
  qed
  note A = identity_added_trans [OF identity_added_trans [OF v2(2) v3(2)] v4(2)]
  have d: "v_kernel_page_dir v3 = hd (v_alloc v)" "v_kernel_page_dir v4 = hd (v_alloc v)"
    using v1(2) v2(2) v3(2) v4(2) by (simp_all add: identity_added_def)
  have "takes v v4" "vm_ok v4 (v_kernel_page_dir v4)" using A takes_trans [OF v1(4)] by (auto simp: identity_added_def)
  moreover have "GetMapping (v_kernel_page_dir v4) va v4 =
      (if page_number va \<in> init_mapped bi console_base then Done (Inr (page_addr (page_number va))) else Done (Inl kVmPageNotMapped))" for va
    using A v1(6) by (auto simp: identity_added_def init_mapped_def)
  ultimately show ?thesis using v1(1) v2(1) v3(1) v4(1) d by blast
qed

lemma start_heap_ready:
  assumes "0 < unat (elf_addr bi) + unat elf_size" "unat (physical_memory_addr bi) + unat (physical_memory_size bi) \<le> 2 ^ 48"
    and "E = (unat (elf_addr bi) + unat elf_size + 4095) div 4096 * 4096"
    and "E \<le> unat (physical_memory_addr bi) + unat (physical_memory_size bi)"
  shows "\<exists>b. heap_ready b (start_heap bi elf_size m) \<and> unat (ba_current b) = E \<and>
     unat (ba_end b) = unat (physical_memory_addr bi) + unat (physical_memory_size bi)"
proof -
  let ?A = "PageAlignUp (elf_addr bi + elf_size)"
  have le: "unat (elf_addr bi) + unat elf_size \<le> E" using round_up_bounds(2) [of 4096 "unat (elf_addr bi) + unat elf_size"] assms(3) by simp
  then have u: "unat (elf_addr bi + elf_size) = unat (elf_addr bi) + unat elf_size" using assms(2,4) by (simp add: unat_word_ariths)
  have E48: "E \<le> 2 ^ 48" using assms(2,4) by simp
  have "(unat (elf_addr bi) + unat elf_size + 4095) div 4096 < 2 ^ 52" using le E48 by simp
  then have A: "unat ?A = E"
    using PageAlignUp_page [of "elf_addr bi + elf_size"] u le E48 assms(3) by (simp add: unat_page_addr)
  have R: "unat (physical_memory_addr bi + physical_memory_size bi) = unat (physical_memory_addr bi) + unat (physical_memory_size bi)"
    using assms(2) by (simp add: unat_word_ariths)
  have "?A \<noteq> 0" using A le assms(1) by (metis le_zero_eq not_gr0 unsigned_0)
  then show ?thesis using A R E48 assms(2,4)
    by (simp add: start_heap_def Let_def heap_ready_def bump_ok_def new_BumpAllocator_def word_le_nat_alt)
qed

text \<open>
  C6: \<open>MemoryInit\<close> returns when the memory behind the image of the kernel has room for the page
  tables, and then the physical memory, the registers of the two interrupt controllers and the
  early console are mapped onto themselves and nothing else is mapped; the register of the page
  directory holds the root. The tables lie below the point where the heap goes on, so no
  later block of the heap overlaps a table.
\<close>

theorem MemoryInit_correct:
  assumes "0 < unat (elf_addr bi) + unat elf_size" "unat (physical_memory_addr bi) + unat (physical_memory_size bi) \<le> 2 ^ 48 - 8192"
    and "unat (physical_memory_addr bi) \<le> unat (elf_addr bi)" "unat console_base + 4096 \<le> 2 ^ 48 - 8192"
    and "(unat (elf_addr bi) + unat elf_size + 4095) div 4096 * 4096 + page_cost * init_pages bi console_base \<le>
       unat (physical_memory_addr bi) + unat (physical_memory_size bi)"
  shows "\<exists>h v cr3'. MemoryInit bi elf_size console_base m cr3 = Done (h, v, cr3') \<and> vm_ok v (v_kernel_page_dir v) \<and>
     GetPageDirectory cr3' = v_kernel_page_dir v \<and>
     (\<forall>va. GetMapping (v_kernel_page_dir v) va v =
        (if page_number va \<in> init_mapped bi console_base then Done (Inr (page_addr (page_number va))) else Done (Inl kVmPageNotMapped))) \<and>
     (\<exists>b. heap_ready b h \<and> (\<forall>t\<in>dom (v_pages v). unat t + 4096 \<le> unat (ba_current b)))"
proof -
  let ?h = "start_heap bi elf_size m" and ?E = "(unat (elf_addr bi) + unat elf_size + 4095) div 4096 * 4096"
  let ?top = "unat (physical_memory_addr bi) + unat (physical_memory_size bi)" and ?n = "init_pages bi console_base"
  let ?k = "unat (physical_memory_size bi) div 4096"
  let ?v = "\<lparr>v_pages = Map.empty, v_alloc = page_supply bi ?h, v_freed = [], v_kernel_page_dir = 0, v_tlb_flushes = 0\<rparr>"
  have "?top \<le> 2 ^ 48" "?E \<le> ?top" using assms(2,5) by simp_all
  from start_heap_ready [OF assms(1) this(1) refl this(2)] obtain b
    where b: "heap_ready b ?h" "unat (ba_current b) = ?E" "unat (ba_end b) = ?top" by blast
  have "unat (elf_addr bi) \<le> ?E" using round_up_bounds(2) [of 4096 "unat (elf_addr bi) + unat elf_size"] by simp
  then have "page_cost * ?n \<le> unat (physical_memory_size bi)" using assms(3,5) by linarith
  then have "?n \<le> ?k" by (simp add: page_cost_def)
  moreover have "length (alloc_pages ?n ?h) = ?n" by (rule alloc_pages_length [OF b(1)]) (use b(2,3) assms(5) in simp)
  ultimately have len: "?n \<le> length (page_supply bi ?h)"
    unfolding page_supply_def by (metis alloc_pages_mono length_take min.cobounded1)
  have top: "unat (ba_end b) < 2 ^ 52" using b(3) assms(2) by simp
  have fr: "distinct (page_supply bi ?h)" "\<forall>p\<in>set (page_supply bi ?h). p \<noteq> 0 \<and> frame_addr p"
    using alloc_pages_frames [OF b(1) top, of ?k] by (simp_all add: page_supply_def)
  have "heap_ok ?v" by (rule alloc_pages_heap_ok [OF b(1) top, of _ ?k]) (simp_all add: page_supply_def)
  moreover have pl: "plenty ?n ?v" using len fr(2) by (auto simp: plenty_def)
  ultimately obtain v1 v2 v3 v4 r where s: "new_VirtualMemory (physical_memory_addr bi) (physical_memory_size bi) ?v = Done v1"
     "map_or_wait kLocalApicBase v1 = Done v2" "map_or_wait kIoApicBase v2 = Done v3"
     "(if console_base \<noteq> 0 then MapMMIO console_base kPageSize kernel_flags v3 else Done (Inr 0, v3)) = Done (r, v4)"
     "v_kernel_page_dir v3 = hd (page_supply bi ?h)" "v_kernel_page_dir v4 = hd (page_supply bi ?h)" "vm_ok v4 (v_kernel_page_dir v4)"
     "takes ?v v4"
     "\<forall>va. GetMapping (v_kernel_page_dir v4) va v4 =
        (if page_number va \<in> init_mapped bi console_base then Done (Inr (page_addr (page_number va))) else Done (Inl kVmPageNotMapped))"
    using init_vm [of ?v bi console_base] assms(2,4) by auto
  obtain xs where xs: "page_supply bi ?h = xs @ v_alloc v4" "dom (v_pages v4) \<subseteq> set xs" using s(8) by (auto simp: takes_def)
  then have j: "length (page_supply bi ?h) - length (v_alloc v4) = length xs" "take (length xs) (alloc_pages ?k ?h) = xs"
      "length xs \<le> length (alloc_pages ?k ?h)" by (simp_all add: page_supply_def)
  have "page_supply bi ?h \<noteq> []" using len by (auto simp: init_pages_def)
  then have "frame_addr (v_kernel_page_dir v3)" using fr(2) s(5) by simp
  then have cr: "GetPageDirectory (Vm_InitCurrentCore v3 cr3) = v_kernel_page_dir v4"
    using s(5,6) by (simp add: Vm_InitCurrentCore_def cr3_loaded)
  have "MemoryInit bi elf_size console_base m cr3 = Done (after_pages (length xs) ?h, v4, Vm_InitCurrentCore v3 cr3)"
    using s(1-4) j(1) by (simp add: MemoryInit_def Let_def del: if_not_P split del: if_split)
  moreover obtain b' where "heap_ready b' (after_pages (length xs) ?h)" "\<forall>p\<in>set xs. unat p + 4096 \<le> unat (ba_current b')"
    using after_pages_above [OF b(1) j(3)] j(2) by auto
  ultimately show ?thesis using s(7,9) cr xs(2) by blast
qed

text \<open>A machine with 16 MiB of memory at \<open>0x100000\<close>, an image of 1 MiB and no early console.\<close>

theorem MemoryInit_correct_witness:
  "\<exists>h v cr3. MemoryInit \<lparr>physical_memory_addr = 0x100000, physical_memory_size = 0x1000000, elf_addr = 0x100000\<rparr> 0x100000 0 (\<lambda>_. 0) 0 = Done (h, v, cr3) \<and>
     GetMapping (v_kernel_page_dir v) 0x200123 v = Done (Inr 0x200000) \<and> GetMapping (v_kernel_page_dir v) 0xFEE00020 v = Done (Inr 0xFEE00000) \<and>
     GetMapping (v_kernel_page_dir v) 0 v = Done (Inl kVmPageNotMapped)"
proof -
  let ?bi = "\<lparr>physical_memory_addr = 0x100000, physical_memory_size = 0x1000000, elf_addr = 0x100000\<rparr>"
  have n: "init_pages ?bi 0 = 18"
    by (simp add: init_pages_def tables_for_def range_tables_def more_tables_def kLocalApicBase_def kIoApicBase_def)
  have p: "page_number 0x200123 = 0x200" "page_number 0xFEE00020 = 0xFEE00" "page_number 0 = 0" "page_addr 0x200 = 0x200000" "page_addr 0xFEE00 = 0xFEE00000"
    by (simp_all add: page_number_def page_addr_def)
  have "0x200 \<in> init_mapped ?bi 0" "0xFEE00 \<in> init_mapped ?bi 0" "0 \<notin> init_mapped ?bi 0"
    by (simp_all add: init_mapped_def pages_of_def kLocalApicBase_def kIoApicBase_def)
  then show ?thesis using MemoryInit_correct [of ?bi "0x100000" 0 "\<lambda>_. 0" 0] by (simp add: n page_cost_def) (metis p)
qed

end
