(* ===== verification/Elf_Loader.thy ===== *)
theory Elf_Loader
  imports Kernel_Elf Page_Range
begin

text \<open>
  The loader of user programs (\<open>LoadElf\<close> of \<open>src/src/task/task_control_block.cpp\<close>).

  The state is the page tables and the byte memory. The page frames come from the same sequence
  \<open>v_alloc\<close> as the tables; the headers are read from the memory at each use, as the source does.
\<close>

subsection \<open>Program headers\<close>

record Elf64_Phdr =
  p_type :: u32
  p_flags :: u32
  p_offset :: u64
  p_vaddr :: u64
  p_filesz :: u64
  p_memsz :: u64

definition read_Phdr :: "u64 \<Rightarrow> mem \<Rightarrow> Elf64_Phdr" where
  "read_Phdr a m = \<lparr>p_type = load32 a m, p_flags = load32 (a + 4) m, p_offset = load64 (a + 8) m,
     p_vaddr = load64 (a + 16) m, p_filesz = load64 (a + 32) m, p_memsz = load64 (a + 40) m\<rparr>"

definition sizeof_Phdr :: u64 where "sizeof_Phdr = 56"
definition PT_LOAD :: u32 where "PT_LOAD = 1"
definition PF_X :: u32 where "PF_X = 1"
definition PF_W :: u32 where "PF_W = 2"
definition PF_R :: u32 where "PF_R = 4"

type_synonym loader = "vm \<times> mem"

subsection \<open>Operations\<close>

text \<open>The body of the loop over the pages of a segment: the contents of the frame.\<close>

definition fill_page :: "u64 \<Rightarrow> Elf64_Phdr \<Rightarrow> u64 \<Rightarrow> u64 \<Rightarrow> mem \<Rightarrow> mem" where
  "fill_page elf_data ph page p_page m =
     (let m = snd (memset p_page 0 kPageSize m);
          v_start = page;
          v_end = page + kPageSize;
          file_start = p_vaddr ph;
          file_end = p_vaddr ph + p_filesz ph;
          copy_start = max v_start file_start;
          copy_end = min v_end file_end
      in if copy_end > copy_start
         then let dst_off = copy_start - v_start;
                  src_off = (copy_start - p_vaddr ph) + p_offset ph
              in snd (memcpy (p_page + dst_off) (elf_data + src_off) (copy_end - copy_start) m)
         else m)"

definition load_page :: "u64 \<Rightarrow> u64 \<Rightarrow> Elf64_Phdr \<Rightarrow> u32 \<Rightarrow> u64 \<Rightarrow> loader \<Rightarrow> (bool \<times> loader) outcome" where
  "load_page elf_data page_table ph flags page s =
     (case s of (v, m) \<Rightarrow>
      case page_alloc v of (p_page, v) \<Rightarrow>
        if p_page = 0 then Done (False, v, m)
        else let m = fill_page elf_data ph page p_page m
             in obind (MapPage page_table page p_page flags v) (\<lambda>(r, v). Done (case r of Inl _ \<Rightarrow> False | Inr _ \<Rightarrow> True, v, m)))"

partial_function (option) load_pages ::
    "u64 \<Rightarrow> u64 \<Rightarrow> Elf64_Phdr \<Rightarrow> u32 \<Rightarrow> u64 \<Rightarrow> u64 \<Rightarrow> loader \<Rightarrow> (bool \<times> loader) outcome option" where
  "load_pages elf_data page_table ph flags page end_page s =
     (if page < end_page then
        (case load_page elf_data page_table ph flags page s of
           Fault e \<Rightarrow> Some (Fault e)
         | Done (ok, s) \<Rightarrow>
             if ok then load_pages elf_data page_table ph flags (page + kPageSize) end_page s else Some (Done (False, s)))
      else Some (Done (True, s)))"

declare load_pages.simps [code]

definition load_segment :: "u64 \<Rightarrow> u64 \<Rightarrow> Elf64_Phdr \<Rightarrow> loader \<Rightarrow> (bool \<times> loader) outcome" where
  "load_segment elf_data page_table ph s =
     (if p_type ph \<noteq> PT_LOAD then Done (True, s)
      else let flags = ucast (GetUserPagePermissions (p_flags ph AND PF_R \<noteq> 0) (p_flags ph AND PF_W \<noteq> 0)
                         (p_flags ph AND PF_X \<noteq> 0) False);
               start_page = PageAlign (p_vaddr ph);
               end_page = PageAlignUp (p_vaddr ph + p_memsz ph)
           in run_loop (load_pages elf_data page_table ph flags start_page end_page s))"

lemma unat_u16_less: "unat (x :: u16) < 65536"
  using unsigned_less [of x] by simp

text \<open>
  The loop over the program headers. The pointer to the table is computed once; the number of
  headers is read at each test.
\<close>

function load_segments :: "u64 \<Rightarrow> u64 \<Rightarrow> u64 \<Rightarrow> nat \<Rightarrow> loader \<Rightarrow> (bool \<times> loader) outcome" where
  "load_segments elf_data page_table phdrs i s =
     (if i < unat (e_phnum (read_Ehdr elf_data (snd s)))
      then obind (load_segment elf_data page_table (read_Phdr (phdrs + of_nat i * sizeof_Phdr) (snd s)) s) (\<lambda>(ok, s).
           if ok then load_segments elf_data page_table phdrs (Suc i) s else Done (False, s))
      else Done (True, s))"
  by pat_completeness auto
termination
proof (relation "measure (\<lambda>(_, _, _, i, _). 2 ^ 16 - i)")
  fix elf_data page_table phdrs i and s s' :: loader and ok r
  assume "i < unat (e_phnum (read_Ehdr elf_data (snd s)))"
  then have "i < 2 ^ 16" using unat_u16_less [of "e_phnum (read_Ehdr elf_data (snd s))"] by simp
  then show "((elf_data, page_table, phdrs, Suc i, s'), (elf_data, page_table, phdrs, i, s)) \<in> measure (\<lambda>(_, _, _, i, _). 2 ^ 16 - i)"
    for s' by (simp add: diff_less_mono2)
qed simp

declare load_segments.simps [simp del]

definition LoadElf :: "u64 \<Rightarrow> u64 \<Rightarrow> loader \<Rightarrow> (u64 \<times> loader) outcome" where
  "LoadElf elf_data page_table s =
     (case CheckElfMagic elf_data (snd s) of
        Inl _ \<Rightarrow> Done (0, s)
      | Inr _ \<Rightarrow>
          obind (load_segments elf_data page_table (elf_data + e_phoff (read_Ehdr elf_data (snd s))) 0 s) (\<lambda>(ok, s).
          Done (if ok then e_entry (read_Ehdr elf_data (snd s)) else 0, s)))"

subsection \<open>One page\<close>

text \<open>The byte that a segment has at a virtual address: from the file, or zero after its end.\<close>

definition seg_byte :: "u64 \<Rightarrow> Elf64_Phdr \<Rightarrow> mem \<Rightarrow> nat \<Rightarrow> u8" where
  "seg_byte elf_data ph m va =
     (if unat (p_vaddr ph) \<le> va \<and> va < unat (p_vaddr ph) + unat (p_filesz ph)
      then m (at elf_data (unat (p_offset ph) + (va - unat (p_vaddr ph)))) else 0)"

definition on_frame :: "u64 \<Rightarrow> u64 \<Rightarrow> bool" where
  "on_frame p x \<longleftrightarrow> (\<exists>i<4096. x = at p i)"

lemma unat_max: "unat (max a b) = max (unat a) (unat b)" and unat_min: "unat (min a b) = min (unat a) (unat b)"
  for a b :: u64
  by (simp_all add: max_def min_def word_le_nat_alt)

lemma word_diff_nat: "b \<le> a \<Longrightarrow> of_nat (unat a - unat b) = a - b" for a b :: u64
  by (simp add: of_nat_diff word_le_nat_alt)

text \<open>A copy into a part of a frame, from a source that does not meet the frame.\<close>

lemma copy_into_frame:
  assumes "a + n \<le> 4096" "\<forall>j<n. \<not> on_frame p (at s (b + j))"
  shows "off < 4096 \<Longrightarrow> copy_up n (at p a) (at s b) z (at p off) = (if a \<le> off \<and> off < a + n then z (at s (b + (off - a))) else z (at p off))"
    and "\<not> on_frame p x \<Longrightarrow> copy_up n (at p a) (at s b) z x = z x"
proof -
  define R where "R = copy_up n (at p a) (at s b) z"
  have "at (at p a) i \<noteq> at (at s b) j" if "i < j" "j < n" for i j
  proof -
    have "a + i < 4096" using that assms(1) by simp
    then show ?thesis using assms(2) [rule_format, OF that(2)] by (simp add: at_at on_frame_def) metis
  qed
  then have R: "\<forall>i<n. R (at p (a + i)) = z (at s (b + i))" "\<forall>x. (\<forall>i<n. x \<noteq> at p (a + i)) \<longrightarrow> R x = z x"
    using copy_up_spec [of n "at p a" "at s b" z] assms(1) unfolding R_def by (auto simp: at_at)
  show "copy_up n (at p a) (at s b) z x = z x" if "\<not> on_frame p x"
    using R(2) that assms(1) unfolding R_def [symmetric] by (auto simp: on_frame_def)
  show "copy_up n (at p a) (at s b) z (at p off) = (if a \<le> off \<and> off < a + n then z (at s (b + (off - a))) else z (at p off))"
    if "off < 4096"
  proof (cases "a \<le> off \<and> off < a + n")
    case True
    then show ?thesis using R(1) [rule_format, of "off - a"] unfolding R_def [symmetric] by auto
  next
    case False
    have "at p off \<noteq> at p (a + i)" if "i < n" for i
      using False that at_inj [of off "a + i" p] \<open>off < 4096\<close> assms(1) by auto
    then show ?thesis using R(2) False unfolding R_def [symmetric] by auto
  qed
qed

lemma fill_page_eq:
  assumes "k < 2 ^ 36" "unat (p_vaddr ph) + unat (p_filesz ph) < 2 ^ 48"
    and "c = max (4096 * k) (unat (p_vaddr ph))" "e = min (4096 * k + 4096) (unat (p_vaddr ph) + unat (p_filesz ph))"
  shows "fill_page elf_data ph (page_addr k) p m =
     (let z = set_bytes 4096 p 0 m in
      if c < e then copy_up (e - c) (at p (c - 4096 * k)) (at elf_data (unat (p_offset ph) + (c - unat (p_vaddr ph)))) z else z)"
proof -
  define cs where "cs = max (page_addr k) (p_vaddr ph)"
  define ce where "ce = min (page_addr k + kPageSize) (p_vaddr ph + p_filesz ph)"
  have pk: "unat kPageSize = 4096" by (simp add: kPageSize_def)
  have u: "unat (page_addr k) = 4096 * k" "unat (page_addr k + kPageSize) = 4096 * k + 4096"
    using assms(1) unat_page_addr [of k] unat_page_addr [of "Suc k"] by (simp_all add: page_addr_Suc)
  have uf: "unat (p_vaddr ph + p_filesz ph) = unat (p_vaddr ph) + unat (p_filesz ph)" using assms(2) by (simp add: unat_word_ariths)
  have uc: "unat cs = c" "unat ce = e" by (simp_all add: cs_def ce_def unat_max unat_min u uf assms(3,4))
  have le: "page_addr k \<le> cs" "p_vaddr ph \<le> cs" by (simp_all add: cs_def)
  have n: "unat (ce - cs) = e - c" if "c < e" using that uc by (simp add: unat_sub_if')
  have d: "p + (cs - page_addr k) = at p (c - 4096 * k)"
    using word_diff_nat [OF le(1)] by (simp add: at_def uc u)
  have s: "elf_data + (cs - p_vaddr ph + p_offset ph) = at elf_data (unat (p_offset ph) + (c - unat (p_vaddr ph)))"
    using word_diff_nat [OF le(2)] by (simp add: at_def uc algebra_simps)
  have lt: "cs < ce \<longleftrightarrow> c < e" by (simp add: word_less_nat_alt uc)
  show ?thesis
    unfolding fill_page_def memset_def memcpy_def Let_def snd_conv pk cs_def [symmetric] ce_def [symmetric] d s lt
    using n by simp
qed

lemma fill_page_spec:
  assumes "k < 2 ^ 36" "unat (p_vaddr ph) + unat (p_filesz ph) < 2 ^ 48"
    and "\<forall>i<unat (p_filesz ph). \<not> on_frame p (at elf_data (unat (p_offset ph) + i))"
  shows "off < 4096 \<Longrightarrow> fill_page elf_data ph (page_addr k) p m (at p off) = seg_byte elf_data ph m (4096 * k + off)"
    and "\<not> on_frame p x \<Longrightarrow> fill_page elf_data ph (page_addr k) p m x = m x"
proof -
  let ?va = "unat (p_vaddr ph)" and ?fs = "unat (p_filesz ph)" and ?o = "unat (p_offset ph)"
  define c where "c = max (4096 * k) ?va"
  define e where "e = min (4096 * k + 4096) (?va + ?fs)"
  define z where "z = set_bytes 4096 p 0 m"
  have z: "off < 4096 \<Longrightarrow> z (at p off) = 0" "\<not> on_frame p x \<Longrightarrow> z x = m x" for off x
    unfolding z_def by (rule set_bytes_in, simp_all, rule set_bytes_other) (auto simp: on_frame_def)
  have f: "fill_page elf_data ph (page_addr k) p m =
      (if c < e then copy_up (e - c) (at p (c - 4096 * k)) (at elf_data (?o + (c - ?va))) z else z)"
    using fill_page_eq [OF assms(1,2) c_def e_def, of elf_data p m] by (simp add: z_def Let_def)
  have src: "\<not> on_frame p (at elf_data (?o + (c - ?va) + j))" "?va \<le> c" if "j < e - c" for j
    using assms(3) [rule_format, of "c - ?va + j"] that by (auto simp: c_def e_def add.assoc)
  note C = copy_into_frame [of "c - 4096 * k" "e - c" p elf_data "?o + (c - ?va)" _ z]
  have fit: "c < e \<Longrightarrow> c - 4096 * k + (e - c) \<le> 4096" by (auto simp: c_def e_def)
  show "fill_page elf_data ph (page_addr k) p m x = m x" if "\<not> on_frame p x"
    using C(2) [OF fit] src(1) z(2) that by (simp add: f)
  show "fill_page elf_data ph (page_addr k) p m (at p off) = seg_byte elf_data ph m (4096 * k + off)" if o: "off < 4096"
  proof (cases "c \<le> 4096 * k + off \<and> 4096 * k + off < e")
    case True
    then have i: "c < e" "c - 4096 * k \<le> off" "off < c - 4096 * k + (e - c)" by auto
    have "?o + (c - ?va) + (off - (c - 4096 * k)) = ?o + (4096 * k + off - ?va)" using True by (auto simp: c_def)
    then have "fill_page elf_data ph (page_addr k) p m (at p off) = z (at elf_data (?o + (4096 * k + off - ?va)))"
      using C(1) [OF fit [OF i(1)] _ o] src(1) i by (simp add: f)
    moreover have "\<not> on_frame p (at elf_data (?o + (4096 * k + off - ?va)))"
      by (rule assms(3) [rule_format]) (use True in \<open>auto simp: c_def e_def\<close>)
    ultimately show ?thesis using True z(2) by (auto simp: seg_byte_def c_def e_def)
  next
    case False
    then have "fill_page elf_data ph (page_addr k) p m (at p off) = z (at p off)"
      using C(1) [OF fit _ o] src(1) by (auto simp: f c_def)
    moreover have "seg_byte elf_data ph m (4096 * k + off) = 0" using False o by (auto simp: seg_byte_def c_def e_def)
    ultimately show ?thesis using z(1) [OF o] by simp
  qed
qed

subsection \<open>Frames\<close>

definition frames :: "vm \<Rightarrow> u64 set" where
  "frames v = {x. \<exists>p\<in>set (v_alloc v). on_frame p x}"

lemma frame_addr_unat:
  assumes "frame_addr p"
  shows "unat p mod 4096 = 0" "unat p < 2 ^ 52"
proof -
  have "bit p n \<Longrightarrow> \<not> n < 12 \<and> n < 52" for n using frame_addr_bit [OF assms, of n] by auto
  then have "take_bit 12 p = 0" "take_bit 52 p = p" by (auto intro!: bit_word_eqI simp: bit_take_bit_iff)
  then have "take_bit 12 (unat p) = 0" "take_bit 52 (unat p) = unat p"
    by (metis unsigned_take_bit_eq unsigned_0, metis unsigned_take_bit_eq)
  then show "unat p mod 4096 = 0" "unat p < 2 ^ 52" by (simp_all add: take_bit_eq_mod)
qed

lemma on_frame_unat: "frame_addr p \<Longrightarrow> on_frame p x \<Longrightarrow> unat p = 4096 * (unat x div 4096)"
proof -
  assume p: "frame_addr p" and x: "on_frame p x"
  from x obtain i where i: "i < 4096" "x = at p i" by (auto simp: on_frame_def)
  note f = frame_addr_unat [OF p]
  have "unat x = unat p + i" using i f(2) unat_at [of p i] by simp
  moreover obtain q where "unat p = 4096 * q" using f(1) by auto
  ultimately show ?thesis using i(1) by simp
qed

lemma on_frame_unique: "frame_addr p \<Longrightarrow> frame_addr q \<Longrightarrow> on_frame p x \<Longrightarrow> on_frame q x \<Longrightarrow> p = q"
  using on_frame_unat [of p x] on_frame_unat [of q x] by (simp add: word_unat_eq_iff)

lemma on_frame_at: "off < 4096 \<Longrightarrow> on_frame p (at p off)"
  by (auto simp: on_frame_def)

lemma MapPage_alloc: "MapPage dir va pa flags v = Done (r, v') \<Longrightarrow> set (v_alloc v') \<subseteq> set (v_alloc v)"
  using MapPage_takes by (fastforce simp: takes_def)

subsection \<open>Segments\<close>

text \<open>
  A step of the loader that maps pages of \<open>P\<close> only: the memory outside the free frames stays,
  and so do the translations of the other pages.
\<close>

definition loads :: "u64 \<Rightarrow> nat set \<Rightarrow> loader \<Rightarrow> loader \<Rightarrow> bool" where
  "loads dir P s s' \<longleftrightarrow> vm_ok (fst s') dir \<and> set (v_alloc (fst s')) \<subseteq> set (v_alloc (fst s)) \<and>
     (\<forall>x. x \<notin> frames (fst s) \<longrightarrow> snd s' x = snd s x) \<and>
     (\<forall>va. page_number va \<notin> P \<longrightarrow> GetMapping dir va (fst s') = GetMapping dir va (fst s))"

text \<open>The page \<open>k\<close> is mapped to a frame of its own that holds the bytes of the segment.\<close>

definition page_loaded :: "u64 \<Rightarrow> (nat \<Rightarrow> u8) \<Rightarrow> nat \<Rightarrow> loader \<Rightarrow> bool" where
  "page_loaded dir bytes k s \<longleftrightarrow> (\<exists>f. GetMapping dir (page_addr k) (fst s) = Done (Inr f) \<and>
     (\<forall>off<4096. snd s (at f off) = bytes (4096 * k + off) \<and> at f off \<notin> frames (fst s)))"

lemma loads_frames: "loads dir P s s' \<Longrightarrow> frames (fst s') \<subseteq> frames (fst s)"
  by (auto simp: loads_def frames_def)

lemma loads_refl: "vm_ok (fst s) dir \<Longrightarrow> loads dir P s s"
  by (simp add: loads_def)

lemma loads_trans: "loads dir P s s1 \<Longrightarrow> loads dir Q s1 s2 \<Longrightarrow> loads dir (P \<union> Q) s s2"
  using loads_frames [of dir P s s1] by (auto simp: loads_def)

lemma page_loaded_kept:
  assumes "page_loaded dir bytes k s" "loads dir P s s'" "k \<notin> P" "k < 2 ^ 36"
  shows "page_loaded dir bytes k s'"
proof -
  obtain f where f: "GetMapping dir (page_addr k) (fst s) = Done (Inr f)"
      "\<forall>off<4096. snd s (at f off) = bytes (4096 * k + off) \<and> at f off \<notin> frames (fst s)"
    using assms(1) by (auto simp: page_loaded_def)
  have "GetMapping dir (page_addr k) (fst s') = Done (Inr f)"
    using assms(2-4) f(1) by (simp add: loads_def page_number_addr)
  moreover have "snd s' (at f off) = bytes (4096 * k + off) \<and> at f off \<notin> frames (fst s')" if "off < 4096" for off
    using f(2) that assms(2) loads_frames [OF assms(2)] by (auto simp: loads_def)
  ultimately show ?thesis by (auto simp: page_loaded_def)
qed

lemma page_loaded_bytes:
  "page_loaded dir bytes k s \<Longrightarrow> \<exists>f. GetMapping dir (page_addr k) (fst s) = Done (Inr f) \<and> (\<forall>off<4096. snd s (at f off) = bytes (4096 * k + off))"
  by (auto simp: page_loaded_def)

definition no_source :: "u64 \<Rightarrow> Elf64_Phdr \<Rightarrow> vm \<Rightarrow> bool" where
  "no_source elf_data ph v \<longleftrightarrow> (\<forall>i<unat (p_filesz ph). at elf_data (unat (p_offset ph) + i) \<notin> frames v)"

lemma seg_byte_kept:
  assumes "no_source elf_data ph (fst s)" "loads dir P s s'"
  shows "seg_byte elf_data ph (snd s') = seg_byte elf_data ph (snd s)"
proof
  fix va
  have "unat (p_vaddr ph) \<le> va \<Longrightarrow> va < unat (p_vaddr ph) + unat (p_filesz ph) \<Longrightarrow> va - unat (p_vaddr ph) < unat (p_filesz ph)" by simp
  then show "seg_byte elf_data ph (snd s') va = seg_byte elf_data ph (snd s) va"
    using assms by (auto simp: seg_byte_def no_source_def loads_def)
qed

lemma load_page_loads:
  assumes "vm_ok v dir" "k < 2 ^ 36" "unat (p_vaddr ph) + unat (p_filesz ph) < 2 ^ 48" "IsPageTableEntryValid (ucast flags)"
    and "plenty (4 + n) v" "no_source elf_data ph v"
  shows "\<exists>s'. load_page elf_data dir ph flags (page_addr k) (v, m) = Done (True, s') \<and> loads dir {k} (v, m) s' \<and>
     page_loaded dir (seg_byte elf_data ph m) k s' \<and> plenty n (fst s')"
proof -
  obtain p as where al: "v_alloc v = p # as" "p \<noteq> 0" using assms(5) by (cases "v_alloc v") (auto simp: plenty_def)
  let ?v = "v\<lparr>v_alloc := as\<rparr>" and ?m = "fill_page elf_data ph (page_addr k) p m"
  have ok: "vm_ok ?v dir" and p: "frame_addr p" "p \<notin> set as" "\<forall>a\<in>set as. a \<noteq> 0 \<longrightarrow> frame_addr a"
    using assms(1) al by (auto simp: vm_ok_def heap_ok_def)
  have nz: "0 \<notin> set as" and pl: "plenty (3 + n) ?v" using assms(5) al by (auto simp: plenty_def)
  obtain r v' where r: "MapPage dir (page_addr k) p flags ?v = Done (r, v')" "vm_ok v' dir"
      "case r of Inl e \<Rightarrow> e = kVmMapFailed \<and> (\<forall>va'. GetMapping dir va' v' = GetMapping dir va' ?v)
       | Inr _ \<Rightarrow> (\<forall>va'. GetMapping dir va' v' = (if same_page va' (page_addr k) then Done (Inr p) else GetMapping dir va' ?v))"
    using MapPage_maps [OF ok p(1) assms(4), of "page_addr k"] by blast
  have r1: "r = Inr ()" "plenty n v'" using MapPage_plenty [OF r(1) pl] by simp_all
  have sub: "set (v_alloc v') \<subseteq> set as" using MapPage_alloc [OF r(1)] by simp
  have g: "GetMapping dir va ?v = GetMapping dir va v" for va
    by (rule GetMapping_cong [OF assms(1) ok]) simp
  have src: "\<forall>i<unat (p_filesz ph). \<not> on_frame p (at elf_data (unat (p_offset ph) + i))"
    using assms(6) al by (auto simp: no_source_def frames_def)
  note F = fill_page_spec [OF assms(2,3) src, where m = m]
  have own: "at p off \<notin> frames v'" if "off < 4096" for off
  proof
    assume "at p off \<in> frames v'"
    then obtain q where q: "q \<in> set as" "on_frame q (at p off)" using sub by (auto simp: frames_def)
    then have "frame_addr q" using p(3) nz by auto
    with on_frame_unique [OF p(1) this on_frame_at [OF that]] q p(2) show False by auto
  qed
  have "load_page elf_data dir ph flags (page_addr k) (v, m) = Done (True, v', ?m)"
    using al r(1) r1(1) by (simp add: load_page_def page_alloc_def)
  moreover have "loads dir {k} (v, m) (v', ?m)"
    using r(2,3) r1(1) sub al F(2) g assms(2) by (auto simp: loads_def frames_def same_page_number page_number_addr)
  moreover have "page_loaded dir (seg_byte elf_data ph m) k (v', ?m)"
    using r(3) r1(1) F(1) own by (auto simp: page_loaded_def same_page_def)
  ultimately show ?thesis using r1(2) by (metis fst_conv)
qed

lemma no_source_kept: "no_source elf_data ph (fst s) \<Longrightarrow> loads dir P s s' \<Longrightarrow> no_source elf_data ph (fst s')"
  using loads_frames [of dir P s s'] by (auto simp: no_source_def)

lemma load_pages_loads:
  assumes "unat (p_vaddr ph) + unat (p_filesz ph) < 2 ^ 48" "IsPageTableEntryValid (ucast flags)"
    and "vm_ok (fst s) dir" "k + n < 2 ^ 36" "plenty (4 * n + r) (fst s)" "no_source elf_data ph (fst s)"
  shows "\<exists>s'. load_pages elf_data dir ph flags (page_addr k) (page_addr (k + n)) s = Some (Done (True, s')) \<and>
     loads dir {k..<k + n} s s' \<and> plenty r (fst s') \<and> (\<forall>j. k \<le> j \<longrightarrow> j < k + n \<longrightarrow> page_loaded dir (seg_byte elf_data ph (snd s)) j s')"
  using assms(3-6)
proof (induction n arbitrary: k s)
  case 0
  then show ?case by (subst load_pages.simps) (auto intro: loads_refl)
next
  case (Suc n)
  have lt: "page_addr k < page_addr (k + Suc n)" using page_addr_less [of k "k + Suc n"] Suc.prems(2) by simp
  have k: "k < 2 ^ 36" "Suc k + n < 2 ^ 36" and pl: "plenty (4 + (4 * n + r)) (fst s)"
    using Suc.prems(2,3) by (simp_all add: add.assoc)
  obtain v m where s: "s = (v, m)" by (cases s)
  from load_page_loads [OF Suc.prems(1) k(1) assms(1,2) pl Suc.prems(4), of "snd s"] obtain s1
    where s1: "load_page elf_data dir ph flags (page_addr k) s = Done (True, s1)" "loads dir {k} s s1"
      "page_loaded dir (seg_byte elf_data ph (snd s)) k s1" "plenty (4 * n + r) (fst s1)" by auto
  have "vm_ok (fst s1) dir" using s1(2) by (simp add: loads_def)
  from Suc.IH [OF this k(2) s1(4) no_source_kept [OF Suc.prems(4) s1(2)]] obtain s2
    where s2: "load_pages elf_data dir ph flags (page_addr (Suc k)) (page_addr (Suc k + n)) s1 = Some (Done (True, s2))"
      "loads dir {Suc k..<Suc k + n} s1 s2" "plenty r (fst s2)"
      "\<forall>j. Suc k \<le> j \<longrightarrow> j < Suc k + n \<longrightarrow> page_loaded dir (seg_byte elf_data ph (snd s)) j s2"
    unfolding seg_byte_kept [OF Suc.prems(4) s1(2)] by blast
  have "load_pages elf_data dir ph flags (page_addr k) (page_addr (k + Suc n)) s = Some (Done (True, s2))"
    using lt s1(1) s2(1) by (subst load_pages.simps) (simp add: page_addr_Suc)
  moreover have "{k} \<union> {Suc k..<Suc k + n} = {k..<k + Suc n}" by auto
  then have "loads dir {k..<k + Suc n} s s2" using loads_trans [OF s1(2) s2(2)] by simp
  moreover have "page_loaded dir (seg_byte elf_data ph (snd s)) j s2" if "k \<le> j" "j < k + Suc n" for j
    using s2(4) page_loaded_kept [OF s1(3) s2(2) _ k(1)] that by (cases "j = k") simp_all
  ultimately show ?case using s2(3) by blast
qed

definition seg_pages :: "Elf64_Phdr \<Rightarrow> nat set" where
  "seg_pages ph = {unat (p_vaddr ph) div 4096 ..< (unat (p_vaddr ph) + unat (p_memsz ph) + 4095) div 4096}"

definition seg_ok :: "Elf64_Phdr \<Rightarrow> bool" where
  "seg_ok ph \<longleftrightarrow> unat (p_vaddr ph) + unat (p_memsz ph) \<le> 2 ^ 48 - 8192 \<and> unat (p_vaddr ph) + unat (p_filesz ph) < 2 ^ 48"

lemma user_flags_valid: "IsPageTableEntryValid (ucast (ucast (GetUserPagePermissions r w x g) :: u32))"
  by (simp add: IsPageTableEntryValid_bit GetUserPagePermissions_def flag_if_def bit_simps permission_defs bit_0)

lemma load_segment_loads:
  assumes "p_type ph = PT_LOAD" "seg_ok ph" "vm_ok (fst s) dir" "plenty (4 * card (seg_pages ph) + r) (fst s)"
    and "no_source elf_data ph (fst s)"
  shows "\<exists>s'. load_segment elf_data dir ph s = Done (True, s') \<and> loads dir (seg_pages ph) s s' \<and> plenty r (fst s') \<and>
     (\<forall>j\<in>seg_pages ph. page_loaded dir (seg_byte elf_data ph (snd s)) j s')"
proof -
  let ?k = "unat (p_vaddr ph) div 4096" and ?m = "(unat (p_vaddr ph) + unat (p_memsz ph) + 4095) div 4096"
  have b: "unat (p_vaddr ph) + unat (p_memsz ph) \<le> 2 ^ 48 - 8192" "unat (p_vaddr ph) + unat (p_filesz ph) < 2 ^ 48"
    using assms(2) by (simp_all add: seg_ok_def)
  have u: "unat (p_vaddr ph + p_memsz ph) = unat (p_vaddr ph) + unat (p_memsz ph)" using b(1) by (simp add: unat_word_ariths)
  have "?k \<le> ?m" by (rule div_le_mono) simp
  then have km: "?k + (?m - ?k) = ?m" by simp
  have m: "?m < 2 ^ 36" using b(1) by simp
  have c: "card (seg_pages ph) = ?m - ?k" by (simp add: seg_pages_def)
  have al: "PageAlign (p_vaddr ph) = page_addr ?k" "PageAlignUp (p_vaddr ph + p_memsz ph) = page_addr ?m"
    using PageAlignUp_page [of "p_vaddr ph + p_memsz ph"] u b(1) by (simp_all add: PageAlign_page)
  note fl = user_flags_valid [of "p_flags ph AND PF_R \<noteq> 0" "p_flags ph AND PF_W \<noteq> 0" "p_flags ph AND PF_X \<noteq> 0" False]
  from load_pages_loads [OF b(2) fl assms(3) _ assms(4) [unfolded c] assms(5), of ?k, unfolded km, OF m]
  obtain s' where s': "load_segment elf_data dir ph s = Done (True, s')" "loads dir {?k..<?m} s s'" "plenty r (fst s')"
      "\<forall>j. ?k \<le> j \<longrightarrow> j < ?m \<longrightarrow> page_loaded dir (seg_byte elf_data ph (snd s)) j s'"
    using assms(1) unfolding load_segment_def al Let_def run_loop_def by auto
  then show ?thesis unfolding seg_pages_def by (intro exI [of _ s']) simp
qed

subsection \<open>The file\<close>

text \<open>
  A file of \<open>N\<close> bytes at \<open>elf_data\<close>: the headers and the contents of the segments lie inside,
  the segments are below the end of the address space and no two of them share a page.
\<close>

definition segments :: "u64 \<Rightarrow> mem \<Rightarrow> Elf64_Phdr list" where
  "segments elf_data m = map (\<lambda>i. read_Phdr (elf_data + e_phoff (read_Ehdr elf_data m) + of_nat i * sizeof_Phdr) m)
     [0..<unat (e_phnum (read_Ehdr elf_data m))]"

definition loadable :: "Elf64_Phdr \<Rightarrow> bool" where
  "loadable ph \<longleftrightarrow> p_type ph = PT_LOAD"

definition file_ok :: "u64 \<Rightarrow> nat \<Rightarrow> mem \<Rightarrow> bool" where
  "file_ok elf_data N m \<longleftrightarrow> 64 \<le> N \<and>
     unat (e_phoff (read_Ehdr elf_data m)) + 56 * unat (e_phnum (read_Ehdr elf_data m)) \<le> N \<and>
     (\<forall>ph\<in>set (filter loadable (segments elf_data m)). seg_ok ph \<and> unat (p_offset ph) + unat (p_filesz ph) \<le> N)"

definition off_image :: "u64 \<Rightarrow> nat \<Rightarrow> vm \<Rightarrow> bool" where
  "off_image elf_data N v \<longleftrightarrow> (\<forall>i<N. at elf_data i \<notin> frames v)"

lemma load_image:
  assumes "off_image elf_data N (fst s)" "loads dir P s s'" "i + n \<le> N"
  shows "load_bytes n (at elf_data i) (snd s') = load_bytes n (at elf_data i) (snd s)"
  by (rule load_bytes_cong) (use assms in \<open>auto simp: off_image_def loads_def at_at\<close>)

lemma read_Ehdr_kept:
  assumes "off_image elf_data N (fst s)" "loads dir P s s'" "64 \<le> N"
  shows "read_Ehdr elf_data (snd s') = read_Ehdr elf_data (snd s)"
proof -
  have a: "elf_data + 24 = at elf_data 24" "elf_data + 32 = at elf_data 32" "elf_data + 40 = at elf_data 40" "elf_data + 54 = at elf_data 54"
      "elf_data + 56 = at elf_data 56" "elf_data + 58 = at elf_data 58" "elf_data + 60 = at elf_data 60" "elf_data + 62 = at elf_data 62"
    by (simp_all add: at_def)
  show ?thesis using assms(3) by (simp add: read_Ehdr_def load16_def a load_image [OF assms(1,2)])
qed

lemma read_Phdr_kept:
  assumes "off_image elf_data N (fst s)" "loads dir P s s'" "i + 56 \<le> N"
  shows "read_Phdr (at elf_data i) (snd s') = read_Phdr (at elf_data i) (snd s)"
proof -
  have a: "at elf_data i + 4 = at elf_data (i + 4)" "at elf_data i + 8 = at elf_data (i + 8)" "at elf_data i + 16 = at elf_data (i + 16)"
      "at elf_data i + 32 = at elf_data (i + 32)" "at elf_data i + 40 = at elf_data (i + 40)"
    by (simp_all add: at_def)
  show ?thesis using assms(3) by (simp add: read_Phdr_def load32_def a load_image [OF assms(1,2)])
qed

lemma off_image_kept: "off_image elf_data N (fst s) \<Longrightarrow> loads dir P s s' \<Longrightarrow> off_image elf_data N (fst s')"
  using loads_frames [of dir P s s'] by (auto simp: off_image_def)

lemma phdr_addr: "elf_data + phoff + of_nat i * sizeof_Phdr = at elf_data (unat phoff + 56 * i)"
  by (simp add: at_def sizeof_Phdr_def algebra_simps)

lemma file_kept:
  assumes "off_image elf_data N (fst s)" "loads dir P s s'" "file_ok elf_data N (snd s)"
  shows "segments elf_data (snd s') = segments elf_data (snd s)" "file_ok elf_data N (snd s')"
    "read_Ehdr elf_data (snd s') = read_Ehdr elf_data (snd s)"
proof -
  have N: "64 \<le> N" "unat (e_phoff (read_Ehdr elf_data (snd s))) + 56 * unat (e_phnum (read_Ehdr elf_data (snd s))) \<le> N"
    using assms(3) by (simp_all add: file_ok_def)
  show e: "read_Ehdr elf_data (snd s') = read_Ehdr elf_data (snd s)" by (rule read_Ehdr_kept [OF assms(1,2) N(1)])
  show g: "segments elf_data (snd s') = segments elf_data (snd s)"
    unfolding segments_def e phdr_addr using N(2) by (auto intro!: read_Phdr_kept [OF assms(1,2)])
  show "file_ok elf_data N (snd s')" using assms(3) unfolding file_ok_def e g .
qed

primrec pages_apart :: "Elf64_Phdr list \<Rightarrow> bool" where
  "pages_apart [] = True"
| "pages_apart (ph # phs) \<longleftrightarrow> (\<forall>q\<in>set phs. seg_pages ph \<inter> seg_pages q = {}) \<and> pages_apart phs"

definition all_pages :: "Elf64_Phdr list \<Rightarrow> nat set" where
  "all_pages phs = (\<Union>ph\<in>set phs. seg_pages ph)"

definition page_count :: "Elf64_Phdr list \<Rightarrow> nat" where
  "page_count phs = sum_list (map (\<lambda>ph. card (seg_pages ph)) phs)"

lemma file_no_source: "file_ok elf_data N m \<Longrightarrow> off_image elf_data N v \<Longrightarrow> ph \<in> set (filter loadable (segments elf_data m)) \<Longrightarrow> no_source elf_data ph v"
  by (auto simp: file_ok_def off_image_def no_source_def)

lemma seg_pages_bound: "seg_ok ph \<Longrightarrow> k \<in> seg_pages ph \<Longrightarrow> k < 2 ^ 36"
  by (auto simp: seg_ok_def seg_pages_def)

lemma load_segments_step:
  assumes "i < length (segments elf_data (snd s))" "ph = segments elf_data (snd s) ! i"
  shows "load_segments elf_data dir (elf_data + e_phoff (read_Ehdr elf_data (snd s))) i s =
     obind (load_segment elf_data dir ph s) (\<lambda>(ok, s1).
       if ok then load_segments elf_data dir (elf_data + e_phoff (read_Ehdr elf_data (snd s))) (Suc i) s1 else Done (False, s1))"
  using assms by (subst load_segments.simps) (simp add: segments_def)

lemma load_segments_loads:
  assumes "drop i (segments elf_data (snd s)) = xs" "i \<le> length (segments elf_data (snd s))"
    and "file_ok elf_data N (snd s)" "off_image elf_data N (fst s)" "vm_ok (fst s) dir"
    and "pages_apart (filter loadable xs)" "plenty (4 * page_count (filter loadable xs)) (fst s)"
  shows "\<exists>s'. load_segments elf_data dir (elf_data + e_phoff (read_Ehdr elf_data (snd s))) i s = Done (True, s') \<and>
     loads dir (all_pages (filter loadable xs)) s s' \<and>
     (\<forall>ph\<in>set (filter loadable xs). \<forall>k\<in>seg_pages ph. page_loaded dir (seg_byte elf_data ph (snd s)) k s')"
  using assms
proof (induction xs arbitrary: i s)
  case Nil
  then have "\<not> i < unat (e_phnum (read_Ehdr elf_data (snd s)))" by (simp add: segments_def)
  then show ?case using Nil.prems(5) by (subst load_segments.simps) (auto simp: loads_refl)
next
  case (Cons ph xs)
  have i: "i < length (segments elf_data (snd s))" using Cons.prems(1) by (metis drop_all list.discI not_le_imp_less)
  then have ph: "segments elf_data (snd s) ! i = ph" "drop (Suc i) (segments elf_data (snd s)) = xs"
    using Cons.prems(1) by (metis Cons_nth_drop_Suc list.inject)+
  have mem: "set (ph # xs) \<subseteq> set (segments elf_data (snd s))" using set_drop_subset [of i] Cons.prems(1) by metis
  let ?ph = "elf_data + e_phoff (read_Ehdr elf_data (snd s))"
  let ?P = "if loadable ph then seg_pages ph else {}"
  obtain s1 where s1: "load_segment elf_data dir ph s = Done (True, s1)" "loads dir ?P s s1" "plenty (4 * page_count (filter loadable xs)) (fst s1)"
      "\<forall>k\<in>?P. page_loaded dir (seg_byte elf_data ph (snd s)) k s1"
  proof (cases "loadable ph")
    case True
    then have m: "ph \<in> set (filter loadable (segments elf_data (snd s)))" using mem by simp
    then have ok: "seg_ok ph" using Cons.prems(3) by (auto simp: file_ok_def)
    have "plenty (4 * card (seg_pages ph) + 4 * page_count (filter loadable xs)) (fst s)"
      using Cons.prems(7) True by (simp add: page_count_def)
    from load_segment_loads [OF _ ok Cons.prems(5) this file_no_source [OF Cons.prems(3,4) m]] True that
    show ?thesis by (auto simp: loadable_def)
  next
    case False
    then have "p_type ph \<noteq> PT_LOAD" by (simp add: loadable_def)
    then show ?thesis using that [of s] False Cons.prems(5,7) by (simp add: load_segment_def loads_refl)
  qed
  note K = file_kept [OF Cons.prems(4) s1(2) Cons.prems(3)]
  have "drop (Suc i) (segments elf_data (snd s1)) = xs" "Suc i \<le> length (segments elf_data (snd s1))"
    using ph(2) i K(1) by simp_all
  moreover have "vm_ok (fst s1) dir" "pages_apart (filter loadable xs)"
    using s1(2) Cons.prems(6) by (simp_all add: loads_def split: if_splits)
  ultimately obtain s2 where s2: "load_segments elf_data dir ?ph (Suc i) s1 = Done (True, s2)" "loads dir (all_pages (filter loadable xs)) s1 s2"
      "\<forall>q\<in>set (filter loadable xs). \<forall>k\<in>seg_pages q. page_loaded dir (seg_byte elf_data q (snd s1)) k s2"
    using Cons.IH [of "Suc i" s1] K off_image_kept [OF Cons.prems(4) s1(2)] s1(3) by auto
  have "load_segments elf_data dir ?ph i s = Done (True, s2)"
    using load_segments_step [OF i ph(1) [symmetric]] s1(1) s2(1) by simp
  moreover have "all_pages (filter loadable (ph # xs)) = ?P \<union> all_pages (filter loadable xs)" by (simp add: all_pages_def)
  then have "loads dir (all_pages (filter loadable (ph # xs))) s s2" using loads_trans [OF s1(2) s2(2)] by simp
  moreover have "page_loaded dir (seg_byte elf_data ph (snd s)) k s2" if "k \<in> ?P" for k
  proof (rule page_loaded_kept [OF _ s2(2)])
    show "page_loaded dir (seg_byte elf_data ph (snd s)) k s1" using s1(4) that by simp
    show "k \<notin> all_pages (filter loadable xs)" using that Cons.prems(6) by (auto simp: all_pages_def split: if_splits)
    have "loadable ph" "k \<in> seg_pages ph" using that by (simp_all split: if_splits)
    then show "k < 2 ^ 36" using mem Cons.prems(3) by (intro seg_pages_bound [of ph]) (auto simp: file_ok_def)
  qed
  moreover have "seg_byte elf_data q (snd s1) = seg_byte elf_data q (snd s)" if "q \<in> set (filter loadable xs)" for q
    by (rule seg_byte_kept [OF file_no_source [OF Cons.prems(3,4)] s1(2)]) (use that mem in auto)
  ultimately show ?case using s2(3) by (intro exI [of _ s2]) auto
qed

text \<open>
  C7: \<open>LoadElf\<close> returns the entry point of a program whose segments share no pages, given four
  pages of the heap for each page of the program. Every page of every segment is then mapped to
  a frame of its own that holds the bytes of the file, and zeros where the file ends; the other
  pages translate as before and nothing is written outside the pages of the heap.
\<close>

theorem LoadElf_correct:
  assumes "CheckElfMagic elf_data m = Inr ()" "file_ok elf_data N m" "off_image elf_data N v" "vm_ok v dir"
    and "phs = filter loadable (segments elf_data m)" "pages_apart phs" "plenty (4 * page_count phs) v"
  shows "\<exists>v' m'. LoadElf elf_data dir (v, m) = Done (e_entry (read_Ehdr elf_data m), v', m') \<and> vm_ok v' dir \<and>
     (\<forall>ph\<in>set phs. \<forall>k\<in>seg_pages ph. \<exists>f. GetMapping dir (page_addr k) v' = Done (Inr f) \<and>
        (\<forall>off<4096. m' (at f off) = seg_byte elf_data ph m (4096 * k + off))) \<and>
     (\<forall>va. page_number va \<notin> all_pages phs \<longrightarrow> GetMapping dir va v' = GetMapping dir va v) \<and>
     (\<forall>x. x \<notin> frames v \<longrightarrow> m' x = m x)"
proof -
  obtain v' m' where s: "load_segments elf_data dir (elf_data + e_phoff (read_Ehdr elf_data m)) 0 (v, m) = Done (True, v', m')"
      "loads dir (all_pages phs) (v, m) (v', m')" "\<forall>ph\<in>set phs. \<forall>k\<in>seg_pages ph. page_loaded dir (seg_byte elf_data ph m) k (v', m')"
    using load_segments_loads [of 0 elf_data "(v, m)" "segments elf_data m" N dir] assms(2-7) by auto
  have "read_Ehdr elf_data m' = read_Ehdr elf_data m"
    using file_kept(3) [OF _ s(2), of elf_data N] assms(2,3) by simp
  then have "LoadElf elf_data dir (v, m) = Done (e_entry (read_Ehdr elf_data m), v', m')"
    using s(1) assms(1) by (simp add: LoadElf_def)
  moreover have "\<exists>f. GetMapping dir (page_addr k) v' = Done (Inr f) \<and> (\<forall>off<4096. m' (at f off) = seg_byte elf_data ph m (4096 * k + off))"
    if "ph \<in> set phs" "k \<in> seg_pages ph" for ph k
    using page_loaded_bytes [of dir _ k "(v', m')"] s(3) that by auto
  ultimately show ?thesis using s(2) by (intro exI [of _ v'] exI [of _ m']) (auto simp: loads_def)
qed

text \<open>A program of four bytes at \<open>0x400010\<close>, followed by four zeros, in a file at \<open>0x10000\<close>.\<close>

definition demo_program :: mem where
  "demo_program = (\<lambda>_. 0)(0x10000 := 0x7F, 0x10001 := 0x45, 0x10002 := 0x4C, 0x10003 := 0x46, 0x10004 := 0x2, 0x10018 := 0x10, 0x1001A
     := 0x40, 0x10020 := 0x40, 0x10036 := 0x38, 0x10038 := 0x1, 0x10040 := 0x1, 0x10044 := 0x5, 0x10048 := 0x78,
     0x10050 := 0x10, 0x10052 := 0x40, 0x10060 := 0x4, 0x10068 := 0x8, 0x10078 := 0xF4, 0x10079 := 0xEB, 0x1007A :=
     0xFD, 0x1007B := 0x90)"

definition demo_load_vm :: vm where
  "demo_load_vm = \<lparr>v_pages = [0x1000 \<mapsto> (\<lambda>_. 0)], v_alloc = [0x2000, 0x3000, 0x4000, 0x5000], v_freed = [],
     v_kernel_page_dir = 0x1000, v_tlb_flushes = 0\<rparr>"

abbreviation demo_phdr :: Elf64_Phdr where
  "demo_phdr \<equiv> \<lparr>p_type = 1, p_flags = 5, p_offset = 120, p_vaddr = 0x400010, p_filesz = 4, p_memsz = 8\<rparr>"

lemma demo_program_Ehdr:
  "read_Ehdr 0x10000 demo_program = \<lparr>e_entry = 0x400010, e_phoff = 64, e_shoff = 0, e_phentsize = 56, e_phnum = 1,
     e_shentsize = 0, e_shnum = 0, e_shstrndx = 0\<rparr>"
  by (simp add: read_Ehdr_def load16_def demo_program_def load_bytes_numeral)

lemma demo_program_segments: "segments 0x10000 demo_program = [demo_phdr]"
proof -
  have "read_Phdr 0x10040 demo_program = demo_phdr"
    by (simp add: read_Phdr_def load32_def demo_program_def load_bytes_numeral)
  then show ?thesis by (simp add: segments_def demo_program_Ehdr)
qed

lemma demo_load_vm_ok: "vm_ok demo_load_vm 0x1000"
  using zero_page(2) [of "v_pages demo_load_vm" "0x1000" 3]
  by (simp add: vm_ok_def heap_ok_def demo_load_vm_def frame_addr_def)

lemma demo_off_image: "off_image 0x10000 124 demo_load_vm"
proof -
  have f: "\<not> on_frame p x" if "frame_addr p" "unat p < 65536" "65536 \<le> unat x" for p x
    using on_frame_unat [OF that(1), of x] that(2,3) by (auto simp: div_le_mono dest: div_le_mono [of _ _ 4096])
  have "65536 \<le> unat (at 0x10000 i)" if "i < 124" for i using unat_at [of "0x10000" i] that by simp
  then show ?thesis by (auto simp: off_image_def frames_def demo_load_vm_def f frame_addr_def)
qed

theorem LoadElf_correct_witness:
  "\<exists>v' m' f. LoadElf 0x10000 0x1000 (demo_load_vm, demo_program) = Done (0x400010, v', m') \<and>
     GetMapping 0x1000 0x400000 v' = Done (Inr f) \<and> m' (f + 0x10) = 0xF4 \<and> m' (f + 0x14) = 0"
proof -
  have pg: "seg_pages demo_phdr = {0x400}" by (auto simp: seg_pages_def)
  have c: "CheckElfMagic 0x10000 demo_program = Inr ()" by (simp add: CheckElfMagic_def demo_program_def)
  have o: "file_ok 0x10000 124 demo_program"
    by (simp add: file_ok_def demo_program_Ehdr demo_program_segments loadable_def PT_LOAD_def seg_ok_def)
  have l: "[demo_phdr] = filter loadable (segments 0x10000 demo_program)"
    by (simp add: demo_program_segments loadable_def PT_LOAD_def)
  have p: "pages_apart [demo_phdr]" "plenty (4 * page_count [demo_phdr]) demo_load_vm"
    by (simp_all add: page_count_def pg plenty_def demo_load_vm_def)
  from LoadElf_correct [OF c o demo_off_image demo_load_vm_ok l p] obtain v' m' f
    where r: "LoadElf 0x10000 0x1000 (demo_load_vm, demo_program) = Done (0x400010, v', m')"
      "GetMapping 0x1000 (page_addr 0x400) v' = Done (Inr f)" "\<forall>off<4096. m' (at f off) = seg_byte 0x10000 demo_phdr demo_program (4096 * 0x400 + off)"
    by (auto simp: demo_program_Ehdr pg)
  have "seg_byte 0x10000 demo_phdr demo_program 0x400010 = 0xF4" "seg_byte 0x10000 demo_phdr demo_program 0x400014 = 0"
    by (simp_all add: seg_byte_def at_def demo_program_def)
  then have "m' (f + 0x10) = 0xF4" "m' (f + 0x14) = 0"
    using r(3) [rule_format, of 16] r(3) [rule_format, of 20] by (simp_all add: at_def)
  moreover have "page_addr 0x400 = 0x400000" by (simp add: page_addr_def)
  ultimately show ?thesis using r(1,2) by metis
qed

end
