(* ===== verification/Mpmc_Queue.thy ===== *)
theory Mpmc_Queue
  imports NK_Prelude
begin

text \<open>
  The lock-free queue for many producers and consumers (\<open>src/3rd/MPMCQueue/include/MPMCQueue.hpp\<close>).

  A thread inside \<open>push\<close> or \<open>pop\<close> is at a program counter between two accesses to shared memory; a
  step of a thread makes one access, and the threads interleave. \<open>compare_exchange_weak\<close> may fail
  although the value is the expected one: the step takes a flag for that. The positions are 64-bit
  counters. The history of the items that were given a place is kept beside the state for the proofs.
\<close>

subsection \<open>The queue\<close>

record 'a Cell =
  c_sequence :: u64
  c_data :: 'a

record 'a MPMCQueue =
  q_head :: u64
  q_tail :: u64
  q_buffer :: "nat \<Rightarrow> 'a Cell"

definition new_MPMCQueue :: "'a \<Rightarrow> 'a MPMCQueue" where
  "new_MPMCQueue initial = \<lparr>q_head = 0, q_tail = 0, q_buffer = (\<lambda>i. \<lparr>c_sequence = of_nat i, c_data = initial\<rparr>)\<rparr>"

text \<open>\<open>pos & (Capacity - 1)\<close>.\<close>

definition cell_index :: "nat \<Rightarrow> u64 \<Rightarrow> nat" where
  "cell_index cap pos = unat (pos AND (of_nat cap - 1))"

definition sequence_at :: "nat \<Rightarrow> u64 \<Rightarrow> 'a MPMCQueue \<Rightarrow> u64" where
  "sequence_at cap pos q = c_sequence (q_buffer q (cell_index cap pos))"

definition set_sequence :: "nat \<Rightarrow> u64 \<Rightarrow> u64 \<Rightarrow> 'a MPMCQueue \<Rightarrow> 'a MPMCQueue" where
  "set_sequence cap pos s q = q\<lparr>q_buffer := (q_buffer q)(cell_index cap pos := (q_buffer q (cell_index cap pos))\<lparr>c_sequence := s\<rparr>)\<rparr>"

definition set_data :: "nat \<Rightarrow> u64 \<Rightarrow> 'a \<Rightarrow> 'a MPMCQueue \<Rightarrow> 'a MPMCQueue" where
  "set_data cap pos x q = q\<lparr>q_buffer := (q_buffer q)(cell_index cap pos := (q_buffer q (cell_index cap pos))\<lparr>c_data := x\<rparr>)\<rparr>"

datatype ('a, 'p) mpmc_pc =
    Quiet
  | Enq_load 'a | Enq_seq 'a 'p | Enq_cas 'a 'p | Enq_write 'a 'p | Enq_release 'p | Enq_done bool
  | Deq_load | Deq_seq 'p | Deq_cas 'p | Deq_read 'p | Deq_release 'p 'a | Deq_done "'a option"

text \<open>\<open>enqueue_impl\<close>, one access at a time.\<close>

fun enqueue_step :: "nat \<Rightarrow> bool \<Rightarrow> ('a, u64) mpmc_pc \<Rightarrow> 'a MPMCQueue \<Rightarrow> ('a, u64) mpmc_pc \<times> 'a MPMCQueue" where
  "enqueue_step cap spurious (Enq_load item) q = (Enq_seq item (q_head q), q)"
| "enqueue_step cap spurious (Enq_seq item pos) q =
     (let seq = sequence_at cap pos q;
          diff = sint (seq - pos)
      in if diff = 0 then (Enq_cas item pos, q)
         else if diff < 0 then (Enq_done False, q)
         else (Enq_load item, q))"
| "enqueue_step cap spurious (Enq_cas item pos) q =
     (if q_head q = pos \<and> \<not> spurious then (Enq_write item pos, q\<lparr>q_head := pos + 1\<rparr>)
      else (Enq_seq item (q_head q), q))"
| "enqueue_step cap spurious (Enq_write item pos) q = (Enq_release pos, set_data cap pos item q)"
| "enqueue_step cap spurious (Enq_release pos) q = (Enq_done True, set_sequence cap pos (pos + 1) q)"
| "enqueue_step cap spurious pc q = (pc, q)"

text \<open>\<open>pop\<close>, one access at a time.\<close>

fun pop_step :: "nat \<Rightarrow> bool \<Rightarrow> ('a, u64) mpmc_pc \<Rightarrow> 'a MPMCQueue \<Rightarrow> ('a, u64) mpmc_pc \<times> 'a MPMCQueue" where
  "pop_step cap spurious Deq_load q = (Deq_seq (q_tail q), q)"
| "pop_step cap spurious (Deq_seq pos) q =
     (let seq = sequence_at cap pos q;
          diff = sint (seq - (pos + 1))
      in if diff = 0 then (Deq_cas pos, q)
         else if diff < 0 then (Deq_done None, q)
         else (Deq_load, q))"
| "pop_step cap spurious (Deq_cas pos) q =
     (if q_tail q = pos \<and> \<not> spurious then (Deq_read pos, q\<lparr>q_tail := pos + 1\<rparr>)
      else (Deq_seq (q_tail q), q))"
| "pop_step cap spurious (Deq_read pos) q = (Deq_release pos (c_data (q_buffer q (cell_index cap pos))), q)"
| "pop_step cap spurious (Deq_release pos item) q = (Deq_done (Some item), set_sequence cap pos (pos + of_nat cap) q)"
| "pop_step cap spurious pc q = (pc, q)"

definition mpmc_size :: "'a MPMCQueue \<Rightarrow> u64" where
  "mpmc_size q = (if q_head q \<ge> q_tail q then q_head q - q_tail q else 0)"

definition mpmc_empty :: "'a MPMCQueue \<Rightarrow> bool" where
  "mpmc_empty q \<longleftrightarrow> mpmc_size q = 0"

text \<open>A thread that runs alone for a number of steps.\<close>

primrec run_alone :: "(('a, u64) mpmc_pc \<Rightarrow> 'a MPMCQueue \<Rightarrow> ('a, u64) mpmc_pc \<times> 'a MPMCQueue) \<Rightarrow> nat \<Rightarrow>
    ('a, u64) mpmc_pc \<Rightarrow> 'a MPMCQueue \<Rightarrow> ('a, u64) mpmc_pc \<times> 'a MPMCQueue" where
  "run_alone f 0 pc q = (pc, q)"
| "run_alone f (Suc n) pc q = (case f pc q of (pc, q) \<Rightarrow> run_alone f n pc q)"

subsection \<open>Threads\<close>

record 'a mpmc =
  m_queue :: "'a MPMCQueue"
  m_pc :: "nat \<Rightarrow> ('a, u64) mpmc_pc"
  m_hist :: "'a list"

definition start_mpmc :: "'a \<Rightarrow> 'a mpmc" where
  "start_mpmc initial = \<lparr>m_queue = new_MPMCQueue initial, m_pc = (\<lambda>_. Quiet), m_hist = []\<rparr>"

fun place_taken :: "('a, 'p) mpmc_pc \<Rightarrow> ('a, 'p) mpmc_pc \<Rightarrow> 'a list" where
  "place_taken (Enq_cas item _) (Enq_write _ _) = [item]"
| "place_taken _ _ = []"

inductive mpmc_step :: "nat \<Rightarrow> 'a mpmc \<Rightarrow> 'a mpmc \<Rightarrow> bool" for cap where
  invoke_push: "m_pc s t = Quiet \<Longrightarrow> mpmc_step cap s (s\<lparr>m_pc := (m_pc s)(t := Enq_load item)\<rparr>)"
| invoke_pop: "m_pc s t = Quiet \<Longrightarrow> mpmc_step cap s (s\<lparr>m_pc := (m_pc s)(t := Deq_load)\<rparr>)"
| run_push: "enqueue_step cap spurious (m_pc s t) (m_queue s) = (pc, q) \<Longrightarrow>
    mpmc_step cap s (s\<lparr>m_queue := q, m_pc := (m_pc s)(t := pc), m_hist := m_hist s @ place_taken (m_pc s t) pc\<rparr>)"
| run_pop: "pop_step cap spurious (m_pc s t) (m_queue s) = (pc, q) \<Longrightarrow>
    mpmc_step cap s (s\<lparr>m_queue := q, m_pc := (m_pc s)(t := pc)\<rparr>)"
| return_push: "m_pc s t = Enq_done r \<Longrightarrow> mpmc_step cap s (s\<lparr>m_pc := (m_pc s)(t := Quiet)\<rparr>)"
| return_pop: "m_pc s t = Deq_done x \<Longrightarrow> mpmc_step cap s (s\<lparr>m_pc := (m_pc s)(t := Quiet)\<rparr>)"

inductive mpmc_reach :: "nat \<Rightarrow> 'a mpmc \<Rightarrow> 'a mpmc \<Rightarrow> bool" for cap s0 where
  reach_start: "mpmc_reach cap s0 s0"
| reach_step: "mpmc_reach cap s0 s \<Longrightarrow> mpmc_step cap s s' \<Longrightarrow> mpmc_reach cap s0 s'"

end
