(* ===== verification/Mpmc_Ring.thy ===== *)
theory Mpmc_Ring
  imports Mpmc_Queue
begin

text \<open>
  The queue with unbounded counters: its steps, their invariant, and the proof that it is a bounded
  first-in first-out queue. \<open>Mpmc_Correct\<close> transfers the result to the 64-bit counters.
\<close>

subsection \<open>Steps\<close>

record 'a ring =
  r_head :: nat
  r_tail :: nat
  r_seq :: "nat \<Rightarrow> nat"
  r_data :: "nat \<Rightarrow> 'a"
  r_hist :: "'a list"
  r_pc :: "nat \<Rightarrow> ('a, nat) mpmc_pc"

definition go :: "nat \<Rightarrow> ('a, nat) mpmc_pc \<Rightarrow> 'a ring \<Rightarrow> 'a ring" where
  "go t pc s = s\<lparr>r_pc := (r_pc s)(t := pc)\<rparr>"

inductive ring_step :: "nat \<Rightarrow> 'a ring \<Rightarrow> 'a ring \<Rightarrow> bool" for cap s where
  stay: "ring_step cap s s"
| call_push: "r_pc s t = Quiet \<Longrightarrow> ring_step cap s (go t (Enq_load x) s)"
| call_pop: "r_pc s t = Quiet \<Longrightarrow> ring_step cap s (go t Deq_load s)"
| ret_push: "r_pc s t = Enq_done b \<Longrightarrow> ring_step cap s (go t Quiet s)"
| ret_pop: "r_pc s t = Deq_done y \<Longrightarrow> ring_step cap s (go t Quiet s)"
| e_load: "r_pc s t = Enq_load x \<Longrightarrow> ring_step cap s (go t (Enq_seq x (r_head s)) s)"
| e_go: "r_pc s t = Enq_seq x p \<Longrightarrow> r_seq s (p mod cap) = p \<Longrightarrow> ring_step cap s (go t (Enq_cas x p) s)"
| e_full: "r_pc s t = Enq_seq x p \<Longrightarrow> r_seq s (p mod cap) < p \<Longrightarrow> ring_step cap s (go t (Enq_done False) s)"
| e_again: "r_pc s t = Enq_seq x p \<Longrightarrow> p < r_seq s (p mod cap) \<Longrightarrow> ring_step cap s (go t (Enq_load x) s)"
| e_take: "r_pc s t = Enq_cas x p \<Longrightarrow> r_head s = p \<Longrightarrow>
    ring_step cap s (go t (Enq_write x p) (s\<lparr>r_head := Suc p, r_hist := r_hist s @ [x]\<rparr>))"
| e_lose: "r_pc s t = Enq_cas x p \<Longrightarrow> ring_step cap s (go t (Enq_seq x (r_head s)) s)"
| e_write: "r_pc s t = Enq_write x p \<Longrightarrow> ring_step cap s (go t (Enq_release p) (s\<lparr>r_data := (r_data s)(p mod cap := x)\<rparr>))"
| e_release: "r_pc s t = Enq_release p \<Longrightarrow> ring_step cap s (go t (Enq_done True) (s\<lparr>r_seq := (r_seq s)(p mod cap := Suc p)\<rparr>))"
| d_load: "r_pc s t = Deq_load \<Longrightarrow> ring_step cap s (go t (Deq_seq (r_tail s)) s)"
| d_go: "r_pc s t = Deq_seq p \<Longrightarrow> r_seq s (p mod cap) = Suc p \<Longrightarrow> ring_step cap s (go t (Deq_cas p) s)"
| d_none: "r_pc s t = Deq_seq p \<Longrightarrow> r_seq s (p mod cap) < Suc p \<Longrightarrow> ring_step cap s (go t (Deq_done None) s)"
| d_again: "r_pc s t = Deq_seq p \<Longrightarrow> Suc p < r_seq s (p mod cap) \<Longrightarrow> ring_step cap s (go t Deq_load s)"
| d_take: "r_pc s t = Deq_cas p \<Longrightarrow> r_tail s = p \<Longrightarrow> ring_step cap s (go t (Deq_read p) (s\<lparr>r_tail := Suc p\<rparr>))"
| d_lose: "r_pc s t = Deq_cas p \<Longrightarrow> ring_step cap s (go t (Deq_seq (r_tail s)) s)"
| d_read: "r_pc s t = Deq_read p \<Longrightarrow> ring_step cap s (go t (Deq_release p (r_data s (p mod cap))) s)"
| d_release: "r_pc s t = Deq_release p x \<Longrightarrow>
    ring_step cap s (go t (Deq_done (Some x)) (s\<lparr>r_seq := (r_seq s)(p mod cap := p + cap)\<rparr>))"

subsection \<open>Invariant\<close>

text \<open>The place that a thread holds between its exchange and its release.\<close>

fun enq_at :: "('a, 'p) mpmc_pc \<Rightarrow> 'p option" where
  "enq_at (Enq_write x p) = Some p"
| "enq_at (Enq_release p) = Some p"
| "enq_at _ = None"

fun deq_at :: "('a, 'p) mpmc_pc \<Rightarrow> 'p option" where
  "deq_at (Deq_read p) = Some p"
| "deq_at (Deq_release p x) = Some p"
| "deq_at _ = None"

text \<open>A cell is vacant for the place \<open>p\<close>, or filled with the item of the place \<open>p\<close>.\<close>

definition vacant :: "nat \<Rightarrow> 'a ring \<Rightarrow> nat \<Rightarrow> bool" where
  "vacant cap s p \<longleftrightarrow> r_seq s (p mod cap) = p \<and> r_tail s \<le> p \<and> p < r_tail s + cap \<and> r_head s \<le> p + cap \<and>
     (p < r_head s \<longrightarrow> (\<exists>t. enq_at (r_pc s t) = Some p))"

definition filled :: "nat \<Rightarrow> 'a ring \<Rightarrow> nat \<Rightarrow> bool" where
  "filled cap s p \<longleftrightarrow> r_seq s (p mod cap) = Suc p \<and> p < r_head s \<and> r_tail s \<le> p + cap \<and> r_head s \<le> p + cap \<and>
     r_data s (p mod cap) = r_hist s ! p \<and> (p < r_tail s \<longrightarrow> (\<exists>t. deq_at (r_pc s t) = Some p))"

fun thread_ok :: "nat \<Rightarrow> 'a ring \<Rightarrow> ('a, nat) mpmc_pc \<Rightarrow> bool" where
  "thread_ok cap s (Enq_seq x p) \<longleftrightarrow> p \<le> r_head s"
| "thread_ok cap s (Enq_cas x p) \<longleftrightarrow> p \<le> r_head s \<and> (p = r_head s \<longrightarrow> r_seq s (p mod cap) = p)"
| "thread_ok cap s (Enq_write x p) \<longleftrightarrow> p < r_head s \<and> r_seq s (p mod cap) = p \<and> r_hist s ! p = x"
| "thread_ok cap s (Enq_release p) \<longleftrightarrow> p < r_head s \<and> r_seq s (p mod cap) = p \<and> r_data s (p mod cap) = r_hist s ! p"
| "thread_ok cap s (Deq_seq p) \<longleftrightarrow> p \<le> r_tail s"
| "thread_ok cap s (Deq_cas p) \<longleftrightarrow> p \<le> r_tail s \<and> (p = r_tail s \<longrightarrow> r_seq s (p mod cap) = Suc p)"
| "thread_ok cap s (Deq_read p) \<longleftrightarrow> p < r_tail s \<and> r_seq s (p mod cap) = Suc p"
| "thread_ok cap s (Deq_release p x) \<longleftrightarrow> p < r_tail s \<and> r_seq s (p mod cap) = Suc p \<and> x = r_hist s ! p"
| "thread_ok cap s _ \<longleftrightarrow> True"

definition cells_ok :: "nat \<Rightarrow> 'a ring \<Rightarrow> bool" where
  "cells_ok cap s \<longleftrightarrow> (\<forall>i<cap. \<exists>p. p mod cap = i \<and> (vacant cap s p \<or> filled cap s p))"

definition places_apart :: "'a ring \<Rightarrow> bool" where
  "places_apart s \<longleftrightarrow> (\<forall>t t' p. enq_at (r_pc s t) = Some p \<longrightarrow> enq_at (r_pc s t') = Some p \<longrightarrow> t = t') \<and>
     (\<forall>t t' p. deq_at (r_pc s t) = Some p \<longrightarrow> deq_at (r_pc s t') = Some p \<longrightarrow> t = t')"

definition ring_ok :: "nat \<Rightarrow> 'a ring \<Rightarrow> bool" where
  "ring_ok cap s \<longleftrightarrow> length (r_hist s) = r_head s \<and> r_tail s \<le> r_head s \<and> r_head s \<le> r_tail s + cap \<and>
     cells_ok cap s \<and> (\<forall>t. thread_ok cap s (r_pc s t)) \<and> places_apart s"

lemma next_cell: "2 \<le> cap \<Longrightarrow> Suc p mod cap \<noteq> p mod cap"
  by (simp add: mod_Suc)

lemma cell_at:
  assumes "ring_ok cap s" "2 \<le> cap"
  obtains p' where "p' mod cap = p mod cap" "vacant cap s p' \<or> filled cap s p'"
proof -
  have "p mod cap < cap" using assms(2) by simp
  with assms(1) show thesis using that unfolding ring_ok_def cells_ok_def by blast
qed

lemma seq_vacant:
  assumes "ring_ok cap s" "2 \<le> cap" "r_seq s (p mod cap) = p"
  shows "vacant cap s p"
proof -
  obtain p' where p': "p' mod cap = p mod cap" "vacant cap s p' \<or> filled cap s p'" by (rule cell_at [OF assms(1,2)])
  from p'(2) show ?thesis
  proof
    assume "vacant cap s p'"
    then show ?thesis using p'(1) assms(3) by (simp add: vacant_def)
  next
    assume "filled cap s p'"
    then have "p = Suc p'" using p'(1) assms(3) by (simp add: filled_def)
    then show ?thesis using next_cell [OF assms(2), of p'] p'(1) by simp
  qed
qed

lemma seq_filled:
  assumes "ring_ok cap s" "2 \<le> cap" "r_seq s (p mod cap) = Suc p"
  shows "filled cap s p"
proof -
  obtain p' where p': "p' mod cap = p mod cap" "vacant cap s p' \<or> filled cap s p'" by (rule cell_at [OF assms(1,2)])
  from p'(2) show ?thesis
  proof
    assume "filled cap s p'"
    then have "p' = p" using p'(1) assms(3) by (simp add: filled_def)
    with \<open>filled cap s p'\<close> show ?thesis by simp
  next
    assume "vacant cap s p'"
    then have "p' = Suc p" using p'(1) assms(3) by (simp add: vacant_def)
    then show ?thesis using next_cell [OF assms(2), of p] p'(1) by simp
  qed
qed

lemma same_cell:
  assumes "ring_ok cap s" "2 \<le> cap" "p' mod cap = p mod cap"
  shows "vacant cap s p' \<Longrightarrow> r_seq s (p mod cap) = p \<Longrightarrow> p' = p"
    and "filled cap s p' \<Longrightarrow> r_seq s (p mod cap) = Suc p \<Longrightarrow> p' = p"
    and "vacant cap s p' \<Longrightarrow> r_seq s (p mod cap) \<noteq> Suc p" and "filled cap s p' \<Longrightarrow> r_seq s (p mod cap) \<noteq> p"
proof -
  have v: "vacant cap s p' \<Longrightarrow> r_seq s (p mod cap) = p'" "filled cap s p' \<Longrightarrow> r_seq s (p mod cap) = Suc p'"
    unfolding vacant_def filled_def assms(3) by blast+
  have n: "p' \<noteq> Suc p" "p \<noteq> Suc p'" using next_cell [OF assms(2), of p] next_cell [OF assms(2), of p'] assms(3) by metis+
  show "vacant cap s p' \<Longrightarrow> r_seq s (p mod cap) = p \<Longrightarrow> p' = p" "filled cap s p' \<Longrightarrow> r_seq s (p mod cap) = Suc p \<Longrightarrow> p' = p"
    "vacant cap s p' \<Longrightarrow> r_seq s (p mod cap) \<noteq> Suc p" "filled cap s p' \<Longrightarrow> r_seq s (p mod cap) \<noteq> p"
    using v n by simp_all
qed

lemma go_simps [simp]:
  "r_head (go t pc s) = r_head s" "r_tail (go t pc s) = r_tail s" "r_seq (go t pc s) = r_seq s" "r_data (go t pc s) = r_data s"
  "r_hist (go t pc s) = r_hist s" "r_pc (go t pc s) = (r_pc s)(t := pc)"
  by (simp_all add: go_def)

lemma thread_ok_cong:
  assumes "r_head s' = r_head s" "r_tail s' = r_tail s" "r_seq s' = r_seq s" "r_data s' = r_data s" "r_hist s' = r_hist s"
  shows "thread_ok cap s' pc = thread_ok cap s pc"
  using assms by (cases pc) simp_all

lemma ring_okD:
  assumes "ring_ok cap s"
  shows "length (r_hist s) = r_head s" "r_tail s \<le> r_head s" "cells_ok cap s" "thread_ok cap s (r_pc s t)" "places_apart s"
    "enq_at (r_pc s t) = Some p \<Longrightarrow> enq_at (r_pc s t') = Some p \<Longrightarrow> t = t'"
    "deq_at (r_pc s t) = Some p \<Longrightarrow> deq_at (r_pc s t') = Some p \<Longrightarrow> t = t'" "r_head s \<le> r_tail s + cap"
  using assms unfolding ring_ok_def places_apart_def by blast+

text \<open>A step that changes the program counter only, and not the place that is held.\<close>

lemma ring_ok_go:
  assumes "ring_ok cap s" "enq_at pc = enq_at (r_pc s t)" "deq_at pc = deq_at (r_pc s t)" "thread_ok cap s pc"
  shows "ring_ok cap (go t pc s)"
proof -
  have at: "enq_at (r_pc (go t pc s) u) = enq_at (r_pc s u)" "deq_at (r_pc (go t pc s) u) = deq_at (r_pc s u)" for u
    using assms(2,3) by simp_all
  have "vacant cap (go t pc s) p = vacant cap s p" "filled cap (go t pc s) p = filled cap s p" for p
    by (simp_all only: vacant_def filled_def at) simp_all
  then have "cells_ok cap (go t pc s)" using ring_okD(3) [OF assms(1)] by (simp add: cells_ok_def)
  moreover have "places_apart (go t pc s)" using ring_okD(5) [OF assms(1)] by (simp only: places_apart_def at)
  moreover have "thread_ok cap (go t pc s) (r_pc (go t pc s) u)" for u
    using ring_okD(4) [OF assms(1), of u] assms(4) thread_ok_cong [of "go t pc s" s] by simp
  ultimately show ?thesis using ring_okD(1,2,8) [OF assms(1)] by (simp add: ring_ok_def)
qed

lemma cells_okI:
  assumes "\<And>p. p mod cap < cap \<Longrightarrow> vacant cap s p \<or> filled cap s p \<Longrightarrow> \<exists>p'. p' mod cap = p mod cap \<and> (vacant cap s' p' \<or> filled cap s' p')"
    and "cells_ok cap s"
  shows "cells_ok cap s'"
  unfolding cells_ok_def
proof (intro allI impI)
  fix i assume i: "i < cap"
  then obtain p where "p mod cap = i" "vacant cap s p \<or> filled cap s p" using assms(2) unfolding cells_ok_def by blast
  then show "\<exists>p. p mod cap = i \<and> (vacant cap s' p \<or> filled cap s' p)" using assms(1) [of p] i by simp
qed

lemma cells_ok_keep:
  assumes "cells_ok cap s" "\<And>p. vacant cap s p \<or> filled cap s p \<Longrightarrow> vacant cap s' p \<or> filled cap s' p"
  shows "cells_ok cap s'"
proof (rule cells_okI [OF _ assms(1)])
  fix p assume "vacant cap s p \<or> filled cap s p"
  from assms(2) [OF this] show "\<exists>p'. p' mod cap = p mod cap \<and> (vacant cap s' p' \<or> filled cap s' p')" by (intro exI [of _ p]) simp
qed

lemma other_holder: "\<exists>u. g (r_pc s u) = Some q \<Longrightarrow> g (r_pc s t) \<noteq> Some q \<Longrightarrow> \<exists>u. g (((r_pc s)(t := pc)) u) = Some q"
  by (metis fun_upd_other)

text \<open>New holders of places.\<close>

lemma places_apart_go:
  assumes "places_apart s" "\<And>u. u \<noteq> t \<Longrightarrow> enq_at pc = None \<or> enq_at (r_pc s u) \<noteq> enq_at pc"
    and "\<And>u. u \<noteq> t \<Longrightarrow> deq_at pc = None \<or> deq_at (r_pc s u) \<noteq> deq_at pc" "r_pc s' = (r_pc s)(t := pc)"
  shows "places_apart s'"
  unfolding places_apart_def assms(4)
proof (intro conjI allI impI)
  fix u w p
  assume "enq_at (((r_pc s)(t := pc)) u) = Some p" "enq_at (((r_pc s)(t := pc)) w) = Some p"
  then show "u = w" using assms(1) assms(2) [of u] assms(2) [of w] unfolding places_apart_def by (cases "u = t"; cases "w = t") auto
next
  fix u w p
  assume "deq_at (((r_pc s)(t := pc)) u) = Some p" "deq_at (((r_pc s)(t := pc)) w) = Some p"
  then show "u = w" using assms(1) assms(3) [of u] assms(3) [of w] unfolding places_apart_def by (cases "u = t"; cases "w = t") auto
qed

lemma enq_take_ok:
  assumes "ring_ok cap s" "2 \<le> cap" "r_pc s t = Enq_cas x p" "r_head s = p"
  shows "ring_ok cap (go t (Enq_write x p) (s\<lparr>r_head := Suc p, r_hist := r_hist s @ [x]\<rparr>))" (is "ring_ok cap ?s")
proof -
  note I = ring_okD [OF assms(1)]
  have sq: "r_seq s (p mod cap) = p" using I(4) [of t] assms(3,4) by simp
  have free: "vacant cap s p" by (rule seq_vacant [OF assms(1,2) sq])
  have pc: "enq_at (r_pc s t) = None" "deq_at (r_pc s t) = None" using assms(3) by simp_all
  have "vacant cap ?s q \<or> filled cap ?s q" if "vacant cap s q \<or> filled cap s q" for q
  proof (cases "vacant cap s q")
    case True
    have "p \<noteq> q + cap" using same_cell(1) [OF assms(1,2), of q p] True sq assms(2) by auto
    moreover have "\<exists>u. enq_at (((r_pc s)(t := Enq_write x p)) u) = Some q" if q: "q < Suc p"
    proof (cases "q = p")
      case False
      then have "q < r_head s" using q assms(4) by simp
      then have "\<exists>u. enq_at (r_pc s u) = Some q" using True by (simp add: vacant_def)
      then show ?thesis by (rule other_holder) (simp add: pc)
    qed (auto intro: exI [of _ t])
    ultimately show ?thesis using True assms(4) by (simp add: vacant_def)
  next
    case False
    then have f: "filled cap s q" using that by simp
    have "p \<noteq> q + cap" using same_cell(4) [OF assms(1,2) _ f, of p] sq by auto
    moreover have "\<exists>u. deq_at (((r_pc s)(t := Enq_write x p)) u) = Some q" if q: "q < r_tail s"
    proof -
      have "\<exists>u. deq_at (r_pc s u) = Some q" using f q by (simp add: filled_def)
      then show ?thesis by (rule other_holder) (simp add: pc)
    qed
    ultimately show ?thesis using f I(1) assms(4) by (simp add: filled_def nth_append)
  qed
  then have "cells_ok cap ?s" by (rule cells_ok_keep [OF I(3)])
  moreover have "thread_ok cap ?s (r_pc ?s u)" for u
  proof (cases "u = t")
    case True
    then show ?thesis using I(1) assms(4) sq by (simp add: nth_append)
  next
    case False
    then show ?thesis using I(1,2) I(4) [of u] assms(4) by (cases "r_pc s u") (simp_all add: nth_append)
  qed
  moreover have "enq_at (r_pc s u) \<noteq> Some p" for u
    using I(4) [of u] assms(4) by (cases "r_pc s u") auto
  then have "places_apart ?s" by (intro places_apart_go [OF I(5), of t "Enq_write x p"]) simp_all
  ultimately show ?thesis using I(1,2) free assms(4) by (simp add: ring_ok_def vacant_def)
qed

lemma enq_write_ok:
  assumes "ring_ok cap s" "2 \<le> cap" "r_pc s t = Enq_write x p"
  shows "ring_ok cap (go t (Enq_release p) (s\<lparr>r_data := (r_data s)(p mod cap := x)\<rparr>))" (is "ring_ok cap ?s")
proof -
  note I = ring_okD [OF assms(1)]
  have sq: "r_seq s (p mod cap) = p" "p < r_head s" "r_hist s ! p = x" using I(4) [of t] assms(3) by simp_all
  have at: "enq_at (r_pc ?s u) = enq_at (r_pc s u)" "deq_at (r_pc ?s u) = deq_at (r_pc s u)" for u using assms(3) by simp_all
  have "vacant cap ?s q = vacant cap s q" for q by (simp only: vacant_def at) simp
  moreover have "filled cap ?s q" if "filled cap s q" for q
    using that same_cell(4) [OF assms(1,2) _ that, of p] sq(1) unfolding filled_def at by auto
  ultimately have "cells_ok cap ?s" by (intro cells_ok_keep [OF I(3)]) auto
  moreover have "places_apart ?s" using I(5) by (simp only: places_apart_def at)
  moreover have "thread_ok cap ?s (r_pc ?s u)" for u
  proof (cases "u = t")
    case True
    then show ?thesis using sq by simp
  next
    case False
    have "q mod cap \<noteq> p mod cap" if "r_pc s u = Enq_release q" for q
    proof
      assume e: "q mod cap = p mod cap"
      have "r_seq s (q mod cap) = q" using I(4) [of u] that by simp
      then have "q = p" by (simp only: e sq(1))
      then show False using I(6) [of t p u] assms(3) that False by simp
    qed
    then show ?thesis using False I(4) [of u] by (cases "r_pc s u") auto
  qed
  ultimately show ?thesis using I(1,2,8) by (simp add: ring_ok_def)
qed

lemma enq_release_ok:
  assumes "ring_ok cap s" "2 \<le> cap" "r_pc s t = Enq_release p"
  shows "ring_ok cap (go t (Enq_done True) (s\<lparr>r_seq := (r_seq s)(p mod cap := Suc p)\<rparr>))" (is "ring_ok cap ?s")
proof -
  note I = ring_okD [OF assms(1)]
  have sq: "r_seq s (p mod cap) = p" "p < r_head s" "r_data s (p mod cap) = r_hist s ! p" using I(4) [of t] assms(3) by simp_all
  have free: "vacant cap s p" by (rule seq_vacant [OF assms(1,2) sq(1)])
  have cell: "\<exists>q'. q' mod cap = q mod cap \<and> (vacant cap ?s q' \<or> filled cap ?s q')" if v: "vacant cap s q \<or> filled cap s q" for q
  proof (cases "q mod cap = p mod cap")
    case True
    have "filled cap ?s p" using free sq by (auto simp: vacant_def filled_def)
    then show ?thesis using True by (intro exI [of _ p]) simp
  next
    case False
    have "\<exists>u. enq_at (((r_pc s)(t := Enq_done True)) u) = Some q" if "\<exists>u. enq_at (r_pc s u) = Some q"
      by (rule other_holder [OF that]) (use assms(3) False in auto)
    moreover have "\<exists>u. deq_at (((r_pc s)(t := Enq_done True)) u) = Some q" if "\<exists>u. deq_at (r_pc s u) = Some q"
      by (rule other_holder [OF that]) (use assms(3) in auto)
    ultimately have "vacant cap ?s q \<or> filled cap ?s q" using v
      by (simp add: vacant_def filled_def fun_upd_other [OF False] del: fun_upd_apply) blast
    then show ?thesis by (intro exI [of _ q]) simp
  qed
  have "cells_ok cap ?s" by (rule cells_okI [OF cell I(3)])
  moreover have "thread_ok cap ?s (r_pc ?s u)" for u
  proof (cases "u = t")
    case False
    have "q mod cap \<noteq> p mod cap" if h: "enq_at (r_pc s u) = Some q" for q
    proof
      assume e: "q mod cap = p mod cap"
      have "r_seq s (q mod cap) = q" using I(4) [of u] h by (cases "r_pc s u") simp_all
      then have "q = p" by (simp only: e sq(1))
      then show False using I(6) [of t p u] assms(3) h False by simp
    qed
    moreover have "r_head s mod cap \<noteq> p mod cap" if "r_seq s (r_head s mod cap) = r_head s" using sq(1,2) that by auto
    moreover have "q mod cap \<noteq> p mod cap" if "r_seq s (q mod cap) = Suc q" for q
      using next_cell [OF assms(2), of q] sq(1) that by auto
    ultimately show ?thesis using False I(4) [of u] by (cases "r_pc s u") auto
  qed simp
  moreover have "places_apart ?s" by (rule places_apart_go [OF I(5), of t "Enq_done True"]) simp_all
  ultimately show ?thesis using I(1,2,8) by (simp add: ring_ok_def)
qed

lemma deq_take_ok:
  assumes "ring_ok cap s" "2 \<le> cap" "r_pc s t = Deq_cas p" "r_tail s = p"
  shows "ring_ok cap (go t (Deq_read p) (s\<lparr>r_tail := Suc p\<rparr>))" (is "ring_ok cap ?s")
proof -
  note I = ring_okD [OF assms(1)]
  have sq: "r_seq s (p mod cap) = Suc p" using I(4) [of t] assms(3,4) by simp
  have full: "filled cap s p" by (rule seq_filled [OF assms(1,2) sq])
  have pc: "enq_at (r_pc s t) = None" "deq_at (r_pc s t) = None" using assms(3) by simp_all
  have "vacant cap ?s q \<or> filled cap ?s q" if "vacant cap s q \<or> filled cap s q" for q
  proof (cases "vacant cap s q")
    case True
    have "q \<noteq> p" using same_cell(3) [OF assms(1,2) _ True, of p] sq by auto
    moreover have "\<exists>u. enq_at (((r_pc s)(t := Deq_read p)) u) = Some q" if "q < r_head s"
    proof -
      have "\<exists>u. enq_at (r_pc s u) = Some q" using True that by (simp add: vacant_def)
      then show ?thesis by (rule other_holder) (simp add: pc)
    qed
    ultimately show ?thesis using True assms(4) by (simp add: vacant_def)
  next
    case False
    then have f: "filled cap s q" using that by simp
    have "p \<noteq> q + cap" using same_cell(2) [OF assms(1,2) _ f, of p] sq assms(2) by auto
    moreover have "\<exists>u. deq_at (((r_pc s)(t := Deq_read p)) u) = Some q" if q: "q < Suc p"
    proof (cases "q = p")
      case False
      then have "\<exists>u. deq_at (r_pc s u) = Some q" using f q assms(4) by (simp add: filled_def)
      then show ?thesis by (rule other_holder) (simp add: pc)
    qed (auto intro: exI [of _ t])
    ultimately show ?thesis using f assms(4) by (simp add: filled_def)
  qed
  then have "cells_ok cap ?s" by (rule cells_ok_keep [OF I(3)])
  moreover have "thread_ok cap ?s (r_pc ?s u)" for u
    using I(4) [of u] assms(4) sq by (cases "u = t"; cases "r_pc s u") simp_all
  moreover have "deq_at (r_pc s u) \<noteq> Some p" for u
    using I(4) [of u] assms(4) by (cases "r_pc s u") auto
  then have "places_apart ?s" by (intro places_apart_go [OF I(5), of t "Deq_read p"]) simp_all
  ultimately show ?thesis using I(1,2,8) full assms(4) by (simp add: ring_ok_def filled_def)
qed

lemma deq_release_ok:
  assumes "ring_ok cap s" "2 \<le> cap" "r_pc s t = Deq_release p x"
  shows "ring_ok cap (go t (Deq_done (Some x)) (s\<lparr>r_seq := (r_seq s)(p mod cap := p + cap)\<rparr>))" (is "ring_ok cap ?s")
proof -
  note I = ring_okD [OF assms(1)]
  have sq: "r_seq s (p mod cap) = Suc p" "p < r_tail s" using I(4) [of t] assms(3) by simp_all
  have full: "filled cap s p" by (rule seq_filled [OF assms(1,2) sq(1)])
  have cell: "\<exists>q'. q' mod cap = q mod cap \<and> (vacant cap ?s q' \<or> filled cap ?s q')" if v: "vacant cap s q \<or> filled cap s q" for q
  proof (cases "q mod cap = p mod cap")
    case True
    have "vacant cap ?s (p + cap)" using full sq by (auto simp: vacant_def filled_def)
    then show ?thesis using True by (intro exI [of _ "p + cap"]) simp
  next
    case False
    have "\<exists>u. deq_at (((r_pc s)(t := Deq_done (Some x))) u) = Some q" if "\<exists>u. deq_at (r_pc s u) = Some q"
      by (rule other_holder [OF that]) (use assms(3) False in auto)
    moreover have "\<exists>u. enq_at (((r_pc s)(t := Deq_done (Some x))) u) = Some q" if "\<exists>u. enq_at (r_pc s u) = Some q"
      by (rule other_holder [OF that]) (use assms(3) in auto)
    ultimately have "vacant cap ?s q \<or> filled cap ?s q" using v
      by (simp add: vacant_def filled_def fun_upd_other [OF False] del: fun_upd_apply) blast
    then show ?thesis by (intro exI [of _ q]) simp
  qed
  have "cells_ok cap ?s" by (rule cells_okI [OF cell I(3)])
  moreover have "thread_ok cap ?s (r_pc ?s u)" for u
  proof (cases "u = t")
    case False
    have "q mod cap \<noteq> p mod cap" if h: "deq_at (r_pc s u) = Some q" for q
    proof
      assume e: "q mod cap = p mod cap"
      have "r_seq s (q mod cap) = Suc q" using I(4) [of u] h by (cases "r_pc s u") simp_all
      then have "q = p" by (simp only: e sq(1) nat.inject)
      then show False using I(7) [of t p u] assms(3) h False by simp
    qed
    moreover have "r_tail s mod cap \<noteq> p mod cap" if "r_seq s (r_tail s mod cap) = Suc (r_tail s)" using sq that by auto
    moreover have "q mod cap \<noteq> p mod cap" if "r_seq s (q mod cap) = q" for q
      using next_cell [OF assms(2), of p] sq(1) that by auto
    ultimately show ?thesis using False I(4) [of u] by (cases "r_pc s u") auto
  qed simp
  moreover have "places_apart ?s" by (rule places_apart_go [OF I(5), of t "Deq_done (Some x)"]) simp_all
  ultimately show ?thesis using I(1,2,8) by (simp add: ring_ok_def)
qed

lemma ring_step_ok:
  assumes "ring_step cap s s'" "ring_ok cap s" "2 \<le> cap"
  shows "ring_ok cap s'"
  using assms(1)
proof cases
  case (d_read t p)
  have "thread_ok cap s (Deq_read p)" using ring_okD(4) [OF assms(2), of t] d_read(2) by simp
  then have "r_data s (p mod cap) = r_hist s ! p" using seq_filled [OF assms(2,3), of p] by (simp add: filled_def)
  then show ?thesis using d_read ring_okD(4) [OF assms(2), of t] by (simp add: ring_ok_go [OF assms(2)])
next
  case (e_go t x p)
  have "thread_ok cap s (Enq_seq x p)" using ring_okD(4) [OF assms(2), of t] e_go(2) by simp
  then have "thread_ok cap s (Enq_cas x p)" unfolding thread_ok.simps using e_go(3) by blast
  then show ?thesis unfolding e_go(1) by (intro ring_ok_go [OF assms(2)]) (simp_all add: e_go(2))
next
  case (d_go t p)
  have "thread_ok cap s (Deq_seq p)" using ring_okD(4) [OF assms(2), of t] d_go(2) by simp
  then have "thread_ok cap s (Deq_cas p)" unfolding thread_ok.simps using d_go(3) by blast
  then show ?thesis unfolding d_go(1) by (intro ring_ok_go [OF assms(2)]) (simp_all add: d_go(2))
qed (simp_all add: ring_ok_go [OF assms(2)] assms(2) enq_take_ok [OF assms(2,3)] enq_write_ok [OF assms(2,3)]
    enq_release_ok [OF assms(2,3)] deq_take_ok [OF assms(2,3)] deq_release_ok [OF assms(2,3)])

subsection \<open>The bounded queue that the ring implements\<close>

datatype 'a fifo_pc = F_quiet | F_push 'a | F_pop | F_pushed bool | F_popped "'a option"

record 'a fifo =
  f_items :: "'a list"
  f_pc :: "nat \<Rightarrow> 'a fifo_pc"

text \<open>
  An operation takes effect in one step. A \<open>push\<close> is refused when the queue is full, or while the
  room is still in use by a \<open>pop\<close> that has taken effect and has not returned; a \<open>pop\<close> is
  refused when the queue is empty, or while a \<open>push\<close> has not returned.
\<close>

inductive fifo_step :: "nat \<Rightarrow> 'a fifo \<Rightarrow> 'a fifo \<Rightarrow> bool" for cap s where
  f_stay: "fifo_step cap s s"
| f_call_push: "f_pc s t = F_quiet \<Longrightarrow> fifo_step cap s (s\<lparr>f_pc := (f_pc s)(t := F_push x)\<rparr>)"
| f_call_pop: "f_pc s t = F_quiet \<Longrightarrow> fifo_step cap s (s\<lparr>f_pc := (f_pc s)(t := F_pop)\<rparr>)"
| f_return_push: "f_pc s t = F_pushed b \<Longrightarrow> fifo_step cap s (s\<lparr>f_pc := (f_pc s)(t := F_quiet)\<rparr>)"
| f_return_pop: "f_pc s t = F_popped y \<Longrightarrow> fifo_step cap s (s\<lparr>f_pc := (f_pc s)(t := F_quiet)\<rparr>)"
| f_append: "f_pc s t = F_push x \<Longrightarrow> length (f_items s) < cap \<Longrightarrow>
    fifo_step cap s (s\<lparr>f_items := f_items s @ [x], f_pc := (f_pc s)(t := F_pushed True)\<rparr>)"
| f_refuse: "f_pc s t = F_push x \<Longrightarrow> cap \<le> length (f_items s) \<or> (\<exists>u y. f_pc s u = F_popped (Some y)) \<Longrightarrow>
    fifo_step cap s (s\<lparr>f_pc := (f_pc s)(t := F_pushed False)\<rparr>)"
| f_remove: "f_pc s t = F_pop \<Longrightarrow> f_items s = x # xs \<Longrightarrow>
    fifo_step cap s (s\<lparr>f_items := xs, f_pc := (f_pc s)(t := F_popped (Some x))\<rparr>)"
| f_none: "f_pc s t = F_pop \<Longrightarrow> f_items s = [] \<or> (\<exists>u. f_pc s u = F_pushed True) \<Longrightarrow>
    fifo_step cap s (s\<lparr>f_pc := (f_pc s)(t := F_popped None)\<rparr>)"

fun fifo_pc_of :: "'a list \<Rightarrow> ('a, nat) mpmc_pc \<Rightarrow> 'a fifo_pc" where
  "fifo_pc_of h Quiet = F_quiet"
| "fifo_pc_of h (Enq_load x) = F_push x"
| "fifo_pc_of h (Enq_seq x p) = F_push x"
| "fifo_pc_of h (Enq_cas x p) = F_push x"
| "fifo_pc_of h (Enq_write x p) = F_pushed True"
| "fifo_pc_of h (Enq_release p) = F_pushed True"
| "fifo_pc_of h (Enq_done b) = F_pushed b"
| "fifo_pc_of h Deq_load = F_pop"
| "fifo_pc_of h (Deq_seq p) = F_pop"
| "fifo_pc_of h (Deq_cas p) = F_pop"
| "fifo_pc_of h (Deq_read p) = F_popped (Some (h ! p))"
| "fifo_pc_of h (Deq_release p x) = F_popped (Some x)"
| "fifo_pc_of h (Deq_done y) = F_popped y"

definition fifo_of :: "'a ring \<Rightarrow> 'a fifo" where
  "fifo_of s = \<lparr>f_items = drop (r_tail s) (r_hist s), f_pc = (\<lambda>t. fifo_pc_of (r_hist s) (r_pc s t))\<rparr>"

lemma fifo_of_go:
  "f_items (fifo_of s) = drop (r_tail s) (r_hist s)" "f_pc (fifo_of s) t = fifo_pc_of (r_hist s) (r_pc s t)"
  "fifo_of (go t pc s) = (fifo_of s)\<lparr>f_pc := (f_pc (fifo_of s))(t := fifo_pc_of (r_hist s) pc)\<rparr>"
  by (auto simp: fifo_of_def go_def)

lemma fifo_go_same: "fifo_pc_of (r_hist s) pc = fifo_pc_of (r_hist s) (r_pc s t) \<Longrightarrow> fifo_step cap (fifo_of s) (fifo_of (go t pc s))"
proof -
  assume "fifo_pc_of (r_hist s) pc = fifo_pc_of (r_hist s) (r_pc s t)"
  then have "fifo_of (go t pc s) = fifo_of s" by (auto simp: fifo_of_def go_def)
  then show ?thesis by (simp add: f_stay)
qed

lemma holder_pushed: "enq_at pc = Some p \<Longrightarrow> fifo_pc_of h pc = F_pushed True"
  by (cases pc) simp_all

lemma holder_popped: "deq_at pc = Some p \<Longrightarrow> \<exists>y. fifo_pc_of h pc = F_popped (Some y)"
  by (cases pc) simp_all

lemma below_place: "p' mod cap = p mod cap \<Longrightarrow> p' < p \<Longrightarrow> p' + cap \<le> (p :: nat)"
proof -
  assume e: "p' mod cap = p mod cap" and l: "p' < p"
  have "cap dvd p - p'" using mod_eq_dvd_iff_nat [of p' p cap] e l by simp
  then have "cap \<le> p - p'" using l by (intro dvd_imp_le) simp_all
  then show "p' + cap \<le> p" using l by simp
qed

text \<open>The answers \<open>false\<close> of \<open>push\<close> and \<open>pop\<close>.\<close>

lemma push_refused:
  assumes "ring_ok cap s" "2 \<le> cap" "r_pc s t = Enq_seq x p" "r_seq s (p mod cap) < p"
  shows "cap \<le> length (f_items (fifo_of s)) \<or> (\<exists>u y. f_pc (fifo_of s) u = F_popped (Some y))"
proof -
  note I = ring_okD [OF assms(1)]
  have p: "p \<le> r_head s" using I(4) [of t] assms(3) by simp
  obtain p' where p': "p' mod cap = p mod cap" "vacant cap s p' \<or> filled cap s p'" by (rule cell_at [OF assms(1,2)])
  have "r_seq s (p mod cap) = p' \<or> r_seq s (p mod cap) = Suc p'" using p'(2) unfolding vacant_def filled_def p'(1) by blast
  then have "p' + cap \<le> p" using assms(4) by (intro below_place [OF p'(1)]) auto
  moreover have "r_tail s \<le> p' \<or> (\<exists>u. deq_at (r_pc s u) = Some p')" using p'(2) unfolding vacant_def filled_def by (metis not_le_imp_less)
  ultimately have "cap \<le> r_head s - r_tail s \<or> (\<exists>u. deq_at (r_pc s u) = Some p')" using p by auto
  then show ?thesis using I(1) holder_popped [of _ p' "r_hist s"] by (metis fifo_of_go(1,2) length_drop)
qed

lemma pop_refused:
  assumes "ring_ok cap s" "2 \<le> cap" "r_pc s t = Deq_seq p" "r_seq s (p mod cap) < Suc p"
  shows "f_items (fifo_of s) = [] \<or> (\<exists>u. f_pc (fifo_of s) u = F_pushed True)"
proof -
  note I = ring_okD [OF assms(1)]
  have p: "p \<le> r_tail s" using I(4) [of t] assms(3) by simp
  obtain p' where p': "p' mod cap = p mod cap" "vacant cap s p' \<or> filled cap s p'" by (rule cell_at [OF assms(1,2)])
  from p'(2) have "r_head s \<le> r_tail s \<or> (\<exists>u. enq_at (r_pc s u) = Some p')"
  proof
    assume v: "vacant cap s p'"
    then have "r_seq s (p mod cap) = p'" unfolding vacant_def p'(1) by blast
    then have "p' \<le> r_tail s" using assms(4) p by simp
    with v show ?thesis by (auto simp: vacant_def)
  next
    assume f: "filled cap s p'"
    then have "r_seq s (p mod cap) = Suc p'" unfolding filled_def p'(1) by blast
    then have "p' + cap \<le> p" using assms(4) by (intro below_place [OF p'(1)]) simp
    with f p show ?thesis by (auto simp: filled_def)
  qed
  then show ?thesis using I(1) holder_pushed [of _ p' "r_hist s"] by (metis drop_all fifo_of_go(1,2))
qed

lemma fifo_pc_of_append: "thread_ok cap s pc \<Longrightarrow> r_tail s \<le> length (r_hist s) \<Longrightarrow> fifo_pc_of (r_hist s @ [x]) pc = fifo_pc_of (r_hist s) pc"
  by (cases pc) (simp_all add: nth_append)

lemma take_appends:
  assumes "ring_ok cap s" "2 \<le> cap" "r_pc s t = Enq_cas x p" "r_head s = p"
  shows "fifo_step cap (fifo_of s) (fifo_of (go t (Enq_write x p) (s\<lparr>r_head := Suc p, r_hist := r_hist s @ [x]\<rparr>)))"
proof -
  note I = ring_okD [OF assms(1)]
  have "r_seq s (p mod cap) = p" using I(4) [of t] assms(3,4) by simp
  then have "p < r_tail s + cap" using seq_vacant [OF assms(1,2)] by (simp add: vacant_def)
  then have len: "length (f_items (fifo_of s)) < cap" using I(1,2) assms(4) by (simp add: fifo_of_go)
  have "fifo_pc_of (r_hist s @ [x]) (r_pc s u) = fifo_pc_of (r_hist s) (r_pc s u)" for u
    using fifo_pc_of_append [OF I(4)] I(1,2) by simp
  then have "fifo_of (go t (Enq_write x p) (s\<lparr>r_head := Suc p, r_hist := r_hist s @ [x]\<rparr>)) =
      (fifo_of s)\<lparr>f_items := f_items (fifo_of s) @ [x], f_pc := (f_pc (fifo_of s))(t := F_pushed True)\<rparr>"
    using I(1,2) by (simp add: fifo_of_def go_def fun_eq_iff)
  then show ?thesis using f_append [of "fifo_of s" t x cap] len assms(3) by (simp add: fifo_of_go)
qed

lemma take_removes:
  assumes "ring_ok cap s" "2 \<le> cap" "r_pc s t = Deq_cas p" "r_tail s = p"
  shows "fifo_step cap (fifo_of s) (fifo_of (go t (Deq_read p) (s\<lparr>r_tail := Suc p\<rparr>)))"
proof -
  note I = ring_okD [OF assms(1)]
  have "r_seq s (p mod cap) = Suc p" using I(4) [of t] assms(3,4) by simp
  then have "p < r_head s" using seq_filled [OF assms(1,2)] by (simp add: filled_def)
  then have "f_items (fifo_of s) = r_hist s ! p # drop (Suc p) (r_hist s)"
    using I(1) assms(4) Cons_nth_drop_Suc [of p "r_hist s"] by (simp add: fifo_of_go)
  moreover have "fifo_of (go t (Deq_read p) (s\<lparr>r_tail := Suc p\<rparr>)) =
      (fifo_of s)\<lparr>f_items := drop (Suc p) (r_hist s), f_pc := (f_pc (fifo_of s))(t := F_popped (Some (r_hist s ! p)))\<rparr>"
    by (auto simp: fifo_of_def go_def)
  ultimately show ?thesis using f_remove [of "fifo_of s" t "r_hist s ! p" "drop (Suc p) (r_hist s)" cap] assms(3) by (simp add: fifo_of_go)
qed

lemma ring_refines_fifo:
  assumes "ring_step cap s s'" "ring_ok cap s" "2 \<le> cap"
  shows "fifo_step cap (fifo_of s) (fifo_of s')"
  using assms(1)
proof cases
  case stay
  then show ?thesis by (simp add: f_stay)
next
  case (call_push t x)
  then show ?thesis using f_call_push [of "fifo_of s" t cap x] by (simp add: fifo_of_go)
next
  case (call_pop t)
  then show ?thesis using f_call_pop [of "fifo_of s" t cap] by (simp add: fifo_of_go)
next
  case (ret_push t b)
  then show ?thesis using f_return_push [of "fifo_of s" t b cap] by (simp add: fifo_of_go)
next
  case (ret_pop t y)
  then show ?thesis using f_return_pop [of "fifo_of s" t y cap] by (simp add: fifo_of_go)
next
  case (e_full t x p)
  then show ?thesis using f_refuse [of "fifo_of s" t x cap] push_refused [OF assms(2,3) e_full(2,3)] by (simp add: fifo_of_go)
next
  case (e_take t x p)
  then show ?thesis using take_appends [OF assms(2,3) e_take(2,3)] by simp
next
  case (e_write t x p)
  have "fifo_of s' = fifo_of (go t (Enq_release p) s)" using e_write by (simp add: fifo_of_def go_def)
  then show ?thesis using fifo_go_same [of s "Enq_release p" t cap] e_write by simp
next
  case (e_release t p)
  have "fifo_of s' = fifo_of (go t (Enq_done True) s)" using e_release by (simp add: fifo_of_def go_def)
  then show ?thesis using fifo_go_same [of s "Enq_done True" t cap] e_release by simp
next
  case (d_none t p)
  then show ?thesis using f_none [of "fifo_of s" t cap] pop_refused [OF assms(2,3) d_none(2,3)] by (simp add: fifo_of_go)
next
  case (d_take t p)
  then show ?thesis using take_removes [OF assms(2,3) d_take(2,3)] by simp
next
  case (d_read t p)
  have "r_seq s (p mod cap) = Suc p" using ring_okD(4) [OF assms(2), of t] d_read(2) by simp
  then have "r_data s (p mod cap) = r_hist s ! p" using seq_filled [OF assms(2,3)] by (simp add: filled_def)
  then show ?thesis using d_read by (simp add: fifo_go_same)
next
  case (d_release t p x)
  have "fifo_of s' = fifo_of (go t (Deq_done (Some x)) s)" using d_release by (simp add: fifo_of_def go_def)
  then show ?thesis using fifo_go_same [of s "Deq_done (Some x)" t cap] d_release by simp
qed (simp_all add: fifo_go_same)

end
