(* ===== verification/Mpmc_Correct.thy ===== *)
theory Mpmc_Correct
  imports Mpmc_Ring
begin

text \<open>
  The lock-free queue with 64-bit counters: as long as fewer than about \<open>2 ^ 63\<close> items have been
  given a place, its steps are steps of the ring with unbounded counters, hence of a bounded
  first-in first-out queue.
\<close>

subsection \<open>From words to numbers\<close>

definition ring_of :: "'a mpmc \<Rightarrow> 'a ring" where
  "ring_of s = \<lparr>r_head = unat (q_head (m_queue s)), r_tail = unat (q_tail (m_queue s)),
     r_seq = (\<lambda>i. unat (c_sequence (q_buffer (m_queue s) i))), r_data = (\<lambda>i. c_data (q_buffer (m_queue s) i)),
     r_hist = m_hist s, r_pc = (\<lambda>t. map_mpmc_pc id unat (m_pc s t))\<rparr>"

definition capacity :: "nat \<Rightarrow> bool" where
  "capacity cap \<longleftrightarrow> (\<exists>c. cap = 2 ^ c \<and> 1 \<le> c \<and> c \<le> 62)"

text \<open>The counters have not wrapped.\<close>

definition short :: "nat \<Rightarrow> 'a mpmc \<Rightarrow> bool" where
  "short cap s \<longleftrightarrow> length (m_hist s) + cap + 1 < 2 ^ 63"

lemma capacity_two: "capacity cap \<Longrightarrow> 2 \<le> cap"
proof -
  assume "capacity cap"
  then obtain c where "cap = 2 ^ c" "1 \<le> c" by (auto simp: capacity_def)
  then show "2 \<le> cap" using power_increasing [of 1 c "2 :: nat"] by simp
qed

lemma cell_index_mod: "capacity cap \<Longrightarrow> cell_index cap pos = unat pos mod cap"
proof -
  assume "capacity cap"
  then obtain c where c: "cap = 2 ^ c" by (auto simp: capacity_def)
  have "of_nat cap - 1 = (mask c :: u64)" by (simp add: c mask_eq_exp_minus_1)
  then have "cell_index cap pos = unat (take_bit c pos)" by (simp add: cell_index_def take_bit_eq_mask)
  also have "\<dots> = take_bit c (unat pos)" by (rule unsigned_take_bit_eq)
  also have "\<dots> = unat pos mod cap" by (simp add: c take_bit_eq_mod)
  finally show ?thesis .
qed

lemma sint_diff:
  fixes a b :: u64
  assumes "unat a < 2 ^ 63" "unat b < 2 ^ 63"
  shows "sint (a - b) = int (unat a) - int (unat b)"
proof -
  have s: "sint x = uint x \<and> 0 \<le> uint x \<and> uint x < 2 ^ 63" if "unat x < 2 ^ 63" for x :: u64
  proof -
    have "int (unat x) < int (2 ^ 63)" using that by (simp only: of_nat_less_iff)
    then have "int (unat x) < 2 ^ 63" by (simp only: of_nat_power of_nat_numeral)
    then have l: "uint x < 2 ^ 63" by (simp only: uint_nat)
    have "sint x = signed_take_bit 63 (uint x)" by (simp add: sint_uint)
    also have "\<dots> = uint x" by (rule signed_take_bit_int_eq_self) (use l uint_ge_0 [of x] in linarith)+
    finally show ?thesis using l by simp
  qed
  have "sint (a - b) = signed_take_bit 63 (sint a - sint b)" by (simp add: sint_word_ariths)
  also have "\<dots> = sint a - sint b"
    by (rule signed_take_bit_int_eq_self) (use s [OF assms(1)] s [OF assms(2)] in linarith)+
  finally show ?thesis using s [OF assms(1)] s [OF assms(2)] by (simp only: uint_nat)
qed

lemma diff_sign:
  fixes a b :: u64
  assumes "unat a < 2 ^ 63" "unat b < 2 ^ 63"
  shows "sint (a - b) = 0 \<longleftrightarrow> unat a = unat b" "sint (a - b) < 0 \<longleftrightarrow> unat a < unat b"
  unfolding sint_diff [OF assms] by linarith+

lemma unat_add_small: "unat a + n < 2 ^ 64 \<Longrightarrow> unat (a + of_nat n) = unat a + n" for a :: u64
  by (simp add: unat_word_ariths unat_of_nat)

lemma ring_of_simps [simp]:
  "r_head (ring_of s) = unat (q_head (m_queue s))" "r_tail (ring_of s) = unat (q_tail (m_queue s))"
  "r_seq (ring_of s) i = unat (c_sequence (q_buffer (m_queue s) i))" "r_data (ring_of s) i = c_data (q_buffer (m_queue s) i)"
  "r_hist (ring_of s) = m_hist s" "r_pc (ring_of s) t = map_mpmc_pc id unat (m_pc s t)"
  by (simp_all add: ring_of_def)

lemma ring_of_pc: "ring_of (s\<lparr>m_pc := (m_pc s)(t := pc)\<rparr>) = go t (map_mpmc_pc id unat pc) (ring_of s)"
  by (auto simp: ring_of_def go_def)

lemma ring_of_data:
  "capacity cap \<Longrightarrow> ring_of (s\<lparr>m_queue := set_data cap pos x (m_queue s)\<rparr>) = (ring_of s)\<lparr>r_data := (r_data (ring_of s))(unat pos mod cap := x)\<rparr>"
  by (auto simp: ring_of_def set_data_def cell_index_mod)

lemma ring_of_sequence:
  "capacity cap \<Longrightarrow> ring_of (s\<lparr>m_queue := set_sequence cap pos w (m_queue s)\<rparr>) = (ring_of s)\<lparr>r_seq := (r_seq (ring_of s))(unat pos mod cap := unat w)\<rparr>"
  by (auto simp: ring_of_def set_sequence_def cell_index_mod)

text \<open>All counters are small in a state that satisfies the invariant.\<close>

lemma small_sequence:
  assumes "ring_ok cap (ring_of s)" "capacity cap" "short cap s"
  shows "unat (sequence_at cap pos (m_queue s)) < 2 ^ 63"
proof -
  note I = ring_okD [OF assms(1)]
  obtain p where "p mod cap = unat pos mod cap" "vacant cap (ring_of s) p \<or> filled cap (ring_of s) p"
    by (rule cell_at [OF assms(1) capacity_two [OF assms(2)]])
  then have "unat (sequence_at cap pos (m_queue s)) \<le> unat (q_head (m_queue s)) + cap"
    using I(2) by (auto simp: vacant_def filled_def sequence_at_def cell_index_mod [OF assms(2)])
  then show ?thesis using I(1) assms(3) by (simp add: short_def)
qed

lemma small_positions:
  assumes "ring_ok cap (ring_of s)" "short cap s"
  shows "unat (q_head (m_queue s)) + cap + 1 < 2 ^ 63" "unat (q_tail (m_queue s)) + cap + 1 < 2 ^ 63"
    "set2_mpmc_pc (m_pc s t) \<subseteq> {p. unat p + cap + 1 < 2 ^ 63}"
proof -
  note I = ring_okD [OF assms(1)]
  have h: "unat (q_head (m_queue s)) + cap + 1 < 2 ^ 63" "unat (q_tail (m_queue s)) \<le> unat (q_head (m_queue s))"
    using I(1,2) assms(2) by (simp_all add: short_def)
  then show "unat (q_head (m_queue s)) + cap + 1 < 2 ^ 63" "unat (q_tail (m_queue s)) + cap + 1 < 2 ^ 63" by simp_all
  show "set2_mpmc_pc (m_pc s t) \<subseteq> {p. unat p + cap + 1 < 2 ^ 63}"
    using I(4) [of t] h by (cases "m_pc s t") auto
qed

subsection \<open>Simulation\<close>

lemma place_taken_same [simp]: "place_taken pc pc = []"
  by (cases pc) simp_all

lemma push_step_ring:
  assumes "capacity cap" "ring_ok cap (ring_of s)" "short cap s" "enqueue_step cap spurious (m_pc s t) (m_queue s) = (pc, q)"
  shows "ring_step cap (ring_of s) (ring_of (s\<lparr>m_queue := q, m_pc := (m_pc s)(t := pc), m_hist := m_hist s @ place_taken (m_pc s t) pc\<rparr>))"
proof (cases "m_pc s t")
  case (Enq_load x)
  then show ?thesis using assms(4) e_load [of "ring_of s" t x cap] by (auto simp: ring_of_pc)
next
  case (Enq_seq x pos)
  have b: "unat (sequence_at cap pos (m_queue s)) < 2 ^ 63" "unat pos < 2 ^ 63"
    using small_sequence [OF assms(2,1,3)] small_positions(3) [OF assms(2,3), of t] Enq_seq by auto
  have r: "r_pc (ring_of s) t = Enq_seq x (unat pos)" using Enq_seq by simp
  have q: "r_seq (ring_of s) (unat pos mod cap) = unat (sequence_at cap pos (m_queue s))"
    by (simp add: sequence_at_def cell_index_mod [OF assms(1)])
  show ?thesis using assms(4) e_go [OF r, of cap, unfolded q] e_full [OF r, of cap, unfolded q] e_again [OF r, of cap, unfolded q]
    by (auto simp: Enq_seq Let_def diff_sign [OF b] ring_of_pc split: if_splits)
next
  case (Enq_cas x pos)
  have r: "r_pc (ring_of s) t = Enq_cas x (unat pos)" using Enq_cas by simp
  show ?thesis
  proof (cases "q_head (m_queue s) = pos \<and> \<not> spurious")
    case True
    have "unat (pos + 1) = Suc (unat pos)" using small_positions(1) [OF assms(2,3)] True by (simp add: unat_word_ariths)
    then have "ring_of (s\<lparr>m_queue := q, m_pc := (m_pc s)(t := pc), m_hist := m_hist s @ place_taken (m_pc s t) pc\<rparr>) =
        go t (Enq_write x (unat pos)) ((ring_of s)\<lparr>r_head := Suc (unat pos), r_hist := r_hist (ring_of s) @ [x]\<rparr>)"
      using assms(4) Enq_cas True by (auto simp: ring_of_def go_def)
    then show ?thesis using e_take [OF r, of cap] True by simp
  next
    case False
    then show ?thesis using assms(4) Enq_cas e_lose [OF r, of cap] by (auto simp: ring_of_pc)
  qed
next
  case (Enq_write x pos)
  have "ring_of (s\<lparr>m_queue := q, m_pc := (m_pc s)(t := pc), m_hist := m_hist s @ place_taken (m_pc s t) pc\<rparr>) =
      go t (Enq_release (unat pos)) (ring_of (s\<lparr>m_queue := set_data cap pos x (m_queue s)\<rparr>))"
    using assms(4) Enq_write by (auto simp: ring_of_def go_def)
  then show ?thesis using e_write [of "ring_of s" t x "unat pos" cap] Enq_write by (simp add: ring_of_data [OF assms(1)])
next
  case (Enq_release pos)
  have "unat pos + 1 < 2 ^ 63" using small_positions(3) [OF assms(2,3), of t] Enq_release by auto
  then have u: "unat (pos + 1) = Suc (unat pos)" by (simp add: unat_word_ariths)
  have "ring_of (s\<lparr>m_queue := q, m_pc := (m_pc s)(t := pc), m_hist := m_hist s @ place_taken (m_pc s t) pc\<rparr>) =
      go t (Enq_done True) (ring_of (s\<lparr>m_queue := set_sequence cap pos (pos + 1) (m_queue s)\<rparr>))"
    using assms(4) Enq_release by (auto simp: ring_of_def go_def)
  then show ?thesis using e_release [of "ring_of s" t "unat pos" cap] Enq_release by (simp add: ring_of_sequence [OF assms(1)] u)
qed (use assms(4) in \<open>auto simp: fun_upd_idem stay\<close>)

lemma pop_step_ring:
  assumes "capacity cap" "ring_ok cap (ring_of s)" "short cap s" "pop_step cap spurious (m_pc s t) (m_queue s) = (pc, q)"
  shows "ring_step cap (ring_of s) (ring_of (s\<lparr>m_queue := q, m_pc := (m_pc s)(t := pc)\<rparr>))"
proof (cases "m_pc s t")
  case Deq_load
  then show ?thesis using assms(4) d_load [of "ring_of s" t cap] by (auto simp: ring_of_pc)
next
  case (Deq_seq pos)
  have b: "unat (sequence_at cap pos (m_queue s)) < 2 ^ 63" "unat pos + 1 < 2 ^ 63"
    using small_sequence [OF assms(2,1,3)] small_positions(3) [OF assms(2,3), of t] Deq_seq by auto
  then have u: "unat (pos + 1) = Suc (unat pos)" "unat (pos + 1) < 2 ^ 63" by (simp_all add: unat_word_ariths)
  have r: "r_pc (ring_of s) t = Deq_seq (unat pos)" using Deq_seq by simp
  have q: "r_seq (ring_of s) (unat pos mod cap) = unat (sequence_at cap pos (m_queue s))"
    by (simp add: sequence_at_def cell_index_mod [OF assms(1)])
  show ?thesis using assms(4) d_go [OF r, of cap, unfolded q] d_none [OF r, of cap, unfolded q] d_again [OF r, of cap, unfolded q]
    by (auto simp: Deq_seq Let_def diff_sign [OF b(1) u(2)] u(1) ring_of_pc split: if_splits)
next
  case (Deq_cas pos)
  have r: "r_pc (ring_of s) t = Deq_cas (unat pos)" using Deq_cas by simp
  show ?thesis
  proof (cases "q_tail (m_queue s) = pos \<and> \<not> spurious")
    case True
    have "unat (pos + 1) = Suc (unat pos)" using small_positions(2) [OF assms(2,3)] True by (simp add: unat_word_ariths)
    then have "ring_of (s\<lparr>m_queue := q, m_pc := (m_pc s)(t := pc)\<rparr>) =
        go t (Deq_read (unat pos)) ((ring_of s)\<lparr>r_tail := Suc (unat pos)\<rparr>)"
      using assms(4) Deq_cas True by (auto simp: ring_of_def go_def)
    then show ?thesis using d_take [OF r, of cap] True by simp
  next
    case False
    then show ?thesis using assms(4) Deq_cas d_lose [OF r, of cap] by (auto simp: ring_of_pc)
  qed
next
  case (Deq_read pos)
  then show ?thesis using assms(4) d_read [of "ring_of s" t "unat pos" cap] by (auto simp: ring_of_pc cell_index_mod [OF assms(1)])
next
  case (Deq_release pos x)
  have "unat pos + cap < 2 ^ 64" using small_positions(3) [OF assms(2,3), of t] Deq_release by auto
  then have u: "unat (pos + of_nat cap) = unat pos + cap" by (rule unat_add_small)
  have "ring_of (s\<lparr>m_queue := q, m_pc := (m_pc s)(t := pc)\<rparr>) =
      go t (Deq_done (Some x)) (ring_of (s\<lparr>m_queue := set_sequence cap pos (pos + of_nat cap) (m_queue s)\<rparr>))"
    using assms(4) Deq_release by (auto simp: ring_of_def go_def)
  then show ?thesis using d_release [of "ring_of s" t "unat pos" x cap] Deq_release by (simp add: ring_of_sequence [OF assms(1)] u)
qed (use assms(4) in \<open>auto simp: fun_upd_idem stay\<close>)

lemma mpmc_step_ring:
  assumes "capacity cap" "ring_ok cap (ring_of s)" "short cap s" "mpmc_step cap s s'"
  shows "ring_step cap (ring_of s) (ring_of s')"
  using assms(4)
proof cases
  case (invoke_push t item)
  then show ?thesis using call_push [of "ring_of s" t cap item] by (simp add: ring_of_pc)
next
  case (invoke_pop t)
  then show ?thesis using call_pop [of "ring_of s" t cap] by (simp add: ring_of_pc)
next
  case (run_push spurious t pc q)
  then show ?thesis using push_step_ring [OF assms(1-3)] by simp
next
  case (run_pop spurious t pc q)
  then show ?thesis using pop_step_ring [OF assms(1-3)] by simp
next
  case (return_push t r)
  then show ?thesis using ret_push [of "ring_of s" t r cap] by (simp add: ring_of_pc)
next
  case (return_pop t x)
  then show ?thesis using ret_pop [of "ring_of s" t x cap] by (simp add: ring_of_pc option.map_id0)
qed

lemma short_step: "mpmc_step cap s s' \<Longrightarrow> short cap s' \<Longrightarrow> short cap s"
  by (erule mpmc_step.cases) (auto simp: short_def)

lemma start_ok:
  assumes "capacity cap" "short cap (start_mpmc d)"
  shows "ring_ok cap (ring_of (start_mpmc d))"
proof -
  have "vacant cap (ring_of (start_mpmc d)) i" if "i < cap" for i
    using that assms(2) by (simp add: vacant_def start_mpmc_def new_MPMCQueue_def short_def unat_of_nat take_bit_nat_eq_self)
  then have "cells_ok cap (ring_of (start_mpmc d))" unfolding cells_ok_def by (metis mod_less)
  then show ?thesis by (simp add: ring_ok_def places_apart_def start_mpmc_def new_MPMCQueue_def)
qed

lemma mpmc_reach_ok:
  "mpmc_reach cap (start_mpmc d) s \<Longrightarrow> capacity cap \<Longrightarrow> short cap s \<Longrightarrow> ring_ok cap (ring_of s)"
proof (induction rule: mpmc_reach.induct)
  case (reach_step s s')
  have "short cap s" using reach_step(2,5) by (rule short_step)
  then show ?case using ring_step_ok [OF mpmc_step_ring] reach_step capacity_two by blast
qed (rule start_ok)

definition mpmc_fifo :: "'a mpmc \<Rightarrow> 'a fifo" where
  "mpmc_fifo s = fifo_of (ring_of s)"

text \<open>
  C10: The lock-free queue is a bounded first-in first-out queue. In every interleaving of any
  number of threads in which fewer than about \<open>2 ^ 63\<close> items are pushed, every access to the shared
  memory is a step of the abstract queue: an operation takes effect in the exchange of the head
  or of the tail, a \<open>pop\<close> returns the item that was removed there, and \<open>false\<close> is returned only when
  the queue is full or empty or another operation is between its exchange and its return.
\<close>

theorem mpmc_refines_fifo:
  assumes "capacity cap" "mpmc_reach cap (start_mpmc d) s" "mpmc_step cap s s'" "length (m_hist s') + cap + 1 < 2 ^ 63"
  shows "mpmc_fifo (start_mpmc d) = \<lparr>f_items = [], f_pc = (\<lambda>_. F_quiet)\<rparr> \<and> fifo_step cap (mpmc_fifo s) (mpmc_fifo s')"
proof -
  have s: "short cap s" using short_step [OF assms(3)] assms(4) by (simp add: short_def)
  have ok: "ring_ok cap (ring_of s)" by (rule mpmc_reach_ok [OF assms(2,1) s])
  have "fifo_step cap (mpmc_fifo s) (mpmc_fifo s')"
    unfolding mpmc_fifo_def by (rule ring_refines_fifo [OF mpmc_step_ring [OF assms(1) ok s assms(3)] ok capacity_two [OF assms(1)]])
  moreover have "mpmc_fifo (start_mpmc d) = \<lparr>f_items = [], f_pc = (\<lambda>_. F_quiet)\<rparr>"
    by (simp add: mpmc_fifo_def fifo_of_def start_mpmc_def)
  ultimately show ?thesis by simp
qed

text \<open>One thread in \<open>push\<close> takes the first of two cells.\<close>

definition exec_push :: "nat \<Rightarrow> nat \<Rightarrow> 'a mpmc \<Rightarrow> 'a mpmc" where
  "exec_push cap t s = (case enqueue_step cap False (m_pc s t) (m_queue s) of (pc, q) \<Rightarrow>
     s\<lparr>m_queue := q, m_pc := (m_pc s)(t := pc), m_hist := m_hist s @ place_taken (m_pc s t) pc\<rparr>)"

lemma exec_push_step: "mpmc_step cap s (exec_push cap t s)"
  unfolding exec_push_def by (cases "enqueue_step cap False (m_pc s t) (m_queue s)") (simp add: run_push)

definition demo_push :: "nat mpmc" where
  "demo_push = exec_push 2 7 (exec_push 2 7 ((start_mpmc 0)\<lparr>m_pc := (m_pc (start_mpmc 0))(7 := Enq_load 5)\<rparr>))"

lemma demo_push_reach: "mpmc_reach 2 (start_mpmc 0) demo_push"
  unfolding demo_push_def
  by (intro reach_step [OF _ exec_push_step] reach_step [OF reach_start invoke_push]) (simp add: start_mpmc_def)

lemma demo_push_pc: "m_pc demo_push 7 = Enq_cas 5 0" "m_queue demo_push = new_MPMCQueue 0" "m_hist demo_push = []"
  by (simp_all add: demo_push_def exec_push_def start_mpmc_def new_MPMCQueue_def sequence_at_def cell_index_def)

theorem mpmc_refines_fifo_witness:
  "fifo_step 2 (mpmc_fifo demo_push) (mpmc_fifo (exec_push 2 7 demo_push)) \<and>
     f_items (mpmc_fifo demo_push) = [] \<and> f_items (mpmc_fifo (exec_push 2 7 demo_push)) = [5]"
proof -
  have c: "capacity 2" unfolding capacity_def by (intro exI [of _ 1]) simp
  have q: "q_head (new_MPMCQueue 0 :: nat MPMCQueue) = 0" "q_tail (new_MPMCQueue 0 :: nat MPMCQueue) = 0"
    by (simp_all add: new_MPMCQueue_def)
  have "length (m_hist (exec_push 2 7 demo_push)) + 2 + 1 < 2 ^ 63" by (simp add: exec_push_def demo_push_pc q)
  from mpmc_refines_fifo [OF c demo_push_reach exec_push_step this]
  have "fifo_step 2 (mpmc_fifo demo_push) (mpmc_fifo (exec_push 2 7 demo_push))" by simp
  moreover have "f_items (mpmc_fifo demo_push) = []" "f_items (mpmc_fifo (exec_push 2 7 demo_push)) = [5]"
    by (simp_all add: mpmc_fifo_def fifo_of_def exec_push_def demo_push_pc q)
  ultimately show ?thesis by simp
qed

subsection \<open>A thread that runs alone returns\<close>

lemma head_sequence:
  assumes "ring_ok cap s" "2 \<le> cap"
  shows "r_seq s (r_head s mod cap) \<le> r_head s" "r_seq s (r_tail s mod cap) \<le> Suc (r_tail s)"
proof -
  note I = ring_okD [OF assms(1)]
  obtain p where p: "p mod cap = r_head s mod cap" "vacant cap s p \<or> filled cap s p" by (rule cell_at [OF assms])
  have v: "vacant cap s p \<Longrightarrow> r_seq s (r_head s mod cap) = p \<and> p < r_tail s + cap"
    and f: "filled cap s p \<Longrightarrow> r_seq s (r_head s mod cap) = Suc p \<and> p < r_head s"
    unfolding vacant_def filled_def p(1) by blast+
  show "r_seq s (r_head s mod cap) \<le> r_head s"
    using below_place [of "r_head s" cap p] p v f I(2) by (cases "r_head s < p") auto
  obtain p where p: "p mod cap = r_tail s mod cap" "vacant cap s p \<or> filled cap s p" by (rule cell_at [OF assms])
  have v: "vacant cap s p \<Longrightarrow> r_seq s (r_tail s mod cap) = p \<and> p < r_tail s + cap"
    and f: "filled cap s p \<Longrightarrow> r_seq s (r_tail s mod cap) = Suc p \<and> p < r_head s"
    unfolding vacant_def filled_def p(1) by blast+
  show "r_seq s (r_tail s mod cap) \<le> Suc (r_tail s)"
    using below_place [of "r_tail s" cap p] p v f I(8) by (cases "r_tail s < p") auto
qed

fun pushing :: "('a, 'p) mpmc_pc \<Rightarrow> bool" where
  "pushing (Enq_load _) = True" | "pushing (Enq_seq _ _) = True" | "pushing (Enq_cas _ _) = True"
| "pushing (Enq_write _ _) = True" | "pushing (Enq_release _) = True" | "pushing (Enq_done _) = True"
| "pushing _ = False"

fun popping :: "('a, 'p) mpmc_pc \<Rightarrow> bool" where
  "popping Deq_load = True" | "popping (Deq_seq _) = True" | "popping (Deq_cas _) = True"
| "popping (Deq_read _) = True" | "popping (Deq_release _ _) = True" | "popping (Deq_done _) = True"
| "popping _ = False"

text \<open>A thread that is at the end of its operation within a number of steps.\<close>

definition ends :: "(('a, u64) mpmc_pc \<Rightarrow> 'a MPMCQueue \<Rightarrow> ('a, u64) mpmc_pc \<times> 'a MPMCQueue) \<Rightarrow> (('a, u64) mpmc_pc \<Rightarrow> bool) \<Rightarrow>
    nat \<Rightarrow> ('a, u64) mpmc_pc \<Rightarrow> 'a MPMCQueue \<Rightarrow> bool" where
  "ends f final n pc q \<longleftrightarrow> final (fst (run_alone f n pc q))"

lemma ends_Suc: "ends f final (Suc n) pc q = (case f pc q of (pc', q') \<Rightarrow> ends f final n pc' q')"
  by (simp add: ends_def split: prod.splits)

lemma ends_step: "f pc q = (pc', q') \<Longrightarrow> ends f final n pc' q' \<Longrightarrow> ends f final (Suc n) pc q"
  by (simp add: ends_def)

lemma ends_more:
  assumes "ends f final m pc q" "m \<le> n" "\<And>pc q. final pc \<Longrightarrow> f pc q = (pc, q)"
  shows "ends f final n pc q"
  using assms(1,2)
proof (induction m arbitrary: n pc q)
  case 0
  then have "f pc q = (pc, q)" "final pc" using assms(3) by (simp_all add: ends_def)
  then have "run_alone f n pc q = (pc, q)" by (induction n) simp_all
  then show ?case using 0 by (simp add: ends_def)
next
  case (Suc m)
  then obtain k where "n = Suc k" "m \<le> k" by (cases n) auto
  then show ?case using Suc by (simp add: ends_def split: prod.splits)
qed

fun is_enq_done :: "('a, 'p) mpmc_pc \<Rightarrow> bool" where
  "is_enq_done (Enq_done b) = True" | "is_enq_done _ = False"

fun is_deq_done :: "('a, 'p) mpmc_pc \<Rightarrow> bool" where
  "is_deq_done (Deq_done b) = True" | "is_deq_done _ = False"

abbreviation push_ends :: "nat \<Rightarrow> nat \<Rightarrow> ('a, u64) mpmc_pc \<Rightarrow> 'a MPMCQueue \<Rightarrow> bool" where
  "push_ends cap \<equiv> ends (enqueue_step cap False) is_enq_done"

abbreviation pop_ends :: "nat \<Rightarrow> nat \<Rightarrow> ('a, u64) mpmc_pc \<Rightarrow> 'a MPMCQueue \<Rightarrow> bool" where
  "pop_ends cap \<equiv> ends (pop_step cap False) is_deq_done"

lemma push_ends_more: "push_ends cap m pc q \<Longrightarrow> m \<le> n \<Longrightarrow> push_ends cap n pc q"
  by (erule (1) ends_more) (auto elim: is_enq_done.elims)

lemma pop_ends_more: "pop_ends cap m pc q \<Longrightarrow> m \<le> n \<Longrightarrow> pop_ends cap n pc q"
  by (erule (1) ends_more) (auto elim: is_deq_done.elims)

lemma push_ends_held: "push_ends cap 2 (Enq_write x pos) q" "push_ends cap 1 (Enq_release pos) q" "push_ends cap 0 (Enq_done b) q"
  by (simp_all add: ends_def numeral_eq_Suc)

lemma pop_ends_held: "pop_ends cap 2 (Deq_read pos) q" "pop_ends cap 1 (Deq_release pos x) q" "pop_ends cap 0 (Deq_done y) q"
  by (simp_all add: ends_def numeral_eq_Suc)

lemma push_ends_head:
  assumes "capacity cap" "ring_ok cap (ring_of s)" "short cap s"
  shows "push_ends cap 4 (Enq_seq x (q_head (m_queue s))) (m_queue s)"
proof -
  let ?q = "m_queue s"
  have b: "unat (sequence_at cap (q_head ?q) ?q) < 2 ^ 63" "unat (q_head ?q) < 2 ^ 63"
    using small_sequence [OF assms(2,1,3)] small_positions(1) [OF assms(2,3)] by simp_all
  have "unat (sequence_at cap (q_head ?q) ?q) \<le> unat (q_head ?q)"
    using head_sequence(1) [OF assms(2) capacity_two [OF assms(1)]] by (simp add: sequence_at_def cell_index_mod [OF assms(1)])
  then show ?thesis by (auto simp: ends_def numeral_eq_Suc Let_def diff_sign [OF b])
qed

lemma pop_ends_tail:
  assumes "capacity cap" "ring_ok cap (ring_of s)" "short cap s"
  shows "pop_ends cap 4 (Deq_seq (q_tail (m_queue s))) (m_queue s)"
proof -
  let ?q = "m_queue s"
  have b: "unat (sequence_at cap (q_tail ?q) ?q) < 2 ^ 63" "unat (q_tail ?q) + 1 < 2 ^ 63"
    using small_sequence [OF assms(2,1,3)] small_positions(2) [OF assms(2,3)] by simp_all
  then have u: "unat (q_tail ?q + 1) = Suc (unat (q_tail ?q))" "unat (q_tail ?q + 1) < 2 ^ 63" by (simp_all add: unat_word_ariths)
  have "unat (sequence_at cap (q_tail ?q) ?q) \<le> unat (q_tail ?q + 1)"
    using head_sequence(2) [OF assms(2) capacity_two [OF assms(1)]] by (simp add: sequence_at_def cell_index_mod [OF assms(1)] u(1))
  then show ?thesis by (auto simp: ends_def numeral_eq_Suc Let_def diff_sign [OF b(1) u(2)])
qed

lemma push_ends_six:
  assumes "\<And>x. push_ends cap 4 (Enq_seq x (q_head q)) q" "pushing pc"
  shows "push_ends cap 6 pc q"
proof -
  have load: "push_ends cap 5 (Enq_load x) q" for x using ends_step [OF _ assms(1) [of x]] by simp
  have cas: "push_ends cap 5 (Enq_cas x pos) q" for x pos
  proof (cases "q_head q = pos")
    case True
    then have "push_ends cap 3 (Enq_cas x pos) q" by (simp add: ends_def numeral_eq_Suc)
    then show ?thesis by (rule push_ends_more) simp
  next
    case False
    then show ?thesis using ends_step [OF _ assms(1) [of x]] by simp
  qed
  have "push_ends cap (Suc 5) (Enq_seq x pos) q" for x pos
    unfolding ends_Suc using load [of x] cas [of x pos] push_ends_more [OF push_ends_held(3) [of cap False q], of 5] by (simp add: Let_def)
  then show ?thesis using assms(2) push_ends_more [OF load] push_ends_more [OF cas] push_ends_more [OF push_ends_held(1) [where q = q]]
      push_ends_more [OF push_ends_held(2) [where q = q]] push_ends_more [OF push_ends_held(3) [where q = q]] by (cases pc) simp_all
qed

lemma pop_ends_six:
  assumes "pop_ends cap 4 (Deq_seq (q_tail q)) q" "popping pc"
  shows "pop_ends cap 6 pc q"
proof -
  have load: "pop_ends cap 5 Deq_load q" using ends_step [OF _ assms(1)] by simp
  have cas: "pop_ends cap 5 (Deq_cas pos) q" for pos
  proof (cases "q_tail q = pos")
    case True
    then have "pop_ends cap 3 (Deq_cas pos) q" by (simp add: ends_def numeral_eq_Suc)
    then show ?thesis by (rule pop_ends_more) simp
  next
    case False
    then show ?thesis using ends_step [OF _ assms(1)] by simp
  qed
  have "pop_ends cap (Suc 5) (Deq_seq pos) q" for pos
    unfolding ends_Suc using load cas [of pos] pop_ends_more [OF pop_ends_held(3) [of cap None q], of 5] by (simp add: Let_def)
  then show ?thesis using assms(2) pop_ends_more [OF load] pop_ends_more [OF cas] pop_ends_more [OF pop_ends_held(1) [where q = q]]
      pop_ends_more [OF pop_ends_held(2) [where q = q]] pop_ends_more [OF pop_ends_held(3) [where q = q]] by (cases pc) simp_all
qed

lemma ends_result:
  "push_ends cap n pc q \<Longrightarrow> \<exists>b q'. run_alone (enqueue_step cap False) n pc q = (Enq_done b, q')"
  "pop_ends cap n pc q \<Longrightarrow> \<exists>y q'. run_alone (pop_step cap False) n pc q = (Deq_done y, q')"
  by (cases "run_alone (enqueue_step cap False) n pc q"; force simp: ends_def elim: is_enq_done.elims)
    (cases "run_alone (pop_step cap False) n pc q"; force simp: ends_def elim: is_deq_done.elims)



text \<open>
  A capacity of one passes the assertions of the source, but two items in a row are then accepted
  and the first is lost: the sequence number of a filled cell is the position of the next item.
  A \<open>pop\<close> then never returns: it finds the sequence number ahead of the tail and starts again.
\<close>

lemma capacity_one_overwrites:
  fixes q :: "nat MPMCQueue"
  assumes "run_alone (enqueue_step 1 False) 6 (Enq_load 5) (new_MPMCQueue 0) = (r1, q)"
    and "run_alone (enqueue_step 1 False) 6 (Enq_load 6) q = (r2, q')"
  shows "r1 = Enq_done True" "r2 = Enq_done True" "c_data (q_buffer q' 0) = 6"
    "pop_step 1 b Deq_load q' = (Deq_seq 0, q')" "pop_step 1 b (Deq_seq 0) q' = (Deq_load, q')"
  using assms
  by (auto simp: numeral_eq_Suc Let_def sequence_at_def cell_index_def set_sequence_def set_data_def new_MPMCQueue_def)

end
