(* ===== verification/Page_Formats.thy ===== *)
theory Page_Formats
  imports Page_Table
begin

text \<open>
  The page table entries of the other two ports,
  \<open>src/3rd/cpu_io/include/riscv64/virtual_memory.hpp\<close> (Sv39, three levels, ten attribute bits) and
  \<open>src/3rd/cpu_io/include/aarch64/virtual_memory.hpp\<close> (four levels, twelve attribute bits), with the
  registers that turn translation on. The kernel's \<open>VirtualMemory\<close> is compiled against one of the
  three headers; what it relies on is the locale \<open>page_table_format\<close>, interpreted on the functions
  of all three. The instructions that flush the TLB are not modelled.
\<close>

subsection \<open>RISC-V\<close>

definition rv_kValid :: u8 where "rv_kValid = push_bit 0 1"
definition rv_kRead :: u8 where "rv_kRead = push_bit 1 1"
definition rv_kWrite :: u8 where "rv_kWrite = push_bit 2 1"
definition rv_kExec :: u8 where "rv_kExec = push_bit 3 1"
definition rv_kUser :: u8 where "rv_kUser = push_bit 4 1"
definition rv_kGlobal :: u8 where "rv_kGlobal = push_bit 5 1"
definition rv_kPteAttributeBits :: nat where "rv_kPteAttributeBits = 10"
definition rv_kPageTableLevels :: nat where "rv_kPageTableLevels = 3"

text \<open>A field of a register, by the offset and the width of its \<open>RegInfo\<close>.\<close>

definition field_mask :: "nat \<Rightarrow> nat \<Rightarrow> u64" where
  "field_mask kBitOffset kBitWidth = push_bit kBitOffset (push_bit kBitWidth 1 - 1)"

definition field_Write :: "nat \<Rightarrow> nat \<Rightarrow> u64 \<Rightarrow> u64 \<Rightarrow> u64" where
  "field_Write kBitOffset kBitWidth value reg =
     (reg AND NOT (field_mask kBitOffset kBitWidth)) OR
     (push_bit kBitOffset value AND field_mask kBitOffset kBitWidth)"

definition field_Get :: "nat \<Rightarrow> nat \<Rightarrow> u64 \<Rightarrow> u64" where
  "field_Get kBitOffset kBitWidth reg = drop_bit kBitOffset (reg AND field_mask kBitOffset kBitWidth)"

text \<open>The argument is the value of \<open>satp\<close>: \<open>Ppn\<close> 44 bits at 0, \<open>Asid\<close> 16 at 44, \<open>Mode\<close> 4 at 60.\<close>

definition rv_EnablePage :: "u64 \<Rightarrow> u64" where
  "rv_EnablePage satp = field_Write 60 4 8 (field_Write 44 16 0 satp)"

definition rv_DisablePage :: "u64 \<Rightarrow> u64" where
  "rv_DisablePage satp = field_Write 60 4 0 satp"

definition rv_SetPageDirectory :: "u64 \<Rightarrow> u64 \<Rightarrow> u64" where
  "rv_SetPageDirectory pgd satp = field_Write 0 44 (drop_bit 12 pgd) satp"

definition rv_GetPageDirectory :: "u64 \<Rightarrow> u64" where
  "rv_GetPageDirectory satp = push_bit 12 (field_Get 0 44 satp)"

definition attr_mask :: "nat \<Rightarrow> u64" where
  "attr_mask bits = push_bit bits 1 - 1"

definition rv_PhysicalToPageTableEntry :: "u64 \<Rightarrow> u64 \<Rightarrow> u64" where
  "rv_PhysicalToPageTableEntry physical_addr flags =
     push_bit rv_kPteAttributeBits (drop_bit kPageOffsetBits physical_addr) OR
     (flags AND attr_mask rv_kPteAttributeBits)"

definition rv_PageTableEntryToPhysical :: "u64 \<Rightarrow> u64" where
  "rv_PageTableEntryToPhysical pte = push_bit kPageOffsetBits (drop_bit rv_kPteAttributeBits pte)"

definition rv_IsPageTableEntryValid :: "u64 \<Rightarrow> bool" where
  "rv_IsPageTableEntryValid pte \<longleftrightarrow> pte AND ucast rv_kValid \<noteq> 0"

text \<open>\<open>if (b) flags |= m\<close>, at any width.\<close>

definition with_flag :: "bool \<Rightarrow> 'a::len word \<Rightarrow> 'a word \<Rightarrow> 'a word" where
  "with_flag b m flags = (if b then flags OR m else flags)"

definition rv_CreatePageTableEntry :: "u64 \<Rightarrow> bool \<Rightarrow> bool \<Rightarrow> bool \<Rightarrow> bool \<Rightarrow> bool \<Rightarrow> u64" where
  "rv_CreatePageTableEntry physical_addr readable writable executable user_accessible global =
     rv_PhysicalToPageTableEntry physical_addr
       (with_flag global (ucast rv_kGlobal) (with_flag user_accessible (ucast rv_kUser)
         (with_flag executable (ucast rv_kExec) (with_flag writable (ucast rv_kWrite)
           (with_flag readable (ucast rv_kRead) (ucast rv_kValid))))))"

definition rv_CheckPageTableEntryPermissions :: "u64 \<Rightarrow> bool \<Rightarrow> bool \<Rightarrow> bool \<Rightarrow> bool \<Rightarrow> bool" where
  "rv_CheckPageTableEntryPermissions pte check_read check_write check_exec check_user =
     (if \<not> rv_IsPageTableEntryValid pte then False
      else if check_read \<and> pte AND ucast rv_kRead = 0 then False
      else if check_write \<and> pte AND ucast rv_kWrite = 0 then False
      else if check_exec \<and> pte AND ucast rv_kExec = 0 then False
      else if check_user \<and> pte AND ucast rv_kUser = 0 then False
      else True)"

definition rv_GetTableEntryPermissions :: u8 where
  "rv_GetTableEntryPermissions = rv_kValid"

definition rv_GetKernelPagePermissions :: "bool \<Rightarrow> bool \<Rightarrow> bool \<Rightarrow> bool \<Rightarrow> u8" where
  "rv_GetKernelPagePermissions readable writable executable global =
     with_flag global rv_kGlobal (with_flag executable rv_kExec
       (with_flag writable rv_kWrite (with_flag readable rv_kRead rv_kValid)))"

definition rv_GetUserPagePermissions :: "bool \<Rightarrow> bool \<Rightarrow> bool \<Rightarrow> bool \<Rightarrow> u8" where
  "rv_GetUserPagePermissions readable writable executable global =
     with_flag global rv_kGlobal (with_flag executable rv_kExec
       (with_flag writable rv_kWrite (with_flag readable rv_kRead (rv_kValid OR rv_kUser))))"

subsection \<open>AArch64\<close>

definition arm_kValid :: u64 where "arm_kValid = push_bit 0 1"
definition arm_kTable :: u64 where "arm_kTable = push_bit 1 1"
definition arm_kAp :: u64 where "arm_kAp = push_bit 6 3"
definition arm_kAf :: u64 where "arm_kAf = push_bit 10 1"
definition arm_kNg :: u64 where "arm_kNg = push_bit 11 1"
definition arm_kPxn :: u64 where "arm_kPxn = push_bit 53 1"
definition arm_kUxn :: u64 where "arm_kUxn = push_bit 54 1"
definition arm_kApReadWrite :: u64 where "arm_kApReadWrite = push_bit 6 0"
definition arm_kApReadOnly :: u64 where "arm_kApReadOnly = push_bit 6 2"
definition arm_kApUserReadWrite :: u64 where "arm_kApUserReadWrite = push_bit 6 1"
definition arm_kApUserReadOnly :: u64 where "arm_kApUserReadOnly = push_bit 6 3"
definition arm_kShInnerShareable :: u64 where "arm_kShInnerShareable = push_bit 8 3"
definition arm_kAttrNormalWb :: u64 where "arm_kAttrNormalWb = push_bit 2 3"
definition arm_kPteAttributeBits :: nat where "arm_kPteAttributeBits = 12"

record arm_mmu =
  mair_el1 :: u64
  tcr_el1 :: u64
  sctlr_el1 :: u64
  ttbr0_el1 :: u64
  ttbr1_el1 :: u64

definition ConfigureMAIR :: "arm_mmu \<Rightarrow> arm_mmu" where
  "ConfigureMAIR r = r\<lparr>mair_el1 := field_Write 24 8 0xFF (field_Write 16 8 0xBB
     (field_Write 8 8 0x44 (field_Write 0 8 0x00 (mair_el1 r))))\<rparr>"

definition ConfigureTCR :: "u8 \<Rightarrow> u8 \<Rightarrow> arm_mmu \<Rightarrow> arm_mmu" where
  "ConfigureTCR t0sz t1sz r = r\<lparr>tcr_el1 := field_Write 32 3 5 (field_Write 30 2 2
     (field_Write 14 2 0 (field_Write 16 6 (ucast t1sz) (field_Write 0 6 (ucast t0sz) (tcr_el1 r)))))\<rparr>"

definition arm_EnablePage :: "arm_mmu \<Rightarrow> arm_mmu" where
  "arm_EnablePage r =
     (let r = ConfigureTCR 16 16 (ConfigureMAIR r) in r\<lparr>sctlr_el1 := sctlr_el1 r OR field_mask 0 1\<rparr>)"

definition arm_DisablePage :: "arm_mmu \<Rightarrow> arm_mmu" where
  "arm_DisablePage r = r\<lparr>sctlr_el1 := sctlr_el1 r AND NOT (field_mask 0 1)
     AND NOT (field_mask 2 1) AND NOT (field_mask 12 1)\<rparr>"

definition arm_SetPageDirectory :: "u64 \<Rightarrow> arm_mmu \<Rightarrow> arm_mmu" where
  "arm_SetPageDirectory pgd r = r\<lparr>ttbr1_el1 := pgd, ttbr0_el1 := pgd\<rparr>"

definition arm_GetPageDirectory :: "arm_mmu \<Rightarrow> u64" where
  "arm_GetPageDirectory r = ttbr1_el1 r"

definition arm_PhysicalToPageTableEntry :: "u64 \<Rightarrow> u64 \<Rightarrow> u64" where
  "arm_PhysicalToPageTableEntry physical_addr flags =
     push_bit arm_kPteAttributeBits (drop_bit kPageOffsetBits physical_addr) OR
     (flags AND attr_mask arm_kPteAttributeBits)"

definition arm_PageTableEntryToPhysical :: "u64 \<Rightarrow> u64" where
  "arm_PageTableEntryToPhysical pte = push_bit kPageOffsetBits (drop_bit arm_kPteAttributeBits pte)"

definition arm_IsPageTableEntryValid :: "u64 \<Rightarrow> bool" where
  "arm_IsPageTableEntryValid pte \<longleftrightarrow> pte AND arm_kValid \<noteq> 0"

definition arm_CreatePageTableEntry :: "u64 \<Rightarrow> bool \<Rightarrow> bool \<Rightarrow> bool \<Rightarrow> bool \<Rightarrow> bool \<Rightarrow> u64" where
  "arm_CreatePageTableEntry physical_addr readable writable executable user_accessible global =
     (let flags = arm_kValid OR arm_kTable OR arm_kAf;
          flags = (if user_accessible
                   then if writable then flags OR arm_kApUserReadWrite else flags OR arm_kApUserReadOnly
                   else if writable then flags OR arm_kApReadWrite else flags OR arm_kApReadOnly);
          flags = (if \<not> executable
                   then if user_accessible then flags OR arm_kUxn else flags OR arm_kPxn
                   else flags);
          flags = with_flag (\<not> global) arm_kNg flags;
          flags = flags OR (arm_kAttrNormalWb OR arm_kShInnerShareable)
      in arm_PhysicalToPageTableEntry physical_addr flags)"

definition arm_CheckPageTableEntryPermissions :: "u64 \<Rightarrow> bool \<Rightarrow> bool \<Rightarrow> bool \<Rightarrow> bool \<Rightarrow> bool" where
  "arm_CheckPageTableEntryPermissions pte check_read check_write check_exec check_user =
     (let ap = pte AND arm_kAp
      in if \<not> arm_IsPageTableEntryValid pte then False
         else if check_write \<and> (ap = arm_kApReadOnly \<or> ap = arm_kApUserReadOnly) then False
         else if check_exec \<and> check_user \<and> pte AND arm_kUxn \<noteq> 0 then False
         else if check_exec \<and> \<not> check_user \<and> pte AND arm_kPxn \<noteq> 0 then False
         else if check_user \<and> ap \<noteq> arm_kApUserReadWrite \<and> ap \<noteq> arm_kApUserReadOnly then False
         else True)"

definition arm_GetTableEntryPermissions :: u64 where
  "arm_GetTableEntryPermissions = arm_kValid OR arm_kTable"

definition arm_GetKernelPagePermissions :: "bool \<Rightarrow> bool \<Rightarrow> bool \<Rightarrow> bool \<Rightarrow> u64" where
  "arm_GetKernelPagePermissions readable writable executable global =
     (let flags = arm_kValid OR arm_kTable OR arm_kAf;
          flags = (if writable then flags OR arm_kApReadWrite else flags OR arm_kApReadOnly);
          flags = with_flag (\<not> executable) arm_kPxn flags;
          flags = with_flag (\<not> global) arm_kNg flags
      in flags OR (arm_kAttrNormalWb OR arm_kShInnerShareable))"

definition arm_GetUserPagePermissions :: "bool \<Rightarrow> bool \<Rightarrow> bool \<Rightarrow> bool \<Rightarrow> u64" where
  "arm_GetUserPagePermissions readable writable executable global =
     (let flags = arm_kValid OR arm_kTable OR arm_kAf;
          flags = (if writable then flags OR arm_kApUserReadWrite else flags OR arm_kApUserReadOnly);
          flags = with_flag (\<not> executable) arm_kUxn flags;
          flags = with_flag (\<not> global) arm_kNg flags
      in flags OR (arm_kAttrNormalWb OR arm_kShInnerShareable))"

subsection \<open>The laws the kernel relies on\<close>

text \<open>
  What \<open>VirtualMemory\<close> uses of a port: packing and unpacking an entry, the test of the valid bit and
  the number of attribute bits. \<open>holds\<close> says which physical addresses an entry can hold. The flags
  that \<open>MapPage\<close> passes have 32 bits.
\<close>

locale page_table_format =
  fixes attr_bits :: nat
    and pack :: "u64 \<Rightarrow> u64 \<Rightarrow> u64"
    and unpack :: "u64 \<Rightarrow> u64"
    and valid :: "u64 \<Rightarrow> bool"
    and holds :: "u64 \<Rightarrow> bool"
  assumes unpack_pack: "holds a \<Longrightarrow> unpack (pack a fl) = a"
    and attrs_pack: "holds a \<Longrightarrow> pack a fl AND attr_mask attr_bits = fl AND attr_mask attr_bits"
    and valid_pack: "holds a \<Longrightarrow> valid (pack a fl) = valid fl"
    and pack_attrs: "(ucast (f :: u32) AND attr_mask attr_bits) = (ucast (g :: u32) AND attr_mask attr_bits)
          \<Longrightarrow> pack a (ucast f) = pack a (ucast g)"
    and not_valid_0: "\<not> valid 0"
begin

lemma pack_inject:
  assumes "holds a" "holds b" "pack a fl = pack b gl"
  shows "a = b" "fl AND attr_mask attr_bits = gl AND attr_mask attr_bits"
  using unpack_pack [OF assms(1), of fl] unpack_pack [OF assms(2), of gl]
    attrs_pack [OF assms(1), of fl] attrs_pack [OF assms(2), of gl] assms(3) by simp_all

text \<open>The test by which \<open>MapPage\<close> recognises a mapping that is there already.\<close>

lemma duplicate_iff:
  assumes "holds a"
  shows "(valid (pack a fl) \<and> unpack (pack a fl) = b \<and> pack a fl AND attr_mask attr_bits = gl) \<longleftrightarrow>
         valid fl \<and> a = b \<and> fl AND attr_mask attr_bits = gl"
  using assms by (simp add: unpack_pack attrs_pack valid_pack)

text \<open>Skipping the write then leaves the entry that the write would have stored.\<close>

lemma duplicate_skip:
  assumes "holds a" "unpack (pack a (ucast (f :: u32))) = b"
    and "pack a (ucast f) AND attr_mask attr_bits = ucast (g :: u32)"
  shows "pack a (ucast f) = pack b (ucast g)"
proof -
  have ab: "b = a" using assms by (simp add: unpack_pack)
  have g: "(ucast f AND attr_mask attr_bits) = ucast g"
    using assms(3) by (simp add: attrs_pack [OF assms(1)])
  then have "(ucast g AND attr_mask attr_bits) = (ucast f AND attr_mask attr_bits)"
    by (metis and.assoc and.idem)
  then show ?thesis unfolding ab by (rule pack_attrs [symmetric])
qed

end

subsection \<open>Bits of an entry\<close>

lemma attr_mask_bit: "n < 64 \<Longrightarrow> bit (attr_mask k) n \<longleftrightarrow> n < k \<and> n < 64"
  by (simp add: attr_mask_def push_bit_of_1 bit_mask_iff flip: mask_eq_exp_minus_1)

lemma and_flag_zero: "(w :: u64) AND push_bit n 1 = 0 \<longleftrightarrow> \<not> bit w n"
  by (simp only: push_bit_of_1 and_exp_eq_0_iff_not_bit)

lemma bit_with_flag: "bit (with_flag b m fl) n \<longleftrightarrow> bit fl n \<or> (b \<and> bit m n)"
  by (simp add: with_flag_def bit_or_iff)

lemma page_aligned_bit: "GetPageOffset a = 0 \<Longrightarrow> bit a n \<Longrightarrow> 12 \<le> n"
proof (rule ccontr)
  assume a: "GetPageOffset a = 0" "bit a n" "\<not> 12 \<le> n"
  have m: "kPageSize - 1 = (mask 12 :: u64)" by (simp add: kPageSize_def mask_eq_exp_minus_1)
  have "bit (GetPageOffset a) n"
    unfolding GetPageOffset_def m using a bit_imp_le_length [OF a(2)] by (simp add: bit_and_iff bit_mask_iff)
  with a(1) show False by simp
qed

lemma shifted_entry_bit:
  assumes "n < 64"
  shows "bit (push_bit k (drop_bit 12 a) OR (fl AND attr_mask k) :: u64) n \<longleftrightarrow>
         (if n < k then bit fl n else bit a (n - k + 12))"
  using assms attr_mask_bit [OF assms, of k]
  by (auto simp: bit_or_iff bit_and_iff bit_push_bit_iff bit_drop_bit_eq add.commute)

lemma shifted_entry_unpack:
  assumes "GetPageOffset a = 0" "k \<le> 12"
  shows "push_bit 12 (drop_bit k (push_bit k (drop_bit 12 a) OR (fl AND attr_mask k))) = a"
proof (rule bit_word_eqI)
  fix n :: nat assume n: "n < LENGTH(64)"
  show "bit (push_bit 12 (drop_bit k (push_bit k (drop_bit 12 a) OR (fl AND attr_mask k)))) n = bit a n"
  proof (cases "12 \<le> n")
    case True
    then obtain m where m: "n = 12 + m" using le_Suc_ex by blast
    then show ?thesis using n assms(2) shifted_entry_bit [of "k + m" k a fl]
      unfolding bit_push_bit_iff bit_drop_bit_eq comp_def by (simp add: add.commute)
  next
    case False
    then show ?thesis using page_aligned_bit [OF assms(1), of n] unfolding bit_push_bit_iff by auto
  qed
qed

lemma shifted_entry_attrs:
  "(push_bit k (drop_bit 12 a) OR (fl AND attr_mask k)) AND attr_mask k = fl AND attr_mask k" for a fl :: u64
proof (rule bit_word_eqI)
  fix n :: nat assume n: "n < LENGTH(64)"
  then show "bit ((push_bit k (drop_bit 12 a) OR (fl AND attr_mask k)) AND attr_mask k) n = bit (fl AND attr_mask k) n"
    using shifted_entry_bit [of n k a fl] by (auto simp: bit_and_iff attr_mask_bit)
qed

subsection \<open>The three ports\<close>

lemma u32_high: "32 \<le> n \<Longrightarrow> \<not> bit (ucast (f :: u32) :: u64) n"
  by (auto simp: bit_unsigned_iff dest: bit_imp_le_length)

lemma x86_entry_bit:
  assumes "n < 12" "GetPageOffset a = 0"
  shows "bit (PhysicalToPageTableEntry a fl) n \<longleftrightarrow> bit fl n"
  using assms page_aligned_bit [OF assms(2), of n]
  unfolding PhysicalToPageTableEntry_def masks by (auto simp: entry_bits)

lemma frame_addr_aligned_offset: "frame_addr a \<Longrightarrow> GetPageOffset a = 0"
proof (rule bit_word_eqI)
  fix n :: nat assume a: "frame_addr a" "n < LENGTH(64)"
  have m: "kPageSize - 1 = (mask 12 :: u64)" by (simp add: kPageSize_def mask_eq_exp_minus_1)
  show "bit (GetPageOffset a) n = bit 0 n"
    unfolding GetPageOffset_def m using frame_addr_bit [OF a(1), of n] by (auto simp: bit_and_iff bit_mask_iff)
qed

interpretation x86_format: page_table_format kPteAttributeBits PhysicalToPageTableEntry
  PageTableEntryToPhysical IsPageTableEntryValid frame_addr
proof
  fix a fl assume a: "frame_addr a"
  show "PageTableEntryToPhysical (PhysicalToPageTableEntry a fl) = a"
    by (rule PageTableEntryToPhysical_pack [OF a])
  show "PhysicalToPageTableEntry a fl AND attr_mask kPteAttributeBits = fl AND attr_mask kPteAttributeBits"
    using x86_entry_bit [OF _ frame_addr_aligned_offset [OF a], of _ fl]
    by (intro bit_word_eqI) (auto simp: bit_and_iff attr_mask_bit kPteAttributeBits_def)
  show "IsPageTableEntryValid (PhysicalToPageTableEntry a fl) = IsPageTableEntryValid fl"
    by (rule IsPageTableEntryValid_pack)
next
  fix f g :: u32 and a
  assume fg: "ucast f AND attr_mask kPteAttributeBits = ucast g AND attr_mask kPteAttributeBits"
  have *: "(0xFFF :: u64) = attr_mask kPteAttributeBits" by (simp add: attr_mask_def kPteAttributeBits_def)
  have **: "ucast h AND push_bit 63 1 = (0 :: u64)" for h :: u32
    unfolding and_flag_zero by (rule u32_high) simp
  show "PhysicalToPageTableEntry a (ucast f) = PhysicalToPageTableEntry a (ucast g)"
    unfolding PhysicalToPageTableEntry_def * fg ** ..
qed (rule IsPageTableEntryValid_zero)

lemmas rv_entry_defs = rv_PhysicalToPageTableEntry_def rv_PageTableEntryToPhysical_def
  rv_kPteAttributeBits_def kPageOffsetBits_def

lemmas arm_entry_defs = arm_PhysicalToPageTableEntry_def arm_PageTableEntryToPhysical_def
  arm_kPteAttributeBits_def kPageOffsetBits_def

lemma rv_entry_bit: "n < 10 \<Longrightarrow> bit (rv_PhysicalToPageTableEntry a fl) n \<longleftrightarrow> bit fl n"
  using shifted_entry_bit [of n 10 a fl] unfolding rv_entry_defs by simp

lemma arm_entry_bit:
  "n < 64 \<Longrightarrow> GetPageOffset a = 0 \<Longrightarrow>
     bit (arm_PhysicalToPageTableEntry a fl) n \<longleftrightarrow> (if n < 12 then bit fl n else bit a n)"
  using shifted_entry_bit [of n 12 a fl] unfolding arm_entry_defs by simp

lemma rv_flag_bits:
  "bit (ucast rv_kValid :: u64) n \<longleftrightarrow> n = 0" "bit (ucast rv_kRead :: u64) n \<longleftrightarrow> n = 1"
  "bit (ucast rv_kWrite :: u64) n \<longleftrightarrow> n = 2" "bit (ucast rv_kExec :: u64) n \<longleftrightarrow> n = 3"
  "bit (ucast rv_kUser :: u64) n \<longleftrightarrow> n = 4" "bit (ucast rv_kGlobal :: u64) n \<longleftrightarrow> n = 5"
  unfolding rv_kValid_def rv_kRead_def rv_kWrite_def rv_kExec_def rv_kUser_def rv_kGlobal_def
    bit_unsigned_iff bit_push_bit_iff bit_1_iff by auto

lemma rv_flag_ucast:
  "(ucast rv_kValid :: u64) = push_bit 0 1" "(ucast rv_kRead :: u64) = push_bit 1 1"
  "(ucast rv_kWrite :: u64) = push_bit 2 1" "(ucast rv_kExec :: u64) = push_bit 3 1"
  "(ucast rv_kUser :: u64) = push_bit 4 1"
  by (simp_all add: rv_kValid_def rv_kRead_def rv_kWrite_def rv_kExec_def rv_kUser_def)

lemma rv_flag_test:
  "w AND ucast rv_kValid = (0 :: u64) \<longleftrightarrow> \<not> bit w 0" "w AND ucast rv_kRead = (0 :: u64) \<longleftrightarrow> \<not> bit w 1"
  "w AND ucast rv_kWrite = (0 :: u64) \<longleftrightarrow> \<not> bit w 2" "w AND ucast rv_kExec = (0 :: u64) \<longleftrightarrow> \<not> bit w 3"
  "w AND ucast rv_kUser = (0 :: u64) \<longleftrightarrow> \<not> bit w 4"
  unfolding rv_flag_ucast by (rule and_flag_zero)+

interpretation riscv_format: page_table_format rv_kPteAttributeBits rv_PhysicalToPageTableEntry
  rv_PageTableEntryToPhysical rv_IsPageTableEntryValid "\<lambda>a. GetPageOffset a = 0"
proof
  fix a fl assume "GetPageOffset a = 0"
  then show "rv_PageTableEntryToPhysical (rv_PhysicalToPageTableEntry a fl) = a"
    unfolding rv_entry_defs by (rule shifted_entry_unpack) simp
  show "rv_PhysicalToPageTableEntry a fl AND attr_mask rv_kPteAttributeBits = fl AND attr_mask rv_kPteAttributeBits"
    unfolding rv_entry_defs by (rule shifted_entry_attrs)
  show "rv_IsPageTableEntryValid (rv_PhysicalToPageTableEntry a fl) = rv_IsPageTableEntryValid fl"
    by (simp add: rv_IsPageTableEntryValid_def rv_flag_test rv_entry_bit)
qed (simp_all add: rv_PhysicalToPageTableEntry_def rv_IsPageTableEntryValid_def)

interpretation arm_format: page_table_format arm_kPteAttributeBits arm_PhysicalToPageTableEntry
  arm_PageTableEntryToPhysical arm_IsPageTableEntryValid "\<lambda>a. GetPageOffset a = 0"
proof
  fix a fl assume a: "GetPageOffset a = 0"
  then show "arm_PageTableEntryToPhysical (arm_PhysicalToPageTableEntry a fl) = a"
    unfolding arm_entry_defs by (rule shifted_entry_unpack) simp
  show "arm_PhysicalToPageTableEntry a fl AND attr_mask arm_kPteAttributeBits = fl AND attr_mask arm_kPteAttributeBits"
    unfolding arm_entry_defs by (rule shifted_entry_attrs)
  show "arm_IsPageTableEntryValid (arm_PhysicalToPageTableEntry a fl) = arm_IsPageTableEntryValid fl"
    unfolding arm_IsPageTableEntryValid_def arm_kValid_def and_flag_zero using a by (simp add: arm_entry_bit)
qed (simp_all add: arm_PhysicalToPageTableEntry_def arm_IsPageTableEntryValid_def)

subsection \<open>Permissions of a created entry\<close>

lemma x86_flag_bits:
  "bit kValid n \<longleftrightarrow> n = 0" "bit kWrite n \<longleftrightarrow> n = 1" "bit kUser n \<longleftrightarrow> n = 2" "bit kGlobal n \<longleftrightarrow> n = 8"
  "bit kRead n \<longleftrightarrow> n = 9" "bit kExec n \<longleftrightarrow> n = 10"
  unfolding permission_defs bit_push_bit_iff bit_1_iff by auto

lemma x86_flag_test:
  "w AND kValid = 0 \<longleftrightarrow> \<not> bit w 0" "w AND kWrite = 0 \<longleftrightarrow> \<not> bit w 1" "w AND kUser = 0 \<longleftrightarrow> \<not> bit w 2"
  "w AND kRead = 0 \<longleftrightarrow> \<not> bit w 9" "w AND kExec = 0 \<longleftrightarrow> \<not> bit w 10"
  unfolding permission_defs by (rule and_flag_zero)+

lemma bit_flag_if: "bit (flag_if b m fl) n \<longleftrightarrow> bit fl n \<or> (b \<and> bit m n)"
  by (simp add: flag_if_def bit_or_iff)

lemma x86_permissions:
  assumes "GetPageOffset a = 0"
  shows "CheckPageTableEntryPermissions (CreatePageTableEntry a r w x u g) cr cw cx cu \<longleftrightarrow>
         (cr \<longrightarrow> r) \<and> (cw \<longrightarrow> w) \<and> (cx \<longrightarrow> x) \<and> (cu \<longrightarrow> u)"
  unfolding CheckPageTableEntryPermissions_def CreatePageTableEntry_def IsPageTableEntryValid_def
  by (auto simp: x86_flag_test x86_entry_bit [OF _ assms] bit_flag_if x86_flag_bits)

lemma rv_permissions:
  "rv_CheckPageTableEntryPermissions (rv_CreatePageTableEntry a r w x u g) cr cw cx cu \<longleftrightarrow>
   (cr \<longrightarrow> r) \<and> (cw \<longrightarrow> w) \<and> (cx \<longrightarrow> x) \<and> (cu \<longrightarrow> u)"
  unfolding rv_CheckPageTableEntryPermissions_def rv_CreatePageTableEntry_def rv_IsPageTableEntryValid_def
  by (auto simp: rv_flag_test rv_entry_bit bit_with_flag rv_flag_bits)

lemma three_bits: "bit (3 :: u64) n \<longleftrightarrow> n = 0 \<or> n = 1" "bit (2 :: u64) n \<longleftrightarrow> n = 1"
proof -
  have e: "(3 :: u64) = mask 2" "(2 :: u64) = 2 ^ 1" by (simp_all add: mask_eq_exp_minus_1)
  show "bit (3 :: u64) n \<longleftrightarrow> n = 0 \<or> n = 1" unfolding e(1) bit_mask_iff by auto
  show "bit (2 :: u64) n \<longleftrightarrow> n = 1" using bit_exp_iff [of 1 n, where ?'a = u64] by auto
qed

lemma arm_flag_bits:
  "bit arm_kValid n \<longleftrightarrow> n = 0" "bit arm_kTable n \<longleftrightarrow> n = 1" "bit arm_kAp n \<longleftrightarrow> n = 6 \<or> n = 7"
  "bit arm_kAf n \<longleftrightarrow> n = 10" "bit arm_kNg n \<longleftrightarrow> n = 11" "bit arm_kPxn n \<longleftrightarrow> n = 53" "bit arm_kUxn n \<longleftrightarrow> n = 54"
  "\<not> bit arm_kApReadWrite n" "bit arm_kApReadOnly n \<longleftrightarrow> n = 7" "bit arm_kApUserReadWrite n \<longleftrightarrow> n = 6"
  "bit arm_kApUserReadOnly n \<longleftrightarrow> n = 6 \<or> n = 7" "bit arm_kShInnerShareable n \<longleftrightarrow> n = 8 \<or> n = 9"
  "bit arm_kAttrNormalWb n \<longleftrightarrow> n = 2 \<or> n = 3"
  unfolding arm_kValid_def arm_kTable_def arm_kAp_def arm_kAf_def arm_kNg_def arm_kPxn_def arm_kUxn_def
    arm_kApReadWrite_def arm_kApReadOnly_def arm_kApUserReadWrite_def arm_kApUserReadOnly_def
    arm_kShInnerShareable_def arm_kAttrNormalWb_def bit_push_bit_iff bit_1_iff three_bits
  by (auto simp: bit_0_eq)

lemma arm_ap_eq:
  assumes "\<And>n. bit c n \<Longrightarrow> n = 6 \<or> n = 7"
  shows "w AND arm_kAp = c \<longleftrightarrow> bit w 6 = bit c 6 \<and> bit w 7 = bit c 7"
proof
  assume "w AND arm_kAp = c"
  then show "bit w 6 = bit c 6 \<and> bit w 7 = bit c 7" by (auto simp: bit_and_iff arm_flag_bits)
next
  assume "bit w 6 = bit c 6 \<and> bit w 7 = bit c 7"
  then show "w AND arm_kAp = c"
    using assms by (intro bit_word_eqI) (auto simp: bit_and_iff arm_flag_bits)
qed

lemma arm_ap_test:
  "w AND arm_kAp = arm_kApReadOnly \<longleftrightarrow> \<not> bit w 6 \<and> bit w 7"
  "w AND arm_kAp = arm_kApUserReadOnly \<longleftrightarrow> bit w 6 \<and> bit w 7"
  "w AND arm_kAp = arm_kApUserReadWrite \<longleftrightarrow> bit w 6 \<and> \<not> bit w 7"
  by (subst arm_ap_eq; auto simp: arm_flag_bits)+

lemma arm_flag_test:
  "w AND arm_kValid = 0 \<longleftrightarrow> \<not> bit w 0" "w AND arm_kPxn = 0 \<longleftrightarrow> \<not> bit w 53" "w AND arm_kUxn = 0 \<longleftrightarrow> \<not> bit w 54"
  unfolding arm_kValid_def arm_kPxn_def arm_kUxn_def by (rule and_flag_zero)+

text \<open>The execute-never bits stand above the twelve flag bits that the packing keeps: bits 53 and 54 of
  an entry come from the address.\<close>

lemma arm_permissions:
  assumes "frame_addr a"
  shows "arm_CheckPageTableEntryPermissions (arm_CreatePageTableEntry a r w x u g) cr cw cx cu \<longleftrightarrow>
         (cw \<longrightarrow> w) \<and> (cu \<longrightarrow> u)"
proof -
  have "GetPageOffset a = 0" by (rule frame_addr_aligned_offset [OF assms])
  then show ?thesis using frame_addr_bit [OF assms, of 53] frame_addr_bit [OF assms, of 54]
    unfolding arm_CheckPageTableEntryPermissions_def arm_CreatePageTableEntry_def arm_IsPageTableEntryValid_def
      Let_def
    by (auto simp: arm_ap_test arm_flag_test arm_entry_bit bit_with_flag bit_or_iff arm_flag_bits)
qed

lemma created_valid:
  assumes "frame_addr a"
  shows "IsPageTableEntryValid (CreatePageTableEntry a r w x u g)"
    and "rv_IsPageTableEntryValid (rv_CreatePageTableEntry a r w x u g)"
    and "arm_IsPageTableEntryValid (arm_CreatePageTableEntry a r w x u g)"
  using x86_permissions [OF frame_addr_aligned_offset [OF assms], of r w x u g False False False False]
    rv_permissions [of a r w x u g False False False False]
    arm_permissions [OF assms, of r w x u g False False False False]
  by (simp_all add: CheckPageTableEntryPermissions_def rv_CheckPageTableEntryPermissions_def
      arm_CheckPageTableEntryPermissions_def split: if_splits)

lemma created_physical:
  assumes "frame_addr a"
  shows "PageTableEntryToPhysical (CreatePageTableEntry a r w x u g) = a"
    and "rv_PageTableEntryToPhysical (rv_CreatePageTableEntry a r w x u g) = a"
    and "arm_PageTableEntryToPhysical (arm_CreatePageTableEntry a r w x u g) = a"
  using assms frame_addr_aligned_offset [OF assms]
  unfolding CreatePageTableEntry_def rv_CreatePageTableEntry_def arm_CreatePageTableEntry_def Let_def
  by (auto intro: x86_format.unpack_pack riscv_format.unpack_pack arm_format.unpack_pack)

text \<open>
  C12: the entries that the three ports create are well formed. For a page-aligned physical address below
  \<open>2 ^ 52\<close> and any permissions, \<open>CreatePageTableEntry\<close> gives a valid entry from which
  \<open>PageTableEntryToPhysical\<close> reads the address back. On x86-64 and RISC-V
  \<open>CheckPageTableEntryPermissions\<close> grants exactly the subsets of the permissions the entry was created
  with. On AArch64 it grants reading and executing whatever was asked for: the execute-never bits 53 and
  54 are among the flags that the packing drops, so a page created as not executable is executable.
\<close>

theorem CreatePageTableEntry_ports:
  assumes "frame_addr a"
  shows "(let pte = CreatePageTableEntry a r w x u g in
           IsPageTableEntryValid pte \<and> PageTableEntryToPhysical pte = a \<and>
           CheckPageTableEntryPermissions pte cr cw cx cu =
             ((cr \<longrightarrow> r) \<and> (cw \<longrightarrow> w) \<and> (cx \<longrightarrow> x) \<and> (cu \<longrightarrow> u))) \<and>
         (let pte = rv_CreatePageTableEntry a r w x u g in
           rv_IsPageTableEntryValid pte \<and> rv_PageTableEntryToPhysical pte = a \<and>
           rv_CheckPageTableEntryPermissions pte cr cw cx cu =
             ((cr \<longrightarrow> r) \<and> (cw \<longrightarrow> w) \<and> (cx \<longrightarrow> x) \<and> (cu \<longrightarrow> u))) \<and>
         (let pte = arm_CreatePageTableEntry a r w x u g in
           arm_IsPageTableEntryValid pte \<and> arm_PageTableEntryToPhysical pte = a \<and>
           arm_CheckPageTableEntryPermissions pte cr cw cx cu = ((cw \<longrightarrow> w) \<and> (cu \<longrightarrow> u)))"
  using frame_addr_aligned_offset [OF assms] arm_permissions [OF assms]
  by (simp add: Let_def created_valid created_physical x86_permissions rv_permissions assms)

theorem CreatePageTableEntry_ports_witness:
  "frame_addr 0x80200000 \<and>
   \<not> rv_CheckPageTableEntryPermissions (rv_CreatePageTableEntry 0x80200000 True True False False True) True False True False \<and>
   arm_CheckPageTableEntryPermissions (arm_CreatePageTableEntry 0x80200000 True True False False True) True False True False"
proof -
  have f: "frame_addr 0x80200000" by (simp add: frame_addr_def)
  show ?thesis
    using CreatePageTableEntry_ports [OF f, of True True False False True True False True False] f
    by (simp add: Let_def)
qed

text \<open>\<open>MapPage\<close> on each port: the entry it leaves in place is the entry it would have written.\<close>

lemma duplicate_skip_ports:
  assumes "frame_addr a" and "b = unpack (pack a (ucast (f :: u32)))"
    and "pack a (ucast f) AND attr_mask n = ucast (g :: u32)"
    and "(n, pack, unpack) \<in> {(kPteAttributeBits, PhysicalToPageTableEntry, PageTableEntryToPhysical),
           (rv_kPteAttributeBits, rv_PhysicalToPageTableEntry, rv_PageTableEntryToPhysical),
           (arm_kPteAttributeBits, arm_PhysicalToPageTableEntry, arm_PageTableEntryToPhysical)}"
  shows "pack a (ucast f) = pack b (ucast g)"
  using assms(2-4) assms(1) frame_addr_aligned_offset [OF assms(1)]
    x86_format.duplicate_skip riscv_format.duplicate_skip arm_format.duplicate_skip by fastforce

subsection \<open>Turning translation on\<close>

lemma field_mask_bit: "n < 64 \<Longrightarrow> bit (field_mask p k) n \<longleftrightarrow> p \<le> n \<and> n - p < k"
proof -
  assume "n < 64"
  have "field_mask p k = push_bit p (mask k)" by (simp add: field_mask_def mask_eq_exp_minus_1 push_bit_of_1)
  then show ?thesis using \<open>n < 64\<close> by (auto simp: bit_push_bit_iff bit_mask_iff)
qed

lemma field_Write_bit:
  "n < 64 \<Longrightarrow> bit (field_Write p k v reg) n \<longleftrightarrow>
     (if p \<le> n \<and> n - p < k then bit v (n - p) else bit reg n)"
  by (auto simp: field_Write_def bit_or_iff bit_and_iff bit_not_iff bit_push_bit_iff field_mask_bit)

text \<open>The field that is written is read back, up to its width; the other bits stay.\<close>

lemma field_Get_Write:
  assumes "p + k \<le> 64"
  shows "field_Get p k (field_Write p k v reg) = take_bit k v"
proof (rule bit_word_eqI)
  fix n :: nat assume "n < LENGTH(64)"
  then show "bit (field_Get p k (field_Write p k v reg)) n = bit (take_bit k v) n"
    using assms field_Write_bit [of "p + n" p k v reg] field_mask_bit [of "p + n" p k]
    by (cases "p + n < 64") (auto simp: field_Get_def bit_drop_bit_eq bit_and_iff bit_take_bit_iff
        dest: bit_imp_le_length)
qed

text \<open>
  Setting the root table and turning Sv39 on leaves the mode 8, the address space 0 and the page number
  of the root in \<open>satp\<close>, whatever was there; \<open>GetPageDirectory\<close> reads the root back, which must lie
  below \<open>2 ^ 56\<close>.
\<close>

lemma rv_translation_on:
  assumes "GetPageOffset pgd = 0" "drop_bit 56 pgd = 0"
  shows "rv_EnablePage (rv_SetPageDirectory pgd satp) = push_bit 60 8 OR drop_bit 12 pgd"
    and "rv_GetPageDirectory (rv_EnablePage (rv_SetPageDirectory pgd satp)) = pgd"
proof -
  have h: "\<not> bit pgd n" if "56 \<le> n" for n
    using arg_cong [OF assms(2), of "\<lambda>w. bit w (n - 56)"] that by (simp add: bit_drop_bit_eq)
  have e8: "bit (8 :: u64) k \<longleftrightarrow> k = 3" for k using bit_exp_iff [of 3 k, where ?'a = u64] by auto
  show e: "rv_EnablePage (rv_SetPageDirectory pgd satp) = push_bit 60 8 OR drop_bit 12 pgd"
  proof (rule bit_word_eqI)
    fix n :: nat assume "n < LENGTH(64)"
    then show "bit (rv_EnablePage (rv_SetPageDirectory pgd satp)) n = bit (push_bit 60 8 OR drop_bit 12 pgd) n"
      unfolding rv_EnablePage_def rv_SetPageDirectory_def bit_or_iff bit_push_bit_iff e8 bit_drop_bit_eq
      using h [of "12 + n"] e8 [of "n - 60"] by (auto simp: field_Write_bit bit_drop_bit_eq)
  qed
  show "rv_GetPageDirectory (rv_EnablePage (rv_SetPageDirectory pgd satp)) = pgd"
  proof (rule bit_word_eqI)
    fix n :: nat assume "n < LENGTH(64)"
    then have "bit (rv_GetPageDirectory (rv_EnablePage (rv_SetPageDirectory pgd satp))) n \<longleftrightarrow>
        12 \<le> n \<and> n < 56 \<and> bit pgd n"
      unfolding rv_GetPageDirectory_def field_Get_def rv_EnablePage_def rv_SetPageDirectory_def bit_push_bit_iff
      by (auto simp: bit_and_iff bit_drop_bit_eq field_mask_bit field_Write_bit)
    then show "bit (rv_GetPageDirectory (rv_EnablePage (rv_SetPageDirectory pgd satp))) n = bit pgd n"
      using h [of n] page_aligned_bit [OF assms(1), of n] by auto
  qed
qed

text \<open>On AArch64 both table bases hold the root, and the four attribute indices mean what the
  constants of the header say.\<close>

lemma arm_translation_on:
  "arm_GetPageDirectory (arm_EnablePage (arm_SetPageDirectory pgd r)) = pgd"
  "ttbr0_el1 (arm_EnablePage (arm_SetPageDirectory pgd r)) = pgd"
  "bit (sctlr_el1 (arm_EnablePage r)) 0"
  "\<not> bit (sctlr_el1 (arm_DisablePage r)) 0"
  by (simp_all add: arm_EnablePage_def arm_SetPageDirectory_def arm_GetPageDirectory_def arm_DisablePage_def
      Let_def ConfigureTCR_def ConfigureMAIR_def bit_or_iff bit_and_iff bit_not_iff field_mask_bit)

end
