(* ===== verification/Cxx_Runtime.thy ===== *)
theory Cxx_Runtime
  imports Kernel_Heap
begin

text \<open>
  The part of the C++ run-time library that the kernel provides itself: the guards of static local
  variables and the table of destructors (\<open>src/src/libcxx/nk_libcxx.cpp\<close>), and the operators
  \<open>new\<close> and \<open>delete\<close> (\<open>src/src/libcxx/nk_new.cpp\<close>) on the heap of \<open>Kernel_Heap\<close>. The guard is a
  state machine whose steps the cores interleave; a call of a destructor is an event.
\<close>

subsection \<open>Guards of static local variables\<close>

definition kInitializedMask :: u64 where "kInitializedMask = 0x01"
definition kInUseMask :: u64 where "kInUseMask = 0x100"

text \<open>
  One round of the loop in \<open>__cxa_guard_acquire\<close>: the weak compare-and-exchange may fail although the
  guard is 0 (\<open>spurious\<close>); on failure the value of the guard is in \<open>expected\<close>. The result is the value
  returned, or \<open>None\<close> when the loop goes on.
\<close>

definition cxa_guard_acquire :: "bool \<Rightarrow> u64 \<Rightarrow> int option \<times> u64" where
  "cxa_guard_acquire spurious guard =
    (if guard = 0 \<and> \<not> spurious then (Some 1, kInUseMask)
     else let expected = guard in
       if expected AND kInitializedMask \<noteq> 0 then (Some 0, guard) else (None, guard))"

definition cxa_guard_release :: "u64 \<Rightarrow> u64" where
  "cxa_guard_release guard = kInitializedMask"

definition cxa_guard_abort :: "u64 \<Rightarrow> u64" where
  "cxa_guard_abort guard = 0"

text \<open>
  The code around a static local variable, as the comment above the guards gives it: a test of the first
  byte, the acquisition, the construction and the release, or the abort when the constructor throws.
  \<open>gs_built\<close> counts the constructions that ended normally.
\<close>

datatype guard_pc = Before | Waiting | Building | Usable

record guard_state =
  gs_guard :: u64
  gs_pc :: "nat \<Rightarrow> guard_pc"
  gs_built :: nat

definition guard_init :: guard_state where
  "guard_init = \<lparr>gs_guard = 0, gs_pc = (\<lambda>_. Before), gs_built = 0\<rparr>"

definition after_acquire :: "int option \<Rightarrow> guard_pc" where
  "after_acquire r = (case r of None \<Rightarrow> Waiting | Some v \<Rightarrow> if v \<noteq> 0 then Building else Usable)"

inductive guard_step :: "guard_state \<Rightarrow> guard_state \<Rightarrow> bool" where
  seen: "gs_pc s c = Before \<Longrightarrow> gs_guard s AND 0xFF \<noteq> 0 \<Longrightarrow>
    guard_step s (s\<lparr>gs_pc := (gs_pc s)(c := Usable)\<rparr>)"
| enter: "gs_pc s c = Before \<Longrightarrow> gs_guard s AND 0xFF = 0 \<Longrightarrow>
    guard_step s (s\<lparr>gs_pc := (gs_pc s)(c := Waiting)\<rparr>)"
| acquire: "gs_pc s c = Waiting \<Longrightarrow> cxa_guard_acquire spurious (gs_guard s) = (r, g) \<Longrightarrow>
    guard_step s (s\<lparr>gs_guard := g, gs_pc := (gs_pc s)(c := after_acquire r)\<rparr>)"
| release: "gs_pc s c = Building \<Longrightarrow>
    guard_step s (s\<lparr>gs_guard := cxa_guard_release (gs_guard s), gs_pc := (gs_pc s)(c := Usable),
      gs_built := Suc (gs_built s)\<rparr>)"
| abort: "gs_pc s c = Building \<Longrightarrow>
    guard_step s (s\<lparr>gs_guard := cxa_guard_abort (gs_guard s), gs_pc := (gs_pc s)(c := Before)\<rparr>)"

text \<open>The three phases of a guard.\<close>

primrec outside :: "guard_pc \<Rightarrow> bool" where
  "outside Before = True"
| "outside Waiting = True"
| "outside Building = False"
| "outside Usable = False"

definition untouched :: "guard_state \<Rightarrow> bool" where
  "untouched s \<longleftrightarrow> gs_guard s = 0 \<and> gs_built s = 0 \<and> (\<forall>c. outside (gs_pc s c))"

definition in_use :: "nat \<Rightarrow> guard_state \<Rightarrow> bool" where
  "in_use b s \<longleftrightarrow> gs_guard s = kInUseMask \<and> gs_built s = 0 \<and> gs_pc s b = Building \<and>
     (\<forall>c. c \<noteq> b \<longrightarrow> outside (gs_pc s c))"

definition initialised :: "guard_state \<Rightarrow> bool" where
  "initialised s \<longleftrightarrow> gs_guard s = kInitializedMask \<and> gs_built s = 1 \<and> (\<forall>c. gs_pc s c \<noteq> Building)"

definition guard_ok :: "guard_state \<Rightarrow> bool" where
  "guard_ok s \<longleftrightarrow> untouched s \<or> (\<exists>b. in_use b s) \<or> initialised s"

lemmas guard_defs = untouched_def in_use_def initialised_def kInitializedMask_def kInUseMask_def
  cxa_guard_acquire_def cxa_guard_release_def cxa_guard_abort_def after_acquire_def Let_def

lemma untouched_step: "guard_step s t \<Longrightarrow> untouched s \<Longrightarrow> untouched t \<or> (\<exists>b. in_use b t)"
proof (induction rule: guard_step.induct)
  case (acquire s c spurious r g)
  then have "in_use c (s\<lparr>gs_guard := g, gs_pc := (gs_pc s)(c := after_acquire r)\<rparr>) \<or>
      untouched (s\<lparr>gs_guard := g, gs_pc := (gs_pc s)(c := after_acquire r)\<rparr>)"
    by (cases spurious) (auto simp: guard_defs)
  then show ?case by blast
next
  case (release s c)
  then have "outside Building" unfolding untouched_def by metis
  then show ?case by simp
next
  case (abort s c)
  then have "outside Building" unfolding untouched_def by metis
  then show ?case by simp
qed (auto simp: untouched_def)

lemma builder: "in_use b s \<Longrightarrow> gs_pc s c = Building \<Longrightarrow> c = b"
  unfolding in_use_def by (metis outside.simps(3))

lemma in_use_step: "guard_step s t \<Longrightarrow> in_use b s \<Longrightarrow> untouched t \<or> in_use b t \<or> initialised t"
proof (induction rule: guard_step.induct)
  case (seen s c)
  then have "gs_guard s = kInUseMask" by (simp add: in_use_def)
  with seen show ?case by (simp add: kInUseMask_def)
next
  case (enter s c)
  then have "in_use b (s\<lparr>gs_pc := (gs_pc s)(c := Waiting)\<rparr>)" by (auto simp: in_use_def)
  then show ?case by (rule disjI2 [OF disjI1])
next
  case (acquire s c spurious r g)
  have "gs_guard s = kInUseMask" using acquire(3) by (simp add: in_use_def)
  then have "r = None" "g = gs_guard s" using acquire(2) by (simp_all add: guard_defs)
  with acquire(1,3) have "in_use b (s\<lparr>gs_guard := g, gs_pc := (gs_pc s)(c := after_acquire r)\<rparr>)"
    by (auto simp: in_use_def after_acquire_def)
  then show ?case by (rule disjI2 [OF disjI1])
next
  case (release s c)
  have "d \<noteq> c \<Longrightarrow> gs_pc s d \<noteq> Building" for d using builder [OF release(2)] release(1) by metis
  with release(2) have "initialised (s\<lparr>gs_guard := cxa_guard_release (gs_guard s),
      gs_pc := (gs_pc s)(c := Usable), gs_built := Suc (gs_built s)\<rparr>)"
    by (simp add: in_use_def initialised_def cxa_guard_release_def)
  then show ?case by (rule disjI2 [OF disjI2])
next
  case (abort s c)
  have "c = b" by (rule builder [OF abort(2,1)])
  with abort(2) have "untouched (s\<lparr>gs_guard := cxa_guard_abort (gs_guard s), gs_pc := (gs_pc s)(c := Before)\<rparr>)"
    by (simp add: in_use_def untouched_def cxa_guard_abort_def)
  then show ?case by (rule disjI1)
qed

lemma initialised_step: "guard_step s t \<Longrightarrow> initialised s \<Longrightarrow> initialised t"
  by (induction rule: guard_step.induct) (auto simp: guard_defs)

lemma guard_ok_step: "guard_ok s \<Longrightarrow> guard_step s t \<Longrightarrow> guard_ok t"
  unfolding guard_ok_def using untouched_step [of s t] in_use_step [of s t] initialised_step [of s t] by blast

lemma guard_ok_init: "guard_ok guard_init"
  by (simp add: guard_ok_def untouched_def guard_init_def)

lemma guard_ok_reachable: "guard_step\<^sup>*\<^sup>* guard_init s \<Longrightarrow> guard_ok s"
proof (induction rule: rtranclp_induct)
  case base
  show ?case by (rule guard_ok_init)
next
  case (step t u)
  show ?case by (rule guard_ok_step [OF step.IH step.hyps(2)])
qed

lemma guard_ok_facts:
  assumes "guard_ok s"
  shows "gs_built s \<le> 1" and "gs_pc s c = Building \<Longrightarrow> gs_pc s d = Building \<Longrightarrow> c = d"
    and "gs_pc s c = Usable \<Longrightarrow> gs_built s = 1" and "gs_pc s c = Building \<Longrightarrow> gs_built s = 0"
    and "\<forall>d. gs_pc s d \<noteq> Building \<Longrightarrow> \<exists>r. fst (cxa_guard_acquire False (gs_guard s)) = Some r"
proof -
  consider "untouched s" | b where "in_use b s" | "initialised s" using assms guard_ok_def by blast
  note cs = this
  show "gs_built s \<le> 1" using cs by cases (simp_all add: untouched_def in_use_def initialised_def)
  show "gs_pc s c = Building \<Longrightarrow> gs_pc s d = Building \<Longrightarrow> c = d"
    using cs by cases (metis untouched_def outside.simps(3), metis builder, metis initialised_def)
  show "gs_pc s c = Usable \<Longrightarrow> gs_built s = 1"
    using cs by cases (metis untouched_def outside.simps(4), metis in_use_def outside.simps(4) guard_pc.distinct(11), metis initialised_def)
  show "gs_pc s c = Building \<Longrightarrow> gs_built s = 0"
    using cs by cases (simp add: untouched_def, simp add: in_use_def, simp add: initialised_def)
  show "\<forall>d. gs_pc s d \<noteq> Building \<Longrightarrow> \<exists>r. fst (cxa_guard_acquire False (gs_guard s)) = Some r"
    using cs by cases (simp add: untouched_def cxa_guard_acquire_def, simp add: in_use_def,
      simp add: initialised_def cxa_guard_acquire_def kInitializedMask_def)
qed

text \<open>
  C13: a static local variable is constructed at most once. In every state that the cores reach by
  interleaving their accesses to the guard, at most one core is inside the constructor, none is while the
  object is complete, and a core that goes on to use the object finds it constructed. No core waits for
  nothing: while no core is inside the constructor, an attempt that does not fail spuriously ends the wait.
\<close>

theorem cxa_guard_once:
  assumes "guard_step\<^sup>*\<^sup>* guard_init s"
  shows "gs_built s \<le> 1 \<and>
         (\<forall>c d. gs_pc s c = Building \<and> gs_pc s d = Building \<longrightarrow> c = d) \<and>
         (\<forall>c. gs_pc s c = Usable \<longrightarrow> gs_built s = 1) \<and>
         (\<forall>c. gs_pc s c = Building \<longrightarrow> gs_built s = 0) \<and>
         ((\<forall>d. gs_pc s d \<noteq> Building) \<longrightarrow> (\<exists>r. fst (cxa_guard_acquire False (gs_guard s)) = Some r))"
  using guard_ok_facts [OF guard_ok_reachable [OF assms]] by blast

theorem cxa_guard_once_witness:
  "\<exists>s. guard_step\<^sup>*\<^sup>* guard_init s \<and> gs_pc s 0 = Building \<and> gs_pc s 1 = Waiting \<and>
       (\<forall>c. gs_pc s c = Building \<longrightarrow> c = 0)"
proof -
  let ?w = "\<lparr>gs_guard = 0, gs_pc = (\<lambda>_. Before)(0 := Waiting), gs_built = 0\<rparr>"
  let ?v = "\<lparr>gs_guard = 0, gs_pc = (\<lambda>_. Before)(0 := Waiting, 1 := Waiting), gs_built = 0\<rparr>"
  let ?s = "\<lparr>gs_guard = kInUseMask, gs_pc = (\<lambda>_. Before)(0 := Waiting, 1 := Waiting, 0 := Building), gs_built = 0\<rparr>"
  have "guard_step guard_init ?w" using guard_step.enter [of guard_init 0] by (simp add: guard_init_def)
  moreover have "guard_step ?w ?v" using guard_step.enter [of ?w 1] by simp
  moreover have "guard_step ?v ?s"
    using guard_step.acquire [of ?v 0 False "Some 1" kInUseMask]
    by (simp add: cxa_guard_acquire_def after_acquire_def)
  ultimately have r: "guard_step\<^sup>*\<^sup>* guard_init ?s" by (meson rtranclp.rtrancl_into_rtrancl rtranclp.rtrancl_refl)
  have p: "gs_pc ?s 0 = Building" "gs_pc ?s 1 = Waiting" by simp_all
  have "gs_pc ?s c = Building \<Longrightarrow> c = 0" for c
    using cxa_guard_once [OF r, THEN conjunct2, THEN conjunct1, rule_format, of c 0] p(1) by blast
  with r p show ?thesis by blast
qed

subsection \<open>Destructors\<close>

record atexit_func_entry_t =
  destructor_func :: u64
  obj_ptr :: u64

definition kMaxAtExitFuncsCount :: nat where "kMaxAtExitFuncsCount = 128"

text \<open>The entries in use of the array; \<open>atexit_func_count\<close> is their number. A null pointer is 0.\<close>

type_synonym atexit_funcs = "atexit_func_entry_t list"

definition cxa_atexit :: "u64 \<Rightarrow> u64 \<Rightarrow> atexit_funcs \<Rightarrow> int \<times> atexit_funcs" where
  "cxa_atexit f obj fs =
    (if length fs \<ge> kMaxAtExitFuncsCount then (- 1, fs)
     else (0, fs @ [\<lparr>destructor_func = f, obj_ptr = obj\<rparr>]))"

text \<open>The two loops run from the last entry to the first; \<open>i\<close> entries are left.\<close>

primrec finalize_all :: "nat \<Rightarrow> atexit_funcs \<Rightarrow> (u64 \<times> u64) list" where
  "finalize_all 0 fs = []"
| "finalize_all (Suc idx) fs =
    (let e = fs ! idx in if destructor_func e \<noteq> 0 then [(destructor_func e, obj_ptr e)] else []) @ finalize_all idx fs"

primrec finalize_one :: "u64 \<Rightarrow> nat \<Rightarrow> atexit_funcs \<Rightarrow> (u64 \<times> u64) list \<times> atexit_funcs" where
  "finalize_one f 0 fs = ([], fs)"
| "finalize_one f (Suc idx) fs =
    (let e = fs ! idx in
     if destructor_func e = f
     then case finalize_one f idx (fs[idx := e\<lparr>destructor_func := 0\<rparr>]) of
            (calls, fs) \<Rightarrow> ((destructor_func e, obj_ptr e) # calls, fs)
     else finalize_one f idx fs)"

definition cxa_finalize :: "u64 \<Rightarrow> atexit_funcs \<Rightarrow> (u64 \<times> u64) list \<times> atexit_funcs" where
  "cxa_finalize f fs =
    (if f = 0 then (finalize_all (length fs) fs, fs) else finalize_one f (length fs) fs)"

definition call_of :: "atexit_func_entry_t \<Rightarrow> u64 \<times> u64" where
  "call_of e = (destructor_func e, obj_ptr e)"

lemma finalize_all_eq:
  "n \<le> length fs \<Longrightarrow>
     finalize_all n fs = rev (map call_of (filter (\<lambda>e. destructor_func e \<noteq> 0) (take n fs)))"
  by (induction n) (auto simp: take_Suc_conv_app_nth call_of_def Let_def)

text \<open>The destructors are called in the reverse order of their registration.\<close>

lemma finalize_reverse:
  "fst (cxa_finalize 0 fs) = rev (map call_of (filter (\<lambda>e. destructor_func e \<noteq> 0) fs))"
  by (simp add: cxa_finalize_def finalize_all_eq)

definition forget :: "u64 \<Rightarrow> atexit_func_entry_t \<Rightarrow> atexit_func_entry_t" where
  "forget f e = (if destructor_func e = f then e\<lparr>destructor_func := 0\<rparr> else e)"

lemma finalize_one_eq:
  "f \<noteq> 0 \<Longrightarrow> n \<le> length fs \<Longrightarrow>
     finalize_one f n fs = (rev (map call_of (filter (\<lambda>e. destructor_func e = f) (take n fs))),
       map (forget f) (take n fs) @ drop n fs)"
proof (induction n arbitrary: fs)
  case (Suc n)
  then show ?case
    by (auto simp: Let_def take_Suc_conv_app_nth call_of_def forget_def upd_conv_take_nth_drop
        Cons_nth_drop_Suc split: prod.splits)
qed simp

text \<open>After a call for one function, a call for all runs every other destructor and not this one.\<close>

lemma finalize_then_all:
  assumes "f \<noteq> 0" "cxa_finalize f fs = (calls, fs')"
  shows "calls = rev (map call_of (filter (\<lambda>e. destructor_func e = f) fs))"
    and "fst (cxa_finalize 0 fs') = rev (map call_of (filter (\<lambda>e. destructor_func e \<noteq> 0 \<and> destructor_func e \<noteq> f) fs))"
proof -
  have e: "calls = rev (map call_of (filter (\<lambda>e. destructor_func e = f) fs))" "fs' = map (forget f) fs"
    using assms finalize_one_eq [of f "length fs" fs] by (auto simp: cxa_finalize_def)
  show "calls = rev (map call_of (filter (\<lambda>e. destructor_func e = f) fs))" by (fact e(1))
  show "fst (cxa_finalize 0 fs') = rev (map call_of (filter (\<lambda>e. destructor_func e \<noteq> 0 \<and> destructor_func e \<noteq> f) fs))"
    unfolding finalize_reverse e(2) using assms(1) by (induction fs) (auto simp: forget_def call_of_def)
qed

text \<open>A call for all leaves the table as it is: a second one runs every destructor again.\<close>

lemma finalize_all_repeats: "cxa_finalize 0 fs = (calls, fs') \<Longrightarrow> cxa_finalize 0 fs' = (calls, fs')"
  by (auto simp: cxa_finalize_def)

lemma cxa_atexit_registers:
  "cxa_atexit f obj fs = (0, fs') \<Longrightarrow> f \<noteq> 0 \<Longrightarrow> fst (cxa_finalize 0 fs') = (f, obj) # fst (cxa_finalize 0 fs)"
  by (auto simp: cxa_atexit_def finalize_reverse call_of_def split: if_splits)

lemma cxa_atexit_full: "length fs = kMaxAtExitFuncsCount \<Longrightarrow> cxa_atexit f obj fs = (- 1, fs)"
  by (simp add: cxa_atexit_def)

subsection \<open>The operators new and delete\<close>

definition operator_new :: "size_t \<Rightarrow> heap \<Rightarrow> u64 \<times> heap" where
  "operator_new sz h = (let sz = (if sz = 0 then 1 else sz) in malloc sz h)"

definition operator_new_array :: "size_t \<Rightarrow> heap \<Rightarrow> u64 \<times> heap" where
  "operator_new_array sz h = (let sz = (if sz = 0 then 1 else sz) in malloc sz h)"

definition operator_new_aligned :: "size_t \<Rightarrow> size_t \<Rightarrow> heap \<Rightarrow> u64 \<times> heap" where
  "operator_new_aligned sz alignment h =
    (let sz = (if sz = 0 then 1 else sz) in
     if alignment = 0 \<or> alignment AND (alignment - 1) \<noteq> 0 then (0, h)
     else if alignment \<le> max_align then malloc sz h
     else aligned_alloc alignment sz h)"

definition operator_new_array_aligned :: "size_t \<Rightarrow> size_t \<Rightarrow> heap \<Rightarrow> u64 \<times> heap" where
  "operator_new_array_aligned sz alignment h =
    (let sz = (if sz = 0 then 1 else sz) in
     if alignment = 0 \<or> alignment AND (alignment - 1) \<noteq> 0 then (0, h)
     else if alignment \<le> max_align then malloc sz h
     else aligned_alloc alignment sz h)"

definition operator_delete :: "u64 \<Rightarrow> heap \<Rightarrow> heap" where
  "operator_delete ptr h = (if ptr \<noteq> 0 then free ptr h else h)"

definition operator_delete_array :: "u64 \<Rightarrow> heap \<Rightarrow> heap" where
  "operator_delete_array ptr h = (if ptr \<noteq> 0 then free ptr h else h)"

definition operator_delete_aligned :: "u64 \<Rightarrow> heap \<Rightarrow> heap" where
  "operator_delete_aligned ptr h = (if ptr \<noteq> 0 then aligned_free ptr h else h)"

definition operator_delete_array_aligned :: "u64 \<Rightarrow> heap \<Rightarrow> heap" where
  "operator_delete_array_aligned ptr h = (if ptr \<noteq> 0 then aligned_free ptr h else h)"

lemma power_le_max_align: "k < 64 \<Longrightarrow> (2 :: u64) ^ k \<le> max_align \<longleftrightarrow> k \<le> 4"
proof -
  assume "k < 64"
  then have "unat (of_nat (2 ^ k) :: u64) = 2 ^ k" by (simp only: unsigned_of_nat take_bit_nat_eq_self_iff) simp
  then have "unat ((2 :: u64) ^ k) = 2 ^ k" by simp
  moreover have "(2 :: nat) ^ k \<le> 2 ^ 4 \<longleftrightarrow> k \<le> 4" by (rule power_increasing_iff) simp
  ultimately show ?thesis by (simp add: word_le_nat_alt max_align_def)
qed

text \<open>Every form is one of the requests whose blocks the heap keeps apart.\<close>

lemma operator_new_serve: "operator_new sz h = serve (Malloc (if sz = 0 then 1 else sz)) h"
  by (simp add: operator_new_def)

lemma operator_new_aligned_serve:
  assumes "k < 64"
  shows "operator_new_aligned sz (2 ^ k) h =
    serve (if k \<le> 4 then Malloc (if sz = 0 then 1 else sz) else Aligned k (if sz = 0 then 1 else sz)) h"
  using power_of_two(1) [OF assms] power_of_two(2) [of k] power_le_max_align [OF assms]
  by (simp add: operator_new_aligned_def)

lemma operator_new_aligned_rejects:
  "alignment = 0 \<or> alignment AND (alignment - 1) \<noteq> 0 \<Longrightarrow> operator_new_aligned sz alignment h = (0, h)"
  by (auto simp: operator_new_aligned_def)

text \<open>Two objects have different addresses, also when their size is 0.\<close>

lemma operator_new_distinct:
  assumes "heap_ready b h" "unat m \<le> 2 ^ 60" "unat n \<le> 2 ^ 60"
    and "operator_new m h = (p, h1)" "operator_new n h1 = (q, h2)" "p \<noteq> 0" "q \<noteq> 0"
  shows "p \<noteq> q"
proof -
  let ?m = "Malloc (if m = 0 then 1 else m)" and ?n = "Malloc (if n = 0 then 1 else n)"
  have w: "0 < wanted ?m" "sensible ?m" "sensible ?n" using assms(2,3) by (auto simp: unat_gt_0)
  obtain b1 where 1: "heap_ready b1 h1" "served (wanted ?m) b (h_mem h) p b1 (h_mem h1)"
    using serve_served [OF assms(1) w(2) assms(4) [unfolded operator_new_serve]] by blast
  obtain b2 where "served (wanted ?n) b1 (h_mem h1) q b2 (h_mem h2)"
    using serve_served [OF 1(1) w(3) assms(5) [unfolded operator_new_serve]] by blast
  then show ?thesis using 1(2) w(1) assms(6,7) by (auto simp: served_def placed_def)
qed

text \<open>When the heap is used up the operator returns a null pointer, although its declaration lets the
  compiler assume that it does not.\<close>

lemma operator_new_null:
  assumes "h_allocator h = Some b" "align_up (ba_current b) max_align + (if sz = 0 then 1 else sz) > ba_end b"
  shows "operator_new sz h = (0, h)"
  using assms by (simp add: operator_new_def malloc_def with_allocator_def Bmalloc_malloc_def Alloc_def
      Bump_AllocImpl_def Let_def)

end
