(* ===== verification/Nanoprintf.thy ===== *)
theory Nanoprintf
  imports Libc_Stdlib
begin

text \<open>
  Formatted output: \<open>src/3rd/nanoprintf/nanoprintf.h\<close> in the configuration of
  \<open>src/src/libc/nk_stdio.c\<close> (field width, precision, large and binary conversions; no floating point and
  no write-back), and the functions of \<open>nk_stdio.c\<close> and \<open>src/src/libcxx/nk_iostream.cpp\<close> on top of it.

  The format is the list of its characters up to the terminating null character. The variable arguments
  are a list of typed values; taking an argument of another type, or one too many, is undefined in C and a
  fault here. The characters go to a function \<open>pc\<close> on a context of any type, as in the source.
\<close>

subsection \<open>Types\<close>

datatype npf_opt = OPT_NONE | OPT_LITERAL | OPT_STAR

datatype npf_len_mod = LEN_MOD_NONE | LEN_MOD_SHORT | LEN_MOD_LONG_DOUBLE | LEN_MOD_CHAR | LEN_MOD_LONG
  | LEN_MOD_LARGE_LONG_LONG | LEN_MOD_LARGE_INTMAX | LEN_MOD_LARGE_SIZET | LEN_MOD_LARGE_PTRDIFFT

datatype npf_conv = CONV_NONE | CONV_PERCENT | CONV_CHAR | CONV_STRING | CONV_SIGNED_INT | CONV_BINARY
  | CONV_OCTAL | CONV_HEX_INT | CONV_UNSIGNED_INT | CONV_POINTER

text \<open>Members of type \<open>char\<close> that are only tested are Booleans; \<open>prepend\<close> is a character, null for none.\<close>

record npf_format_spec_t =
  field_width :: int
  field_width_opt :: npf_opt
  left_justified :: bool
  leading_zero_pad :: bool
  prec :: int
  prec_opt :: npf_opt
  prepend :: char
  alt_form :: bool
  case_adjust :: nat
  length_modifier :: npf_len_mod
  conv_spec :: npf_conv

abbreviation NUL :: char where "NUL \<equiv> CHR 0x00"

definition cur_char :: "string \<Rightarrow> char" where
  "cur_char cur = (case cur of [] \<Rightarrow> NUL | c # _ \<Rightarrow> c)"

definition npf_max :: "int \<Rightarrow> int \<Rightarrow> int" where
  "npf_max x y = (if x > y then x else y)"

subsection \<open>The format specification\<close>

text \<open>The parts of \<open>npf_parse_format_spec\<close>: flags, field width, precision, length modifier, conversion.\<close>

fun parse_flags :: "npf_format_spec_t \<Rightarrow> string \<Rightarrow> npf_format_spec_t \<times> string" where
  "parse_flags fs [] = (fs, [])"
| "parse_flags fs (c # cur) =
    (if c = CHR ''-'' then parse_flags (fs\<lparr>left_justified := True, leading_zero_pad := False\<rparr>) cur
     else if c = CHR ''0'' then parse_flags (fs\<lparr>leading_zero_pad := \<not> left_justified fs\<rparr>) cur
     else if c = CHR ''+'' then parse_flags (fs\<lparr>prepend := CHR ''+''\<rparr>) cur
     else if c = CHR '' '' then parse_flags (if prepend fs = NUL then fs\<lparr>prepend := CHR '' ''\<rparr> else fs) cur
     else if c = CHR ''#'' then parse_flags (fs\<lparr>alt_form := True\<rparr>) cur
     else (fs, c # cur))"

definition is_digit :: "char \<Rightarrow> bool" where
  "is_digit c \<longleftrightarrow> of_char c \<ge> (48 :: nat) \<and> of_char c \<le> (57 :: nat)"

definition NPF_INT_MAX :: int where "NPF_INT_MAX = 2147483647"

text \<open>The loop on decimal digits; exceeding the range of \<open>int\<close> is undefined.\<close>

fun parse_digits :: "int \<Rightarrow> string \<Rightarrow> (int \<times> string) outcome" where
  "parse_digits v [] = Done (v, [])"
| "parse_digits v (c # cur) =
    (if is_digit c
     then let w = v * 10 + (of_char c - 48) in
          if w > NPF_INT_MAX then Fault SignedOverflow else parse_digits w cur
     else Done (v, c # cur))"

definition parse_width :: "npf_format_spec_t \<Rightarrow> string \<Rightarrow> (npf_format_spec_t \<times> string) outcome" where
  "parse_width fs cur =
    (let fs = fs\<lparr>field_width := 0, field_width_opt := OPT_NONE\<rparr> in
     if cur_char cur = CHR ''*'' then Done (fs\<lparr>field_width_opt := OPT_STAR\<rparr>, tl cur)
     else if is_digit (cur_char cur)
     then obind (parse_digits 0 cur) (\<lambda>(w, cur). Done (fs\<lparr>field_width := w, field_width_opt := OPT_LITERAL\<rparr>, cur))
     else Done (fs, cur))"

definition parse_prec :: "npf_format_spec_t \<Rightarrow> string \<Rightarrow> (npf_format_spec_t \<times> string) outcome" where
  "parse_prec fs cur =
    (let fs = fs\<lparr>prec := 0, prec_opt := OPT_NONE\<rparr> in
     if cur_char cur = CHR ''.''
     then let cur = tl cur in
          if cur_char cur = CHR ''*'' then Done (fs\<lparr>prec_opt := OPT_STAR\<rparr>, tl cur)
          else let (fs, cur) = (if cur_char cur = CHR ''-'' then (fs, tl cur) else (fs\<lparr>prec_opt := OPT_LITERAL\<rparr>, cur)) in
               obind (parse_digits 0 cur) (\<lambda>(p, cur). Done (fs\<lparr>prec := p\<rparr>, cur))
     else Done (fs, cur))"

definition parse_len_mod :: "string \<Rightarrow> npf_len_mod \<times> string" where
  "parse_len_mod cur =
    (let c = cur_char cur in
     if c = CHR ''h'' then (if cur_char (tl cur) = CHR ''h'' then (LEN_MOD_CHAR, tl (tl cur)) else (LEN_MOD_SHORT, tl cur))
     else if c = CHR ''l'' then (if cur_char (tl cur) = CHR ''l'' then (LEN_MOD_LARGE_LONG_LONG, tl (tl cur)) else (LEN_MOD_LONG, tl cur))
     else if c = CHR ''j'' then (LEN_MOD_LARGE_INTMAX, tl cur)
     else if c = CHR ''z'' then (LEN_MOD_LARGE_SIZET, tl cur)
     else if c = CHR ''t'' then (LEN_MOD_LARGE_PTRDIFFT, tl cur)
     else (LEN_MOD_NONE, cur))"

text \<open>The conversions \<open>i d o u X x\<close> fall through to a common end; \<open>None\<close> is the return of 0.\<close>

definition int_conv :: "npf_conv \<Rightarrow> npf_format_spec_t \<Rightarrow> npf_format_spec_t" where
  "int_conv tmp_conv fs =
    (let fs = fs\<lparr>conv_spec := tmp_conv\<rparr> in
     if prec_opt fs \<noteq> OPT_NONE then fs\<lparr>leading_zero_pad := False\<rparr> else fs)"

definition parse_conv :: "npf_format_spec_t \<Rightarrow> char \<Rightarrow> npf_format_spec_t option" where
  "parse_conv fs c =
    (if c = CHR ''%'' then Some (fs\<lparr>conv_spec := CONV_PERCENT, prec_opt := OPT_NONE\<rparr>)
     else if c = CHR ''c'' then Some (fs\<lparr>conv_spec := CONV_CHAR, prec_opt := OPT_NONE\<rparr>)
     else if c = CHR ''s'' then Some (fs\<lparr>conv_spec := CONV_STRING, leading_zero_pad := False\<rparr>)
     else if c = CHR ''i'' \<or> c = CHR ''d'' then Some (int_conv CONV_SIGNED_INT fs)
     else if c = CHR ''o'' then Some (int_conv CONV_OCTAL fs)
     else if c = CHR ''u'' then Some (int_conv CONV_UNSIGNED_INT fs)
     else if c = CHR ''X'' then Some (int_conv CONV_HEX_INT (fs\<lparr>case_adjust := 0\<rparr>))
     else if c = CHR ''x'' then Some (int_conv CONV_HEX_INT fs)
     else if c = CHR ''p'' then Some (fs\<lparr>conv_spec := CONV_POINTER, prec_opt := OPT_NONE\<rparr>)
     else if c = CHR ''B'' then Some (fs\<lparr>case_adjust := 0, conv_spec := CONV_BINARY\<rparr>)
     else if c = CHR ''b'' then Some (fs\<lparr>conv_spec := CONV_BINARY\<rparr>)
     else None)"

definition fs_start :: npf_format_spec_t where
  "fs_start = \<lparr>field_width = 0, field_width_opt = OPT_NONE, left_justified = False, leading_zero_pad = False,
     prec = 0, prec_opt = OPT_NONE, prepend = NUL, alt_form = False, case_adjust = 32,
     length_modifier = LEN_MOD_NONE, conv_spec = CONV_NONE\<rparr>"

definition npf_parse_format_spec :: "string \<Rightarrow> (nat \<times> npf_format_spec_t) outcome" where
  "npf_parse_format_spec format =
    (let (fs, cur) = parse_flags fs_start (tl format) in
     obind (parse_width fs cur) (\<lambda>(fs, cur).
     obind (parse_prec fs cur) (\<lambda>(fs, cur).
     let (len_mod, cur) = parse_len_mod cur; fs = fs\<lparr>length_modifier := len_mod\<rparr> in
     case parse_conv fs (cur_char cur) of
       None \<Rightarrow> Done (0, fs)
     | Some fs \<Rightarrow> Done (length format - length (tl cur), fs))))"

subsection \<open>Digits\<close>

definition npf_digit :: "nat \<Rightarrow> nat \<Rightarrow> char" where
  "npf_digit case_adj d = char_of ((if d < 10 then 48 else 65 - 10 + case_adj) + d)"

text \<open>
  The characters that \<open>npf_utoa_rev\<close> stores, the last digit first. The base is 8, 10 or 16 where it is
  called; below 2, where the loop of the source would not end or divide by zero, the function stops.
\<close>

lemma div_base_less: "val div base \<noteq> 0 \<Longrightarrow> 2 \<le> base \<Longrightarrow> unat (val div base) < unat val" for val base :: u64
proof -
  assume a: "val div base \<noteq> 0" "2 \<le> base"
  then have "0 < unat (val div base)" "2 \<le> unat base" by (simp_all add: unat_gt_0 word_le_nat_alt)
  then show ?thesis by (simp add: unat_div div_greater_zero_iff)
qed

function npf_utoa_rev :: "u64 \<Rightarrow> u64 \<Rightarrow> nat \<Rightarrow> string" where
  "npf_utoa_rev val base case_adj =
    npf_digit case_adj (unat (val mod base)) #
    (if val div base = 0 \<or> \<not> 2 \<le> base then [] else npf_utoa_rev (val div base) base case_adj)"
  by pat_completeness auto
termination
  by (relation "measure (\<lambda>(val, _, _). unat val)") (simp_all add: div_base_less)

declare npf_utoa_rev.simps [simp del]

text \<open>The length of the binary form, as the loop of the source computes it.\<close>

function bin_bits :: "u64 \<Rightarrow> nat" where
  "bin_bits u = (if u = 0 then 0 else Suc (bin_bits (drop_bit 1 u)))"
  by pat_completeness auto
termination
proof (relation "measure unat")
  fix u :: u64 assume "u \<noteq> 0"
  then have "0 < unat u" by (simp add: unat_gt_0)
  then show "(drop_bit 1 u, u) \<in> measure unat" by (simp add: drop_bit_Suc unat_div)
qed simp

declare bin_bits.simps [simp del]

definition npf_bin_len :: "u64 \<Rightarrow> nat" where
  "npf_bin_len u = (if u = 0 then 1 else bin_bits u)"

subsection \<open>Variable arguments\<close>

text \<open>
  An argument of type \<open>int\<close> or \<open>unsigned\<close>, one of the 64-bit integer types, a pointer for \<open>%p\<close>, and a
  pointer to a string, with the characters it points to (\<open>None\<close> for a null pointer).
\<close>

datatype va_val = VInt u32 | VLong u64 | VPtr u64 | VStr "string option"

fun va_int :: "va_val list \<Rightarrow> (u32 \<times> va_val list) outcome" where
  "va_int (VInt v # args) = Done (v, args)"
| "va_int _ = Fault BadVarArg"

fun va_long :: "va_val list \<Rightarrow> (u64 \<times> va_val list) outcome" where
  "va_long (VLong v # args) = Done (v, args)"
| "va_long _ = Fault BadVarArg"

fun va_ptr :: "va_val list \<Rightarrow> (u64 \<times> va_val list) outcome" where
  "va_ptr (VPtr v # args) = Done (v, args)"
| "va_ptr _ = Fault BadVarArg"

fun va_str :: "va_val list \<Rightarrow> (string option \<times> va_val list) outcome" where
  "va_str (VStr v # args) = Done (v, args)"
| "va_str _ = Fault BadVarArg"

text \<open>The extraction by length modifier; a signed value is the integer it denotes.\<close>

definition extract_signed :: "npf_len_mod \<Rightarrow> va_val list \<Rightarrow> (int \<times> va_val list) outcome" where
  "extract_signed lm args =
    (case lm of
       LEN_MOD_NONE \<Rightarrow> obind (va_int args) (\<lambda>(v, args). Done (sint v, args))
     | LEN_MOD_SHORT \<Rightarrow> obind (va_int args) (\<lambda>(v, args). Done (sint (ucast v :: 16 word), args))
     | LEN_MOD_LONG_DOUBLE \<Rightarrow> obind (va_int args) (\<lambda>(v, args). Done (sint v, args))
     | LEN_MOD_CHAR \<Rightarrow> obind (va_int args) (\<lambda>(v, args). Done (sint (ucast v :: u8), args))
     | _ \<Rightarrow> obind (va_long args) (\<lambda>(v, args). Done (sint v, args)))"

definition extract_unsigned :: "npf_len_mod \<Rightarrow> va_val list \<Rightarrow> (u64 \<times> va_val list) outcome" where
  "extract_unsigned lm args =
    (case lm of
       LEN_MOD_NONE \<Rightarrow> obind (va_int args) (\<lambda>(v, args). Done (ucast v, args))
     | LEN_MOD_SHORT \<Rightarrow> obind (va_int args) (\<lambda>(v, args). Done (ucast (ucast v :: 16 word), args))
     | LEN_MOD_LONG_DOUBLE \<Rightarrow> obind (va_int args) (\<lambda>(v, args). Done (ucast v, args))
     | LEN_MOD_CHAR \<Rightarrow> obind (va_int args) (\<lambda>(v, args). Done (ucast (ucast v :: u8), args))
     | _ \<Rightarrow> va_long args)"

definition star_width :: "npf_format_spec_t \<Rightarrow> va_val list \<Rightarrow> (npf_format_spec_t \<times> va_val list) outcome" where
  "star_width fs args =
    (if field_width_opt fs = OPT_STAR
     then obind (va_int args) (\<lambda>(v, args).
          let w = sint v in
          if w < 0 then (if - w > NPF_INT_MAX then Fault SignedOverflow
                         else Done (fs\<lparr>field_width := - w, left_justified := True\<rparr>, args))
          else Done (fs\<lparr>field_width := w\<rparr>, args))
     else Done (fs, args))"

definition star_prec :: "npf_format_spec_t \<Rightarrow> va_val list \<Rightarrow> (npf_format_spec_t \<times> va_val list) outcome" where
  "star_prec fs args =
    (if prec_opt fs = OPT_STAR
     then obind (va_int args) (\<lambda>(v, args).
          let fs = fs\<lparr>prec := sint v\<rparr> in
          Done (if sint v < 0 then fs\<lparr>prec_opt := OPT_NONE\<rparr> else fs, args))
     else Done (fs, args))"

subsection \<open>Conversion of one argument\<close>

text \<open>
  The local variables of the loop body after the \<open>switch\<close> on the conversion: \<open>cbuf\<close> (its first
  \<open>cbuf_len\<close> characters; a number stands there in reverse), \<open>u.binval\<close>, \<open>sign_c\<close>, \<open>need_0x\<close> and \<open>zero\<close>.
\<close>

record npf_cv =
  cbuf :: string
  cbuf_len :: nat
  binval :: u64
  sign_c :: char
  need_0x :: char
  zero :: bool

definition cv_text :: "string \<Rightarrow> npf_cv" where
  "cv_text t = \<lparr>cbuf = t, cbuf_len = length t, binval = 0, sign_c = NUL, need_0x = NUL, zero = False\<rparr>"

text \<open>The characters of a string argument up to the null character or the precision.\<close>

definition string_chars :: "npf_format_spec_t \<Rightarrow> string option \<Rightarrow> string" where
  "string_chars fs v = (case v of None \<Rightarrow> []
     | Some t \<Rightarrow> let t = takeWhile (\<lambda>c. c \<noteq> NUL) t in if prec_opt fs = OPT_NONE then t else take (nat (prec fs)) t)"

definition conv_signed :: "npf_format_spec_t \<Rightarrow> int \<Rightarrow> npf_cv" where
  "conv_signed fs val =
    (let t = (if val = 0 \<and> prec_opt fs \<noteq> OPT_NONE \<and> prec fs = 0 then []
              else let uval = of_int val; uval = (if val < 0 then 0 - uval else uval)
                   in npf_utoa_rev uval 10 (case_adjust fs))
     in (cv_text t)\<lparr>sign_c := (if val < 0 then CHR ''-'' else prepend fs), zero := (val = 0)\<rparr>)"

definition npf_base :: "npf_conv \<Rightarrow> u64" where
  "npf_base conv = (if conv = CONV_OCTAL then 8 else if conv = CONV_HEX_INT then 16 else 10)"

definition unsigned_digits :: "npf_format_spec_t \<Rightarrow> u64 \<Rightarrow> npf_format_spec_t \<times> npf_cv" where
  "unsigned_digits fs val =
    (if val = 0 \<and> prec_opt fs \<noteq> OPT_NONE \<and> prec fs = 0
     then (if conv_spec fs = CONV_OCTAL \<and> alt_form fs then fs\<lparr>prec := 1\<rparr> else fs, cv_text [])
     else if conv_spec fs = CONV_BINARY then (fs, (cv_text [])\<lparr>cbuf_len := npf_bin_len val, binval := val\<rparr>)
     else (fs, cv_text (npf_utoa_rev val (npf_base (conv_spec fs)) (case_adjust fs))))"

definition conv_unsigned :: "npf_format_spec_t \<Rightarrow> u64 \<Rightarrow> npf_format_spec_t \<times> npf_cv" where
  "conv_unsigned fs val =
    (let (fs, cv) = unsigned_digits fs val;
         cv = cv\<lparr>zero := (val = 0)\<rparr>;
         cv = (if val \<noteq> 0 \<and> alt_form fs \<and> conv_spec fs = CONV_OCTAL
               then cv\<lparr>cbuf := cbuf cv @ ''0'', cbuf_len := cbuf_len cv + 1\<rparr> else cv);
         x = (if val \<noteq> 0 \<and> alt_form fs
              then if conv_spec fs = CONV_HEX_INT then 88 + case_adjust fs
                   else if conv_spec fs = CONV_BINARY then 66 + case_adjust fs else 0
              else 0)
     in (fs, cv\<lparr>need_0x := char_of x\<rparr>))"

definition npf_convert :: "npf_format_spec_t \<Rightarrow> va_val list \<Rightarrow> (npf_format_spec_t \<times> npf_cv \<times> va_val list) outcome" where
  "npf_convert fs args =
    (case conv_spec fs of
       CONV_PERCENT \<Rightarrow> Done (fs, cv_text ''%'', args)
     | CONV_CHAR \<Rightarrow> obind (va_int args) (\<lambda>(v, args). Done (fs, cv_text [char_of (unat v)], args))
     | CONV_STRING \<Rightarrow> obind (va_str args) (\<lambda>(v, args). Done (fs, cv_text (string_chars fs v), args))
     | CONV_SIGNED_INT \<Rightarrow> obind (extract_signed (length_modifier fs) args) (\<lambda>(val, args). Done (fs, conv_signed fs val, args))
     | CONV_POINTER \<Rightarrow> obind (va_ptr args) (\<lambda>(v, args).
         Done (fs, (cv_text (npf_utoa_rev v 16 32))\<lparr>need_0x := CHR ''x''\<rparr>, args))
     | CONV_NONE \<Rightarrow> Done (fs, cv_text [], args)
     | _ \<Rightarrow> obind (extract_unsigned (length_modifier fs) args) (\<lambda>(val, args).
         case conv_unsigned fs val of (fs, cv) \<Rightarrow> Done (fs, cv, args)))"

subsection \<open>Padding\<close>

definition pad_char :: "npf_format_spec_t \<Rightarrow> npf_cv \<Rightarrow> char" where
  "pad_char fs cv =
    (if field_width_opt fs = OPT_NONE then NUL
     else if leading_zero_pad fs
     then if conv_spec fs \<noteq> CONV_STRING \<and> conv_spec fs \<noteq> CONV_CHAR \<and> conv_spec fs \<noteq> CONV_PERCENT
          then if prec_opt fs \<noteq> OPT_NONE \<and> prec fs = 0 \<and> zero cv then CHR '' '' else CHR ''0''
          else NUL
     else CHR '' '')"

definition prec_pad :: "npf_format_spec_t \<Rightarrow> npf_cv \<Rightarrow> int" where
  "prec_pad fs cv = (if conv_spec fs \<noteq> CONV_STRING then npf_max 0 (prec fs - int (cbuf_len cv)) else 0)"

definition field_pad :: "npf_format_spec_t \<Rightarrow> npf_cv \<Rightarrow> int" where
  "field_pad fs cv = npf_max 0 (field_width fs - int (cbuf_len cv) - (if sign_c cv \<noteq> NUL then 1 else 0)
     - (if need_0x cv \<noteq> NUL then 2 else 0) - prec_pad fs cv)"

definition payload :: "npf_format_spec_t \<Rightarrow> npf_cv \<Rightarrow> string" where
  "payload fs cv =
    (if conv_spec fs = CONV_BINARY
     then map (\<lambda>i. char_of (48 + unat (drop_bit i (binval cv) AND 1))) (rev [0..<cbuf_len cv])
     else rev (cbuf cv))"

text \<open>The characters that one conversion puts out, in their order.\<close>

definition npf_emit :: "npf_format_spec_t \<Rightarrow> npf_cv \<Rightarrow> string" where
  "npf_emit fs cv =
    (let pad_c = pad_char fs cv;
         pads = replicate (nat (field_pad fs cv)) pad_c;
         sgn = (if sign_c cv \<noteq> NUL then [sign_c cv] else []);
         x = (if need_0x cv \<noteq> NUL then [CHR ''0'', need_0x cv] else []);
         (front, sgn) = (if \<not> left_justified fs \<and> pad_c \<noteq> NUL
                         then if pad_c = CHR ''0'' then (sgn @ x @ pads, []) else (pads @ x, sgn)
                         else (x, sgn));
         body = (if conv_spec fs = CONV_STRING then cbuf cv
                 else sgn @ replicate (nat (prec_pad fs cv)) (CHR ''0'') @ payload fs cv);
         back = (if left_justified fs \<and> pad_c \<noteq> NUL then pads else [])
     in front @ body @ back)"

definition npf_field :: "npf_format_spec_t \<Rightarrow> va_val list \<Rightarrow> (string \<times> va_val list) outcome" where
  "npf_field fs args =
    obind (star_width fs args) (\<lambda>(fs, args).
    obind (star_prec fs args) (\<lambda>(fs, args).
    obind (npf_convert fs args) (\<lambda>(fs, cv, args). Done (npf_emit fs cv, args))))"

subsection \<open>The loop\<close>

text \<open>\<open>npf_putc_cnt\<close> counts the characters and passes them on.\<close>

definition npf_putc_cnt :: "(char \<Rightarrow> 'c \<Rightarrow> 'c) \<Rightarrow> char \<Rightarrow> nat \<times> 'c \<Rightarrow> nat \<times> 'c" where
  "npf_putc_cnt pc c pc_cnt = (fst pc_cnt + 1, pc c (snd pc_cnt))"

lemma obind_cong [fundef_cong]:
  "m = m' \<Longrightarrow> (\<And>a. m' = Done a \<Longrightarrow> f a = g a) \<Longrightarrow> obind m f = obind m' g"
  by (cases m') simp_all

function vpprintf_loop :: "(char \<Rightarrow> 'c \<Rightarrow> 'c) \<Rightarrow> string \<Rightarrow> va_val list \<Rightarrow> nat \<times> 'c \<Rightarrow> (nat \<times> 'c) outcome" where
  "vpprintf_loop pc cur args pc_cnt =
    (if cur = [] \<or> cur_char cur = NUL then Done pc_cnt
     else if cur_char cur \<noteq> CHR ''%'' then vpprintf_loop pc (tl cur) args (npf_putc_cnt pc (cur_char cur) pc_cnt)
     else obind (npf_parse_format_spec cur) (\<lambda>(fs_len, fs).
       if fs_len = 0 then vpprintf_loop pc (tl cur) args (npf_putc_cnt pc (cur_char cur) pc_cnt)
       else obind (npf_field fs args) (\<lambda>(out, args).
         vpprintf_loop pc (drop fs_len cur) args (fold (npf_putc_cnt pc) out pc_cnt))))"
  by pat_completeness auto
termination
  by (relation "measure (\<lambda>(_, cur, _). length cur)") (auto simp: neq_Nil_conv)

declare vpprintf_loop.simps [simp del]

definition npf_vpprintf :: "(char \<Rightarrow> 'c \<Rightarrow> 'c) \<Rightarrow> 'c \<Rightarrow> string \<Rightarrow> va_val list \<Rightarrow> (nat \<times> 'c) outcome" where
  "npf_vpprintf pc pc_ctx format args = vpprintf_loop pc format args (0, pc_ctx)"

end
