(* ===== verification/Printf.thy ===== *)
theory Printf
  imports Nanoprintf Byte_Memory
begin

text \<open>
  Output into a buffer (\<open>npf_vsnprintf\<close>), the functions of \<open>src/src/libc/nk_stdio.c\<close> and the operators of
  \<open>src/src/libcxx/nk_iostream.cpp\<close>, and what formatted output means: the text of a format does not depend
  on where the characters go, a buffer receives a prefix of the text and a null character and nothing
  outside the buffer is written, the digits that are printed denote the number, and the conversion from
  string to number reads back what was printed.
\<close>

record npf_bufputc_ctx =
  bp_len :: size_t
  bp_cur :: size_t
  bp_mem :: mem

definition npf_bufputc :: "u64 \<Rightarrow> char \<Rightarrow> npf_bufputc_ctx \<Rightarrow> npf_bufputc_ctx" where
  "npf_bufputc dst c bpc =
    (if bp_cur bpc < bp_len bpc
     then bpc\<lparr>bp_mem := (bp_mem bpc)(dst + bp_cur bpc := of_char c), bp_cur := bp_cur bpc + 1\<rparr>
     else bpc)"

definition npf_bufputc_nop :: "char \<Rightarrow> npf_bufputc_ctx \<Rightarrow> npf_bufputc_ctx" where
  "npf_bufputc_nop c ctx = ctx"

definition npf_vsnprintf :: "u64 \<Rightarrow> size_t \<Rightarrow> string \<Rightarrow> va_val list \<Rightarrow> mem \<Rightarrow> (nat \<times> mem) outcome" where
  "npf_vsnprintf buffer bufsz format args m =
    (let pc = (if buffer \<noteq> 0 then npf_bufputc buffer else npf_bufputc_nop) in
     obind (npf_vpprintf pc \<lparr>bp_len = bufsz, bp_cur = 0, bp_mem = m\<rparr> format args) (\<lambda>(n, ctx).
     let m = bp_mem (pc NUL ctx) in
     Done (n, if buffer \<noteq> 0 \<and> bufsz \<noteq> 0 then m(buffer + (bufsz - 1) := 0) else m)))"

definition nk_printf :: "(char \<Rightarrow> 'c \<Rightarrow> 'c) \<Rightarrow> string \<Rightarrow> va_val list \<Rightarrow> 'c \<Rightarrow> (nat \<times> 'c) outcome" where
  "nk_printf nk_putchar format args ctx = npf_vpprintf nk_putchar ctx format args"

definition nk_snprintf :: "u64 \<Rightarrow> size_t \<Rightarrow> string \<Rightarrow> va_val list \<Rightarrow> mem \<Rightarrow> (nat \<times> mem) outcome" where
  "nk_snprintf buffer bufsz format args m = npf_vsnprintf buffer bufsz format args m"

definition nk_vsnprintf :: "u64 \<Rightarrow> size_t \<Rightarrow> string \<Rightarrow> va_val list \<Rightarrow> mem \<Rightarrow> (nat \<times> mem) outcome" where
  "nk_vsnprintf buffer bufsz format vlist m = npf_vsnprintf buffer bufsz format vlist m"

text \<open>The overloads of \<open>operator<<\<close>; arguments narrower than \<open>int\<close> are promoted.\<close>

datatype ostream_arg = Int8 u8 | UInt8 u8 | CString "string option" | Int16 "16 word" | UInt16 "16 word"
  | Int32 u32 | UInt32 u32 | Int64 u64 | UInt64 u64

primrec ostream_put :: "(char \<Rightarrow> 'c \<Rightarrow> 'c) \<Rightarrow> ostream_arg \<Rightarrow> 'c \<Rightarrow> (nat \<times> 'c) outcome" where
  "ostream_put pc (Int8 val) c = nk_printf pc ''%d'' [VInt (scast val)] c"
| "ostream_put pc (UInt8 val) c = nk_printf pc ''%d'' [VInt (ucast val)] c"
| "ostream_put pc (CString val) c = nk_printf pc ''%s'' [VStr val] c"
| "ostream_put pc (Int16 val) c = nk_printf pc ''%d'' [VInt (scast val)] c"
| "ostream_put pc (UInt16 val) c = nk_printf pc ''%d'' [VInt (ucast val)] c"
| "ostream_put pc (Int32 val) c = nk_printf pc ''%d'' [VInt val] c"
| "ostream_put pc (UInt32 val) c = nk_printf pc ''%d'' [VInt val] c"
| "ostream_put pc (Int64 val) c = nk_printf pc ''%ld'' [VLong val] c"
| "ostream_put pc (UInt64 val) c = nk_printf pc ''%ld'' [VLong val] c"

subsection \<open>The text of a format\<close>

primrec map_outcome :: "('a \<Rightarrow> 'b) \<Rightarrow> 'a outcome \<Rightarrow> 'b outcome" where
  "map_outcome f (Done a) = Done (f a)"
| "map_outcome f (Fault e) = Fault e"

lemma map_outcome_obind: "map_outcome f (obind m g) = obind m (\<lambda>a. map_outcome f (g a))"
  by (cases m) simp_all

abbreviation snoc :: "char \<Rightarrow> string \<Rightarrow> string" where
  "snoc c s \<equiv> s @ [c]"

definition printf_text :: "string \<Rightarrow> va_val list \<Rightarrow> string outcome" where
  "printf_text format args = map_outcome snd (npf_vpprintf snoc [] format args)"

definition onto :: "(char \<Rightarrow> 'c \<Rightarrow> 'c) \<Rightarrow> 'c \<Rightarrow> nat \<times> string \<Rightarrow> nat \<times> 'c" where
  "onto pc ctx st = (fst st, fold pc (snd st) ctx)"

lemma onto_putc: "npf_putc_cnt pc c (onto pc ctx st) = onto pc ctx (npf_putc_cnt snoc c st)"
  by (simp add: onto_def npf_putc_cnt_def)

lemma onto_fold: "fold (npf_putc_cnt pc) cs (onto pc ctx st) = onto pc ctx (fold (npf_putc_cnt snoc) cs st)"
  by (induction cs arbitrary: st) (simp_all add: onto_putc)

lemma loop_onto:
  "vpprintf_loop pc cur args (onto pc ctx st) = map_outcome (onto pc ctx) (vpprintf_loop snoc cur args st)"
proof (induction "length cur" arbitrary: cur args st rule: less_induct)
  case less
  consider "cur = [] \<or> cur_char cur = NUL" | "cur \<noteq> []" "cur_char cur \<noteq> NUL" by blast
  then show ?case
  proof cases
    case 1
    then show ?thesis by (subst (1 2) vpprintf_loop.simps) auto
  next
    case 2
    then have t: "length (tl cur) < length cur" by simp
    have d: "length (drop k cur) < length cur" if "k \<noteq> 0" for k using 2(1) that by simp
    show ?thesis using 2
      by (subst (1 2) vpprintf_loop.simps)
        (simp add: map_outcome_obind onto_putc onto_fold less [OF t] less [OF d] split_beta if_distrib cong: obind_cong if_cong)
  qed
qed

definition counted :: "nat \<times> string \<Rightarrow> bool" where
  "counted st \<longleftrightarrow> fst st = length (snd st)"

lemma counted_putc: "counted st \<Longrightarrow> counted (npf_putc_cnt snoc c st)"
  by (simp add: counted_def npf_putc_cnt_def)

lemma counted_fold: "counted st \<Longrightarrow> counted (fold (npf_putc_cnt snoc) cs st)"
  by (induction cs arbitrary: st) (simp_all add: counted_putc)

lemma loop_count: "vpprintf_loop snoc cur args st = Done st' \<Longrightarrow> counted st \<Longrightarrow> counted st'"
proof (induction "length cur" arbitrary: cur args st rule: less_induct)
  case less
  consider "cur = [] \<or> cur_char cur = NUL" | "cur \<noteq> []" "cur_char cur \<noteq> NUL" by blast
  then show ?case
  proof cases
    case 1
    then show ?thesis using less.prems by (subst (asm) vpprintf_loop.simps) auto
  next
    case 2
    then have t: "length (tl cur) < length cur" by simp
    have d: "length (drop k cur) < length cur" if "k \<noteq> 0" for k using 2(1) that by simp
    show ?thesis
      using less.prems 2 less.hyps [OF t _ counted_putc] less.hyps [OF d _ counted_fold]
      by (cases st, subst (asm) vpprintf_loop.simps) (auto simp: obind_Done_iff split: if_splits)
  qed
qed

text \<open>Where the characters go has no influence on the text, and the count is its length.\<close>

lemma vpprintf_text:
  "npf_vpprintf pc ctx format args = map_outcome (\<lambda>s. (length s, fold pc s ctx)) (printf_text format args)"
proof -
  have o: "onto pc ctx (0, []) = (0, ctx)" by (simp add: onto_def)
  have "npf_vpprintf pc ctx format args = map_outcome (onto pc ctx) (vpprintf_loop snoc format args (0, []))"
    using loop_onto [of pc format args ctx "(0, [])"] unfolding o npf_vpprintf_def .
  then show ?thesis
    using loop_count [of format args "(0, [])"]
    by (cases "vpprintf_loop snoc format args (0, [])") (auto simp: printf_text_def npf_vpprintf_def onto_def counted_def)
qed

subsection \<open>Output into a buffer\<close>

primrec put_chars :: "u64 \<Rightarrow> string \<Rightarrow> mem \<Rightarrow> mem" where
  "put_chars p [] m = m"
| "put_chars p (c # t) m = put_chars (p + 1) t (m(p := of_char c))"

lemma put_chars_other: "\<forall>i<length t. x \<noteq> at p i \<Longrightarrow> put_chars p t m x = m x"
proof (induction t arbitrary: p m)
  case (Cons c t)
  have "\<forall>i<length t. x \<noteq> at (p + 1) i" using Cons.prems by (auto simp: at_Suc [symmetric])
  moreover have "x \<noteq> p" using Cons.prems by force
  ultimately show ?case using Cons.IH [of "p + 1"] by simp
qed simp

lemma put_chars_in: "i < length t \<Longrightarrow> length t \<le> 2 ^ 63 \<Longrightarrow> put_chars p t m (at p i) = of_char (t ! i)"
proof (induction t arbitrary: p m i)
  case (Cons c t)
  show ?case
  proof (cases i)
    case 0
    have "\<forall>j<length t. p \<noteq> at (p + 1) j" using Cons.prems(2) by (intro first_byte) simp
    then show ?thesis using 0 put_chars_other [of t p "p + 1" "m(p := of_char c)"] by simp
  next
    case (Suc j)
    then show ?thesis using Cons.IH [of j "p + 1"] Cons.prems by (simp add: at_Suc)
  qed
qed simp

lemma fold_bufputc:
  assumes "j \<le> n" "n < 2 ^ 64"
  shows "fold (npf_bufputc dst) t \<lparr>bp_len = of_nat n, bp_cur = of_nat j, bp_mem = m\<rparr> =
    \<lparr>bp_len = of_nat n, bp_cur = of_nat (min n (j + length t)), bp_mem = put_chars (at dst j) (take (n - j) t) m\<rparr>"
  using assms(1)
proof (induction t arbitrary: j m)
  case (Cons c t)
  have lt: "(of_nat j :: u64) < of_nat n \<longleftrightarrow> j < n"
    using assms(2) Cons.prems by (simp add: word_less_nat_alt unsigned_of_nat take_bit_nat_eq_self)
  show ?case
  proof (cases "j < n")
    case True
    then have n: "n - j = Suc (n - Suc j)" by simp
    have step: "npf_bufputc dst c \<lparr>bp_len = of_nat n, bp_cur = of_nat j, bp_mem = m\<rparr> =
        \<lparr>bp_len = of_nat n, bp_cur = of_nat (Suc j), bp_mem = m(at dst j := of_char c)\<rparr>"
      using True lt by (simp add: npf_bufputc_def at_def add.commute)
    have a: "at dst (Suc j) = at dst j + 1" by (simp add: at_def)
    have "Suc j \<le> n" using True by simp
    from Cons.IH [OF this] show ?thesis
      by (simp only: fold_simps step n take_Suc_Cons put_chars.simps a list.size add_Suc add_Suc_right add_0_right)
  next
    case False
    then have "npf_bufputc dst c \<lparr>bp_len = of_nat n, bp_cur = of_nat j, bp_mem = m\<rparr> =
        \<lparr>bp_len = of_nat n, bp_cur = of_nat j, bp_mem = m\<rparr>"
      using lt by (simp add: npf_bufputc_def)
    then show ?thesis using Cons.IH [OF Cons.prems] False Cons.prems by simp
  qed
qed simp

definition buffer_holds :: "mem \<Rightarrow> u64 \<Rightarrow> nat \<Rightarrow> string \<Rightarrow> mem \<Rightarrow> bool" where
  "buffer_holds m buffer n s m' \<longleftrightarrow>
     (\<forall>i<min (length s) (n - 1). m' (at buffer i) = of_char (s ! i)) \<and>
     m' (at buffer (min (length s) (n - 1))) = 0 \<and>
     (\<forall>x. (\<forall>i<n. x \<noteq> at buffer i) \<longrightarrow> m' x = m x)"

lemma of_char_NUL: "of_char NUL = (0 :: u8)"
  by (simp add: of_char_def)

lemma terminated_prefix:
  assumes "0 < n" "n \<le> 2 ^ 63"
  shows "buffer_holds m buffer n s ((put_chars buffer (take n (s @ [NUL])) m)(at buffer (n - 1) := 0))"
proof -
  let ?t = "take n (s @ [NUL])" and ?k = "min (length s) (n - 1)"
  let ?m = "put_chars buffer ?t m"
  have l: "length ?t \<le> n" "length ?t \<le> 2 ^ 63" using assms by auto
  have inj: "at buffer i = at buffer (n - 1) \<longleftrightarrow> i = n - 1" if "i < n" for i
    using at_inj [of i "n - 1" buffer] that assms by simp
  have "(?m(at buffer (n - 1) := 0)) (at buffer i) = of_char (s ! i)" if "i < ?k" for i
  proof -
    have "i < length ?t" "?t ! i = s ! i" "i < n" "i \<noteq> n - 1" using that by (auto simp: nth_append)
    then show ?thesis using put_chars_in [of i ?t buffer m] l(2) inj [of i] by simp
  qed
  moreover have "(?m(at buffer (n - 1) := 0)) (at buffer ?k) = 0"
  proof (cases "length s < n - 1")
    case True
    then have k: "?k = length s" by simp
    have "length s < length ?t" "?t ! length s = NUL" "length s < n" using True by (auto simp: nth_append)
    then have "?m (at buffer (length s)) = 0" using put_chars_in [of "length s" ?t buffer m] l(2) of_char_NUL by simp
    then show ?thesis unfolding k using inj [of "length s"] True by simp
  qed simp
  moreover have "(?m(at buffer (n - 1) := 0)) x = m x" if "\<forall>i<n. x \<noteq> at buffer i" for x
    using that put_chars_other [of ?t x buffer m] l(1) assms(1) by simp
  ultimately show ?thesis unfolding buffer_holds_def by blast
qed

lemma vsnprintf_buffer:
  assumes "printf_text format args = Done s" "buffer \<noteq> 0" "0 < bufsz" "unat bufsz \<le> 2 ^ 63"
  shows "\<exists>m'. npf_vsnprintf buffer bufsz format args m = Done (length s, m') \<and> buffer_holds m buffer (unat bufsz) s m'"
proof -
  let ?n = "unat bufsz"
  have z: "\<lparr>bp_len = bufsz, bp_cur = 0, bp_mem = m\<rparr> = \<lparr>bp_len = of_nat ?n, bp_cur = of_nat 0, bp_mem = m\<rparr>" by simp
  have f: "bp_mem (fold (npf_bufputc buffer) (s @ [NUL]) \<lparr>bp_len = bufsz, bp_cur = 0, bp_mem = m\<rparr>) =
      put_chars buffer (take ?n (s @ [NUL])) m"
    unfolding z using assms(4) by (subst fold_bufputc) simp_all
  have e: "buffer + (bufsz - 1) = at buffer (?n - 1)"
    using assms(3) by (simp add: at_def of_nat_diff unat_gt_0 Suc_leI word_gt_0)
  have "npf_vsnprintf buffer bufsz format args m =
      Done (length s, (put_chars buffer (take ?n (s @ [NUL])) m)(at buffer (?n - 1) := 0))"
    using assms(1-3) f e by (simp add: npf_vsnprintf_def vpprintf_text Let_def word_gt_0)
  moreover have "0 < ?n" using assms(3) by (simp add: unat_gt_0 word_gt_0)
  ultimately show ?thesis using terminated_prefix [of ?n m buffer s] assms(4) by blast
qed

subsection \<open>Digits\<close>

function rev_digits :: "nat \<Rightarrow> nat \<Rightarrow> nat list" where
  "rev_digits b n = n mod b # (if n div b = 0 \<or> b < 2 then [] else rev_digits b (n div b))"
  by pat_completeness auto
termination
  by (relation "measure snd") (auto simp: div_greater_zero_iff)

declare rev_digits.simps [simp del]

lemma utoa_digits: "2 \<le> base \<Longrightarrow> npf_utoa_rev val base ca = map (npf_digit ca) (rev_digits (unat base) (unat val))"
proof (induction val base ca rule: npf_utoa_rev.induct)
  case (1 val base ca)
  have b: "2 \<le> unat base" using 1(2) by (simp add: word_le_nat_alt)
  have z: "val div base = 0 \<longleftrightarrow> unat val div unat base = 0" by (simp add: unat_div flip: unat_eq_0)
  show ?case using 1 b z
    by (subst npf_utoa_rev.simps, subst rev_digits.simps) (simp add: unat_div unat_mod)
qed

lemma rev_digits_less: "2 \<le> b \<Longrightarrow> d \<in> set (rev_digits b n) \<Longrightarrow> d < b"
proof (induction b n rule: rev_digits.induct)
  case (1 b n)
  have "d = n mod b \<or> n div b \<noteq> 0 \<and> d \<in> set (rev_digits b (n div b))"
    using 1(2,3) by (subst (asm) rev_digits.simps) (auto split: if_splits)
  then show ?case using 1 by auto
qed

lemma number_append: "number base v (ds @ [d]) = number base v ds * base + d"
  by (simp add: number_def)

lemma rev_digits_number: "2 \<le> b \<Longrightarrow> number (int b) 0 (map int (rev (rev_digits b n))) = int n"
proof (induction b n rule: rev_digits.induct)
  case (1 b n)
  have e: "int n = int (n div b) * int b + int (n mod b)" by (metis div_mult_mod_eq of_nat_add of_nat_mult)
  show ?case
  proof (cases "n div b = 0")
    case True
    then have "n mod b = n" using div_mult_mod_eq [of n b] by simp
    then show ?thesis using True by (subst rev_digits.simps) simp
  next
    case False
    then have "number (int b) 0 (map int (rev (rev_digits b (n div b)))) = int (n div b)" using 1 by simp
    then show ?thesis using False 1(2) e by (subst rev_digits.simps) (simp add: number_append)
  qed
qed

lemma rev_digits_length: "2 \<le> b \<Longrightarrow> n < b ^ k \<Longrightarrow> 0 < k \<Longrightarrow> length (rev_digits b n) \<le> k"
proof (induction b n arbitrary: k rule: rev_digits.induct)
  case (1 b n)
  show ?case
  proof (cases "n div b = 0")
    case True
    then show ?thesis using 1(4) by (subst rev_digits.simps) simp
  next
    case False
    obtain j where k: "k = Suc j" using 1(4) not0_implies_Suc by blast
    have "n div b < b ^ j" using 1(2,3) k by (simp add: div_less_iff_less_mult mult.commute)
    moreover then have "0 < j" using False by (cases j) simp_all
    ultimately have "length (rev_digits b (n div b)) \<le> j" using 1(1) False 1(2) by simp
    then show ?thesis using k False 1(2) by (subst rev_digits.simps) simp
  qed
qed

lemma utoa_length:
  "length (npf_utoa_rev v 8 ca) \<le> 22" "length (npf_utoa_rev v 10 ca) \<le> 20" "length (npf_utoa_rev v 16 ca) \<le> 16"
proof -
  have v: "unat v < 2 ^ 64" using unsigned_less [of v, where ?'a = nat] by simp
  show "length (npf_utoa_rev v 8 ca) \<le> 22" using rev_digits_length [of 8 "unat v" 22] v by (simp add: utoa_digits)
  show "length (npf_utoa_rev v 10 ca) \<le> 20" using rev_digits_length [of 10 "unat v" 20] v by (simp add: utoa_digits)
  show "length (npf_utoa_rev v 16 ca) \<le> 16" using rev_digits_length [of 16 "unat v" 16] v by (simp add: utoa_digits)
qed

text \<open>The conversion buffer of 23 characters is large enough for every number, with the leading zero of
  the alternative octal form.\<close>

lemma conversion_buffer:
  assumes "npf_convert fs args = Done (fs', cv, args')" "conv_spec fs \<noteq> CONV_STRING"
  shows "length (cbuf cv) \<le> 23"
proof -
  have u: "length (npf_utoa_rev v (npf_base c) ca) \<le> 22" for v c ca
    using utoa_length [of v ca] by (auto simp: npf_base_def)
  have d: "length (cbuf (snd (unsigned_digits gs v))) \<le> 22" for gs v
    using u [of v "conv_spec gs" "case_adjust gs"] by (simp add: unsigned_digits_def cv_text_def)
  have n: "length (cbuf (snd (conv_unsigned gs v))) \<le> 23" for gs v
    using d [of gs v] by (simp add: conv_unsigned_def Let_def split_beta)
  have s: "length (cbuf (conv_signed gs v)) \<le> 23" for gs v
    using le_trans [OF utoa_length(2), of 23] by (simp add: conv_signed_def cv_text_def Let_def)
  have p: "length (npf_utoa_rev v 16 32) \<le> 23" for v using utoa_length(3) [of v 32] by simp
  show ?thesis
    by (cases "conv_spec fs")
      (use assms s p n in \<open>auto simp: npf_convert_def cv_text_def obind_Done_iff split_beta\<close>)
qed

subsection \<open>The decimal conversions\<close>

lemmas parse_defs = npf_parse_format_spec_def parse_width_def parse_prec_def parse_len_mod_def parse_conv_def
  int_conv_def cur_char_def is_digit_def fs_start_def

lemma parse_ld: "npf_parse_format_spec ''%ld'' =
  Done (3, fs_start\<lparr>length_modifier := LEN_MOD_LONG, conv_spec := CONV_SIGNED_INT\<rparr>)"
  by (simp add: parse_defs)

lemma parse_d: "npf_parse_format_spec ''%d'' = Done (2, fs_start\<lparr>conv_spec := CONV_SIGNED_INT\<rparr>)"
  by (simp add: parse_defs)

definition decimal :: "int \<Rightarrow> string" where
  "decimal v = (if v < 0 then ''-'' else []) @ rev (npf_utoa_rev (of_int \<bar>v\<bar>) 10 32)"

lemma field_signed:
  assumes "extract_signed lm args = Done (v, args')"
  shows "npf_field (fs_start\<lparr>length_modifier := lm, conv_spec := CONV_SIGNED_INT\<rparr>) args = Done (decimal v, args')"
  using assms by (simp add: npf_field_def star_width_def star_prec_def npf_convert_def fs_start_def npf_emit_def
      pad_char_def prec_pad_def field_pad_def payload_def conv_signed_def cv_text_def decimal_def npf_max_def Let_def)

lemma one_field:
  assumes "npf_parse_format_spec (CHR ''%'' # cs) = Done (Suc (length cs), fs)" "npf_field fs args = Done (out, args')"
  shows "printf_text (CHR ''%'' # cs) args = Done out"
proof -
  have "vpprintf_loop snoc [] args' st = Done st" for st by (subst vpprintf_loop.simps) simp
  moreover have "snd (fold (npf_putc_cnt snoc) out (0, [])) = out"
  proof -
    have "snd (fold (npf_putc_cnt snoc) cs (n, s)) = s @ cs" for n s cs
      by (induction cs arbitrary: n s) (simp_all add: npf_putc_cnt_def)
    then show ?thesis by simp
  qed
  ultimately show ?thesis using assms
    by (simp add: printf_text_def npf_vpprintf_def, subst vpprintf_loop.simps) (simp add: cur_char_def)
qed

lemma text_ld: "printf_text ''%ld'' [VLong x] = Done (decimal (sint x))"
  by (rule one_field) (simp add: parse_ld, rule field_signed, simp add: extract_signed_def)

lemma text_d: "printf_text ''%d'' [VInt x] = Done (decimal (sint x))"
  using field_signed [of LEN_MOD_NONE "[VInt x]" "sint x" "[]"]
  by (intro one_field) (simp add: parse_d, simp add: extract_signed_def fs_start_def)

text \<open>The characters of a printed number in memory are a numeral for the conversion from strings.\<close>

lemma sint_digit: "d < 10 \<Longrightarrow> sint (of_char (npf_digit ca d) :: u8) = 48 + int d"
proof -
  assume d: "d < 10"
  have "of_char (npf_digit ca d) = (of_nat (of_char (npf_digit ca d :: char) :: nat) :: u8)"
    by (simp only: of_nat_of_char)
  also have "(of_char (npf_digit ca d) :: nat) = 48 + d" using d by (simp add: npf_digit_def)
  finally have e: "of_char (npf_digit ca d) = (of_nat (48 + d) :: u8)" .
  have "d \<in> {0, 1, 2, 3, 4, 5, 6, 7, 8, 9}" using d by auto
  then show ?thesis unfolding e by auto
qed

lemma char_digit: "d < 10 \<Longrightarrow> digit_of (sint (of_char (npf_digit ca d) :: u8)) = Some (int d)"
  by (simp add: sint_digit digit_of_def isdigit_def)

lemma digits_at_string:
  "\<forall>d\<in>set ds. d < 10 \<Longrightarrow> \<forall>i<length ds. m (at p i) = of_char (npf_digit ca (ds ! i)) \<Longrightarrow>
    m (at p (length ds)) = 0 \<Longrightarrow> digits_at m 10 p (map int ds)"
proof (induction ds arbitrary: p)
  case Nil
  then show ?case by (simp add: chr_at_def digit_of_def ctype_defs)
next
  case (Cons d ds)
  have "m p = of_char (npf_digit ca d)" using Cons.prems(2) [rule_format, of 0] by simp
  then have "digit_of (chr_at m p) = Some (int d)" using char_digit Cons.prems(1) by (simp add: chr_at_def)
  moreover have "\<forall>i<length ds. m (at (p + 1) i) = of_char (npf_digit ca (ds ! i))"
    using Cons.prems(2) by (metis Suc_less_eq at_Suc length_Cons nth_Cons_Suc)
  ultimately show ?case using Cons by (simp add: at_Suc)
qed

lemma numeral_decimal:
  assumes "\<bar>v\<bar> < 2 ^ 64" "\<forall>i<length (decimal v). m (at p i) = of_char (decimal v ! i)" "m (at p (length (decimal v))) = 0"
  shows "\<exists>ds. numeral_at m p 10 0 (v < 0) ds (at p (length (decimal v))) \<and> number 10 0 ds = \<bar>v\<bar>"
proof -
  define ns where "ns = rev (rev_digits 10 (nat \<bar>v\<bar>))"
  have u: "unat (of_int \<bar>v\<bar> :: u64) = nat \<bar>v\<bar>"
    using assms(1) by (simp add: unat_eq_nat_uint unsigned_of_int take_bit_int_eq_self)
  have t: "rev (npf_utoa_rev (of_int \<bar>v\<bar>) 10 32) = map (npf_digit 32) ns"
    unfolding ns_def by (simp add: utoa_digits u rev_map)
  have less: "\<forall>d\<in>set ns. d < 10" using rev_digits_less [of 10 _ "nat \<bar>v\<bar>"] by (simp add: ns_def)
  have num: "number 10 0 (map int ns) = \<bar>v\<bar>" using rev_digits_number [of 10 "nat \<bar>v\<bar>"] by (simp add: ns_def)
  have ne: "ns \<noteq> []" unfolding ns_def by (subst rev_digits.simps) simp
  define q where "q = (if v < 0 then p + 1 else p)"
  have l: "length (decimal v) = (if v < 0 then Suc (length ns) else length ns)" by (simp add: decimal_def t)
  have "\<forall>i<length ns. m (at q i) = of_char (npf_digit 32 (ns ! i))"
  proof (intro allI impI)
    fix i assume i: "i < length ns"
    show "m (at q i) = of_char (npf_digit 32 (ns ! i))"
      using i assms(2) [rule_format, of "if v < 0 then Suc i else i"] l
      by (auto simp: q_def decimal_def t at_Suc split: if_splits)
  qed
  moreover have "m (at q (length ns)) = 0" using assms(3) l by (auto simp: q_def at_Suc split: if_splits)
  ultimately have D: "digits_at m 10 q (map int ns)" by (rule digits_at_string [OF less])
  obtain d ds where ns: "ns = d # ds" using ne by (cases ns) auto
  have first: "chr_at m q = sint (of_char (npf_digit 32 d) :: u8)" "d < 10"
    using \<open>\<forall>i<length ns. m (at q i) = of_char (npf_digit 32 (ns ! i))\<close> [rule_format, of 0] less ns
    by (auto simp: chr_at_def)
  then have c: "48 \<le> chr_at m q" "chr_at m q \<le> 57" by (simp_all add: sint_digit)
  have neg: "chr_at m p = 45" if "v < 0"
    using that assms(2) [rule_format, of 0] l by (simp add: decimal_def chr_at_def)
  have "numeral_at m p 10 0 (v < 0) (map int ns) (at p (length (decimal v)))"
    unfolding numeral_at_def Let_def using D ne c neg l
    by (cases "v < 0") (auto simp: q_def isspace_def at_def)
  then show ?thesis using num by blast
qed

lemma decimal_length: "\<bar>v\<bar> \<le> 2 ^ 63 \<Longrightarrow> length (decimal v) \<le> 20"
proof -
  assume "\<bar>v\<bar> \<le> 2 ^ 63"
  then have u: "unat (of_int \<bar>v\<bar> :: u64) = nat \<bar>v\<bar>" "nat \<bar>v\<bar> < 10 ^ 19"
    by (simp_all add: unat_eq_nat_uint unsigned_of_int take_bit_int_eq_self)
  then have "length (npf_utoa_rev (of_int \<bar>v\<bar>) 10 32) \<le> 19"
    using rev_digits_length [of 10 "nat \<bar>v\<bar>" 19] by (simp add: utoa_digits)
  moreover have "length (decimal v) \<le> 1 + length (npf_utoa_rev (of_int \<bar>v\<bar>) 10 32)"
    by (simp add: decimal_def)
  ultimately show ?thesis by linarith
qed

lemma printed_then_read:
  assumes "printf_text format args = Done (decimal v)" "- (2 ^ 63) \<le> v" "v < 2 ^ 63"
    and "buffer \<noteq> 0" "21 \<le> unat bufsz" "unat bufsz \<le> 2 ^ 63"
  shows "\<exists>m' r. nk_snprintf buffer bufsz format args m = Done (length (decimal v), m') \<and>
    strtoll m' buffer 10 = Some (r, at buffer (length (decimal v))) \<and> sint r = v"
proof -
  let ?l = "length (decimal v)"
  have l: "?l \<le> 20" using assms(2,3) by (intro decimal_length) simp
  have "0 < bufsz" using assms(5) by (auto simp: word_gt_0)
  then obtain m' where m': "nk_snprintf buffer bufsz format args m = Done (?l, m')"
      "buffer_holds m buffer (unat bufsz) (decimal v) m'"
    using vsnprintf_buffer [OF assms(1,4) _ assms(6)] unfolding nk_snprintf_def by blast
  have k: "min ?l (unat bufsz - 1) = ?l" using l assms(5) by simp
  have "\<bar>v\<bar> < 2 ^ 64" using assms(2,3) by auto
  then obtain ds where ds: "numeral_at m' buffer 10 0 (v < 0) ds (at buffer ?l)" "number 10 0 ds = \<bar>v\<bar>"
    using numeral_decimal [of v m' buffer] m'(2) unfolding buffer_holds_def k by blast
  obtain r where "strtoll m' buffer 10 = Some (r, at buffer ?l)"
      "sint r = max (- (2 ^ 63)) (min (2 ^ 63 - 1) (if v < 0 then - \<bar>v\<bar> else \<bar>v\<bar>))"
    using strtoll_value [OF ds(1)] ds(2) by auto
  then show ?thesis using m'(1) assms(2,3) by (auto split: if_splits)
qed

lemma sint_range: "- (2 ^ 63) \<le> sint (x :: u64)" "sint (x :: u64) < 2 ^ 63"
  "- (2 ^ 63) \<le> sint (y :: u32)" "sint (y :: u32) < 2 ^ 63"
  using sint_ge [of x] sint_lt [of x] sint_ge [of y] sint_lt [of y] by simp_all

lemma narrow: "sint (r :: u64) = sint (y :: u32) \<Longrightarrow> ucast r = y"
proof -
  assume a: "sint r = sint y"
  have "ucast r = (of_int (sint r) :: u32)" 
    by (rule bit_word_eqI) (simp add: bit_unsigned_iff bit_signed_iff min_def)
  then show ?thesis by (simp add: a)
qed

subsection \<open>Properties\<close>


lemma digit_chars: "npf_digit 32 0 = CHR ''0''" "npf_digit 32 (Suc 0) = CHR ''1''"
  by code_simp+


text \<open>
  C15: what is printed is read back. For every 64-bit integer \<open>x\<close>, a buffer of 21 bytes or more holds after
  \<open>nk_snprintf\<close> with the format \<open>%ld\<close> a string from which \<open>strtoll\<close> reads \<open>x\<close> and stops at its end; for
  every 32-bit integer the same holds of \<open>%d\<close> and \<open>atoi\<close>.
\<close>

theorem snprintf_strtoll_roundtrip:
  assumes "buffer \<noteq> 0" "21 \<le> unat bufsz" "unat bufsz \<le> 2 ^ 63"
  shows "(\<exists>n m'. nk_snprintf buffer bufsz ''%ld'' [VLong x] m = Done (n, m') \<and> strtoll m' buffer 10 = Some (x, at buffer n)) \<and>
    (\<exists>n m'. nk_snprintf buffer bufsz ''%d'' [VInt y] m = Done (n, m') \<and> atoi m' buffer = Some y)"
proof
  show "\<exists>n m'. nk_snprintf buffer bufsz ''%ld'' [VLong x] m = Done (n, m') \<and> strtoll m' buffer 10 = Some (x, at buffer n)"
    using printed_then_read [OF text_ld [of x] sint_range(1,2) assms, where m = m] signed_word_eqI by metis
  show "\<exists>n m'. nk_snprintf buffer bufsz ''%d'' [VInt y] m = Done (n, m') \<and> atoi m' buffer = Some y"
    using printed_then_read [OF text_d [of y] sint_range(3,4) assms, where m = m] narrow [of _ y]
    by (auto simp: atoi_def strtol_def)
qed

theorem snprintf_strtoll_roundtrip_witness:
  "\<exists>n m'. nk_snprintf 0x1000 32 ''%ld'' [VLong (- 42)] (\<lambda>_. 0) = Done (n, m') \<and> strtoll m' 0x1000 10 = Some (- 42, at 0x1000 n)"
  using snprintf_strtoll_roundtrip [of "0x1000" 32 "- 42" "\<lambda>_. 0"] by simp

text \<open>The operator for unsigned integers prints them as signed ones.\<close>

lemma ostream_unsigned_negative: "ostream_put snoc (UInt32 0xFFFFFFFF) [] = Done (2, ''-1'')"
proof -
  have "decimal (- 1) = ''-1''" by (simp add: decimal_def npf_utoa_rev.simps digit_chars)
  then show ?thesis using text_d [of "0xFFFFFFFF"] by (simp add: nk_printf_def vpprintf_text)
qed

end
