(* ===== verification/Console.thy ===== *)
theory Console
  imports Printf
begin

text \<open>
  The serial consoles: the drivers \<open>Ns16550a\<close> and \<open>Pl011\<close> (\<open>src/driver\<close>), the class
  \<open>Serial\<close> of \<open>cpu_io\<close> that the early console of x86-64 uses, and the functions that
  connect them with \<open>nk_printf\<close> and with the receive interrupt.

  A device is a parameter: a function that says what a read returns after a history of
  accesses, so that it may answer differently every time. What the drivers write is
  interpreted by the register tables of the data sheets; the part of them that matters is
  below (\<open>uart16550\<close>, \<open>uart_pl011\<close>).
\<close>

unbundle bit_operations_syntax

subsection \<open>Accesses to a device\<close>

datatype ('a, 'w) io_access = Rd 'a 'w | Wr 'a 'w

type_synonym ('a, 'w) io_trace = "('a, 'w) io_access list"
type_synonym ('a, 'w) device = "('a, 'w) io_trace \<Rightarrow> 'a \<Rightarrow> 'w"

definition io_In :: "('a, 'w) device \<Rightarrow> 'a \<Rightarrow> ('a, 'w) io_trace \<Rightarrow> 'w \<times> ('a, 'w) io_trace" where
  "io_In hw addr tr = (hw tr addr, tr @ [Rd addr (hw tr addr)])"

definition io_Out :: "'a \<Rightarrow> 'w \<Rightarrow> ('a, 'w) io_trace \<Rightarrow> ('a, 'w) io_trace" where
  "io_Out addr data tr = tr @ [Wr addr data]"

text \<open>The waiting loops: read a register until its value passes a test.\<close>

partial_function (option) poll :: "('a, 'w) device \<Rightarrow> 'a \<Rightarrow> ('w \<Rightarrow> bool) \<Rightarrow> ('a, 'w) io_trace \<Rightarrow> ('a, 'w) io_trace option" where
  "poll hw addr ready tr =
     (let (v, tr') = io_In hw addr tr in if ready v then Some tr' else poll hw addr ready tr')"

declare poll.simps [code]

subsection \<open>NS16550A\<close>

definition kRegRHR :: u64 where "kRegRHR = 0"
definition kRegTHR :: u64 where "kRegTHR = 0"
definition kRegIER :: u64 where "kRegIER = 1"
definition kRegFCR :: u64 where "kRegFCR = 2"
definition kRegLCR :: u64 where "kRegLCR = 3"
definition kRegLSR :: u64 where "kRegLSR = 5"
definition kUartDLL :: u64 where "kUartDLL = 0"
definition kUartDLM :: u64 where "kUartDLM = 1"

definition new_Ns16550a :: "u64 \<Rightarrow> (u64, u8) io_trace \<Rightarrow> (u64, u8) io_trace" where
  "new_Ns16550a base_addr tr =
     (let tr = io_Out (base_addr + kRegIER) 0x00 tr;
          tr = io_Out (base_addr + kRegLCR) 0x80 tr;
          tr = io_Out (base_addr + kUartDLL) 0x03 tr;
          tr = io_Out (base_addr + kUartDLM) 0x00 tr;
          tr = io_Out (base_addr + kRegLCR) 0x03 tr;
          tr = io_Out (base_addr + kRegFCR) 0x07 tr
      in io_Out (base_addr + kRegIER) 0x01 tr)"

definition Ns16550a_PutChar :: "(u64, u8) device \<Rightarrow> u64 \<Rightarrow> u8 \<Rightarrow> (u64, u8) io_trace \<Rightarrow> (u64, u8) io_trace option" where
  "Ns16550a_PutChar hw base_addr c tr =
     (case poll hw (base_addr + kRegLSR) (\<lambda>v. v AND push_bit 5 1 \<noteq> 0) tr of
        None \<Rightarrow> None
      | Some tr \<Rightarrow> Some (io_Out (base_addr + kRegTHR) c tr))"

definition Ns16550a_GetChar :: "(u64, u8) device \<Rightarrow> u64 \<Rightarrow> (u64, u8) io_trace \<Rightarrow> (u8 \<times> (u64, u8) io_trace) option" where
  "Ns16550a_GetChar hw base_addr tr =
     (case poll hw (base_addr + kRegLSR) (\<lambda>v. v AND push_bit 0 1 \<noteq> 0) tr of
        None \<Rightarrow> None
      | Some tr \<Rightarrow> Some (io_In hw (base_addr + kRegRHR) tr))"

definition Ns16550a_TryGetChar :: "(u64, u8) device \<Rightarrow> u64 \<Rightarrow> (u64, u8) io_trace \<Rightarrow> u8 \<times> (u64, u8) io_trace" where
  "Ns16550a_TryGetChar hw base_addr tr =
     (let (v, tr) = io_In hw (base_addr + kRegLSR) tr
      in if v AND push_bit 0 1 \<noteq> 0 then io_In hw (base_addr + kRegRHR) tr else (- 1, tr))"

subsection \<open>PL011\<close>

definition kRegDR :: u64 where "kRegDR = 0x00"
definition kRegRSRECR :: u64 where "kRegRSRECR = 0x04"
definition kRegFR :: u64 where "kRegFR = 0x18"
definition kRegIBRD :: u64 where "kRegIBRD = 0x24"
definition kRegFBRD :: u64 where "kRegFBRD = 0x28"
definition kRegLCRH :: u64 where "kRegLCRH = 0x2C"
definition kRegCR :: u64 where "kRegCR = 0x30"
definition kRegIMSC :: u64 where "kRegIMSC = 0x38"
definition kFRTxFIFO :: u32 where "kFRTxFIFO = push_bit 5 1"
definition kFRRXFE :: u32 where "kFRRXFE = push_bit 4 1"
definition kLCRHWlen8 :: u32 where "kLCRHWlen8 = push_bit 5 3"
definition kCRRxEnable :: u32 where "kCRRxEnable = push_bit 9 1"
definition kCRTxEnable :: u32 where "kCRTxEnable = push_bit 8 1"
definition kCREnable :: u32 where "kCREnable = push_bit 0 1"
definition kIMSCRxim :: u32 where "kIMSCRxim = push_bit 4 1"

definition new_Pl011 :: "u64 \<Rightarrow> u64 \<Rightarrow> u64 \<Rightarrow> (u64, u32) io_trace \<Rightarrow> (u64, u32) io_trace" where
  "new_Pl011 base_addr base_clock baud_rate tr =
     (let tr = io_Out (base_addr + kRegRSRECR) 0 tr;
          tr = io_Out (base_addr + kRegCR) 0 tr;
          tr = (if baud_rate \<noteq> 0
                then let divisor = (ucast ((base_clock * 4) div baud_rate) :: u32);
                         tr = io_Out (base_addr + kRegIBRD) (drop_bit 6 divisor) tr
                     in io_Out (base_addr + kRegFBRD) (divisor AND 0x3f) tr
                else tr);
          tr = io_Out (base_addr + kRegLCRH) kLCRHWlen8 tr;
          tr = io_Out (base_addr + kRegIMSC) kIMSCRxim tr
      in io_Out (base_addr + kRegCR) (kCREnable OR kCRTxEnable OR kCRRxEnable) tr)"

definition Pl011_PutChar :: "(u64, u32) device \<Rightarrow> u64 \<Rightarrow> u8 \<Rightarrow> (u64, u32) io_trace \<Rightarrow> (u64, u32) io_trace option" where
  "Pl011_PutChar hw base_addr c tr =
     (case poll hw (base_addr + kRegFR) (\<lambda>v. v AND kFRTxFIFO = 0) tr of
        None \<Rightarrow> None
      | Some tr \<Rightarrow> Some (io_Out (base_addr + kRegDR) (ucast c) tr))"

definition Pl011_GetChar :: "(u64, u32) device \<Rightarrow> u64 \<Rightarrow> (u64, u32) io_trace \<Rightarrow> (u8 \<times> (u64, u32) io_trace) option" where
  "Pl011_GetChar hw base_addr tr =
     (case poll hw (base_addr + kRegFR) (\<lambda>v. v AND kFRRXFE = 0) tr of
        None \<Rightarrow> None
      | Some tr \<Rightarrow> Some (apfst ucast (io_In hw (base_addr + kRegDR) tr)))"

definition Pl011_TryGetChar :: "(u64, u32) device \<Rightarrow> u64 \<Rightarrow> (u64, u32) io_trace \<Rightarrow> u8 \<times> (u64, u32) io_trace" where
  "Pl011_TryGetChar hw base_addr tr =
     (let (v, tr) = io_In hw (base_addr + kRegFR) tr
      in if v AND kFRRXFE \<noteq> 0 then (- 1, tr) else apfst ucast (io_In hw (base_addr + kRegDR) tr))"

subsection \<open>The serial port of x86-64\<close>

text \<open>
  The first component of the result says whether the test of the chip failed and the core
  was halted; it goes on after the next interrupt.
\<close>

definition new_Serial :: "(u32, u8) device \<Rightarrow> u32 \<Rightarrow> (u32, u8) io_trace \<Rightarrow> bool \<times> (u32, u8) io_trace" where
  "new_Serial hw port tr =
     (let tr = io_Out (port + 1) 0x00 tr;
          tr = io_Out (port + 3) 0x80 tr;
          tr = io_Out (port + 0) 0x03 tr;
          tr = io_Out (port + 1) 0x00 tr;
          tr = io_Out (port + 3) 0x03 tr;
          tr = io_Out (port + 2) 0xC7 tr;
          tr = io_Out (port + 4) 0x0B tr;
          tr = io_Out (port + 4) 0x1E tr;
          tr = io_Out (port + 0) 0xAE tr;
          (v, tr) = io_In hw (port + 0) tr
      in (v \<noteq> 0xAE, io_Out (port + 4) 0x0F tr))"

definition Serial_Read :: "(u32, u8) device \<Rightarrow> u32 \<Rightarrow> (u32, u8) io_trace \<Rightarrow> (u8 \<times> (u32, u8) io_trace) option" where
  "Serial_Read hw port tr =
     (case poll hw (port + 5) (\<lambda>v. v AND 1 \<noteq> 0) tr of None \<Rightarrow> None | Some tr \<Rightarrow> Some (io_In hw port tr))"

definition Serial_Write :: "(u32, u8) device \<Rightarrow> u32 \<Rightarrow> u8 \<Rightarrow> (u32, u8) io_trace \<Rightarrow> (u32, u8) io_trace option" where
  "Serial_Write hw port byte tr =
     (case poll hw (port + 5) (\<lambda>v. v AND 0x20 \<noteq> 0) tr of None \<Rightarrow> None | Some tr \<Rightarrow> Some (io_Out port byte tr))"

subsection \<open>The output function of \<open>nk_printf\<close> and the receive handlers\<close>

text \<open>
  The output function takes and returns what is known of the device: \<open>None\<close> once a call has
  not returned.
\<close>

definition arm_console_putchar ::
    "(u64, u32) device \<Rightarrow> u64 option \<Rightarrow> char \<Rightarrow> (u64, u32) io_trace option \<Rightarrow> (u64, u32) io_trace option" where
  "arm_console_putchar hw pl011 c ctx =
     Option.bind ctx (\<lambda>tr. case pl011 of None \<Rightarrow> Some tr | Some base \<Rightarrow> Pl011_PutChar hw base (of_char c) tr)"

definition x86_console_putchar ::
    "(u32, u8) device \<Rightarrow> u32 option \<Rightarrow> char \<Rightarrow> (u32, u8) io_trace option \<Rightarrow> (u32, u8) io_trace option" where
  "x86_console_putchar hw serial c ctx =
     Option.bind ctx (\<lambda>tr. case serial of None \<Rightarrow> Some tr | Some port \<Rightarrow> Serial_Write hw port (of_char c) tr)"

definition uart_handler ::
    "(u64, u32) device \<Rightarrow> u64 \<Rightarrow> u64 \<Rightarrow> (u64, u32) io_trace \<Rightarrow> (u64 \<times> (u64, u32) io_trace) option" where
  "uart_handler hw base cause tr =
     (let (c, tr) = Pl011_TryGetChar hw base tr
      in map_option (Pair cause) (arm_console_putchar hw (Some base) (char_of (unat c)) (Some tr)))"

subsection \<open>What the writes do\<close>

text \<open>
  The registers of a 16550: the divisor latches share the first two addresses with the data
  and interrupt enable registers and are selected by bit 7 of the line control register. In
  loopback mode (bit 4 of the modem control register) nothing is sent.
\<close>

record uart16550 =
  u_lcr :: u8
  u_ier :: u8
  u_fcr :: u8
  u_mcr :: u8
  u_dll :: u8
  u_dlm :: u8
  u_line :: "u8 list"

definition write16550 :: "'a::len word \<Rightarrow> u8 \<Rightarrow> uart16550 \<Rightarrow> uart16550" where
  "write16550 reg v u =
     (if reg = 0 then (if bit (u_lcr u) 7 then u\<lparr>u_dll := v\<rparr> else if bit (u_mcr u) 4 then u else u\<lparr>u_line := u_line u @ [v]\<rparr>)
      else if reg = 1 then (if bit (u_lcr u) 7 then u\<lparr>u_dlm := v\<rparr> else u\<lparr>u_ier := v\<rparr>)
      else if reg = 2 then u\<lparr>u_fcr := v\<rparr>
      else if reg = 3 then u\<lparr>u_lcr := v\<rparr>
      else if reg = 4 then u\<lparr>u_mcr := v\<rparr>
      else u)"

record uart_pl011 =
  p_cr :: u32
  p_ibrd :: u32
  p_fbrd :: u32
  p_lcrh :: u32
  p_imsc :: u32
  p_line :: "u8 list"

definition write_pl011 :: "u64 \<Rightarrow> u32 \<Rightarrow> uart_pl011 \<Rightarrow> uart_pl011" where
  "write_pl011 reg v u =
     (if reg = 0x00 then (if bit (p_cr u) 0 \<and> bit (p_cr u) 8 then u\<lparr>p_line := p_line u @ [ucast v]\<rparr> else u)
      else if reg = 0x24 then u\<lparr>p_ibrd := v\<rparr>
      else if reg = 0x28 then u\<lparr>p_fbrd := v\<rparr>
      else if reg = 0x2C then u\<lparr>p_lcrh := v\<rparr>
      else if reg = 0x30 then u\<lparr>p_cr := v\<rparr>
      else if reg = 0x38 then u\<lparr>p_imsc := v\<rparr>
      else u)"

text \<open>The state that a trace leaves behind, from the state at its start.\<close>

fun after :: "('a::len word \<Rightarrow> 'w \<Rightarrow> 'u \<Rightarrow> 'u) \<Rightarrow> 'a word \<Rightarrow> 'u \<Rightarrow> ('a word, 'w) io_trace \<Rightarrow> 'u" where
  "after wr base u [] = u"
| "after wr base u (Rd a v # tr) = after wr base u tr"
| "after wr base u (Wr a v # tr) = after wr base (wr (a - base) v u) tr"

lemma after_append: "after wr base u (tr @ tr') = after wr base (after wr base u tr) tr'"
  by (induction wr base u tr rule: after.induct) simp_all

lemma after_io [simp]:
  "after wr base u (snd (io_In hw a tr)) = after wr base u tr"
  "after wr base u (io_Out a v tr) = wr (a - base) v (after wr base u tr)"
  by (simp_all add: io_In_def io_Out_def after_append)

text \<open>The bytes that have been read from the data register.\<close>

definition reads_of :: "'a \<Rightarrow> ('a, 'w) io_trace \<Rightarrow> 'w list" where
  "reads_of a tr = concat (map (\<lambda>x. case x of Rd b v \<Rightarrow> if b = a then [v] else [] | Wr b v \<Rightarrow> []) tr)"

lemma reads_of_io [simp]:
  "reads_of a (snd (io_In hw b tr)) = reads_of a tr @ (if b = a then [fst (io_In hw b tr)] else [])"
  "reads_of a (io_Out b v tr) = reads_of a tr"
  by (simp_all add: io_In_def io_Out_def reads_of_def)

subsection \<open>Waiting\<close>

fun polls :: "('a, 'w) device \<Rightarrow> 'a \<Rightarrow> nat \<Rightarrow> ('a, 'w) io_trace \<Rightarrow> ('a, 'w) io_trace" where
  "polls hw a 0 tr = tr"
| "polls hw a (Suc n) tr = polls hw a n (snd (io_In hw a tr))"

text \<open>However the device has been used, it passes the test after some number of reads.\<close>

definition answers :: "('a, 'w) device \<Rightarrow> 'a \<Rightarrow> ('w \<Rightarrow> bool) \<Rightarrow> bool" where
  "answers hw a ready \<longleftrightarrow> (\<forall>tr. \<exists>n. ready (hw (polls hw a n tr) a))"

lemma after_polls [simp]: "after wr base u (polls hw a n tr) = after wr base u tr"
  by (induction n arbitrary: tr) simp_all

lemma reads_of_polls [simp]: "b \<noteq> a \<Longrightarrow> reads_of b (polls hw a n tr) = reads_of b tr"
  by (induction n arbitrary: tr) simp_all

lemma poll_polls: "ready (hw (polls hw a n tr) a) \<Longrightarrow> \<exists>m. poll hw a ready tr = Some (polls hw a m tr)"
proof (induction n arbitrary: tr)
  case 0
  then have "poll hw a ready tr = Some (polls hw a 1 tr)" by (simp add: poll.simps [of _ _ _ tr] io_In_def)
  then show ?case by blast
next
  case (Suc n)
  show ?case
  proof (cases "ready (hw tr a)")
    case True
    then have "poll hw a ready tr = Some (polls hw a 1 tr)" by (simp add: poll.simps [of _ _ _ tr] io_In_def)
    then show ?thesis by blast
  next
    case False
    obtain m where "poll hw a ready (snd (io_In hw a tr)) = Some (polls hw a m (snd (io_In hw a tr)))"
      using Suc.IH Suc.prems by fastforce
    with False have "poll hw a ready tr = Some (polls hw a (Suc m) tr)"
      by (simp add: poll.simps [of _ _ _ tr] io_In_def)
    then show ?thesis by blast
  qed
qed

lemma poll_answers:
  assumes "answers hw a ready"
  obtains m where "poll hw a ready tr = Some (polls hw a m tr)"
  using assms poll_polls unfolding answers_def by metis

text \<open>The loop returns only with an answer that passes the test.\<close>

lemma poll_returns:
  assumes "poll hw a ready tr = Some tr'"
  shows "\<exists>n. ready (hw (polls hw a n tr) a) \<and> tr' = polls hw a (Suc n) tr"
proof (rule poll.raw_induct [OF _ assms, where P = "\<lambda>hw a ready tr tr'. \<exists>n. ready (hw (polls hw a n tr) a) \<and> tr' = polls hw a (Suc n) tr"])
  fix pl and hw :: "('a, 'b) device" and a ready tr tr'
  assume IH: "\<And>hw a ready tr tr'. pl hw a ready tr = Some tr' \<Longrightarrow>
      \<exists>n. ready (hw (polls hw a n tr) a) \<and> tr' = polls hw a (Suc n) tr"
    and eq: "(let (v, tr') = io_In hw a tr in if ready v then Some tr' else pl hw a ready tr') = Some tr'"
  show "\<exists>n. ready (hw (polls hw a n tr) a) \<and> tr' = polls hw a (Suc n) tr"
  proof (cases "ready (hw tr a)")
    case True
    with eq show ?thesis by (intro exI [of _ 0]) (simp add: io_In_def)
  next
    case False
    with eq have "pl hw a ready (snd (io_In hw a tr)) = Some tr'" by (simp add: io_In_def)
    from IH [OF this] obtain n where "ready (hw (polls hw a n (snd (io_In hw a tr))) a)"
        "tr' = polls hw a (Suc n) (snd (io_In hw a tr))" by blast
    then show ?thesis by (intro exI [of _ "Suc n"]) simp
  qed
qed

lemma poll_same:
  assumes "poll hw a ready tr = Some tr'"
  shows "after wr base u tr' = after wr base u tr" "b \<noteq> a \<Longrightarrow> reads_of b tr' = reads_of b tr"
proof -
  obtain n where "tr' = polls hw a (Suc n) tr" using poll_returns [OF assms] by blast
  then show "after wr base u tr' = after wr base u tr" "b \<noteq> a \<Longrightarrow> reads_of b tr' = reads_of b tr" by simp_all
qed

subsection \<open>The interface \<open>ConsoleDriver\<close>\<close>

text \<open>
  What a console promises for output: while it is operational a byte that is put is the next
  one on the line, and the call returns. For input: a byte that is returned is the next one
  read from the device, and reading sends nothing.
\<close>

definition put_char :: "(u8 \<Rightarrow> 't \<Rightarrow> 't option) \<Rightarrow> char \<Rightarrow> 't option \<Rightarrow> 't option" where
  "put_char put c ctx = Option.bind ctx (put (of_char c))"

locale console_output =
  fixes put :: "u8 \<Rightarrow> 't \<Rightarrow> 't option" and line :: "'t \<Rightarrow> u8 list" and operational :: "'t \<Rightarrow> bool"
  assumes put_law: "operational tr \<Longrightarrow> \<exists>tr'. put c tr = Some tr' \<and> line tr' = line tr @ [c] \<and> operational tr'"
begin

lemma put_text:
  "operational tr \<Longrightarrow> \<exists>tr'. fold (put_char put) s (Some tr) = Some tr' \<and> line tr' = line tr @ map of_char s \<and> operational tr'"
proof (induction s arbitrary: tr)
  case (Cons c s)
  obtain tr1 where 1: "put (of_char c) tr = Some tr1" "line tr1 = line tr @ [of_char c]" "operational tr1"
    using put_law [OF Cons.prems] by blast
  obtain tr' where "fold (put_char put) s (Some tr1) = Some tr'" "line tr' = line tr1 @ map of_char s" "operational tr'"
    using Cons.IH [OF 1(3)] by blast
  moreover have "put_char put c (Some tr) = Some tr1" using 1(1) by (simp add: put_char_def)
  ultimately show ?case using 1(2) by simp
qed simp

lemma printf_line:
  assumes "operational tr" "printf_text format args = Done s"
  shows "\<exists>tr'. nk_printf (put_char put) format args (Some tr) = Done (length s, Some tr') \<and> line tr' = line tr @ map of_char s \<and> operational tr'"
  using put_text [OF assms(1), of s] assms(2) by (auto simp: nk_printf_def vpprintf_text)

end

locale console_driver = console_output put line operational
  for put :: "u8 \<Rightarrow> 't \<Rightarrow> 't option" and line :: "'t \<Rightarrow> u8 list" and operational :: "'t \<Rightarrow> bool" +
  fixes get :: "'t \<Rightarrow> (u8 \<times> 't) option" and try_get :: "'t \<Rightarrow> u8 \<times> 't" and taken :: "'t \<Rightarrow> u8 list"
  assumes get_law: "get tr = Some (c, tr') \<Longrightarrow> taken tr' = taken tr @ [c] \<and> line tr' = line tr"
    and try_law: "try_get tr = (c, tr') \<Longrightarrow> line tr' = line tr \<and> (taken tr' = taken tr @ [c] \<or> taken tr' = taken tr \<and> c = 0xFF)"
    and try_operational: "operational tr \<Longrightarrow> operational (snd (try_get tr))"
begin

text \<open>The receive handlers: whatever \<open>try_get\<close> returns is sent, also when nothing was received.\<close>

lemma echo:
  assumes "operational tr" "try_get tr = (c, tr1)"
  shows "\<exists>tr'. put c tr1 = Some tr' \<and> line tr' = line tr @ [c] \<and> operational tr' \<and> (taken tr1 = taken tr @ [c] \<or> taken tr1 = taken tr \<and> c = 0xFF)"
proof -
  have "operational tr1" using try_operational [OF assms(1)] assms(2) by simp
  then obtain tr' where "put c tr1 = Some tr'" "line tr' = line tr1 @ [c]" "operational tr'" using put_law by blast
  then show ?thesis using try_law [OF assms(2)] by auto
qed

end

subsection \<open>The three consoles\<close>

definition ready16550 :: "('a::len word, u8) device \<Rightarrow> 'a word \<Rightarrow> uart16550 \<Rightarrow> bool" where
  "ready16550 hw base u \<longleftrightarrow> answers hw (base + 5) (\<lambda>v. bit v 5) \<and> \<not> bit (u_lcr u) 7 \<and> \<not> bit (u_mcr u) 4"

definition ready_pl011 :: "(u64, u32) device \<Rightarrow> u64 \<Rightarrow> uart_pl011 \<Rightarrow> bool" where
  "ready_pl011 hw base u \<longleftrightarrow> answers hw (base + 0x18) (\<lambda>v. \<not> bit v 5) \<and> bit (p_cr u) 0 \<and> bit (p_cr u) 8"

lemma status_bits:
  "((v :: u8) AND push_bit 5 1 \<noteq> 0) = bit v 5" "((v :: u8) AND 0x20 \<noteq> 0) = bit v 5" "((w :: u32) AND kFRTxFIFO = 0) = (\<not> bit w 5)"
  using and_exp_eq_0_iff_not_bit [of v 5] and_exp_eq_0_iff_not_bit [of w 5] by (simp_all add: kFRTxFIFO_def)

lemma byte_ucast: "ucast (ucast (c :: u8) :: u32) = c"
  by (rule bit_word_eqI) (simp add: bit_unsigned_iff)

lemma Ns16550a_GetChar_takes:
  assumes "Ns16550a_GetChar hw base tr = Some (c, tr')"
  shows "reads_of base tr' = reads_of base tr @ [c]" "after wr base u tr' = after wr base u tr"
proof -
  obtain tr1 where 1: "poll hw (base + 5) (\<lambda>v. v AND push_bit 0 1 \<noteq> 0) tr = Some tr1" "(c, tr') = io_In hw base tr1"
    using assms by (auto simp: Ns16550a_GetChar_def kRegLSR_def kRegRHR_def split: option.splits)
  have "c = fst (io_In hw base tr1)" "tr' = snd (io_In hw base tr1)" using 1(2) by (simp_all add: io_In_def)
  then show "reads_of base tr' = reads_of base tr @ [c]" "after wr base u tr' = after wr base u tr"
    using poll_same [OF 1(1)] by simp_all
qed

lemma Pl011_GetChar_takes:
  assumes "Pl011_GetChar hw base tr = Some (c, tr')"
  shows "\<exists>v. reads_of base tr' = reads_of base tr @ [v] \<and> c = ucast v" "after wr base u tr' = after wr base u tr"
proof -
  obtain tr1 where 1: "poll hw (base + 0x18) (\<lambda>v. v AND kFRRXFE = 0) tr = Some tr1" "(c, tr') = apfst ucast (io_In hw base tr1)"
    using assms by (auto simp: Pl011_GetChar_def kRegFR_def kRegDR_def split: option.splits)
  have c: "c = ucast (fst (io_In hw base tr1))" "tr' = snd (io_In hw base tr1)" using 1(2) by (simp_all add: io_In_def)
  have "reads_of base tr1 = reads_of base tr" "after wr base u tr1 = after wr base u tr"
    using poll_same [OF 1(1)] by simp_all
  then have "reads_of base tr' = reads_of base tr @ [fst (io_In hw base tr1)]" "after wr base u tr' = after wr base u tr"
    using c(2) by simp_all
  then show "\<exists>v. reads_of base tr' = reads_of base tr @ [v] \<and> c = ucast v" "after wr base u tr' = after wr base u tr"
    using c(1) by blast+
qed

interpretation ns: console_driver "Ns16550a_PutChar hw base" "\<lambda>tr. u_line (after write16550 base u tr)"
  "\<lambda>tr. ready16550 hw base (after write16550 base u tr)" "Ns16550a_GetChar hw base" "Ns16550a_TryGetChar hw base" "reads_of base"
  for hw base u
proof
  fix tr tr' :: "(u64, u8) io_trace" and c
  show "\<exists>tr'. Ns16550a_PutChar hw base c tr = Some tr' \<and>
      u_line (after write16550 base u tr') = u_line (after write16550 base u tr) @ [c] \<and> ready16550 hw base (after write16550 base u tr')"
    if ok: "ready16550 hw base (after write16550 base u tr)"
  proof -
    have "answers hw (base + 5) (\<lambda>v. bit v 5)" using ok by (simp add: ready16550_def)
    then obtain m where "poll hw (base + 5) (\<lambda>v. bit v 5) tr = Some (polls hw (base + 5) m tr)" by (rule poll_answers)
    with ok show ?thesis
      by (simp add: Ns16550a_PutChar_def status_bits kRegLSR_def kRegTHR_def write16550_def ready16550_def)
  qed
  show "reads_of base tr' = reads_of base tr @ [c] \<and> u_line (after write16550 base u tr') = u_line (after write16550 base u tr)"
    if "Ns16550a_GetChar hw base tr = Some (c, tr')"
    using Ns16550a_GetChar_takes(1) [OF that] Ns16550a_GetChar_takes(2) [OF that, where wr = write16550 and u = u] by simp
  show "u_line (after write16550 base u tr') = u_line (after write16550 base u tr) \<and>
      (reads_of base tr' = reads_of base tr @ [c] \<or> reads_of base tr' = reads_of base tr \<and> c = 0xFF)"
    if "Ns16550a_TryGetChar hw base tr = (c, tr')"
    using that by (auto simp: Ns16550a_TryGetChar_def kRegRHR_def kRegLSR_def io_In_def reads_of_def after_append split: if_splits)
  show "ready16550 hw base (after write16550 base u (snd (Ns16550a_TryGetChar hw base tr)))"
    if "ready16550 hw base (after write16550 base u tr)"
    using that by (auto simp: Ns16550a_TryGetChar_def io_In_def after_append)
qed

interpretation pl: console_driver "Pl011_PutChar hw base" "\<lambda>tr. p_line (after write_pl011 base u tr)"
  "\<lambda>tr. ready_pl011 hw base (after write_pl011 base u tr)" "Pl011_GetChar hw base" "Pl011_TryGetChar hw base"
  "\<lambda>tr. map ucast (reads_of base tr)"
  for hw base u
proof
  fix tr tr' :: "(u64, u32) io_trace" and c
  show "\<exists>tr'. Pl011_PutChar hw base c tr = Some tr' \<and>
      p_line (after write_pl011 base u tr') = p_line (after write_pl011 base u tr) @ [c] \<and> ready_pl011 hw base (after write_pl011 base u tr')"
    if ok: "ready_pl011 hw base (after write_pl011 base u tr)"
  proof -
    have "answers hw (base + 0x18) (\<lambda>v. \<not> bit v 5)" using ok by (simp add: ready_pl011_def)
    then obtain m where "poll hw (base + 0x18) (\<lambda>v. \<not> bit v 5) tr = Some (polls hw (base + 0x18) m tr)" by (rule poll_answers)
    with ok show ?thesis
      by (simp add: Pl011_PutChar_def status_bits kRegFR_def kRegDR_def write_pl011_def ready_pl011_def byte_ucast)
  qed
  show "map ucast (reads_of base tr') = map ucast (reads_of base tr) @ [c] \<and>
      p_line (after write_pl011 base u tr') = p_line (after write_pl011 base u tr)"
    if "Pl011_GetChar hw base tr = Some (c, tr')"
    using Pl011_GetChar_takes(1) [OF that] Pl011_GetChar_takes(2) [OF that, where wr = write_pl011 and u = u] by auto
  show "p_line (after write_pl011 base u tr') = p_line (after write_pl011 base u tr) \<and>
      (map ucast (reads_of base tr') = map ucast (reads_of base tr) @ [c] \<or>
       map ucast (reads_of base tr') = map ucast (reads_of base tr) \<and> c = 0xFF)"
    if "Pl011_TryGetChar hw base tr = (c, tr')"
    using that by (auto simp: Pl011_TryGetChar_def kRegDR_def kRegFR_def io_In_def reads_of_def after_append split: if_splits)
  show "ready_pl011 hw base (after write_pl011 base u (snd (Pl011_TryGetChar hw base tr)))"
    if "ready_pl011 hw base (after write_pl011 base u tr)"
    using that by (auto simp: Pl011_TryGetChar_def io_In_def after_append)
qed

interpretation com: console_output "Serial_Write hw port" "\<lambda>tr. u_line (after write16550 port u tr)"
  "\<lambda>tr. ready16550 hw port (after write16550 port u tr)"
  for hw :: "(u32, u8) device" and port u
proof
  fix tr :: "(u32, u8) io_trace" and c
  assume ok: "ready16550 hw port (after write16550 port u tr)"
  then have "answers hw (port + 5) (\<lambda>v. bit v 5)" by (simp add: ready16550_def)
  then obtain m where "poll hw (port + 5) (\<lambda>v. bit v 5) tr = Some (polls hw (port + 5) m tr)" by (rule poll_answers)
  with ok show "\<exists>tr'. Serial_Write hw port c tr = Some tr' \<and>
      u_line (after write16550 port u tr') = u_line (after write16550 port u tr) @ [c] \<and> ready16550 hw port (after write16550 port u tr')"
    by (simp add: Serial_Write_def status_bits write16550_def ready16550_def)
qed

subsection \<open>The constructors\<close>

text \<open>
  The 16550 is left with the divisor 3, words of eight bits and the data register selected;
  the byte of the divisor and the byte of the loopback test do not appear on the line.
\<close>

lemma new_Ns16550a_state:
  "after write16550 base u (new_Ns16550a base tr) =
     (let u' = after write16550 base u tr in u'\<lparr>u_lcr := 3, u_ier := 1, u_fcr := 7, u_dll := 3, u_dlm := 0\<rparr>)"
  if "\<not> bit (u_lcr (after write16550 base u tr)) 7"
  using that by (simp add: new_Ns16550a_def kRegIER_def kRegLCR_def kUartDLL_def kUartDLM_def kRegFCR_def write16550_def Let_def)

lemma new_Serial_state:
  fixes tr :: "(u32, u8) io_trace"
  assumes "\<not> bit (u_lcr (after write16550 port u tr)) 7"
  shows "after write16550 port u (snd (new_Serial hw port tr)) =
     (after write16550 port u tr)\<lparr>u_lcr := 3, u_ier := 0, u_fcr := 0xC7, u_mcr := 0x0F, u_dll := 3, u_dlm := 0\<rparr>"
proof -
  have "after wr port u (tr @ [Rd a v]) = after wr port u tr" for wr :: "u32 \<Rightarrow> u8 \<Rightarrow> uart16550 \<Rightarrow> uart16550" and tr a v
    by (simp add: after_append)
  then show ?thesis using assms by (simp add: new_Serial_def io_In_def write16550_def Let_def)
qed

lemma new_Pl011_state:
  "after write_pl011 base u (new_Pl011 base clock baud tr) =
     (let u' = after write_pl011 base u tr; d = ucast (clock * 4 div baud) :: u32;
          u' = (if baud = 0 then u' else u'\<lparr>p_ibrd := drop_bit 6 d, p_fbrd := d AND 0x3f\<rparr>)
      in u'\<lparr>p_cr := 0x301, p_lcrh := 0x60, p_imsc := 0x10\<rparr>)"
  by (simp add: new_Pl011_def kRegRSRECR_def kRegCR_def kRegIBRD_def kRegFBRD_def kRegLCRH_def kRegIMSC_def write_pl011_def
      kLCRHWlen8_def kIMSCRxim_def kCREnable_def kCRTxEnable_def kCRRxEnable_def Let_def)

lemma console_putchar_put_char:
  "arm_console_putchar hw (Some base) = put_char (Pl011_PutChar hw base)"
  "x86_console_putchar hw' (Some port) = put_char (Serial_Write hw' port)"
  by (simp_all add: fun_eq_iff arm_console_putchar_def x86_console_putchar_def put_char_def)


text \<open>A device that is busy at every other access.\<close>

definition busy_pl011 :: "(u64, u32) device" where
  "busy_pl011 tr a = (if even (length tr) then 0x20 else 0)"

definition busy_serial :: "(u32, u8) device" where
  "busy_serial tr a = (if even (length tr) then 0 else 0x20)"

lemma length_polls: "length (polls hw a n tr) = length tr + n"
  by (induction n arbitrary: tr) (simp_all add: io_In_def)

lemma odd_polls: "\<exists>n. odd (length (polls hw a n tr))"
  by (rule exI [of _ "if even (length tr) then 1 else 0"]) (simp add: length_polls)

lemma busy_answers: "answers busy_pl011 a (\<lambda>v. \<not> bit v 5)" "answers busy_serial b (\<lambda>v. bit v 5)"
proof -
  have "bit (0x20 :: u8) 5" by (simp add: bit_numeral_rec)
  then have v: "\<not> bit (busy_pl011 tr a) 5" "bit (busy_serial tr' b) 5" if "odd (length tr)" "odd (length tr')" for tr tr'
    using that by (simp_all add: busy_pl011_def busy_serial_def)
  show "answers busy_pl011 a (\<lambda>v. \<not> bit v 5)"
    unfolding answers_def using odd_polls [of busy_pl011 a] v(1) [where tr' = "[undefined]"] by fastforce
  show "answers busy_serial b (\<lambda>v. bit v 5)"
    unfolding answers_def using odd_polls [of busy_serial b] v(2) [where tr = "[undefined]"] by fastforce
qed


subsection \<open>The receive handler\<close>

text \<open>
  The handler of the receive interrupt sends one byte whatever happens. When nothing was
  received (another core has taken the byte, or the interrupt is a spurious one) it sends
  \<open>0xFF\<close>, and a received \<open>0xFF\<close> cannot be told from no byte.
\<close>

lemma uart_handler_echoes:
  assumes "ready_pl011 hw base (after write_pl011 base u tr)"
  shows "\<exists>c tr'. uart_handler hw base cause tr = Some (cause, tr') \<and>
    p_line (after write_pl011 base u tr') = p_line (after write_pl011 base u tr) @ [c] \<and>
    c = fst (Pl011_TryGetChar hw base tr) \<and> (bit (hw tr (base + 0x18)) 4 \<longrightarrow> c = 0xFF)"
proof -
  obtain c tr1 where c: "Pl011_TryGetChar hw base tr = (c, tr1)" by fastforce
  obtain tr' where tr': "Pl011_PutChar hw base c tr1 = Some tr'"
      "p_line (after write_pl011 base u tr') = p_line (after write_pl011 base u tr) @ [c]"
    using pl.echo [OF assms c] by blast
  have "of_char (char_of (unat c) :: char) = (of_nat (of_char (char_of (unat c) :: char)) :: u8)" by (simp only: of_nat_of_char)
  also have "\<dots> = c" using unsigned_less [of c, where 'a = nat] by (simp add: of_char_of)
  finally have "of_char (char_of (unat c) :: char) = c" .
  moreover have "bit (hw tr (base + 0x18)) 4 \<longrightarrow> c = 0xFF"
    using c and_exp_eq_0_iff_not_bit [of "hw tr (base + 0x18)" 4]
    by (auto simp: Pl011_TryGetChar_def io_In_def kRegFR_def kFRRXFE_def)
  ultimately show ?thesis using c tr' by (simp add: uart_handler_def console_putchar_put_char put_char_def)
qed

end
