(* ===== verification/Kernel_Main.thy ===== *)
theory Kernel_Main
  imports Kernel_Steps
begin

text \<open>
  How a core is brought into the scheduler: \<open>create_test_tasks\<close>, \<open>main\<close> and \<open>main_smp\<close> of
  \<open>src/main.cpp\<close> over the task manager. The addresses that \<open>new\<close> returns for the five task
  blocks and their stacks, and the addresses of the task functions, are arguments. The
  initialisations of the architecture, of the memory and of the interrupt controllers that
  the two entries also call act on other state than the task manager's.
\<close>

subsection \<open>The code\<close>

record test_task =
  tt_block :: tptr
  tt_stack :: u64
  tt_func :: u64

definition new_task :: "u64 \<Rightarrow> u64 \<Rightarrow> string \<Rightarrow> u64 \<Rightarrow> test_task \<Rightarrow> kernel \<Rightarrow> kernel" where
  "new_task kte tc_size nm arg b k =
     k\<lparr>k_tcbs := (k_tcbs k)(tt_block b \<mapsto> new_TaskControlBlock kte tc_size (tt_stack b) nm 10 (tt_func b) arg)\<rparr>"

definition set_affinity :: "u64 \<Rightarrow> tptr \<Rightarrow> kernel \<Rightarrow> kernel outcome" where
  "set_affinity bits t k = upd_tcb k t (\<lambda>T. T\<lparr>t_cpu_affinity := bits\<rparr>)"

definition create_test_tasks ::
    "u64 \<Rightarrow> u64 \<Rightarrow> test_task \<Rightarrow> test_task \<Rightarrow> test_task \<Rightarrow> test_task \<Rightarrow> size_t \<Rightarrow> kernel \<Rightarrow> kernel outcome" where
  "create_test_tasks kte tc_size task1 task2 task3 task4 core_id k =
     (let k = new_task kte tc_size ''Task1-Exit'' 0x1111 task1 k;
          k = new_task kte tc_size ''Task2-Yield'' 0x2222 task2 k;
          k = new_task kte tc_size ''Task3-Sync'' 0x3333 task3 k;
          k = new_task kte tc_size ''Task4-Sleep'' 0x4444 task4 k
      in obind (set_affinity (push_bit (unat core_id) 1) (tt_block task1) k) (\<lambda>k.
         obind (set_affinity (push_bit (unat core_id) 1) (tt_block task2) k) (\<lambda>k.
         obind (set_affinity (push_bit (unat core_id) 1) (tt_block task3) k) (\<lambda>k.
         obind (set_affinity (push_bit (unat core_id) 1) (tt_block task4) k) (\<lambda>k.
         obind (AddTask core_id (Some (tt_block task1)) k) (\<lambda>k.
         obind (AddTask core_id (Some (tt_block task2)) k) (\<lambda>k.
         obind (AddTask core_id (Some (tt_block task3)) k) (\<lambda>k.
         AddTask core_id (Some (tt_block task4)) k))))))))"

text \<open>
  What \<open>main\<close> and \<open>main_smp\<close> do to the task manager is the same and in the same order: they
  differ in where the interrupt controller is initialised, before \<open>InitCurrentCore\<close> in
  \<open>main_smp\<close> and after \<open>create_test_tasks\<close> in \<open>main\<close>.
\<close>

definition main_tasks ::
    "u64 \<Rightarrow> u64 \<Rightarrow> test_task \<Rightarrow> test_task \<Rightarrow> test_task \<Rightarrow> test_task \<Rightarrow> test_task \<Rightarrow> size_t \<Rightarrow> kernel \<Rightarrow> kernel outcome" where
  "main_tasks kte tc_size idle task1 task2 task3 task4 core_id k =
     obind (InitCurrentCore kte tc_size (tt_func idle) (tt_block idle) (tt_stack idle) core_id
             (upd_percpu k core_id (\<lambda>_. new_PerCpu core_id))) (\<lambda>k.
     create_test_tasks kte tc_size task1 task2 task3 task4 core_id k)"

definition main_smp ::
    "u64 \<Rightarrow> u64 \<Rightarrow> test_task \<Rightarrow> test_task \<Rightarrow> test_task \<Rightarrow> test_task \<Rightarrow> test_task \<Rightarrow> size_t \<Rightarrow> kernel \<Rightarrow> kernel outcome" where
  "main_smp kte tc_size idle task1 task2 task3 task4 core_id k =
     obind (main_tasks kte tc_size idle task1 task2 task3 task4 core_id k) (Schedule core_id)"

definition main ::
    "u64 \<Rightarrow> u64 \<Rightarrow> test_task \<Rightarrow> test_task \<Rightarrow> test_task \<Rightarrow> test_task \<Rightarrow> test_task \<Rightarrow> size_t \<Rightarrow> kernel \<Rightarrow> kernel outcome" where
  "main kte tc_size idle task1 task2 task3 task4 core_id k =
     obind (main_tasks kte tc_size idle task1 task2 task3 task4 core_id k) (Schedule core_id)"

subsection \<open>The tasks of a core\<close>

lemma set_affinity_Done:
  "k_tcbs k t = Some T \<Longrightarrow> set_affinity b t k = Done (k\<lparr>k_tcbs := (k_tcbs k)(t \<mapsto> T\<lparr>t_cpu_affinity := b\<rparr>)\<rparr>)"
  by (simp add: set_affinity_def upd_tcb_def modify_def)

lemma target_cores: "[0..<MAX_CORE_COUNT] = [0, 1, 2, 3]"
  by code_simp

lemma target_core_bit:
  assumes "unat me < MAX_CORE_COUNT"
  shows "target_core (push_bit (unat me) 1) c = me"
proof -
  have n: "me = of_nat (unat me)" by simp
  have "unat me = 0 \<or> unat me = 1 \<or> unat me = 2 \<or> unat me = 3" using assms by (auto simp: MAX_CORE_COUNT_def)
  with n have "me \<in> {0, 1, 2, 3}" by (elim disjE) (simp_all only: of_nat_numeral of_nat_0 of_nat_1, simp_all)
  then show ?thesis by (auto simp: target_core_def target_cores)
qed

text \<open>One of the four tasks, ready to be added.\<close>

definition task_for :: "size_t \<Rightarrow> TaskControlBlock \<Rightarrow> bool" where
  "task_for me T \<longleftrightarrow> t_status T = kUnInit \<and> t_policy T = kNormal \<and> t_cpu_affinity T = push_bit (unat me) 1"

lemma task_for_new:
  "stack \<noteq> 0 \<Longrightarrow> task_for me ((new_TaskControlBlock kte tcs stack nm prio f arg)\<lparr>t_cpu_affinity := push_bit (unat me) 1\<rparr>)"
  by (simp add: task_for_def new_TaskControlBlock_def default_TaskControlBlock_def Let_def)

fun add_tasks :: "size_t \<Rightarrow> tptr list \<Rightarrow> kernel \<Rightarrow> kernel outcome" where
  "add_tasks me [] k = Done k"
| "add_tasks me (t # ts) k = obind (AddTask me (Some t) k) (add_tasks me ts)"

lemma add_tasks_ok:
  assumes "sys_rel k A" "kernel_reachable k" "A me = Some a" "unat me < MAX_CORE_COUNT" "distinct ts"
    and "\<forall>t \<in> set ts. \<exists>T. k_tcbs k t = Some T \<and> task_for me T"
  shows "\<exists>k'. add_tasks me ts k = Done k' \<and> kernel_reachable k' \<and> sys_rel k' (A(me \<mapsto> a\<lparr>a_norm := a_norm a @ ts\<rparr>))"
  using assms
proof (induction ts arbitrary: k A a)
  case Nil
  then show ?case by (auto simp: fun_upd_idem)
next
  case (Cons t ts)
  obtain T where T: "k_tcbs k t = Some T" "t_status T = kUnInit" "t_policy T = kNormal"
      "t_cpu_affinity T = push_bit (unat me) 1"
    using Cons.prems(6) by (auto simp: task_for_def)
  have c: "target_core (t_cpu_affinity T) me = me" using T(4) target_core_bit [OF Cons.prems(4)] by simp
  have k: "k\<lparr>k_tcbs := (k_tcbs k)(t \<mapsto> T)\<rparr> = k" using T(1) by (simp add: fun_upd_idem)
  obtain k1 where k1: "AddTask me (Some t) k = Done k1" "sys_rel k1 (A(me \<mapsto> a\<lparr>a_norm := a_norm a @ [t]\<rparr>))"
      "\<forall>u. u \<noteq> t \<longrightarrow> k_tcbs k1 u = k_tcbs k u"
    using AddTask_unowned [OF Cons.prems(1) uninit_unowned [OF Cons.prems(1) T(1,2)] T(2), of me a] T(3) Cons.prems(3)
    unfolding c k by (auto simp: a_enqueue_def)
  let ?a = "a\<lparr>a_norm := a_norm a @ [t]\<rparr>"
  have ts: "\<forall>u \<in> set ts. \<exists>T. k_tcbs k1 u = Some T \<and> task_for me T" "distinct ts" using Cons.prems(5,6) k1(3) by auto
  have r: "kernel_reachable k1"
    using reach_step [OF Cons.prems(2) step_add [OF T(1,2) _ k1(1)]] T(3) by simp
  have m: "(A(me \<mapsto> ?a)) me = Some ?a" by simp
  obtain k' where k': "add_tasks me ts k1 = Done k'" "kernel_reachable k'"
      "sys_rel k' (A(me \<mapsto> ?a, me \<mapsto> ?a\<lparr>a_norm := a_norm ?a @ ts\<rparr>))"
    using Cons.IH [OF k1(2) r m Cons.prems(4) ts(2,1)] by blast
  have "A(me \<mapsto> ?a, me \<mapsto> ?a\<lparr>a_norm := a_norm ?a @ ts\<rparr>) = A(me \<mapsto> a\<lparr>a_norm := a_norm a @ t # ts\<rparr>)" by simp
  with k'(3) have "sys_rel k' (A(me \<mapsto> a\<lparr>a_norm := a_norm a @ t # ts\<rparr>))" by (simp only:)
  moreover have "add_tasks me (t # ts) k = Done k'" using k1(1) k'(1) by simp
  ultimately show ?case using k'(2) by blast
qed

text \<open>The blocks that \<open>new\<close> returns, with their final contents.\<close>

fun new_tasks :: "(tptr \<times> TaskControlBlock) list \<Rightarrow> kernel \<Rightarrow> kernel" where
  "new_tasks [] k = k"
| "new_tasks ((t, T) # ps) k = new_tasks ps (k\<lparr>k_tcbs := (k_tcbs k)(t \<mapsto> T)\<rparr>)"

lemma new_tasks_tcbs: "k_tcbs (new_tasks ps k) = k_tcbs k ++ map_of (rev ps)"
  by (induction ps k rule: new_tasks.induct) (auto simp: map_add_def fun_eq_iff split: option.splits)

lemma new_tasks_ok:
  assumes "sys_rel k A" "kernel_reachable k" "distinct (map fst ps)" "fst ` set ps \<inter> dom (k_tcbs k) = {}"
  shows "sys_rel (new_tasks ps k) A \<and> kernel_reachable (new_tasks ps k) \<and>
    (\<forall>(t, T) \<in> set ps. k_tcbs (new_tasks ps k) t = Some T)"
proof -
  have "sys_rel (new_tasks ps k) A \<and> kernel_reachable (new_tasks ps k)"
    using assms
  proof (induction ps k rule: new_tasks.induct)
    case (2 t T ps k)
    have t: "k_tcbs k t = None" using 2(5) by auto
    have d: "fst ` set ps \<inter> dom (k_tcbs (k\<lparr>k_tcbs := (k_tcbs k)(t \<mapsto> T)\<rparr>)) = {}" using 2(4,5) by (auto simp: image_iff)
    show ?case
      using 2(1) [OF sys_rel_new [OF 2(2) t] reach_step [OF 2(3) step_new [OF t]] _ d] 2(4) by simp
  qed simp
  then show ?thesis using assms(3) by (auto simp: new_tasks_tcbs rev_map [symmetric] map_of_eq_Some_iff)
qed

definition pinned :: "u64 \<Rightarrow> u64 \<Rightarrow> size_t \<Rightarrow> string \<Rightarrow> u64 \<Rightarrow> test_task \<Rightarrow> tptr \<times> TaskControlBlock" where
  "pinned kte tcs me nm arg b = (tt_block b,
     (new_TaskControlBlock kte tcs (tt_stack b) nm 10 (tt_func b) arg)\<lparr>t_cpu_affinity := push_bit (unat me) 1\<rparr>)"

lemma pinned_task_for: "tt_stack b \<noteq> 0 \<Longrightarrow> task_for me (snd (pinned kte tcs me nm arg b))"
  using task_for_new by (simp add: pinned_def)

lemma fst_pinned [simp]: "fst (pinned kte tcs me nm arg b) = tt_block b"
  by (simp add: pinned_def)

abbreviation test_tasks :: "u64 \<Rightarrow> u64 \<Rightarrow> test_task \<Rightarrow> test_task \<Rightarrow> test_task \<Rightarrow> test_task \<Rightarrow> size_t \<Rightarrow> (tptr \<times> TaskControlBlock) list" where
  "test_tasks kte tcs b1 b2 b3 b4 me \<equiv> [pinned kte tcs me ''Task1-Exit'' 0x1111 b1, pinned kte tcs me ''Task2-Yield'' 0x2222 b2,
     pinned kte tcs me ''Task3-Sync'' 0x3333 b3, pinned kte tcs me ''Task4-Sleep'' 0x4444 b4]"

lemma create_test_tasks_unfold:
  assumes "distinct [tt_block b1, tt_block b2, tt_block b3, tt_block b4]"
  shows "create_test_tasks kte tcs b1 b2 b3 b4 me k =
    add_tasks me [tt_block b1, tt_block b2, tt_block b3, tt_block b4] (new_tasks (test_tasks kte tcs b1 b2 b3 b4 me) k)"
proof -
  have b: "obind r Done = r" for r :: "kernel outcome" by (cases r) simp_all
  have a: "add_tasks me [] = Done" "add_tasks me (t # ts) = (\<lambda>k. obind (AddTask me (Some t) k) (add_tasks me ts))" for t ts
    by (simp_all add: fun_eq_iff)
  have u: "h(tt_block b1 \<mapsto> A1, tt_block b2 \<mapsto> A2, tt_block b3 \<mapsto> A3, tt_block b4 \<mapsto> A4,
        tt_block b1 \<mapsto> B1, tt_block b2 \<mapsto> B2, tt_block b3 \<mapsto> B3, tt_block b4 \<mapsto> B4) =
      h(tt_block b1 \<mapsto> B1, tt_block b2 \<mapsto> B2, tt_block b3 \<mapsto> B3, tt_block b4 \<mapsto> B4)"
    for h :: tcb_heap and A1 A2 A3 A4 B1 B2 B3 B4 by (simp add: fun_eq_iff)
  show ?thesis
    using assms by (simp add: create_test_tasks_def new_task_def set_affinity_Done pinned_def a b u Let_def)
qed

lemma create_test_tasks_ok:
  assumes "sys_rel k A" "kernel_reachable k" "A me = Some a" "unat me < MAX_CORE_COUNT"
    and "distinct [tt_block b1, tt_block b2, tt_block b3, tt_block b4]"
    and "{tt_block b1, tt_block b2, tt_block b3, tt_block b4} \<inter> dom (k_tcbs k) = {}"
    and "tt_stack b1 \<noteq> 0" "tt_stack b2 \<noteq> 0" "tt_stack b3 \<noteq> 0" "tt_stack b4 \<noteq> 0"
  shows "\<exists>k'. create_test_tasks kte tcs b1 b2 b3 b4 me k = Done k' \<and> kernel_reachable k' \<and>
    sys_rel k' (A(me \<mapsto> a\<lparr>a_norm := a_norm a @ [tt_block b1, tt_block b2, tt_block b3, tt_block b4]\<rparr>))"
  unfolding create_test_tasks_unfold [OF assms(5)]
proof (rule add_tasks_ok [where A = A, OF _ _ assms(3-5)])
  let ?ps = "test_tasks kte tcs b1 b2 b3 b4 me"
  have n: "sys_rel (new_tasks ?ps k) A \<and> kernel_reachable (new_tasks ?ps k) \<and>
      (\<forall>(t, T) \<in> set ?ps. k_tcbs (new_tasks ?ps k) t = Some T)"
    by (rule new_tasks_ok [OF assms(1,2)]) (use assms(5,6) in simp_all)
  show "sys_rel (new_tasks ?ps k) A" "kernel_reachable (new_tasks ?ps k)" using n by blast+
  have "k_tcbs (new_tasks ?ps k) (fst p) = Some (snd p)" if "p \<in> set ?ps" for p
    using bspec [OF n [THEN conjunct2, THEN conjunct2] that] by (simp add: case_prod_beta del: new_tasks.simps)
  then show "\<forall>t \<in> set [tt_block b1, tt_block b2, tt_block b3, tt_block b4]. \<exists>T. k_tcbs (new_tasks ?ps k) t = Some T \<and> task_for me T"
    using assms(7-10) pinned_task_for by (metis fst_pinned list.set_intros(1,2) set_ConsD empty_iff list.set(1))
qed

subsection \<open>A core enters the scheduler\<close>

lemma main_tasks_ok:
  assumes "sys_rel k A" "kernel_reachable k" "A me = None" "unat me < MAX_CORE_COUNT"
    and "distinct [tt_block b0, tt_block b1, tt_block b2, tt_block b3, tt_block b4]"
    and "{tt_block b0, tt_block b1, tt_block b2, tt_block b3, tt_block b4} \<inter> dom (k_tcbs k) = {}"
    and "tt_stack b1 \<noteq> 0" "tt_stack b2 \<noteq> 0" "tt_stack b3 \<noteq> 0" "tt_stack b4 \<noteq> 0"
  shows "\<exists>k'. main_tasks kte tcs b0 b1 b2 b3 b4 me k = Done k' \<and> kernel_reachable k' \<and>
    sys_rel k' (A(me \<mapsto> (a_start (tt_block b0))\<lparr>a_norm := [tt_block b1, tt_block b2, tt_block b3, tt_block b4]\<rparr>))"
proof -
  let ?k = "k\<lparr>k_percpu := (k_percpu k)(me := new_PerCpu me)\<rparr>" and ?a = "a_start (tt_block b0)"
  have p: "sys_rel ?k A" "kernel_reachable ?k"
    using sys_rel_percpu [OF assms(1,3)] reach_step [OF assms(2) step_percpu [OF sys_relD(7) [OF assms(1,3)]]] by blast+
  have t: "k_tcbs ?k (tt_block b0) = None" using assms(6) by auto
  obtain k1 where k1: "InitCurrentCore kte tcs (tt_func b0) (tt_block b0) (tt_stack b0) me ?k = Done k1"
      "sys_rel k1 (A(me \<mapsto> ?a))" "dom (k_tcbs k1) = insert (tt_block b0) (dom (k_tcbs ?k))"
    using InitCurrentCore_ok [OF p(1) assms(3) t] by blast
  have r: "kernel_reachable k1" by (rule reach_step [OF p(2) step_init [OF _ t k1(1)]]) (simp add: new_PerCpu_def)
  have d: "distinct [tt_block b1, tt_block b2, tt_block b3, tt_block b4]"
      "{tt_block b1, tt_block b2, tt_block b3, tt_block b4} \<inter> dom (k_tcbs k1) = {}"
    using assms(5,6) k1(3) by auto
  have m: "(A(me \<mapsto> ?a)) me = Some ?a" by simp
  obtain k' where "create_test_tasks kte tcs b1 b2 b3 b4 me k1 = Done k'" "kernel_reachable k'"
      "sys_rel k' (A(me \<mapsto> ?a, me \<mapsto> ?a\<lparr>a_norm := a_norm ?a @ [tt_block b1, tt_block b2, tt_block b3, tt_block b4]\<rparr>))"
    using create_test_tasks_ok [OF k1(2) r m assms(4) d assms(7-10)] by blast
  moreover have "a_norm ?a = []" by (simp add: a_start_def)
  ultimately show ?thesis using k1(1) by (simp add: main_tasks_def upd_percpu_def)
qed

definition booted :: "test_task \<Rightarrow> test_task \<Rightarrow> test_task \<Rightarrow> test_task \<Rightarrow> test_task \<Rightarrow> acore" where
  "booted b0 b1 b2 b3 b4 = \<lparr>a_run = Some (tt_block b1), a_idle = tt_block b0, a_rt = [],
     a_norm = [tt_block b2, tt_block b3, tt_block b4], a_slp = {#}, a_blk = (\<lambda>_. [])\<rparr>"

lemma booted_schedule:
  "a_schedule pol ((a_start (tt_block b0))\<lparr>a_norm := [tt_block b1, tt_block b2, tt_block b3, tt_block b4]\<rparr>) = booted b0 b1 b2 b3 b4"
  by (simp add: a_schedule_def a_requeue_def a_pick_def a_rest_def a_next_def a_start_def booted_def)



text \<open>
  A stack that cannot be allocated stops the system: the constructor leaves such a task in
  the state \<open>kExited\<close>, and \<open>AddTask\<close> asserts that a new task is in the state \<open>kUnInit\<close>.
\<close>

lemma create_test_tasks_no_stack:
  assumes "distinct [tt_block b1, tt_block b2, tt_block b3, tt_block b4]" "tt_stack b1 = 0"
  shows "\<exists>e. create_test_tasks kte tcs b1 b2 b3 b4 me k = Fault e"
proof -
  have "k_tcbs (new_tasks (test_tasks kte tcs b1 b2 b3 b4 me) k) (tt_block b1) = Some (snd (pinned kte tcs me ''Task1-Exit'' 0x1111 b1))"
    using assms(1) by (simp add: pinned_def)
  moreover have "t_status (snd (pinned kte tcs me ''Task1-Exit'' 0x1111 b1)) = kExited"
    using assms(2) by (simp add: pinned_def new_TaskControlBlock_def Let_def)
  ultimately have "\<exists>e. AddTask me (Some (tt_block b1)) (new_tasks (test_tasks kte tcs b1 b2 b3 b4 me) k) = Fault e"
    by (simp add: AddTask_def get_tcb_def nk_assert_msg_def del: new_tasks.simps)
  then show ?thesis unfolding create_test_tasks_unfold [OF assms(1)] by auto
qed

end
