(* ===== verification/Rb_Tree.thy ===== *)
theory Rb_Tree
  imports NK_Prelude
begin

text \<open>
  The red-black tree of the C++ library (\<open>src/libcxx/include/nk_rb_tree\<close>) and the set on top of
  it (\<open>nk_set\<close>), on an explicit heap of nodes: parent pointers, the header node whose three
  pointers are the root and the two ends, and references to them as the source passes them.
  A node is addressed by a word, 0 is the null pointer. The header has no value. \<open>new\<close> is
  modelled by a fresh address that is an argument.
\<close>

subsection \<open>Nodes\<close>

datatype RbTreeColor = kRed | kBlack

type_synonym rbp = u64

record 'v rbnode =
  rb_color :: RbTreeColor
  rb_parent :: rbp
  rb_left :: rbp
  rb_right :: rbp
  rb_value :: "'v option"

type_synonym 'v rbheap = "rbp \<rightharpoonup> 'v rbnode"

definition rd :: "('v rbnode \<Rightarrow> 'b) \<Rightarrow> rbp \<Rightarrow> 'v rbheap \<Rightarrow> 'b outcome" where
  "rd f p h = obind (deref h p) (\<lambda>n. Done (f n))"

definition wr_color :: "rbp \<Rightarrow> RbTreeColor \<Rightarrow> 'v rbheap \<Rightarrow> 'v rbheap outcome" where
  "wr_color p c h = modify h p (\<lambda>n. n\<lparr>rb_color := c\<rparr>)"

definition wr_parent :: "rbp \<Rightarrow> rbp \<Rightarrow> 'v rbheap \<Rightarrow> 'v rbheap outcome" where
  "wr_parent p q h = modify h p (\<lambda>n. n\<lparr>rb_parent := q\<rparr>)"

definition wr_left :: "rbp \<Rightarrow> rbp \<Rightarrow> 'v rbheap \<Rightarrow> 'v rbheap outcome" where
  "wr_left p q h = modify h p (\<lambda>n. n\<lparr>rb_left := q\<rparr>)"

definition wr_right :: "rbp \<Rightarrow> rbp \<Rightarrow> 'v rbheap \<Rightarrow> 'v rbheap outcome" where
  "wr_right p q h = modify h p (\<lambda>n. n\<lparr>rb_right := q\<rparr>)"

text \<open>The value of a node; the header has none.\<close>

definition rd_value :: "rbp \<Rightarrow> 'v rbheap \<Rightarrow> 'v outcome" where
  "rd_value p h = obind (deref h p) (\<lambda>n. case rb_value n of None \<Rightarrow> Fault OutOfBounds | Some v \<Rightarrow> Done v)"

text \<open>A \<open>while\<close> loop whose condition and body may fault.\<close>

partial_function (option) owhile :: "('s \<Rightarrow> bool outcome) \<Rightarrow> ('s \<Rightarrow> 's outcome) \<Rightarrow> 's \<Rightarrow> 's outcome option" where
  "owhile c b s = (case c s of
     Fault e \<Rightarrow> Some (Fault e)
   | Done t \<Rightarrow> if t then (case b s of Fault e \<Rightarrow> Some (Fault e) | Done s' \<Rightarrow> owhile c b s') else Some (Done s))"

declare owhile.simps [code]

definition while_do :: "('s \<Rightarrow> bool outcome) \<Rightarrow> ('s \<Rightarrow> 's outcome) \<Rightarrow> 's \<Rightarrow> 's outcome" where
  "while_do c b s = run_loop (owhile c b s)"

lemma while_do_unfold: "while_do c b s = obind (c s) (\<lambda>t. if t then obind (b s) (while_do c b) else Done s)"
  unfolding while_do_def
  by (subst owhile.simps) (simp add: run_loop_def while_do_def split: outcome.split)

definition rb_minimum :: "rbp \<Rightarrow> 'v rbheap \<Rightarrow> rbp outcome" where
  "rb_minimum x h = while_do (\<lambda>x. obind (rd rb_left x h) (\<lambda>l. Done (l \<noteq> 0))) (\<lambda>x. rd rb_left x h) x"

definition rb_maximum :: "rbp \<Rightarrow> 'v rbheap \<Rightarrow> rbp outcome" where
  "rb_maximum x h = while_do (\<lambda>x. obind (rd rb_right x h) (\<lambda>l. Done (l \<noteq> 0))) (\<lambda>x. rd rb_right x h) x"

subsection \<open>Iterators\<close>

definition increment :: "rbp \<Rightarrow> 'v rbheap \<Rightarrow> rbp outcome" where
  "increment node h =
     obind (rd rb_right node h) (\<lambda>r.
     if r \<noteq> 0 then rb_minimum r h
     else obind (rd rb_parent node h) (\<lambda>y.
          obind (while_do (\<lambda>(node, y). obind (rd rb_right y h) (\<lambda>r. Done (node = r)))
                   (\<lambda>(node, y). obind (rd rb_parent y h) (\<lambda>p. Done (y, p))) (node, y)) (\<lambda>(node, y).
          obind (rd rb_right node h) (\<lambda>r. Done (if r \<noteq> y then y else node)))))"

definition decrement :: "rbp \<Rightarrow> 'v rbheap \<Rightarrow> rbp outcome" where
  "decrement node h =
     obind (rd rb_color node h) (\<lambda>c.
     obind (if c = kRed then obind (rd rb_parent node h) (\<lambda>p. obind (rd rb_parent p h) (\<lambda>g. Done (g = node))) else Done False) (\<lambda>e.
     if e then rd rb_right node h
     else obind (rd rb_left node h) (\<lambda>l.
          if l \<noteq> 0 then rb_maximum l h
          else obind (rd rb_parent node h) (\<lambda>y.
               obind (while_do (\<lambda>(node, y). obind (rd rb_left y h) (\<lambda>l. Done (node = l)))
                        (\<lambda>(node, y). obind (rd rb_parent y h) (\<lambda>p. Done (y, p))) (node, y)) (\<lambda>(node, y).
               Done y)))))"

subsection \<open>Rotations\<close>

text \<open>
  \<open>root\<close> is a reference to the parent pointer of the header node, whose address is the first
  argument. The pointer to \<open>x\<close> in its parent \<open>p\<close>, or in the header, becomes a pointer to \<open>y\<close>.
\<close>

definition relink_left :: "rbp \<Rightarrow> rbp \<Rightarrow> rbp \<Rightarrow> rbp \<Rightarrow> 'v rbheap \<Rightarrow> 'v rbheap outcome" where
  "relink_left H p x y h =
     obind (rd rb_parent H h) (\<lambda>root.
     if x = root then wr_parent H y h
     else obind (rd rb_left p h) (\<lambda>l. if x = l then wr_left p y h else wr_right p y h))"

definition relink_right :: "rbp \<Rightarrow> rbp \<Rightarrow> rbp \<Rightarrow> rbp \<Rightarrow> 'v rbheap \<Rightarrow> 'v rbheap outcome" where
  "relink_right H p x y h =
     obind (rd rb_parent H h) (\<lambda>root.
     if x = root then wr_parent H y h
     else obind (rd rb_right p h) (\<lambda>r. if x = r then wr_right p y h else wr_left p y h))"

definition RbTreeRotateLeft :: "rbp \<Rightarrow> rbp \<Rightarrow> 'v rbheap \<Rightarrow> 'v rbheap outcome" where
  "RbTreeRotateLeft H x h =
     obind (rd rb_right x h) (\<lambda>y.
     obind (rd rb_left y h) (\<lambda>yl.
     obind (wr_right x yl h) (\<lambda>h.
     obind (if yl \<noteq> 0 then wr_parent yl x h else Done h) (\<lambda>h.
     obind (rd rb_parent x h) (\<lambda>p.
     obind (wr_parent y p h) (\<lambda>h.
     obind (relink_left H p x y h) (\<lambda>h.
     obind (wr_left y x h) (\<lambda>h.
     wr_parent x y h))))))))"

definition RbTreeRotateRight :: "rbp \<Rightarrow> rbp \<Rightarrow> 'v rbheap \<Rightarrow> 'v rbheap outcome" where
  "RbTreeRotateRight H x h =
     obind (rd rb_left x h) (\<lambda>y.
     obind (rd rb_right y h) (\<lambda>yr.
     obind (wr_left x yr h) (\<lambda>h.
     obind (if yr \<noteq> 0 then wr_parent yr x h else Done h) (\<lambda>h.
     obind (rd rb_parent x h) (\<lambda>p.
     obind (wr_parent y p h) (\<lambda>h.
     obind (relink_right H p x y h) (\<lambda>h.
     obind (wr_right y x h) (\<lambda>h.
     wr_parent x y h))))))))"

subsection \<open>Rebalancing after an insertion\<close>

definition is_red :: "rbp \<Rightarrow> 'v rbheap \<Rightarrow> bool outcome" where
  "is_red p h = (if p \<noteq> 0 then obind (rd rb_color p h) (\<lambda>c. Done (c = kRed)) else Done False)"

definition rebalance_cond :: "rbp \<Rightarrow> rbp \<times> 'v rbheap \<Rightarrow> bool outcome" where
  "rebalance_cond H = (\<lambda>(x, h).
     obind (rd rb_parent H h) (\<lambda>root.
     if x = root then Done False
     else obind (rd rb_parent x h) (\<lambda>p. obind (rd rb_color p h) (\<lambda>c. Done (c = kRed)))))"

text \<open>Parent, grandparent and uncle black or red: the two branches with the same uncle colours.\<close>

definition recolor :: "rbp \<Rightarrow> rbp \<Rightarrow> 'v rbheap \<Rightarrow> (rbp \<times> 'v rbheap) outcome" where
  "recolor x y h =
     obind (rd rb_parent x h) (\<lambda>p.
     obind (wr_color p kBlack h) (\<lambda>h.
     obind (wr_color y kBlack h) (\<lambda>h.
     obind (rd rb_parent x h) (\<lambda>p.
     obind (rd rb_parent p h) (\<lambda>g.
     obind (wr_color g kRed h) (\<lambda>h.
     Done (g, h)))))))"

definition finish :: "(rbp \<Rightarrow> 'v rbheap \<Rightarrow> 'v rbheap outcome) \<Rightarrow> rbp \<Rightarrow> 'v rbheap \<Rightarrow> (rbp \<times> 'v rbheap) outcome" where
  "finish rot x h =
     obind (rd rb_parent x h) (\<lambda>p.
     obind (wr_color p kBlack h) (\<lambda>h.
     obind (rd rb_parent x h) (\<lambda>p.
     obind (rd rb_parent p h) (\<lambda>g.
     obind (wr_color g kRed h) (\<lambda>h.
     obind (rot g h) (\<lambda>h. Done (x, h)))))))"

definition rebalance_body :: "rbp \<Rightarrow> rbp \<times> 'v rbheap \<Rightarrow> (rbp \<times> 'v rbheap) outcome" where
  "rebalance_body H = (\<lambda>(x, h).
     obind (rd rb_parent x h) (\<lambda>p.
     obind (rd rb_parent p h) (\<lambda>g.
     obind (rd rb_left g h) (\<lambda>gl.
     if p = gl then
       obind (rd rb_right g h) (\<lambda>y.
       obind (is_red y h) (\<lambda>red.
       if red then recolor x y h
       else obind (rd rb_right p h) (\<lambda>pr.
            obind (if x = pr then obind (RbTreeRotateLeft H p h) (\<lambda>h. Done (p, h)) else Done (x, h)) (\<lambda>(x, h).
            finish (RbTreeRotateRight H) x h))))
     else
       obind (rd rb_left g h) (\<lambda>y.
       obind (is_red y h) (\<lambda>red.
       if red then recolor x y h
       else obind (rd rb_left p h) (\<lambda>pl.
            obind (if x = pl then obind (RbTreeRotateRight H p h) (\<lambda>h. Done (p, h)) else Done (x, h)) (\<lambda>(x, h).
            finish (RbTreeRotateLeft H) x h))))))))"

definition RbTreeRebalance :: "rbp \<Rightarrow> rbp \<Rightarrow> 'v rbheap \<Rightarrow> 'v rbheap outcome" where
  "RbTreeRebalance H x h =
     obind (wr_color x kRed h) (\<lambda>h.
     obind (while_do (rebalance_cond H) (rebalance_body H) (x, h)) (\<lambda>(x, h).
     obind (rd rb_parent H h) (\<lambda>root. wr_color root kBlack h)))"

subsection \<open>Rebalancing after an erasure\<close>

text \<open>A child pointer that is null or leads to a black node.\<close>

definition blackish :: "rbp \<Rightarrow> 'v rbheap \<Rightarrow> bool outcome" where
  "blackish p h = obind (is_red p h) (\<lambda>r. Done (\<not> r))"

definition wr_color_opt :: "rbp \<Rightarrow> RbTreeColor \<Rightarrow> 'v rbheap \<Rightarrow> 'v rbheap outcome" where
  "wr_color_opt p c h = (if p \<noteq> 0 then wr_color p c h else Done h)"

text \<open>Replacement of \<open>z\<close> by \<open>y\<close> at the parent of \<open>z\<close>.\<close>

definition replace_child :: "rbp \<Rightarrow> rbp \<Rightarrow> rbp \<Rightarrow> 'v rbheap \<Rightarrow> 'v rbheap outcome" where
  "replace_child H z y h =
     obind (rd rb_parent z h) (\<lambda>zp. relink_left H zp z y h)"

text \<open>The successor \<open>y\<close> takes the place of \<open>z\<close>; the result is the parent of the gap.\<close>

definition splice_successor :: "rbp \<Rightarrow> rbp \<Rightarrow> rbp \<Rightarrow> rbp \<Rightarrow> 'v rbheap \<Rightarrow> (rbp \<times> 'v rbheap) outcome" where
  "splice_successor H z y x h =
     obind (rd rb_left z h) (\<lambda>zl.
     obind (wr_parent zl y h) (\<lambda>h.
     obind (wr_left y zl h) (\<lambda>h.
     obind (rd rb_right z h) (\<lambda>zr.
     obind (if y \<noteq> zr
            then obind (rd rb_parent y h) (\<lambda>yp.
                 obind (if x \<noteq> 0 then wr_parent x yp h else Done h) (\<lambda>h.
                 obind (wr_left yp x h) (\<lambda>h.
                 obind (wr_right y zr h) (\<lambda>h.
                 obind (wr_parent zr y h) (\<lambda>h. Done (yp, h))))))
            else Done (y, h)) (\<lambda>(x_parent, h).
     obind (replace_child H z y h) (\<lambda>h.
     obind (rd rb_parent z h) (\<lambda>zp.
     obind (wr_parent y zp h) (\<lambda>h.
     obind (rd rb_color y h) (\<lambda>yc.
     obind (rd rb_color z h) (\<lambda>zc.
     obind (wr_color y zc h) (\<lambda>h.
     obind (wr_color z yc h) (\<lambda>h.
     Done (x_parent, h)))))))))))))"

text \<open>\<open>z\<close> has one child at most, which takes its place; the ends of the tree move.\<close>

definition splice_single :: "rbp \<Rightarrow> rbp \<Rightarrow> rbp \<Rightarrow> 'v rbheap \<Rightarrow> (rbp \<times> 'v rbheap) outcome" where
  "splice_single H z x h =
     obind (rd rb_parent z h) (\<lambda>zp.
     obind (if x \<noteq> 0 then wr_parent x zp h else Done h) (\<lambda>h.
     obind (replace_child H z x h) (\<lambda>h.
     obind (rd rb_left H h) (\<lambda>left_most.
     obind (if left_most = z
            then obind (rd rb_right z h) (\<lambda>zr.
                 obind (if zr = 0 then rd rb_parent z h else rb_minimum x h) (\<lambda>m. wr_left H m h))
            else Done h) (\<lambda>h.
     obind (rd rb_right H h) (\<lambda>right_most.
     obind (if right_most = z
            then obind (rd rb_left z h) (\<lambda>zl.
                 obind (if zl = 0 then rd rb_parent z h else rb_maximum x h) (\<lambda>m. wr_right H m h))
            else Done h) (\<lambda>h.
     Done (zp, h))))))))"

definition erase_cond :: "rbp \<Rightarrow> rbp \<times> rbp \<times> bool \<times> 'v rbheap \<Rightarrow> bool outcome" where
  "erase_cond H = (\<lambda>(x, x_parent, stop, h).
     if stop then Done False
     else obind (rd rb_parent H h) (\<lambda>root. if x = root then Done False else blackish x h))"

text \<open>
  One round of the loop for one side: \<open>near\<close> is the child field on the side of \<open>x\<close>, \<open>far\<close> the
  other one, and the rotations are \<open>toward\<close> that side and \<open>away\<close> from it. The last component of
  the state says that the loop was left by \<open>break\<close>. First a red sibling is rotated up.
\<close>

definition sibling ::
    "('v rbnode \<Rightarrow> rbp) \<Rightarrow> (rbp \<Rightarrow> 'v rbheap \<Rightarrow> 'v rbheap outcome) \<Rightarrow> rbp \<Rightarrow> 'v rbheap \<Rightarrow> (rbp \<times> 'v rbheap) outcome" where
  "sibling far toward x_parent h =
     obind (rd far x_parent h) (\<lambda>w.
     obind (rd rb_color w h) (\<lambda>wc.
     if wc = kRed
     then obind (wr_color w kBlack h) (\<lambda>h.
          obind (wr_color x_parent kRed h) (\<lambda>h.
          obind (toward x_parent h) (\<lambda>h.
          obind (rd far x_parent h) (\<lambda>w. Done (w, h)))))
     else Done (w, h)))"

text \<open>The near child of the sibling is red and the far one is not: it is rotated outwards.\<close>

definition outward ::
    "('v rbnode \<Rightarrow> rbp) \<Rightarrow> (rbp \<Rightarrow> 'v rbheap \<Rightarrow> 'v rbheap outcome) \<Rightarrow> rbp \<Rightarrow> rbp \<Rightarrow> rbp \<Rightarrow> 'v rbheap \<Rightarrow> (rbp \<times> 'v rbheap) outcome" where
  "outward far away x_parent w wn h =
     obind (wr_color_opt wn kBlack h) (\<lambda>h.
     obind (wr_color w kRed h) (\<lambda>h.
     obind (away w h) (\<lambda>h.
     obind (rd far x_parent h) (\<lambda>w. Done (w, h)))))"

definition last_rotation ::
    "('v rbnode \<Rightarrow> rbp) \<Rightarrow> (rbp \<Rightarrow> 'v rbheap \<Rightarrow> 'v rbheap outcome) \<Rightarrow> rbp \<Rightarrow> rbp \<Rightarrow> 'v rbheap \<Rightarrow> 'v rbheap outcome" where
  "last_rotation far toward x_parent w h =
     obind (rd rb_color x_parent h) (\<lambda>pc.
     obind (wr_color w pc h) (\<lambda>h.
     obind (wr_color x_parent kBlack h) (\<lambda>h.
     obind (rd far w h) (\<lambda>wf.
     obind (wr_color_opt wf kBlack h) (\<lambda>h.
     toward x_parent h)))))"

definition erase_side ::
    "('v rbnode \<Rightarrow> rbp) \<Rightarrow> ('v rbnode \<Rightarrow> rbp) \<Rightarrow> (rbp \<Rightarrow> 'v rbheap \<Rightarrow> 'v rbheap outcome) \<Rightarrow> (rbp \<Rightarrow> 'v rbheap \<Rightarrow> 'v rbheap outcome) \<Rightarrow>
     rbp \<Rightarrow> rbp \<Rightarrow> 'v rbheap \<Rightarrow> (rbp \<times> rbp \<times> bool \<times> 'v rbheap) outcome" where
  "erase_side near far toward away x x_parent h =
     obind (sibling far toward x_parent h) (\<lambda>(w, h).
     obind (rd near w h) (\<lambda>wn.
     obind (blackish wn h) (\<lambda>bn.
     obind (rd far w h) (\<lambda>wf.
     obind (blackish wf h) (\<lambda>bf.
     if bn \<and> bf
     then obind (wr_color w kRed h) (\<lambda>h.
          obind (rd rb_parent x_parent h) (\<lambda>p. Done (x_parent, p, False, h)))
     else obind (if bf then outward far away x_parent w wn h else Done (w, h)) (\<lambda>(w, h).
          obind (last_rotation far toward x_parent w h) (\<lambda>h.
          Done (x, x_parent, True, h))))))))"

definition erase_body :: "rbp \<Rightarrow> rbp \<times> rbp \<times> bool \<times> 'v rbheap \<Rightarrow> (rbp \<times> rbp \<times> bool \<times> 'v rbheap) outcome" where
  "erase_body H = (\<lambda>(x, x_parent, stop, h).
     obind (rd rb_left x_parent h) (\<lambda>l.
     if x = l then erase_side rb_left rb_right (RbTreeRotateLeft H) (RbTreeRotateRight H) x x_parent h
     else erase_side rb_right rb_left (RbTreeRotateRight H) (RbTreeRotateLeft H) x x_parent h))"

definition RbTreeRebalanceForErase :: "rbp \<Rightarrow> rbp \<Rightarrow> 'v rbheap \<Rightarrow> (rbp \<times> 'v rbheap) outcome" where
  "RbTreeRebalanceForErase H z h =
     obind (rd rb_left z h) (\<lambda>zl.
     obind (rd rb_right z h) (\<lambda>zr.
     obind (if zl = 0 then Done (z, zr)
            else if zr = 0 then Done (z, zl)
            else obind (rb_minimum zr h) (\<lambda>y. obind (rd rb_right y h) (\<lambda>x. Done (y, x)))) (\<lambda>(y, x).
     obind (if y \<noteq> z then splice_successor H z y x h else splice_single H z x h) (\<lambda>(x_parent, h).
     obind (rd rb_color z h) (\<lambda>c.
     obind (if c \<noteq> kRed
            then obind (while_do (erase_cond H) (erase_body H) (x, x_parent, False, h)) (\<lambda>(x, x_parent, stop, h).
                 wr_color_opt x kBlack h)
            else Done h) (\<lambda>h.
     Done (z, h)))))))"

subsection \<open>The class\<close>

record 'v RbTree =
  node_count :: size_t
  rb_header :: rbp
  rb_heap :: "'v rbheap"

definition new_RbTree :: "rbp \<Rightarrow> 'v rbheap \<Rightarrow> 'v RbTree" where
  "new_RbTree H h = \<lparr>node_count = 0, rb_header = H,
     rb_heap = h(H \<mapsto> \<lparr>rb_color = kRed, rb_parent = 0, rb_left = H, rb_right = H, rb_value = None\<rparr>)\<rparr>"

definition rb_begin :: "'v RbTree \<Rightarrow> rbp outcome" where
  "rb_begin t = rd rb_left (rb_header t) (rb_heap t)"

definition rb_end :: "'v RbTree \<Rightarrow> rbp" where
  "rb_end t = rb_header t"

definition rb_empty :: "'v RbTree \<Rightarrow> bool" where
  "rb_empty t \<longleftrightarrow> node_count t = 0"

definition rb_size :: "'v RbTree \<Rightarrow> size_t" where
  "rb_size t = node_count t"

text \<open>\<open>create_node\<close> leaves the colour and the pointers as \<open>new RbTreeNode()\<close> initialises them.\<close>

definition create_node :: "'v \<Rightarrow> 'v rbnode" where
  "create_node v = \<lparr>rb_color = kRed, rb_parent = 0, rb_left = 0, rb_right = 0, rb_value = Some v\<rparr>"

text \<open>The new node \<open>z\<close> becomes a child of \<open>y\<close>, or the root when \<open>y\<close> is the header.\<close>

definition link_node :: "rbp \<Rightarrow> rbp \<Rightarrow> rbp \<Rightarrow> bool \<Rightarrow> 'v rbheap \<Rightarrow> 'v rbheap outcome" where
  "link_node H z y left h =
     obind (if left
            then obind (wr_left y z h) (\<lambda>h.
                 if y = H then obind (wr_parent H z h) (\<lambda>h. wr_right H z h)
                 else obind (rd rb_left H h) (\<lambda>l. if y = l then wr_left H z h else Done h))
            else obind (wr_right y z h) (\<lambda>h.
                 obind (rd rb_right H h) (\<lambda>r. if y = r then wr_right H z h else Done h))) (\<lambda>h.
     obind (wr_parent z y h) (\<lambda>h.
     obind (wr_left z 0 h) (\<lambda>h.
     wr_right z 0 h)))"

definition insert_aux :: "('v \<Rightarrow> 'k) \<Rightarrow> ('k \<Rightarrow> 'k \<Rightarrow> bool) \<Rightarrow> rbp \<Rightarrow> rbp \<Rightarrow> rbp \<Rightarrow> 'v \<Rightarrow> 'v RbTree \<Rightarrow> (rbp \<times> 'v RbTree) outcome" where
  "insert_aux key lt z x y v t =
     (let H = rb_header t; h = (rb_heap t)(z \<mapsto> create_node v) in
      obind (if y = H \<or> x \<noteq> 0 then Done True else obind (rd_value y h) (\<lambda>yv. Done (lt (key v) (key yv)))) (\<lambda>left.
      obind (link_node H z y left h) (\<lambda>h.
      obind (RbTreeRebalance H z h) (\<lambda>h.
      Done (z, t\<lparr>rb_heap := h, node_count := node_count t + 1\<rparr>)))))"

definition insert_search :: "('v \<Rightarrow> 'k) \<Rightarrow> ('k \<Rightarrow> 'k \<Rightarrow> bool) \<Rightarrow> 'v \<Rightarrow> 'v rbheap \<Rightarrow> rbp \<times> rbp \<times> bool \<Rightarrow> (rbp \<times> rbp \<times> bool) outcome" where
  "insert_search key lt v h =
     while_do (\<lambda>(x, y, c). Done (x \<noteq> 0))
       (\<lambda>(x, y, c). obind (rd_value x h) (\<lambda>xv.
          let c = lt (key v) (key xv)
          in obind (if c then rd rb_left x h else rd rb_right x h) (\<lambda>x'. Done (x', x, c))))"

definition insert_unique :: "('v \<Rightarrow> 'k) \<Rightarrow> ('k \<Rightarrow> 'k \<Rightarrow> bool) \<Rightarrow> rbp \<Rightarrow> 'v \<Rightarrow> 'v RbTree \<Rightarrow> ((rbp \<times> bool) \<times> 'v RbTree) outcome" where
  "insert_unique key lt z v t =
     (let H = rb_header t; h = rb_heap t; added = (\<lambda>(it, t). Done ((it, True), t)) in
      obind (rd rb_parent H h) (\<lambda>root.
      obind (insert_search key lt v h (root, H, True)) (\<lambda>(x, y, c).
      obind (rb_begin t) (\<lambda>b.
      if c \<and> y = b then obind (insert_aux key lt z x y v t) added
      else obind (if c then decrement y h else Done y) (\<lambda>j.
           obind (rd_value j h) (\<lambda>jv.
           if lt (key jv) (key v) then obind (insert_aux key lt z x y v t) added
           else Done ((j, False), t)))))))"

definition bound_search :: "('v \<Rightarrow> bool) \<Rightarrow> 'v rbheap \<Rightarrow> rbp \<times> rbp \<Rightarrow> (rbp \<times> rbp) outcome" where
  "bound_search left h =
     while_do (\<lambda>(x, y). Done (x \<noteq> 0))
       (\<lambda>(x, y). obind (rd_value x h) (\<lambda>xv.
          if left xv then obind (rd rb_left x h) (\<lambda>l. Done (l, x))
          else obind (rd rb_right x h) (\<lambda>r. Done (r, y))))"

definition lower_bound :: "('v \<Rightarrow> 'k) \<Rightarrow> ('k \<Rightarrow> 'k \<Rightarrow> bool) \<Rightarrow> 'k \<Rightarrow> 'v RbTree \<Rightarrow> rbp outcome" where
  "lower_bound key lt k t =
     obind (rd rb_parent (rb_header t) (rb_heap t)) (\<lambda>root.
     obind (bound_search (\<lambda>xv. \<not> lt (key xv) k) (rb_heap t) (root, rb_header t)) (\<lambda>(x, y). Done y))"

definition upper_bound :: "('v \<Rightarrow> 'k) \<Rightarrow> ('k \<Rightarrow> 'k \<Rightarrow> bool) \<Rightarrow> 'k \<Rightarrow> 'v RbTree \<Rightarrow> rbp outcome" where
  "upper_bound key lt k t =
     obind (rd rb_parent (rb_header t) (rb_heap t)) (\<lambda>root.
     obind (bound_search (\<lambda>xv. lt k (key xv)) (rb_heap t) (root, rb_header t)) (\<lambda>(x, y). Done y))"

definition rb_find :: "('v \<Rightarrow> 'k) \<Rightarrow> ('k \<Rightarrow> 'k \<Rightarrow> bool) \<Rightarrow> 'k \<Rightarrow> 'v RbTree \<Rightarrow> rbp outcome" where
  "rb_find key lt k t =
     obind (rd rb_parent (rb_header t) (rb_heap t)) (\<lambda>root.
     obind (bound_search (\<lambda>xv. \<not> lt (key xv) k) (rb_heap t) (root, rb_header t)) (\<lambda>(x, j).
     if j = rb_end t then Done (rb_end t)
     else obind (rd_value j (rb_heap t)) (\<lambda>jv. Done (if lt k (key jv) then rb_end t else j))))"

definition rb_erase :: "rbp \<Rightarrow> 'v RbTree \<Rightarrow> 'v RbTree outcome" where
  "rb_erase position t =
     obind (RbTreeRebalanceForErase (rb_header t) position (rb_heap t)) (\<lambda>(y, h).
     obind (deref h y) (\<lambda>_.
     Done (t\<lparr>rb_heap := h(y := None), node_count := node_count t - 1\<rparr>)))"

definition rb_erase_key :: "('v \<Rightarrow> 'k) \<Rightarrow> ('k \<Rightarrow> 'k \<Rightarrow> bool) \<Rightarrow> 'k \<Rightarrow> 'v RbTree \<Rightarrow> (size_t \<times> 'v RbTree) outcome" where
  "rb_erase_key key lt k t =
     obind (lower_bound key lt k t) (\<lambda>first.
     obind (upper_bound key lt k t) (\<lambda>last.
     obind (while_do (\<lambda>(n, first, t). Done (first \<noteq> last))
              (\<lambda>(n, first, t). obind (increment first (rb_heap t)) (\<lambda>nxt.
                 obind (rb_erase first t) (\<lambda>t. Done (n + 1, nxt, t)))) (0, first, t)) (\<lambda>(n, first, t).
     Done (n, t))))"

subsection \<open>Clearing and copying\<close>

text \<open>\<open>erase_recursive\<close>: the loop goes on with the left child, the right one is a call.\<close>

partial_function (option) erase_rec :: "rbp \<Rightarrow> 'v rbheap \<Rightarrow> 'v rbheap outcome option" where
  "erase_rec x h =
     (if x = 0 then Some (Done h)
      else case rd rb_right x h of
        Fault e \<Rightarrow> Some (Fault e)
      | Done r \<Rightarrow> Option.bind (erase_rec r h) (\<lambda>res. case res of
          Fault e \<Rightarrow> Some (Fault e)
        | Done h \<Rightarrow> (case rd rb_left x h of
            Fault e \<Rightarrow> Some (Fault e)
          | Done y \<Rightarrow> erase_rec y (h(x := None)))))"

declare erase_rec.simps [code]

definition rb_clear :: "'v RbTree \<Rightarrow> 'v RbTree outcome" where
  "rb_clear t =
     (if node_count t \<noteq> 0
      then obind (rd rb_parent (rb_header t) (rb_heap t)) (\<lambda>root.
           obind (run_loop (erase_rec root (rb_heap t))) (\<lambda>h.
           obind (wr_parent (rb_header t) 0 h) (\<lambda>h.
           obind (wr_left (rb_header t) (rb_header t) h) (\<lambda>h.
           obind (wr_right (rb_header t) (rb_header t) h) (\<lambda>h.
           Done (t\<lparr>rb_heap := h, node_count := 0\<rparr>))))))
      else Done t)"

text \<open>The nodes of a copy are at the addresses that \<open>new\<close> returns, in the order of the calls.\<close>

definition clone_node :: "(nat \<Rightarrow> rbp) \<Rightarrow> rbp \<Rightarrow> nat \<times> 'v rbheap \<Rightarrow> (rbp \<times> nat \<times> 'v rbheap) outcome" where
  "clone_node nw x = (\<lambda>(i, h).
     obind (rd_value x h) (\<lambda>v.
     obind (rd rb_color x (h(nw i \<mapsto> create_node v))) (\<lambda>c.
     Done (nw i, i + 1, h(nw i \<mapsto> (create_node v)\<lparr>rb_color := c, rb_left := 0, rb_right := 0\<rparr>)))))"

partial_function (option) copy_rec :: "(nat \<Rightarrow> rbp) \<Rightarrow> rbp \<Rightarrow> rbp \<Rightarrow> nat \<times> 'v rbheap \<Rightarrow> (rbp \<times> nat \<times> 'v rbheap) outcome option" where
  "copy_rec nw x p s =
     (case obind (clone_node nw x s) (\<lambda>(n, i, h).
           obind (wr_parent n p h) (\<lambda>h.
           obind (rd rb_left x h) (\<lambda>l. Done (n, l, i, h)))) of
        Fault e \<Rightarrow> Some (Fault e)
      | Done (n, l, i, h) \<Rightarrow>
          Option.bind (if l \<noteq> 0 then copy_rec nw l n (i, h) else Some (Done (0, i, h))) (\<lambda>res. case res of
            Fault e \<Rightarrow> Some (Fault e)
          | Done (nl, i, h) \<Rightarrow>
              (case obind (if l \<noteq> 0 then wr_left n nl h else Done h) (\<lambda>h. obind (rd rb_right x h) (\<lambda>r. Done (r, h))) of
                 Fault e \<Rightarrow> Some (Fault e)
               | Done (r, h) \<Rightarrow>
                   Option.bind (if r \<noteq> 0 then copy_rec nw r n (i, h) else Some (Done (0, i, h))) (\<lambda>res. case res of
                     Fault e \<Rightarrow> Some (Fault e)
                   | Done (nr, i, h) \<Rightarrow> Some (obind (if r \<noteq> 0 then wr_right n nr h else Done h) (\<lambda>h. Done (n, i, h)))))))"

declare copy_rec.simps [code]

text \<open>The part that the copy constructor and the assignment share, for an empty tree with the header \<open>H\<close>.\<close>

definition copy_into :: "(nat \<Rightarrow> rbp) \<Rightarrow> 'v RbTree \<Rightarrow> 'v RbTree \<Rightarrow> 'v RbTree outcome" where
  "copy_into nw x t =
     (let H = rb_header t; h = rb_heap t in
      obind (rd rb_parent (rb_header x) h) (\<lambda>root.
      if root \<noteq> 0
      then obind (run_loop (copy_rec nw root H (0, h))) (\<lambda>(r, i, h).
           obind (wr_parent H r h) (\<lambda>h.
           obind (rb_minimum r h) (\<lambda>m.
           obind (wr_left H m h) (\<lambda>h.
           obind (rb_maximum r h) (\<lambda>m.
           obind (wr_right H m h) (\<lambda>h.
           Done (t\<lparr>rb_heap := h, node_count := node_count x\<rparr>)))))))
      else Done t))"

definition copy_RbTree :: "(nat \<Rightarrow> rbp) \<Rightarrow> rbp \<Rightarrow> 'v RbTree \<Rightarrow> 'v RbTree outcome" where
  "copy_RbTree nw H x = copy_into nw x (new_RbTree H (rb_heap x))"

text \<open>Assignment: both trees are in the heap of the left-hand side.\<close>

definition assign_RbTree :: "(nat \<Rightarrow> rbp) \<Rightarrow> 'v RbTree \<Rightarrow> 'v RbTree \<Rightarrow> 'v RbTree outcome" where
  "assign_RbTree nw x t =
     (if rb_header t \<noteq> rb_header x then obind (rb_clear t) (copy_into nw x) else Done t)"

end
