(* ===== verification/Rb_Heap.thy ===== *)
theory Rb_Heap
  imports Rb_Tree
begin

text \<open>
  How the heap of \<open>Rb_Tree\<close> holds a tree: trees with the addresses of their nodes, a tree with
  a hole as the path to a node, and what the reads, writes and rotations do to them.
\<close>

subsection \<open>Trees with addresses\<close>

datatype 'v pt = PLeaf | PNode rbp RbTreeColor 'v "'v pt" "'v pt"

datatype 'v pc = CTop | CLeft "'v pc" rbp RbTreeColor 'v "'v pt" | CRight "'v pc" rbp RbTreeColor 'v "'v pt"

fun rootp :: "'v pt \<Rightarrow> rbp" where
  "rootp PLeaf = 0"
| "rootp (PNode p c v l r) = p"

fun inord :: "'v pt \<Rightarrow> (rbp \<times> 'v) list" where
  "inord PLeaf = []"
| "inord (PNode p c v l r) = inord l @ (p, v) # inord r"

fun plug :: "'v pc \<Rightarrow> 'v pt \<Rightarrow> 'v pt" where
  "plug CTop t = t"
| "plug (CLeft C p c v r) t = plug C (PNode p c v t r)"
| "plug (CRight C p c v l) t = plug C (PNode p c v l t)"

text \<open>What lies to the left and to the right of the hole.\<close>

fun before :: "'v pc \<Rightarrow> (rbp \<times> 'v) list" where
  "before CTop = []"
| "before (CLeft C p c v r) = before C"
| "before (CRight C p c v l) = before C @ inord l @ [(p, v)]"

fun behind :: "'v pc \<Rightarrow> (rbp \<times> 'v) list" where
  "behind CTop = []"
| "behind (CLeft C p c v r) = (p, v) # inord r @ behind C"
| "behind (CRight C p c v l) = behind C"

lemma inord_plug: "inord (plug C t) = before C @ inord t @ behind C"
  by (induction C t rule: plug.induct) auto

fun holepar :: "rbp \<Rightarrow> 'v pc \<Rightarrow> rbp" where
  "holepar H CTop = H"
| "holepar H (CLeft C p c v r) = p"
| "holepar H (CRight C p c v l) = p"

definition addrs :: "(rbp \<times> 'v) list \<Rightarrow> rbp set" where
  "addrs xs = fst ` set xs"

lemma addrs_simps [simp]:
  "addrs [] = {}" "addrs (x # xs) = insert (fst x) (addrs xs)" "addrs (xs @ ys) = addrs xs \<union> addrs ys" "fst ` set xs = addrs xs"
  by (auto simp: addrs_def)

subsection \<open>In the heap\<close>

abbreviation mk_node :: "RbTreeColor \<Rightarrow> rbp \<Rightarrow> rbp \<Rightarrow> rbp \<Rightarrow> 'v option \<Rightarrow> 'v rbnode" where
  "mk_node c p l r v \<equiv> \<lparr>rb_color = c, rb_parent = p, rb_left = l, rb_right = r, rb_value = v\<rparr>"

fun tree_at :: "'v rbheap \<Rightarrow> rbp \<Rightarrow> 'v pt \<Rightarrow> bool" where
  "tree_at h q PLeaf \<longleftrightarrow> True"
| "tree_at h q (PNode p c v l r) \<longleftrightarrow>
     h p = Some (mk_node c q (rootp l) (rootp r) (Some v)) \<and> tree_at h p l \<and> tree_at h p r"

text \<open>A tree with a hole that holds the pointer \<open>q\<close>; the two words are the ends that the header records.\<close>

fun ctx_at :: "'v rbheap \<Rightarrow> rbp \<Rightarrow> rbp \<times> rbp \<Rightarrow> rbp \<Rightarrow> 'v pc \<Rightarrow> bool" where
  "ctx_at h H e q CTop \<longleftrightarrow> h H = Some (mk_node kRed q (fst e) (snd e) None)"
| "ctx_at h H e q (CLeft C p c v r) \<longleftrightarrow>
     h p = Some (mk_node c (holepar H C) q (rootp r) (Some v)) \<and> tree_at h p r \<and> ctx_at h H e p C"
| "ctx_at h H e q (CRight C p c v l) \<longleftrightarrow>
     h p = Some (mk_node c (holepar H C) (rootp l) q (Some v)) \<and> tree_at h p l \<and> ctx_at h H e p C"

definition nodes_apart :: "rbp \<Rightarrow> (rbp \<times> 'v) list \<Rightarrow> bool" where
  "nodes_apart H xs \<longleftrightarrow> distinct (map fst xs) \<and> H \<noteq> 0 \<and> 0 \<notin> addrs xs \<and> H \<notin> addrs xs"

definition rb_at :: "'v rbheap \<Rightarrow> rbp \<Rightarrow> rbp \<times> rbp \<Rightarrow> 'v pc \<Rightarrow> 'v pt \<Rightarrow> bool" where
  "rb_at h H e C t \<longleftrightarrow> ctx_at h H e (rootp t) C \<and> tree_at h (holepar H C) t \<and> nodes_apart H (before C @ inord t @ behind C)"

text \<open>The same heap seen from a node and from its parent.\<close>

lemma rb_at_zip [simp]:
  "rb_at h H e (CLeft C p c v r) l \<longleftrightarrow> rb_at h H e C (PNode p c v l r)"
  "rb_at h H e (CRight C p c v l) r \<longleftrightarrow> rb_at h H e C (PNode p c v l r)"
  by (auto simp: rb_at_def)

lemma rb_at_plug: "rb_at h H e C t \<longleftrightarrow> rb_at h H e CTop (plug C t)"
  by (induction C t rule: plug.induct) simp_all

subsection \<open>Frames\<close>

lemma tree_at_frame: "tree_at h q t \<Longrightarrow> (\<And>a. a \<in> addrs (inord t) \<Longrightarrow> h' a = h a) \<Longrightarrow> tree_at h' q t"
  by (induction h q t rule: tree_at.induct) auto

lemma ctx_at_frame:
  "ctx_at h H e q C \<Longrightarrow> (\<And>a. a \<in> insert H (addrs (before C) \<union> addrs (behind C)) \<Longrightarrow> h' a = h a) \<Longrightarrow> ctx_at h' H e q C"
proof (induction h H e q C rule: ctx_at.induct)
  case (2 h H e q C p c v r)
  then show ?case using tree_at_frame [of h p r h'] by auto
next
  case (3 h H e q C p c v l)
  then show ?case using tree_at_frame [of h p l h'] by auto
qed auto

lemma tree_at_upd [simp]: "a \<notin> addrs (inord t) \<Longrightarrow> tree_at (h(a := n)) q t = tree_at h q t"
  by (rule iffI; erule tree_at_frame) (metis fun_upd_other)+

lemma ctx_at_upd [simp]:
  "a \<noteq> H \<Longrightarrow> a \<notin> addrs (before C) \<Longrightarrow> a \<notin> addrs (behind C) \<Longrightarrow> ctx_at (h(a := n)) H e q C = ctx_at h H e q C"
  by (rule iffI; erule ctx_at_frame) (metis Un_iff fun_upd_other insert_iff)+

lemma holepar_in: "C \<noteq> CTop \<Longrightarrow> holepar H C \<in> addrs (before C) \<union> addrs (behind C)"
  by (cases C) auto

lemma tree_reparent:
  assumes "tree_at h q (PNode p c v l r)" "p \<notin> addrs (inord l)" "p \<notin> addrs (inord r)"
  shows "tree_at (h(p \<mapsto> mk_node c q' (rootp l) (rootp r) (Some v))) q' (PNode p c v l r)"
  using assms by simp

text \<open>The pointer in the hole is replaced: only the node above the hole changes.\<close>

definition set_hole :: "'v pc \<Rightarrow> rbp \<Rightarrow> 'v rbnode \<Rightarrow> 'v rbnode" where
  "set_hole C q n = (case C of CTop \<Rightarrow> n\<lparr>rb_parent := q\<rparr> | CLeft _ _ _ _ _ \<Rightarrow> n\<lparr>rb_left := q\<rparr> | CRight _ _ _ _ _ \<Rightarrow> n\<lparr>rb_right := q\<rparr>)"

lemma ctx_at_holepar: "ctx_at h H e q C \<Longrightarrow> \<exists>n. h (holepar H C) = Some n"
  by (cases C) auto

lemma nodes_apartD:
  assumes "nodes_apart H (xs @ ys)"
  shows "nodes_apart H xs" "nodes_apart H ys" "addrs xs \<inter> addrs ys = {}"
  using assms by (auto simp: nodes_apart_def)

lemma ctx_at_set_hole:
  assumes "ctx_at h H e q C" "nodes_apart H (before C @ behind C)" "h (holepar H C) = Some n"
  shows "ctx_at (h(holepar H C \<mapsto> set_hole C q' n)) H e q' C"
proof (cases C)
  case CTop
  then show ?thesis using assms by (auto simp: set_hole_def)
next
  case (CLeft C' p c v r)
  then have "p \<noteq> H" "p \<notin> addrs (inord r)" "p \<notin> addrs (before C')" "p \<notin> addrs (behind C')"
    using assms(2) by (simp_all add: nodes_apart_def disjoint_iff) blast+
  then show ?thesis using assms(1,3) CLeft by (auto simp: set_hole_def)
next
  case (CRight C' p c v l)
  then have "p \<noteq> H" "p \<notin> addrs (inord l)" "p \<notin> addrs (before C')" "p \<notin> addrs (behind C')"
    using assms(2) by (simp_all add: nodes_apart_def disjoint_iff) blast+
  then show ?thesis using assms(1,3) CRight by (auto simp: set_hole_def)
qed

subsection \<open>The operations on nodes\<close>

lemma rd_Some [simp]: "h p = Some n \<Longrightarrow> rd f p h = Done (f n)"
  by (simp add: rd_def)

lemma wr_Some [simp]:
  "h p = Some n \<Longrightarrow> wr_color p c h = Done (h(p \<mapsto> n\<lparr>rb_color := c\<rparr>))"
  "h p = Some n \<Longrightarrow> wr_parent p q h = Done (h(p \<mapsto> n\<lparr>rb_parent := q\<rparr>))"
  "h p = Some n \<Longrightarrow> wr_left p q h = Done (h(p \<mapsto> n\<lparr>rb_left := q\<rparr>))"
  "h p = Some n \<Longrightarrow> wr_right p q h = Done (h(p \<mapsto> n\<lparr>rb_right := q\<rparr>))"
  by (simp_all add: wr_color_def wr_parent_def wr_left_def wr_right_def)

lemma rd_value_Some [simp]: "h p = Some n \<Longrightarrow> rb_value n = Some v \<Longrightarrow> rd_value p h = Done v"
  by (simp add: rd_value_def)

text \<open>The root pointer, given the pointer in the hole.\<close>

fun rootq :: "'v pc \<Rightarrow> rbp \<Rightarrow> rbp" where
  "rootq CTop q = q"
| "rootq (CLeft C p c v r) q = rootq C p"
| "rootq (CRight C p c v l) q = rootq C p"

lemma rootq_plug: "rootq C (rootp t) = rootp (plug C t)"
  by (induction C t rule: plug.induct) simp_all

lemma ctx_at_root: "ctx_at h H e q C \<Longrightarrow> \<exists>n. h H = Some n \<and> rb_parent n = rootq C q \<and> rb_left n = fst e \<and> rb_right n = snd e"
  by (induction h H e q C rule: ctx_at.induct) auto

lemma rd_root: "ctx_at h H e q C \<Longrightarrow> rd rb_parent H h = Done (rootq C q)"
  using ctx_at_root by fastforce

lemma rootq_in: "C \<noteq> CTop \<Longrightarrow> rootq C q \<in> addrs (before C) \<union> addrs (behind C)"
proof (induction C arbitrary: q)
  case (CLeft C p c v r)
  then show ?case by (cases "C = CTop") auto
next
  case (CRight C p c v l)
  then show ?case by (cases "C = CTop") auto
qed simp

lemma rootp_in: "t \<noteq> PLeaf \<Longrightarrow> rootp t \<in> addrs (inord t)"
  by (cases t) auto

lemma rootp_notin: "x \<noteq> 0 \<Longrightarrow> x \<notin> addrs (inord t) \<Longrightarrow> rootp t \<noteq> x"
  using rootp_in [of t] by (cases t) auto

text \<open>The three ways in which the source replaces a child at its parent.\<close>

lemma relink_Done:
  assumes "ctx_at h H e x C" "x \<noteq> 0" "x \<notin> addrs (before C)" "x \<notin> addrs (behind C)" "h (holepar H C) = Some n"
  shows "relink_left H (holepar H C) x y h = Done (h(holepar H C \<mapsto> set_hole C y n))"
    "relink_right H (holepar H C) x y h = Done (h(holepar H C \<mapsto> set_hole C y n))"
proof -
  have r: "x = rootq C x \<longleftrightarrow> C = CTop" using rootq_in [of C x] assms(3,4) by (cases "C = CTop") auto
  note root = rd_root [OF assms(1)]
  show "relink_left H (holepar H C) x y h = Done (h(holepar H C \<mapsto> set_hole C y n))"
  proof (cases C)
    case (CRight C' p c v l)
    then have "rootp l \<noteq> x" using assms(2,3) by (intro rootp_notin) auto
    then show ?thesis using assms(1,5) CRight r by (auto simp: set_hole_def relink_left_def root)
  qed (use assms(1,5) r in \<open>auto simp: set_hole_def relink_left_def root\<close>)
  show "relink_right H (holepar H C) x y h = Done (h(holepar H C \<mapsto> set_hole C y n))"
  proof (cases C)
    case (CLeft C' p c v l)
    then have "rootp l \<noteq> x" using assms(2,4) by (intro rootp_notin) auto
    then show ?thesis using assms(1,5) CLeft r by (auto simp: set_hole_def relink_right_def root)
  qed (use assms(1,5) r in \<open>auto simp: set_hole_def relink_right_def root\<close>)
qed

text \<open>Writes stay within a set of addresses.\<close>

definition only :: "rbp set \<Rightarrow> 'v rbheap \<Rightarrow> 'v rbheap \<Rightarrow> bool" where
  "only S h h' \<longleftrightarrow> (\<forall>q. q \<notin> S \<longrightarrow> h' q = h q)"

lemma only_refl [simp]: "only S h h"
  by (simp add: only_def)

lemma only_trans: "only S h h' \<Longrightarrow> only S h' h'' \<Longrightarrow> only S h h''"
  by (simp add: only_def)

definition extent :: "rbp \<Rightarrow> 'v pc \<Rightarrow> 'v pt \<Rightarrow> rbp set" where
  "extent H C t = insert H (addrs (before C @ inord t @ behind C))"

lemma extent_zip [simp]:
  "extent H (CLeft C p c v r) l = extent H C (PNode p c v l r)" "extent H (CRight C p c v l) r = extent H C (PNode p c v l r)"
  by (auto simp: extent_def)

subsection \<open>Rotations\<close>

lemma rotate_left:
  assumes "rb_at h H e C (PNode x cx vx a (PNode y cy vy b c))"
  shows "\<exists>h'. RbTreeRotateLeft H x h = Done h' \<and> rb_at h' H e C (PNode y cy vy (PNode x cx vx a b) c) \<and>
    only (extent H C (PNode x cx vx a (PNode y cy vy b c))) h h'"
proof -
  let ?d = "holepar H C"
  have ctx: "ctx_at h H e x C" and ap: "nodes_apart H (before C @ inord a @ (x, vx) # inord b @ (y, vy) # inord c @ behind C)"
    and hx: "h x = Some (mk_node cx ?d (rootp a) y (Some vx))" and hy: "h y = Some (mk_node cy x (rootp b) (rootp c) (Some vy))"
    and sub: "tree_at h x a" "tree_at h y b" "tree_at h y c"
    using assms by (simp_all add: rb_at_def)
  obtain n where n: "h ?d = Some n" using ctx_at_holepar [OF ctx] by blast
  have nz: "x \<noteq> 0" "y \<noteq> 0" "x \<noteq> y" "H \<noteq> x" "H \<noteq> y"
    and new: "x \<notin> addrs (before C)" "x \<notin> addrs (behind C)" "y \<notin> addrs (before C)" "y \<notin> addrs (behind C)"
      "x \<notin> addrs (inord a)" "x \<notin> addrs (inord b)" "x \<notin> addrs (inord c)" "y \<notin> addrs (inord a)" "y \<notin> addrs (inord b)" "y \<notin> addrs (inord c)"
    and dis: "addrs (inord b) \<inter> addrs (inord a) = {}" "addrs (inord b) \<inter> addrs (inord c) = {}"
      "addrs (inord b) \<inter> addrs (before C) = {}" "addrs (inord b) \<inter> addrs (behind C) = {}"
      "H \<notin> addrs (inord a)" "H \<notin> addrs (inord b)" "H \<notin> addrs (inord c)"
      "(addrs (before C) \<union> addrs (behind C)) \<inter> (addrs (inord a) \<union> addrs (inord b) \<union> addrs (inord c)) = {}"
    using ap by (auto simp: nodes_apart_def)
  have d: "?d \<noteq> x" "?d \<noteq> y" "?d \<notin> addrs (inord a)" "?d \<notin> addrs (inord b)" "?d \<notin> addrs (inord c)" "?d \<in> extent H C t" for t
    using holepar_in [of C H] nz new dis by (cases "C = CTop"; auto simp: extent_def)+
  have apc: "nodes_apart H (before C @ behind C)" using ap by (auto simp: nodes_apart_def)
  obtain h3 where h3: "ctx_at h3 H e x C" "h3 ?d = Some n" "tree_at h3 x a" "tree_at h3 x b" "tree_at h3 y c"
      "h3 x = Some (mk_node cx ?d (rootp a) (rootp b) (Some vx))" "h3 y = Some (mk_node cy ?d (rootp b) (rootp c) (Some vy))"
      "only (extent H C (PNode x cx vx a (PNode y cy vy b c))) h h3"
      "RbTreeRotateLeft H x h = obind (relink_left H ?d x y h3) (\<lambda>h. obind (wr_left y x h) (wr_parent x y))"
  proof (cases b)
    case PLeaf
    show ?thesis
    proof (rule that [of "h(x \<mapsto> mk_node cx ?d (rootp a) 0 (Some vx), y \<mapsto> mk_node cy ?d 0 (rootp c) (Some vy))"])
    qed (use ctx n hx hy sub nz new d PLeaf in \<open>simp_all add: RbTreeRotateLeft_def only_def extent_def\<close>)
  next
    case (PNode w cw vw b1 b2)
    have w: "w \<noteq> 0" "w \<noteq> x" "w \<noteq> y" "w \<noteq> ?d" "w \<noteq> H" "w \<notin> addrs (before C)" "w \<notin> addrs (behind C)" "w \<notin> addrs (inord a)"
        "w \<notin> addrs (inord b1)" "w \<notin> addrs (inord b2)" "w \<notin> addrs (inord c)"
      using ap d(4) PNode by (auto simp: nodes_apart_def)
    have hw: "h w = Some (mk_node cw y (rootp b1) (rootp b2) (Some vw))" using sub(2) PNode by simp
    show ?thesis
    proof (rule that [of "h(x \<mapsto> mk_node cx ?d (rootp a) w (Some vx), w \<mapsto> mk_node cw x (rootp b1) (rootp b2) (Some vw),
        y \<mapsto> mk_node cy ?d w (rootp c) (Some vy))"])
    qed (use ctx n hx hy hw sub nz new d w PNode in \<open>simp_all add: RbTreeRotateLeft_def only_def extent_def\<close>)
  qed
  let ?h' = "h3(?d \<mapsto> set_hole C y n, y \<mapsto> mk_node cy ?d x (rootp c) (Some vy), x \<mapsto> mk_node cx y (rootp a) (rootp b) (Some vx))"
  have "RbTreeRotateLeft H x h = Done ?h'"
    using h3 d nz by (simp add: relink_Done(1) [OF h3(1) nz(1) new(1,2) h3(2)])
  moreover have "ctx_at ?h' H e y C" using ctx_at_set_hole [OF h3(1) apc h3(2), of y] nz new by simp
  moreover have "tree_at ?h' ?d (PNode y cy vy (PNode x cx vx a b) c)"
    using h3 nz new d by simp
  moreover have "only (extent H C (PNode x cx vx a (PNode y cy vy b c))) h ?h'"
    using d(6) h3(8) by (auto simp: only_def extent_def)
  ultimately show ?thesis using ap by (simp add: rb_at_def)
qed

end
