(* ===== verification/Rb_Mirror.thy ===== *)
theory Rb_Mirror
  imports Rb_Heap
begin

text \<open>
  Left and right exchanged: what the source does on one side is the mirror image of what it
  does on the other, so that the second half of each case distinction follows from the first.
\<close>

definition mirror_node :: "'v rbnode \<Rightarrow> 'v rbnode" where
  "mirror_node n = n\<lparr>rb_left := rb_right n, rb_right := rb_left n\<rparr>"

definition mirror :: "'v rbheap \<Rightarrow> 'v rbheap" where
  "mirror h p = map_option mirror_node (h p)"

fun pmir :: "'v pt \<Rightarrow> 'v pt" where
  "pmir PLeaf = PLeaf"
| "pmir (PNode p c v l r) = PNode p c v (pmir r) (pmir l)"

fun cmir :: "'v pc \<Rightarrow> 'v pc" where
  "cmir CTop = CTop"
| "cmir (CLeft C p c v r) = CRight (cmir C) p c v (pmir r)"
| "cmir (CRight C p c v l) = CLeft (cmir C) p c v (pmir l)"

definition omap :: "('a \<Rightarrow> 'b) \<Rightarrow> 'a outcome \<Rightarrow> 'b outcome" where
  "omap f r = obind r (\<lambda>x. Done (f x))"

lemma omap_simps [simp]: "omap f (Done x) = Done (f x)" "omap f (Fault e) = Fault e"
  by (simp_all add: omap_def)

lemma omap_if: "omap f (if b then x else y) = (if b then omap f x else omap f y)"
  by simp

lemma obind_if: "obind (if b then x else y) f = (if b then obind x f else obind y f)"
  by simp

lemma omap_obind: "omap f (obind r g) = obind r (\<lambda>x. omap f (g x))"
  by (cases r) simp_all

lemma obind_omap: "obind (omap f r) g = obind r (\<lambda>x. g (f x))"
  by (cases r) simp_all

lemma mirror_node_fields [simp]:
  "rb_color (mirror_node n) = rb_color n" "rb_parent (mirror_node n) = rb_parent n" "rb_left (mirror_node n) = rb_right n"
  "rb_right (mirror_node n) = rb_left n" "rb_value (mirror_node n) = rb_value n" "mirror_node (mirror_node n) = n"
  by (simp_all add: mirror_node_def)

lemma mirror_mirror [simp]: "mirror (mirror h) = h"
  by (simp add: mirror_def fun_eq_iff option.map_comp comp_def option.map_ident)

lemma omap_mirror2 [simp]: "omap mirror (omap mirror r) = r"
  by (cases r) simp_all

lemma mirror_node_mk: "mirror_node (mk_node c p l r v) = mk_node c p r l v"
  by (simp add: mirror_node_def)

lemma mirror_Some [simp]: "mirror h p = Some n \<longleftrightarrow> h p = Some (mirror_node n)"
  by (cases "h p") (auto simp: mirror_def)

lemma inord_pmir [simp]: "inord (pmir t) = rev (inord t)"
  by (induction t) simp_all

lemma rootp_pmir [simp]: "rootp (pmir t) = rootp t"
  by (cases t) simp_all

lemma pmir_pmir [simp]: "pmir (pmir t) = t"
  by (induction t) simp_all

lemma cmir_cmir [simp]: "cmir (cmir C) = C"
  by (induction C) simp_all

lemma ends_cmir [simp]: "before (cmir C) = rev (behind C)" "behind (cmir C) = rev (before C)" "holepar H (cmir C) = holepar H C"
  by (induction C) simp_all

lemma tree_at_mirror [simp]: "tree_at (mirror h) q (pmir t) \<longleftrightarrow> tree_at h q t"
  by (induction t arbitrary: q) (auto simp: mirror_node_mk)

lemma ctx_at_mirror [simp]: "ctx_at (mirror h) H (prod.swap e) q (cmir C) \<longleftrightarrow> ctx_at h H e q C"
  by (induction C arbitrary: q) (auto simp: mirror_node_mk)

lemma addrs_rev [simp]: "addrs (rev xs) = addrs xs"
  by (simp only: addrs_def set_rev)

lemma nodes_apart_rev [simp]: "nodes_apart H (rev xs) = nodes_apart H xs"
  by (simp add: nodes_apart_def rev_map [symmetric])

lemma rb_at_mirror [simp]: "rb_at (mirror h) H (prod.swap e) (cmir C) (pmir t) \<longleftrightarrow> rb_at h H e C t"
proof -
  have "nodes_apart H (rev (behind C) @ rev (inord t) @ rev (before C)) = nodes_apart H (rev (before C @ inord t @ behind C))" by simp
  then show ?thesis by (simp add: rb_at_def del: rev_append)
qed

lemma extent_mirror [simp]: "extent H (cmir C) (pmir t) = extent H C t"
  by (auto simp: extent_def)

lemma only_mirror [simp]: "only S (mirror h) (mirror h') \<longleftrightarrow> only S h h'"
proof -
  have "only S h h' \<Longrightarrow> only S (mirror h) (mirror h')" for h h' :: "'a rbheap" by (simp add: only_def mirror_def)
  from this [of h h'] this [of "mirror h" "mirror h'"] show ?thesis by auto
qed

subsection \<open>The code\<close>

lemma mirror_upd: "mirror (h(p \<mapsto> n)) = (mirror h)(p \<mapsto> mirror_node n)"
  by (simp add: mirror_def fun_eq_iff)

lemma deref_mirror: "deref (mirror h) p = omap mirror_node (deref h p)"
  by (cases "h p") (simp_all add: deref_def mirror_def)

lemma rd_mirror [simp]:
  "rd rb_left p (mirror h) = rd rb_right p h" "rd rb_right p (mirror h) = rd rb_left p h"
  "rd rb_parent p (mirror h) = rd rb_parent p h" "rd rb_color p (mirror h) = rd rb_color p h"
  by (simp_all add: rd_def deref_mirror obind_omap)

lemma wr_mirror [simp]:
  "wr_left p q (mirror h) = omap mirror (wr_right p q h)" "wr_right p q (mirror h) = omap mirror (wr_left p q h)"
  "wr_parent p q (mirror h) = omap mirror (wr_parent p q h)" "wr_color p c (mirror h) = omap mirror (wr_color p c h)"
  by (cases "h p"; simp add: wr_left_def wr_right_def wr_parent_def wr_color_def modify_def mirror_def fun_eq_iff mirror_node_def)+

lemma relink_mirror [simp]:
  "relink_left H p x y (mirror h) = omap mirror (relink_right H p x y h)"
  by (simp add: relink_left_def relink_right_def omap_obind omap_if cong: if_cong)

lemma rotate_mirror: "RbTreeRotateRight H x h = omap mirror (RbTreeRotateLeft H x (mirror h))"
proof -
  have "omap mirror (RbTreeRotateLeft H x (mirror h)) = RbTreeRotateRight H x h"
    by (simp add: RbTreeRotateLeft_def RbTreeRotateRight_def omap_obind obind_omap obind_if omap_if cong: if_cong)
  then show ?thesis by simp
qed

lemma rotate_right:
  assumes "rb_at h H e C (PNode x cx vx (PNode y cy vy a b) c)"
  shows "\<exists>h'. RbTreeRotateRight H x h = Done h' \<and> rb_at h' H e C (PNode y cy vy a (PNode x cx vx b c)) \<and>
    only (extent H C (PNode x cx vx (PNode y cy vy a b) c)) h h'"
proof -
  have "rb_at (mirror h) H (prod.swap e) (cmir C) (PNode x cx vx (pmir c) (PNode y cy vy (pmir b) (pmir a)))"
    using rb_at_mirror [of h H e C "PNode x cx vx (PNode y cy vy a b) c"] assms by (simp del: rb_at_mirror)
  from rotate_left [OF this] obtain h' where h': "RbTreeRotateLeft H x (mirror h) = Done h'"
      "rb_at h' H (prod.swap e) (cmir C) (pmir (PNode y cy vy a (PNode x cx vx b c)))"
      "only (extent H (cmir C) (pmir (PNode x cx vx (PNode y cy vy a b) c))) (mirror h) h'" by auto
  have "rb_at (mirror h') H e C (PNode y cy vy a (PNode x cx vx b c))"
    using h'(2) rb_at_mirror [of "mirror h'" H e C "PNode y cy vy a (PNode x cx vx b c)"] by (simp del: rb_at_mirror)
  moreover have "only (extent H C (PNode x cx vx (PNode y cy vy a b) c)) h (mirror h')"
    using h'(3) only_mirror [of "extent H C (PNode x cx vx (PNode y cy vy a b) c)" h "mirror h'"]
    unfolding extent_mirror by simp
  ultimately show ?thesis using h'(1) by (simp add: rotate_mirror)
qed

end
