(* ===== verification/Rb_Insert.thy ===== *)
theory Rb_Insert
  imports Rb_Mirror
begin

text \<open>
  Insertion into the red-black tree: the loop of \<open>RbTreeRebalance\<close> restores the invariants, and
  \<open>insert_unique\<close> adds a value at its place in the order or finds it there.
\<close>

subsection \<open>The invariants\<close>

fun isblack :: "'v pt \<Rightarrow> bool" where
  "isblack PLeaf = True"
| "isblack (PNode p c v l r) = (c = kBlack)"

text \<open>Black height \<open>n\<close>, and no red node with a red child.\<close>

fun rb :: "nat \<Rightarrow> 'v pt \<Rightarrow> bool" where
  "rb n PLeaf = (n = 0)"
| "rb n (PNode p kRed v l r) = (rb n l \<and> rb n r \<and> isblack l \<and> isblack r)"
| "rb n (PNode p kBlack v l r) = (\<exists>m. n = Suc m \<and> rb m l \<and> rb m r)"

fun pblack :: "'v pc \<Rightarrow> bool" where
  "pblack CTop = False"
| "pblack (CLeft C p c v r) = (c = kBlack)"
| "pblack (CRight C p c v l) = (c = kBlack)"

text \<open>A tree with a hole for a tree of black height \<open>n\<close>; its own root is black.\<close>

fun crb :: "nat \<Rightarrow> 'v pc \<Rightarrow> bool" where
  "crb n CTop = True"
| "crb n (CLeft C p c v r) = (rb n r \<and> (case c of kRed \<Rightarrow> isblack r \<and> pblack C \<and> crb n C | kBlack \<Rightarrow> crb (Suc n) C))"
| "crb n (CRight C p c v l) = (rb n l \<and> (case c of kRed \<Rightarrow> isblack l \<and> pblack C \<and> crb n C | kBlack \<Rightarrow> crb (Suc n) C))"

lemma crb_plug: "crb n C \<Longrightarrow> rb n t \<Longrightarrow> isblack t \<or> pblack C \<or> C = CTop \<Longrightarrow> \<exists>m. rb m (plug C t)"
proof (induction C t arbitrary: n rule: plug.induct)
  case (2 C p c v r t)
  then show ?case by (cases c) auto
next
  case (3 C p c v l t)
  then show ?case by (cases c) auto
qed auto

fun blacken :: "'v pt \<Rightarrow> 'v pt" where
  "blacken PLeaf = PLeaf"
| "blacken (PNode p c v l r) = PNode p kBlack v l r"

lemma rb_blacken: "rb n t \<Longrightarrow> \<exists>m. rb m (blacken t)"
  by (cases t; cases "case t of PNode p c v l r \<Rightarrow> c | PLeaf \<Rightarrow> kBlack") auto

lemma blacken_simps [simp]: "inord (blacken t) = inord t" "isblack (blacken t)"
  by (cases t; simp)+

lemma rb_pmir [simp]: "rb n (pmir t) = rb n t" "isblack (pmir t) = isblack t"
proof -
  show b: "isblack (pmir t) = isblack t" for t :: "'a pt" by (cases t) simp_all
  show "rb n (pmir t) = rb n t" by (induction n t rule: rb.induct) (auto simp: b)
qed

lemma crb_cmir [simp]: "pblack (cmir C) = pblack C" "crb n (cmir C) = crb n C"
proof -
  show b: "pblack (cmir C) = pblack C" for C :: "'a pc" by (cases C) simp_all
  show "crb n (cmir C) = crb n C" by (induction n C rule: crb.induct) (auto simp: b split: RbTreeColor.split)
qed

subsection \<open>Reading and colouring a node\<close>

lemma rb_at_look:
  "rb_at h H e C (PNode p c v l r) \<Longrightarrow> h p = Some (mk_node c (holepar H C) (rootp l) (rootp r) (Some v))"
  by (simp add: rb_at_def)

lemma rb_at_color:
  assumes "rb_at h H e C (PNode p c v l r)"
  shows "\<exists>h'. wr_color p c' h = Done h' \<and> rb_at h' H e C (PNode p c' v l r) \<and> only (extent H C (PNode p c v l r)) h h'"
proof -
  have "p \<noteq> H" "p \<notin> addrs (before C)" "p \<notin> addrs (behind C)" "p \<notin> addrs (inord l)" "p \<notin> addrs (inord r)"
    using assms by (auto simp: rb_at_def nodes_apart_def)
  then show ?thesis
    using assms by (intro exI [of _ "h(p \<mapsto> mk_node c' (holepar H C) (rootp l) (rootp r) (Some v))"])
      (auto simp: rb_at_def only_def extent_def)
qed

lemma rb_at_root: "rb_at h H e C t \<Longrightarrow> rd rb_parent H h = Done (rootp (plug C t))"
  using rd_root [of h H e "rootp t" C] by (simp add: rb_at_def rootq_plug)

lemma rb_at_rootp_nz: "rb_at h H e C (PNode p c v l r) \<Longrightarrow> p \<noteq> 0 \<and> p \<noteq> H"
  by (auto simp: rb_at_def nodes_apart_def)

lemma is_red_at:
  assumes "rb_at h H e C t"
  shows "is_red (rootp t) h = Done (\<not> isblack t)"
proof (cases t)
  case (PNode p c v l r)
  then show ?thesis using rb_at_look [of h H e C p c v l r] rb_at_rootp_nz [of h H e C p c v l r] assms
    by (cases c) (simp_all add: is_red_def)
qed (simp add: is_red_def)

lemma rb_at_root_focus:
  assumes "rb_at h H e C (PNode p c v l r)"
  shows "p = rootp (plug C (PNode p c v l r)) \<longleftrightarrow> C = CTop"
proof -
  have "p \<notin> addrs (before C)" "p \<notin> addrs (behind C)" using assms by (auto simp: rb_at_def nodes_apart_def)
  then show ?thesis using rootq_in [of C p] rootq_plug [of C "PNode p c v l r"] by (cases "C = CTop") auto
qed

lemma rd_parent_at: "rb_at h H e C t \<Longrightarrow> t \<noteq> PLeaf \<Longrightarrow> rd rb_parent (rootp t) h = Done (holepar H C)"
  by (cases t) (simp_all add: rb_at_def)

text \<open>One of the two children of a node.\<close>

lemma rd_parent_child:
  assumes "rb_at h H e C (PNode p c v l r)" "s \<in> {l, r}" "s \<noteq> PLeaf"
  shows "rd rb_parent (rootp s) h = Done p"
  using rd_parent_at [of h H e "CLeft C p c v r" l] rd_parent_at [of h H e "CRight C p c v l" r] assms by auto

subsection \<open>A round of the loop\<close>

lemma recolor_at:
  assumes "rb_at h H e C (PNode g gc gv (PNode p pc pv l r) (PNode y yc yv u1 u2))" "s \<in> {l, r}" "s \<noteq> PLeaf"
  shows "\<exists>h'. recolor (rootp s) y h = Done (g, h') \<and>
    rb_at h' H e C (PNode g kRed gv (PNode p kBlack pv l r) (PNode y kBlack yv u1 u2)) \<and>
    only (extent H C (PNode g gc gv (PNode p pc pv l r) (PNode y yc yv u1 u2))) h h'"
proof -
  let ?S = "extent H C (PNode g gc gv (PNode p pc pv l r) (PNode y yc yv u1 u2))"
  have 0: "rb_at h H e (CLeft C g gc gv (PNode y yc yv u1 u2)) (PNode p pc pv l r)" using assms(1) by simp
  obtain h1 where h1: "wr_color p kBlack h = Done h1" "rb_at h1 H e (CRight C g gc gv (PNode p kBlack pv l r)) (PNode y yc yv u1 u2)" "only ?S h h1"
    using rb_at_color [OF 0, of kBlack] by auto
  obtain h2 where h2: "wr_color y kBlack h1 = Done h2" "rb_at h2 H e C (PNode g gc gv (PNode p kBlack pv l r) (PNode y kBlack yv u1 u2))" "only ?S h1 h2"
    using rb_at_color [OF h1(2), of kBlack] by (auto simp: extent_def)
  obtain h3 where h3: "wr_color g kRed h2 = Done h3" "rb_at h3 H e C (PNode g kRed gv (PNode p kBlack pv l r) (PNode y kBlack yv u1 u2))" "only ?S h2 h3"
    using rb_at_color [OF h2(2), of kRed] by (auto simp: extent_def)
  have 2: "rb_at h2 H e (CLeft C g gc gv (PNode y kBlack yv u1 u2)) (PNode p kBlack pv l r)" using h2(2) by simp
  have "rd rb_parent (rootp s) h = Done p" "rd rb_parent (rootp s) h2 = Done p" "rd rb_parent p h2 = Done g"
    using rd_parent_child [OF 0 assms(2,3)] rd_parent_child [OF 2 assms(2,3)] rb_at_look [OF 2] by simp_all
  then have "recolor (rootp s) y h = Done (g, h3)" using h1(1) h2(1) h3(1) by (simp add: recolor_def)
  then show ?thesis using h3(2) only_trans [OF only_trans [OF h1(3) h2(3)] h3(3)] by blast
qed

text \<open>The node is the outer grandchild; its uncle is black.\<close>

lemma finish_at:
  assumes "rb_at h H e C (PNode g gc gv (PNode p pc pv l r) u)" "l \<noteq> PLeaf"
  shows "\<exists>h'. finish (RbTreeRotateRight H) (rootp l) h = Done (rootp l, h') \<and>
    rb_at h' H e C (PNode p kBlack pv l (PNode g kRed gv r u)) \<and> only (extent H C (PNode g gc gv (PNode p pc pv l r) u)) h h'"
proof -
  let ?S = "extent H C (PNode g gc gv (PNode p pc pv l r) u)"
  have 0: "rb_at h H e (CLeft C g gc gv u) (PNode p pc pv l r)" using assms(1) by simp
  obtain h1 where h1: "wr_color p kBlack h = Done h1" "rb_at h1 H e C (PNode g gc gv (PNode p kBlack pv l r) u)" "only ?S h h1"
    using rb_at_color [OF 0, of kBlack] by auto
  obtain h2 where h2: "wr_color g kRed h1 = Done h2" "rb_at h2 H e C (PNode g kRed gv (PNode p kBlack pv l r) u)" "only ?S h1 h2"
    using rb_at_color [OF h1(2), of kRed] by (auto simp: extent_def)
  obtain h3 where h3: "RbTreeRotateRight H g h2 = Done h3" "rb_at h3 H e C (PNode p kBlack pv l (PNode g kRed gv r u))" "only ?S h2 h3"
    using rotate_right [OF h2(2)] by (auto simp: extent_def)
  have 1: "rb_at h1 H e (CLeft C g gc gv u) (PNode p kBlack pv l r)" using h1(2) by simp
  have "rd rb_parent (rootp l) h = Done p" "rd rb_parent (rootp l) h1 = Done p" "rd rb_parent p h1 = Done g"
    using rd_parent_child [OF 0 _ assms(2)] rd_parent_child [OF 1 _ assms(2)] rb_at_look [OF 1] by simp_all
  then have "finish (RbTreeRotateRight H) (rootp l) h = Done (rootp l, h3)" using h1(1) h2(1) h3(1) by (simp add: finish_def)
  then show ?thesis using h3(2) only_trans [OF only_trans [OF h1(3) h2(3)] h3(3)] by blast
qed

text \<open>
  The result of a round when the parent is the left child of the grandparent: the node to go on
  with and the subtree in the place of the grandparent.
\<close>

fun round_left :: "rbp \<Rightarrow> 'v \<Rightarrow> rbp \<Rightarrow> 'v \<Rightarrow> 'v pt \<Rightarrow> 'v pt \<Rightarrow> 'v pt \<Rightarrow> bool \<Rightarrow> rbp \<times> 'v pt" where
  "round_left g gv p pv l r (PNode y kRed yv u1 u2) outer = (g, PNode g kRed gv (PNode p kBlack pv l r) (PNode y kBlack yv u1 u2))"
| "round_left g gv p pv l r u True = (rootp l, PNode p kBlack pv l (PNode g kRed gv r u))"
| "round_left g gv p pv l (PNode x xc xv a b) u False = (p, PNode x kBlack xv (PNode p kRed pv l a) (PNode g kRed gv b u))"
| "round_left g gv p pv l PLeaf u False = (p, PLeaf)"

lemma body_left:
  assumes "rb_at h H e C (PNode g gc gv (PNode p kRed pv l r) u)" "s \<noteq> PLeaf" "s = (if outer then l else r)"
    and "(x', t') = round_left g gv p pv l r u outer"
  shows "\<exists>h'. rebalance_body H (rootp s, h) = Done (x', h') \<and> rb_at h' H e C t' \<and>
    only (extent H C (PNode g gc gv (PNode p kRed pv l r) u)) h h'"
proof -
  let ?S = "extent H C (PNode g gc gv (PNode p kRed pv l r) u)"
  have 0: "rb_at h H e (CLeft C g gc gv u) (PNode p kRed pv l r)" and 1: "rb_at h H e (CRight C g gc gv (PNode p kRed pv l r)) u"
    using assms(1) by simp_all
  have look: "rd rb_parent (rootp s) h = Done p" "rd rb_parent p h = Done g" "rd rb_left g h = Done p" "rd rb_right g h = Done (rootp u)"
      "rd rb_right p h = Done (rootp r)" "is_red (rootp u) h = Done (\<not> isblack u)"
    using rd_parent_child [OF 0 _ assms(2)] rb_at_look [OF 0] rb_at_look [OF assms(1)] is_red_at [OF 1] assms(3) by auto
  show ?thesis
  proof (cases "isblack u")
    case False
    then obtain y yv u1 u2 where u: "u = PNode y kRed yv u1 u2" by (cases u rule: isblack.cases; cases "case u of PNode p c v l r \<Rightarrow> c | PLeaf \<Rightarrow> kBlack") auto
    have r: "x' = g" "t' = PNode g kRed gv (PNode p kBlack pv l r) (PNode y kBlack yv u1 u2)" using assms(4) u by simp_all
    show ?thesis using recolor_at [OF assms(1) [unfolded u] _ assms(2)] assms(3) look False u r by (auto simp: rebalance_body_def)
  next
    case True
    show ?thesis
    proof (cases outer)
      case out: True
      have "rootp l \<noteq> rootp r"
        using assms(1-3) out by (cases l; cases r) (auto simp: rb_at_def nodes_apart_def)
      then have "rebalance_body H (rootp s, h) = finish (RbTreeRotateRight H) (rootp l) h"
        using look True out assms(3) by (simp add: rebalance_body_def)
      moreover have "x' = rootp l" "t' = PNode p kBlack pv l (PNode g kRed gv r u)"
        using assms(4) True out by (cases u rule: isblack.cases; simp)+
      ultimately show ?thesis using finish_at [OF assms(1)] assms(2,3) out by auto
    next
      case inn: False
      then obtain x xc xv a b where r: "r = PNode x xc xv a b" using assms(2,3) by (cases r) auto
      obtain h1 where h1: "RbTreeRotateLeft H p h = Done h1" "rb_at h1 H e C (PNode g gc gv (PNode x xc xv (PNode p kRed pv l a) b) u)" "only ?S h h1"
        using rotate_left [OF 0 [unfolded r]] r by auto
      have t: "x' = p" "t' = PNode x kBlack xv (PNode p kRed pv l a) (PNode g kRed gv b u)"
        using assms(4) True inn r by (cases u rule: isblack.cases; simp)+
      obtain h2 where h2: "finish (RbTreeRotateRight H) p h1 = Done (p, h2)" "rb_at h2 H e C t'" "only ?S h1 h2"
        using finish_at [OF h1(2)] t by (auto simp: extent_def r)
      have "rebalance_body H (rootp s, h) = Done (p, h2)"
        using look True inn assms(3) r h1(1) h2(1) by (simp add: rebalance_body_def)
      then show ?thesis using h2 t only_trans [OF h1(3) h2(3)] by blast
    qed
  qed
qed

subsection \<open>The other side\<close>

lemma rotates_mirror [simp]:
  "RbTreeRotateLeft H x (mirror h) = omap mirror (RbTreeRotateRight H x h)"
  "RbTreeRotateRight H x (mirror h) = omap mirror (RbTreeRotateLeft H x h)"
  by (simp_all add: rotate_mirror)

lemma is_red_mirror [simp]: "is_red p (mirror h) = is_red p h"
  by (simp add: is_red_def)

lemma recolor_mirror: "recolor x y (mirror h) = omap (apsnd mirror) (recolor x y h)"
  by (simp add: recolor_def omap_obind obind_omap)

lemma finish_mirror:
  "finish (RbTreeRotateRight H) x (mirror h) = omap (apsnd mirror) (finish (RbTreeRotateLeft H) x h)"
  by (simp add: finish_def omap_obind obind_omap)

lemma body_mirror:
  assumes "rd rb_parent x h = Done p" "rd rb_parent p h = Done g" "rd rb_left g h = Done q" "rd rb_right g h = Done p" "q \<noteq> p"
  shows "rebalance_body H (x, h) = omap (apsnd mirror) (rebalance_body H (x, mirror h))"
proof -
  have d: "omap (apsnd mirror) (omap (apsnd mirror) r) = r" for r :: "(rbp \<times> 'a rbheap) outcome"
    by (cases r) (simp_all add: apsnd_def map_prod_def split: prod.splits)
  have "rebalance_body H (x, mirror h) = omap (apsnd mirror) (rebalance_body H (x, h))"
    using assms
    by (simp add: rebalance_body_def omap_obind obind_omap omap_if obind_if obind_assoc recolor_mirror finish_mirror cong: if_cong)
  then show ?thesis using d by simp
qed

lemma body_right:
  assumes "rb_at h H e C (PNode g gc gv u (PNode p kRed pv r l))" "s \<noteq> PLeaf" "s = (if outer then l else r)"
    and "(x', t') = round_left g gv p pv (pmir l) (pmir r) (pmir u) outer"
  shows "\<exists>h'. rebalance_body H (rootp s, h) = Done (x', h') \<and> rb_at h' H e C (pmir t') \<and>
    only (extent H C (PNode g gc gv u (PNode p kRed pv r l))) h h'"
proof -
  let ?G = "PNode g gc gv u (PNode p kRed pv r l)"
  have m: "rb_at (mirror h) H (prod.swap e) (cmir C) (PNode g gc gv (PNode p kRed pv (pmir l) (pmir r)) (pmir u))"
    using rb_at_mirror [of h H e C ?G] assms(1) by (simp del: rb_at_mirror)
  have s: "pmir s \<noteq> PLeaf" "pmir s = (if outer then pmir l else pmir r)" using assms(2,3) by (cases s; auto)+
  obtain h' where h': "rebalance_body H (rootp s, mirror h) = Done (x', h')" "rb_at h' H (prod.swap e) (cmir C) t'"
      "only (extent H (cmir C) (pmir ?G)) (mirror h) h'"
    using body_left [OF m s assms(4)] by auto
  have 0: "rb_at h H e (CRight C g gc gv u) (PNode p kRed pv r l)" using assms(1) by simp
  have "rootp u \<noteq> p" using assms(1) by (cases u) (auto simp: rb_at_def nodes_apart_def)
  moreover have "rd rb_parent (rootp s) h = Done p" "rd rb_parent p h = Done g" "rd rb_left g h = Done (rootp u)" "rd rb_right g h = Done p"
    using rd_parent_child [OF 0 _ assms(2)] rb_at_look [OF 0] rb_at_look [OF assms(1)] assms(3) by auto
  ultimately have "rebalance_body H (rootp s, h) = Done (x', mirror h')" using body_mirror h'(1) by fastforce
  moreover have "rb_at (mirror h') H e C (pmir t')"
    using h'(2) rb_at_mirror [of "mirror h'" H e C "pmir t'"] by (simp del: rb_at_mirror)
  moreover have "only (extent H C ?G) h (mirror h')"
    using h'(3) only_mirror [of "extent H C ?G" h "mirror h'"] unfolding extent_mirror by simp
  ultimately show ?thesis by blast
qed

subsection \<open>The loop\<close>

lemma cond_at:
  assumes "rb_at h H e C (PNode x c v l r)"
  shows "rebalance_cond H (x, h) = Done (C \<noteq> CTop \<and> \<not> pblack C)"
proof (cases "C = CTop")
  case True
  then show ?thesis using assms rb_at_root [OF assms] by (simp add: rebalance_cond_def)
next
  case False
  have "rd rb_color (holepar H C) h = Done (if pblack C then kBlack else kRed)"
  proof (cases C)
    case (CLeft C' p pc pv pr)
    then show ?thesis using assms rb_at_look [of h H e C' p pc pv "PNode x c v l r" pr] by (cases pc) simp_all
  next
    case (CRight C' p pc pv pl)
    then show ?thesis using assms rb_at_look [of h H e C' p pc pv pl "PNode x c v l r"] by (cases pc) simp_all
  qed (use False in simp)
  then show ?thesis
    using False rb_at_root [OF assms] rb_at_root_focus [OF assms] rb_at_look [OF assms] by (simp add: rebalance_cond_def)
qed

text \<open>
  What a round achieves: either the grandparent is red now and the loop goes on from it, or
  the subtree is in order, its root is black, and the parent of the node to go on with is black.
\<close>

definition round_done :: "nat \<Rightarrow> rbp \<Rightarrow> 'v pt \<Rightarrow> bool" where
  "round_done n x' t' \<longleftrightarrow>
     (\<exists>v l r. t' = PNode x' kRed v l r \<and> rb n l \<and> rb n r \<and> isblack l \<and> isblack r) \<or>
     (rb n t' \<and> isblack t' \<and> (\<exists>C v l r. t' = plug C (PNode x' kRed v l r) \<and> pblack C \<and> C \<noteq> CTop))"

lemma round_left_done:
  assumes "(x', t') = round_left g gv p pv l r u outer" "(if outer then l else r) = PNode x kRed xv a b"
    and "rb n l" "rb n r" "rb n u" "isblack (if outer then r else l)"
  shows "round_done (Suc n) x' t' \<and> inord t' = inord l @ (p, pv) # inord r @ (g, gv) # inord u"
proof (cases "isblack u")
  case False
  then obtain y yv u1 u2 where "u = PNode y kRed yv u1 u2"
    by (cases u rule: isblack.cases; cases "case u of PNode p c v l r \<Rightarrow> c | PLeaf \<Rightarrow> kBlack") auto
  then show ?thesis using assms by (simp add: round_done_def)
next
  case True
  show ?thesis
  proof (cases outer)
    case out: True
    then have t: "x' = x" "t' = PNode p kBlack pv l (PNode g kRed gv r u)" "l = PNode x kRed xv a b"
      using assms(1,2) True by (cases u rule: isblack.cases; simp)+
    then have "t' = plug (CLeft CTop p kBlack pv (PNode g kRed gv r u)) (PNode x' kRed xv a b)" by simp
    moreover have "pblack (CLeft CTop p kBlack pv (PNode g kRed gv r u))" by simp
    ultimately have "\<exists>C v l r. t' = plug C (PNode x' kRed v l r) \<and> pblack C \<and> C \<noteq> CTop" by blast
    then show ?thesis using t(2) assms(3-6) True out by (simp add: round_done_def)
  next
    case inn: False
    then have t: "x' = p" "t' = PNode x kBlack xv (PNode p kRed pv l a) (PNode g kRed gv b u)" "r = PNode x kRed xv a b"
      using assms(1,2) True by (cases u rule: isblack.cases; simp)+
    then have "t' = plug (CLeft CTop x kBlack xv (PNode g kRed gv b u)) (PNode x' kRed pv l a)" by simp
    moreover have "pblack (CLeft CTop x kBlack xv (PNode g kRed gv b u))" by simp
    ultimately have "\<exists>C v l r. t' = plug C (PNode x' kRed v l r) \<and> pblack C \<and> C \<noteq> CTop" by blast
    then show ?thesis using t(2,3) assms(3-6) True inn by (simp add: round_done_def)
  qed
qed

lemma pmir_plug: "pmir (plug C t) = plug (cmir C) (pmir t)"
  by (induction C t rule: plug.induct) simp_all

lemma round_done_pmir: "round_done n x' t' \<Longrightarrow> round_done n x' (pmir t')"
proof -
  assume "round_done n x' t'"
  then consider v l r where "t' = PNode x' kRed v l r" "rb n l" "rb n r" "isblack l" "isblack r"
    | C v l r where "rb n t'" "isblack t'" "t' = plug C (PNode x' kRed v l r)" "pblack C" "C \<noteq> CTop"
    unfolding round_done_def by blast
  then show ?thesis
  proof cases
    case 1
    then show ?thesis by (simp add: round_done_def)
  next
    case 2
    then have "pmir t' = plug (cmir C) (PNode x' kRed v (pmir r) (pmir l))" "pblack (cmir C)" "cmir C \<noteq> CTop"
      by (simp_all add: pmir_plug) (cases C; simp)
    then show ?thesis using 2(1,2) unfolding round_done_def by (metis rb_pmir)
  qed
qed

text \<open>One round from a red node with a red parent.\<close>

lemma round_at:
  assumes "rb_at h H e C (PNode x kRed xv a b)" "crb n C" "rb n a" "rb n b" "isblack a" "isblack b" "C \<noteq> CTop" "\<not> pblack C"
  shows "\<exists>x' h' t' C'. rebalance_body H (x, h) = Done (x', h') \<and> rb_at h' H e C' t' \<and> round_done (Suc n) x' t' \<and>
    crb (Suc n) C' \<and> size C' < size C \<and> inord (plug C' t') = inord (plug C (PNode x kRed xv a b)) \<and>
    only (extent H C (PNode x kRed xv a b)) h h'"
proof -
  let ?X = "PNode x kRed xv a b"
  have X: "rb n ?X" "?X \<noteq> PLeaf" using assms(3-6) by simp_all
  obtain C1 p pv s where C: "C = CLeft C1 p kRed pv s \<or> C = CRight C1 p kRed pv s" and s: "rb n s" "isblack s" "pblack C1" "crb n C1"
    using assms(2,7,8) by (cases C; cases "case C of CLeft _ _ c _ _ \<Rightarrow> c | CRight _ _ c _ _ \<Rightarrow> c | CTop \<Rightarrow> kBlack") auto
  obtain C2 g gv u where C1: "C1 = CLeft C2 g kBlack gv u \<or> C1 = CRight C2 g kBlack gv u" and u: "rb n u" "crb (Suc n) C2"
    using s(3,4) by (cases C1) auto
  have sz: "size C2 < size C" using C C1 by auto
  show ?thesis
  proof (cases "C1 = CLeft C2 g kBlack gv u")
    case True
    obtain l r outer where lr: "rb_at h H e C2 (PNode g kBlack gv (PNode p kRed pv l r) u)" "?X = (if outer then l else r)"
        "isblack (if outer then r else l)" "rb n l" "rb n r" "plug C ?X = plug C2 (PNode g kBlack gv (PNode p kRed pv l r) u)"
        "extent H C ?X = extent H C2 (PNode g kBlack gv (PNode p kRed pv l r) u)"
    proof (cases "C = CLeft C1 p kRed pv s")
      case t: True
      show ?thesis by (rule that [of ?X s True]) (use assms(1) X s t True in simp_all)
    next
      case f: False
      show ?thesis by (rule that [of s ?X False]) (use assms(1) X s f C True in auto)
    qed
    obtain x' t' where r: "(x', t') = round_left g gv p pv l r u outer" by (metis surj_pair)
    obtain h' where h': "rebalance_body H (x, h) = Done (x', h')" "rb_at h' H e C2 t'" "only (extent H C ?X) h h'"
      using body_left [OF lr(1) X(2) lr(2) r] lr(7) by auto
    have "round_done (Suc n) x' t' \<and> inord t' = inord l @ (p, pv) # inord r @ (g, gv) # inord u"
      by (rule round_left_done [OF r lr(2) [symmetric] lr(4,5) u(1) lr(3)])
    then show ?thesis using h' lr(6) u(2) sz by (intro exI [of _ x'] exI [of _ h'] exI [of _ t'] exI [of _ C2]) (simp add: inord_plug)
  next
    case False
    obtain l r outer where lr: "rb_at h H e C2 (PNode g kBlack gv u (PNode p kRed pv r l))" "?X = (if outer then l else r)"
        "isblack (if outer then r else l)" "rb n l" "rb n r" "plug C ?X = plug C2 (PNode g kBlack gv u (PNode p kRed pv r l))"
        "extent H C ?X = extent H C2 (PNode g kBlack gv u (PNode p kRed pv r l))"
    proof (cases "C = CRight C1 p kRed pv s")
      case t: True
      show ?thesis by (rule that [of s ?X True]) (use assms(1) X s t C1 False in auto)
    next
      case f: False
      show ?thesis by (rule that [of ?X s False]) (use assms(1) X s f C C1 False in auto)
    qed
    obtain x' t' where r: "(x', t') = round_left g gv p pv (pmir l) (pmir r) (pmir u) outer" by (metis surj_pair)
    obtain h' where h': "rebalance_body H (x, h) = Done (x', h')" "rb_at h' H e C2 (pmir t')" "only (extent H C ?X) h h'"
      using body_right [OF lr(1) X(2) lr(2) r] lr(7) by auto
    have m: "(if outer then pmir l else pmir r) = PNode x kRed xv (pmir b) (pmir a)" "isblack (if outer then pmir r else pmir l)"
      using lr(2,3) by (auto split: if_splits dest: arg_cong [of _ _ pmir])
    have "round_done (Suc n) x' t' \<and> inord t' = inord (pmir l) @ (p, pv) # inord (pmir r) @ (g, gv) # inord (pmir u)"
      by (rule round_left_done [OF r m(1) _ _ _ m(2)]) (use lr(4,5) u(1) in simp_all)
    then show ?thesis using h' lr(6) u(2) sz round_done_pmir [of "Suc n" x' t']
      by (intro exI [of _ x'] exI [of _ h'] exI [of _ "pmir t'"] exI [of _ C2]) (simp add: inord_plug)
  qed
qed

text \<open>A hole within a hole.\<close>

fun cc :: "'v pc \<Rightarrow> 'v pc \<Rightarrow> 'v pc" where
  "cc C CTop = C"
| "cc C (CLeft D p c v r) = CLeft (cc C D) p c v r"
| "cc C (CRight D p c v l) = CRight (cc C D) p c v l"

lemma rb_at_cc: "rb_at h H e (cc C D) t \<longleftrightarrow> rb_at h H e C (plug D t)"
  by (induction D t rule: plug.induct) simp_all

lemma pblack_cc: "D \<noteq> CTop \<Longrightarrow> pblack (cc C D) = pblack D"
  by (cases D) simp_all

lemma rebalance_loop:
  assumes "rb_at h H e C (PNode x kRed xv a b)" "crb n C" "rb n a" "rb n b" "isblack a" "isblack b"
  shows "\<exists>x' h' t'. while_do (rebalance_cond H) (rebalance_body H) (x, h) = Done (x', h') \<and> rb_at h' H e CTop t' \<and>
    inord t' = inord (plug C (PNode x kRed xv a b)) \<and> (\<exists>m. rb m t') \<and> only (extent H C (PNode x kRed xv a b)) h h'"
  using assms
proof (induction C arbitrary: h x xv a b n rule: measure_induct_rule [of size])
  case (less C)
  let ?X = "PNode x kRed xv a b"
  note cond = cond_at [OF less.prems(1)]
  show ?case
  proof (cases "C = CTop \<or> pblack C")
    case True
    then have "while_do (rebalance_cond H) (rebalance_body H) (x, h) = Done (x, h)" using cond by (subst while_do_unfold) auto
    moreover have "\<exists>m. rb m (plug C ?X)" using crb_plug [OF less.prems(2), of ?X] less.prems True by auto
    moreover have "rb_at h H e CTop (plug C ?X)" using less.prems(1) rb_at_plug [of h H e C ?X] by simp
    ultimately show ?thesis by (intro exI [of _ x] exI [of _ h] exI [of _ "plug C ?X"]) simp
  next
    case False
    obtain x' h1 t' C' where r: "rebalance_body H (x, h) = Done (x', h1)" "rb_at h1 H e C' t'" "round_done (Suc n) x' t'"
        "crb (Suc n) C'" "size C' < size C" "inord (plug C' t') = inord (plug C ?X)" "only (extent H C ?X) h h1"
      using round_at [OF less.prems] False by blast
    have step: "while_do (rebalance_cond H) (rebalance_body H) (x, h) = while_do (rebalance_cond H) (rebalance_body H) (x', h1)"
      using cond False r(1) by (subst while_do_unfold) simp
    have ext: "extent H C' t' = extent H C ?X" using r(6) by (simp add: extent_def inord_plug)
    consider v l r where "t' = PNode x' kRed v l r" "rb (Suc n) l" "rb (Suc n) r" "isblack l" "isblack r"
      | D v l r where "rb (Suc n) t'" "isblack t'" "t' = plug D (PNode x' kRed v l r)" "pblack D" "D \<noteq> CTop"
      using r(3) unfolding round_done_def by blast
    then show ?thesis
    proof cases
      case 1
      obtain x2 h2 t2 where "while_do (rebalance_cond H) (rebalance_body H) (x', h1) = Done (x2, h2)" "rb_at h2 H e CTop t2"
          "inord t2 = inord (plug C' t')" "\<exists>m. rb m t2" "only (extent H C' t') h1 h2"
        using less.IH [OF r(5), of h1 x' v l r "Suc n"] r(2,4) 1 by auto
      then show ?thesis using step ext r(6,7) only_trans by metis
    next
      case 2
      have at: "rb_at h1 H e (cc C' D) (PNode x' kRed v l r)" using r(2) 2(3) by (simp only: rb_at_cc)
      have "pblack (cc C' D)" using 2(4,5) by (simp add: pblack_cc)
      then have "while_do (rebalance_cond H) (rebalance_body H) (x', h1) = Done (x', h1)"
        using cond_at [OF at] by (subst while_do_unfold) simp
      moreover have "\<exists>m. rb m (plug C' t')" using crb_plug [OF r(4) 2(1)] 2(2) by blast
      moreover have "rb_at h1 H e CTop (plug C' t')" using r(2) rb_at_plug [of h1 H e C' t'] by simp
      ultimately show ?thesis using step r(6,7) by (intro exI [of _ x'] exI [of _ h1] exI [of _ "plug C' t'"]) simp
    qed
  qed
qed

lemma RbTreeRebalance_at:
  assumes "rb_at h H e C (PNode x c xv PLeaf PLeaf)" "crb 0 C"
  shows "\<exists>h' t'. RbTreeRebalance H x h = Done h' \<and> rb_at h' H e CTop t' \<and>
    inord t' = inord (plug C (PNode x c xv PLeaf PLeaf)) \<and> (\<exists>m. rb m t') \<and> isblack t' \<and> only (extent H C (PNode x c xv PLeaf PLeaf)) h h'"
proof -
  let ?S = "extent H C (PNode x c xv PLeaf PLeaf)"
  obtain h1 where h1: "wr_color x kRed h = Done h1" "rb_at h1 H e C (PNode x kRed xv PLeaf PLeaf)" "only ?S h h1"
    using rb_at_color [OF assms(1), of kRed] by blast
  obtain x' h2 t where h2: "while_do (rebalance_cond H) (rebalance_body H) (x, h1) = Done (x', h2)" "rb_at h2 H e CTop t"
      "inord t = inord (plug C (PNode x kRed xv PLeaf PLeaf))" "\<exists>m. rb m t" "only ?S h1 h2"
    using rebalance_loop [OF h1(2) assms(2)] by (auto simp: extent_def)
  have i: "inord t = inord (plug C (PNode x c xv PLeaf PLeaf))" using h2(3) by (simp add: inord_plug)
  then have "t \<noteq> PLeaf" by (auto simp: inord_plug)
  then obtain p pc v l r where t: "t = PNode p pc v l r" by (cases t) auto
  have e: "extent H CTop t = ?S" using i by (simp add: extent_def inord_plug)
  obtain h3 where h3: "wr_color p kBlack h2 = Done h3" "rb_at h3 H e CTop (blacken t)" "only ?S h2 h3"
    using rb_at_color [OF h2(2) [unfolded t], of kBlack] e t by auto
  have "rd rb_parent H h2 = Done p" using rb_at_root [OF h2(2)] t by simp
  then have "RbTreeRebalance H x h = Done h3" using h1(1) h2(1) h3(1) by (simp add: RbTreeRebalance_def)
  moreover have "\<exists>m. rb m (blacken t)" using h2(4) rb_blacken by blast
  moreover have "only ?S h h3" using only_trans [OF only_trans [OF h1(3) h2(5)] h3(3)] .
  ultimately show ?thesis using h3(2) i by (intro exI [of _ h3] exI [of _ "blacken t"]) simp
qed

end
