(* ===== verification/Rb_Ops.thy ===== *)
theory Rb_Ops
  imports Rb_Insert
begin

text \<open>
  The operations of the class \<open>RbTree\<close> on the list of its elements in their order: searching,
  stepping backwards, and \<open>insert_unique\<close>.
\<close>

subsection \<open>The abstract view\<close>

definition first_of :: "rbp \<Rightarrow> (rbp \<times> 'v) list \<Rightarrow> rbp" where
  "first_of H xs = (case xs of [] \<Rightarrow> H | x # _ \<Rightarrow> fst x)"

definition last_of :: "rbp \<Rightarrow> (rbp \<times> 'v) list \<Rightarrow> rbp" where
  "last_of H xs = (if xs = [] then H else fst (last xs))"

lemma first_of_simps [simp]: "first_of H [] = H" "first_of H (x # xs) = fst x"
  by (simp_all add: first_of_def)

lemma last_of_simps [simp]: "last_of H [] = H" "last_of H (xs @ [x]) = fst x" "ys \<noteq> [] \<Longrightarrow> last_of H (xs @ ys) = last_of H ys"
  "xs \<noteq> [] \<Longrightarrow> last_of H (x # xs) = last_of H xs" "last_of H [x] = fst x"
  by (simp_all add: last_of_def)

lemma first_of_append [simp]: "xs \<noteq> [] \<Longrightarrow> first_of H (xs @ ys) = first_of H xs"
  by (cases xs) simp_all

text \<open>
  A tree holds the addresses and values \<open>xs\<close> in this order: they are the nodes of a red-black
  tree in the heap, the header points to the root and to both ends, and the count is right.
\<close>

definition rbtree :: "'v RbTree \<Rightarrow> (rbp \<times> 'v) list \<Rightarrow> bool" where
  "rbtree t xs \<longleftrightarrow> (\<exists>T m. rb_at (rb_heap t) (rb_header t) (first_of (rb_header t) xs, last_of (rb_header t) xs) CTop T \<and>
     inord T = xs \<and> rb m T \<and> isblack T \<and> node_count t = of_nat (length xs))"

subsection \<open>Searching\<close>

lemma bound_search_at:
  assumes "rb_at h H e C t" "\<forall>a \<in> set (before C). \<not> goleft (snd a)" "\<forall>a \<in> set (behind C). goleft (snd a)"
    and "sorted_wrt (\<lambda>a b. goleft (snd a) \<longrightarrow> goleft (snd b)) (inord t)"
  shows "bound_search goleft h (rootp t, first_of H (behind C)) =
    Done (0, first_of H (dropWhile (\<lambda>a. \<not> goleft (snd a)) (inord t @ behind C)))"
  using assms
proof (induction t arbitrary: C)
  case PLeaf
  have "dropWhile (\<lambda>a. \<not> goleft (snd a)) (behind C) = behind C" using PLeaf.prems(3) by (cases "behind C") auto
  then show ?case unfolding bound_search_def by (subst while_do_unfold) simp
next
  case (PNode p c v l r)
  note look = rb_at_look [OF PNode.prems(1)] and nz = rb_at_rootp_nz [OF PNode.prems(1)]
  have w: "\<forall>a \<in> set (inord l). goleft (snd a) \<longrightarrow> goleft v" "\<forall>a \<in> set (inord r). goleft v \<longrightarrow> goleft (snd a)"
      "sorted_wrt (\<lambda>a b. goleft (snd a) \<longrightarrow> goleft (snd b)) (inord l)" "sorted_wrt (\<lambda>a b. goleft (snd a) \<longrightarrow> goleft (snd b)) (inord r)"
    using PNode.prems(4) by (auto simp: sorted_wrt_append)
  show ?case
  proof (cases "goleft v")
    case True
    have "bound_search goleft h (p, first_of H (behind C)) = bound_search goleft h (rootp l, p)"
      unfolding bound_search_def using look nz True by (subst while_do_unfold) simp
    also have "\<dots> = Done (0, first_of H (dropWhile (\<lambda>a. \<not> goleft (snd a)) (inord l @ behind (CLeft C p c v r))))"
      using PNode.IH(1) [of "CLeft C p c v r"] PNode.prems True w by auto
    finally show ?thesis by simp
  next
    case False
    have "bound_search goleft h (p, first_of H (behind C)) = bound_search goleft h (rootp r, first_of H (behind C))"
      unfolding bound_search_def using look nz False by (subst while_do_unfold) simp
    also have "\<dots> = Done (0, first_of H (dropWhile (\<lambda>a. \<not> goleft (snd a)) (inord r @ behind C)))"
      using PNode.IH(2) [of "CRight C p c v l"] PNode.prems False w by auto
    also have "dropWhile (\<lambda>a. \<not> goleft (snd a)) (inord r @ behind C) =
        dropWhile (\<lambda>a. \<not> goleft (snd a)) (inord (PNode p c v l r) @ behind C)"
      using w(1) False by (simp add: dropWhile_append2)
    finally show ?thesis by simp
  qed
qed

lemma rbtree_search:
  assumes "rbtree t xs" "sorted_wrt (\<lambda>a b. goleft (snd a) \<longrightarrow> goleft (snd b)) xs"
  shows "obind (rd rb_parent (rb_header t) (rb_heap t)) (\<lambda>root. bound_search goleft (rb_heap t) (root, rb_header t)) =
    Done (0, first_of (rb_header t) (dropWhile (\<lambda>a. \<not> goleft (snd a)) xs))"
proof -
  obtain T where T: "rb_at (rb_heap t) (rb_header t) (first_of (rb_header t) xs, last_of (rb_header t) xs) CTop T" "inord T = xs"
    using assms(1) by (auto simp: rbtree_def)
  show ?thesis using rb_at_root [OF T(1)] bound_search_at [OF T(1)] T(2) assms(2) by simp
qed

subsection \<open>The place of a new value\<close>

definition at_left :: "'v pc \<Rightarrow> bool" where
  "at_left C = (case C of CRight _ _ _ _ _ \<Rightarrow> False | _ \<Rightarrow> True)"

lemma insert_search_at:
  assumes "rb_at h H e C t" "crb n C" "rb n t" "isblack t \<or> pblack C"
    and "\<forall>a \<in> set (before C). \<not> lt (key v) (key (snd a))" "\<forall>a \<in> set (behind C). lt (key v) (key (snd a))"
    and "sorted_wrt (\<lambda>a b. lt (key v) (key (snd a)) \<longrightarrow> lt (key v) (key (snd b))) (inord t)"
  shows "\<exists>D. insert_search key lt v h (rootp t, holepar H C, at_left C) = Done (0, holepar H D, at_left D) \<and> rb_at h H e D PLeaf \<and>
    plug D PLeaf = plug C t \<and> crb 0 D \<and>
    (\<forall>a \<in> set (before D). \<not> lt (key v) (key (snd a))) \<and> (\<forall>a \<in> set (behind D). lt (key v) (key (snd a)))"
  using assms
proof (induction t arbitrary: C n)
  case PLeaf
  then show ?case unfolding insert_search_def by (intro exI [of _ C]) (subst while_do_unfold, simp)
next
  case (PNode p c w l r)
  note look = rb_at_look [OF PNode.prems(1)] and nz = rb_at_rootp_nz [OF PNode.prems(1)]
  let ?lt = "\<lambda>a b. lt (key v) (key (snd a)) \<longrightarrow> lt (key v) (key (snd b))"
  have s: "\<forall>a \<in> set (inord l). lt (key v) (key (snd a)) \<longrightarrow> lt (key v) (key w)"
      "\<forall>a \<in> set (inord r). lt (key v) (key w) \<longrightarrow> lt (key v) (key (snd a))" "sorted_wrt ?lt (inord l)" "sorted_wrt ?lt (inord r)"
    using PNode.prems(7) by (auto simp: sorted_wrt_append)
  obtain m where m: "crb m (CLeft C p c w r)" "crb m (CRight C p c w l)" "rb m l" "rb m r"
      "isblack l \<or> pblack (CLeft C p c w r)" "isblack r \<or> pblack (CRight C p c w l)"
    using PNode.prems(2-4) by (cases c) auto
  show ?case
  proof (cases "lt (key v) (key w)")
    case True
    have "insert_search key lt v h (p, holepar H C, at_left C) = insert_search key lt v h (rootp l, p, True)"
      unfolding insert_search_def using look nz True by (subst while_do_unfold) simp
    moreover have "\<forall>a \<in> set (behind (CLeft C p c w r)). lt (key v) (key (snd a))" using True s(2) PNode.prems(6) by auto
    ultimately show ?thesis
      using PNode.IH(1) [of "CLeft C p c w r" m] PNode.prems(1,5) m s(3) by (simp add: at_left_def)
  next
    case False
    have "insert_search key lt v h (p, holepar H C, at_left C) = insert_search key lt v h (rootp r, p, False)"
      unfolding insert_search_def using look nz False by (subst while_do_unfold) simp
    moreover have "\<forall>a \<in> set (before (CRight C p c w l)). \<not> lt (key v) (key (snd a))" using False s(1) PNode.prems(5) by auto
    ultimately show ?thesis
      using PNode.IH(2) [of "CRight C p c w l" m] PNode.prems(1,6) m s(4) by (simp add: at_left_def)
  qed
qed

subsection \<open>Stepping\<close>

lemma rb_maximum_at: "rb_at h H e C t \<Longrightarrow> t \<noteq> PLeaf \<Longrightarrow> rb_maximum (rootp t) h = Done (last_of H (inord t))"
proof (induction t arbitrary: C)
  case (PNode p c v l r)
  note look = rb_at_look [OF PNode.prems(1)]
  show ?case
  proof (cases r)
    case PLeaf
    then show ?thesis unfolding rb_maximum_def using look by (subst while_do_unfold) simp
  next
    case (PNode q d w a b)
    have at: "rb_at h H e (CRight C p c v l) r" using PNode.prems(1) by simp
    have nz: "rootp r \<noteq> 0" using rb_at_rootp_nz [of h H e "CRight C p c v l"] at PNode by auto
    have ne: "inord r \<noteq> []" using PNode by simp
    have "rb_maximum p h = rb_maximum (rootp r) h"
      unfolding rb_maximum_def using look nz by (subst while_do_unfold) simp
    then show ?thesis using PNode.IH(2) [OF at] PNode ne by simp
  qed
qed simp

lemma first_of_rev [simp]: "first_of H (rev xs) = last_of H xs"
  by (cases xs rule: rev_cases) simp_all

lemma last_of_rev [simp]: "last_of H (rev xs) = first_of H xs"
  by (cases xs) simp_all

lemma rb_minimum_mirror: "rb_maximum x (mirror h) = rb_minimum x h"
  by (simp add: rb_maximum_def rb_minimum_def)

lemma rb_minimum_at:
  assumes "rb_at h H e C t" "t \<noteq> PLeaf"
  shows "rb_minimum (rootp t) h = Done (first_of H (inord t))"
proof -
  have m: "rb_at (mirror h) H (prod.swap e) (cmir C) (pmir t)" using assms(1) by simp
  have "pmir t \<noteq> PLeaf" using assms(2) by (cases t) simp_all
  from rb_maximum_at [OF m this] show ?thesis by (simp add: rb_minimum_mirror)
qed

abbreviation climb :: "('v rbnode \<Rightarrow> rbp) \<Rightarrow> 'v rbheap \<Rightarrow> rbp \<times> rbp \<Rightarrow> (rbp \<times> rbp) outcome" where
  "climb side h \<equiv> while_do (\<lambda>(node, y). obind (rd side y h) (\<lambda>s. Done (node = s)))
     (\<lambda>(node, y). obind (rd rb_parent y h) (\<lambda>p. Done (y, p)))"

lemma climb_left:
  assumes "rb_at h H e C (PNode p c v l r)" "before C \<noteq> []"
  shows "\<exists>q n. climb rb_left h (p, holepar H C) = Done (q, last_of H (before C)) \<and> h q = Some n \<and> rb_left n \<noteq> last_of H (before C)"
  using assms
proof (induction C arbitrary: p c v l r)
  case (CLeft C p' c' v' r')
  then have at: "rb_at h H e C (PNode p' c' v' (PNode p c v l r) r')" by simp
  have "climb rb_left h (p, p') = climb rb_left h (p', holepar H C)"
    using rb_at_look [OF at] by (subst while_do_unfold) simp
  then show ?case using CLeft.IH [OF at] CLeft.prems(2) by simp
next
  case (CRight C p' c' v' l')
  then have at: "rb_at h H e C (PNode p' c' v' l' (PNode p c v l r))" by simp
  have "p \<noteq> rootp l'" using at by (cases l') (auto simp: rb_at_def nodes_apart_def)
  then have "climb rb_left h (p, p') = Done (p, p')" using rb_at_look [OF at] by (subst while_do_unfold) simp
  moreover have "rootp l \<noteq> p'" using at by (cases l) (auto simp: rb_at_def nodes_apart_def)
  ultimately show ?case using rb_at_look [OF CRight.prems(1)] by auto
qed simp

lemma climb_mirror: "climb rb_left (mirror h) s = climb rb_right h s"
  by simp

lemma climb_right:
  assumes "rb_at h H e C (PNode p c v l r)" "behind C \<noteq> []"
  shows "\<exists>q n. climb rb_right h (p, holepar H C) = Done (q, first_of H (behind C)) \<and> h q = Some n \<and> rb_right n \<noteq> first_of H (behind C)"
proof -
  have "rb_at (mirror h) H (prod.swap e) (cmir C) (PNode p c v (pmir r) (pmir l))"
    using rb_at_mirror [of h H e C "PNode p c v l r"] assms(1) by (simp del: rb_at_mirror)
  from climb_left [OF this] assms(2) obtain q n where
    "climb rb_right h (p, holepar H C) = Done (q, first_of H (behind C))" "h q = Some (mirror_node n)" "rb_left n \<noteq> first_of H (behind C)"
    by auto
  then show ?thesis by (intro exI [of _ q] exI [of _ "mirror_node n"]) simp
qed

text \<open>From the last element the climb ends at the header, whichever way it gets there.\<close>

lemma climb_right_last:
  assumes "rb_at h H e C (PNode p c v l r)" "behind C = []"
  shows "\<exists>q y n. climb rb_right h (p, holepar H C) = Done (q, y) \<and> h q = Some n \<and> (if rb_right n \<noteq> y then y else q) = H"
  using assms
proof (induction C arbitrary: p c v l r)
  case CTop
  have root: "\<exists>n. h H = Some n \<and> rb_parent n = p \<and> rb_right n = snd e" using CTop by (simp add: rb_at_def)
  note look = rb_at_look [OF CTop.prems(1)]
  have ne: "rootp r \<noteq> H" using CTop by (cases r) (auto simp: rb_at_def nodes_apart_def)
  show ?case
  proof (cases "snd e = p")
    case True
    have "climb rb_right h (p, H) = climb rb_right h (H, p)" using root True by (subst while_do_unfold) auto
    also have "\<dots> = Done (H, p)" using look ne by (subst while_do_unfold) auto
    finally show ?thesis using root True by auto
  next
    case False
    have "climb rb_right h (p, H) = Done (p, H)" using root False by (subst while_do_unfold) auto
    then show ?thesis using look ne by auto
  qed
next
  case (CRight C p' c' v' l')
  then have at: "rb_at h H e C (PNode p' c' v' l' (PNode p c v l r))" by simp
  have "climb rb_right h (p, p') = climb rb_right h (p', holepar H C)"
    using rb_at_look [OF at] by (subst while_do_unfold) simp
  then show ?case using CRight.IH [OF at] CRight.prems(2) by simp
qed simp

lemma increment_at:
  assumes "rb_at h H e C (PNode p c v l r)"
  shows "increment p h = Done (first_of H (inord r @ behind C))"
proof (cases r)
  case PLeaf
  show ?thesis
  proof (cases "behind C = []")
    case True
    then show ?thesis using climb_right_last [OF assms True] rb_at_look [OF assms] PLeaf by (auto simp: increment_def)
  next
    case False
    then show ?thesis using climb_right [OF assms False] rb_at_look [OF assms] PLeaf by (auto simp: increment_def)
  qed
next
  case (PNode q d w a b)
  have at: "rb_at h H e (CRight C p c v l) r" using assms by simp
  have "rootp r \<noteq> 0" "inord r \<noteq> []" using rb_at_rootp_nz [of h H e "CRight C p c v l"] at PNode by auto
  moreover have "r \<noteq> PLeaf" using PNode by simp
  ultimately show ?thesis using rb_minimum_at [OF at] rb_at_look [OF assms] by (simp add: increment_def)
qed

lemma decrement_at:
  assumes "rb_at h H e C (PNode p c v l r)" "before C @ inord l \<noteq> []" "C = CTop \<longrightarrow> c = kBlack"
  shows "decrement p h = Done (last_of H (before C @ inord l))"
proof -
  note look = rb_at_look [OF assms(1)]
  obtain g where g: "rd rb_parent (holepar H C) h = Done g" "C \<noteq> CTop \<Longrightarrow> g \<noteq> p"
  proof (cases C)
    case CTop
    then show ?thesis using that assms(1) by (auto simp: rb_at_def)
  next
    case (CLeft C' p' c' v' r')
    then have at: "rb_at h H e C' (PNode p' c' v' (PNode p c v l r) r')" using assms(1) by simp
    have "holepar H C' \<noteq> p" using at by (cases C') (auto simp: rb_at_def nodes_apart_def)
    then show ?thesis using that rb_at_look [OF at] CLeft by simp
  next
    case (CRight C' p' c' v' l')
    then have at: "rb_at h H e C' (PNode p' c' v' l' (PNode p c v l r))" using assms(1) by simp
    have "holepar H C' \<noteq> p" using at by (cases C') (auto simp: rb_at_def nodes_apart_def)
    then show ?thesis using that rb_at_look [OF at] CRight by simp
  qed
  have e: "obind (if c = kRed then obind (rd rb_parent p h) (\<lambda>p'. obind (rd rb_parent p' h) (\<lambda>g. Done (g = p))) else Done False) f = f False"
    for f :: "bool \<Rightarrow> rbp outcome" using g assms(3) look by auto
  show ?thesis
  proof (cases l)
    case PLeaf
    then show ?thesis using climb_left [OF assms(1)] assms(2) look e by (auto simp: decrement_def)
  next
    case (PNode q d w a b)
    have at: "rb_at h H e (CLeft C p c v r) l" using assms(1) by simp
    have "rootp l \<noteq> 0" "inord l \<noteq> []" using rb_at_rootp_nz [of h H e "CLeft C p c v r"] at PNode by auto
    moreover have "l \<noteq> PLeaf" using PNode by simp
    ultimately show ?thesis using rb_maximum_at [OF at] look e by (simp add: decrement_def)
  qed
qed

lemma decrement_end:
  assumes "rb_at h H e CTop t" "t \<noteq> PLeaf"
  shows "decrement H h = Done (snd e)"
  using assms by (cases t) (auto simp: rb_at_def decrement_def)

subsection \<open>Linking a new node\<close>

lemma ctx_at_ends:
  assumes "ctx_at h H e q C" "H \<notin> addrs (before C)" "H \<notin> addrs (behind C)" "h H = Some n"
  shows "ctx_at (h(H \<mapsto> n\<lparr>rb_left := a\<rparr>)) H (a, snd e) q C" "ctx_at (h(H \<mapsto> n\<lparr>rb_right := a\<rparr>)) H (fst e, a) q C"
  using assms by (induction C arbitrary: q) auto

lemma ctx_at_header: "ctx_at h H e q C \<Longrightarrow> \<exists>n. h H = Some n \<and> rb_left n = fst e \<and> rb_right n = snd e"
  using ctx_at_root by fastforce

lemma tree_at_dom: "tree_at h q t \<Longrightarrow> a \<in> addrs (inord t) \<Longrightarrow> h a \<noteq> None"
  by (induction h q t rule: tree_at.induct) auto

lemma ctx_at_dom: "ctx_at h H e q C \<Longrightarrow> a \<in> insert H (addrs (before C) \<union> addrs (behind C)) \<Longrightarrow> h a \<noteq> None"
proof (induction h H e q C rule: ctx_at.induct)
  case (2 h H e q C p c v r)
  then show ?case using tree_at_dom [of h p r a] by auto
next
  case (3 h H e q C p c v l)
  then show ?case using tree_at_dom [of h p l a] by auto
qed auto

lemma rb_at_dom: "rb_at h H e C t \<Longrightarrow> h z = None \<Longrightarrow> z \<notin> extent H C t"
  using tree_at_dom [of h "holepar H C" t z] ctx_at_dom [of h H e "rootp t" C z] by (auto simp: rb_at_def extent_def)

text \<open>
  A node without children is put into the hole, and the ends of the tree are those with it.
\<close>

lemma link_left:
  assumes "rb_at h H (first_of H xs, la) (CLeft C p c w r) PLeaf" "xs = before C @ (p, w) # inord r @ behind C" "h z = None" "z \<noteq> 0"
  shows "\<exists>h'. link_node H z p True (h(z \<mapsto> create_node v)) = Done h' \<and>
    rb_at h' H (first_of H (before C @ (z, v) # (p, w) # inord r @ behind C), la) (CLeft C p c w r) (PNode z kRed v PLeaf PLeaf)"
proof -
  let ?d = "holepar H C" and ?e = "(first_of H xs, la)"
  have ctx: "ctx_at h H ?e p C" and hp: "h p = Some (mk_node c ?d 0 (rootp r) (Some w))" and tr: "tree_at h p r"
    and ap: "nodes_apart H (before C @ (p, w) # inord r @ behind C)"
    using assms(1) by (simp_all add: rb_at_def)
  obtain n where n: "h H = Some n" "rb_left n = first_of H xs" "rb_right n = la" using ctx_at_header [OF ctx] by auto
  have z: "z \<noteq> H" "z \<noteq> p" "z \<notin> addrs (before C)" "z \<notin> addrs (behind C)" "z \<notin> addrs (inord r)"
    using rb_at_dom [OF assms(1,3)] by (simp_all add: extent_def)
  have q: "p \<noteq> H" "p \<noteq> 0" "H \<noteq> 0" "p \<notin> addrs (before C)" "p \<notin> addrs (behind C)" "p \<notin> addrs (inord r)" "H \<notin> addrs (before C)" "H \<notin> addrs (behind C)"
      "H \<notin> addrs (inord r)"
    using ap by (auto simp: nodes_apart_def)
  have first: "p = first_of H xs \<longleftrightarrow> before C = []"
    using q(4) assms(2) by (cases "before C") auto
  let ?h1 = "h(z \<mapsto> create_node v, p \<mapsto> mk_node c ?d z (rootp r) (Some w))"
  let ?h2 = "if before C = [] then ?h1(H \<mapsto> n\<lparr>rb_left := z\<rparr>) else ?h1"
  let ?h' = "?h2(z \<mapsto> mk_node kRed p 0 0 (Some v))"
  have "link_node H z p True (h(z \<mapsto> create_node v)) = Done ?h'"
    using hp n z q first by (simp add: link_node_def create_node_def)
  moreover have "ctx_at ?h' H (first_of H (before C @ (z, v) # (p, w) # inord r @ behind C), la) p C"
  proof (cases "before C = []")
    case True
    have "ctx_at (h(p \<mapsto> mk_node c ?d z (rootp r) (Some w))) H ?e p C" using ctx q by simp
    from ctx_at_ends(1) [OF this q(7,8), of n z]
    have "ctx_at (h(p \<mapsto> mk_node c ?d z (rootp r) (Some w), H \<mapsto> n\<lparr>rb_left := z\<rparr>)) H (z, la) p C" using n q by simp
    then show ?thesis using z True by simp
  next
    case False
    then show ?thesis using ctx z q assms(2) by simp
  qed
  moreover have "tree_at ?h' p r" "?h' p = Some (mk_node c ?d z (rootp r) (Some w))" using tr z q by simp_all
  moreover have "nodes_apart H (before C @ (z, v) # (p, w) # inord r @ behind C)" using ap z assms(4) by (auto simp: nodes_apart_def)
  ultimately show ?thesis by (intro exI [of _ ?h']) (simp add: rb_at_def)
qed

lemma link_mirror:
  assumes "y \<noteq> H"
  shows "link_node H z y False h = omap mirror (link_node H z y True (mirror h))"
proof -
  have s: "obind (wr_right z 0 h) (wr_left z 0) = obind (wr_left z 0 h) (wr_right z 0)" for h :: "'a rbheap"
    by (cases "h z"; cases "the (h z)") (simp_all add: wr_left_def wr_right_def modify_def)
  show ?thesis using assms by (simp add: link_node_def omap_obind obind_omap omap_if obind_if obind_assoc s cong: if_cong)
qed

lemma link_right:
  assumes "rb_at h H (fi, last_of H xs) (CRight C p c w l) PLeaf" "xs = before C @ inord l @ (p, w) # behind C" "h z = None" "z \<noteq> 0"
  shows "\<exists>h'. link_node H z p False (h(z \<mapsto> create_node v)) = Done h' \<and>
    rb_at h' H (fi, last_of H (before C @ inord l @ (p, w) # (z, v) # behind C)) (CRight C p c w l) (PNode z kRed v PLeaf PLeaf)"
proof -
  let ?xs = "before C @ inord l @ (p, w) # (z, v) # behind C"
  have m: "rb_at (mirror h) H (first_of H (rev xs), fi) (CLeft (cmir C) p c w (pmir l)) PLeaf"
    using rb_at_mirror [of h H "(fi, last_of H xs)" "CRight C p c w l" PLeaf] assms(1) by (simp del: rb_at_mirror rb_at_zip)
  have r: "rev xs = before (cmir C) @ (p, w) # inord (pmir l) @ behind (cmir C)" using assms(2) by simp
  have z: "mirror h z = None" using assms(3) by (simp add: mirror_def)
  obtain h' where h': "link_node H z p True ((mirror h)(z \<mapsto> create_node v)) = Done h'"
      "rb_at h' H (first_of H (rev ?xs), fi) (CLeft (cmir C) p c w (pmir l)) (PNode z kRed v PLeaf PLeaf)"
    using link_left [OF m r z assms(4), of v] by auto
  have c: "(mirror h)(z \<mapsto> create_node v) = mirror (h(z \<mapsto> create_node v))"
    by (simp add: mirror_upd mirror_node_def create_node_def)
  have "p \<noteq> H" using assms(1) by (auto simp: rb_at_def nodes_apart_def)
  then have "link_node H z p False (h(z \<mapsto> create_node v)) = Done (mirror h')" by (simp only: link_mirror [OF \<open>p \<noteq> H\<close>] c [symmetric] h'(1) omap_simps)
  moreover have "rb_at (mirror h') H (fi, last_of H ?xs) (CRight C p c w l) (PNode z kRed v PLeaf PLeaf)"
    using h'(2) rb_at_mirror [of "mirror h'" H "(fi, last_of H ?xs)" "CRight C p c w l" "PNode z kRed v PLeaf PLeaf"]
    by (simp only: first_of_rev pmir.simps cmir.simps swap_simp mirror_mirror)
  ultimately show ?thesis by blast
qed

lemma link_top:
  assumes "rb_at h H (H, H) CTop PLeaf" "h z = None" "z \<noteq> 0"
  shows "\<exists>h'. link_node H z H True (h(z \<mapsto> create_node v)) = Done h' \<and> rb_at h' H (z, z) CTop (PNode z kRed v PLeaf PLeaf)"
proof -
  have z: "z \<noteq> H" "H \<noteq> 0" using rb_at_dom [OF assms(1,2)] assms(1) by (simp_all add: extent_def rb_at_def nodes_apart_def)
  have "link_node H z H True (h(z \<mapsto> create_node v)) = Done (h(H \<mapsto> mk_node kRed z z z None, z \<mapsto> mk_node kRed H 0 0 (Some v)))"
    using assms(1) z by (simp add: link_node_def create_node_def rb_at_def fun_upd_twist)
  then show ?thesis using assms(3) z by (simp add: rb_at_def nodes_apart_def)
qed

subsection \<open>Insertion\<close>

lemma insert_aux_at:
  fixes key :: "'v \<Rightarrow> 'k::linorder"
  assumes "rb_at (rb_heap t) (rb_header t) (first_of (rb_header t) xs, last_of (rb_header t) xs) D PLeaf" "xs = before D @ behind D"
    and "crb 0 D" "rb_heap t z = None" "z \<noteq> 0" "node_count t = of_nat (length xs)"
    and "\<forall>a \<in> set (before D). \<not> key v < key (snd a)" "\<forall>a \<in> set (behind D). key v < key (snd a)"
  shows "\<exists>t'. insert_aux key (<) z 0 (holepar (rb_header t) D) v t = Done (z, t') \<and> rbtree t' (before D @ (z, v) # behind D) \<and>
    rb_header t' = rb_header t"
proof -
  let ?H = "rb_header t" and ?h = "rb_heap t" and ?ys = "before D @ (z, v) # behind D"
  obtain h1 where h1: "link_node ?H z (holepar ?H D) (at_left D) (?h(z \<mapsto> create_node v)) = Done h1"
      "rb_at h1 ?H (first_of ?H ?ys, last_of ?H ?ys) D (PNode z kRed v PLeaf PLeaf)"
  proof (cases D)
    case CTop
    then show ?thesis using link_top [of ?h ?H z v] assms(1,2,4,5) that by (auto simp: at_left_def)
  next
    case (CLeft C p c w r)
    have "last_of ?H ?ys = last_of ?H xs" using assms(2) CLeft by simp
    then show ?thesis using link_left [of ?h ?H xs "last_of ?H xs" C p c w r z v] assms(1,2,4,5) CLeft that
      by (auto simp: at_left_def)
  next
    case (CRight C p c w l)
    have "first_of ?H ?ys = first_of ?H xs" using assms(2) CRight by (cases "before C"; cases "inord l") simp_all
    then show ?thesis using link_right [of ?h ?H "first_of ?H xs" xs C p c w l z v] assms(1,2,4,5) CRight that
      by (auto simp: at_left_def)
  qed
  have z: "z \<noteq> ?H" "z \<noteq> holepar ?H D"
    using rb_at_dom [OF assms(1,4)] holepar_in [of D ?H] by (cases "D = CTop"; auto simp: extent_def)+
  have "(if holepar ?H D = ?H \<or> (0::rbp) \<noteq> 0 then Done True
      else obind (rd_value (holepar ?H D) (?h(z \<mapsto> create_node v))) (\<lambda>yv. Done (key v < key yv))) = Done (at_left D)"
  proof (cases D)
    case (CLeft C p c w r)
    then show ?thesis using assms(1,8) z rb_at_look [of ?h ?H _ C p c w PLeaf r] rb_at_rootp_nz [of ?h ?H _ C p c w PLeaf r]
      by (fastforce simp: at_left_def)
  next
    case (CRight C p c w l)
    then show ?thesis using assms(1,7) z rb_at_look [of ?h ?H _ C p c w l PLeaf] rb_at_rootp_nz [of ?h ?H _ C p c w l PLeaf]
      by (fastforce simp: at_left_def)
  qed (simp add: at_left_def)
  moreover obtain h' T where h': "RbTreeRebalance ?H z h1 = Done h'" "rb_at h' ?H (first_of ?H ?ys, last_of ?H ?ys) CTop T"
      "inord T = ?ys" "\<exists>m. rb m T" "isblack T"
    using RbTreeRebalance_at [OF h1(2) assms(3)] by (auto simp: inord_plug)
  ultimately have "insert_aux key (<) z 0 (holepar ?H D) v t = Done (z, t\<lparr>rb_heap := h', node_count := node_count t + 1\<rparr>)"
    using h1(1) by (simp add: insert_aux_def Let_def)
  moreover have "rbtree (t\<lparr>rb_heap := h', node_count := node_count t + 1\<rparr>) ?ys"
    using h' assms(2,6) by (auto simp: rbtree_def)
  ultimately show ?thesis by auto
qed

lemma rd_value_at: "rb_at h H e C t \<Longrightarrow> (a, v) \<in> set (inord t) \<Longrightarrow> rd_value a h = Done v"
proof -
  have "tree_at h q t \<Longrightarrow> (a, v) \<in> set (inord t) \<Longrightarrow> rd_value a h = Done v" for q
    by (induction h q t rule: tree_at.induct) auto
  then show "rb_at h H e C t \<Longrightarrow> (a, v) \<in> set (inord t) \<Longrightarrow> rd_value a h = Done v" by (auto simp: rb_at_def)
qed

text \<open>The element before the place of a new value, as \<open>insert_unique\<close> finds it.\<close>

lemma predecessor_at:
  assumes "rb_at h H e D PLeaf" "before D \<noteq> []" "isblack (plug D PLeaf)"
  shows "(if at_left D then decrement (holepar H D) h else Done (holepar H D)) = Done (last_of H (before D))"
proof (cases D)
  case (CLeft C p c w r)
  then have at: "rb_at h H e C (PNode p c w PLeaf r)" using assms(1) by simp
  have "C = CTop \<longrightarrow> c = kBlack" using assms(3) CLeft by auto
  then show ?thesis using decrement_at [OF at] assms(2) CLeft by (simp add: at_left_def)
next
  case (CRight C p c w l)
  then show ?thesis by (simp add: at_left_def)
qed (use assms(2) in simp)

lemma first_place:
  assumes "rb_at h H e D PLeaf"
  shows "at_left D \<and> holepar H D = first_of H (before D @ behind D) \<longleftrightarrow> before D = []"
proof (cases D)
  case (CLeft C p c w r)
  have "p \<notin> addrs (before C)" using assms CLeft by (auto simp: rb_at_def nodes_apart_def)
  then show ?thesis using CLeft by (cases "before C") (auto simp: at_left_def)
qed (auto simp: at_left_def)

abbreviation ordered :: "('v \<Rightarrow> 'k::linorder) \<Rightarrow> (rbp \<times> 'v) list \<Rightarrow> bool" where
  "ordered key xs \<equiv> sorted_wrt (\<lambda>a b. key (snd a) < key (snd b)) xs"

lemma insert_unique_at:
  fixes key :: "'v \<Rightarrow> 'k::linorder"
  assumes "rbtree t xs" "ordered key xs" "rb_heap t z = None" "z \<noteq> 0"
  shows "\<exists>ys zs. xs = ys @ zs \<and> (\<forall>a \<in> set ys. key (snd a) \<le> key v) \<and> (\<forall>a \<in> set zs. key v < key (snd a)) \<and>
    (if ys \<noteq> [] \<and> key (snd (last ys)) = key v
     then insert_unique key (<) z v t = Done ((fst (last ys), False), t)
     else \<exists>t'. insert_unique key (<) z v t = Done ((z, True), t') \<and> rbtree t' (ys @ (z, v) # zs) \<and> rb_header t' = rb_header t)"
proof -
  let ?H = "rb_header t" and ?h = "rb_heap t" and ?e = "(first_of (rb_header t) xs, last_of (rb_header t) xs)"
  obtain T m where T: "rb_at ?h ?H ?e CTop T" "inord T = xs" "rb m T" "isblack T" "node_count t = of_nat (length xs)"
    using assms(1) by (auto simp: rbtree_def)
  have so: "sorted_wrt (\<lambda>a b. key v < key (snd a) \<longrightarrow> key v < key (snd b)) (inord T)"
    unfolding T(2) by (rule sorted_wrt_mono_rel [OF _ assms(2)]) auto
  obtain D where D: "insert_search key (<) v ?h (rootp T, ?H, True) = Done (0, holepar ?H D, at_left D)" "rb_at ?h ?H ?e D PLeaf"
      "plug D PLeaf = T" "crb 0 D" "\<forall>a \<in> set (before D). \<not> key v < key (snd a)" "\<forall>a \<in> set (behind D). key v < key (snd a)"
    using insert_search_at [where lt = "(<)" and key = key and v = v, OF T(1) _ T(3) _ _ _ so] T(4) by (auto simp: at_left_def)
  have xs: "xs = before D @ behind D" using T(2) D(3) inord_plug [of D PLeaf] by simp
  have root: "rd rb_parent ?H ?h = Done (rootp T)" using rb_at_root [OF T(1)] by simp
  obtain nh where nh: "?h ?H = Some nh" "rb_left nh = first_of ?H xs" using ctx_at_header [of ?h ?H ?e "rootp T" CTop] T(1) by (auto simp: rb_at_def)
  have b: "rb_begin t = Done (first_of ?H xs)" using nh by (simp add: rb_begin_def)
  note place = first_place [OF D(2), folded xs]
  have add: "\<exists>t'. insert_aux key (<) z 0 (holepar ?H D) v t = Done (z, t') \<and> rbtree t' (before D @ (z, v) # behind D) \<and> rb_header t' = ?H"
    by (rule insert_aux_at [OF D(2) xs D(4) assms(3,4) T(5) D(5,6)])
  show ?thesis
  proof (rule exI [of _ "before D"], rule exI [of _ "behind D"], intro conjI)
    show "xs = before D @ behind D" by (rule xs)
    show "\<forall>a \<in> set (before D). key (snd a) \<le> key v" using D(5) by auto
    show "\<forall>a \<in> set (behind D). key v < key (snd a)" by (rule D(6))
    show "if before D \<noteq> [] \<and> key (snd (last (before D))) = key v
     then insert_unique key (<) z v t = Done ((fst (last (before D)), False), t)
     else \<exists>t'. insert_unique key (<) z v t = Done ((z, True), t') \<and> rbtree t' (before D @ (z, v) # behind D) \<and> rb_header t' = ?H"
    proof (cases "before D = []")
      case True
      then have "insert_unique key (<) z v t = obind (insert_aux key (<) z 0 (holepar ?H D) v t) (\<lambda>(it, t). Done ((it, True), t))"
        using root D(1) b place by (simp add: insert_unique_def Let_def)
      then show ?thesis using add True by auto
    next
      case False
      then obtain as j jv where as: "before D = as @ [(j, jv)]" by (metis rev_exhaust surj_pair)
      have "(j, jv) \<in> set (inord T)" using as T(2) xs by simp
      then have jv: "rd_value j ?h = Done jv" by (rule rd_value_at [OF T(1)])
      have "key jv \<le> key v" using D(5) as by auto
      have "(if at_left D then decrement (holepar ?H D) ?h else Done (holepar ?H D)) = Done j"
        using predecessor_at [OF D(2) False] D(3) T(4) as by simp
      then have "insert_unique key (<) z v t = (if key jv < key v
          then obind (insert_aux key (<) z 0 (holepar ?H D) v t) (\<lambda>(it, t). Done ((it, True), t)) else Done ((j, False), t))"
        using root D(1) b place False jv by (simp add: insert_unique_def Let_def split: if_splits)
      then show ?thesis using add as \<open>key jv \<le> key v\<close> by auto
    qed
  qed
qed

end
