(* ===== verification/Rb_Erase.thy ===== *)
theory Rb_Erase
  imports Rb_Ops
begin

text \<open>
  Erasure from the red-black tree: unlinking a node, and the loop of
  \<open>RbTreeRebalanceForErase\<close> that restores the black height.
\<close>

subsection \<open>A red sibling\<close>

lemma blackish_at: "rb_at h H e C t \<Longrightarrow> blackish (rootp t) h = Done (isblack t)"
  by (simp add: blackish_def is_red_at)

lemma sibling_at:
  assumes "rb_at h H e (CLeft C p pc pv W) s" "crb (Suc n) (CLeft C p pc pv W)"
  shows "\<exists>h' C' pc' w wv w1 w2. sibling rb_right (RbTreeRotateLeft H) p h = Done (w, h') \<and>
    rb_at h' H e (CLeft C' p pc' pv (PNode w kBlack wv w1 w2)) s \<and> crb (Suc n) (CLeft C' p pc' pv (PNode w kBlack wv w1 w2)) \<and>
    inord (plug (CLeft C' p pc' pv (PNode w kBlack wv w1 w2)) s) = inord (plug (CLeft C p pc pv W) s) \<and>
    (C' = C \<or> pc' = kRed) \<and> only (extent H (CLeft C p pc pv W) s) h h'"
proof -
  let ?S = "extent H (CLeft C p pc pv W) s"
  have at: "rb_at h H e C (PNode p pc pv s W)" using assms(1) by simp
  obtain w wc wv w1 w2 where W: "W = PNode w wc wv w1 w2" using assms(2) by (cases W) auto
  have 0: "rb_at h H e (CRight C p pc pv s) (PNode w wc wv w1 w2)" using at W by simp
  have look: "rd rb_right p h = Done w" "rd rb_color w h = Done wc" using rb_at_look [OF at] rb_at_look [OF 0] W by simp_all
  show ?thesis
  proof (cases wc)
    case kBlack
    then show ?thesis using assms look W
      by (intro exI [of _ h] exI [of _ C] exI [of _ pc] exI [of _ w] exI [of _ wv] exI [of _ w1] exI [of _ w2]) (simp add: sibling_def)
  next
    case kRed
    have pc: "pc = kBlack" using assms(2) W kRed by (cases pc) simp_all
    have c: "rb (Suc n) w1" "rb (Suc n) w2" "isblack w1" "isblack w2" "crb (Suc (Suc n)) C" using assms(2) W kRed pc by simp_all
    then obtain u uv u1 u2 where w1: "w1 = PNode u kBlack uv u1 u2" by (cases w1) auto
    obtain h1 where h1: "wr_color w kBlack h = Done h1" "rb_at h1 H e C (PNode p pc pv s (PNode w kBlack wv w1 w2))" "only ?S h h1"
      using rb_at_color [OF 0, of kBlack] W by auto
    obtain h2 where h2: "wr_color p kRed h1 = Done h2" "rb_at h2 H e C (PNode p kRed pv s (PNode w kBlack wv w1 w2))" "only ?S h1 h2"
      using rb_at_color [OF h1(2), of kRed] W by (auto simp: extent_def)
    obtain h3 where h3: "RbTreeRotateLeft H p h2 = Done h3" "rb_at h3 H e C (PNode w kBlack wv (PNode p kRed pv s w1) w2)" "only ?S h2 h3"
      using rotate_left [OF h2(2)] W by (auto simp: extent_def)
    have 3: "rb_at h3 H e (CLeft C w kBlack wv w2) (PNode p kRed pv s w1)" using h3(2) by simp
    have "sibling rb_right (RbTreeRotateLeft H) p h = Done (u, h3)"
      using look kRed h1(1) h2(1) h3(1) rb_at_look [OF 3] w1 by (simp add: sibling_def)
    moreover have "only ?S h h3" using only_trans [OF only_trans [OF h1(3) h2(3)] h3(3)] .
    ultimately show ?thesis using 3 c w1 W
      by (intro exI [of _ h3] exI [of _ "CLeft C w kBlack wv w2"] exI [of _ kRed] exI [of _ u] exI [of _ uv] exI [of _ u1] exI [of _ u2])
        (simp add: inord_plug)
  qed
qed

subsection \<open>A black sibling\<close>

lemma wr_color_opt_at:
  assumes "rb_at h H e C t"
  shows "\<exists>h'. wr_color_opt (rootp t) kBlack h = Done h' \<and> rb_at h' H e C (blacken t) \<and> only (extent H C t) h h'"
proof (cases t)
  case (PNode p c v l r)
  then show ?thesis using rb_at_color [of h H e C p c v l r kBlack] rb_at_rootp_nz [of h H e C p c v l r] assms by (auto simp: wr_color_opt_def)
qed (use assms in \<open>simp add: wr_color_opt_def\<close>)

lemma last_rotation_at:
  assumes "rb_at h H e C (PNode p pc pv s (PNode w wc wv wn wr))"
  shows "\<exists>h'. last_rotation rb_right (RbTreeRotateLeft H) p w h = Done h' \<and>
    rb_at h' H e C (PNode w pc wv (PNode p kBlack pv s wn) (blacken wr)) \<and>
    only (extent H C (PNode p pc pv s (PNode w wc wv wn wr))) h h'"
proof -
  let ?S = "extent H C (PNode p pc pv s (PNode w wc wv wn wr))"
  have 0: "rb_at h H e (CRight C p pc pv s) (PNode w wc wv wn wr)" using assms by simp
  obtain h1 where h1: "wr_color w pc h = Done h1" "rb_at h1 H e C (PNode p pc pv s (PNode w pc wv wn wr))" "only ?S h h1"
    using rb_at_color [OF 0, of pc] by auto
  obtain h2 where h2: "wr_color p kBlack h1 = Done h2" "rb_at h2 H e C (PNode p kBlack pv s (PNode w pc wv wn wr))" "only ?S h1 h2"
    using rb_at_color [OF h1(2), of kBlack] by (auto simp: extent_def)
  have 2: "rb_at h2 H e (CRight C p kBlack pv s) (PNode w pc wv wn wr)" "rb_at h2 H e (CRight (CRight C p kBlack pv s) w pc wv wn) wr"
    using h2(2) by simp_all
  obtain h3 where h3: "wr_color_opt (rootp wr) kBlack h2 = Done h3" "rb_at h3 H e C (PNode p kBlack pv s (PNode w pc wv wn (blacken wr)))" "only ?S h2 h3"
    using wr_color_opt_at [OF 2(2)] by (auto simp: extent_def)
  obtain h4 where h4: "RbTreeRotateLeft H p h3 = Done h4" "rb_at h4 H e C (PNode w pc wv (PNode p kBlack pv s wn) (blacken wr))" "only ?S h3 h4"
    using rotate_left [OF h3(2)] by (auto simp: extent_def)
  have "last_rotation rb_right (RbTreeRotateLeft H) p w h = Done h4"
    using rb_at_look [OF assms] h1(1) h2(1) rb_at_look [OF 2(1)] h3(1) h4(1) by (simp add: last_rotation_def)
  moreover have "only ?S h h4" using only_trans [OF only_trans [OF only_trans [OF h1(3) h2(3)] h3(3)] h4(3)] .
  ultimately show ?thesis using h4(2) by blast
qed

lemma outward_at:
  assumes "rb_at h H e C (PNode p pc pv s (PNode w wc wv (PNode q qc qv q1 q2) wr))"
  shows "\<exists>h'. outward rb_right (RbTreeRotateRight H) p w q h = Done (q, h') \<and>
    rb_at h' H e C (PNode p pc pv s (PNode q kBlack qv q1 (PNode w kRed wv q2 wr))) \<and>
    only (extent H C (PNode p pc pv s (PNode w wc wv (PNode q qc qv q1 q2) wr))) h h'"
proof -
  let ?S = "extent H C (PNode p pc pv s (PNode w wc wv (PNode q qc qv q1 q2) wr))"
  have 0: "rb_at h H e (CLeft (CRight C p pc pv s) w wc wv wr) (PNode q qc qv q1 q2)" using assms by simp
  obtain h1 where h1: "wr_color_opt q kBlack h = Done h1" "rb_at h1 H e (CRight C p pc pv s) (PNode w wc wv (PNode q kBlack qv q1 q2) wr)" "only ?S h h1"
    using wr_color_opt_at [OF 0] by auto
  obtain h2 where h2: "wr_color w kRed h1 = Done h2" "rb_at h2 H e (CRight C p pc pv s) (PNode w kRed wv (PNode q kBlack qv q1 q2) wr)" "only ?S h1 h2"
    using rb_at_color [OF h1(2), of kRed] by (auto simp: extent_def)
  obtain h3 where h3: "RbTreeRotateRight H w h2 = Done h3" "rb_at h3 H e (CRight C p pc pv s) (PNode q kBlack qv q1 (PNode w kRed wv q2 wr))" "only ?S h2 h3"
    using rotate_right [OF h2(2)] by (auto simp: extent_def)
  have 3: "rb_at h3 H e C (PNode p pc pv s (PNode q kBlack qv q1 (PNode w kRed wv q2 wr)))" using h3(2) by simp
  have "outward rb_right (RbTreeRotateRight H) p w q h = Done (q, h3)"
    using h1(1) h2(1) h3(1) rb_at_look [OF 3] by (simp add: outward_def)
  moreover have "only ?S h h3" using only_trans [OF only_trans [OF h1(3) h2(3)] h3(3)] .
  ultimately show ?thesis using 3 by blast
qed

subsection \<open>A round of the loop\<close>

text \<open>A subtree whose black height is one less than it should be; a red root can make up for it.\<close>

definition gapped :: "nat \<Rightarrow> 'v pt \<Rightarrow> bool" where
  "gapped n s \<longleftrightarrow> (if isblack s then rb n s else rb (Suc n) (blacken s))"

definition round_post :: "rbp \<Rightarrow> rbp \<times> rbp \<Rightarrow> 'v pc \<Rightarrow> 'v pt \<Rightarrow> rbp \<times> rbp \<times> bool \<times> 'v rbheap \<Rightarrow> bool" where
  "round_post H e C s = (\<lambda>(x, x_parent, stop, h).
     \<exists>C' s'. x = rootp s' \<and> rb_at h H e C' s' \<and> inord (plug C' s') = inord (plug C s) \<and>
       (if stop then isblack s' \<and> (\<exists>m. rb m (plug C' s')) \<and> isblack (plug C' s')
        else x_parent = holepar H C' \<and> (\<exists>n. gapped n s' \<and> crb (Suc n) C') \<and> (isblack s' \<longrightarrow> size C' < size C)))"

lemma crb_root_black: "crb n C \<Longrightarrow> C \<noteq> CTop \<or> isblack t \<Longrightarrow> isblack (plug C t)"
proof (induction C t arbitrary: n rule: plug.induct)
  case (2 C p c v r t)
  then show ?case by (cases c; cases "C = CTop") auto
next
  case (3 C p c v l t)
  then show ?case by (cases c; cases "C = CTop") auto
qed simp

text \<open>The last rotation closes the gap.\<close>

lemma closed_gap:
  assumes "crb (Suc n) (CLeft C p pc pv W)" "rb n s" "isblack s" "rb n wn" "rb (Suc n) wr" "isblack wr"
    and "rb_at h H e C (PNode w pc wv (PNode p kBlack pv s wn) wr)" "inord (plug C (PNode w pc wv (PNode p kBlack pv s wn) wr)) = inord (plug D t)"
  shows "round_post H e D t (rootp s, p, True, h)"
proof -
  let ?T = "PNode w pc wv (PNode p kBlack pv s wn) wr" and ?C = "CLeft (CLeft C w pc wv wr) p kBlack pv wn"
  obtain m where m: "rb m ?T" "crb m C" "pc = kBlack \<or> pblack C" using assms(1-6) by (cases pc) auto
  have "C \<noteq> CTop \<or> isblack ?T" using m(3) by auto
  then have "isblack (plug C ?T)" "\<exists>m. rb m (plug C ?T)" using crb_root_black [OF m(2)] crb_plug [OF m(2,1)] m(3) by auto
  then show ?thesis using assms(3,7,8) by (auto simp: round_post_def intro!: exI [of _ ?C] exI [of _ s])
qed

lemma side_left:
  assumes "rb_at h H e (CLeft C p pc pv W) s" "crb (Suc n) (CLeft C p pc pv W)" "rb n s" "isblack s"
  shows "\<exists>r. erase_side rb_left rb_right (RbTreeRotateLeft H) (RbTreeRotateRight H) (rootp s) p h = Done r \<and>
    round_post H e (CLeft C p pc pv W) s r \<and> only (extent H (CLeft C p pc pv W) s) h (snd (snd (snd r)))"
proof -
  let ?S = "extent H (CLeft C p pc pv W) s" and ?D = "CLeft C p pc pv W"
  obtain h1 C' pc' w wv w1 w2 where h1: "sibling rb_right (RbTreeRotateLeft H) p h = Done (w, h1)"
      "rb_at h1 H e (CLeft C' p pc' pv (PNode w kBlack wv w1 w2)) s" "crb (Suc n) (CLeft C' p pc' pv (PNode w kBlack wv w1 w2))"
      "inord (plug (CLeft C' p pc' pv (PNode w kBlack wv w1 w2)) s) = inord (plug ?D s)" "C' = C \<or> pc' = kRed" "only ?S h h1"
    using sibling_at [OF assms(1,2)] by blast
  have ext: "extent H C' t = ?S" if "inord (plug C' t) = inord (plug ?D s)" for t using that by (auto simp: extent_def inord_plug)
  have at: "rb_at h1 H e C' (PNode p pc' pv s (PNode w kBlack wv w1 w2))"
      "rb_at h1 H e (CRight C' p pc' pv s) (PNode w kBlack wv w1 w2)"
      "rb_at h1 H e (CLeft (CRight C' p pc' pv s) w kBlack wv w2) w1" "rb_at h1 H e (CRight (CRight C' p pc' pv s) w kBlack wv w1) w2"
    using h1(2) by simp_all
  have rbs: "rb n w1" "rb n w2" using h1(3) by simp_all
  have look: "rd rb_left w h1 = Done (rootp w1)" "rd rb_right w h1 = Done (rootp w2)" "blackish (rootp w1) h1 = Done (isblack w1)"
      "blackish (rootp w2) h1 = Done (isblack w2)"
    using rb_at_look [OF at(2)] blackish_at [OF at(3)] blackish_at [OF at(4)] by simp_all
  have i: "inord (plug C' (PNode p pc' pv s (PNode w kBlack wv w1 w2))) = inord (plug ?D s)" using h1(4) by simp
  show ?thesis
  proof (cases "isblack w1 \<and> isblack w2")
    case True
    obtain h2 where h2: "wr_color w kRed h1 = Done h2" "rb_at h2 H e C' (PNode p pc' pv s (PNode w kRed wv w1 w2))"
        "only (extent H C' (PNode p pc' pv s (PNode w kBlack wv w1 w2))) h1 h2"
      using rb_at_color [OF at(2), of kRed] by auto
    let ?t = "PNode p pc' pv s (PNode w kRed wv w1 w2)"
    have run: "erase_side rb_left rb_right (RbTreeRotateLeft H) (RbTreeRotateRight H) (rootp s) p h = Done (p, holepar H C', False, h2)"
      using h1(1) look True h2(1) rb_at_look [OF h2(2)] by (simp add: erase_side_def)
    have "\<exists>m. gapped m ?t \<and> crb (Suc m) C'"
      using h1(3) assms(3,4) rbs True by (cases pc') (auto simp: gapped_def intro: exI [of _ n] exI [of _ "Suc n"])
    moreover have "isblack ?t \<longrightarrow> size C' < size ?D" using h1(5) by auto
    moreover have "inord (plug C' ?t) = inord (plug ?D s)" using i by (simp add: inord_plug)
    ultimately have "round_post H e ?D s (p, holepar H C', False, h2)" using h2(2)
      by (auto simp: round_post_def intro!: exI [of _ C'] exI [of _ ?t])
    moreover have "only ?S h h2" using only_trans [OF h1(6)] h2(3) ext [OF i] by simp
    ultimately show ?thesis using run by (intro exI [of _ "(p, holepar H C', False, h2)"]) simp
  next
    case False
    obtain h2 v vv v1 v2 where h2: "(if isblack w2 then outward rb_right (RbTreeRotateRight H) p w (rootp w1) h1 else Done (w, h1)) = Done (v, h2)"
        "rb_at h2 H e C' (PNode p pc' pv s (PNode v kBlack vv v1 v2))" "rb n v1" "rb (Suc n) (blacken v2)"
        "inord (plug C' (PNode p pc' pv s (PNode v kBlack vv v1 v2))) = inord (plug ?D s)" "only ?S h1 h2"
    proof (cases "isblack w2")
      case True
      then obtain q qv q1 q2 where w1: "w1 = PNode q kRed qv q1 q2"
        using False by (cases w1 rule: isblack.cases; cases "case w1 of PNode p c v l r \<Rightarrow> c | PLeaf \<Rightarrow> kBlack") auto
      then show ?thesis
        using outward_at [OF at(1) [unfolded w1]] rbs True i ext [OF i]
          that [of q _ qv q1 "PNode w kRed wv q2 w2"] by (auto simp: inord_plug)
    next
      case wr: False
      then obtain f fv f1 f2 where w2: "w2 = PNode f kRed fv f1 f2"
        by (cases w2 rule: isblack.cases; cases "case w2 of PNode p c v l r \<Rightarrow> c | PLeaf \<Rightarrow> kBlack") auto
      show ?thesis by (rule that [of w h1 wv w1 w2]) (use at(1) rbs wr w2 i in simp_all)
    qed
    obtain h3 where h3: "last_rotation rb_right (RbTreeRotateLeft H) p v h2 = Done h3"
        "rb_at h3 H e C' (PNode v pc' vv (PNode p kBlack pv s v1) (blacken v2))" "only ?S h2 h3"
      using last_rotation_at [OF h2(2)] ext [OF h2(5)] by auto
    have "round_post H e ?D s (rootp s, p, True, h3)"
      by (rule closed_gap [OF h1(3) assms(3,4) h2(3,4) _ h3(2)]) (use h2(5) in \<open>simp_all add: inord_plug\<close>)
    moreover have "erase_side rb_left rb_right (RbTreeRotateLeft H) (RbTreeRotateRight H) (rootp s) p h = Done (rootp s, p, True, h3)"
      using h1(1) look False h2(1) h3(1) by (auto simp: erase_side_def)
    moreover have "only ?S h h3" using only_trans [OF only_trans [OF h1(6) h2(6)] h3(3)] .
    ultimately show ?thesis by (intro exI [of _ "(rootp s, p, True, h3)"]) simp
  qed
qed

subsection \<open>The other side\<close>

definition emir :: "rbp \<times> rbp \<times> bool \<times> 'v rbheap \<Rightarrow> rbp \<times> rbp \<times> bool \<times> 'v rbheap" where
  "emir = (\<lambda>(x, x_parent, stop, h). (x, x_parent, stop, mirror h))"

lemma blackish_mirror [simp]: "blackish p (mirror h) = blackish p h"
  by (simp add: blackish_def)

lemma wr_color_opt_mirror [simp]: "wr_color_opt p c (mirror h) = omap mirror (wr_color_opt p c h)"
  by (simp add: wr_color_opt_def)

lemma sibling_mirror: "sibling rb_right (RbTreeRotateLeft H) p (mirror h) = omap (apsnd mirror) (sibling rb_left (RbTreeRotateRight H) p h)"
  by (simp add: sibling_def omap_obind obind_omap omap_if cong: if_cong)

lemma outward_mirror:
  "outward rb_right (RbTreeRotateRight H) p w q (mirror h) = omap (apsnd mirror) (outward rb_left (RbTreeRotateLeft H) p w q h)"
  by (simp add: outward_def omap_obind obind_omap)

lemma last_rotation_mirror:
  "last_rotation rb_right (RbTreeRotateLeft H) p w (mirror h) = omap mirror (last_rotation rb_left (RbTreeRotateRight H) p w h)"
  by (simp add: last_rotation_def omap_obind obind_omap)

lemma omap_case_prod: "omap f (case x of (a, b) \<Rightarrow> g a b) = (case x of (a, b) \<Rightarrow> omap f (g a b))"
  by (simp split: prod.split)

lemma side_mirror:
  "erase_side rb_left rb_right (RbTreeRotateLeft H) (RbTreeRotateRight H) x p (mirror h) =
   omap emir (erase_side rb_right rb_left (RbTreeRotateRight H) (RbTreeRotateLeft H) x p h)"
  by (simp add: erase_side_def omap_obind obind_omap omap_if obind_if sibling_mirror outward_mirror last_rotation_mirror
      omap_case_prod case_prod_beta emir_def cong: if_cong)

lemma size_pmir [simp]: "size (pmir t) = size t"
  by (induction t) simp_all

lemma size_cmir [simp]: "size (cmir C) = size C"
  by (induction C) simp_all

lemma blacken_pmir [simp]: "blacken (pmir t) = pmir (blacken t)"
  by (cases t) simp_all

lemma gapped_pmir [simp]: "gapped n (pmir t) = gapped n t"
  by (simp add: gapped_def)

lemma plug_mir: "plug (cmir C) (pmir t) = pmir (plug C t)"
  by (simp add: pmir_plug)

lemma round_post_mirror:
  assumes "round_post H (prod.swap e) (cmir C) (pmir s) r"
  shows "round_post H e C s (emir r)"
proof -
  obtain x x_parent stop h where r: "r = (x, x_parent, stop, h)" by (cases r) auto
  obtain C' s' where c: "x = rootp s'" "rb_at h H (prod.swap e) C' s'" "inord (plug C' s') = inord (plug (cmir C) (pmir s))"
      "if stop then isblack s' \<and> (\<exists>m. rb m (plug C' s')) \<and> isblack (plug C' s')
       else x_parent = holepar H C' \<and> (\<exists>n. gapped n s' \<and> crb (Suc n) C') \<and> (isblack s' \<longrightarrow> size C' < size C)"
    using assms unfolding r round_post_def prod.case size_cmir by blast
  have "rb_at (mirror h) H e (cmir C') (pmir s')"
    using c(2) rb_at_mirror [of "mirror h" H e "cmir C'" "pmir s'"] by (simp del: rb_at_mirror)
  moreover have "inord (plug (cmir C') (pmir s')) = inord (plug C s)"
    using arg_cong [OF c(3), of rev] by (simp add: plug_mir del: inord_plug)
  ultimately show ?thesis using c(1,4)
    by (auto simp: r emir_def round_post_def plug_mir intro!: exI [of _ "cmir C'"] exI [of _ "pmir s'"])
qed

lemma side_right:
  assumes "rb_at h H e (CRight C p pc pv W) s" "crb (Suc n) (CRight C p pc pv W)" "rb n s" "isblack s"
  shows "\<exists>r. erase_side rb_right rb_left (RbTreeRotateRight H) (RbTreeRotateLeft H) (rootp s) p h = Done r \<and>
    round_post H e (CRight C p pc pv W) s r \<and> only (extent H (CRight C p pc pv W) s) h (snd (snd (snd r)))"
proof -
  have m: "rb_at (mirror h) H (prod.swap e) (CLeft (cmir C) p pc pv (pmir W)) (pmir s)"
    using rb_at_mirror [of h H e "CRight C p pc pv W" s] assms(1) by (simp del: rb_at_mirror rb_at_zip)
  have c: "crb (Suc n) (CLeft (cmir C) p pc pv (pmir W))" using assms(2) by (auto split: RbTreeColor.splits)
  obtain r where r: "erase_side rb_left rb_right (RbTreeRotateLeft H) (RbTreeRotateRight H) (rootp s) p (mirror h) = Done r"
      "round_post H (prod.swap e) (cmir (CRight C p pc pv W)) (pmir s) r"
      "only (extent H (cmir (CRight C p pc pv W)) (pmir s)) (mirror h) (snd (snd (snd r)))"
    using side_left [OF m c] assms(3,4) by auto
  have e: "erase_side rb_right rb_left (RbTreeRotateRight H) (RbTreeRotateLeft H) (rootp s) p h = Done (emir r)"
  proof -
    obtain r' where "erase_side rb_right rb_left (RbTreeRotateRight H) (RbTreeRotateLeft H) (rootp s) p h = Done r'" "r = emir r'"
      using r(1) by (cases "erase_side rb_right rb_left (RbTreeRotateRight H) (RbTreeRotateLeft H) (rootp s) p h") (simp_all add: side_mirror)
    then show ?thesis by (auto simp: emir_def split: prod.split)
  qed
  have "snd (snd (snd (emir r))) = mirror (snd (snd (snd r)))" by (simp add: emir_def split: prod.split)
  then have "only (extent H (CRight C p pc pv W) s) h (snd (snd (snd (emir r))))"
    using r(3) only_mirror [of "extent H (CRight C p pc pv W) s" h "mirror (snd (snd (snd r)))"] unfolding extent_mirror by simp
  then show ?thesis using e round_post_mirror [OF r(2)] by blast
qed

subsection \<open>The loop\<close>

lemma focus_is_root:
  assumes "rb_at h H e C s"
  shows "rootp s = rootp (plug C s) \<longleftrightarrow> C = CTop"
proof (cases "C = CTop")
  case False
  have "rootp s \<notin> addrs (before C) \<union> addrs (behind C)" using assms by (cases s) (auto simp: rb_at_def nodes_apart_def)
  then show ?thesis using False rootq_in [of C "rootp s"] rootq_plug [of C s] by auto
qed simp

lemma erase_cond_at:
  assumes "rb_at h H e C s"
  shows "erase_cond H (rootp s, q, stop, h) = Done (\<not> stop \<and> C \<noteq> CTop \<and> isblack s)"
  using rb_at_root [OF assms] focus_is_root [OF assms] blackish_at [OF assms] by (auto simp: erase_cond_def)

lemma erase_body_at:
  assumes "rb_at h H e C s" "crb (Suc n) C" "rb n s" "isblack s" "C \<noteq> CTop"
  shows "\<exists>r. erase_body H (rootp s, holepar H C, stop, h) = Done r \<and> round_post H e C s r \<and> only (extent H C s) h (snd (snd (snd r)))"
proof (cases C)
  case (CLeft C' p pc pv W)
  then have at: "rb_at h H e C' (PNode p pc pv s W)" using assms(1) by simp
  show ?thesis using side_left [of h H e C' p pc pv W s n] assms CLeft rb_at_look [OF at] by (auto simp: erase_body_def)
next
  case (CRight C' p pc pv W)
  then have at: "rb_at h H e C' (PNode p pc pv W s)" using assms(1) by simp
  have "W \<noteq> PLeaf" using assms(2) CRight by auto
  then have "rootp s \<noteq> rootp W" using at by (cases s; cases W) (auto simp: rb_at_def nodes_apart_def)
  then show ?thesis using side_right [of h H e C' p pc pv W s n] assms CRight rb_at_look [OF at] by (auto simp: erase_body_def)
qed (use assms(5) in simp)

definition loop_post :: "rbp \<Rightarrow> rbp \<times> rbp \<Rightarrow> 'v pc \<Rightarrow> 'v pt \<Rightarrow> 'v rbheap \<Rightarrow> rbp \<times> rbp \<times> bool \<times> 'v rbheap \<Rightarrow> bool" where
  "loop_post H e C s h = (\<lambda>(x, x_parent, stop, h').
     \<exists>h'' T m. wr_color_opt x kBlack h' = Done h'' \<and> rb_at h'' H e CTop T \<and> inord T = inord (plug C s) \<and> rb m T \<and> isblack T \<and>
       only (extent H C s) h h'')"

lemma loop_postI:
  assumes "rb_at h' H e C' s'" "inord (plug C' s') = inord (plug C s)" "rb m (plug C' (blacken s'))" "isblack (plug C' (blacken s'))"
    and "only (extent H C s) h h'"
  shows "loop_post H e C s h (rootp s', q, stop, h')"
proof -
  obtain h'' where h'': "wr_color_opt (rootp s') kBlack h' = Done h''" "rb_at h'' H e C' (blacken s')" "only (extent H C' s') h' h''"
    using wr_color_opt_at [OF assms(1)] by blast
  have "extent H C' s' = extent H C s" using assms(2) by (auto simp: extent_def inord_plug)
  then have "only (extent H C s) h h''" using only_trans [OF assms(5)] h''(3) by simp
  moreover have "rb_at h'' H e CTop (plug C' (blacken s'))" using h''(2) rb_at_plug [of h'' H e C' "blacken s'"] by simp
  moreover have "inord (plug C' (blacken s')) = inord (plug C s)" using assms(2) by (simp add: inord_plug)
  ultimately show ?thesis using h''(1) assms(3,4) unfolding loop_post_def by blast
qed

text \<open>A red root of the subtree, or the root of the tree: the loop is not entered.\<close>

lemma erase_exit:
  assumes "rb_at h H e C s" "gapped n s" "crb (Suc n) C" "C = CTop \<or> \<not> isblack s"
  shows "while_do (erase_cond H) (erase_body H) (rootp s, q, False, h) = Done (rootp s, q, False, h) \<and>
    loop_post H e C s h (rootp s, q, False, h)"
proof
  show "while_do (erase_cond H) (erase_body H) (rootp s, q, False, h) = Done (rootp s, q, False, h)"
    using erase_cond_at [OF assms(1)] assms(4) by (subst while_do_unfold) auto
  have "\<exists>m. rb m (plug C (blacken s))"
  proof (cases "C = CTop")
    case True
    then show ?thesis using assms(2) rb_blacken [of n s] by (auto simp: gapped_def split: if_splits)
  next
    case False
    then have "rb (Suc n) (blacken s)" using assms(2,4) by (simp add: gapped_def)
    then show ?thesis using crb_plug [OF assms(3)] by auto
  qed
  moreover have "isblack (plug C (blacken s))" using crb_root_black [OF assms(3)] by simp
  ultimately show "loop_post H e C s h (rootp s, q, False, h)" using loop_postI [OF assms(1)] by auto
qed

lemma erase_loop:
  assumes "rb_at h H e C s" "gapped n s" "crb (Suc n) C"
  shows "\<exists>r. while_do (erase_cond H) (erase_body H) (rootp s, holepar H C, False, h) = Done r \<and> loop_post H e C s h r"
  using assms
proof (induction C arbitrary: h s n rule: measure_induct_rule [of size])
  case (less C)
  show ?case
  proof (cases "C = CTop \<or> \<not> isblack s")
    case True
    then show ?thesis using erase_exit [OF less.prems] by blast
  next
    case False
    have rbs: "rb n s" "isblack s" "C \<noteq> CTop" using False less.prems(2) by (simp_all add: gapped_def)
    obtain x y stop h1 where r: "erase_body H (rootp s, holepar H C, False, h) = Done (x, y, stop, h1)" "round_post H e C s (x, y, stop, h1)"
        "only (extent H C s) h h1"
      using erase_body_at [OF less.prems(1,3) rbs] by (metis prod_cases4 snd_conv)
    have step: "while_do (erase_cond H) (erase_body H) (rootp s, holepar H C, False, h) = while_do (erase_cond H) (erase_body H) (x, y, stop, h1)"
      using erase_cond_at [OF less.prems(1)] False r(1) by (subst while_do_unfold) auto
    obtain C' s' where c: "x = rootp s'" "rb_at h1 H e C' s'" "inord (plug C' s') = inord (plug C s)"
        "if stop then isblack s' \<and> (\<exists>m. rb m (plug C' s')) \<and> isblack (plug C' s')
         else y = holepar H C' \<and> (\<exists>n. gapped n s' \<and> crb (Suc n) C') \<and> (isblack s' \<longrightarrow> size C' < size C)"
      using r(2) unfolding round_post_def prod.case by blast
    have ext: "extent H C' s' = extent H C s" using c(3) by (auto simp: extent_def inord_plug)
    have lift: "loop_post H e C s h r'" if "loop_post H e C' s' h1 r'" for r'
      using that only_trans [OF r(3)] unfolding loop_post_def ext c(3) by (auto split: prod.splits)
    show ?thesis
    proof (cases stop)
      case True
      have b: "blacken s' = s'" using c(4) True by (cases s') auto
      have "while_do (erase_cond H) (erase_body H) (x, y, stop, h1) = Done (x, y, stop, h1)"
        using erase_cond_at [OF c(2)] True c(1) by (subst while_do_unfold) simp
      moreover have "loop_post H e C s h (x, y, stop, h1)" using loop_postI [OF c(2,3) _ _ r(3)] c(1,4) b True by auto
      ultimately show ?thesis using step by auto
    next
      case ns: False
      then obtain n' where n': "gapped n' s'" "crb (Suc n') C'" "y = holepar H C'" "isblack s' \<longrightarrow> size C' < size C" using c(4) by auto
      show ?thesis
      proof (cases "C' = CTop \<or> \<not> isblack s'")
        case True
        then show ?thesis using erase_exit [OF c(2) n'(1,2) True, of y] step lift c(1) ns by auto
      next
        case False
        then show ?thesis using less.IH [OF _ c(2) n'(1,2)] step lift c(1) n'(3,4) ns by auto
      qed
    qed
  qed
qed

end
