(* ===== verification/Rb_Splice.thy ===== *)
theory Rb_Splice
  imports Rb_Erase
begin

text \<open>
  Unlinking a node from the red-black tree, which is the first half of \<open>RbTreeRebalanceForErase\<close>,
  and the whole erasure.
\<close>

subsection \<open>A child takes the place of the node\<close>

lemma reparent_at:
  assumes "tree_at h q t" "0 \<notin> addrs (inord t)" "distinct (map fst (inord t))"
  shows "\<exists>h'. (if rootp t \<noteq> 0 then wr_parent (rootp t) q' h else Done h) = Done h' \<and> tree_at h' q' t \<and>
    (t \<noteq> PLeaf \<longrightarrow> wr_parent (rootp t) q' h = Done h') \<and> only (addrs (inord t)) h h'"
proof (cases t)
  case (PNode p c v l r)
  then have "p \<notin> addrs (inord l)" "p \<notin> addrs (inord r)" "p \<noteq> 0" using assms by auto
  then show ?thesis using assms(1) PNode by (simp add: only_def)
qed simp

lemma replace_child_at:
  assumes "ctx_at h H e z C" "z \<noteq> 0" "nodes_apart H (before C @ behind C)" "z \<notin> addrs (before C)" "z \<notin> addrs (behind C)"
    and "h z = Some m" "rb_parent m = holepar H C"
  shows "\<exists>h'. replace_child H z y h = Done h' \<and> ctx_at h' H e y C \<and> only (insert H (addrs (before C) \<union> addrs (behind C))) h h'"
proof -
  obtain n where n: "h (holepar H C) = Some n" using ctx_at_holepar [OF assms(1)] by blast
  have "holepar H C \<in> insert H (addrs (before C) \<union> addrs (behind C))" using holepar_in [of C H] by (cases "C = CTop") auto
  then show ?thesis
    using relink_Done(1) [OF assms(1,2,4,5) n, of y] ctx_at_set_hole [OF assms(1,3) n, of y] assms(6,7)
    by (auto simp: replace_child_def only_def)
qed

lemma rb_at_ends:
  assumes "rb_at h H e C t" "h H = Some n"
  shows "rb_at (h(H \<mapsto> n\<lparr>rb_left := a\<rparr>)) H (a, snd e) C t" "rb_at (h(H \<mapsto> n\<lparr>rb_right := a\<rparr>)) H (fst e, a) C t"
  using assms ctx_at_ends [of h H e "rootp t" C n a] by (auto simp: rb_at_def nodes_apart_def)

text \<open>The parent of a hole without elements on its left is the next element, or the header.\<close>

lemma holepar_first: "before C = [] \<Longrightarrow> holepar H C = first_of H (behind C)"
  by (cases C) auto

lemma holepar_last: "behind C = [] \<Longrightarrow> holepar H C = last_of H (before C)"
  by (cases C) (auto simp flip: append_assoc)

definition move_first :: "rbp \<Rightarrow> rbp \<Rightarrow> rbp \<Rightarrow> 'v rbheap \<Rightarrow> 'v rbheap outcome" where
  "move_first H z x h = obind (rd rb_left H h) (\<lambda>left_most.
     if left_most = z
     then obind (rd rb_right z h) (\<lambda>zr. obind (if zr = 0 then rd rb_parent z h else rb_minimum x h) (\<lambda>m. wr_left H m h))
     else Done h)"

definition move_last :: "rbp \<Rightarrow> rbp \<Rightarrow> rbp \<Rightarrow> 'v rbheap \<Rightarrow> 'v rbheap outcome" where
  "move_last H z x h = obind (rd rb_right H h) (\<lambda>right_most.
     if right_most = z
     then obind (rd rb_left z h) (\<lambda>zl. obind (if zl = 0 then rd rb_parent z h else rb_maximum x h) (\<lambda>m. wr_right H m h))
     else Done h)"

lemma splice_single_eq:
  "splice_single H z x h =
     obind (rd rb_parent z h) (\<lambda>zp.
     obind (if x \<noteq> 0 then wr_parent x zp h else Done h) (\<lambda>h.
     obind (replace_child H z x h) (\<lambda>h.
     obind (move_first H z x h) (\<lambda>h.
     obind (move_last H z x h) (\<lambda>h. Done (zp, h))))))"
  by (simp add: splice_single_def move_first_def move_last_def obind_assoc)

lemma move_first_at:
  assumes "rb_at h H (first_of H (before C @ inord l @ (z, zv) # inord r @ behind C), lm) C s" "h z = Some (mk_node zc (holepar H C) (rootp l) (rootp r) w)"
    and "z \<notin> addrs (before C @ inord l @ inord r @ behind C)" "s = (if l = PLeaf then r else l)" "l = PLeaf \<or> r = PLeaf"
  shows "\<exists>h'. move_first H z (rootp s) h = Done h' \<and> rb_at h' H (first_of H (before C @ inord l @ inord r @ behind C), lm) C s \<and> only {H} h h'"
proof -
  let ?e = "(first_of H (before C @ inord l @ (z, zv) # inord r @ behind C), lm)"
  obtain n where n: "h H = Some n" "rb_left n = fst ?e" using ctx_at_header assms(1) unfolding rb_at_def by blast
  show ?thesis
  proof (cases "before C = [] \<and> l = PLeaf")
    case True
    have "(if rootp r = 0 then rd rb_parent z h else rb_minimum (rootp s) h) = Done (first_of H (inord r @ behind C))"
    proof (cases "r = PLeaf")
      case r: False
      then have "rootp r \<noteq> 0" "inord r \<noteq> []" using assms(1,4) True by (cases r; auto simp: rb_at_def nodes_apart_def)+
      then show ?thesis using rb_minimum_at [OF assms(1)] assms(4) True r by simp
    qed (use assms(2) holepar_first [of C H] True in simp)
    then show ?thesis using n True assms(2) rb_at_ends(1) [OF assms(1) n(1)] by (simp add: only_def move_first_def)
  next
    case False
    then have "inord l \<noteq> [] \<or> before C \<noteq> []" by (cases l) auto
    then obtain a xs where xs: "before C @ inord l = a # xs" by (cases "before C @ inord l") auto
    then have e: "first_of H (before C @ inord l @ ys) = fst a" for ys by (metis append_Cons append_assoc first_of_simps(2))
    have "fst a \<in> addrs (before C @ inord l)" using xs by simp
    then have "fst a \<noteq> z" using assms(3) by auto
    then show ?thesis using n assms(1) e by (simp add: move_first_def)
  qed
qed

lemma move_mirror: "move_last H z x h = omap mirror (move_first H z x (mirror h))"
  by (simp add: move_first_def move_last_def omap_obind obind_omap omap_if rb_minimum_mirror [of x "mirror h", simplified] cong: if_cong)

lemma move_last_at:
  assumes "rb_at h H (fm, last_of H (before C @ inord l @ (z, zv) # inord r @ behind C)) C s" "h z = Some (mk_node zc (holepar H C) (rootp l) (rootp r) w)"
    and "z \<notin> addrs (before C @ inord l @ inord r @ behind C)" "s = (if l = PLeaf then r else l)" "l = PLeaf \<or> r = PLeaf"
  shows "\<exists>h'. move_last H z (rootp s) h = Done h' \<and> rb_at h' H (fm, last_of H (before C @ inord l @ inord r @ behind C)) C s \<and> only {H} h h'"
proof -
  let ?xs = "before C @ inord l @ (z, zv) # inord r @ behind C" and ?ys = "before C @ inord l @ inord r @ behind C"
  let ?xs' = "before (cmir C) @ inord (pmir r) @ (z, zv) # inord (pmir l) @ behind (cmir C)"
    and ?ys' = "before (cmir C) @ inord (pmir r) @ inord (pmir l) @ behind (cmir C)"
  have rev: "?xs' = rev ?xs" "?ys' = rev ?ys" by simp_all
  have 1: "rb_at (mirror h) H (first_of H ?xs', fm) (cmir C) (pmir s)"
    unfolding rev first_of_rev using rb_at_mirror [of h H "(fm, last_of H ?xs)" C s] assms(1) by (simp only: swap_simp)
  have 2: "mirror h z = Some (mk_node zc (holepar H (cmir C)) (rootp (pmir r)) (rootp (pmir l)) w)" using assms(2) by (simp add: mirror_node_mk)
  have 3: "z \<notin> addrs ?ys'" using assms(3) by auto
  have 4: "pmir s = (if pmir r = PLeaf then pmir l else pmir r)" "pmir r = PLeaf \<or> pmir l = PLeaf" using assms(4,5) by (cases l; cases r; simp)+
  obtain h' where h': "move_first H z (rootp (pmir s)) (mirror h) = Done h'" "rb_at h' H (first_of H ?ys', fm) (cmir C) (pmir s)"
      "only {H} (mirror h) h'"
    using move_first_at [OF 1 2 3 4] by blast
  have "rb_at (mirror h') H (fm, last_of H ?ys) C s"
    using rb_at_mirror [of "mirror h'" H "(fm, last_of H ?ys)" C s] h'(2) unfolding rev first_of_rev by (simp only: swap_simp mirror_mirror)
  moreover have "only {H} h (mirror h')" using h'(3) only_mirror [of "{H}" h "mirror h'"] by simp
  ultimately show ?thesis using h'(1) by (simp add: move_mirror)
qed

lemma splice_single_at:
  assumes at: "rb_at h H (first_of H xs, last_of H xs) C (PNode z zc zv l r)" and xs: "xs = before C @ inord l @ (z, zv) # inord r @ behind C"
    and s: "s = (if l = PLeaf then r else l)" "l = PLeaf \<or> r = PLeaf"
  shows "\<exists>h'. splice_single H z (rootp s) h = Done (holepar H C, h') \<and>
    rb_at h' H (first_of H (before C @ inord l @ inord r @ behind C), last_of H (before C @ inord l @ inord r @ behind C)) C s \<and> h' z = h z"
proof -
  let ?e = "(first_of H xs, last_of H xs)" and ?ys = "before C @ inord l @ inord r @ behind C"
  note look = rb_at_look [OF at]
  have ctx: "ctx_at h H ?e z C" and ap: "nodes_apart H (before C @ inord l @ (z, zv) # inord r @ behind C)" using at by (simp_all add: rb_at_def)
  have ts: "tree_at h z s" using at s(1) by (simp add: rb_at_def)
  have aps: "nodes_apart H (before C @ inord s @ behind C)" using ap s by (auto simp: nodes_apart_def)
  have z: "z \<noteq> 0" "z \<notin> addrs ?ys" "z \<noteq> H" "nodes_apart H (before C @ behind C)" using ap by (auto simp: nodes_apart_def)
  have zs: "z \<notin> addrs (inord s)" using z(2) s by auto
  obtain h1 where h1: "(if rootp s \<noteq> 0 then wr_parent (rootp s) (holepar H C) h else Done h) = Done h1" "tree_at h1 (holepar H C) s"
      "only (addrs (inord s)) h h1"
    using reparent_at [OF ts, of "holepar H C"] aps by (auto simp: nodes_apart_def)
  have c1: "ctx_at h1 H ?e z C" using h1(3) aps by (intro ctx_at_frame [OF ctx]) (auto simp: only_def nodes_apart_def)
  have z1: "h1 z = h z" using h1(3) zs by (simp add: only_def)
  obtain h2 where h2: "replace_child H z (rootp s) h1 = Done h2" "ctx_at h2 H ?e (rootp s) C"
      "only (insert H (addrs (before C) \<union> addrs (behind C))) h1 h2"
    using replace_child_at [OF c1 z(1,4) _ _ z1 [THEN trans, OF look], of "rootp s"] z(2) by auto
  have "tree_at h2 (holepar H C) s" using h2(3) aps by (intro tree_at_frame [OF h1(2)]) (auto simp: only_def nodes_apart_def)
  then have r2: "rb_at h2 H (first_of H xs, last_of H xs) C s" using h2(2) aps by (simp add: rb_at_def)
  have z2: "h2 z = h z" using h2(3) z z1 by (auto simp: only_def)
  obtain h3 where h3: "move_first H z (rootp s) h2 = Done h3" "rb_at h3 H (first_of H ?ys, last_of H xs) C s" "only {H} h2 h3"
    using move_first_at [OF r2 [unfolded xs] z2 [THEN trans, OF look] z(2) s] xs by auto
  have z3: "h3 z = h z" using h3(3) z(3) z2 by (simp add: only_def)
  obtain h4 where h4: "move_last H z (rootp s) h3 = Done h4" "rb_at h4 H (first_of H ?ys, last_of H ?ys) C s" "only {H} h3 h4"
    using move_last_at [OF h3(2) [unfolded xs] z3 [THEN trans, OF look] z(2) s] by auto
  have "h4 z = h z" using h4(3) z(3) z3 by (simp add: only_def)
  then show ?thesis using look h1(1) h2(1) h3(1) h4(1,2) by (simp add: splice_single_eq)
qed

subsection \<open>The successor takes the place of the node\<close>

text \<open>A path in a subtree, from the child of \<open>q\<close> down to a hole that holds \<open>x\<close>.\<close>

fun path_at :: "'v rbheap \<Rightarrow> rbp \<Rightarrow> rbp \<Rightarrow> 'v pc \<Rightarrow> bool" where
  "path_at h q x CTop \<longleftrightarrow> True"
| "path_at h q x (CLeft D p c v r) \<longleftrightarrow> h p = Some (mk_node c (holepar q D) x (rootp r) (Some v)) \<and> tree_at h p r \<and> path_at h q p D"
| "path_at h q x (CRight D p c v l) \<longleftrightarrow> h p = Some (mk_node c (holepar q D) (rootp l) x (Some v)) \<and> tree_at h p l \<and> path_at h q p D"

lemma tree_at_plug: "tree_at h q (plug D t) \<longleftrightarrow> path_at h q (rootp t) D \<and> tree_at h (holepar q D) t"
  by (induction D t rule: plug.induct) auto

lemma path_at_frame:
  "path_at h q x D \<Longrightarrow> (\<And>a. a \<in> addrs (before D) \<union> addrs (behind D) \<Longrightarrow> h' a = h a) \<Longrightarrow> path_at h' q x D"
proof (induction h q x D rule: path_at.induct)
  case (2 h q x D p c v r)
  then show ?case using tree_at_frame [of h p r h'] by auto
next
  case (3 h q x D p c v l)
  then show ?case using tree_at_frame [of h p l h'] by auto
qed simp

lemma path_at_upd [simp]: "a \<notin> addrs (before D) \<Longrightarrow> a \<notin> addrs (behind D) \<Longrightarrow> path_at (h(a := n)) q x D = path_at h q x D"
  by (rule iffI; erule path_at_frame) (metis Un_iff fun_upd_other)+

lemma holepar_any: "D \<noteq> CTop \<Longrightarrow> holepar q D = holepar q' D"
  by (cases D) simp_all

text \<open>The two ends of a path are moved.\<close>

lemma path_at_hole:
  assumes "path_at h q x D" "before D = []" "D \<noteq> CTop" "distinct (map fst (behind D))"
  shows "\<exists>n. h (holepar q D) = Some n \<and> path_at (h(holepar q D \<mapsto> n\<lparr>rb_left := x'\<rparr>)) q x' D"
  using assms by (cases D) auto

lemma path_at_top:
  assumes "path_at h q x D" "D \<noteq> CTop" "distinct (map fst (before D @ behind D))"
  shows "\<exists>n. h (rootq D x) = Some n \<and> path_at (h(rootq D x \<mapsto> n\<lparr>rb_parent := q'\<rparr>)) q' x D"
  using assms
proof (induction D arbitrary: x)
  case (CLeft D p c v r)
  show ?case
  proof (cases "D = CTop")
    case False
    have "distinct (map fst (before D @ behind D))" "path_at h q p D" using CLeft.prems by auto
    then obtain n where n: "h (rootq D p) = Some n" "path_at (h(rootq D p \<mapsto> n\<lparr>rb_parent := q'\<rparr>)) q' p D"
      using CLeft.IH [OF _ False] by blast
    have "rootq D p \<noteq> p" "rootq D p \<notin> addrs (inord r)" using rootq_in [OF False, of p] CLeft.prems(3) by auto
    then have "tree_at (h(rootq D p \<mapsto> n\<lparr>rb_parent := q'\<rparr>)) p r" "(h(rootq D p \<mapsto> n\<lparr>rb_parent := q'\<rparr>)) p = h p"
      using CLeft.prems(1) by simp_all
    then show ?thesis using n CLeft.prems(1) holepar_any [OF False, of q q'] unfolding rootq.simps path_at.simps by metis
  next
    case True
    have "tree_at (h(p \<mapsto> mk_node c q' x (rootp r) (Some v))) p r" using CLeft.prems True by simp
    then show ?thesis using CLeft.prems(1) True by (intro exI [of _ "mk_node c q x (rootp r) (Some v)"]) (simp del: fun_upd_apply add: fun_upd_same)
  qed
next
  case (CRight D p c v l)
  show ?case
  proof (cases "D = CTop")
    case False
    have "distinct (map fst (before D @ behind D))" "path_at h q p D" using CRight.prems by auto
    then obtain n where n: "h (rootq D p) = Some n" "path_at (h(rootq D p \<mapsto> n\<lparr>rb_parent := q'\<rparr>)) q' p D"
      using CRight.IH [OF _ False] by blast
    have "rootq D p \<noteq> p" "rootq D p \<notin> addrs (inord l)" using rootq_in [OF False, of p] CRight.prems(3) by auto
    then have "tree_at (h(rootq D p \<mapsto> n\<lparr>rb_parent := q'\<rparr>)) p l" "(h(rootq D p \<mapsto> n\<lparr>rb_parent := q'\<rparr>)) p = h p"
      using CRight.prems(1) by simp_all
    then show ?thesis using n CRight.prems(1) holepar_any [OF False, of q q'] unfolding rootq.simps path_at.simps by metis
  next
    case True
    have "tree_at (h(p \<mapsto> mk_node c q' (rootp l) x (Some v))) p l" using CRight.prems True by simp
    then show ?thesis using CRight.prems(1) True by (intro exI [of _ "mk_node c q (rootp l) x (Some v)"]) (simp del: fun_upd_apply add: fun_upd_same)
  qed
qed simp

definition unlink_next :: "rbp \<Rightarrow> rbp \<Rightarrow> rbp \<Rightarrow> 'v rbheap \<Rightarrow> (rbp \<times> 'v rbheap) outcome" where
  "unlink_next zr y x h =
     (if y \<noteq> zr
      then obind (rd rb_parent y h) (\<lambda>yp.
           obind (if x \<noteq> 0 then wr_parent x yp h else Done h) (\<lambda>h.
           obind (wr_left yp x h) (\<lambda>h.
           obind (wr_right y zr h) (\<lambda>h.
           obind (wr_parent zr y h) (\<lambda>h. Done (yp, h))))))
      else Done (y, h))"

definition take_place :: "rbp \<Rightarrow> rbp \<Rightarrow> rbp \<Rightarrow> 'v rbheap \<Rightarrow> 'v rbheap outcome" where
  "take_place H z y h =
     obind (replace_child H z y h) (\<lambda>h.
     obind (rd rb_parent z h) (\<lambda>zp.
     obind (wr_parent y zp h) (\<lambda>h.
     obind (rd rb_color y h) (\<lambda>yc.
     obind (rd rb_color z h) (\<lambda>zc.
     obind (wr_color y zc h) (\<lambda>h.
     wr_color z yc h))))))"

lemma splice_successor_eq:
  "splice_successor H z y x h =
     obind (rd rb_left z h) (\<lambda>zl.
     obind (wr_parent zl y h) (\<lambda>h.
     obind (wr_left y zl h) (\<lambda>h.
     obind (rd rb_right z h) (\<lambda>zr.
     obind (unlink_next zr y x h) (\<lambda>(x_parent, h).
     obind (take_place H z y h) (\<lambda>h. Done (x_parent, h)))))))"
  by (simp add: splice_successor_def unlink_next_def take_place_def obind_assoc)

lemma take_place_at:
  assumes "ctx_at h H e z C" "h z = Some (mk_node zc (holepar H C) zl zr zw)" "h y = Some (mk_node yc q (rootp l) (rootp r) (Some yv))"
    and "tree_at h y l" "tree_at h y r" "nodes_apart H (before C @ inord l @ (y, yv) # inord r @ behind C)"
    and "z \<noteq> 0" "z \<noteq> H" "z \<notin> addrs (before C @ inord l @ (y, yv) # inord r @ behind C)"
  shows "\<exists>h'. take_place H z y h = Done h' \<and> rb_at h' H e C (PNode y zc yv l r) \<and> (\<exists>n. h' z = Some n \<and> rb_color n = yc)"
proof -
  let ?S = "insert H (addrs (before C) \<union> addrs (behind C))"
  have ap: "nodes_apart H (before C @ behind C)" using assms(6) by (auto simp: nodes_apart_def)
  have y: "y \<notin> ?S" "y \<noteq> z" "y \<notin> addrs (inord l)" "y \<notin> addrs (inord r)" and z: "z \<notin> ?S" "z \<notin> addrs (inord l)" "z \<notin> addrs (inord r)"
    and t: "?S \<inter> addrs (inord l) = {}" "?S \<inter> addrs (inord r) = {}"
    using assms(6-9) by (auto simp: nodes_apart_def)
  obtain h1 where h1: "replace_child H z y h = Done h1" "ctx_at h1 H e y C" "only ?S h h1"
    using replace_child_at [OF assms(1,7) ap _ _ assms(2), of y] z(1) by auto
  have "h1 z = h z" "h1 y = h y" using h1(3) y z by (simp_all add: only_def)
  moreover have "tree_at h1 y l" using t(1) h1(3) by (intro tree_at_frame [OF assms(4)]) (auto simp: only_def)
  moreover have "tree_at h1 y r" using t(2) h1(3) by (intro tree_at_frame [OF assms(5)]) (auto simp: only_def)
  ultimately show ?thesis using h1(1,2) assms(2,3,6) y z by (simp add: take_place_def rb_at_def)
qed

lemma unlink_next_at:
  assumes "path_at h z y D" "tree_at h y yr" "h y = Some (mk_node yc (holepar z D) zl (rootp yr) (Some yv))" "before D = []"
    and "0 \<notin> addrs ((y, yv) # inord yr @ behind D)" "distinct (map fst ((y, yv) # inord yr @ behind D))"
  shows "\<exists>h' q. unlink_next (rootq D y) y (rootp yr) h = Done (holepar y D, h') \<and> tree_at h' y (plug D yr) \<and>
    h' y = Some (mk_node yc q zl (rootp (plug D yr)) (Some yv)) \<and> only (addrs ((y, yv) # inord yr @ behind D)) h h'"
proof (cases "D = CTop")
  case True
  then show ?thesis using assms by (simp add: unlink_next_def)
next
  case D: False
  let ?q = "holepar z D" and ?x = "rootp yr" and ?zr = "rootq D y"
  have zr: "?zr = rootp (plug D yr)" "?zr = rootq D ?x" using rootq_plug [of D yr] D by (cases D; simp)+
  have q: "?q \<in> addrs (behind D)" "?zr \<in> addrs (behind D)" using holepar_in [OF D, of z] rootq_in [OF D, of y] assms(4) by simp_all
  have dj: "y \<notin> addrs (behind D)" "y \<notin> addrs (inord yr)" "addrs (inord yr) \<inter> addrs (behind D) = {}" "distinct (map fst (behind D))"
    using assms(6) by auto
  obtain h1 where h1: "(if ?x \<noteq> 0 then wr_parent ?x ?q h else Done h) = Done h1" "tree_at h1 ?q yr" "only (addrs (inord yr)) h h1"
    using reparent_at [OF assms(2), of ?q] assms(5,6) by auto
  have "path_at h1 z y D" using h1(3) dj(3) assms(4) by (intro path_at_frame [OF assms(1)]) (auto simp: only_def)
  then obtain n where n: "h1 ?q = Some n" "path_at (h1(?q \<mapsto> n\<lparr>rb_left := ?x\<rparr>)) z ?x D"
    using path_at_hole [of h1 z y D ?x] assms(4) D dj(4) by blast
  define h2 where "h2 = (h1(?q \<mapsto> n\<lparr>rb_left := ?x\<rparr>))(y \<mapsto> mk_node yc ?q zl ?zr (Some yv))"
  have "path_at h2 z ?x D" using n(2) dj(1) assms(4) by (simp add: h2_def del: fun_upd_apply)
  then obtain m where m: "h2 ?zr = Some m" "path_at (h2(?zr \<mapsto> m\<lparr>rb_parent := y\<rparr>)) y ?x D"
    using path_at_top [of h2 z ?x D y] zr(2) assms(4) D dj(4) by auto
  let ?h3 = "h2(?zr \<mapsto> m\<lparr>rb_parent := y\<rparr>)"
  have h1y: "h1 y = h y" using h1(3) dj(2) by (simp add: only_def)
  have ne: "?q \<noteq> y" "?zr \<noteq> y" "?q \<notin> addrs (inord yr)" "?zr \<notin> addrs (inord yr)" using q dj(1,3) by auto
  have "unlink_next ?zr y ?x h = Done (holepar y D, ?h3)"
    using assms(3) h1(1) h1y n(1) m(1) ne holepar_any [OF D, of y z] by (simp add: unlink_next_def h2_def split del: if_split)
  moreover have "tree_at ?h3 (holepar y D) yr" using h1(2) ne(3,4) dj(2) holepar_any [OF D, of y z] by (simp add: h2_def del: fun_upd_apply)
  moreover have "?h3 y = Some (mk_node yc ?q zl (rootp (plug D yr)) (Some yv))" using ne zr(1) by (simp add: h2_def)
  moreover have "only (addrs ((y, yv) # inord yr @ behind D)) h ?h3" using h1(3) q by (auto simp: only_def h2_def)
  ultimately show ?thesis using m(2) by (auto simp: tree_at_plug simp del: fun_upd_apply)
qed

lemma splice_successor_at:
  assumes at: "rb_at h H e C (PNode z zc zv l (plug D (PNode y yc yv PLeaf yr)))" and l: "l \<noteq> PLeaf" and D: "before D = []"
  shows "\<exists>h'. splice_successor H z y (rootp yr) h = Done (holepar y D, h') \<and> rb_at h' H e C (PNode y zc yv l (plug D yr)) \<and>
    (\<exists>n. h' z = Some n \<and> rb_color n = yc)"
proof -
  let ?R = "addrs ((y, yv) # inord yr @ behind D)"
  note look = rb_at_look [OF at]
  have ctx: "ctx_at h H e z C" and tl: "tree_at h z l" and tr: "tree_at h z (plug D (PNode y yc yv PLeaf yr))"
    and ap: "nodes_apart H (before C @ inord l @ (z, zv) # (y, yv) # inord yr @ behind D @ behind C)"
    using at D by (simp_all add: rb_at_def inord_plug)
  have p: "path_at h z y D" "h y = Some (mk_node yc (holepar z D) 0 (rootp yr) (Some yv))" "tree_at h y yr" using tr by (simp_all add: tree_at_plug)
  have dj: "?R \<inter> addrs (inord l) = {}" "z \<notin> ?R" "z \<notin> addrs (inord l)" "insert H (addrs (before C) \<union> addrs (behind C)) \<inter> (?R \<union> addrs (inord l)) = {}"
    "y \<notin> addrs (inord yr)" "y \<notin> addrs (behind D)" using ap by (auto simp: nodes_apart_def)
  obtain h1 where h1: "wr_parent (rootp l) y h = Done h1" "tree_at h1 y l" "only (addrs (inord l)) h h1"
    using reparent_at [OF tl, of y] l ap by (auto simp: nodes_apart_def)
  have f1: "h1 a = h a" if "a \<notin> addrs (inord l)" for a using h1(3) that by (simp add: only_def)
  define h2 where "h2 = h1(y \<mapsto> mk_node yc (holepar z D) (rootp l) (rootp yr) (Some yv))"
  have w2: "wr_left y (rootp l) h1 = Done h2" using p(2) f1 [of y] dj(1) by (simp add: h2_def)
  have "path_at h1 z y D" using D dj(1) f1 by (intro path_at_frame [OF p(1)]) auto
  then have p2: "path_at h2 z y D" using D dj(6) by (simp add: h2_def del: fun_upd_apply)
  have "tree_at h1 y yr" using dj(1) f1 by (intro tree_at_frame [OF p(3)]) auto
  then have t2: "tree_at h2 y yr" using dj(5) by (simp add: h2_def del: fun_upd_apply)
  have d: "0 \<notin> ?R" "distinct (map fst ((y, yv) # inord yr @ behind D))" using ap by (auto simp: nodes_apart_def)
  obtain h3 q where h3: "unlink_next (rootq D y) y (rootp yr) h2 = Done (holepar y D, h3)" "tree_at h3 y (plug D yr)"
      "h3 y = Some (mk_node yc q (rootp l) (rootp (plug D yr)) (Some yv))" "only ?R h2 h3"
    using unlink_next_at [OF p2 t2 _ D d, of yc "rootp l"] by (auto simp: h2_def)
  have f3: "h3 a = h1 a" if "a \<notin> ?R" for a using h3(4) that by (auto simp: only_def h2_def)
  have z3: "h3 z = h z" using f3 [OF dj(2)] f1 [OF dj(3)] by simp
  have c3: "ctx_at h3 H e z C" using dj(4) f1 f3 by (intro ctx_at_frame [OF ctx]) (metis IntI UnI1 UnI2 empty_iff)
  have l3: "tree_at h3 y l" using dj(1) f3 by (intro tree_at_frame [OF h1(2)]) blast
  have "nodes_apart H (before C @ inord l @ (y, yv) # inord (plug D yr) @ behind C)" "z \<noteq> 0" "z \<noteq> H"
      "z \<notin> addrs (before C @ inord l @ (y, yv) # inord (plug D yr) @ behind C)"
    using ap D by (auto simp: nodes_apart_def inord_plug)
  from take_place_at [OF c3 z3 [THEN trans, OF look] h3(3) l3 h3(2) this] obtain h4 where
    h4: "take_place H z y h3 = Done h4" "rb_at h4 H e C (PNode y zc yv l (plug D yr))" "\<exists>n. h4 z = Some n \<and> rb_color n = yc" by blast
  have "rd rb_right z h2 = Done (rootq D y)"
    using look f1 [OF dj(3)] dj(2) rootq_plug [of D "PNode y yc yv PLeaf yr"] by (simp add: h2_def)
  then have "splice_successor H z y (rootp yr) h = Done (holepar y D, h4)"
    using look h1(1) w2 h3(1) h4(1) by (simp add: splice_successor_eq)
  then show ?thesis using h4(2,3) by blast
qed

subsection \<open>The whole erasure\<close>

lemma cc_CTop [simp]: "cc CTop C = C"
  by (induction C) simp_all

lemma cc_simps [simp]: "plug (cc C D) t = plug C (plug D t)" "before (cc C D) = before C @ before D" "behind (cc C D) = behind D @ behind C"
  "holepar H (cc C D) = holepar (holepar H C) D"
  by (induction D arbitrary: t) simp_all

lemma focus_on: "a \<in> addrs (inord t) \<Longrightarrow> \<exists>C c v l r. t = plug C (PNode a c v l r)"
proof (induction t)
  case (PNode p c v l r)
  consider "a = p" | "a \<in> addrs (inord l)" | "a \<in> addrs (inord r)" using PNode.prems by auto
  then show ?case
  proof cases
    case 1
    then show ?thesis by (metis plug.simps(1))
  next
    case 2
    then obtain C c' v' l' r' where "l = plug C (PNode a c' v' l' r')" using PNode.IH(1) by blast
    then have "PNode p c v l r = plug (cc (CLeft CTop p c v r) C) (PNode a c' v' l' r')" by simp
    then show ?thesis by blast
  next
    case 3
    then obtain C c' v' l' r' where "r = plug C (PNode a c' v' l' r')" using PNode.IH(2) by blast
    then have "PNode p c v l r = plug (cc (CRight CTop p c v l) C) (PNode a c' v' l' r')" by simp
    then show ?thesis by blast
  qed
qed simp

lemma split_at_key:
  assumes "distinct (map fst (ys @ (z, v) # zs))" "ys' @ (z, w) # zs' = ys @ (z, v) # zs"
  shows "ys' = ys \<and> zs' = zs"
  using assms
proof (induction ys arbitrary: ys')
  case Nil
  then show ?case by (cases ys') auto
next
  case (Cons a ys)
  then show ?case by (cases ys') auto
qed

lemma leftmost: "t \<noteq> PLeaf \<Longrightarrow> \<exists>D y yc yv yr. t = plug D (PNode y yc yv PLeaf yr) \<and> before D = []"
proof (induction t)
  case (PNode p c v l r)
  show ?case
  proof (cases "l = PLeaf")
    case True
    then show ?thesis by (intro exI [of _ CTop]) simp
  next
    case False
    then obtain D y yc yv yr where "l = plug D (PNode y yc yv PLeaf yr)" "before D = []" using PNode.IH(1) by blast
    then show ?thesis by (intro exI [of _ "cc (CLeft CTop p c v r) D"]) auto
  qed
qed simp

lemma crb_cc:
  assumes "rb n (plug D t)" "crb n C" "isblack (plug D t) \<or> pblack C"
  shows "\<exists>m. rb m t \<and> crb m (cc C D) \<and> (isblack t \<or> pblack (cc C D))"
  using assms
proof (induction D t rule: plug.induct)
  case (2 D p c v r t)
  then obtain m where "rb m (PNode p c v t r)" "crb m (cc C D)" "isblack (PNode p c v t r) \<or> pblack (cc C D)" by auto
  then show ?case by (cases c) auto
next
  case (3 D p c v l t)
  then obtain m where "rb m (PNode p c v l t)" "crb m (cc C D)" "isblack (PNode p c v l t) \<or> pblack (cc C D)" by auto
  then show ?case by (cases c) auto
qed auto

text \<open>What is left of the black height where a node with a child at most was.\<close>

definition gap_of :: "RbTreeColor \<Rightarrow> nat \<Rightarrow> 'v pt \<Rightarrow> bool" where
  "gap_of c k s \<longleftrightarrow> (if c = kRed then rb k s \<and> isblack s else \<exists>n. k = Suc n \<and> gapped n s)"

lemma single_gap:
  assumes "rb k (PNode z c v l r)" "l = PLeaf \<or> r = PLeaf"
  shows "gap_of c k (if l = PLeaf then r else l)"
proof -
  have b: "gapped 0 s" if "rb 0 s" for s :: "'a pt"
    using that by (cases s; cases "case s of PNode p c v l r \<Rightarrow> c | PLeaf \<Rightarrow> kBlack") (auto simp: gapped_def)
  show ?thesis using assms b by (cases c) (auto simp: gap_of_def)
qed

definition close_gap :: "rbp \<Rightarrow> rbp \<Rightarrow> rbp \<Rightarrow> rbp \<Rightarrow> 'v rbheap \<Rightarrow> (rbp \<times> 'v rbheap) outcome" where
  "close_gap H z x x_parent h =
     obind (rd rb_color z h) (\<lambda>c.
     obind (if c \<noteq> kRed
            then obind (while_do (erase_cond H) (erase_body H) (x, x_parent, False, h)) (\<lambda>(x, x_parent, stop, h).
                 wr_color_opt x kBlack h)
            else Done h) (\<lambda>h.
     Done (z, h)))"

lemma RbTreeRebalanceForErase_eq:
  "RbTreeRebalanceForErase H z h =
     obind (rd rb_left z h) (\<lambda>zl.
     obind (rd rb_right z h) (\<lambda>zr.
     if zl = 0 \<or> zr = 0
     then obind (splice_single H z (if zl = 0 then zr else zl) h) (\<lambda>(x_parent, h). close_gap H z (if zl = 0 then zr else zl) x_parent h)
     else obind (rb_minimum zr h) (\<lambda>y.
          obind (rd rb_right y h) (\<lambda>x.
          obind (if y \<noteq> z then splice_successor H z y x h else splice_single H z x h) (\<lambda>(x_parent, h). close_gap H z x x_parent h)))))"
  by (cases "rd rb_left z h"; cases "rd rb_right z h") (auto simp: RbTreeRebalanceForErase_def close_gap_def [abs_def] obind_assoc cong: if_cong)

lemma gap_closed:
  assumes "rb_at h H e C s" "h z = Some n" "z \<notin> extent H C s" "crb k C" "gap_of (rb_color n) k s"
  shows "\<exists>h' T m. close_gap H z (rootp s) (holepar H C) h = Done (z, h') \<and> rb_at h' H e CTop T \<and> inord T = inord (plug C s) \<and> rb m T \<and> isblack T \<and> h' z = h z"
proof (cases "rb_color n = kRed")
  case True
  then have "rb k s" "isblack s" using assms(5) by (simp_all add: gap_of_def)
  moreover have "isblack (plug C s)" using \<open>isblack s\<close> crb_root_black [OF assms(4)] by simp
  ultimately show ?thesis using True crb_plug [OF assms(4)] assms(1,2) rb_at_plug [of h H e C s] by (auto simp: close_gap_def)
next
  case False
  then obtain j where "gapped j s" "k = Suc j" using assms(5) by (auto simp: gap_of_def)
  then obtain x y stop h1 where r: "while_do (erase_cond H) (erase_body H) (rootp s, holepar H C, False, h) = Done (x, y, stop, h1)"
      "loop_post H e C s h (x, y, stop, h1)"
    using erase_loop [OF assms(1), of j] assms(4) by (metis prod_cases4)
  then obtain h2 T m where h2: "wr_color_opt x kBlack h1 = Done h2" "rb_at h2 H e CTop T" "inord T = inord (plug C s)" "rb m T" "isblack T"
      "only (extent H C s) h h2"
    unfolding loop_post_def prod.case by blast
  have "close_gap H z (rootp s) (holepar H C) h = Done (z, h2)" using r(1) h2(1) False assms(2) by (simp add: close_gap_def)
  moreover have "h2 z = h z" using h2(6) assms(3) by (simp add: only_def)
  ultimately show ?thesis using h2(2-5) by blast
qed

definition erased :: "rbp \<Rightarrow> rbp \<Rightarrow> (rbp \<times> 'v) list \<Rightarrow> (rbp \<times> 'v rbheap) outcome \<Rightarrow> bool" where
  "erased H z ys res \<longleftrightarrow> (\<exists>h' T m. res = Done (z, h') \<and> inord T = ys \<and> rb_at h' H (first_of H ys, last_of H ys) CTop T \<and>
     rb m T \<and> isblack T \<and> h' z \<noteq> None)"

lemma erase_single:
  assumes at: "rb_at h H (first_of H xs, last_of H xs) C (PNode z zc zv l r)" and xs: "xs = before C @ inord l @ (z, zv) # inord r @ behind C"
    and rb: "rb k (PNode z zc zv l r)" "crb k C" and one: "l = PLeaf \<or> r = PLeaf"
  shows "erased H z (before C @ inord l @ inord r @ behind C) (RbTreeRebalanceForErase H z h)"
proof -
  let ?ys = "before C @ inord l @ inord r @ behind C"
  note look = rb_at_look [OF at]
  have ap: "nodes_apart H (before C @ inord l @ (z, zv) # inord r @ behind C)" using at by (simp add: rb_at_def)
  have nz: "rootp l = 0 \<longleftrightarrow> l = PLeaf" "rootp r = 0 \<longleftrightarrow> r = PLeaf" using ap by (cases l; cases r; auto simp: nodes_apart_def)+
  define s where "s = (if l = PLeaf then r else l)"
  have s: "inord s = inord l @ inord r" using one by (auto simp: s_def)
  obtain h1 where h1: "splice_single H z (rootp s) h = Done (holepar H C, h1)" "rb_at h1 H (first_of H ?ys, last_of H ?ys) C s" "h1 z = h z"
    using splice_single_at [OF at xs s_def one] by blast
  have z: "z \<notin> extent H C s" using ap s by (auto simp: extent_def nodes_apart_def)
  have "gap_of zc k s" using single_gap [OF rb(1) one] by (simp add: s_def)
  then obtain h2 T m where h2: "close_gap H z (rootp s) (holepar H C) h1 = Done (z, h2)" "rb_at h2 H (first_of H ?ys, last_of H ?ys) CTop T" "inord T = inord (plug C s)" "rb m T" "isblack T"
      "h2 z = h1 z"
    using gap_closed [OF h1(2) h1(3) [THEN trans, OF look] z rb(2)] by auto
  have i: "inord T = ?ys" using h2(3) s by (simp add: inord_plug)
  have "RbTreeRebalanceForErase H z h = Done (z, h2)"
    using look nz one h1(1) h2(1) by (auto simp: RbTreeRebalanceForErase_eq s_def)
  then show ?thesis using h2(2,4-6) i look h1(3) by (auto simp: erased_def)
qed

lemma erase_successor:
  assumes at: "rb_at h H (first_of H xs, last_of H xs) C (PNode z zc zv l r)" and xs: "xs = before C @ inord l @ (z, zv) # inord r @ behind C"
    and rb: "rb k (PNode z zc zv l r)" "crb k C" "isblack (PNode z zc zv l r) \<or> pblack C" and two: "l \<noteq> PLeaf" "r \<noteq> PLeaf"
  shows "erased H z (before C @ inord l @ inord r @ behind C) (RbTreeRebalanceForErase H z h)"
proof -
  let ?ys = "before C @ inord l @ inord r @ behind C"
  note look = rb_at_look [OF at]
  have ap: "nodes_apart H (before C @ inord l @ (z, zv) # inord r @ behind C)" using at by (simp add: rb_at_def)
  have nz: "rootp l = 0 \<longleftrightarrow> l = PLeaf" "rootp r = 0 \<longleftrightarrow> r = PLeaf" using ap by (cases l; cases r; auto simp: nodes_apart_def)+
  obtain D y yc yv yr where y: "r = plug D (PNode y yc yv PLeaf yr)" "before D = []" using leftmost two(2) by blast
  have r: "inord r = (y, yv) # inord yr @ behind D" using y by (simp add: inord_plug)
  have "inord l \<noteq> []" using two(1) by (cases l) simp_all
  then have e: "first_of H xs = first_of H ?ys" "last_of H xs = last_of H ?ys" unfolding xs r by (cases "before C"; simp)+
  let ?C = "cc (CRight C y zc yv l) D"
  have cr: "rb_at h H (first_of H xs, last_of H xs) (CRight C z zc zv l) r" "rb_at h H (first_of H xs, last_of H xs) (cc (CRight C z zc zv l) D) (PNode y yc yv PLeaf yr)"
    using at y(1) by (simp_all add: rb_at_cc)
  have sel: "rb_minimum (rootp r) h = Done y" "rd rb_right y h = Done (rootp yr)"
    using rb_minimum_at [OF cr(1) two(2)] r rb_at_look [OF cr(2)] by simp_all
  have yz: "y \<noteq> z" using ap r by (auto simp: nodes_apart_def)
  have at': "rb_at h H (first_of H ?ys, last_of H ?ys) C (PNode z zc zv l (plug D (PNode y yc yv PLeaf yr)))" using at unfolding e y(1) [symmetric] .
  obtain h1 n where h1: "splice_successor H z y (rootp yr) h = Done (holepar y D, h1)" "rb_at h1 H (first_of H ?ys, last_of H ?ys) ?C yr"
      "h1 z = Some n" "rb_color n = yc"
    using splice_successor_at [OF at' two(1) y(2)] unfolding rb_at_cc rb_at_zip by blast
  obtain k' where "rb k' r" "crb k' (CRight C y zc yv l)" "isblack r \<or> zc = kBlack" using rb by (cases zc) auto
  then obtain k'' where k: "rb k'' (PNode y yc yv PLeaf yr)" "crb k'' ?C" using crb_cc [of k' D _ "CRight C y zc yv l"] y(1) by auto
  have z: "z \<notin> extent H ?C yr" using ap r y(2) by (auto simp: extent_def nodes_apart_def)
  have "gap_of yc k'' yr" using single_gap [OF k(1)] by simp
  then obtain h2 T m where h2: "close_gap H z (rootp yr) (holepar y D) h1 = Done (z, h2)" "rb_at h2 H (first_of H ?ys, last_of H ?ys) CTop T"
      "inord T = inord (plug ?C yr)" "rb m T" "isblack T" "h2 z = h1 z"
    using gap_closed [OF h1(2,3) z k(2)] h1(4) by auto
  have i: "inord T = ?ys" using h2(3) r y(2) by (simp add: inord_plug)
  have "RbTreeRebalanceForErase H z h = Done (z, h2)"
    using look nz two sel yz h1(1) h2(1) by (simp add: RbTreeRebalanceForErase_eq)
  then show ?thesis using h2(2,4-6) i h1(3) by (auto simp: erased_def)
qed

lemma rb_erase_at:
  assumes "rbtree t (ys @ (z, v) # zs)"
  shows "\<exists>t'. rb_erase z t = Done t' \<and> rbtree t' (ys @ zs) \<and> rb_header t' = rb_header t \<and> rb_heap t' z = None"
proof -
  let ?H = "rb_header t" and ?xs = "ys @ (z, v) # zs"
  obtain T m where T: "rb_at (rb_heap t) ?H (first_of ?H ?xs, last_of ?H ?xs) CTop T" "inord T = ?xs" "rb m T" "isblack T" "node_count t = of_nat (length ?xs)"
    using assms unfolding rbtree_def by blast
  have "z \<in> addrs (inord T)" using T(2) by simp
  then obtain C c w l r where f: "T = plug C (PNode z c w l r)" using focus_on by blast
  have x: "before C @ inord l @ (z, w) # inord r @ behind C = ?xs" using T(2) f by (simp add: inord_plug)
  have at: "rb_at (rb_heap t) ?H (first_of ?H ?xs, last_of ?H ?xs) C (PNode z c w l r)" using T(1) f rb_at_plug by blast
  have "distinct (map fst ?xs)" using T(1,2) by (simp add: rb_at_def nodes_apart_def)
  then have "before C @ inord l = ys \<and> inord r @ behind C = zs" using split_at_key [of ys z v zs "before C @ inord l" w "inord r @ behind C"] x by simp
  then have yz: "before C @ inord l @ inord r @ behind C = ys @ zs" by (metis append_assoc)
  obtain k where k: "rb k (PNode z c w l r)" "crb k C" "isblack (PNode z c w l r) \<or> pblack C"
    using crb_cc [of m C "PNode z c w l r" CTop] T(3,4) f by auto
  have "erased ?H z (ys @ zs) (RbTreeRebalanceForErase ?H z (rb_heap t))"
    using erase_single [OF at x [symmetric] k(1,2)] erase_successor [OF at x [symmetric] k] unfolding yz by blast
  then obtain h' T' m' where e: "RbTreeRebalanceForErase ?H z (rb_heap t) = Done (z, h')" "inord T' = ys @ zs"
      "rb_at h' ?H (first_of ?H (ys @ zs), last_of ?H (ys @ zs)) CTop T'" "rb m' T'" "isblack T'" "h' z \<noteq> None"
    unfolding erased_def by blast
  have "z \<noteq> ?H" "z \<notin> addrs (inord T')" using T(1,2) e(2) by (auto simp: rb_at_def nodes_apart_def)
  then have "rb_at (h'(z := None)) ?H (first_of ?H (ys @ zs), last_of ?H (ys @ zs)) CTop T'" using e(3) by (simp add: rb_at_def)
  moreover have "rb_erase z t = Done (t\<lparr>rb_heap := h'(z := None), node_count := node_count t - 1\<rparr>)"
    using e(1,6) by (auto simp: rb_erase_def deref_def)
  ultimately show ?thesis using e(2,4,5) T(5) by (auto simp: rbtree_def)
qed

end
