(* ===== verification/Rb_Copy.thy ===== *)
theory Rb_Copy
  imports Rb_Splice
begin

text \<open>
  Clearing and copying a red-black tree: \<open>clear\<close> frees exactly the nodes of the tree, and the copy
  has the values and the colours of its source, at fresh addresses, and leaves the source as it is.
\<close>

subsection \<open>Clearing\<close>

lemma erase_rec_at:
  assumes "tree_at h q t" "0 \<notin> addrs (inord t)" "distinct (map fst (inord t))"
  shows "erase_rec (rootp t) h = Some (Done (\<lambda>a. if a \<in> addrs (inord t) then None else h a))"
  using assms
proof (induction t arbitrary: h q)
  case PLeaf
  then show ?case by (subst erase_rec.simps) simp
next
  case (PNode p c v l r)
  let ?h = "\<lambda>a. if a \<in> addrs (inord r) then None else h a"
  have ne: "p \<noteq> 0" "p \<notin> addrs (inord l)" "p \<notin> addrs (inord r)" "addrs (inord l) \<inter> addrs (inord r) = {}" using PNode.prems by auto
  have r: "erase_rec (rootp r) h = Some (Done ?h)" using PNode.IH(2) [of h p] PNode.prems by simp
  have "tree_at h p l" using PNode.prems(1) by simp
  then have "tree_at (?h(p := None)) p l" by (rule tree_at_frame) (use ne in auto)
  moreover have "0 \<notin> addrs (inord l)" "distinct (map fst (inord l))" using PNode.prems by simp_all
  ultimately have l: "erase_rec (rootp l) (?h(p := None)) = Some (Done (\<lambda>a. if a \<in> addrs (inord l) then None else (?h(p := None)) a))"
    by (rule PNode.IH(1))
  have e: "(\<lambda>a. if a \<in> addrs (inord l) then None else (?h(p := None)) a) = (\<lambda>a. if a \<in> addrs (inord (PNode p c v l r)) then None else h a)"
    by (auto simp: fun_eq_iff)
  have "rd rb_left p ?h = Done (rootp l)" "rd rb_right p h = Done (rootp r)" using PNode.prems(1) ne(3) by simp_all
  then show ?case using ne(1) r l unfolding e by (subst erase_rec.simps) (simp del: fun_upd_apply)
qed

lemma rbtree_fits: "rbtree t xs \<Longrightarrow> length xs < 2 ^ 64"
proof -
  assume "rbtree t xs"
  then have d: "distinct (map fst xs)" "0 \<notin> addrs xs" by (auto simp: rbtree_def rb_at_def nodes_apart_def)
  have "length xs = card (addrs xs)" using distinct_card [OF d(1)] by simp
  also have "\<dots> < card (UNIV :: rbp set)" using d(2) by (intro psubset_card_mono) auto
  finally show ?thesis by (simp add: card_word)
qed

lemma node_count_at: "rbtree t xs \<Longrightarrow> unat (node_count t) = length xs"
proof -
  assume t: "rbtree t xs"
  then have "node_count t = of_nat (length xs)" by (auto simp: rbtree_def)
  then show ?thesis using rbtree_fits [OF t] by (simp add: unsigned_of_nat take_bit_nat_eq_self)
qed

lemma node_count_0: "rbtree t xs \<Longrightarrow> node_count t = 0 \<longleftrightarrow> xs = []"
  using node_count_at [of t xs] unat_eq_zero [of "node_count t"] by simp

lemma rbtree_Nil:
  assumes "rb_heap t (rb_header t) = Some (mk_node kRed 0 (rb_header t) (rb_header t) None)" "rb_header t \<noteq> 0" "node_count t = 0"
  shows "rbtree t []"
  unfolding rbtree_def by (rule exI [of _ PLeaf], rule exI [of _ 0]) (simp add: rb_at_def nodes_apart_def assms)

lemma new_RbTree_at: "H \<noteq> 0 \<Longrightarrow> rbtree (new_RbTree H h) []"
  by (rule rbtree_Nil) (simp_all add: new_RbTree_def)

lemma rb_clear_at:
  assumes "rbtree t xs"
  shows "\<exists>t'. rb_clear t = Done t' \<and> rbtree t' [] \<and> rb_header t' = rb_header t \<and>
    (\<forall>a. a \<noteq> rb_header t \<longrightarrow> rb_heap t' a = (if a \<in> addrs xs then None else rb_heap t a))"
proof (cases "xs = []")
  case True
  then show ?thesis using assms node_count_0 [OF assms] by (auto simp: rb_clear_def)
next
  case False
  let ?H = "rb_header t" and ?h = "\<lambda>a. if a \<in> addrs xs then None else rb_heap t a"
  obtain T where T: "rb_at (rb_heap t) ?H (first_of ?H xs, last_of ?H xs) CTop T" "inord T = xs" using assms by (auto simp: rbtree_def)
  have t: "tree_at (rb_heap t) ?H T" "0 \<notin> addrs (inord T)" "distinct (map fst (inord T))" "?H \<noteq> 0" "?H \<notin> addrs xs"
    and h: "rb_heap t ?H = Some (mk_node kRed (rootp T) (first_of ?H xs) (last_of ?H xs) None)" using T by (auto simp: rb_at_def nodes_apart_def)
  have e: "erase_rec (rootp T) (rb_heap t) = Some (Done ?h)" using erase_rec_at [OF t(1-3)] T(2) by simp
  have "rb_clear t = Done (t\<lparr>rb_heap := ?h(?H \<mapsto> mk_node kRed 0 ?H ?H None), node_count := 0\<rparr>)"
    using node_count_0 [OF assms] False h e t(5) by (simp add: rb_clear_def run_loop_def)
  moreover have "rbtree (t\<lparr>rb_heap := ?h(?H \<mapsto> mk_node kRed 0 ?H ?H None), node_count := 0\<rparr>) []"
    using t(4) by (intro rbtree_Nil) simp_all
  ultimately show ?thesis by simp
qed

subsection \<open>Copying\<close>

text \<open>Two trees with the same shape, colours and values.\<close>

fun alike :: "'v pt \<Rightarrow> 'v pt \<Rightarrow> bool" where
  "alike PLeaf t \<longleftrightarrow> t = PLeaf"
| "alike (PNode p c v l r) t \<longleftrightarrow> (case t of PLeaf \<Rightarrow> False | PNode p' c' v' l' r' \<Rightarrow> c' = c \<and> v' = v \<and> alike l l' \<and> alike r r')"

lemma alike_same:
  assumes "alike t t'"
  shows "map snd (inord t') = map snd (inord t)" "isblack t' = isblack t" "rb n t \<Longrightarrow> rb n t'"
proof -
  show "map snd (inord t') = map snd (inord t)" using assms by (induction t t' rule: alike.induct) (auto split: pt.splits)
  show "isblack t' = isblack t" using assms by (cases t; cases t') auto
  have "rb n t' \<and> isblack t' = isblack t" if "rb n t" "alike t t'" for n and t t' :: "'a pt"
    using that
  proof (induction t arbitrary: n t')
    case (PNode p c v l r)
    obtain p' l' r' where t': "t' = PNode p' c v l' r'" "alike l l'" "alike r r'" using PNode.prems(2) by (cases t') auto
    show ?case
    proof (cases c)
      case kRed
      then show ?thesis using PNode.IH(1) [OF _ t'(2), of n] PNode.IH(2) [OF _ t'(3), of n] PNode.prems(1) t'(1) by simp
    next
      case kBlack
      then obtain m where "n = Suc m" "rb m l" "rb m r" using PNode.prems(1) by auto
      then show ?thesis using PNode.IH(1) [OF _ t'(2), of m] PNode.IH(2) [OF _ t'(3), of m] kBlack t'(1) by simp
    qed
  qed simp
  then show "rb n t \<Longrightarrow> rb n t'" using assms by simp
qed

text \<open>The next \<open>k\<close> addresses that \<open>new\<close> returns are not in use.\<close>

definition news :: "(nat \<Rightarrow> rbp) \<Rightarrow> nat \<Rightarrow> nat \<Rightarrow> rbp set" where
  "news nw i k = nw ` {i..<i + k}"

definition fresh :: "(nat \<Rightarrow> rbp) \<Rightarrow> nat \<Rightarrow> nat \<Rightarrow> 'v rbheap \<Rightarrow> bool" where
  "fresh nw i k h \<longleftrightarrow> inj_on nw {i..<i + k} \<and> (\<forall>a \<in> news nw i k. a \<noteq> 0 \<and> h a = None)"

lemma fresh_split:
  assumes "fresh nw i (Suc (k + m)) h"
  shows "nw i \<noteq> 0" "h (nw i) = None" "fresh nw (Suc i) k h" "fresh nw (Suc i + k) m h"
    "nw i \<notin> news nw (Suc i) k" "nw i \<notin> news nw (Suc i + k) m" "news nw (Suc i) k \<inter> news nw (Suc i + k) m = {}"
    "news nw i (Suc (k + m)) = insert (nw i) (news nw (Suc i) k \<union> news nw (Suc i + k) m)"
proof -
  have s: "{i..<i + Suc (k + m)} = insert i ({Suc i..<Suc i + k} \<union> {Suc i + k..<Suc i + k + m})" by auto
  have inj: "inj_on nw (insert i ({Suc i..<Suc i + k} \<union> {Suc i + k..<Suc i + k + m}))" using assms s by (simp add: fresh_def)
  show n: "news nw i (Suc (k + m)) = insert (nw i) (news nw (Suc i) k \<union> news nw (Suc i + k) m)"
    unfolding news_def s by (simp add: image_Un)
  have f: "a \<noteq> 0 \<and> h a = None" if "a \<in> news nw i (Suc (k + m))" for a using assms that by (simp add: fresh_def)
  show "nw i \<noteq> 0" "h (nw i) = None" using f n by simp_all
  show "fresh nw (Suc i) k h" "fresh nw (Suc i + k) m h"
    unfolding fresh_def by (intro conjI ballI; (rule inj_on_subset [OF inj], blast | use f n in blast))+
  show "nw i \<notin> news nw (Suc i) k" "nw i \<notin> news nw (Suc i + k) m" "news nw (Suc i) k \<inter> news nw (Suc i + k) m = {}"
    using inj_on_image_mem_iff [OF inj, of i "{Suc i..<Suc i + k}"] inj_on_image_mem_iff [OF inj, of i "{Suc i + k..<Suc i + k + m}"]
      inj_on_image_Int [OF inj, of "{Suc i..<Suc i + k}" "{Suc i + k..<Suc i + k + m}"] by (simp_all add: news_def subset_insertI2)
qed

lemma fresh_frame: "fresh nw i k h \<Longrightarrow> (\<And>a. a \<in> news nw i k \<Longrightarrow> h' a = h a) \<Longrightarrow> fresh nw i k h'"
  by (simp add: fresh_def)

text \<open>Writes to fresh addresses leave a tree alone.\<close>

lemma tree_at_fresh:
  assumes "tree_at h q t" "only S h h'" "\<And>a. a \<in> S \<Longrightarrow> h a = None"
  shows "tree_at h' q t"
proof (rule tree_at_frame [OF assms(1)])
  fix a assume "a \<in> addrs (inord t)"
  then have "a \<notin> S" using tree_at_dom [OF assms(1)] assms(3) by blast
  then show "h' a = h a" using assms(2) by (simp add: only_def)
qed

definition copy_post :: "(nat \<Rightarrow> rbp) \<Rightarrow> 'v pt \<Rightarrow> rbp \<Rightarrow> nat \<Rightarrow> 'v rbheap \<Rightarrow> (rbp \<times> nat \<times> 'v rbheap) outcome option \<Rightarrow> bool" where
  "copy_post nw t p i h res \<longleftrightarrow> (\<exists>t' h'. res = Some (Done (rootp t', i + length (inord t), h')) \<and> alike t t' \<and> tree_at h' p t' \<and>
     addrs (inord t') = news nw i (length (inord t)) \<and> distinct (map fst (inord t')) \<and> only (news nw i (length (inord t))) h h')"

lemma onlyD: "only S h h' \<Longrightarrow> a \<notin> S \<Longrightarrow> h' a = h a"
  by (simp add: only_def)

lemma clone_at:
  assumes "h a = Some (mk_node c q l r (Some v))" "nw i \<noteq> a"
  shows "obind (clone_node nw a (i, h)) (\<lambda>(n, i, h). obind (wr_parent n p h) (\<lambda>h. obind (rd rb_left a h) (\<lambda>l. Done (n, l, i, h)))) =
    Done (nw i, l, Suc i, h(nw i \<mapsto> mk_node c p 0 0 (Some v)))"
  using assms by (simp add: clone_node_def create_node_def)

lemma link_copy:
  assumes "h n = Some (mk_node c p x y w)" "l = 0 \<Longrightarrow> nl = 0"
  shows "x = 0 \<Longrightarrow> (if l \<noteq> 0 then wr_left n nl h else Done h) = Done (h(n \<mapsto> mk_node c p nl y w))"
    "y = 0 \<Longrightarrow> (if l \<noteq> 0 then wr_right n nl h else Done h) = Done (h(n \<mapsto> mk_node c p x nl w))"
  using assms by auto

lemma copy_rec_at:
  assumes "tree_at h q t" "0 \<notin> addrs (inord t)" "fresh nw i (length (inord t)) h"
  shows "copy_post nw t p i h (if rootp t \<noteq> 0 then copy_rec nw (rootp t) p (i, h) else Some (Done (0, i, h)))"
  using assms
proof (induction t arbitrary: h q p i)
  case PLeaf
  show ?case unfolding copy_post_def by (rule exI [of _ PLeaf], rule exI [of _ h]) (simp add: news_def)
next
  case (PNode a c v l r)
  let ?k = "length (inord l)" and ?m = "length (inord r)" and ?n = "nw i"
  have "fresh nw i (Suc (?k + ?m)) h" using PNode.prems(3) by simp
  note f = fresh_split [OF this]
  have h: "h a = Some (mk_node c q (rootp l) (rootp r) (Some v))" "tree_at h a l" "tree_at h a r" "a \<noteq> 0" "0 \<notin> addrs (inord l)" "0 \<notin> addrs (inord r)"
    using PNode.prems by simp_all
  have na: "?n \<noteq> a" using f(2) h(1) by auto
  have lz: "rootp l = 0 \<longleftrightarrow> l = PLeaf" "rootp r = 0 \<longleftrightarrow> r = PLeaf" using h(5,6) by (cases l; cases r; auto)+
  define h1 where "h1 = h(?n \<mapsto> mk_node c p 0 0 (Some v))"
  have "only {?n} h h1" by (simp add: only_def h1_def)
  then have t1: "tree_at h1 a l" by (rule tree_at_fresh [OF h(2)]) (use f(2) in simp)
  have "fresh nw (Suc i) ?k h1" using f(5) by (intro fresh_frame [OF f(3)]) (auto simp: h1_def)
  from PNode.IH(1) [OF t1 h(5) this, of ?n] obtain l' h2 where
    l: "(if rootp l \<noteq> 0 then copy_rec nw (rootp l) ?n (Suc i, h1) else Some (Done (0, Suc i, h1))) = Some (Done (rootp l', Suc i + ?k, h2))"
      "alike l l'" "tree_at h2 ?n l'" "addrs (inord l') = news nw (Suc i) ?k" "distinct (map fst (inord l'))" "only (news nw (Suc i) ?k) h1 h2"
    unfolding copy_post_def by blast
  have n2: "h2 ?n = Some (mk_node c p 0 0 (Some v))" using l(6) f(5) by (simp add: only_def h1_def)
  define h3 where "h3 = h2(?n \<mapsto> mk_node c p (rootp l') 0 (Some v))"
  have w3: "(if rootp l \<noteq> 0 then wr_left ?n (rootp l') h2 else Done h2) = Done h3"
    using link_copy(1) [where h = h2, OF n2, of "rootp l" "rootp l'"] l(2) lz(1) by (auto simp: h3_def)
  have o3: "only (insert ?n (news nw (Suc i) ?k)) h h3" using l(6) by (auto simp: only_def h3_def h1_def)
  then have t3: "tree_at h3 a r" by (rule tree_at_fresh [OF h(3)]) (use f(2,3) in \<open>auto simp: fresh_def\<close>)
  have "a \<notin> news nw (Suc i) ?k" using h(1) f(3) by (auto simp: fresh_def)
  then have "h3 a = h a" using o3 na by (simp add: only_def)
  then have r3: "rd rb_right a h3 = Done (rootp r)" using h(1) by simp
  have "fresh nw (Suc i + ?k) ?m h3" by (intro fresh_frame [OF f(4)] onlyD [OF o3]) (use f(6,7) in blast)
  from PNode.IH(2) [OF t3 h(6) this, of ?n] obtain r' h4 where
    r: "(if rootp r \<noteq> 0 then copy_rec nw (rootp r) ?n (Suc i + ?k, h3) else Some (Done (0, Suc i + ?k, h3))) = Some (Done (rootp r', Suc i + ?k + ?m, h4))"
      "alike r r'" "tree_at h4 ?n r'" "addrs (inord r') = news nw (Suc i + ?k) ?m" "distinct (map fst (inord r'))" "only (news nw (Suc i + ?k) ?m) h3 h4"
    unfolding copy_post_def by blast
  have n4: "h4 ?n = Some (mk_node c p (rootp l') 0 (Some v))" using r(6) f(6) by (simp add: only_def h3_def)
  define h5 where "h5 = h4(?n \<mapsto> mk_node c p (rootp l') (rootp r') (Some v))"
  have w5: "(if rootp r \<noteq> 0 then wr_right ?n (rootp r') h4 else Done h4) = Done h5"
    using link_copy(2) [where h = h4, OF n4, of "rootp r" "rootp r'"] r(2) lz(2) by (auto simp: h5_def)
  have "h5 b = h2 b" if "b \<in> news nw (Suc i) ?k" for b
  proof -
    have "b \<notin> news nw (Suc i + ?k) ?m" "b \<noteq> ?n" using that f(5,7) by auto
    then show ?thesis using onlyD [OF r(6)] by (simp add: h5_def h3_def)
  qed
  then have "tree_at h5 ?n l'" using l(4) by (intro tree_at_frame [OF l(3)]) simp
  moreover have "tree_at h5 ?n r'" using f(6) r(4) by (intro tree_at_frame [OF r(3)]) (auto simp: h5_def)
  moreover have "only (news nw i (Suc (?k + ?m))) h h5" using o3 r(6) unfolding f(8) by (auto simp: only_def h5_def)
  moreover have "copy_rec nw a p (i, h) = Some (Done (?n, Suc i + ?k + ?m, h5))"
    using l(1) w3 r3 r(1) w5 by (subst copy_rec.simps) (simp add: clone_at [where h = h and nw = nw and i = i, OF h(1) na] h1_def [symmetric] split del: if_split del: add_Suc)
  ultimately show ?case using l(2,4,5) r(2,4,5) f(5-8) h(4)
    unfolding copy_post_def by (intro exI [of _ "PNode ?n c v l' r'"] exI [of _ h5]) (auto simp: h5_def)
qed

lemma rbtree_frame:
  assumes "rbtree t xs" "rb_header t' = rb_header t" "node_count t' = node_count t"
    and "\<And>a. a \<in> insert (rb_header t) (addrs xs) \<Longrightarrow> rb_heap t' a = rb_heap t a"
  shows "rbtree t' xs"
proof -
  let ?H = "rb_header t"
  obtain T m where T: "rb_at (rb_heap t) ?H (first_of ?H xs, last_of ?H xs) CTop T" "inord T = xs" "rb m T" "isblack T" "node_count t = of_nat (length xs)"
    using assms(1) unfolding rbtree_def by blast
  have "rb_at (rb_heap t') ?H (first_of ?H xs, last_of ?H xs) CTop T"
    using T(1,2) assms(4) tree_at_frame [of "rb_heap t" ?H T "rb_heap t'"] by (simp add: rb_at_def)
  then show ?thesis unfolding rbtree_def assms(2,3) using T(2-5) by blast
qed

lemma copy_into_at:
  assumes x: "rbtree (x\<lparr>rb_heap := rb_heap t\<rparr>) xs" and t: "rbtree t []" "rb_header t \<notin> insert (rb_header x) (addrs xs)"
    and f: "fresh nw 0 (length xs) (rb_heap t)"
  shows "\<exists>t' ys. copy_into nw x t = Done t' \<and> rbtree t' ys \<and> map snd ys = map snd xs \<and> addrs ys = news nw 0 (length xs) \<and>
    rb_header t' = rb_header t \<and> rbtree (x\<lparr>rb_heap := rb_heap t'\<rparr>) xs"
proof -
  let ?H = "rb_header t" and ?G = "rb_header x" and ?h = "rb_heap t"
  obtain T m where T: "rb_at ?h ?G (first_of ?G xs, last_of ?G xs) CTop T" "inord T = xs" "rb m T" "isblack T" "node_count x = of_nat (length xs)"
    using x unfolding rbtree_def by auto
  have T': "tree_at ?h ?G T" "0 \<notin> addrs (inord T)" "rd rb_parent ?G ?h = Done (rootp T)" using T(1) by (auto simp: rb_at_def nodes_apart_def)
  obtain T0 where "rb_at ?h ?H (?H, ?H) CTop T0" "inord T0 = []" using t(1) by (auto simp: rbtree_def)
  then have H: "?h ?H = Some (mk_node kRed 0 ?H ?H None)" "?H \<noteq> 0" by (cases T0; auto simp: rb_at_def nodes_apart_def)+
  show ?thesis
  proof (cases "T = PLeaf")
    case True
    then show ?thesis using t(1) T(2) T'(3) x by (auto simp: copy_into_def news_def)
  next
    case False
    then have nz: "rootp T \<noteq> 0" using T'(2) by (cases T) auto
    obtain U h1 where U: "copy_rec nw (rootp T) ?H (0, ?h) = Some (Done (rootp U, length xs, h1))" "alike T U" "tree_at h1 ?H U"
        "addrs (inord U) = news nw 0 (length xs)" "distinct (map fst (inord U))" "only (news nw 0 (length xs)) ?h h1"
      using copy_rec_at [OF T'(1,2), of nw 0 ?H] f nz T(2) by (auto simp: copy_post_def)
    have Hn: "?H \<notin> news nw 0 (length xs)" "0 \<notin> news nw 0 (length xs)" using f H(1) by (auto simp: fresh_def)
    have Un: "U \<noteq> PLeaf" using U(2) False by (cases T; cases U) auto
    define h2 where "h2 = h1(?H \<mapsto> mk_node kRed (rootp U) ?H ?H None)"
    have w2: "wr_parent ?H (rootp U) h1 = Done h2" using onlyD [OF U(6) Hn(1)] H(1) by (simp add: h2_def)
    have at2: "rb_at h2 ?H (?H, ?H) CTop U" using U(3-5) Hn H(2) by (simp add: h2_def rb_at_def nodes_apart_def)
    have min: "rb_minimum (rootp U) h2 = Done (first_of ?H (inord U))" using rb_minimum_at [OF at2 Un] .
    have h2H: "h2 ?H = Some (mk_node kRed (rootp U) ?H ?H None)" by (simp add: h2_def)
    define h3 where "h3 = h2(?H \<mapsto> mk_node kRed (rootp U) (first_of ?H (inord U)) ?H None)"
    have at3: "rb_at h3 ?H (first_of ?H (inord U), ?H) CTop U" using rb_at_ends(1) [OF at2 h2H, of "first_of ?H (inord U)"] by (simp add: h3_def)
    have max: "rb_maximum (rootp U) h3 = Done (last_of ?H (inord U))" using rb_maximum_at [OF at3 Un] .
    have h3H: "h3 ?H = Some (mk_node kRed (rootp U) (first_of ?H (inord U)) ?H None)" by (simp add: h3_def)
    define h4 where "h4 = h3(?H \<mapsto> mk_node kRed (rootp U) (first_of ?H (inord U)) (last_of ?H (inord U)) None)"
    have at4: "rb_at h4 ?H (first_of ?H (inord U), last_of ?H (inord U)) CTop U" using rb_at_ends(2) [OF at3 h3H, of "last_of ?H (inord U)"] by (simp add: h4_def)
    let ?t = "t\<lparr>rb_heap := h4, node_count := node_count x\<rparr>"
    have "copy_into nw x t = Done ?t" using T'(3) nz U(1) w2 min max h2H h3H by (simp add: copy_into_def Let_def run_loop_def h3_def h4_def)
    moreover have len: "length (inord U) = length xs" using arg_cong [OF alike_same(1) [OF U(2)], of length] T(2) by simp
    then have "rbtree ?t (inord U)" using at4 alike_same(2,3) [OF U(2)] T(3-5) unfolding rbtree_def by auto
    moreover have "rbtree (x\<lparr>rb_heap := h4\<rparr>) xs"
    proof (rule rbtree_frame [OF x])
      fix a assume a: "a \<in> insert (rb_header (x\<lparr>rb_heap := ?h\<rparr>)) (addrs xs)"
      have "?h a \<noteq> None" using a T(1,2) tree_at_dom [OF T'(1)] by (auto simp: rb_at_def)
      then have "a \<notin> news nw 0 (length xs)" using f by (auto simp: fresh_def)
      then show "rb_heap (x\<lparr>rb_heap := h4\<rparr>) a = rb_heap (x\<lparr>rb_heap := ?h\<rparr>) a"
        using onlyD [OF U(6)] a t(2) by (auto simp: h4_def h3_def h2_def)
    qed simp_all
    ultimately show ?thesis using alike_same(1) [OF U(2)] U(4) T(2) by (intro exI [of _ ?t] exI [of _ "inord U"]) simp
  qed
qed

lemma copy_RbTree_at:
  assumes "rbtree x xs" "H \<noteq> 0" "rb_heap x H = None" "fresh nw 0 (length xs) (rb_heap x)" "H \<notin> news nw 0 (length xs)"
  shows "\<exists>t' ys. copy_RbTree nw H x = Done t' \<and> rbtree t' ys \<and> map snd ys = map snd xs \<and> rb_header t' = H \<and>
    rbtree (x\<lparr>rb_heap := rb_heap t'\<rparr>) xs"
proof -
  let ?t = "new_RbTree H (rb_heap x)"
  obtain T where "rb_at (rb_heap x) (rb_header x) (first_of (rb_header x) xs, last_of (rb_header x) xs) CTop T" "inord T = xs"
    using assms(1) by (auto simp: rbtree_def)
  from rb_at_dom [OF this(1) assms(3)] this(2) have h: "H \<notin> insert (rb_header x) (addrs xs)" by (simp add: extent_def)
  have x: "rbtree (x\<lparr>rb_heap := rb_heap ?t\<rparr>) xs" by (rule rbtree_frame [OF assms(1)]) (use h in \<open>auto simp: new_RbTree_def\<close>)
  have f: "fresh nw 0 (length xs) (rb_heap ?t)" by (rule fresh_frame [OF assms(4)]) (use assms(5) in \<open>auto simp: new_RbTree_def\<close>)
  have e: "rb_header ?t = H" by (simp add: new_RbTree_def)
  show ?thesis using copy_into_at [OF x new_RbTree_at [OF assms(2)] _ f] h unfolding copy_RbTree_def e by blast
qed

lemma assign_RbTree_at:
  assumes x: "rbtree (x\<lparr>rb_heap := rb_heap t\<rparr>) xs" and t: "rbtree t zs" "insert (rb_header t) (addrs zs) \<inter> insert (rb_header x) (addrs xs) = {}"
    and f: "fresh nw 0 (length xs) (rb_heap t)"
  shows "\<exists>t' ys. assign_RbTree nw x t = Done t' \<and> rbtree t' ys \<and> map snd ys = map snd xs \<and> rb_header t' = rb_header t \<and>
    rbtree (x\<lparr>rb_heap := rb_heap t'\<rparr>) xs"
proof -
  obtain c where c: "rb_clear t = Done c" "rbtree c []" "rb_header c = rb_header t"
      "\<And>a. a \<noteq> rb_header t \<Longrightarrow> rb_heap c a = (if a \<in> addrs zs then None else rb_heap t a)"
    using rb_clear_at [OF t(1)] by blast
  have x': "rbtree (x\<lparr>rb_heap := rb_heap c\<rparr>) xs"
  proof (rule rbtree_frame [OF x])
    fix a assume "a \<in> insert (rb_header (x\<lparr>rb_heap := rb_heap t\<rparr>)) (addrs xs)"
    then have "a \<noteq> rb_header t" "a \<notin> addrs zs" using t(2) by auto
    then show "rb_heap (x\<lparr>rb_heap := rb_heap c\<rparr>) a = rb_heap (x\<lparr>rb_heap := rb_heap t\<rparr>) a" using c(4) by simp
  qed simp_all
  have hd: "rb_heap t (rb_header t) \<noteq> None" using t(1) by (auto simp: rbtree_def rb_at_def)
  have f': "fresh nw 0 (length xs) (rb_heap c)"
    unfolding fresh_def
  proof (intro conjI ballI)
    fix a assume a: "a \<in> news nw 0 (length xs)"
    then have "a \<noteq> rb_header t" using f hd by (auto simp: fresh_def)
    then show "rb_heap c a = None" using c(4) f a by (simp add: fresh_def)
  qed (use f in \<open>simp_all add: fresh_def\<close>)
  have "rb_header c \<notin> insert (rb_header x) (addrs xs)" "rb_header t \<noteq> rb_header x" using t(2) c(3) by auto
  then show ?thesis using copy_into_at [OF x' c(2) _ f'] c(1,3) by (auto simp: assign_RbTree_def)
qed

end
