(* ===== verification/Nk_Set.thy ===== *)
theory Nk_Set
  imports Rb_Copy
begin

text \<open>
  The set of the C++ library (\<open>src/libcxx/include/nk_set\<close>), which is the red-black tree with
  values as their own keys. The searches and the erasure of a key on the tree, the contract of an
  ordered store that both keep, and the behaviour of the set in every state that its operations
  reach: results, order of iteration and depth.
\<close>

subsection \<open>The class\<close>

definition set_new :: "rbp \<Rightarrow> 'k rbheap \<Rightarrow> 'k RbTree" where
  "set_new H h = new_RbTree H h"

definition set_copy :: "(nat \<Rightarrow> rbp) \<Rightarrow> rbp \<Rightarrow> 'k RbTree \<Rightarrow> 'k RbTree outcome" where
  "set_copy nw H x = copy_RbTree nw H x"

definition set_begin :: "'k RbTree \<Rightarrow> rbp outcome" where
  "set_begin t = rb_begin t"

definition set_end :: "'k RbTree \<Rightarrow> rbp" where
  "set_end t = rb_end t"

definition set_empty :: "'k RbTree \<Rightarrow> bool" where
  "set_empty t = rb_empty t"

definition set_size :: "'k RbTree \<Rightarrow> size_t" where
  "set_size t = rb_size t"

definition set_clear :: "'k RbTree \<Rightarrow> 'k RbTree outcome" where
  "set_clear t = rb_clear t"

definition set_insert :: "rbp \<Rightarrow> 'k::linorder \<Rightarrow> 'k RbTree \<Rightarrow> ((rbp \<times> bool) \<times> 'k RbTree) outcome" where
  "set_insert z x t = obind (insert_unique (\<lambda>x. x) (<) z x t) (\<lambda>(p, t). Done ((fst p, snd p), t))"

definition set_erase_at :: "rbp \<Rightarrow> 'k RbTree \<Rightarrow> 'k RbTree outcome" where
  "set_erase_at position t = rb_erase position t"

definition set_erase :: "'k::linorder \<Rightarrow> 'k RbTree \<Rightarrow> (size_t \<times> 'k RbTree) outcome" where
  "set_erase x t = rb_erase_key (\<lambda>x. x) (<) x t"

definition set_find :: "'k::linorder \<Rightarrow> 'k RbTree \<Rightarrow> rbp outcome" where
  "set_find x t = rb_find (\<lambda>x. x) (<) x t"

definition set_count :: "'k::linorder \<Rightarrow> 'k RbTree \<Rightarrow> size_t outcome" where
  "set_count x t = obind (rb_find (\<lambda>x. x) (<) x t) (\<lambda>p. Done (if p = rb_end t then 0 else 1))"

definition set_lower_bound :: "'k::linorder \<Rightarrow> 'k RbTree \<Rightarrow> rbp outcome" where
  "set_lower_bound x t = lower_bound (\<lambda>x. x) (<) x t"

definition set_upper_bound :: "'k::linorder \<Rightarrow> 'k RbTree \<Rightarrow> rbp outcome" where
  "set_upper_bound x t = upper_bound (\<lambda>x. x) (<) x t"

subsection \<open>Searches in the tree\<close>

lemma ordered_split:
  fixes key :: "'v \<Rightarrow> 'k::linorder"
  assumes "ordered key xs"
  obtains ys zs where "\<forall>a \<in> set ys. key (snd a) < k" "\<forall>a \<in> set zs. k < key (snd a)" "xs = ys @ zs"
  | ys p v zs where "\<forall>a \<in> set ys. key (snd a) < k" "\<forall>a \<in> set zs. k < key (snd a)" "xs = ys @ (p, v) # zs" "key v = k"
proof -
  obtain us vs where uv: "xs = us @ vs" "\<forall>a \<in> set us. key (snd a) < k" "vs \<noteq> [] \<Longrightarrow> \<not> key (snd (hd vs)) < k"
    using takeWhile_dropWhile_id [of "\<lambda>a. key (snd a) < k" xs] hd_dropWhile [of "\<lambda>a. key (snd a) < k" xs] set_takeWhileD by metis
  show thesis
  proof (cases vs)
    case Nil
    then show thesis using that(1) [OF uv(2), of vs] uv(1) by simp
  next
    case (Cons a zs)
    then have zs: "\<forall>b \<in> set zs. key (snd a) < key (snd b)" using assms uv(1) by (simp add: sorted_wrt_append)
    show thesis
    proof (cases "key (snd a) = k")
      case True
      then show thesis using that(2) [OF uv(2), of zs "fst a" "snd a"] zs uv(1) Cons by simp
    next
      case False
      then have "k < key (snd a)" using uv(3) Cons by simp
      then have "\<forall>b \<in> set vs. k < key (snd b)" using zs Cons by auto
      then show thesis using that(1) [OF uv(2) _ uv(1)] by simp
    qed
  qed
qed

lemma lower_bound_at:
  fixes key :: "'v \<Rightarrow> 'k::linorder"
  assumes "rbtree t xs" "ordered key xs"
  shows "lower_bound key (<) k t = Done (first_of (rb_header t) (dropWhile (\<lambda>a. key (snd a) < k) xs))"
proof -
  have "sorted_wrt (\<lambda>a b. \<not> key (snd a) < k \<longrightarrow> \<not> key (snd b) < k) xs" using assms(2) by (rule sorted_wrt_mono_rel [rotated]) auto
  from arg_cong [OF rbtree_search [OF assms(1), of "\<lambda>v. \<not> key v < k", OF this], of "\<lambda>r. obind r (\<lambda>(x, y). Done y)"]
  show ?thesis by (simp add: lower_bound_def obind_assoc)
qed

lemma upper_bound_at:
  fixes key :: "'v \<Rightarrow> 'k::linorder"
  assumes "rbtree t xs" "ordered key xs"
  shows "upper_bound key (<) k t = Done (first_of (rb_header t) (dropWhile (\<lambda>a. \<not> k < key (snd a)) xs))"
proof -
  have "sorted_wrt (\<lambda>a b. k < key (snd a) \<longrightarrow> k < key (snd b)) xs" using assms(2) by (rule sorted_wrt_mono_rel [rotated]) auto
  from arg_cong [OF rbtree_search [OF assms(1), of "\<lambda>v. k < key v", OF this], of "\<lambda>r. obind r (\<lambda>(x, y). Done y)"]
  show ?thesis by (simp add: upper_bound_def obind_assoc)
qed

lemma rbtree_value: "rbtree t xs \<Longrightarrow> (p, v) \<in> set xs \<Longrightarrow> rd_value p (rb_heap t) = Done v \<and> p \<noteq> rb_header t"
proof -
  let ?H = "rb_header t"
  assume "rbtree t xs" and v: "(p, v) \<in> set xs"
  then obtain T where T: "rb_at (rb_heap t) ?H (first_of ?H xs, last_of ?H xs) CTop T" "inord T = xs" unfolding rbtree_def by blast
  have "p \<in> addrs xs" using image_eqI [OF _ v, of p fst] by simp
  then have "p \<noteq> ?H" using T by (auto simp: rb_at_def nodes_apart_def)
  then show ?thesis using rd_value_at [OF T(1)] T(2) v by simp
qed

lemma rbtree_distinct: "rbtree t xs \<Longrightarrow> distinct (map fst xs)"
  by (auto simp: rbtree_def rb_at_def nodes_apart_def)

lemma bounds_split:
  fixes key :: "'v \<Rightarrow> 'k::linorder"
  assumes "\<forall>a \<in> set ys. key (snd a) < k" "\<forall>a \<in> set zs. k < key (snd a)"
  shows "dropWhile (\<lambda>a. key (snd a) < k) (ys @ zs) = zs" "dropWhile (\<lambda>a. \<not> k < key (snd a)) (ys @ zs) = zs"
    "key v = k \<Longrightarrow> dropWhile (\<lambda>a. key (snd a) < k) (ys @ (p, v) # zs) = (p, v) # zs"
    "key v = k \<Longrightarrow> dropWhile (\<lambda>a. \<not> k < key (snd a)) (ys @ (p, v) # zs) = zs"
proof -
  have "\<not> key (snd a) < k" if "a \<in> set zs" for a using assms(2) that by (meson less_asym)
  then have z: "dropWhile (\<lambda>a. key (snd a) < k) zs = zs" "dropWhile (\<lambda>a. \<not> k < key (snd a)) zs = zs" using assms(2) by (cases zs; simp)+
  have y: "\<forall>a \<in> set ys. \<not> k < key (snd a)" using assms(1) by (meson less_asym)
  show "dropWhile (\<lambda>a. key (snd a) < k) (ys @ zs) = zs" "dropWhile (\<lambda>a. \<not> k < key (snd a)) (ys @ zs) = zs"
    "key v = k \<Longrightarrow> dropWhile (\<lambda>a. key (snd a) < k) (ys @ (p, v) # zs) = (p, v) # zs"
    "key v = k \<Longrightarrow> dropWhile (\<lambda>a. \<not> k < key (snd a)) (ys @ (p, v) # zs) = zs"
    using z assms(1) y by (simp_all add: dropWhile_append2)
qed

lemma rb_find_at:
  fixes key :: "'v \<Rightarrow> 'k::linorder"
  assumes "rbtree t xs" "ordered key xs" "\<forall>a \<in> set ys. key (snd a) < k" "\<forall>a \<in> set zs. k < key (snd a)"
  shows "xs = ys @ zs \<Longrightarrow> rb_find key (<) k t = Done (rb_end t)"
    "xs = ys @ (p, v) # zs \<Longrightarrow> key v = k \<Longrightarrow> rb_find key (<) k t = Done p"
proof -
  let ?after = "\<lambda>j. if j = rb_end t then Done (rb_end t) else obind (rd_value j (rb_heap t)) (\<lambda>jv. Done (if k < key jv then rb_end t else j))"
  have "sorted_wrt (\<lambda>a b. \<not> key (snd a) < k \<longrightarrow> \<not> key (snd b) < k) xs" using assms(2) by (rule sorted_wrt_mono_rel [rotated]) auto
  from arg_cong [OF rbtree_search [OF assms(1), of "\<lambda>v. \<not> key v < k", OF this], of "\<lambda>r. obind r (\<lambda>(x, j). ?after j)"]
  have f: "rb_find key (<) k t = ?after (first_of (rb_header t) (dropWhile (\<lambda>a. key (snd a) < k) xs))" by (simp add: rb_find_def obind_assoc)
  show "rb_find key (<) k t = Done (rb_end t)" if "xs = ys @ zs"
  proof -
    have d: "dropWhile (\<lambda>a. key (snd a) < k) xs = zs" using bounds_split(1) [OF assms(3,4)] that by simp
    show ?thesis
    proof (cases zs)
      case (Cons b bs)
      then have "rd_value (fst b) (rb_heap t) = Done (snd b)" using rbtree_value [OF assms(1), of "fst b" "snd b"] that by simp
      then show ?thesis unfolding f d using Cons assms(4) by simp
    qed (unfold f d, simp add: rb_end_def)
  qed
  show "rb_find key (<) k t = Done p" if "xs = ys @ (p, v) # zs" "key v = k"
  proof -
    have d: "dropWhile (\<lambda>a. key (snd a) < k) xs = (p, v) # zs" using bounds_split(3) [OF assms(3,4) that(2)] that(1) by simp
    show ?thesis unfolding f d using that rbtree_value [OF assms(1), of p v] by (simp add: rb_end_def)
  qed
qed

lemma rbtree_focus:
  assumes "rbtree t (ys @ (p, v) # zs)"
  shows "increment p (rb_heap t) = Done (first_of (rb_header t) zs)"
    "ys \<noteq> [] \<Longrightarrow> decrement p (rb_heap t) = Done (last_of (rb_header t) ys)"
proof -
  let ?H = "rb_header t" and ?xs = "ys @ (p, v) # zs"
  obtain T where T: "rb_at (rb_heap t) ?H (first_of ?H ?xs, last_of ?H ?xs) CTop T" "inord T = ?xs" "isblack T"
    using assms unfolding rbtree_def by blast
  then obtain C c w l r where f: "T = plug C (PNode p c w l r)" using focus_on [of p T] by auto
  have at: "rb_at (rb_heap t) ?H (first_of ?H ?xs, last_of ?H ?xs) C (PNode p c w l r)" using T(1) f rb_at_plug by blast
  have "before C @ inord l = ys \<and> inord r @ behind C = zs"
    using split_at_key [OF rbtree_distinct [OF assms], of "before C @ inord l" w "inord r @ behind C"] T(2) f by (simp add: inord_plug)
  moreover have "C = CTop \<longrightarrow> c = kBlack" using T(3) f by auto
  ultimately show "increment p (rb_heap t) = Done (first_of ?H zs)" "ys \<noteq> [] \<Longrightarrow> decrement p (rb_heap t) = Done (last_of ?H ys)"
    using increment_at [OF at] decrement_at [OF at] by auto
qed

lemma rb_erase_key_at:
  fixes key :: "'v \<Rightarrow> 'k::linorder"
  assumes "rbtree t xs" "ordered key xs" "\<forall>a \<in> set ys. key (snd a) < k" "\<forall>a \<in> set zs. k < key (snd a)"
  shows "xs = ys @ zs \<Longrightarrow> rb_erase_key key (<) k t = Done (0, t)"
    "xs = ys @ (p, v) # zs \<Longrightarrow> key v = k \<Longrightarrow> \<exists>t'. rb_erase_key key (<) k t = Done (1, t') \<and> rbtree t' (ys @ zs) \<and> rb_header t' = rb_header t"
proof -
  let ?H = "rb_header t"
  note bounds = lower_bound_at [OF assms(1,2), of k] upper_bound_at [OF assms(1,2), of k]
  show "rb_erase_key key (<) k t = Done (0, t)" if "xs = ys @ zs"
    using bounds bounds_split(1,2) [OF assms(3,4)] that by (simp add: rb_erase_key_def while_do_unfold)
  show "\<exists>t'. rb_erase_key key (<) k t = Done (1, t') \<and> rbtree t' (ys @ zs) \<and> rb_header t' = ?H" if xs: "xs = ys @ (p, v) # zs" and "key v = k"
  proof -
    have b: "lower_bound key (<) k t = Done p" "upper_bound key (<) k t = Done (first_of ?H zs)"
      using bounds bounds_split(3,4) [OF assms(3,4) \<open>key v = k\<close>] xs by simp_all
    obtain t' where t': "rb_erase p t = Done t'" "rbtree t' (ys @ zs)" "rb_header t' = ?H" using rb_erase_at [of t ys p v zs] assms(1) unfolding xs by blast
    have "p \<noteq> ?H" using rbtree_value [OF assms(1), of p v] xs by simp
    then have "p \<noteq> first_of ?H zs" using rbtree_distinct [OF assms(1)] xs by (cases zs) auto
    then have "rb_erase_key key (<) k t = Done (1, t')"
      using b t'(1) rbtree_focus(1) [of t ys p v zs] assms(1) xs by (simp add: rb_erase_key_def while_do_unfold)
    then show ?thesis using t'(2,3) by blast
  qed
qed

subsection \<open>The contract of an ordered store\<close>

text \<open>
  The operations on the strictly ascending list of keys that a store holds, as the tree provides
  them; what they are as operations on sets follows once for every store.
\<close>

locale ordered_store =
  fixes holds :: "'s \<Rightarrow> 'k::linorder list \<Rightarrow> bool"
    and usable :: "rbp \<Rightarrow> 's \<Rightarrow> bool"
    and val :: "rbp \<Rightarrow> 's \<Rightarrow> 'k outcome"
    and put :: "rbp \<Rightarrow> 'k \<Rightarrow> 's \<Rightarrow> ((rbp \<times> bool) \<times> 's) outcome"
    and del :: "'k \<Rightarrow> 's \<Rightarrow> (size_t \<times> 's) outcome"
    and cnt :: "'k \<Rightarrow> 's \<Rightarrow> size_t outcome"
  assumes ascending: "holds s ks \<Longrightarrow> sorted_wrt (<) ks"
    and put_list: "holds s ks \<Longrightarrow> usable z s \<Longrightarrow>
      \<exists>p s'. put z k s = Done ((p, k \<notin> set ks), s') \<and> holds s' (insort_insert k ks) \<and> val p s' = Done k"
    and del_list: "holds s ks \<Longrightarrow> \<exists>s'. del k s = Done (if k \<in> set ks then 1 else 0, s') \<and> holds s' (remove1 k ks)"
    and cnt_list: "holds s ks \<Longrightarrow> cnt k s = Done (if k \<in> set ks then 1 else 0)"
begin

lemma keys_of_set: "holds s ks \<Longrightarrow> ks = sorted_list_of_set (set ks)"
  using ascending [of s ks] by (simp add: strict_sorted_iff sorted_list_of_set.idem_if_sorted_distinct)

lemma put_set:
  assumes "holds s (sorted_list_of_set S)" "finite S" "usable z s"
  shows "\<exists>p s'. put z k s = Done ((p, k \<notin> S), s') \<and> holds s' (sorted_list_of_set (insert k S)) \<and> val p s' = Done k"
proof -
  obtain p s' where p: "put z k s = Done ((p, k \<notin> S), s')" "holds s' (insort_insert k (sorted_list_of_set S))" "val p s' = Done k"
    using put_list [OF assms(1,3), of k] assms(2) by auto
  have "set (insort_insert k (sorted_list_of_set S)) = insert k S" using assms(2) by (simp add: set_insort_insert)
  then show ?thesis using p keys_of_set [OF p(2)] by simp
qed

lemma del_set:
  assumes "holds s (sorted_list_of_set S)" "finite S"
  shows "\<exists>s'. del k s = Done (if k \<in> S then 1 else 0, s') \<and> holds s' (sorted_list_of_set (S - {k}))"
  using del_list [OF assms(1), of k] assms(2) by (simp add: sorted_list_of_set_remove)

lemma cnt_set: "holds s (sorted_list_of_set S) \<Longrightarrow> finite S \<Longrightarrow> cnt k s = Done (if k \<in> S then 1 else 0)"
  using cnt_list by fastforce

end

subsection \<open>The set keeps the contract\<close>

definition set_holds :: "'k::linorder RbTree \<Rightarrow> 'k list \<Rightarrow> bool" where
  "set_holds t ks \<longleftrightarrow> sorted_wrt (<) ks \<and> (\<exists>xs. rbtree t xs \<and> map snd xs = ks)"

definition set_usable :: "rbp \<Rightarrow> 'k RbTree \<Rightarrow> bool" where
  "set_usable z t \<longleftrightarrow> z \<noteq> 0 \<and> rb_heap t z = None"

definition set_value :: "rbp \<Rightarrow> 'k RbTree \<Rightarrow> 'k outcome" where
  "set_value p t = rd_value p (rb_heap t)"

lemma ordered_id: "ordered (\<lambda>x. x) xs \<longleftrightarrow> sorted_wrt (<) (map snd xs)"
  by (simp add: sorted_wrt_map)

lemma insort_split: "\<forall>a \<in> set us. a < k \<Longrightarrow> \<forall>a \<in> set vs. k < a \<Longrightarrow> insort k (us @ vs) = us @ k # vs"
  for k :: "'k::linorder"
proof (induction us)
  case Nil
  then show ?case by (cases vs) auto
next
  case (Cons u us)
  then show ?case using less_le_not_le by auto
qed

lemma set_insert_list:
  assumes "set_holds t ks" "set_usable z t"
  shows "\<exists>p t'. set_insert z k t = Done ((p, k \<notin> set ks), t') \<and> set_holds t' (insort_insert k ks) \<and> set_value p t' = Done k"
proof -
  obtain xs where xs: "rbtree t xs" "map snd xs = ks" "sorted_wrt (<) ks" using assms(1) by (auto simp: set_holds_def)
  then have o: "ordered (\<lambda>x. x) xs" by (simp add: ordered_id)
  have z: "rb_heap t z = None" "z \<noteq> 0" using assms(2) by (simp_all add: set_usable_def)
  obtain ys zs where s: "xs = ys @ zs" "\<forall>a \<in> set ys. snd a \<le> k" "\<forall>a \<in> set zs. k < snd a"
      "if ys \<noteq> [] \<and> snd (last ys) = k then insert_unique (\<lambda>x. x) (<) z k t = Done ((fst (last ys), False), t)
       else \<exists>t'. insert_unique (\<lambda>x. x) (<) z k t = Done ((z, True), t') \<and> rbtree t' (ys @ (z, k) # zs) \<and> rb_header t' = rb_header t"
    using insert_unique_at [OF xs(1) o z, of k] by blast
  show ?thesis
  proof (cases "ys \<noteq> [] \<and> snd (last ys) = k")
    case True
    then have l: "(fst (last ys), k) \<in> set xs" using s(1) last_in_set [of ys] by (metis Un_iff prod.collapse set_append)
    then have "k \<in> set ks" using xs(2) by force
    then show ?thesis using s(4) True assms(1) rbtree_value [OF xs(1) l] by (simp add: set_insert_def insort_insert_key_def set_value_def)
  next
    case False
    then obtain t' where t': "insert_unique (\<lambda>x. x) (<) z k t = Done ((z, True), t')" "rbtree t' (ys @ (z, k) # zs)" using s(4) by auto
    have lt: "\<forall>a \<in> set ys. snd a < k"
    proof (cases ys rule: rev_cases)
      case (snoc us u)
      then have "snd u < k" "\<forall>a \<in> set us. snd a < snd u" using s(1,2) False o by (auto simp: sorted_wrt_append)
      then show ?thesis using snoc by auto
    qed simp
    have ks: "ks = map snd ys @ map snd zs" using s(1) xs(2) by simp
    have "k \<notin> set ks" using lt s(3) ks by auto
    moreover have "insort k ks = map snd (ys @ (z, k) # zs)" using insort_split [of "map snd ys" k "map snd zs"] lt s(3) ks by simp
    moreover have "sorted_wrt (<) (map snd (ys @ (z, k) # zs))" using xs(3) ks lt s(3) by (auto simp: sorted_wrt_append)
    ultimately show ?thesis using t' rbtree_value [OF t'(2), of z k]
      by (auto simp: set_insert_def insort_insert_key_def set_value_def set_holds_def)
  qed
qed

text \<open>Where a key is in a set, or would be.\<close>

lemma set_split:
  assumes "set_holds t ks"
  obtains xs ys zs where "rbtree t xs" "ordered (\<lambda>x. x) xs" "map snd xs = ks" "\<forall>a \<in> set ys. snd a < k" "\<forall>a \<in> set zs. k < snd a"
      "xs = ys @ zs" "k \<notin> set ks"
  | xs ys p zs where "rbtree t xs" "ordered (\<lambda>x. x) xs" "map snd xs = ks" "\<forall>a \<in> set ys. snd a < k" "\<forall>a \<in> set zs. k < snd a"
      "xs = ys @ (p, k) # zs" "k \<in> set ks" "remove1 k ks = map snd (ys @ zs)" "sorted_wrt (<) (remove1 k ks)"
proof -
  obtain xs where xs: "rbtree t xs" "map snd xs = ks" "sorted_wrt (<) ks" using assms by (auto simp: set_holds_def)
  then have ord: "ordered (\<lambda>x. x) xs" by (simp add: ordered_id)
  show thesis
  proof (rule ordered_split [OF ord, of k])
    fix ys zs assume s: "\<forall>a \<in> set ys. snd a < k" "\<forall>a \<in> set zs. k < snd a" "xs = ys @ zs"
    then have "k \<notin> set ks" using xs(2) by auto
    then show thesis using that(1) [OF xs(1) ord xs(2) s] by simp
  next
    fix ys p v zs assume s: "\<forall>a \<in> set ys. snd a < k" "\<forall>a \<in> set zs. k < snd a" "xs = ys @ (p, v) # zs" "v = k"
    then have "k \<notin> snd ` set ys" by auto
    then have "remove1 k ks = map snd (ys @ zs)" using xs(2) s(3,4) by (auto simp: remove1_append)
    moreover have "sorted_wrt (<) (map snd (ys @ zs))" using xs(3) unfolding xs(2) [symmetric] s(3) by (simp add: sorted_wrt_append)
    ultimately show thesis using that(2) [OF xs(1) ord xs(2) s(1,2)] s(3,4) xs(2) by auto
  qed
qed

lemma set_erase_list:
  assumes "set_holds t ks"
  shows "\<exists>t'. set_erase k t = Done (if k \<in> set ks then 1 else 0, t') \<and> set_holds t' (remove1 k ks)"
  using assms
proof (cases rule: set_split [of t ks k])
  case (1 xs ys zs)
  then show ?thesis using rb_erase_key_at(1) [OF 1(1,2,4,5,6)] assms by (simp add: set_erase_def remove1_idem)
next
  case (2 xs ys p zs)
  then obtain t' where "rb_erase_key (\<lambda>x. x) (<) k t = Done (1, t')" "rbtree t' (ys @ zs)"
    using rb_erase_key_at(2) [OF 2(1,2,4,5,6)] by auto
  then show ?thesis using 2(7-9) by (auto simp: set_erase_def set_holds_def)
qed

lemma set_find_list:
  assumes "set_holds t ks"
  shows "if k \<in> set ks then \<exists>p t'. set_find k t = Done p \<and> p \<noteq> set_end t \<and> set_value p t = Done k \<and>
      set_erase_at p t = Done t' \<and> set_holds t' (remove1 k ks)
    else set_find k t = Done (set_end t)"
  using assms
proof (cases rule: set_split [of t ks k])
  case (1 xs ys zs)
  then show ?thesis using rb_find_at(1) [OF 1(1,2,4,5,6)] by (simp add: set_find_def set_end_def)
next
  case (2 xs ys p zs)
  obtain t' where "rb_erase p t = Done t'" "rbtree t' (ys @ zs)" using rb_erase_at [of t ys p k zs] 2(1) unfolding 2(6) by blast
  moreover have "rd_value p (rb_heap t) = Done k" "p \<noteq> rb_header t" using rbtree_value [OF 2(1), of p k] 2(6) by simp_all
  ultimately show ?thesis using rb_find_at(2) [OF 2(1,2,4,5,6)] 2(7-9)
    by (auto simp: set_find_def set_end_def rb_end_def set_value_def set_erase_at_def set_holds_def)
qed

lemma set_count_list: "set_holds t ks \<Longrightarrow> set_count k t = Done (if k \<in> set ks then 1 else 0)"
  using set_find_list [of t ks k] by (auto simp: set_count_def set_find_def set_end_def split: if_splits)

interpretation nks: ordered_store set_holds set_usable set_value set_insert set_erase set_count
  by unfold_locales (simp_all add: set_insert_list set_erase_list set_count_list, simp add: set_holds_def)

lemma set_new_list: "H \<noteq> 0 \<Longrightarrow> set_holds (set_new H h) []"
  using new_RbTree_at [of H h] by (simp add: set_holds_def set_new_def)

lemma set_clear_list: "set_holds t ks \<Longrightarrow> \<exists>t'. set_clear t = Done t' \<and> set_holds t' []"
  using rb_clear_at by (fastforce simp: set_holds_def set_clear_def)

lemma set_copy_list:
  assumes "set_holds x ks" "H \<noteq> 0" "rb_heap x H = None" "fresh nw 0 (length ks) (rb_heap x)" "H \<notin> news nw 0 (length ks)"
  shows "\<exists>t'. set_copy nw H x = Done t' \<and> set_holds t' ks \<and> set_holds (x\<lparr>rb_heap := rb_heap t'\<rparr>) ks"
proof -
  obtain xs where xs: "rbtree x xs" "map snd xs = ks" using assms(1) by (auto simp: set_holds_def)
  have "length ks = length xs" using xs(2) by auto
  then obtain t' ys where "copy_RbTree nw H x = Done t'" "rbtree t' ys" "map snd ys = map snd xs" "rbtree (x\<lparr>rb_heap := rb_heap t'\<rparr>) xs"
    using copy_RbTree_at [OF xs(1) assms(2,3), of nw] assms(4,5) by auto
  then show ?thesis using assms(1) xs(2) by (auto simp: set_copy_def set_holds_def)
qed

lemma set_size_list: "set_holds t ks \<Longrightarrow> unat (set_size t) = length ks"
  using node_count_at by (fastforce simp: set_holds_def set_size_def rb_size_def)

subsection \<open>Iteration\<close>

fun advance :: "nat \<Rightarrow> 'v RbTree \<Rightarrow> rbp \<Rightarrow> rbp outcome" where
  "advance 0 t p = Done p"
| "advance (Suc n) t p = obind (increment p (rb_heap t)) (advance n t)"

fun retreat :: "nat \<Rightarrow> 'v RbTree \<Rightarrow> rbp \<Rightarrow> rbp outcome" where
  "retreat 0 t p = Done p"
| "retreat (Suc n) t p = obind (decrement p (rb_heap t)) (retreat n t)"

lemma rbtree_begin: "rbtree t xs \<Longrightarrow> rb_begin t = Done (first_of (rb_header t) xs)"
  by (auto simp: rbtree_def rb_at_def rb_begin_def)

lemma rbtree_nth:
  assumes "rbtree t xs" "j < length xs"
  shows "rbtree t (take j xs @ (fst (xs ! j), snd (xs ! j)) # drop (Suc j) xs)" "first_of (rb_header t) (drop j xs) = fst (xs ! j)"
proof -
  have s: "take j xs @ (fst (xs ! j), snd (xs ! j)) # drop (Suc j) xs = xs" using id_take_nth_drop [OF assms(2)] by simp
  show "rbtree t (take j xs @ (fst (xs ! j), snd (xs ! j)) # drop (Suc j) xs)" unfolding s by (rule assms(1))
  show "first_of (rb_header t) (drop j xs) = fst (xs ! j)" using Cons_nth_drop_Suc [OF assms(2)] first_of_simps(2) by metis
qed

lemma increment_nth:
  assumes "rbtree t xs" "j < length xs"
  shows "increment (first_of (rb_header t) (drop j xs)) (rb_heap t) = Done (first_of (rb_header t) (drop (Suc j) xs))"
  unfolding rbtree_nth(2) [OF assms] by (rule rbtree_focus(1) [OF rbtree_nth(1) [OF assms]])

lemma decrement_nth:
  assumes "rbtree t xs" "Suc j \<le> length xs"
  shows "decrement (first_of (rb_header t) (drop (Suc j) xs)) (rb_heap t) = Done (first_of (rb_header t) (drop j xs))"
proof -
  let ?H = "rb_header t"
  have j: "j < length xs" using assms(2) by simp
  have l: "last_of ?H (take (Suc j) xs) = fst (xs ! j)" using j by (simp add: take_Suc_conv_app_nth)
  show ?thesis
  proof (cases "Suc j = length xs")
    case True
    obtain T where T: "rb_at (rb_heap t) ?H (first_of ?H xs, last_of ?H xs) CTop T" "inord T = xs" using assms(1) unfolding rbtree_def by blast
    then have "T \<noteq> PLeaf" using j by auto
    then have "decrement ?H (rb_heap t) = Done (last_of ?H xs)" using decrement_end [OF T(1)] by simp
    then show ?thesis using rbtree_nth(2) [OF assms(1) j] l True by simp
  next
    case False
    then have j': "Suc j < length xs" using assms(2) by simp
    have "take (Suc j) xs \<noteq> []" using j by auto
    then show ?thesis using rbtree_focus(2) [OF rbtree_nth(1) [OF assms(1) j']] unfolding rbtree_nth(2) [OF assms(1) j'] rbtree_nth(2) [OF assms(1) j] l by blast
  qed
qed

lemma advance_at:
  assumes "rbtree t xs"
  shows "j + i \<le> length xs \<Longrightarrow> advance i t (first_of (rb_header t) (drop j xs)) = Done (first_of (rb_header t) (drop (j + i) xs))"
proof (induction i arbitrary: j)
  case (Suc i)
  then show ?case using increment_nth [OF assms, of j] Suc.IH [of "Suc j"] by simp
qed simp

lemma retreat_at:
  assumes "rbtree t xs"
  shows "j + i \<le> length xs \<Longrightarrow> retreat i t (first_of (rb_header t) (drop (j + i) xs)) = Done (first_of (rb_header t) (drop j xs))"
proof (induction i)
  case (Suc i)
  then show ?case using decrement_nth [OF assms, of "j + i"] by simp
qed simp

subsection \<open>Depth\<close>

fun ascend :: "nat \<Rightarrow> 'v RbTree \<Rightarrow> rbp \<Rightarrow> rbp outcome" where
  "ascend 0 t p = Done p"
| "ascend (Suc n) t p = obind (rd rb_parent p (rb_heap t)) (ascend n t)"

fun height :: "'v pt \<Rightarrow> nat" where
  "height PLeaf = 0"
| "height (PNode p c v l r) = Suc (max (height l) (height r))"

fun depth :: "'v pc \<Rightarrow> nat" where
  "depth CTop = 0"
| "depth (CLeft C p c v r) = Suc (depth C)"
| "depth (CRight C p c v l) = Suc (depth C)"

lemma depth_height: "depth C + height t \<le> height (plug C t)"
  by (induction C t rule: plug.induct) auto

lemma height_rb: "rb n t \<Longrightarrow> height t \<le> 2 * n + (if isblack t then 0 else 1)"
proof (induction t arbitrary: n)
  case (PNode p c v l r)
  show ?case
  proof (cases c)
    case kRed
    then show ?thesis using PNode.IH(1) [of n] PNode.IH(2) [of n] PNode.prems by simp
  next
    case kBlack
    then obtain m where m: "n = Suc m" "rb m l" "rb m r" using PNode.prems by auto
    then show ?thesis using PNode.IH(1) [of m] PNode.IH(2) [of m] kBlack by (auto split: if_splits)
  qed
qed simp

lemma size_rb: "rb n t \<Longrightarrow> 2 ^ n \<le> length (inord t) + 1"
proof (induction t arbitrary: n)
  case (PNode p c v l r)
  show ?case
  proof (cases c)
    case kRed
    then show ?thesis using PNode.IH(1) [of n] PNode.prems by simp
  next
    case kBlack
    then obtain m where "n = Suc m" "rb m l" "rb m r" using PNode.prems by auto
    then show ?thesis using PNode.IH(1) [of m] PNode.IH(2) [of m] by simp
  qed
qed simp

definition below :: "nat \<Rightarrow> 'v RbTree \<Rightarrow> rbp \<Rightarrow> bool" where
  "below n t a \<longleftrightarrow> ascend (Suc n) t a = Done (rb_header t) \<and> (\<forall>d \<le> n. ascend d t a \<noteq> Done (rb_header t))"

lemma below_Suc:
  assumes "rd rb_parent a (rb_heap t) = Done p" "a \<noteq> rb_header t" "below n t p"
  shows "below (Suc n) t a"
proof -
  have "ascend d t a \<noteq> Done (rb_header t)" if "d \<le> Suc n" for d
    using that assms by (cases d) (auto simp: below_def)
  then show ?thesis using assms by (simp add: below_def)
qed

lemma node_below: "rb_at (rb_heap t) (rb_header t) e C (PNode a c v l r) \<Longrightarrow> below (depth C) t a"
proof (induction C arbitrary: a c v l r)
  case CTop
  then show ?case using rb_at_look [OF CTop] rb_at_rootp_nz [OF CTop] by (simp add: below_def)
next
  case (CLeft C p' c' v' r')
  then show ?case using rb_at_look [OF CLeft.prems] rb_at_rootp_nz [OF CLeft.prems] CLeft.IH [of p' c' v' "PNode a c v l r" r']
    by (auto intro: below_Suc)
next
  case (CRight C p' c' v' l')
  then show ?case using rb_at_look [OF CRight.prems] rb_at_rootp_nz [OF CRight.prems] CRight.IH [of p' c' v' l' "PNode a c v l r"]
    by (auto intro: below_Suc)
qed

lemma rbtree_depth:
  assumes "rbtree t xs" "(p, v) \<in> set xs"
  shows "\<exists>n. below n t p \<and> 2 ^ ((n + 2) div 2) \<le> length xs + 1"
proof -
  let ?H = "rb_header t"
  obtain T m where T: "rb_at (rb_heap t) ?H (first_of ?H xs, last_of ?H xs) CTop T" "inord T = xs" "rb m T" "isblack T"
    using assms(1) unfolding rbtree_def by blast
  have "p \<in> addrs (inord T)" using image_eqI [OF _ assms(2), of p fst] T(2) by simp
  then obtain C c w l r where f: "T = plug C (PNode p c w l r)" using focus_on by blast
  have "rb_at (rb_heap t) ?H (first_of ?H xs, last_of ?H xs) C (PNode p c w l r)" using T(1) f rb_at_plug by blast
  then have "below (depth C) t p" by (rule node_below)
  moreover have "Suc (depth C) \<le> 2 * m" using depth_height [of C "PNode p c w l r"] height_rb [OF T(3)] T(4) f by simp
  then have "2 ^ ((depth C + 2) div 2) \<le> (2::nat) ^ m" by (intro power_increasing) simp_all
  ultimately show ?thesis using size_rb [OF T(3)] T(2) by (intro exI [of _ "depth C"]) simp
qed

subsection \<open>All states of a set\<close>

text \<open>
  The states that the operations reach, each with the set of keys that the calls before add up to.
  An erased position is one that \<open>find\<close> returned, and the addresses of new nodes are not in use.
\<close>

inductive set_reachable :: "'k::linorder RbTree \<Rightarrow> 'k set \<Rightarrow> bool" where
  reach_set_new: "H \<noteq> 0 \<Longrightarrow> set_reachable (set_new H h) {}"
| reach_set_copy: "set_reachable x S \<Longrightarrow> H \<noteq> 0 \<Longrightarrow> rb_heap x H = None \<Longrightarrow> fresh nw 0 (card S) (rb_heap x) \<Longrightarrow>
    H \<notin> news nw 0 (card S) \<Longrightarrow> set_copy nw H x = Done t \<Longrightarrow> set_reachable t S"
| reach_set_insert: "set_reachable t S \<Longrightarrow> set_usable z t \<Longrightarrow> set_insert z k t = Done (r, t') \<Longrightarrow> set_reachable t' (insert k S)"
| reach_set_erase: "set_reachable t S \<Longrightarrow> set_erase k t = Done (n, t') \<Longrightarrow> set_reachable t' (S - {k})"
| reach_set_erase_at: "set_reachable t S \<Longrightarrow> set_find k t = Done p \<Longrightarrow> p \<noteq> set_end t \<Longrightarrow> set_erase_at p t = Done t' \<Longrightarrow>
    set_reachable t' (S - {k})"
| reach_set_clear: "set_reachable t S \<Longrightarrow> set_clear t = Done t' \<Longrightarrow> set_reachable t' {}"

lemma set_reachable_holds: "set_reachable t S \<Longrightarrow> finite S \<and> set_holds t (sorted_list_of_set S)"
proof (induction rule: set_reachable.induct)
  case (reach_set_new H h)
  then show ?case by (simp add: set_new_list)
next
  case (reach_set_copy x S H nw t)
  then show ?case using set_copy_list [of x "sorted_list_of_set S" H nw] by auto
next
  case (reach_set_insert t S z k r t')
  then show ?case using nks.put_set [of t S z k] by auto
next
  case (reach_set_erase t S k n t')
  then show ?case using nks.del_set [of t S k] by auto
next
  case (reach_set_erase_at t S k p t')
  then show ?case using set_find_list [of t "sorted_list_of_set S" k] by (auto simp: sorted_list_of_set_remove split: if_splits)
next
  case (reach_set_clear t S t')
  then show ?case using set_clear_list by fastforce
qed

text \<open>A set of the keys 3 and 5, as two insertions make it.\<close>

abbreviation one_key :: "nat RbTree" where
  "one_key \<equiv> \<lparr>node_count = 1, rb_header = 8, rb_heap = [8 \<mapsto> mk_node kRed 16 16 16 None, 16 \<mapsto> mk_node kBlack 8 0 0 (Some 5)]\<rparr>"

abbreviation two_keys :: "nat RbTree" where
  "two_keys \<equiv> \<lparr>node_count = 2, rb_header = 8, rb_heap =
     [8 \<mapsto> mk_node kRed 16 32 16 None, 16 \<mapsto> mk_node kBlack 8 32 0 (Some 5), 32 \<mapsto> mk_node kRed 16 0 0 (Some 3)]\<rparr>"

lemmas rb_eval = insert_unique_def insert_search_def while_do_unfold rb_begin_def insert_aux_def create_node_def link_node_def
  RbTreeRebalance_def rebalance_cond_def new_RbTree_def

lemma two_keys_made: "set_insert 16 5 (set_new 8 Map.empty) = Done ((16, True), one_key)" "set_insert 32 3 one_key = Done ((32, True), two_keys)"
  by (simp_all add: set_insert_def set_new_def rb_eval fun_upd_twist)

lemma one_key_reachable: "set_reachable one_key {5}"
  using reach_set_insert [OF reach_set_new [of 8 Map.empty] _ two_keys_made(1)] by (simp add: set_usable_def set_new_def new_RbTree_def)

lemma two_keys_reachable: "set_reachable two_keys {3, 5}"
  using reach_set_insert [OF one_key_reachable _ two_keys_made(2)] by (simp add: set_usable_def)

text \<open>
  C18: In every state that the operations of the set reach, its size is the number of keys,
  \<open>find\<close> and \<open>count\<close> say whether a key is in it, \<open>insert\<close> returns a position that holds the
  key and whether the key is new, \<open>erase\<close> returns the number of keys removed, and the states
  after \<open>insert\<close> and \<open>erase\<close> are those of the set with and without the key. None of the
  operations faults or loops.
\<close>

theorem nk_set_correct:
  assumes "set_reachable t S"
  shows "unat (set_size t) = card S \<and> (set_empty t \<longleftrightarrow> S = {}) \<and>
    set_count k t = Done (if k \<in> S then 1 else 0) \<and>
    (\<exists>p. set_find k t = Done p \<and> (if k \<in> S then set_value p t = Done k else p = set_end t)) \<and>
    (set_usable z t \<longrightarrow> (\<exists>p t'. set_insert z k t = Done ((p, k \<notin> S), t') \<and> set_value p t' = Done k \<and> set_reachable t' (insert k S))) \<and>
    (\<exists>t'. set_erase k t = Done (if k \<in> S then 1 else 0, t') \<and> set_reachable t' (S - {k}))"
proof -
  have S: "finite S" "set_holds t (sorted_list_of_set S)" using set_reachable_holds [OF assms] by simp_all
  have size: "unat (set_size t) = card S" using set_size_list [OF S(2)] by simp
  then have "set_empty t \<longleftrightarrow> S = {}" using S(1) unat_eq_zero [of "node_count t"] by (simp add: set_empty_def rb_empty_def set_size_def rb_size_def)
  moreover have "\<exists>p. set_find k t = Done p \<and> (if k \<in> S then set_value p t = Done k else p = set_end t)"
    using set_find_list [OF S(2), of k] S(1) by (auto split: if_splits)
  moreover have "\<exists>p t'. set_insert z k t = Done ((p, k \<notin> S), t') \<and> set_value p t' = Done k \<and> set_reachable t' (insert k S)" if "set_usable z t"
    using nks.put_set [OF S(2,1) that, of k] reach_set_insert [OF assms that] by blast
  moreover have "\<exists>t'. set_erase k t = Done (if k \<in> S then 1 else 0, t') \<and> set_reachable t' (S - {k})"
    using nks.del_set [OF S(2,1), of k] reach_set_erase [OF assms] by blast
  ultimately show ?thesis using size nks.cnt_set [OF S(2,1)] by blast
qed

theorem nk_set_correct_witness:
  "unat (set_size two_keys) = 2 \<and> set_count 4 two_keys = Done 0 \<and> set_count 5 two_keys = Done 1 \<and>
   (\<exists>p t'. set_insert 48 4 two_keys = Done ((p, True), t') \<and> set_value p t' = Done 4) \<and> (\<exists>t'. set_erase 5 two_keys = Done (1, t'))"
  using nk_set_correct [OF two_keys_reachable, of 4 48] nk_set_correct [OF two_keys_reachable, of 5 48] by (auto simp: set_usable_def)

text \<open>
  C19: Iteration over a set visits its keys in ascending order: the position reached by \<open>++\<close>
  from \<open>begin()\<close> \<open>i\<close> times is the one reached by \<open>--\<close> from \<open>end()\<close> as often as keys remain,
  it holds the key with \<open>i\<close> smaller ones, and after all of them it is \<open>end()\<close>.
\<close>

theorem nk_set_iteration:
  assumes "set_reachable t S" "i \<le> card S"
  shows "\<exists>p. obind (set_begin t) (advance i t) = Done p \<and> retreat (card S - i) t (set_end t) = Done p \<and>
    (if i < card S then set_value p t = Done (sorted_list_of_set S ! i) else p = set_end t)"
proof -
  obtain xs where xs: "rbtree t xs" "map snd xs = sorted_list_of_set S" using set_reachable_holds [OF assms(1)] by (auto simp: set_holds_def)
  have len: "length xs = card S" using arg_cong [OF xs(2), of length] by simp
  let ?p = "first_of (rb_header t) (drop i xs)"
  have "obind (set_begin t) (advance i t) = Done ?p"
    using rbtree_begin [OF xs(1)] advance_at [OF xs(1), of 0 i] assms(2) len by (simp add: set_begin_def)
  moreover have "retreat (card S - i) t (set_end t) = Done ?p"
    using retreat_at [OF xs(1), of i "card S - i"] assms(2) len by (simp add: set_end_def rb_end_def)
  moreover have "if i < card S then set_value ?p t = Done (sorted_list_of_set S ! i) else ?p = set_end t"
  proof (cases "i < card S")
    case True
    then have i: "i < length xs" using len by simp
    have "set_value (fst (xs ! i)) t = Done (snd (xs ! i))" using rbtree_value [OF xs(1), of "fst (xs ! i)" "snd (xs ! i)"] i by (simp add: set_value_def)
    then show ?thesis using True rbtree_nth(2) [OF xs(1) i] nth_map [OF i, of snd] xs(2) by simp
  qed (use len in \<open>simp add: set_end_def rb_end_def\<close>)
  ultimately show ?thesis by blast
qed

theorem nk_set_iteration_witness:
  "\<exists>p. obind (set_begin two_keys) (advance 1 two_keys) = Done p \<and> retreat 1 two_keys 8 = Done p \<and> set_value p two_keys = Done 5"
  using nk_set_iteration [OF two_keys_reachable, of 1] by (simp add: set_end_def rb_end_def)

text \<open>
  C20: A set of \<open>n\<close> keys is balanced in every state that its operations reach: the path of
  parent pointers from any position to the header has a length \<open>d\<close> with \<open>d \<le> 2 log\<^sub>2 (n + 1)\<close>.
\<close>

theorem nk_set_balanced:
  assumes "set_reachable t S" "k \<in> S"
  shows "\<exists>p d. set_find k t = Done p \<and> ascend d t p = Done (set_end t) \<and> (\<forall>e < d. ascend e t p \<noteq> Done (set_end t)) \<and>
    2 ^ ((d + 1) div 2) \<le> card S + 1"
proof -
  have S: "finite S" "set_holds t (sorted_list_of_set S)" using set_reachable_holds [OF assms(1)] by simp_all
  have "\<exists>p n. set_find k t = Done p \<and> below n t p \<and> 2 ^ ((n + 2) div 2) \<le> card S + 1"
    using S(2)
  proof (cases rule: set_split [of t "sorted_list_of_set S" k])
    case (1 xs ys zs)
    then show ?thesis using assms(2) S(1) by simp
  next
    case (2 xs ys p zs)
    have "length xs = card S" using arg_cong [OF 2(3), of length] by simp
    then show ?thesis using rbtree_depth [OF 2(1), of p k] 2(6) rb_find_at(2) [OF 2(1,2,4,5,6)] by (auto simp: set_find_def)
  qed
  then obtain p n where "set_find k t = Done p" "below n t p" "2 ^ ((n + 2) div 2) \<le> card S + 1" by blast
  then show ?thesis by (intro exI [of _ p] exI [of _ "Suc n"]) (auto simp: below_def set_end_def rb_end_def)
qed

theorem nk_set_balanced_witness:
  "\<exists>p d. set_find 3 two_keys = Done p \<and> ascend d two_keys p = Done 8 \<and> 2 ^ ((d + 1) div 2) \<le> (3::nat)"
proof -
  have "card {3, 5 :: nat} + 1 = 3" "set_end two_keys = 8" by (simp_all add: set_end_def rb_end_def)
  then show ?thesis using nk_set_balanced [OF two_keys_reachable, of 3] by (metis insertI1)
qed

end
