(* ===== verification/Spec2Isabelle.thy ===== *)
theory Spec2Isabelle
  imports Kernel_Mutex Syscall Libc_Stdlib Apic Plic Interrupts Memory_Init Elf_Loader Mpmc_Correct Page_Formats Cxx_Runtime Console Kernel_Main Nk_Set
begin

text \<open>
  \<^bold>\<open>A verification library for the NaiLong kernel.\<close>

  The program is a small multi-core kernel in C++ (\<open>src/src\<close>) with ports to x86-64, RISC-V and
  AArch64, on top of a library of processor accessors (\<open>src/3rd/cpu_io\<close>). Its parts are the task
  subsystem (task control blocks, four schedulers, the task manager with its operations, mutexes),
  the virtual memory, the heap, the loaders of ELF images, the system calls, a freestanding C and C++
  library with formatted output, and the drivers of the interrupt controllers and of the serial
  consoles. \<open>main\<close> builds the page tables from the heap, starts the task manager of the core, adds the
  first tasks and enters the scheduler. A timer interrupt calls \<open>TickUpdate\<close>, which wakes sleeping tasks and may
  call \<open>Schedule\<close>; system calls and mutexes use \<open>Block\<close>, \<open>Wakeup\<close>, \<open>Sleep\<close>, \<open>Exit\<close>, \<open>Wait\<close> and
  \<open>Clone\<close> of the task manager; \<open>Clone\<close> and the destructor of a task use the page directories of the
  virtual memory.

  \<^bold>\<open>Conventions.\<close> Definitions keep the names of the source. Machine integers are words of their
  width, so that arithmetic wraps as in the source. A class is a record, its methods are functions
  that take and return the state. A function that may fail to return has a result in \<open>outcome\<close>:
  \<open>Done\<close> or \<open>Fault\<close> with the reason (failed assertion, endless loop, use of a dead pointer and so
  on; \<open>NK_Prelude\<close>). \<open>Expected<T>\<close> is the sum type \<open>ErrorCode + 'a\<close> (\<open>Kernel_Error\<close>). Loops whose end is
  not evident are partial functions into \<open>option\<close>, and \<open>run_loop\<close> turns a loop without end into
  \<open>Fault LoopForever\<close>; no theorem about a result is therefore satisfied by not returning. Pointers to
  tasks are keys of a heap of task control blocks. Logging has no effect in the model.

  \<^bold>\<open>Theories.\<close>

  \<^item> \<open>NK_Prelude\<close>, \<open>Kernel_Error\<close>, \<open>Resource_Id\<close>: outcomes, heaps, \<open>expected.hpp\<close>, \<open>resource_id.hpp\<close>.
  \<^item> \<open>Spin_Lock\<close>: \<open>spinlock.hpp\<close>, as functions and as a step relation over the atomic accesses of
    several cores: mutual exclusion, exactness of the recursion check, and an interleaving that loses
    the interrupt state.
  \<^item> \<open>Nk_Priority_Queue\<close>, \<open>Nk_Unordered_Map\<close>: the containers \<open>nk_priority_queue\<close> (a binary heap as the
    library implements it) and \<open>nk_unordered_map\<close> (buckets with rehashing), each an interpretation of a
    locale with the laws its clients use.
  \<^item> \<open>Rb_Tree\<close>: \<open>nk_rb_tree\<close> on a heap of nodes with parent pointers, the red-black tree of the C++ library.
    \<open>Rb_Heap\<close>, \<open>Rb_Mirror\<close>: a tree in the heap around a position, writes and rotations, and the symmetry of
    left and right. \<open>Rb_Insert\<close>, \<open>Rb_Erase\<close>: the two rebalancing loops restore the red-black invariant and
    return. \<open>Rb_Ops\<close>, \<open>Rb_Splice\<close>, \<open>Rb_Copy\<close>: searches, iterator steps and insertion; erasure; clearing and
    copying. \<open>Nk_Set\<close>: \<open>nk_set\<close> on top of the tree, an interpretation of the locale of an ordered store, and
    its results, order of iteration and depth in every state that its operations reach.
  \<^item> \<open>Task_Control_Block\<close>, \<open>Schedulers\<close>: task records, thread groups, and the FIFO, round-robin, idle
    and fair schedulers behind \<open>scheduler_base.hpp\<close>; the locale of a scheduler's queue and its
    interpretations.
  \<^item> \<open>Task_Manager\<close>, \<open>Scheduling\<close>: \<open>task_manager.cpp\<close>, \<open>schedule.cpp\<close>, \<open>tick_update.cpp\<close>, \<open>sleep.cpp\<close>,
    \<open>block.cpp\<close>, \<open>wakeup.cpp\<close> over the record \<open>kernel\<close>.
  \<^item> \<open>Core_Refinement\<close>, \<open>Core_Operations\<close>: an abstract core (running, ready, sleeping and waiting tasks)
    and the simulation of each operation by it.
  \<^item> \<open>Kernel_Invariant\<close>, \<open>Kernel_Steps\<close>: the invariant of the whole system over all cores, its
    preservation, and reachability as a step relation; progress and one-core-per-task.
  \<^item> \<open>Kernel_Main\<close>: \<open>create_test_tasks\<close>, \<open>main\<close> and \<open>main_smp\<close> of \<open>main.cpp\<close> over the task manager: a
    core that enters them is in the scheduler afterwards, with the invariant of the system kept.
  \<^item> \<open>Scheduling_Properties\<close>: what each operation does to the abstract system, wake-up times included.
  \<^item> \<open>Page_Table\<close>, \<open>Virtual_Memory\<close>: the page table entries of x86-64
    (\<open>cpu_io/include/x86_64/virtual_memory.hpp\<close>) and \<open>virtual_memory.cpp\<close>. \<open>Page_Tree\<close>, \<open>Page_Mapping\<close>,
    \<open>Page_Range\<close>, \<open>Page_Directory\<close>: the tree of tables, and the correctness of mapping, unmapping,
    identity mapping, cloning and destruction. \<open>Page_Formats\<close>: the entries and the translation registers of
    RISC-V and AArch64, and the locale of a page table format with its three interpretations.
  \<^item> \<open>Byte_Memory\<close>, \<open>Kernel_Heap\<close>: memory as bytes, and the bump allocator of \<open>3rd/bmalloc\<close> behind the C
    interface of \<open>memory.cpp\<close>: blocks do not overlap. \<open>Memory_Init\<close>: \<open>MemoryInit\<close>, the composition of the
    heap with the page tables.
  \<^item> \<open>Kernel_Elf\<close>, \<open>Elf_Loader\<close>: the parser of the kernel image (\<open>kernel_elf.cpp\<close>) and \<open>LoadElf\<close> of
    \<open>task_control_block.cpp\<close>, with the contents of every mapped page.
  \<^item> \<open>Mpmc_Queue\<close>, \<open>Mpmc_Ring\<close>, \<open>Mpmc_Correct\<close>: the lock-free queue of \<open>3rd/MPMCQueue\<close>, one step per access
    to shared memory, and its refinement of a bounded first-in first-out queue.
  \<^item> \<open>Task_Lifecycle\<close>, \<open>Lifecycle_Properties\<close>: \<open>exit.cpp\<close>, \<open>wait.cpp\<close>, \<open>clone.cpp\<close>.
  \<^item> \<open>Kernel_Mutex\<close>: \<open>mutex.cpp\<close> with \<open>Lock\<close> cut at the switch to another task, and its step relation.
  \<^item> \<open>Syscall\<close>: \<open>syscall.cpp\<close>.
  \<^item> \<open>Libc_String\<close>, \<open>Libc_Stdlib\<close>: \<open>nk_string.c\<close>, \<open>nk_ctype.c\<close> and the integer conversions of
    \<open>nk_stdlib.c\<close> over a byte memory. \<open>Nanoprintf\<close>, \<open>Printf\<close>: \<open>3rd/nanoprintf\<close> with \<open>nk_stdio.c\<close> and the stream
    operators: the text that a format denotes, its output to a function and into a buffer, and reading
    back what was printed. \<open>Cxx_Runtime\<close>: \<open>nk_libcxx.cpp\<close> and \<open>nk_new.cpp\<close>: guards of static variables as a
    state machine of the cores, destructors, and the forms of \<open>new\<close> and \<open>delete\<close>.
  \<^item> \<open>Device_Registers\<close>: the contract of device registers, a locale interpreted by the drivers.
    \<open>Local_Apic\<close>, \<open>Io_Apic\<close>, \<open>Apic\<close>: \<open>driver/apic\<close> with the register accessors of cpu_io. \<open>Plic\<close>:
    \<open>driver/plic\<close>. \<open>Gic\<close>: \<open>driver/gic\<close>. \<open>Interrupts\<close>: the handler tables and inter-processor interrupts of
    the three ports, a locale with three interpretations. \<open>Console\<close>: the drivers \<open>ns16550a\<close> and \<open>pl011\<close> and
    the serial port of x86-64 over a device that is an argument, the locale of a console, and its
    composition with \<open>nk_printf\<close>.

  \<^bold>\<open>Bounds.\<close> No model runs on fuel. \<open>IoApic_mask_all\<close> recurses on 256, the largest number of entries the
  version register can announce; the page table walk recurses on the level. Time-outs of hardware are
  explicit: \<open>hw_busy\<close> and \<open>gh_wakes\<close> say whether the device ever answers, and \<open>answers\<close> that a console
  reports a free transmitter after finitely many reads. The theorem on the lock-free queue holds for
  capacities from 2 to \<open>2 ^ 62\<close> and up to \<open>2 ^ 63\<close> pushes, below which its counters do not run through half
  their range. The nodes of the red-black tree are at addresses that \<open>new\<close> returns, which are arguments
  and must not be in use. The theorem on \<open>MemoryInit\<close> asks for 8214 bytes of heap per page table, the most that
  aligning one can cost. A buffer of \<open>nk_snprintf\<close> has at most \<open>2 ^ 63\<close> bytes. A core number is below
  \<open>MAX_CORE_COUNT\<close>, the size of the arrays that it indexes.

  \<^bold>\<open>Not modelled.\<close> \<open>kernel_log.hpp\<close> adds a colour and a lock to \<open>nk_printf\<close>; logging has no effect on the
  modelled state. \<open>kernel_fdt.cpp\<close> is a sequence of calls of libfdt (\<open>3rd/dtc\<close>) whose results are looked up
  in a tree that the firmware supplies. The boot code, the assembly of the context switch and the
  trap entry, the code that reads processor registers (\<open>arch_main.cpp\<close>, \<open>backtrace.cpp\<close>) and the parts of
  \<open>interrupt_main.cpp\<close> and \<open>timer.cpp\<close> that only register handlers and write processor registers are
  outside the language of the model. \<open>strtod\<close>, \<open>strtof\<close> and \<open>atof\<close> compute with floating point numbers. Of
  \<open>3rd/bmalloc\<close> the kernel uses the bump allocator only; the other allocators, the OpenSBI firmware, dtc
  and googletest are separate programs. The sequences \<open>nk_list\<close>, \<open>nk_vector\<close> and \<open>nk_queue\<close> are lists in
  the models of their clients; their own nodes and buffers are not modelled.
\<close>

end
